(* ===== verification/Prelude.thy ===== *)
theory Prelude
  imports Main "HOL-Library.Word"
begin

text \<open>
  Shared vocabulary of the development: the machine integers of the C++ code, the ways in
  which a call can fail to return, a fold for loops that stop at the first failure, and
  generic facts about words and lists that several components use.
\<close>

section \<open>Machine integers\<close>

type_synonym u8 = "8 word"
type_synonym u16 = "16 word"
type_synonym u32 = "32 word"
type_synonym u64 = "64 word"
type_synonym usize = "64 word"

text \<open>\<open>npos\<close> and the other uses of \<open>size_t(-1)\<close>.\<close>

abbreviation size_max :: usize where
  "size_max \<equiv> - 1"

section \<open>Calls that do not return a value\<close>

text \<open>
  An exception carries the text of its \<open>what()\<close>. \<open>Terminates\<close> is
  \<open>std::terminate()\<close>, \<open>Undefined\<close> is undefined behaviour (an access outside a
  container, the wrong member of a union), \<open>Diverges\<close> is a loop that never ends.
\<close>

datatype failure =
    Runtime_error string
  | Logic_error string
  | Terminates
  | Undefined
  | Diverges

type_synonym 'a result = "failure + 'a"

named_theorems model_defs \<open>definitions that only name one expression of the code\<close>
named_theorems result_simps \<open>equations that evaluate a call to its result\<close>

text \<open>\<open>e_three_state_result\<close>: done, more input is needed, or wrong.\<close>

datatype three_state = Success | Attempt | Error

text \<open>A loop over a list that stops at the first failure.\<close>

fun fold_res :: "('x \<Rightarrow> 's \<Rightarrow> 's result) \<Rightarrow> 'x list \<Rightarrow> 's \<Rightarrow> 's result" where
  "fold_res f [] s = Inr s"
| "fold_res f (x # xs) s =
     (case f x s of Inl e \<Rightarrow> Inl e | Inr s' \<Rightarrow> fold_res f xs s')"

lemma fold_res_append:
  "fold_res f (xs @ ys) s =
     (case fold_res f xs s of Inl e \<Rightarrow> Inl e | Inr s' \<Rightarrow> fold_res f ys s')"
  by (induction xs arbitrary: s) (auto split: sum.splits)

section \<open>Words\<close>

lemma unat_less_size: "unat (x :: 64 word) < 2 ^ 64"
  using unsigned_less [of x] by simp

lemma unat_of_nat_size: "n < 2 ^ 64 \<Longrightarrow> unat (of_nat n :: 64 word) = n"
  by (simp add: unat_of_nat)

lemma unat_pow2 [simp]:
  assumes "k < 64"
  shows "unat (2 ^ k :: 64 word) = 2 ^ k"
proof -
  have "(2 :: nat) ^ k < 2 ^ 64"
    using assms by (intro power_strict_increasing) auto
  then have "unat (of_nat (2 ^ k) :: 64 word) = 2 ^ k"
    by (rule unat_of_nat_size)
  then show ?thesis
    by simp
qed

lemma pow2_le_63:
  assumes "k < 64"
  shows "(2 :: nat) ^ k \<le> 9223372036854775808"
proof -
  have "(2 :: nat) ^ k \<le> 2 ^ 63"
    using assms by (intro power_increasing) auto
  then show ?thesis by simp
qed

lemma pow2_dvd_size: "k < 64 \<Longrightarrow> (2 ^ k :: nat) dvd 2 ^ 64"
  by (rule le_imp_power_dvd) simp

lemma unat_add_size: "unat (x + y :: 64 word) = (unat x + unat y) mod 2 ^ 64"
  by (simp add: unat_word_ariths)

text \<open>
  A window of \<open>s\<close> indices that starts at \<open>b\<close> and may wrap past the largest word is
  described by one comparison of offsets.
\<close>

lemma word_window:
  fixes b s i :: "64 word"
  shows "(b < b + s \<and> b \<le> i \<and> i < b + s) \<or> (b + s < b \<and> (b \<le> i \<or> i < b + s))
    \<longleftrightarrow> i - b < s"
proof -
  have "unat b < 2 ^ 64" "unat s < 2 ^ 64" "unat i < 2 ^ 64"
    by (rule unat_less_size)+
  moreover have "unat (b + s) = (if unat b + unat s < 2 ^ 64 then unat b + unat s
      else unat b + unat s - 2 ^ 64)"
    using unat_plus_if_size [of b s] by (simp add: word_size)
  moreover have "unat (i - b) = (if unat b \<le> unat i then unat i - unat b
      else unat i + 2 ^ 64 - unat b)"
    using unat_sub_if_size [of i b] by (simp add: word_size word_le_nat_alt)
  ultimately show ?thesis
    by (auto simp: word_less_nat_alt word_le_nat_alt split: if_splits)
qed

text \<open>Bytes widened to \<open>size_t\<close> keep their value.\<close>

lemma unat_ucast_byte [simp]: "unat (ucast (x :: 8 word) :: 64 word) = unat x"
proof -
  have "unat x < 2 ^ 8"
    using unsigned_less [of x] by simp
  also have "(2 :: nat) ^ 8 < 2 ^ 64" by simp
  finally show ?thesis
    by (simp add: unsigned_ucast_eq unsigned_take_bit_eq take_bit_nat_eq_self_iff)
qed

lemma ucast_byte_0 [simp]: "(ucast (x :: 8 word) :: 64 word) = 0 \<longleftrightarrow> x = 0"
  by (simp add: word_unat_eq_iff)

text \<open>A loop that counts an index up to an end comes closer to it, also when it wraps.\<close>

lemma word_distance_less:
  fixes e i :: "'w::len word"
  assumes "i \<noteq> e"
  shows "unat (e - (i + 1)) < unat (e - i)"
proof -
  have "unat ((e - i) - 1) < unat (e - i)"
    by (rule measure_unat) (use assms in simp)
  then show ?thesis
    by (simp only: diff_diff_eq)
qed

section \<open>Lists\<close>

lemma replicate_two: "replicate 2 x = [x, x]"
  by (simp add: numeral_2_eq_2)

lemma mod_add_inj:
  fixes a i j n :: nat
  assumes "(a + i) mod n = (a + j) mod n" "i < n" "j < n"
  shows "i = j"
proof -
  have le: "i = j" if "i \<le> j" "(a + i) mod n = (a + j) mod n" "j < n" for i j
  proof -
    have "n dvd j - i"
      using that mod_eq_dvd_iff_nat [of "a + i" "a + j" n] by simp
    with that show ?thesis
      using nat_dvd_not_less [of "j - i" n] by (cases "i < j") auto
  qed
  show ?thesis
    using le [of i j] le [of j i] assms by (cases "i \<le> j") auto
qed

lemma upt_0_Suc: "[0..<Suc n] = 0 # map Suc [0..<n]"
  by (simp add: upt_conv_Cons map_Suc_upt del: upt_Suc)


section \<open>Calls on a state\<close>

text \<open>
  A call that changes a state and may fail: a failure keeps what the call had changed before.
\<close>

type_synonym ('s, 'a) call = "'s \<Rightarrow> 'a result \<times> 's"

definition give :: "'a \<Rightarrow> ('s, 'a) call" where
  "give x s = (Inr x, s)"

definition raise :: "failure \<Rightarrow> ('s, 'a) call" where
  "raise e s = (Inl e, s)"

definition then_do :: "('s, 'a) call \<Rightarrow> ('a \<Rightarrow> ('s, 'b) call) \<Rightarrow> ('s, 'b) call" where
  "then_do m f s = (case m s of (Inl e, s') \<Rightarrow> (Inl e, s') | (Inr x, s') \<Rightarrow> f x s')"

text \<open>A call on a part of the state.\<close>

definition on_part :: "('s \<Rightarrow> 't) \<Rightarrow> ('t \<Rightarrow> 's \<Rightarrow> 's) \<Rightarrow> ('t, 'a) call \<Rightarrow> ('s, 'a) call" where
  "on_part get put m s = (case m (get s) of (r, t) \<Rightarrow> (r, put t s))"

text \<open>A value that may be a failure already.\<close>

definition lift_result :: "'a result \<Rightarrow> ('s, 'a) call" where
  "lift_result r s = (r, s)"

lemma then_do_Inr:
  "then_do m f s = (Inr y, s2) \<longleftrightarrow> (\<exists>x s1. m s = (Inr x, s1) \<and> f x s1 = (Inr y, s2))"
  by (auto simp: then_do_def split: prod.splits sum.splits)

lemma then_do_Inl:
  "then_do m f s = (Inl e, s2) \<longleftrightarrow>
    m s = (Inl e, s2) \<or> (\<exists>x s1. m s = (Inr x, s1) \<and> f x s1 = (Inl e, s2))"
  by (auto simp: then_do_def split: prod.splits sum.splits)

lemma then_do_simps [simp]:
  "m s = (Inr x, s1) \<Longrightarrow> then_do m f s = f x s1"
  "m s = (Inl e, s1) \<Longrightarrow> then_do m f s = (Inl e, s1)"
  by (simp_all add: then_do_def)

lemmas call_defs = give_def raise_def lift_result_def on_part_def

end
