(* ===== verification/Ring_Queue.thy ===== *)
theory Ring_Queue
  imports Prelude
begin

text \<open>
  The ring buffer \<open>beltpp::queue\<close> of \<open>src/belt.pp/queue.hpp\<close>: a vector whose
  capacity is zero or a power of two, a start slot, a size and the number of times the
  start slot went round. Elements are addressed by an absolute index that keeps growing
  and is allowed to wrap at the width of \<open>size_t\<close>. All four counters are 64 bit words
  here, so every wrap of the code is a wrap of the model.
\<close>

section \<open>Powers of two\<close>

text \<open>
  \<open>while (number > p2) p2 *= 2;\<close> does not end when no power of two below
  \<open>2 ^ 64\<close> reaches \<open>number\<close>: \<open>p2\<close> becomes and stays 0.
\<close>

partial_function (option) next2pow_loop :: "u64 \<Rightarrow> u64 \<Rightarrow> u64 option" where
  "next2pow_loop number p2 =
     (if number > p2 then next2pow_loop number (p2 * 2) else Some p2)"

declare next2pow_loop.simps [code]

definition next2pow :: "u64 \<Rightarrow> u64 option" where
  "next2pow number = next2pow_loop number 1"

definition capacity2pow :: "u64 \<Rightarrow> u64 option" where
  "capacity2pow capacity = (if capacity \<noteq> 0 then next2pow capacity else Some capacity)"

section \<open>State and queries\<close>

record 'a queue =
  m_i_start :: usize
  m_i_size :: usize
  m_i_loops :: usize
  m_vec_queue :: "'a list"

definition vec_size :: "'a queue \<Rightarrow> usize" where
  "vec_size q = of_nat (length (m_vec_queue q))"

definition begin_index :: "'a queue \<Rightarrow> usize" where
  "begin_index q = m_i_start q + m_i_loops q * vec_size q"

definition end_index :: "'a queue \<Rightarrow> usize" where
  "end_index q = m_i_size q + m_i_start q + m_i_loops q * vec_size q"

definition valid_index :: "'a queue \<Rightarrow> usize \<Rightarrow> bool" where
  "valid_index q index =
     (if begin_index q < end_index q \<and> index \<ge> begin_index q \<and> index < end_index q
      then True
      else if begin_index q > end_index q \<and>
              (index \<ge> begin_index q \<or> index < end_index q)
      then True
      else False)"

definition queue_empty :: "'a queue \<Rightarrow> bool" where
  "queue_empty q = (0 = m_i_size q)"

definition queue_full :: "'a queue \<Rightarrow> bool" where
  "queue_full q = (m_i_size q = vec_size q)"

definition queue_size :: "'a queue \<Rightarrow> usize" where
  "queue_size q = m_i_size q"

text \<open>
  The constructor. A value-initialised \<open>T\<close> is the parameter \<open>dflt\<close>; the vector
  of that many copies is assumed to fit into memory.
\<close>

definition queue_make :: "'a \<Rightarrow> usize \<Rightarrow> usize \<Rightarrow> usize \<Rightarrow> 'a queue result" where
  "queue_make dflt capacity end_ind sz =
     (case capacity2pow capacity of
        None \<Rightarrow> Inl Diverges
      | Some cap \<Rightarrow>
          let vec = replicate (unat cap) dflt;
              capacity = (of_nat (length vec) :: usize)
          in if sz > capacity then Inl (Runtime_error ''queue()'')
             else if length vec \<noteq> 0 \<and> end_ind \<noteq> 0 then
               let start = (end_ind - sz) mod capacity;
                   loops = (end_ind - start - sz) div capacity
               in Inr \<lparr>m_i_start = start, m_i_size = sz, m_i_loops = loops,
                       m_vec_queue = vec\<rparr>
             else Inr \<lparr>m_i_start = 0, m_i_size = sz, m_i_loops = 0,
                       m_vec_queue = vec\<rparr>)"

section \<open>Element access and the operations\<close>

text \<open>\<open>operator []\<close>, once as a read and once as the target of an assignment.\<close>

definition queue_at :: "'a queue \<Rightarrow> usize \<Rightarrow> 'a result" where
  "queue_at q index =
     (if \<not> valid_index q index then Inl Terminates
      else if unat (index mod vec_size q) < length (m_vec_queue q)
      then Inr (m_vec_queue q ! unat (index mod vec_size q))
      else Inl Undefined)"

definition queue_assign :: "'a queue \<Rightarrow> usize \<Rightarrow> 'a \<Rightarrow> 'a queue result" where
  "queue_assign q index x =
     (if \<not> valid_index q index then Inl Terminates
      else if unat (index mod vec_size q) < length (m_vec_queue q)
      then Inr (q\<lparr>m_vec_queue := (m_vec_queue q)[unat (index mod vec_size q) := x]\<rparr>)
      else Inl Undefined)"

definition queue_front :: "'a queue \<Rightarrow> 'a result" where
  "queue_front q =
     (if 0 = m_i_size q then Inl Terminates
      else if unat (m_i_start q) < length (m_vec_queue q)
      then Inr (m_vec_queue q ! unat (m_i_start q))
      else Inl Undefined)"

definition queue_pop :: "'a queue \<Rightarrow> 'a queue result" where
  "queue_pop q =
     (if 0 = m_i_size q then Inl Terminates
      else
        let sz = m_i_size q - 1;
            start = m_i_start q + 1
        in if start = vec_size q
           then Inr (q\<lparr>m_i_size := sz, m_i_start := 0, m_i_loops := m_i_loops q + 1\<rparr>)
           else Inr (q\<lparr>m_i_size := sz, m_i_start := start\<rparr>))"

text \<open>\<open>do newsize *= 2; while (newsize < min_size);\<close>\<close>

partial_function (option) grow_loop :: "usize \<Rightarrow> usize \<Rightarrow> usize option" where
  "grow_loop newsize min_size =
     (let newsize' = newsize * 2
      in if newsize' < min_size then grow_loop newsize' min_size else Some newsize')"

declare grow_loop.simps [code]

text \<open>
  The loop of \<open>reserve\<close> that moves the elements, each at its own absolute index.
\<close>

function queue_move_range :: "'a queue \<Rightarrow> 'a queue \<Rightarrow> usize \<Rightarrow> 'a queue result" where
  "queue_move_range self newqueue index =
     (if index = end_index self then Inr newqueue
      else case queue_at self index of
             Inl e \<Rightarrow> Inl e
           | Inr x \<Rightarrow>
               (case queue_assign newqueue index x of
                  Inl e \<Rightarrow> Inl e
                | Inr newqueue' \<Rightarrow> queue_move_range self newqueue' (index + 1)))"
  by pat_completeness auto

termination
  by (relation "measure (\<lambda>(self, newqueue, index). unat (end_index self - index))")
     (auto intro: word_distance_less)

declare queue_move_range.simps [simp del]

definition queue_reserve :: "'a \<Rightarrow> usize \<Rightarrow> 'a queue \<Rightarrow> 'a queue result" where
  "queue_reserve dflt min_size q =
     (if m_i_size q = vec_size q then
        let newsize = (if 0 = m_i_size q then min_size else m_i_size q)
        in case grow_loop newsize min_size of
             None \<Rightarrow> Inl Diverges
           | Some newsize' \<Rightarrow>
               (case queue_make dflt newsize' (end_index q) (m_i_size q) of
                  Inl e \<Rightarrow> Inl e
                | Inr newqueue \<Rightarrow> queue_move_range q newqueue (begin_index q))
      else Inr q)"

definition queue_push :: "'a \<Rightarrow> 'a \<Rightarrow> 'a queue \<Rightarrow> 'a queue result" where
  "queue_push dflt task q0 =
     (case queue_reserve dflt 64 q0 of
        Inl e \<Rightarrow> Inl e
      | Inr q \<Rightarrow>
          let i_end = m_i_start q + m_i_size q;
              i_end = (if i_end \<ge> vec_size q then i_end - vec_size q else i_end)
          in if unat i_end < length (m_vec_queue q)
             then Inr (q\<lparr>m_vec_queue := (m_vec_queue q)[unat i_end := task],
                         m_i_size := m_i_size q + 1\<rparr>)
             else Inl Undefined)"

text \<open>
  \<open>get_free_range\<close>: the slot the returned pointer points to and the number of slots.
\<close>

definition get_free_range :: "'a queue \<Rightarrow> (usize \<times> usize) result" where
  "get_free_range q =
     (if m_i_size q = vec_size q then Inl (Runtime_error ''queue<>::get_free_range()'')
      else
        let i_free = m_i_start q + m_i_size q
        in if i_free \<ge> vec_size q
           then Inr (i_free - vec_size q, m_i_start q - (i_free - vec_size q))
           else Inr (i_free, vec_size q - i_free))"

text \<open>
  The iterators: incrementing stops at \<open>end()\<close>, dereferencing \<open>end()\<close>
  terminates. \<open>queue_copy_out\<close> is the range constructor
  \<open>string(q.cbegin(), q.cend())\<close>.
\<close>

definition iterator_inc :: "'a queue \<Rightarrow> usize \<Rightarrow> usize" where
  "iterator_inc q index = (if index \<noteq> end_index q then index + 1 else index)"

definition iterator_deref :: "'a queue \<Rightarrow> usize \<Rightarrow> 'a result" where
  "iterator_deref q index =
     (if index = end_index q then Inl Terminates else queue_at q index)"

function queue_copy_out :: "'a queue \<Rightarrow> usize \<Rightarrow> 'a list result" where
  "queue_copy_out q index =
     (if index = end_index q then Inr []
      else case iterator_deref q index of
             Inl e \<Rightarrow> Inl e
           | Inr x \<Rightarrow>
               (case queue_copy_out q (iterator_inc q index) of
                  Inl e \<Rightarrow> Inl e
                | Inr xs \<Rightarrow> Inr (x # xs)))"
  by pat_completeness auto

termination
  by (relation "measure (\<lambda>(q, index). unat (end_index q - index))")
     (auto simp: iterator_inc_def intro: word_distance_less)

declare queue_copy_out.simps [simp del]

section \<open>The powers of two\<close>

lemma next2pow_loop_reaches:
  assumes "k < 64" "unat number \<le> 2 ^ 63" "k = 0 \<or> 2 ^ (k - 1) < unat number"
  shows "\<exists>m<64. next2pow_loop number (2 ^ k) = Some (2 ^ m) \<and> unat number \<le> 2 ^ m \<and>
    (m = 0 \<or> 2 ^ (m - 1) < unat number)"
  using assms
proof (induction "63 - k" arbitrary: k)
  case 0
  then have "k = 63" by simp
  with 0 show ?case
    by (intro exI [of _ 63]) (simp add: next2pow_loop.simps word_less_nat_alt)
next
  case (Suc d)
  show ?case
  proof (cases "unat number > 2 ^ k")
    case True
    have "k < 63" using Suc.hyps(2) by simp
    then have "\<exists>m<64. next2pow_loop number (2 ^ Suc k) = Some (2 ^ m) \<and>
        unat number \<le> 2 ^ m \<and> (m = 0 \<or> 2 ^ (m - 1) < unat number)"
      using Suc True by (intro Suc.hyps(1)) auto
    then show ?thesis
      using True Suc.prems(1)
      by (subst next2pow_loop.simps) (simp add: word_less_nat_alt mult.commute)
  next
    case False
    then show ?thesis
      using Suc.prems by (intro exI [of _ k]) (simp add: next2pow_loop.simps word_less_nat_alt)
  qed
qed

lemma next2pow_loop_diverges_aux:
  assumes "next2pow_loop number p2 = Some r"
  shows "2 ^ 63 < unat number \<longrightarrow> (p2 = 0 \<or> (\<exists>k<64. p2 = 2 ^ k)) \<longrightarrow> False"
proof (rule next2pow_loop.raw_induct [OF _ assms,
    where P = "\<lambda>number p2 r. 2 ^ 63 < unat number \<longrightarrow>
      (p2 = 0 \<or> (\<exists>k<64. p2 = 2 ^ k)) \<longrightarrow> False"], intro impI)
  fix f :: "u64 \<Rightarrow> u64 \<Rightarrow> u64 option" and number p2 r :: u64
  assume IH: "\<And>number p2 r. f number p2 = Some r \<Longrightarrow> 2 ^ 63 < unat number \<longrightarrow>
        (p2 = 0 \<or> (\<exists>k<64. p2 = 2 ^ k)) \<longrightarrow> False"
    and eq: "(if number > p2 then f number (p2 * 2) else Some p2) = Some r"
    and big: "2 ^ 63 < unat number" and p2: "p2 = 0 \<or> (\<exists>k<64. p2 = 2 ^ k)"
  have "unat p2 \<le> 2 ^ 63"
    using p2 by (auto simp: pow2_le_63)
  with big have less: "p2 < number"
    by (simp add: word_less_nat_alt)
  have "p2 * 2 = 0 \<or> (\<exists>k<64. p2 * 2 = 2 ^ k)"
  proof (cases "p2 = 2 ^ 63")
    case not_top: False
    show ?thesis
      using p2
    proof
      assume "\<exists>k<64. p2 = 2 ^ k"
      then obtain k where k: "k < 64" "p2 = 2 ^ k" by auto
      with not_top have "k < 63" by (cases "k = 63") auto
      with k show ?thesis by (intro disjI2 exI [of _ "Suc k"]) simp
    qed simp
  qed simp
  with IH [of number "p2 * 2" r] eq less big show False
    by simp
qed

lemma next2pow_diverges: "2 ^ 63 < unat number \<Longrightarrow> next2pow number = None"
  using next2pow_loop_diverges_aux [of number 1] exI [of "\<lambda>k. k < 64 \<and> (1 :: u64) = 2 ^ k" 0]
  by (cases "next2pow number") (auto simp: next2pow_def)

lemma next2pow_least:
  assumes "unat number \<le> 2 ^ 63"
  obtains m where "m < 64" "next2pow number = Some (2 ^ m)" "unat number \<le> 2 ^ m"
    "m = 0 \<or> 2 ^ (m - 1) < unat number"
  using next2pow_loop_reaches [of 0 number] assms by (auto simp: next2pow_def)

lemma next2pow_pow2 [simp]:
  assumes "m < 64"
  shows "next2pow (2 ^ m) = Some (2 ^ m)"
proof -
  have "(2::nat) ^ m \<le> 2 ^ 63"
    using assms by (intro power_increasing) auto
  then obtain k where k: "k < 64" "next2pow (2 ^ m) = Some (2 ^ k)" "(2::nat) ^ m \<le> 2 ^ k"
      "k = 0 \<or> (2::nat) ^ (k - 1) < 2 ^ m"
    using next2pow_least [of "2 ^ m"] assms by auto
  then have "m \<le> k" "k = 0 \<or> k - 1 < m"
    by (auto dest: power_less_imp_less_exp power_le_imp_le_exp [rotated])
  with k show ?thesis
    by (cases "k = m") auto
qed

lemma capacity2pow_pow2 [simp]: "m < 64 \<Longrightarrow> capacity2pow (2 ^ m) = Some (2 ^ m)"
  by (simp add: capacity2pow_def)

lemma grow_loop_pow2:
  assumes "k < 63"
  shows "\<exists>m. k < m \<and> m < 64 \<and> grow_loop (2 ^ k) 64 = Some (2 ^ m)"
  using assms
proof (induction "62 - k" arbitrary: k)
  case 0
  then have "k = 62" by simp
  then show ?case
    by (intro exI [of _ 63]) (simp add: grow_loop.simps)
next
  case (Suc d)
  then have k: "Suc k < 63" by simp
  have dbl: "2 ^ k * 2 = (2 ^ Suc k :: 64 word)" by simp
  show ?case
  proof (cases "(2 :: 64 word) ^ Suc k < 64")
    case True
    have "\<exists>m. Suc k < m \<and> m < 64 \<and> grow_loop (2 ^ Suc k) 64 = Some (2 ^ m)"
      using Suc k by (intro Suc.hyps(1)) auto
    with True show ?thesis
      by (subst grow_loop.simps) (auto simp: dbl simp del: power_Suc dest: Suc_lessD)
  next
    case False
    with k show ?thesis
      by (intro exI [of _ "Suc k"])
         (subst grow_loop.simps, simp add: dbl del: power_Suc)
  qed
qed

section \<open>Invariant and abstraction\<close>

text \<open>
  A queue is empty-handed (no vector yet) or its capacity is a power of two. The elements,
  oldest first, are the \<open>m_i_size\<close> slots from \<open>m_i_start\<close> round the vector.
\<close>

definition queue_inv :: "'a queue \<Rightarrow> bool" where
  "queue_inv q \<longleftrightarrow>
     (m_vec_queue q = [] \<and> m_i_start q = 0 \<and> m_i_size q = 0 \<and> m_i_loops q = 0) \<or>
     (\<exists>k<64. length (m_vec_queue q) = 2 ^ k \<and> unat (m_i_start q) < 2 ^ k \<and>
        unat (m_i_size q) \<le> 2 ^ k)"

definition slot :: "'a queue \<Rightarrow> nat \<Rightarrow> nat" where
  "slot q i = (unat (m_i_start q) + i) mod length (m_vec_queue q)"

definition queue_list :: "'a queue \<Rightarrow> 'a list" where
  "queue_list q = map (\<lambda>i. m_vec_queue q ! slot q i) [0..<unat (m_i_size q)]"

lemma length_queue_list [simp]: "length (queue_list q) = unat (m_i_size q)"
  by (simp add: queue_list_def)

lemma queue_list_nth [simp]: "i < unat (m_i_size q) \<Longrightarrow> queue_list q ! i = m_vec_queue q ! slot q i"
  by (simp add: queue_list_def)

lemma queue_inv_cases [consumes 1, case_names no_vector vector]:
  assumes "queue_inv q"
  obtains "m_vec_queue q = []" "m_i_start q = 0" "m_i_size q = 0" "m_i_loops q = 0"
          "vec_size q = 0"
    | k where "k < 64" "length (m_vec_queue q) = 2 ^ k" "unat (m_i_start q) < 2 ^ k"
          "unat (m_i_size q) \<le> 2 ^ k" "vec_size q = 2 ^ k"
  using assms by (auto simp: queue_inv_def vec_size_def)

lemma queue_inv_vector:
  "k < 64 \<Longrightarrow> length (m_vec_queue q) = 2 ^ k \<Longrightarrow> unat (m_i_start q) < 2 ^ k \<Longrightarrow>
   unat (m_i_size q) \<le> 2 ^ k \<Longrightarrow> queue_inv q"
  by (auto simp: queue_inv_def)

lemma unat_vec_size: "queue_inv q \<Longrightarrow> unat (vec_size q) = length (m_vec_queue q)"
  by (cases q rule: queue_inv_cases) auto

lemma unat_start_less:
  "queue_inv q \<Longrightarrow> m_vec_queue q \<noteq> [] \<Longrightarrow> unat (m_i_start q) < length (m_vec_queue q)"
  by (cases q rule: queue_inv_cases) auto

lemma unat_size_le: "queue_inv q \<Longrightarrow> unat (m_i_size q) \<le> length (m_vec_queue q)"
  by (cases q rule: queue_inv_cases) auto

lemma size_pos_vector: "queue_inv q \<Longrightarrow> m_i_size q \<noteq> 0 \<Longrightarrow> m_vec_queue q \<noteq> []"
  by (cases q rule: queue_inv_cases) auto

lemma end_index_begin: "end_index q = begin_index q + m_i_size q"
  by (simp add: end_index_def begin_index_def algebra_simps)

lemma valid_index_window: "valid_index q index \<longleftrightarrow> index - begin_index q < m_i_size q"
  using word_window [of "begin_index q" "m_i_size q" index]
  by (auto simp: valid_index_def end_index_begin split: if_splits)

text \<open>
  Going round the vector and wrapping the absolute index agree, because the capacity
  divides \<open>2 ^ 64\<close>.
\<close>

lemma index_slot:
  assumes inv: "queue_inv q" and "m_vec_queue q \<noteq> []"
  shows "unat ((begin_index q + of_nat j) mod vec_size q) = slot q j"
  using inv
proof (cases rule: queue_inv_cases)
  case (vector k)
  have dvd: "(2::nat) ^ k dvd 2 ^ 64"
    using vector(1) by (rule pow2_dvd_size)
  have "unat (begin_index q + of_nat j) mod 2 ^ k =
      (unat (m_i_start q) + unat (m_i_loops q) * 2 ^ k + j) mod 2 ^ k"
    unfolding begin_index_def \<open>vec_size q = 2 ^ k\<close>
    using vector(1) dvd
    by (simp add: unat_word_ariths unat_of_nat mod_mod_cancel mod_simps)
  also have "\<dots> = slot q j"
    using vector(2) by (simp add: slot_def add.assoc add.commute [of _ j])
       (simp add: add.assoc [symmetric])
  finally show ?thesis
    using vector(1,5) by (simp add: unat_mod)
qed (use assms in auto)

lemma slot_less: "m_vec_queue q \<noteq> [] \<Longrightarrow> slot q j < length (m_vec_queue q)"
  by (simp add: slot_def)

lemma slot_inj:
  assumes "slot q i = slot q j" "i < length (m_vec_queue q)" "j < length (m_vec_queue q)"
  shows "i = j"
  using assms unfolding slot_def by (rule mod_add_inj)

lemma offset_size:
  assumes "j < unat (m_i_size q)"
  shows "begin_index q + of_nat j - begin_index q < m_i_size q"
    and "begin_index q + of_nat j \<noteq> end_index q"
proof -
  have "unat (of_nat j :: 64 word) = j"
    using assms unat_less_size [of "m_i_size q"] by (intro unat_of_nat_size) simp
  with assms show "begin_index q + of_nat j - begin_index q < m_i_size q"
    and "begin_index q + of_nat j \<noteq> end_index q"
    by (auto simp: word_less_nat_alt end_index_begin)
qed

lemma queue_at_begin [result_simps]:
  assumes "queue_inv q" "j < unat (m_i_size q)"
  shows "queue_at q (begin_index q + of_nat j) = Inr (queue_list q ! j)"
proof -
  have "m_vec_queue q \<noteq> []"
    using assms by (cases rule: queue_inv_cases) auto
  with assms show ?thesis
    using offset_size [of j q] slot_less [of q j]
    by (simp add: queue_at_def valid_index_window index_slot)
qed

section \<open>The operations refine the list\<close>

lemma queue_assign_begin:
  assumes "queue_inv q" "j < unat (m_i_size q)"
  shows "queue_assign q (begin_index q + of_nat j) x =
    Inr (q\<lparr>m_vec_queue := (m_vec_queue q)[slot q j := x]\<rparr>)"
proof -
  have "m_vec_queue q \<noteq> []"
    using assms by (cases rule: queue_inv_cases) auto
  with assms show ?thesis
    using offset_size [of j q] slot_less [of q j]
    by (simp add: queue_assign_def valid_index_window index_slot)
qed

lemma slot_update [simp]: "length vs = length (m_vec_queue q) \<Longrightarrow> slot (q\<lparr>m_vec_queue := vs\<rparr>) j = slot q j"
  by (simp add: slot_def)

lemma queue_inv_update [simp]:
  assumes "length vs = length (m_vec_queue q)"
  shows "queue_inv (q\<lparr>m_vec_queue := vs\<rparr>) = queue_inv q"
  using assms by (auto simp: queue_inv_def)

lemma begin_index_update [simp]:
  "length vs = length (m_vec_queue q) \<Longrightarrow> begin_index (q\<lparr>m_vec_queue := vs\<rparr>) = begin_index q"
  by (simp add: begin_index_def vec_size_def)

lemma queue_list_assign:
  assumes "queue_inv q" "j < unat (m_i_size q)"
  shows "queue_list (q\<lparr>m_vec_queue := (m_vec_queue q)[slot q j := x]\<rparr>) = (queue_list q)[j := x]"
proof (rule nth_equalityI)
  fix i assume i: "i < length (queue_list (q\<lparr>m_vec_queue := (m_vec_queue q)[slot q j := x]\<rparr>))"
  have le: "unat (m_i_size q) \<le> length (m_vec_queue q)"
    using assms(1) by (rule unat_size_le)
  have "m_vec_queue q \<noteq> []"
    using le assms(2) by auto
  then have "slot q j < length (m_vec_queue q)"
    by (rule slot_less)
  moreover have "slot q i = slot q j \<longleftrightarrow> i = j"
    using slot_inj [of q i j] i assms(2) le by auto
  ultimately show "queue_list (q\<lparr>m_vec_queue := (m_vec_queue q)[slot q j := x]\<rparr>) ! i =
      (queue_list q)[j := x] ! i"
    using i by (auto simp: nth_list_update)
qed simp

lemma next_index:
  "begin_index q + of_nat (Suc j) = begin_index q + of_nat j + (1 :: usize)"
  by simp

lemma queue_move_range_spec:
  assumes "queue_inv self" "queue_inv nq" "m_i_size nq = m_i_size self"
    and "begin_index nq = begin_index self" "j \<le> unat (m_i_size self)"
  shows "\<exists>vs. queue_move_range self nq (begin_index self + of_nat j) =
      Inr (nq\<lparr>m_vec_queue := vs\<rparr>) \<and> length vs = length (m_vec_queue nq) \<and>
      queue_list (nq\<lparr>m_vec_queue := vs\<rparr>) = take j (queue_list nq) @ drop j (queue_list self)"
  using assms
proof (induction "unat (m_i_size self) - j" arbitrary: j nq)
  case 0
  then have "j = unat (m_i_size self)" by simp
  then have "begin_index self + of_nat j = end_index self"
    by (simp add: end_index_begin)
  with 0 show ?case
    by (intro exI [of _ "m_vec_queue nq"])
       (simp add: queue_move_range.simps [of self nq])
next
  case (Suc d)
  then have j: "j < unat (m_i_size self)" by simp
  let ?x = "queue_list self ! j"
  let ?nq = "nq\<lparr>m_vec_queue := (m_vec_queue nq)[slot nq j := ?x]\<rparr>"
  have asg: "queue_assign nq (begin_index self + of_nat j) ?x = Inr ?nq"
    using queue_assign_begin [of nq j ?x] Suc.prems j by simp
  have "\<exists>vs. queue_move_range self ?nq (begin_index self + of_nat (Suc j)) =
      Inr (?nq\<lparr>m_vec_queue := vs\<rparr>) \<and> length vs = length (m_vec_queue ?nq) \<and>
      queue_list (?nq\<lparr>m_vec_queue := vs\<rparr>) =
        take (Suc j) (queue_list ?nq) @ drop (Suc j) (queue_list self)"
    using Suc.prems Suc.hyps(2) j by (intro Suc.hyps(1)) auto
  moreover have "take (Suc j) (queue_list ?nq) = take j (queue_list nq) @ [?x]"
    using Suc.prems j by (simp add: queue_list_assign take_Suc_conv_app_nth)
  moreover have "?x # drop (Suc j) (queue_list self) = drop j (queue_list self)"
    using j by (intro Cons_nth_drop_Suc) simp
  moreover have "queue_move_range self nq (begin_index self + of_nat j) =
      queue_move_range self ?nq (begin_index self + of_nat (Suc j))"
    using Suc.prems j asg offset_size(2) [of j self]
    by (subst queue_move_range.simps)
       (simp add: queue_at_begin next_index del: queue_list_nth of_nat_Suc)
  ultimately show ?case
    by auto
qed

lemma queue_make_spec:
  assumes "m < 64" "unat sz \<le> 2 ^ m" "e \<noteq> 0 \<or> sz = 0"
  shows "\<exists>q. queue_make dflt (2 ^ m) e sz = Inr q \<and> queue_inv q \<and> m_i_size q = sz \<and>
     length (m_vec_queue q) = 2 ^ m \<and> begin_index q = e - sz"
proof (cases "e = 0")
  case True
  with assms show ?thesis
    by (auto simp: queue_make_def queue_inv_def begin_index_def word_less_nat_alt)
next
  case False
  define b where "b = e - sz"
  have sz: "\<not> sz > 2 ^ m"
    using assms by (simp add: word_less_nat_alt)
  have start: "unat (b mod 2 ^ m) < 2 ^ m"
    using assms by (simp add: unat_mod)
  have loops: "(b - b mod 2 ^ m) div 2 ^ m = b div 2 ^ m"
  proof -
    have "b - b mod 2 ^ m = (b div 2 ^ m) * 2 ^ m"
      by (simp add: minus_mod_eq_div_mult)
    moreover have "unat ((b div 2 ^ m) * 2 ^ m) = unat b div 2 ^ m * 2 ^ m"
    proof -
      have "unat b div 2 ^ m * 2 ^ m \<le> unat b"
        by simp
      then have "unat b div 2 ^ m * 2 ^ m < 2 ^ 64"
        using unat_less_size [of b] by (rule le_less_trans)
      moreover have "unat b div 2 ^ m < 2 ^ 64"
        using div_le_dividend unat_less_size [of b] by (rule le_less_trans)
      ultimately show ?thesis
        using assms by (simp add: unat_word_ariths unat_div)
    qed
    ultimately have "unat ((b - b mod 2 ^ m) div 2 ^ m) = unat (b div 2 ^ m)"
      using assms by (simp add: unat_div)
    then show ?thesis by (simp only: word_unat_eq_iff)
  qed
  have "b mod 2 ^ m + b div 2 ^ m * 2 ^ m = b"
    by (rule mod_div_mult_eq)
  moreover have "(e - b mod 2 ^ m - sz) div 2 ^ m = b div 2 ^ m"
  proof -
    have "e - x - sz = b - x" for x
      by (simp add: b_def)
    then show ?thesis by (simp only: loops)
  qed
  ultimately show ?thesis
    using assms False sz start loops
    by (auto simp: queue_make_def Let_def queue_inv_def begin_index_def vec_size_def b_def [symmetric])
qed

text \<open>
  \<open>reserve\<close> keeps the elements and their absolute indices. A full queue whose end index
  wrapped to exactly 0 is excluded here: the constructor then takes 0 for "not given".
\<close>

definition push_ok :: "'a queue \<Rightarrow> bool" where
  "push_ok q \<longleftrightarrow> unat (m_i_size q) < 2 ^ 63 \<and>
     (m_i_size q = vec_size q \<longrightarrow> m_i_size q = 0 \<or> end_index q \<noteq> 0)"

lemma queue_reserve_spec:
  assumes inv: "queue_inv q" and ok: "push_ok q"
  shows "\<exists>q'. queue_reserve dflt 64 q = Inr q' \<and> queue_inv q' \<and>
    queue_list q' = queue_list q \<and> begin_index q' = begin_index q \<and>
    m_i_size q' = m_i_size q \<and> unat (m_i_size q) < length (m_vec_queue q') \<and>
    (m_i_size q \<noteq> vec_size q \<longrightarrow> q' = q)"
proof (cases "m_i_size q = vec_size q")
  case False
  then have "unat (m_i_size q) \<noteq> length (m_vec_queue q)"
    using unat_vec_size [OF inv] by (metis word_unat_eq_iff)
  with False inv unat_size_le [OF inv] show ?thesis
    by (auto simp: queue_reserve_def)
next
  case full: True
  obtain k where k: "k < 63" "(if 0 = m_i_size q then 64 else m_i_size q) = 2 ^ k"
      "unat (m_i_size q) \<le> 2 ^ k"
  proof (cases "m_i_size q = 0")
    case True
    then show ?thesis by (intro that [of 6]) auto
  next
    case False
    from inv full False obtain k where "k < 64" "m_i_size q = 2 ^ k"
      by (cases rule: queue_inv_cases) auto
    moreover have "k < 63"
      using ok calculation by (cases "k = 63") (auto simp: push_ok_def)
    ultimately show ?thesis
      using False by (intro that [of k]) auto
  qed
  obtain m where m: "k < m" "m < 64" "grow_loop (2 ^ k) 64 = Some (2 ^ m)"
    using grow_loop_pow2 [OF k(1)] by auto
  have lt: "unat (m_i_size q) < 2 ^ m"
    by (rule le_less_trans [OF k(3) power_strict_increasing [OF m(1)]]) simp
  have "end_index q \<noteq> 0 \<or> m_i_size q = 0"
    using ok full by (auto simp: push_ok_def)
  then obtain nq where nq: "queue_make dflt (2 ^ m) (end_index q) (m_i_size q) = Inr nq"
      "queue_inv nq" "m_i_size nq = m_i_size q" "length (m_vec_queue nq) = 2 ^ m"
      "begin_index nq = end_index q - m_i_size q"
    using queue_make_spec [of m "m_i_size q" "end_index q" dflt] m k lt by auto
  then have beg: "begin_index nq = begin_index q"
    by (simp add: end_index_begin)
  obtain vs where "queue_move_range q nq (begin_index q) = Inr (nq\<lparr>m_vec_queue := vs\<rparr>)"
      "length vs = length (m_vec_queue nq)" "queue_list (nq\<lparr>m_vec_queue := vs\<rparr>) = queue_list q"
    using queue_move_range_spec [of q nq 0] inv nq beg by auto
  with full k m nq beg lt show ?thesis
    by (auto simp: queue_reserve_def)
qed

text \<open>The slot behind the last element.\<close>

lemma slot_of_end:
  assumes "queue_inv q" "unat (m_i_size q) < length (m_vec_queue q)"
  shows "unat (if m_i_start q + m_i_size q \<ge> vec_size q then m_i_start q + m_i_size q - vec_size q
    else m_i_start q + m_i_size q) = slot q (unat (m_i_size q))"
  using assms(1)
proof (cases rule: queue_inv_cases)
  case (vector k)
  have "unat (m_i_start q) + unat (m_i_size q) < 2 ^ 64"
    using vector(1,2,3) assms(2) pow2_le_63 [of k] by simp
  then have "unat (m_i_start q + m_i_size q) = unat (m_i_start q) + unat (m_i_size q)"
    by (simp add: unat_add_size)
  moreover have "unat (m_i_start q) + unat (m_i_size q) - 2 ^ k < 2 ^ k"
    using vector(2,3) assms(2) by simp
  ultimately show ?thesis
    using vector by (auto simp: slot_def word_le_nat_alt unat_sub_if_size word_size le_mod_geq mod_less)
qed (use assms(2) in simp)

lemma queue_push_room:
  assumes inv: "queue_inv q" and room: "unat (m_i_size q) < length (m_vec_queue q)"
  shows "queue_push dflt x q =
    Inr (q\<lparr>m_vec_queue := (m_vec_queue q)[slot q (unat (m_i_size q)) := x], m_i_size := m_i_size q + 1\<rparr>)"
proof -
  have "m_i_size q \<noteq> vec_size q" using unat_vec_size [OF inv] room by auto
  then have "queue_reserve dflt 64 q = Inr q" by (simp add: queue_reserve_def)
  moreover have "slot q (unat (m_i_size q)) < length (m_vec_queue q)"
    using room by (intro slot_less) auto
  ultimately show ?thesis
    using slot_of_end [OF inv room] by (simp add: queue_push_def Let_def)
qed

lemma queue_push_spec:
  assumes inv: "queue_inv q" and ok: "push_ok q"
  shows "\<exists>q'. queue_push dflt x q = Inr q' \<and> queue_inv q' \<and>
    queue_list q' = queue_list q @ [x] \<and> begin_index q' = begin_index q \<and>
    m_i_size q' = m_i_size q + 1"
proof -
  obtain r where r: "queue_reserve dflt 64 q = Inr r" "queue_inv r"
      "queue_list r = queue_list q" "begin_index r = begin_index q"
      "m_i_size r = m_i_size q" "unat (m_i_size q) < length (m_vec_queue r)"
    using queue_reserve_spec [OF inv ok, of dflt] by blast
  have ne: "m_vec_queue r \<noteq> []"
    using r(6) by auto
  have cap: "\<exists>k<64. length (m_vec_queue r) = 2 ^ k \<and> unat (m_i_start r) < 2 ^ k"
    using r(2,6) by (cases rule: queue_inv_cases) auto
  let ?q = "r\<lparr>m_vec_queue := (m_vec_queue r)[slot r (unat (m_i_size r)) := x],
              m_i_size := m_i_size r + 1\<rparr>"
  have sz: "unat (m_i_size r + 1) = unat (m_i_size r) + 1"
    using r(5) ok by (simp add: push_ok_def unat_add_size)
  have "queue_push dflt x r = Inr ?q"
    using queue_push_room [OF r(2), of dflt x] r(5,6) by simp
  moreover have "queue_reserve dflt 64 r = Inr r"
    using r(5,6) unat_vec_size [OF r(2)] by (auto simp: queue_reserve_def)
  ultimately have "queue_push dflt x q = Inr ?q"
    using r(1) by (simp add: queue_push_def)
  moreover have "queue_inv ?q"
    using cap r(5,6) sz by (auto simp: queue_inv_def)
  moreover have "queue_list ?q = queue_list r @ [x]"
  proof -
    have "slot r (unat (m_i_size r)) \<noteq> slot r i" if "i < unat (m_i_size r)" for i
      using slot_inj [of r i "unat (m_i_size r)"] that r(5,6) by auto
    moreover have "slot r (unat (m_i_size r)) < length (m_vec_queue r)"
      using r(6) by (intro slot_less) auto
    ultimately show ?thesis
      by (auto simp: queue_list_def sz slot_def)
  qed
  ultimately show ?thesis
    using r by (auto simp: begin_index_def vec_size_def)
qed

lemma get_free_range_spec:
  assumes inv: "queue_inv q" and room: "unat (m_i_size q) < length (m_vec_queue q)"
  shows "\<exists>pos sz. get_free_range q = Inr (pos, sz) \<and> 0 < unat sz \<and>
    unat (m_i_size q) + unat sz \<le> length (m_vec_queue q) \<and>
    unat pos + unat sz \<le> length (m_vec_queue q) \<and>
    (\<forall>i < unat sz. slot q (unat (m_i_size q) + i) = unat pos + i)"
  using inv
proof (cases rule: queue_inv_cases)
  case (vector k)
  have sum: "unat (m_i_start q + m_i_size q) = unat (m_i_start q) + unat (m_i_size q)"
    using vector(1,2,3) room pow2_le_63 [of k] by (simp add: unat_add_size)
  have cap: "unat (vec_size q) = 2 ^ k" using vector by simp
  have ne: "m_i_size q \<noteq> vec_size q" using room cap vector(2) by auto
  show ?thesis
  proof (cases "m_i_start q + m_i_size q \<ge> vec_size q")
    case True
    then have le: "2 ^ k \<le> unat (m_i_start q) + unat (m_i_size q)"
      using sum cap by (simp add: word_le_nat_alt)
    have pos: "unat (m_i_start q + m_i_size q - vec_size q) = unat (m_i_start q) + unat (m_i_size q) - 2 ^ k"
      using True sum cap by (simp add: unat_sub)
    have less: "m_i_start q + m_i_size q - vec_size q \<le> m_i_start q"
      using pos room vector(2) by (simp add: word_le_nat_alt)
    have sz: "unat (m_i_start q - (m_i_start q + m_i_size q - vec_size q)) = 2 ^ k - unat (m_i_size q)"
      using unat_sub [OF less] pos room vector(2) le by simp
    have "slot q (unat (m_i_size q) + i) = unat (m_i_start q) + unat (m_i_size q) - 2 ^ k + i"
      if "i < 2 ^ k - unat (m_i_size q)" for i
    proof -
      have "2 ^ k \<le> unat (m_i_start q) + (unat (m_i_size q) + i)" using le by simp
      moreover have "unat (m_i_start q) + (unat (m_i_size q) + i) - 2 ^ k < 2 ^ k"
        using that vector(3) le by linarith
      ultimately have "(unat (m_i_start q) + (unat (m_i_size q) + i)) mod 2 ^ k =
          unat (m_i_start q) + (unat (m_i_size q) + i) - 2 ^ k"
        by (simp add: le_mod_geq mod_less)
      then show ?thesis using le by (simp add: slot_def vector(2))
    qed
    then show ?thesis
      using True ne pos sz room vector(2,3) le
      by (intro exI [of _ "m_i_start q + m_i_size q - vec_size q"]
          exI [of _ "m_i_start q - (m_i_start q + m_i_size q - vec_size q)"])
         (simp add: get_free_range_def Let_def)
  next
    case False
    then have lt: "unat (m_i_start q) + unat (m_i_size q) < 2 ^ k"
      using sum cap by (simp add: word_le_nat_alt)
    have "m_i_start q + m_i_size q \<le> vec_size q" using False by simp
    then have sz: "unat (vec_size q - (m_i_start q + m_i_size q)) = 2 ^ k - (unat (m_i_start q) + unat (m_i_size q))"
      using sum cap by (simp add: unat_sub)
    then show ?thesis
      using False ne sum lt vector(2)
      by (intro exI [of _ "m_i_start q + m_i_size q"] exI [of _ "vec_size q - (m_i_start q + m_i_size q)"])
         (simp add: get_free_range_def Let_def slot_def)
  qed
qed (use room in simp)

lemma queue_front_spec:
  assumes "queue_inv q" "m_i_size q \<noteq> 0"
  shows "queue_front q = Inr (hd (queue_list q))"
proof -
  have ne: "m_vec_queue q \<noteq> []"
    using assms by (cases rule: queue_inv_cases) auto
  have "unat (m_i_size q) \<noteq> 0"
    using assms(2) by (simp add: unat_eq_0)
  then have "hd (queue_list q) = m_vec_queue q ! slot q 0"
    by (simp add: queue_list_def hd_map upt_conv_Cons)
  with assms ne unat_start_less [OF assms(1) ne] show ?thesis
    by (simp add: queue_front_def slot_def)
qed

lemma queue_pop_spec:
  assumes inv: "queue_inv q" and ne: "m_i_size q \<noteq> 0"
  shows "\<exists>q'. queue_pop q = Inr q' \<and> queue_inv q' \<and> queue_list q' = tl (queue_list q) \<and>
    begin_index q' = begin_index q + 1 \<and> m_i_size q' = m_i_size q - 1"
  using inv
proof (cases rule: queue_inv_cases)
  case (vector k)
  have sz: "unat (m_i_size q - 1) = unat (m_i_size q) - 1" "unat (m_i_size q) \<noteq> 0"
    using ne by (simp_all add: unat_minus_one unat_eq_0)
  have start: "unat (m_i_start q + 1) = unat (m_i_start q) + 1"
    using vector(1,3) pow2_le_63 [of k] by (simp add: unat_add_size)
  have tl: "tl (queue_list q) = map (\<lambda>i. m_vec_queue q ! slot q (Suc i)) [0..<unat (m_i_size q) - 1]"
    using sz(2) by (cases "unat (m_i_size q)") (simp_all add: queue_list_def upt_0_Suc o_def del: upt_Suc)
  show ?thesis
  proof (cases "m_i_start q + 1 = vec_size q")
    case True
    moreover have "unat (vec_size q) = 2 ^ k"
      using vector(1,5) by simp
    ultimately have "unat (m_i_start q) + 1 = 2 ^ k"
      using start by simp
    then have "unat (m_i_start q) + Suc i = 2 ^ k + i" for i
      by simp
    then have "slot q (Suc i) = i mod 2 ^ k" for i
      using vector(2) mod_add_self1 [of "2 ^ k" i] by (simp only: slot_def)
    then have "queue_list (q\<lparr>m_i_size := m_i_size q - 1, m_i_start := 0, m_i_loops := m_i_loops q + 1\<rparr>)
        = tl (queue_list q)"
      using vector(2) sz unfolding tl by (simp add: queue_list_def slot_def)
    moreover have "(m_i_loops q + 1) * vec_size q = begin_index q + 1"
      using True by (simp add: begin_index_def algebra_simps)
    ultimately show ?thesis
      using True ne vector sz
      by (auto simp: queue_pop_def queue_inv_def begin_index_def vec_size_def)
  next
    case False
    then have "unat (m_i_start q) + 1 \<noteq> 2 ^ k"
      using start vector by (metis word_unat_eq_iff unat_pow2)
    then have "unat (m_i_start q + 1) < 2 ^ k"
      using start vector by simp
    then show ?thesis
      using False ne vector sz start unfolding tl
      by (auto simp: queue_pop_def Let_def queue_inv_def begin_index_def vec_size_def queue_list_def slot_def)
  qed
qed (use ne in simp)

lemma queue_copy_out_spec:
  assumes "queue_inv q" "j \<le> unat (m_i_size q)"
  shows "queue_copy_out q (begin_index q + of_nat j) = Inr (drop j (queue_list q))"
  using assms
proof (induction "unat (m_i_size q) - j" arbitrary: j)
  case 0
  then have "j = unat (m_i_size q)" by simp
  then show ?case
    by (subst queue_copy_out.simps) (simp add: end_index_begin)
next
  case (Suc d)
  then have j: "j < unat (m_i_size q)" by simp
  have "queue_copy_out q (begin_index q + of_nat (Suc j)) = Inr (drop (Suc j) (queue_list q))"
    using Suc by (intro Suc.hyps(1)) auto
  moreover have "queue_list q ! j # drop (Suc j) (queue_list q) = drop j (queue_list q)"
    using j by (intro Cons_nth_drop_Suc) simp
  ultimately show ?case
    using Suc.prems(1) j offset_size(2) [OF j] queue_at_begin [OF Suc.prems(1) j]
    by (subst queue_copy_out.simps)
       (simp add: iterator_deref_def iterator_inc_def next_index del: queue_list_nth of_nat_Suc)
qed

section \<open>The first-in first-out contract\<close>

text \<open>
  What the users of the queue (the byte streams of a channel, the packet queues of the
  processor and of the direct stream) rely on. \<open>used\<close> counts the pushes a queue has
  seen, as an absolute index that has not wrapped yet, and \<open>limit\<close> bounds it.
\<close>

locale fifo =
  fixes inv :: "'q \<Rightarrow> bool"
    and contents :: "'q \<Rightarrow> 'a list"
    and used :: "'q \<Rightarrow> nat"
    and limit :: nat
    and enq :: "'a \<Rightarrow> 'q \<Rightarrow> 'q result"
    and deq :: "'q \<Rightarrow> 'q result"
    and front :: "'q \<Rightarrow> 'a result"
  assumes enq_law: "inv q \<Longrightarrow> used q < limit \<Longrightarrow>
      \<exists>q'. enq x q = Inr q' \<and> inv q' \<and> contents q' = contents q @ [x] \<and> used q' = Suc (used q)"
    and deq_law: "inv q \<Longrightarrow> contents q \<noteq> [] \<Longrightarrow>
      \<exists>q'. deq q = Inr q' \<and> inv q' \<and> contents q' = tl (contents q) \<and> used q' = used q"
    and front_law: "inv q \<Longrightarrow> contents q \<noteq> [] \<Longrightarrow> front q = Inr (hd (contents q))"
    and empty_deq_law: "inv q \<Longrightarrow> contents q = [] \<Longrightarrow> deq q = Inl Terminates"
    and empty_front_law: "inv q \<Longrightarrow> contents q = [] \<Longrightarrow> front q = Inl Terminates"

text \<open>
  A client's run: pushes, and pops that first read the front element. The same run over a
  plain list is the specification.
\<close>

datatype 'a queue_op = Op_push 'a | Op_pop

fun client_step ::
  "('a \<Rightarrow> 'q \<Rightarrow> 'q result) \<Rightarrow> ('q \<Rightarrow> 'q result) \<Rightarrow> ('q \<Rightarrow> 'a result) \<Rightarrow>
   'a queue_op \<Rightarrow> 'q \<times> 'a list \<Rightarrow> ('q \<times> 'a list) result" where
  "client_step enq deq front (Op_push x) (q, out) =
     (case enq x q of Inl e \<Rightarrow> Inl e | Inr q' \<Rightarrow> Inr (q', out))"
| "client_step enq deq front Op_pop (q, out) =
     (case front q of Inl e \<Rightarrow> Inl e
      | Inr x \<Rightarrow> (case deq q of Inl e \<Rightarrow> Inl e | Inr q' \<Rightarrow> Inr (q', out @ [x])))"

fun list_step :: "'a queue_op \<Rightarrow> 'a list \<times> 'a list \<Rightarrow> ('a list \<times> 'a list) result" where
  "list_step (Op_push x) (xs, out) = Inr (xs @ [x], out)"
| "list_step Op_pop ([], out) = Inl Terminates"
| "list_step Op_pop (x # xs, out) = Inr (xs, out @ [x])"

context fifo
begin

lemma enq_all:
  "inv q \<Longrightarrow> used q + length xs \<le> limit \<Longrightarrow>
   \<exists>q'. fold_res enq xs q = Inr q' \<and> inv q' \<and> contents q' = contents q @ xs \<and>
     used q' = used q + length xs"
proof (induction xs arbitrary: q)
  case (Cons x xs)
  then obtain q1 where "enq x q = Inr q1" "inv q1" "contents q1 = contents q @ [x]"
      "used q1 = Suc (used q)"
    using enq_law [of q x] by auto
  with Cons show ?case by (fastforce dest: Cons.IH [of q1])
qed simp

lemma deq_many:
  "inv q \<Longrightarrow> n \<le> length (contents q) \<Longrightarrow>
   \<exists>q'. fold_res (\<lambda>_. deq) (replicate n ()) q = Inr q' \<and> inv q' \<and>
     contents q' = drop n (contents q) \<and> used q' = used q"
proof (induction n arbitrary: q)
  case (Suc n)
  then obtain q1 where "deq q = Inr q1" "inv q1" "contents q1 = tl (contents q)" "used q1 = used q"
    using deq_law [of q] by fastforce
  with Suc.prems Suc.IH [of q1] show ?case by (auto simp: drop_Suc)
qed simp

lemma run_refines:
  "inv q \<Longrightarrow> used q + length ops \<le> limit \<Longrightarrow>
   (case fold_res (client_step enq deq front) ops (q, out) of
      Inl e \<Rightarrow> fold_res list_step ops (contents q, out) = Inl e
    | Inr (q', out') \<Rightarrow> inv q' \<and>
        fold_res list_step ops (contents q, out) = Inr (contents q', out'))"
proof (induction ops arbitrary: q out)
  case (Cons op ops)
  show ?case
  proof (cases op)
    case (Op_push x)
    obtain q1 where "enq x q = Inr q1" "inv q1" "contents q1 = contents q @ [x]"
        "used q1 = Suc (used q)"
      using enq_law [of q x] Cons.prems by auto
    with Op_push Cons.prems Cons.IH [of q1 out] show ?thesis
      by (simp split: sum.splits prod.splits)
  next
    case Op_pop
    show ?thesis
    proof (cases "contents q")
      case Nil
      with Op_pop Cons.prems show ?thesis by (simp add: empty_front_law)
    next
      case (Cons x xs)
      then obtain q1 where "deq q = Inr q1" "inv q1" "contents q1 = xs" "used q1 = used q"
        using deq_law [of q] Cons.prems by auto
      moreover have "front q = Inr x"
        using front_law [of q] Cons Cons.prems by simp
      ultimately show ?thesis
        using Op_pop Cons Cons.prems Cons.IH [of q1 "out @ [x]"]
        by (simp split: sum.splits prod.splits)
    qed
  qed
qed simp

end

definition queue_used :: "'a queue \<Rightarrow> nat" where
  "queue_used q = unat (begin_index q) + unat (m_i_size q)"

definition queue_ok :: "'a queue \<Rightarrow> bool" where
  "queue_ok q \<longleftrightarrow> queue_inv q \<and> queue_used q \<le> 2 ^ 63"

lemma queue_list_empty [simp]: "queue_list q = [] \<longleftrightarrow> m_i_size q = 0"
  by (simp add: queue_list_def unat_eq_0)

lemma queue_ok_push_ok: "queue_ok q \<Longrightarrow> queue_used q < 2 ^ 63 \<Longrightarrow> push_ok q"
proof -
  assume used: "queue_used q < 2 ^ 63"
  have "end_index q \<noteq> 0" if "m_i_size q \<noteq> 0"
  proof -
    have "unat (end_index q) = queue_used q"
      using used by (simp add: end_index_begin queue_used_def unat_add_size)
    moreover have "unat (m_i_size q) \<noteq> 0"
      using that by (simp add: unat_eq_0)
    ultimately show ?thesis
      by (auto simp: queue_used_def)
  qed
  with used show ?thesis
    by (auto simp: push_ok_def queue_used_def)
qed

interpretation rq: fifo queue_ok queue_list queue_used "2 ^ 63" "queue_push dflt" queue_pop
  queue_front for dflt
proof (unfold_locales, goal_cases)
  case (1 q x)
  then have "push_ok q" by (intro queue_ok_push_ok)
  with 1 queue_push_spec [of q dflt x] show ?case
    by (auto simp: queue_ok_def queue_used_def unat_add_size)
next
  case (2 q)
  then have ne: "m_i_size q \<noteq> 0" and inv: "queue_inv q" and le: "queue_used q \<le> 2 ^ 63"
    by (auto simp: queue_ok_def)
  have "unat (m_i_size q) \<noteq> 0"
    using ne by (simp add: unat_eq_0)
  with ne le queue_pop_spec [OF inv ne] inv show ?case
    by (auto simp: queue_ok_def queue_used_def unat_add_size unat_minus_one)
next
  case (3 q)
  then show ?case using queue_front_spec [of q] by (auto simp: queue_ok_def)
qed (auto simp: queue_pop_def queue_front_def)

lemma queue_make_fresh:
  assumes "unat c \<le> 2 ^ 63"
  shows "\<exists>q. queue_make dflt c 0 0 = Inr q \<and> queue_ok q \<and> m_i_size q = 0 \<and>
    begin_index q = 0 \<and> queue_list q = []"
proof -
  have "\<exists>cap. capacity2pow c = Some cap \<and> (cap = 0 \<or> (\<exists>m<64. cap = 2 ^ m))"
    using next2pow_least [OF assms] by (auto simp: capacity2pow_def)
  then show ?thesis
    by (auto simp: queue_make_def queue_ok_def queue_inv_def queue_used_def begin_index_def)
qed

section \<open>Growing at the end of the index range\<close>

text \<open>
  A queue that is full when its end index has wrapped to exactly 0 cannot grow: the
  constructor reads an end index of 0 as "none given" and starts the new vector at index 0,
  where the old indices are not valid.
\<close>

lemma queue_push_wrapped_full:
  assumes inv: "queue_inv q" and full: "queue_full q" and ne: "m_i_size q \<noteq> 0"
    and e: "end_index q = 0" and small: "unat (m_i_size q) < 2 ^ 63"
  shows "queue_push dflt x q = Inl Terminates"
proof -
  from inv full ne obtain k where k: "k < 64" "m_i_size q = 2 ^ k" "vec_size q = 2 ^ k"
    by (cases rule: queue_inv_cases) (auto simp: queue_full_def)
  have "k < 63"
    using k small by (cases "k = 63") auto
  then obtain m where m: "k < m" "m < 64" "grow_loop (2 ^ k) 64 = Some (2 ^ m)"
    using grow_loop_pow2 by auto
  have beg: "begin_index q = - (2 ^ k)"
    using e k by (simp add: end_index_begin eq_neg_iff_add_eq_0)
  have le: "(2 :: nat) ^ k \<le> 2 ^ m"
    using m(1) by simp
  have lt: "(2 :: nat) ^ k < 9223372036854775808"
    using power_strict_increasing [OF \<open>k < 63\<close>, of "2 :: nat"] by (simp del: power_strict_increasing_iff)
  define nq where "nq = \<lparr>m_i_start = 0, m_i_size = 2 ^ k, m_i_loops = 0,
    m_vec_queue = replicate (2 ^ m) dflt\<rparr>"
  have make: "queue_make dflt (2 ^ m) (end_index q) (m_i_size q) = Inr nq"
    using m k le e by (simp add: queue_make_def nq_def word_less_nat_alt)
  have "unat (- (2 ^ k) :: u64) = 2 ^ 64 - 2 ^ k"
    using unat_sub_if_size [of "0 :: u64" "2 ^ k"] k(1) by (simp add: word_size)
  moreover have "begin_index nq = 0" "m_i_size nq = 2 ^ k"
    by (simp_all add: nq_def begin_index_def)
  ultimately have "\<not> valid_index nq (begin_index q)"
    using lt k(1) by (simp add: valid_index_window beg word_less_nat_alt)
  moreover have "0 < unat (m_i_size q)"
    using ne by (simp add: unat_gt_0)
  then obtain y where "queue_at q (begin_index q) = Inr y"
    using queue_at_begin [OF inv, of 0] by auto
  ultimately have "queue_move_range q nq (begin_index q) = Inl Terminates"
    using ne by (subst queue_move_range.simps)
       (simp add: queue_assign_def end_index_begin)
  with k m make ne show ?thesis
    by (simp add: queue_push_def queue_reserve_def)
qed

section \<open>Properties\<close>

definition no_queue :: "'a queue" where
  "no_queue = \<lparr>m_i_start = 0, m_i_size = 0, m_i_loops = 0, m_vec_queue = []\<rparr>"

lemma no_queue_ok [simp]:
  "queue_ok no_queue" "queue_inv no_queue" "push_ok no_queue" "queue_list no_queue = []"
  "queue_used no_queue = 0" "begin_index no_queue = 0" "m_i_size no_queue = 0"
  by (simp_all add: no_queue_def queue_ok_def queue_inv_def queue_used_def begin_index_def
      queue_list_def push_ok_def)

text \<open>C12: Any client of the ring buffer that pushes, and pops after reading the front, sees a
  first-in first-out list: the run over the ring buffer and the run over a plain list give
  the same output, leave the same elements, and fail together (a pop of an empty queue
  terminates in both), across growth and wrapping of the slots.\<close>

theorem queue_fifo_refinement:
  assumes "queue_ok q" "queue_used q + length ops \<le> 2 ^ 63"
  shows "case fold_res (client_step (queue_push dflt) queue_pop queue_front) ops (q, out) of
      Inl e \<Rightarrow> fold_res list_step ops (queue_list q, out) = Inl e
    | Inr (q', out') \<Rightarrow> queue_ok q' \<and>
        fold_res list_step ops (queue_list q, out) = Inr (queue_list q', out')"
  using assms by (rule rq.run_refines)

theorem queue_fifo_refinement_witness:
  "case fold_res (client_step (queue_push (0::nat)) queue_pop queue_front)
       [Op_push 5, Op_push 7, Op_pop] (no_queue, []) of
      Inl e \<Rightarrow> False
    | Inr (q', out') \<Rightarrow> queue_list q' = [7] \<and> out' = [5]"
  using queue_fifo_refinement [of no_queue "[Op_push (5::nat), Op_push 7, Op_pop]" "[]" 0]
  by (auto split: sum.splits)

text \<open>Absolute indices survive a push: every element keeps the index it had, also when
  the vector is reallocated, and the new element is found at the old end index.\<close>

theorem queue_push_keeps_indices:
  assumes "queue_inv q" "push_ok q"
  shows "\<exists>q'. queue_push dflt x q = Inr q' \<and> end_index q' = end_index q + 1 \<and>
    (\<forall>j < unat (m_i_size q).
       queue_at q' (begin_index q + of_nat j) = queue_at q (begin_index q + of_nat j)) \<and>
    queue_at q' (end_index q) = Inr x"
proof -
  obtain q' where q': "queue_push dflt x q = Inr q'" "queue_inv q'"
      "queue_list q' = queue_list q @ [x]" "begin_index q' = begin_index q"
      "m_i_size q' = m_i_size q + 1"
    using queue_push_spec [OF assms, of dflt x] by blast
  have sz: "unat (m_i_size q') = Suc (unat (m_i_size q))"
    using arg_cong [OF q'(3), of length] by simp
  have "queue_at q' (begin_index q + of_nat j) = Inr ((queue_list q @ [x]) ! j)"
    if "j \<le> unat (m_i_size q)" for j
    using queue_at_begin [OF q'(2), of j] that sz q'(3,4) by simp
  from this this [of "unat (m_i_size q)"] show ?thesis
    using q' assms(1)
    by (auto simp: queue_at_begin nth_append end_index_begin simp del: queue_list_nth)
qed

theorem queue_push_keeps_indices_witness:
  "\<exists>q'. queue_push (0::nat) 9 no_queue = Inr q' \<and>
     queue_at q' (end_index (no_queue :: nat queue)) = Inr 9"
  using queue_push_keeps_indices [of no_queue "0::nat" 9] by auto

text \<open>The index window may wrap past the largest \<open>size_t\<close>: exactly the
  \<open>size\<close> indices from \<open>begin_index\<close> on are valid, wherever the window starts.\<close>

theorem valid_index_is_window:
  "valid_index q (begin_index q + k) \<longleftrightarrow> k < m_i_size q"
  by (simp add: valid_index_window)

text \<open>C26: Rounding a capacity up to a power of two returns the least one that is large
  enough, and for a request above \<open>2 ^ 63\<close>, and only then, the loop never ends.\<close>

theorem next2pow_correct:
  "case next2pow number of
     None \<Rightarrow> 2 ^ 63 < unat number
   | Some r \<Rightarrow> unat number \<le> 2 ^ 63 \<and>
       (\<exists>m<64. r = 2 ^ m \<and> unat number \<le> 2 ^ m \<and> (\<forall>i. unat number \<le> 2 ^ i \<longrightarrow> m \<le> i))"
proof (cases "unat number \<le> 2 ^ 63")
  case True
  then obtain m where m: "m < 64" "next2pow number = Some (2 ^ m)" "unat number \<le> 2 ^ m"
      "m = 0 \<or> 2 ^ (m - 1) < unat number"
    by (rule next2pow_least)
  have "m \<le> i" if "unat number \<le> 2 ^ i" for i
  proof (cases "m = 0")
    case False
    with m(4) have "2 ^ (m - 1) < unat number" by simp
    then have "(2::nat) ^ (m - 1) < 2 ^ i"
      using that by (rule less_le_trans)
    then have "m - 1 < i"
      by (rule power_less_imp_less_exp [rotated]) simp
    then show ?thesis using False by simp
  qed simp
  with True m show ?thesis by auto
next
  case False
  then show ?thesis using next2pow_diverges [of number] by simp
qed

theorem next2pow_correct_witness: "next2pow 5 = Some 8"
proof -
  obtain m where m: "next2pow 5 = Some (2 ^ m)" "5 \<le> (2 :: nat) ^ m"
      "\<forall>i. 5 \<le> (2 :: nat) ^ i \<longrightarrow> m \<le> i"
    using next2pow_correct [of 5] by (auto split: option.splits)
  have "m \<le> 3" using m(3) [rule_format, of 3] by simp
  with m(2) have "m = 3"
    by (auto simp: numeral_3_eq_3 le_Suc_eq)
  with m(1) show ?thesis by simp
qed

text \<open>C25: The one state in which growth fails: a full queue whose end index wrapped to 0
  terminates the program on the next push.\<close>

theorem queue_push_at_wrap_terminates:
  assumes "queue_inv q" "queue_full q" "m_i_size q \<noteq> 0" "end_index q = 0"
    and "unat (m_i_size q) < 2 ^ 63"
  shows "queue_push dflt x q = Inl Terminates"
  using assms by (rule queue_push_wrapped_full)

theorem queue_push_at_wrap_terminates_witness:
  "queue_make (0::nat) 2 0 0 = Inr \<lparr>m_i_start = 0, m_i_size = 0, m_i_loops = 0,
     m_vec_queue = [0, 0]\<rparr> \<and>
   queue_push (0::nat) 8 \<lparr>m_i_start = 0, m_i_size = 2, m_i_loops = 2 ^ 63 - 1,
     m_vec_queue = [5, 6]\<rparr> = Inl Terminates"
proof
  show "queue_make (0::nat) 2 0 0 = Inr \<lparr>m_i_start = 0, m_i_size = 0, m_i_loops = 0,
     m_vec_queue = [0, 0]\<rparr>"
    by (simp add: queue_make_def capacity2pow_def next2pow_def next2pow_loop.simps
        replicate_two)
  show "queue_push (0::nat) 8 \<lparr>m_i_start = 0, m_i_size = 2, m_i_loops = 2 ^ 63 - 1,
     m_vec_queue = [5, 6]\<rparr> = Inl Terminates"
    by (rule queue_push_at_wrap_terminates)
       (auto simp: queue_full_def vec_size_def end_index_def intro: queue_inv_vector [of 1])
qed

text \<open>Reading a queue through its iterators gives its elements in order, and the
  iteration ends.\<close>

theorem queue_copy_out_list:
  assumes "queue_inv q"
  shows "queue_copy_out q (begin_index q) = Inr (queue_list q)"
  using queue_copy_out_spec [OF assms, of 0] by simp

theorem queue_copy_out_list_witness:
  "queue_copy_out \<lparr>m_i_start = 1, m_i_size = 2, m_i_loops = 0, m_vec_queue = [6::nat, 5]\<rparr> 1
     = Inr [5, 6]"
proof -
  let ?q = "\<lparr>m_i_start = 1, m_i_size = 2, m_i_loops = 0, m_vec_queue = [6::nat, 5]\<rparr>"
  have "queue_inv ?q"
    by (rule queue_inv_vector [of 1]) simp_all
  from queue_copy_out_list [OF this] show ?thesis
    by (simp add: begin_index_def queue_list_def slot_def upt_rec)
qed

section \<open>Moved-from queues\<close>

text \<open>
  The move constructor and the move assignment: the new queue and what is left of
  \<open>ob\<close>. Both empty the vector of \<open>ob\<close>, only the assignment resets its counters.
\<close>

definition queue_move_new :: "'a queue \<Rightarrow> 'a queue \<times> 'a queue" where
  "queue_move_new ob =
     (\<lparr>m_i_start = m_i_start ob, m_i_size = m_i_size ob, m_i_loops = m_i_loops ob,
       m_vec_queue = m_vec_queue ob\<rparr>, ob\<lparr>m_vec_queue := []\<rparr>)"

definition queue_move_assign :: "'a queue \<Rightarrow> 'a queue \<times> 'a queue" where
  "queue_move_assign ob =
     (\<lparr>m_i_start = m_i_start ob, m_i_size = m_i_size ob, m_i_loops = m_i_loops ob,
       m_vec_queue = m_vec_queue ob\<rparr>,
      ob\<lparr>m_vec_queue := [], m_i_loops := 0, m_i_size := 0, m_i_start := 0\<rparr>)"

text \<open>Moving a queue hands over its elements and indices; the queue that was assigned
  from is an empty queue again, while the one that was constructed from keeps its counters
  over an empty vector, so that pushing to it writes outside the vector unless it had been
  empty.\<close>

theorem queue_moved_from:
  "fst (queue_move_new q) = q \<and> fst (queue_move_assign q) = q \<and>
   queue_ok (snd (queue_move_assign q)) \<and> queue_list (snd (queue_move_assign q)) = [] \<and>
   (m_i_size q = 0 \<or> queue_push dflt x (snd (queue_move_new q)) = Inl Undefined)"
  by (auto simp: queue_move_new_def queue_move_assign_def queue_ok_def queue_inv_def
      queue_used_def begin_index_def queue_push_def queue_reserve_def vec_size_def Let_def)

end
