(* ===== verification/Numbers.thy ===== *)
theory Numbers
  imports Prelude
begin

text \<open>
  Numbers from and to text, as \<open>src/belt.pp/global.hpp\<close> reads them: the standard
  functions \<open>strtoull\<close> and \<open>strtoll\<close> with base 0, on top of them
  \<open>stoui64\<close>, \<open>stoi64\<close> and their narrow variants, and \<open>std::to_string\<close>
  for unsigned numbers. A call returns the number and \<open>pos\<close>, the number of characters
  read.
\<close>

section \<open>Characters\<close>

abbreviation char_code :: "char \<Rightarrow> nat" where
  "char_code c \<equiv> of_char c"

definition is_space :: "char \<Rightarrow> bool" where
  "is_space c \<longleftrightarrow> char_code c = 32 \<or> 9 \<le> char_code c \<and> char_code c \<le> 13"

definition digit_val :: "char \<Rightarrow> nat" where
  "digit_val c =
     (if 48 \<le> char_code c \<and> char_code c \<le> 57 then char_code c - 48
      else if 97 \<le> char_code c \<and> char_code c \<le> 122 then char_code c - 87
      else if 65 \<le> char_code c \<and> char_code c \<le> 90 then char_code c - 55
      else 36)"

definition digits_value :: "nat \<Rightarrow> string \<Rightarrow> nat" where
  "digits_value base ds = foldl (\<lambda>n c. n * base + digit_val c) 0 ds"

section \<open>The standard conversions with base 0\<close>

text \<open>
  The C string ends at the first NUL. White space, one sign, a base prefix, the digits;
  \<open>0x\<close> counts as a prefix only before a hexadecimal digit. Without digits nothing is
  read. The result is the sign, the magnitude and the end position.
\<close>

definition int_prefix :: "string \<Rightarrow> nat \<times> nat" where
  "int_prefix s =
     (if 2 < length s \<and> s ! 0 = CHR ''0'' \<and> (s ! 1 = CHR ''x'' \<or> s ! 1 = CHR ''X'') \<and>
         digit_val (s ! 2) < 16
      then (16, 2)
      else if s \<noteq> [] \<and> s ! 0 = CHR ''0'' then (8, 0)
      else (10, 0))"

definition scan_integer :: "string \<Rightarrow> bool \<times> nat \<times> nat" where
  "scan_integer value =
     (let s = takeWhile (\<lambda>c. c \<noteq> CHR 0x00) value;
          ws = length (takeWhile is_space s);
          s1 = drop ws s;
          neg = (s1 \<noteq> [] \<and> hd s1 = CHR ''-'');
          sgn = (if neg \<or> s1 \<noteq> [] \<and> hd s1 = CHR ''+'' then 1 else 0);
          s2 = drop sgn s1;
          (base, skip) = int_prefix s2;
          ds = takeWhile (\<lambda>c. digit_val c < base) (drop skip s2)
      in if ds = [] then (False, 0, 0)
         else (neg, digits_value base ds, ws + sgn + skip + length ds))"

definition stoui64 :: "string \<Rightarrow> u64 \<times> nat" where
  "stoui64 value =
     (let (neg, mag, pos) = scan_integer value
      in if mag \<ge> 2 ^ 64 then (- 1, pos)
         else if neg then (- of_nat mag, pos)
         else (of_nat mag, pos))"

definition stoi64 :: "string \<Rightarrow> u64 \<times> nat" where
  "stoi64 value =
     (let (neg, mag, pos) = scan_integer value
      in if neg then (if mag > 2 ^ 63 then 2 ^ 63 else - of_nat mag, pos)
         else (if mag \<ge> 2 ^ 63 then 2 ^ 63 - 1 else of_nat mag, pos))"

section \<open>The narrow variants\<close>

definition stoi32 :: "string \<Rightarrow> u32 \<times> nat" where
  "stoi32 value =
     (let (temp, pos) = stoi64 value; result = (scast temp :: u32)
      in if (scast result :: u64) \<noteq> temp then (0, 0) else (result, pos))"

definition stoui32 :: "string \<Rightarrow> u32 \<times> nat" where
  "stoui32 value =
     (let (temp, pos) = stoui64 value; result = (ucast temp :: u32)
      in if (ucast result :: u64) \<noteq> temp then (0, 0) else (result, pos))"

definition stoi16 :: "string \<Rightarrow> u16 \<times> nat" where
  "stoi16 value =
     (let (temp, pos) = stoi64 value; result = (scast temp :: u16)
      in if (scast result :: u64) \<noteq> temp then (0, 0) else (result, pos))"

definition stoui16 :: "string \<Rightarrow> u16 \<times> nat" where
  "stoui16 value =
     (let (temp, pos) = stoui64 value; result = (ucast temp :: u16)
      in if (ucast result :: u64) \<noteq> temp then (0, 0) else (result, pos))"

definition stoi8 :: "string \<Rightarrow> u8 \<times> nat" where
  "stoi8 value =
     (let (temp, pos) = stoi64 value; result = (scast temp :: u8)
      in if (scast result :: u64) \<noteq> temp then (0, 0) else (result, pos))"

definition stoui8 :: "string \<Rightarrow> u8 \<times> nat" where
  "stoui8 value =
     (let (temp, pos) = stoui64 value; result = (ucast temp :: u8)
      in if (ucast result :: u64) \<noteq> temp then (0, 0) else (result, pos))"

section \<open>Decimal output\<close>

definition digit_char :: "nat \<Rightarrow> char" where
  "digit_char d = char_of (48 + d)"

fun to_string :: "nat \<Rightarrow> string" where
  "to_string n =
     (if n < 10 then [digit_char n] else to_string (n div 10) @ [digit_char (n mod 10)])"

declare to_string.simps [simp del]

lemma code_digit_char [simp]: "d < 10 \<Longrightarrow> char_code (digit_char d) = 48 + d"
  by (simp add: digit_char_def)

lemma digit_val_digit_char [simp]: "d < 10 \<Longrightarrow> digit_val (digit_char d) = d"
  by (simp add: digit_val_def)

lemma to_string_nonempty [simp]: "to_string n \<noteq> []"
  by (subst to_string.simps) simp

lemma to_string_digits: "c \<in> set (to_string n) \<Longrightarrow> \<exists>d<10. c = digit_char d"
proof (induction n rule: to_string.induct)
  case (1 n)
  have "to_string n =
      (if n < 10 then [digit_char n] else to_string (n div 10) @ [digit_char (n mod 10)])"
    by (rule to_string.simps)
  moreover have "\<exists>d<10. digit_char (n mod 10) = digit_char d"
    by (rule exI [of _ "n mod 10"]) simp
  ultimately show ?case
    using 1 by (cases "n < 10") auto
qed

lemma digits_value_to_string: "digits_value 10 (to_string n) = n"
proof (induction n rule: to_string.induct)
  case (1 n)
  then show ?case
    by (subst to_string.simps) (simp add: digits_value_def)
qed

lemma hd_to_string: "0 < n \<Longrightarrow> \<exists>d. 0 < d \<and> d < 10 \<and> hd (to_string n) = digit_char d"
proof (induction n rule: to_string.induct)
  case (1 n)
  then show ?case
    by (subst to_string.simps) (auto simp: hd_append)
qed

text \<open>
  What may follow a decimal number without being read as part of it.
\<close>

definition number_ends :: "string \<Rightarrow> bool" where
  "number_ends rest \<longleftrightarrow>
     (case rest of [] \<Rightarrow> True | c # _ \<Rightarrow> 10 \<le> digit_val c \<and> c \<noteq> CHR ''x'' \<and> c \<noteq> CHR ''X'')"

lemma to_string_takeWhile:
  assumes "\<And>d. d < 10 \<Longrightarrow> P (digit_char d)"
  shows "takeWhile P (to_string n @ rest) = to_string n @ takeWhile P rest"
proof -
  have "\<And>c. c \<in> set (to_string n) \<Longrightarrow> P c"
    using assms by (auto dest: to_string_digits)
  then show ?thesis by (rule takeWhile_append2)
qed

lemma digit_char_less: "d < 10 \<Longrightarrow> digit_char d \<noteq> c \<longleftrightarrow> char_code c \<noteq> 48 + d"
  by (metis code_digit_char char_of_char digit_char_def)

lemma to_string_0: "to_string 0 = ''0''"
proof -
  have "digit_char 0 = CHR ''0''"
    using digit_char_less [of 0 "CHR ''0''"] by simp
  then show ?thesis by (subst to_string.simps) simp
qed

lemma number_ends_takeWhile: "number_ends rest \<Longrightarrow> number_ends (takeWhile (\<lambda>c. c \<noteq> CHR 0x00) rest)"
  by (cases rest) (auto simp: number_ends_def)

lemma number_ends_stop: "number_ends rest \<Longrightarrow> b \<le> 10 \<Longrightarrow> takeWhile (\<lambda>c. digit_val c < b) rest = []"
  by (cases rest) (auto simp: number_ends_def)

lemma not_space_digit [simp]: "d < 10 \<Longrightarrow> \<not> is_space (digit_char d)"
  by (simp add: is_space_def)

lemma int_prefix_to_string:
  assumes "number_ends rest"
  shows "int_prefix (to_string n @ rest) = (if n = 0 then 8 else 10, 0)"
proof (cases "n = 0")
  case True
  then have "to_string n = [CHR ''0'']"
    by (simp add: to_string_0)
  with assms True show ?thesis
    by (cases rest) (auto simp: int_prefix_def number_ends_def)
next
  case False
  then obtain d where d: "0 < d" "d < 10" "hd (to_string n) = digit_char d"
    using hd_to_string [of n] by auto
  then obtain cs where cs: "to_string n = digit_char d # cs"
    by (cases "to_string n") auto
  have "digit_char d \<noteq> CHR ''0''"
    using d by (subst digit_char_less) auto
  with cs False show ?thesis
    by (simp add: int_prefix_def)
qed

lemma scan_integer_to_string:
  assumes rest: "number_ends rest"
  shows "scan_integer (to_string n @ rest) = (False, n, length (to_string n))"
proof -
  let ?r = "takeWhile (\<lambda>c. c \<noteq> CHR 0x00) rest"
  have s: "takeWhile (\<lambda>c. c \<noteq> CHR 0x00) (to_string n @ rest) = to_string n @ ?r"
    by (rule to_string_takeWhile) (simp add: digit_char_less)
  have ends: "number_ends ?r"
    using rest by (rule number_ends_takeWhile)
  obtain d cs where d: "d < 10" "to_string n = digit_char d # cs"
    using to_string_digits [of "hd (to_string n)" n] by (cases "to_string n") auto
  have ws: "takeWhile is_space (to_string n @ ?r) = []"
    using d by simp
  have hd: "digit_char d \<noteq> CHR ''-''" "digit_char d \<noteq> CHR ''+''"
    using d(1) by (auto simp: digit_char_less)
  have base: "takeWhile (\<lambda>c. digit_val c < (if n = 0 then 8 else 10)) (to_string n @ ?r) = to_string n"
  proof (cases "n = 0")
    case True
    then have "to_string n = [CHR ''0'']"
      by (simp add: to_string_0)
    with True number_ends_stop [OF ends, of 8] show ?thesis
      by (simp add: digit_val_def)
  next
    case False
    then show ?thesis
      using number_ends_stop [OF ends, of 10] by (simp add: to_string_takeWhile)
  qed
  have val: "digits_value (if n = 0 then 8 else 10) (to_string n) = n"
  proof (cases "n = 0")
    case True
    then have "to_string n = [CHR ''0'']"
      by (simp add: to_string_0)
    with True show ?thesis by (simp add: digits_value_def digit_val_def)
  qed (simp add: digits_value_to_string)
  show ?thesis
    unfolding scan_integer_def Let_def s ws
    using int_prefix_to_string [OF ends, of n] base val d hd by simp
qed

lemma stoui64_to_string [result_simps]:
  "n < 2 ^ 64 \<Longrightarrow> number_ends rest \<Longrightarrow>
   stoui64 (to_string n @ rest) = (of_nat n, length (to_string n))"
  by (simp add: stoui64_def scan_integer_to_string)

section \<open>Narrowing\<close>

lemma ucast_back_iff:
  fixes w :: "64 word"
  assumes "LENGTH('b::len) \<le> 64"
  shows "(ucast (ucast w :: 'b word) :: 64 word) = w \<longleftrightarrow> unat w < 2 ^ LENGTH('b)"
proof -
  have "unat (ucast (ucast w :: 'b word) :: 64 word) = take_bit LENGTH('b) (unat w)"
    using assms by (subst unsigned_ucast_eq) (simp add: unsigned_take_bit_eq min_def)
  then show ?thesis
    by (metis take_bit_nat_eq_self_iff word_unat_eq_iff)
qed

lemma scast_back_iff:
  fixes w :: "64 word"
  assumes "LENGTH('b::len) \<le> 64"
  shows "(scast (scast w :: 'b word) :: 64 word) = w \<longleftrightarrow>
    - (2 ^ (LENGTH('b) - 1)) \<le> sint w \<and> sint w < 2 ^ (LENGTH('b) - 1)"
proof -
  have "signed_take_bit 63 (sint w) = sint w"
    using signed_take_bit_int_eq_self_iff [of 63 "sint w"] sint_range_size [of w]
    by (simp add: word_size)
  then have "sint (scast w :: 'b word) = signed_take_bit (LENGTH('b) - 1) (sint w)"
    by (simp add: signed_scast_eq)
  moreover have "sint (scast (scast w :: 'b word) :: 64 word) = sint (scast w :: 'b word)"
    by (rule sint_up_scast) (use assms in \<open>simp add: is_up\<close>)
  ultimately have "sint (scast (scast w :: 'b word) :: 64 word) =
      signed_take_bit (LENGTH('b) - 1) (sint w)"
    by simp
  then show ?thesis
    by (metis signed_take_bit_int_eq_self_iff signed_word_eqI)
qed

lemma unat_ucast_small:
  fixes w :: "64 word"
  assumes "unat w < 2 ^ LENGTH('b::len)"
  shows "unat (ucast w :: 'b word) = unat w"
  using assms by (simp add: unsigned_ucast_eq take_bit_nat_eq_self_iff)

lemma sint_scast_small:
  fixes w :: "64 word"
  assumes "- (2 ^ (LENGTH('b::len) - 1)) \<le> sint w" "sint w < 2 ^ (LENGTH('b) - 1)"
  shows "sint (scast w :: 'b word) = sint w"
  using assms by (simp add: signed_scast_eq signed_take_bit_int_eq_self_iff)

text \<open>A pair of a number and a position, read through the number's value.\<close>

definition read_as :: "('w \<Rightarrow> 'n) \<Rightarrow> 'w \<times> nat \<Rightarrow> 'n \<times> nat" where
  "read_as f r = (f (fst r), snd r)"

lemma narrow_unsigned:
  fixes w :: "64 word"
  assumes "LENGTH('b::len) \<le> 64"
  shows "read_as unat (let result = (ucast w :: 'b word)
      in if (ucast result :: 64 word) \<noteq> w then (0, 0) else (result, pos)) =
    (if unat w < 2 ^ LENGTH('b) then (unat w, pos) else (0, 0))"
  using ucast_back_iff [of w, where 'b = 'b] unat_ucast_small [of w, where 'b = 'b] assms
  by (auto simp: read_as_def Let_def)

lemma narrow_signed:
  fixes w :: "64 word"
  assumes "LENGTH('b::len) \<le> 64"
  shows "read_as sint (let result = (scast w :: 'b word)
      in if (scast result :: 64 word) \<noteq> w then (0, 0) else (result, pos)) =
    (if - (2 ^ (LENGTH('b) - 1)) \<le> sint w \<and> sint w < 2 ^ (LENGTH('b) - 1)
     then (sint w, pos) else (0, 0))"
  using scast_back_iff [of w, where 'b = 'b] sint_scast_small [of w, where 'b = 'b] assms
  by (auto simp: read_as_def Let_def)

section \<open>Properties\<close>

text \<open>What \<open>std::to_string\<close> writes for an unsigned 64 bit number,
  \<open>stoui64\<close> reads back, stopping at the first character that does not belong to it.\<close>

theorem stoui64_reads_to_string:
  assumes "n < 2 ^ 64" "number_ends rest"
  shows "stoui64 (to_string n @ rest) = (of_nat n, length (to_string n))"
  using assms by (rule stoui64_to_string)

theorem stoui64_reads_to_string_witness: "stoui64 ''1024<=>'' = (1024, 4)"
proof -
  have "to_string 1024 = ''1024''" by code_simp
  then show ?thesis
    using stoui64_reads_to_string [of 1024 "''<=>''"]
    by (simp add: number_ends_def digit_val_def)
qed

text \<open>The narrow conversions never return a truncated number: a value that fits is
  returned exactly with its end position, every other value is rejected with position 0.\<close>

theorem narrow_conversions_exact:
  "(let (w, pos) = stoui64 v; fit = (\<lambda>n. if unat w < 2 ^ n then (unat w, pos) else (0, 0)) in
      read_as unat (stoui8 v) = fit 8 \<and> read_as unat (stoui16 v) = fit 16 \<and>
      read_as unat (stoui32 v) = fit 32) \<and>
   (let (w, pos) = stoi64 v;
        fit = (\<lambda>n. if - (2 ^ n) \<le> sint w \<and> sint w < 2 ^ n then (sint w, pos) else (0, 0)) in
      read_as sint (stoi8 v) = fit 7 \<and> read_as sint (stoi16 v) = fit 15 \<and>
      read_as sint (stoi32 v) = fit 31)"
proof -
  obtain w pos where w: "stoui64 v = (w, pos)" by (cases "stoui64 v")
  obtain i ipos where i: "stoi64 v = (i, ipos)" by (cases "stoi64 v")
  have "read_as unat (stoui8 v) = (if unat w < 2 ^ 8 then (unat w, pos) else (0, 0))"
    "read_as unat (stoui16 v) = (if unat w < 2 ^ 16 then (unat w, pos) else (0, 0))"
    "read_as unat (stoui32 v) = (if unat w < 2 ^ 32 then (unat w, pos) else (0, 0))"
    "read_as sint (stoi8 v) =
      (if - (2 ^ 7) \<le> sint i \<and> sint i < 2 ^ 7 then (sint i, ipos) else (0, 0))"
    "read_as sint (stoi16 v) =
      (if - (2 ^ 15) \<le> sint i \<and> sint i < 2 ^ 15 then (sint i, ipos) else (0, 0))"
    "read_as sint (stoi32 v) =
      (if - (2 ^ 31) \<le> sint i \<and> sint i < 2 ^ 31 then (sint i, ipos) else (0, 0))"
    unfolding stoui8_def stoui16_def stoui32_def stoi8_def stoi16_def stoi32_def w i prod.case
    using narrow_unsigned [where 'b = 8, of w pos] narrow_unsigned [where 'b = 16, of w pos]
      narrow_unsigned [where 'b = 32, of w pos] narrow_signed [where 'b = 8, of i ipos]
      narrow_signed [where 'b = 16, of i ipos] narrow_signed [where 'b = 32, of i ipos]
    by simp_all
  then show ?thesis
    using w i by simp
qed

end
