(* ===== verification/Meta.thy ===== *)
theory Meta
  imports Prelude
begin

text \<open>
  The compile-time lists of \<open>src/belt.pp/meta.hpp\<close>: \<open>type_list_index\<close> and
  \<open>type_list_get\<close> over lists of types, \<open>static_set::index\<close> and
  \<open>static_set::find\<close> over lists of \<open>int64_t\<close>. A type is any value \<open>'t\<close>; an
  instantiation that has no matching specialisation does not compile and is \<open>None\<close>.
  A parameter pack has fewer than \<open>2 ^ 63\<close> members, so the positions are \<open>int\<close>.
\<close>

section \<open>Lists of types\<close>

fun type_list_index :: "'t \<Rightarrow> 't list \<Rightarrow> int option" where
  "type_list_index Tfind [] = None"
| "type_list_index Tfind (T0 # Ts) =
     (if T0 = Tfind then Some 0
      else map_option (\<lambda>value. 1 + value) (type_list_index Tfind Ts))"

fun type_list_get :: "nat \<Rightarrow> 't list \<Rightarrow> 't option" where
  "type_list_get INDEX [] = None"
| "type_list_get 0 (Tfirst # Ts) = Some Tfirst"
| "type_list_get (Suc INDEX) (Tfirst # Ts) = type_list_get INDEX Ts"

section \<open>Sets of numbers\<close>

fun static_set_index :: "u64 \<Rightarrow> u64 list \<Rightarrow> int" where
  "static_set_index Vfind [] = -1"
| "static_set_index Vfind (Vvalue0 # Vvalues) =
     (if Vvalue0 = Vfind then 0
      else let next_value = static_set_index Vfind Vvalues
           in if next_value = -1 then -1 else 1 + next_value)"

fun static_set_find :: "u64 list \<Rightarrow> u64 \<Rightarrow> int" where
  "static_set_find [] value = -1"
| "static_set_find (Vvalue0 # Vvalues) value =
     (if value = Vvalue0 then 0
      else let next_check = static_set_find Vvalues value
           in if next_check = -1 then -1 else 1 + next_check)"

section \<open>Facts\<close>

lemma static_set_index_find: "static_set_index v vs = static_set_find vs v"
  by (induction vs) (auto simp: Let_def)

lemma static_set_find_bounds: "- 1 \<le> static_set_find vs v \<and> static_set_find vs v < int (length vs)"
  by (induction vs) (auto simp: Let_def)

lemma static_set_find_absent [simp]: "static_set_find vs v = -1 \<longleftrightarrow> v \<notin> set vs"
proof (induction vs)
  case (Cons w vs)
  then show ?case
    using static_set_find_bounds [of vs v] by (auto simp: Let_def)
qed simp

lemma static_set_find_nth:
  "v \<in> set vs \<Longrightarrow> vs ! nat (static_set_find vs v) = v \<and>
    (\<forall>j < nat (static_set_find vs v). vs ! j \<noteq> v)"
proof (induction vs)
  case (Cons w vs)
  show ?case
  proof (cases "v = w")
    case False
    with Cons.prems have "v \<in> set vs" by simp
    moreover from this have "0 \<le> static_set_find vs v"
      using static_set_find_bounds [of vs v] static_set_find_absent [of vs v] by linarith
    ultimately show ?thesis
      using Cons.IH False by (auto simp: Let_def nat_add_distrib nth_Cons split: nat.split)
  qed simp
qed simp

lemma type_list_index_bounds:
  "type_list_index T Ts = Some i \<Longrightarrow> 0 \<le> i \<and> i < int (length Ts)"
  by (induction Ts arbitrary: i) (auto split: if_splits)

lemma type_list_index_None [simp]: "type_list_index T Ts = None \<longleftrightarrow> T \<notin> set Ts"
  by (induction Ts) auto

lemma type_list_get_nth: "type_list_get i Ts = (if i < length Ts then Some (Ts ! i) else None)"
  by (induction i Ts rule: type_list_get.induct) auto

lemma type_list_get_index: "type_list_index T Ts = Some i \<Longrightarrow> type_list_get (nat i) Ts = Some T"
proof (induction Ts arbitrary: i)
  case (Cons T0 Ts)
  show ?case
  proof (cases "T0 = T")
    case False
    with Cons.prems obtain j where j: "type_list_index T Ts = Some j" "i = 1 + j" by auto
    with type_list_index_bounds [of T Ts j] have "nat i = Suc (nat j)"
      by (simp add: nat_add_distrib)
    with j Cons.IH show ?thesis by simp
  qed (use Cons.prems in simp)
qed simp

section \<open>Properties\<close>

text \<open>The run-time search in a static set and its compile-time twin agree, and their
  result is the first position of the value, or -1 exactly when the value is not a
  member.\<close>

theorem static_set_find_first:
  "static_set_index v vs = static_set_find vs v \<and>
   (if v \<in> set vs
    then (\<exists>i < length vs. static_set_find vs v = int i \<and> vs ! i = v \<and>
            v \<notin> set (take i vs))
    else static_set_find vs v = -1)"
proof (cases "v \<in> set vs")
  case True
  let ?i = "nat (static_set_find vs v)"
  have "0 \<le> static_set_find vs v"
    using True static_set_find_bounds [of vs v] static_set_find_absent [of vs v] by linarith
  moreover have "?i < length vs"
    using static_set_find_bounds [of vs v] calculation by linarith
  moreover have "v \<notin> set (take ?i vs)"
    using static_set_find_nth [OF True] by (auto simp: in_set_conv_nth)
  ultimately show ?thesis
    using True static_set_find_nth [OF True]
    by (auto simp: static_set_index_find intro!: exI [of _ ?i])
qed (simp add: static_set_index_find)

text \<open>\<open>type_list_get\<close> inverts \<open>type_list_index\<close>: a type of the list is found
  again under its index, and a type that is not in the list has no index.\<close>

theorem type_list_roundtrip:
  "case type_list_index T Ts of
     None \<Rightarrow> T \<notin> set Ts
   | Some i \<Rightarrow> 0 \<le> i \<and> type_list_get (nat i) Ts = Some T"
  by (auto split: option.split dest: type_list_get_index type_list_index_bounds)

end
