(* ===== verification/Packet.thy ===== *)
theory Packet
  imports Meta
begin

text \<open>
  \<open>beltpp::packet\<close> and \<open>beltpp::variant_packet\<close> of \<open>src/libpacket\<close>: a message
  of some generated type, kept behind a type tag \<open>m_rtt\<close> and a function that prints
  it. A message is a value \<open>'m\<close>; the generated message types, which are not under
  \<open>src\<close>, are the parameters \<open>rtt_of\<close> (the constant \<open>T_message::rtt\<close> of the
  message's type), \<open>pvoid_saver\<close> and \<open>moved\<close> (what a move leaves in a message).
\<close>

section \<open>The packet\<close>

record 'm packet =
  m_rtt :: usize
  m_ptr_message :: "'m option"
  m_fsaver :: "('m \<Rightarrow> string) option"

definition packet_new :: "'m packet" where
  "packet_new = \<lparr>m_rtt = size_max, m_ptr_message = None, m_fsaver = None\<rparr>"

text \<open>
  The move constructor and the move assignment from another object: the new state of
  \<open>*this\<close> and of \<open>other\<close>. Assigning a packet to itself moves its internals onto
  themselves and then cleans it.
\<close>

definition packet_move :: "'m packet \<Rightarrow> 'm packet \<times> 'm packet" where
  "packet_move other = (other, packet_new)"

definition packet_self_move :: "'m packet \<Rightarrow> 'm packet" where
  "packet_self_move p = packet_new"

definition packet_empty :: "'m packet \<Rightarrow> bool" where
  "packet_empty p = (m_rtt p = size_max)"

definition packet_type :: "'m packet \<Rightarrow> usize" where
  "packet_type p = m_rtt p"

definition packet_clean :: "'m packet \<Rightarrow> 'm packet" where
  "packet_clean p = packet_new"

text \<open>The saver dereferences the pointer it is given; a null pointer is undefined.\<close>

definition packet_to_string :: "'m packet \<Rightarrow> string result" where
  "packet_to_string p =
     (case m_fsaver p of
        None \<Rightarrow> Inr ''''
      | Some fsaver \<Rightarrow>
          (case m_ptr_message p of None \<Rightarrow> Inl Undefined | Some msg \<Rightarrow> Inr (fsaver msg)))"

definition packet_set_internal ::
  "usize \<Rightarrow> 'm option \<Rightarrow> ('m \<Rightarrow> string) option \<Rightarrow> 'm packet \<Rightarrow> 'm packet" where
  "packet_set_internal rtt pmsg fsaver p =
     p\<lparr>m_ptr_message := pmsg, m_rtt := rtt, m_fsaver := fsaver\<rparr>"

definition packet_set ::
  "('m \<Rightarrow> usize) \<Rightarrow> ('m \<Rightarrow> string) \<Rightarrow> 'm \<Rightarrow> 'm packet \<Rightarrow> 'm packet" where
  "packet_set rtt_of pvoid_saver msg p =
     packet_set_internal (rtt_of msg) (Some msg) (Some pvoid_saver) p"

definition packet_data :: "'m packet \<Rightarrow> 'm option" where
  "packet_data p = m_ptr_message p"

text \<open>
  \<open>get\<close> for a message type with tag \<open>rtt\<close>: the pointer, a copy of the message, the
  message moved out of the packet.
\<close>

definition packet_get :: "usize \<Rightarrow> 'm packet \<Rightarrow> 'm option result" where
  "packet_get rtt p =
     (if packet_type p = rtt then Inr (m_ptr_message p)
      else Inl (Runtime_error ''wrong type on get from packet''))"

definition packet_get_copy :: "usize \<Rightarrow> 'm packet \<Rightarrow> 'm result" where
  "packet_get_copy rtt p =
     (case packet_get rtt p of
        Inl e \<Rightarrow> Inl e
      | Inr None \<Rightarrow> Inl Undefined
      | Inr (Some msg) \<Rightarrow> Inr msg)"

definition packet_get_move ::
  "('m \<Rightarrow> 'm) \<Rightarrow> usize \<Rightarrow> 'm packet \<Rightarrow> ('m \<times> 'm packet) result" where
  "packet_get_move moved rtt p =
     (case packet_get rtt p of
        Inl e \<Rightarrow> Inl e
      | Inr None \<Rightarrow> Inl Undefined
      | Inr (Some msg) \<Rightarrow> Inr (msg, p\<lparr>m_ptr_message := Some (moved msg)\<rparr>))"

section \<open>The variant packet\<close>

text \<open>
  \<open>variant_packet<Vs...>\<close> holds a packet whose tag must be one of \<open>Vs\<close> (any tag
  if there are none). Every access repeats the check; the tag is converted to
  \<open>int64_t\<close> by the call, which keeps its bits.
\<close>

definition variant_check :: "u64 list \<Rightarrow> 'm packet \<Rightarrow> bool" where
  "variant_check Vs p =
     (let index = static_set_find Vs (packet_type p)
      in \<not> (index = -1 \<and> length Vs \<noteq> 0))"

definition variant_new :: "'m packet" where
  "variant_new = packet_new"

text \<open>Construction from a packet moves it in before it looks at the tag, so the packet is
  lost when the check throws: the result and the new state of \<open>other\<close>.\<close>

definition variant_from :: "u64 list \<Rightarrow> 'm packet \<Rightarrow> 'm packet result \<times> 'm packet" where
  "variant_from Vs other =
     (let (p, other') = packet_move other
      in if variant_check Vs p then (Inr p, other')
         else (Inl (Logic_error ''variant_packet(packet&& other)''), other'))"

definition variant_clean :: "u64 list \<Rightarrow> 'm packet \<Rightarrow> 'm packet result" where
  "variant_clean Vs p =
     (if variant_check Vs (packet_new :: 'm packet) then Inr (packet_clean p)
      else Inl (Logic_error ''variant_packet::clean()''))"

text \<open>\<open>set\<close> checks first: on a throw both packets keep their state.\<close>

definition variant_set ::
  "u64 list \<Rightarrow> 'm packet \<Rightarrow> 'm packet \<Rightarrow> ('m packet \<times> 'm packet) result" where
  "variant_set Vs other p =
     (if variant_check Vs other then Inr (packet_move other)
      else Inl (Logic_error ''variant_packet::set(packet&& other)''))"

definition variant_deref :: "u64 list \<Rightarrow> 'm packet \<Rightarrow> 'm packet result" where
  "variant_deref Vs p =
     (if variant_check Vs p then Inr p
      else Inl (Logic_error ''packet& operator * ()''))"

definition variant_arrow :: "u64 list \<Rightarrow> 'm packet \<Rightarrow> 'm packet result" where
  "variant_arrow Vs p =
     (if variant_check Vs p then Inr p
      else Inl (Logic_error ''packet* operator -> ()''))"

text \<open>Moving a variant packet goes through the checked \<open>operator *\<close>; in the
  \<open>noexcept\<close> assignment a throw ends the program.\<close>

definition variant_move_new :: "u64 list \<Rightarrow> 'm packet \<Rightarrow> ('m packet \<times> 'm packet) result" where
  "variant_move_new Vs other =
     (case variant_deref Vs other of Inl e \<Rightarrow> Inl e | Inr o' \<Rightarrow> Inr (packet_move o'))"

definition variant_move_assign ::
  "u64 list \<Rightarrow> 'm packet \<Rightarrow> 'm packet \<Rightarrow> ('m packet \<times> 'm packet) result" where
  "variant_move_assign Vs other p =
     (case variant_deref Vs other of Inl e \<Rightarrow> Inl Terminates | Inr o' \<Rightarrow> Inr (packet_move o'))"

section \<open>Facts\<close>

lemma variant_check_iff: "variant_check Vs p \<longleftrightarrow> Vs = [] \<or> packet_type p \<in> set Vs"
  by (auto simp: variant_check_def)

section \<open>Programs with packets\<close>

text \<open>
  The calls of a program that knows the types of its messages, on packets that are named by
  numbers: \<open>set\<close> of a message, \<open>clean\<close>, moving one packet into another or into itself, and \<open>get\<close>
  that moves the message out. A call that throws leaves the packets alone.
\<close>

datatype 'm packet_call = Call_set nat 'm | Call_clean nat | Call_move nat nat | Call_take nat usize

fun packet_call_run ::
  "('m \<Rightarrow> usize) \<Rightarrow> ('m \<Rightarrow> string) \<Rightarrow> ('m \<Rightarrow> 'm) \<Rightarrow> 'm packet_call \<Rightarrow> (nat \<Rightarrow> 'm packet) \<Rightarrow> nat \<Rightarrow> 'm packet" where
  "packet_call_run rtt_of saver moved (Call_set i msg) ps = ps(i := packet_set rtt_of saver msg (ps i))"
| "packet_call_run rtt_of saver moved (Call_clean i) ps = ps(i := packet_clean (ps i))"
| "packet_call_run rtt_of saver moved (Call_move i j) ps =
     (if i = j then ps(i := packet_self_move (ps i))
      else let (p, other) = packet_move (ps j) in ps(i := p, j := other))"
| "packet_call_run rtt_of saver moved (Call_take i rtt) ps =
     (case packet_get_move moved rtt (ps i) of Inl _ \<Rightarrow> ps | Inr (_, p) \<Rightarrow> ps(i := p))"

text \<open>What the program expects of them: each packet is a place for one message or none.\<close>

fun expected_message :: "('m \<Rightarrow> usize) \<Rightarrow> ('m \<Rightarrow> 'm) \<Rightarrow> 'm packet_call \<Rightarrow> (nat \<rightharpoonup> 'm) \<Rightarrow> nat \<rightharpoonup> 'm" where
  "expected_message rtt_of moved (Call_set i msg) c = c(i \<mapsto> msg)"
| "expected_message rtt_of moved (Call_clean i) c = c(i := None)"
| "expected_message rtt_of moved (Call_move i j) c = c(i := c j, j := None)"
| "expected_message rtt_of moved (Call_take i rtt) c =
     c(i := map_option (\<lambda>m. if rtt_of m = rtt then moved m else m) (c i))"

definition holds_message :: "('m \<Rightarrow> usize) \<Rightarrow> ('m \<Rightarrow> string) \<Rightarrow> 'm packet \<Rightarrow> 'm option \<Rightarrow> bool" where
  "holds_message rtt_of saver p c \<longleftrightarrow>
     (case c of None \<Rightarrow> p = packet_new
      | Some m \<Rightarrow> p = \<lparr>m_rtt = rtt_of m, m_ptr_message = Some m, m_fsaver = Some saver\<rparr>)"

lemma holds_messageD:
  assumes "holds_message rtt_of saver p c" "rtt \<noteq> size_max" "\<And>m. rtt_of m \<noteq> size_max"
  shows "packet_data p = c" "packet_empty p \<longleftrightarrow> c = None" "packet_to_string p = Inr (case c of Some m \<Rightarrow> saver m | None \<Rightarrow> '''')"
    "packet_get_copy rtt p = (case c of
       Some m \<Rightarrow> if rtt_of m = rtt then Inr m else Inl (Runtime_error ''wrong type on get from packet'')
     | None \<Rightarrow> Inl (Runtime_error ''wrong type on get from packet''))"
  using assms
  by (auto simp: holds_message_def packet_new_def packet_data_def packet_empty_def packet_to_string_def
      packet_get_copy_def packet_get_def packet_type_def split: option.splits)

lemma call_expected:
  assumes "\<And>i. holds_message rtt_of saver (ps i) (c i)" "\<And>m. rtt_of m \<noteq> size_max" "\<And>m. rtt_of (moved m) = rtt_of m"
    and rtt: "\<And>i rtt. call = Call_take i rtt \<Longrightarrow> rtt \<noteq> size_max"
  shows "holds_message rtt_of saver (packet_call_run rtt_of saver moved call ps i) (expected_message rtt_of moved call c i)"
proof (cases call)
  case (Call_set k msg)
  then show ?thesis
    using assms(1) by (simp add: holds_message_def packet_set_def packet_set_internal_def)
next
  case (Call_clean k)
  then show ?thesis using assms(1) by (simp add: holds_message_def packet_clean_def)
next
  case (Call_move k j)
  then show ?thesis
    using assms(1) by (auto simp: packet_move_def packet_self_move_def) (simp_all add: holds_message_def)
next
  case (Call_take k rtt)
  then show ?thesis
    using assms(1) [of i] assms(1) [of k] assms(2,3) rtt
    by (cases "c k")
      (auto simp: holds_message_def packet_get_move_def packet_get_def packet_type_def packet_new_def
        split: option.splits)
qed

section \<open>Properties\<close>



text \<open>The checks of a variant packet are exact: \<open>set\<close> accepts a packet if and only
  if its tag is allowed, then the variant holds it and the source is empty; what \<open>set\<close>
  accepted can be read, and a variant packet whose set lacks the empty tag can be neither
  read nor moved while empty, nor cleaned.\<close>

theorem variant_packet_exact:
  "(case variant_set Vs other p of
      Inr (p', other') \<Rightarrow> (Vs = [] \<or> packet_type other \<in> set Vs) \<and> p' = other \<and>
        packet_empty other' \<and> variant_deref Vs p' = Inr other
    | Inl e \<Rightarrow> Vs \<noteq> [] \<and> packet_type other \<notin> set Vs) \<and>
   (case variant_clean Vs p of
      Inr p' \<Rightarrow> (Vs = [] \<or> size_max \<in> set Vs) \<and> packet_empty p'
    | Inl e \<Rightarrow> Vs \<noteq> [] \<and> size_max \<notin> set Vs \<and>
        variant_move_assign Vs variant_new p = Inl Terminates \<and>
        (\<exists>what. variant_deref Vs (variant_new :: 'm packet) = Inl (Logic_error what)))"
  by (auto simp: variant_set_def variant_clean_def variant_deref_def variant_move_assign_def
      variant_check_iff packet_move_def packet_empty_def packet_clean_def packet_new_def
      packet_type_def variant_new_def)

end
