(* ===== verification/Scan.thy ===== *)
theory Scan
  imports Numbers "HOL-Library.Sublist"
begin

text \<open>
  The scanners of \<open>src/belt.pp/parser.hpp\<close> that the lexers and the HTTP code share:
  \<open>check\<close> (a keyword), \<open>check_begin\<close> and \<open>check_end\<close> (a separator) and
  \<open>check_number\<close>. An iterator into the received text is the number of characters
  before it.
\<close>

section \<open>Keywords and separators\<close>

text \<open>The loop stops at a mismatch (None) or where one of the two texts ends: the
  characters matched and the rest of \<open>str\<close>.\<close>

fun check_loop :: "string \<Rightarrow> string \<Rightarrow> nat \<Rightarrow> (nat \<times> string) option" where
  "check_loop (c # cs) (x # xs) it_copy =
     (if c \<noteq> x then None else check_loop cs xs (Suc it_copy))"
| "check_loop cs str it_copy = Some (it_copy, str)"

definition check :: "string \<Rightarrow> string \<Rightarrow> bool \<times> nat" where
  "check s str =
     (case check_loop s str 0 of
        None \<Rightarrow> (False, 0)
      | Some (it_copy, str') \<Rightarrow> (True, if str' = [] then it_copy else 0))"

fun check_begin_loop :: "string \<Rightarrow> string \<Rightarrow> nat \<Rightarrow> nat" where
  "check_begin_loop (c # cs) (v # vs) it_scan =
     (if v = c then check_begin_loop cs vs (Suc it_scan) else 0)"
| "check_begin_loop cs vs it_scan = it_scan"

definition check_begin :: "string \<Rightarrow> string \<Rightarrow> nat" where
  "check_begin scan value = check_begin_loop scan value 0"

text \<open>\<open>check_end\<close> keeps the begin of the current attempt; \<open>it_scan\<close> and
  \<open>it_value\<close> are both \<open>k\<close> characters behind their begins.\<close>

function check_end_loop :: "string \<Rightarrow> string \<Rightarrow> nat \<Rightarrow> nat \<Rightarrow> nat \<times> nat" where
  "check_end_loop scan value it_scan_begin k =
     (if it_scan_begin + k \<ge> length scan \<or> k \<ge> length value
      then (it_scan_begin, it_scan_begin + k)
      else if value ! k = scan ! (it_scan_begin + k)
      then check_end_loop scan value it_scan_begin (Suc k)
      else check_end_loop scan value (Suc it_scan_begin) 0)"
  by pat_completeness auto

termination
  by (relation "(\<lambda>(scan, value, b, k). length scan - b) <*mlex*>
      measure (\<lambda>(scan, value, b, k). length value - k)")
     (auto simp: wf_mlex intro: mlex_less mlex_leq)

declare check_end_loop.simps [simp del]

definition check_end :: "string \<Rightarrow> string \<Rightarrow> nat \<times> nat" where
  "check_end scan value = check_end_loop scan value 0 0"

section \<open>Numbers\<close>

record number_scan =
  ns_state :: u8
  ns_hex :: bool
  ns_dot :: bool
  ns_copy :: nat
  ns_end :: nat

definition is_digit :: "char \<Rightarrow> bool \<Rightarrow> bool" where
  "is_digit ch hex =
     (if 48 \<le> char_code ch \<and> char_code ch \<le> 57 then True
      else if hex \<and> 97 \<le> char_code ch \<and> char_code ch \<le> 102 then True
      else if hex \<and> 65 \<le> char_code ch \<and> char_code ch \<le> 70 then True
      else False)"

definition is_sign :: "char \<Rightarrow> bool" where
  "is_sign ch = (CHR ''-'' = ch \<or> CHR ''+'' = ch)"

text \<open>One character of the loop: the new state, None where the loop breaks. The
  \<open>assert\<close> of the exponent is a failure.\<close>

definition number_step :: "number_scan \<Rightarrow> char \<Rightarrow> number_scan option result" where
  "number_step s ch =
     (let next = s\<lparr>ns_copy := Suc (ns_copy s)\<rparr>;
          accept = next\<lparr>ns_end := Suc (ns_copy s)\<rparr>
      in
      if 1 > ns_state s \<and> is_sign ch then Inr (Some (next\<lparr>ns_state := 1\<rparr>))
      else if 2 > ns_state s \<and> CHR ''0'' = ch then Inr (Some (accept\<lparr>ns_state := 2\<rparr>))
      else if 2 = ns_state s \<and> (CHR ''x'' = ch \<or> CHR ''X'' = ch)
      then Inr (Some (next\<lparr>ns_state := 3, ns_hex := True\<rparr>))
      else if 5 > ns_state s \<and> CHR ''.'' = ch \<and> False = ns_dot s
      then (if 2 = ns_state s \<or> 4 = ns_state s
            then Inr (Some (accept\<lparr>ns_dot := True, ns_state := 4\<rparr>))
            else Inr (Some (next\<lparr>ns_dot := True, ns_state := 3\<rparr>)))
      else if 5 > ns_state s \<and> is_digit ch (ns_hex s)
      then Inr (Some (accept\<lparr>ns_state := 4\<rparr>))
      else if 4 = ns_state s \<and> (CHR ''e'' = ch \<or> CHR ''E'' = ch)
      then (if ns_hex s then Inl Terminates else Inr (Some (next\<lparr>ns_state := 5\<rparr>)))
      else if 5 = ns_state s \<and> is_sign ch then Inr (Some (next\<lparr>ns_state := 6\<rparr>))
      else if (6 = ns_state s \<or> 5 = ns_state s) \<and> is_digit ch (ns_hex s)
      then Inr (Some accept)
      else Inr None)"

fun number_loop :: "string \<Rightarrow> number_scan \<Rightarrow> number_scan result" where
  "number_loop [] s = Inr s"
| "number_loop (ch # cs) s =
     (case number_step s ch of
        Inl e \<Rightarrow> Inl e
      | Inr None \<Rightarrow> Inr s
      | Inr (Some s') \<Rightarrow> number_loop cs s')"

definition number_start :: number_scan where
  "number_start = \<lparr>ns_state = 0, ns_hex = False, ns_dot = False, ns_copy = 0, ns_end = 0\<rparr>"

definition check_number :: "bool \<Rightarrow> string \<Rightarrow> (bool \<times> nat) result" where
  "check_number stream_mode s =
     (case number_loop s number_start of
        Inl e \<Rightarrow> Inl e
      | Inr n \<Rightarrow>
          if ns_end n = 0 then Inr (ns_copy n = length s, 0)
          else if False = stream_mode \<or> ns_copy n \<noteq> length s then Inr (True, ns_end n)
          else Inr (True, 0))"

section \<open>Facts: keywords and separators\<close>

lemma check_loop_spec:
  "check_loop s str n =
     (if prefix str s then Some (n + length str, [])
      else if prefix s str then Some (n + length s, drop (length s) str) else None)"
  by (induction s str n rule: check_loop.induct) auto

lemma check_spec [result_simps]:
  "check s str = (if prefix str s then (True, length str) else (prefix s str, 0))"
  by (auto simp: check_def check_loop_spec prefix_def)

lemma check_begin_loop_spec:
  "check_begin_loop s v n =
     (if prefix v s then n + length v else if prefix s v then n + length s else 0)"
  by (induction s v n rule: check_begin_loop.induct) auto

lemma check_begin_spec [result_simps]:
  "check_begin s v = (if prefix v s then length v else if prefix s v then length s else 0)"
  by (simp add: check_begin_def check_begin_loop_spec)

text \<open>An attempt at \<open>i\<close> is refuted by a mismatch inside both texts.\<close>

definition refuted :: "string \<Rightarrow> string \<Rightarrow> nat \<Rightarrow> bool" where
  "refuted scan val i \<longleftrightarrow> \<not> prefix val (drop i scan) \<and> \<not> prefix (drop i scan) val"

lemma refuted_mismatch:
  assumes "i + k < length scan" "k < length val" "val ! k \<noteq> scan ! (i + k)"
  shows "refuted scan val i"
proof -
  have len: "k < length scan - i"
    using assms(1) by arith
  have "\<not> prefix val (drop i scan)"
  proof
    assume "prefix val (drop i scan)"
    then obtain r where "drop i scan = val @ r" by (auto simp: prefix_def)
    then have "drop i scan ! k = val ! k"
      using assms(2) by (simp add: nth_append)
    with assms show False by simp
  qed
  moreover have "\<not> prefix (drop i scan) val"
  proof
    assume "prefix (drop i scan) val"
    then obtain r where "val = drop i scan @ r" by (auto simp: prefix_def)
    then have "val ! k = drop i scan ! k"
      using assms(1) len by (simp add: nth_append)
    with assms show False by simp
  qed
  ultimately show ?thesis
    by (simp add: refuted_def)
qed

lemma check_end_loop_spec:
  assumes "b + k \<le> length scan" "k \<le> length val" "take k val = take k (drop b scan)"
    and "\<forall>i<b. refuted scan val i"
  shows "\<exists>e. check_end_loop scan val b k = (fst (check_end_loop scan val b k), e) \<and>
    (\<forall>i < fst (check_end_loop scan val b k). refuted scan val i) \<and>
    (let i = fst (check_end_loop scan val b k)
     in i \<le> length scan \<and> (prefix val (drop i scan) \<and> e = i + length val \<or>
        \<not> prefix val (drop i scan) \<and> prefix (drop i scan) val \<and> e = length scan))"
  using assms
proof (induction scan val b k rule: check_end_loop.induct)
  case (1 scan val b k)
  show ?case
  proof (cases "b + k \<ge> length scan \<or> k \<ge> length val")
    case True
    then have r: "check_end_loop scan val b k = (b, b + k)"
      by (subst check_end_loop.simps) simp
    show ?thesis
    proof (cases "k = length val")
      case True
      then have "prefix val (drop b scan)"
        using "1.prems"(3) by (metis take_all order_refl take_is_prefix)
      with r "1.prems" \<open>k = length val\<close> show ?thesis by simp
    next
      case False
      with True "1.prems" have k: "b + k = length scan" "k < length val" by auto
      then have "drop b scan = take k val"
        using "1.prems"(3) by simp
      then have "prefix (drop b scan) val"
        by (simp add: take_is_prefix)
      moreover have "\<not> prefix val (drop b scan)"
        using k by (auto dest: prefix_length_le)
      ultimately show ?thesis using r k "1.prems" by simp
    qed
  next
    case False
    then have len: "k < length val" "k < length (drop b scan)" by auto
    show ?thesis
    proof (cases "val ! k = scan ! (b + k)")
      case True
      then have "check_end_loop scan val b k = check_end_loop scan val b (Suc k)"
        using False by (subst check_end_loop.simps) simp
      moreover have "take (Suc k) val = take (Suc k) (drop b scan)"
        using "1.prems" True len by (simp add: take_Suc_conv_app_nth)
      ultimately show ?thesis
        using "1.IH"(1) "1.prems" False True by simp
    next
      case neq: False
      have "refuted scan val b"
        using False neq by (intro refuted_mismatch [of b k]) auto
      moreover have "check_end_loop scan val b k = check_end_loop scan val (Suc b) 0"
        using False neq by (subst check_end_loop.simps) simp
      ultimately show ?thesis
        using "1.IH"(2) "1.prems" False neq by (simp add: less_Suc_eq)
    qed
  qed
qed

lemma check_end_cases:
  obtains (found) b where "check_end scan val = (b, b + length val)"
      "b \<le> length scan" "prefix val (drop b scan)" "\<forall>i<b. refuted scan val i"
  | (partial) b where "check_end scan val = (b, length scan)"
      "b \<le> length scan" "\<not> prefix val (drop b scan)" "prefix (drop b scan) val"
      "\<forall>i<b. refuted scan val i"
proof -
  obtain b e where be: "check_end scan val = (b, e)" by (cases "check_end scan val")
  have "(\<forall>i<b. refuted scan val i) \<and> b \<le> length scan \<and>
      (prefix val (drop b scan) \<and> e = b + length val \<or>
       \<not> prefix val (drop b scan) \<and> prefix (drop b scan) val \<and> e = length scan)"
    using check_end_loop_spec [of 0 0 scan val] be
    by (simp add: check_end_def Let_def)
  with be that show ?thesis by blast
qed

lemma refuted_append:
  "refuted scan val i \<Longrightarrow> \<not> prefix val (drop i scan @ rest) \<and> \<not> prefix (drop i scan @ rest) val"
  by (auto simp: refuted_def prefix_append dest: append_prefixD)

lemma refuted_later:
  assumes "refuted scan val i"
  shows "refuted (scan @ rest) val i"
proof (cases "i \<le> length scan")
  case True
  then show ?thesis
    using refuted_append [OF assms, of rest] by (simp add: refuted_def)
next
  case False
  with assms show ?thesis by (simp add: refuted_def)
qed

lemma check_end_found_stable:
  assumes found: "prefix val (drop b scan)" and b: "b \<le> length scan"
    and first: "\<forall>i<b. refuted scan val i"
  shows "check_end (scan @ rest) val = (b, b + length val)"
proof -
  have occ: "prefix val (drop b (scan @ rest))"
    using found b by (simp add: prefix_prefix)
  have no_less: "\<not> c < b" if "prefix val (drop c (scan @ rest)) \<or> prefix (drop c (scan @ rest)) val" for c
    using that first refuted_later [of scan val c rest] by (auto simp: refuted_def)
  show ?thesis
  proof (rule check_end_cases [of "scan @ rest" val], goal_cases)
    case (1 c)
    then have "\<not> b < c" using occ by (auto simp: refuted_def)
    moreover have "\<not> c < b" using no_less [of c] 1 by blast
    ultimately show ?thesis using 1 by simp
  next
    case (2 c)
    then have "\<not> b < c" using occ by (auto simp: refuted_def)
    moreover have "\<not> c < b" using no_less [of c] 2 by blast
    ultimately show ?thesis using 2 occ by simp
  qed
qed

section \<open>Facts: numbers\<close>

lemma no_failure_if:
  "(c \<Longrightarrow> x \<noteq> Inl e) \<Longrightarrow> (\<not> c \<Longrightarrow> y \<noteq> Inl e) \<Longrightarrow> (if c then x else y) \<noteq> Inl e"
  by simp

lemma is_digit_e: "CHR ''e'' = ch \<or> CHR ''E'' = ch \<Longrightarrow> is_digit ch True"
  by (auto simp: is_digit_def)

lemma number_step_no_failure: "number_step s ch \<noteq> Inl e"
  unfolding number_step_def Let_def
  by (intro no_failure_if; (rule sum.distinct)?; erule conjE, drule is_digit_e, simp)

lemma number_loop_no_failure: "number_loop cs s \<noteq> Inl e"
  by (induction cs arbitrary: s) (auto simp: number_step_no_failure split: sum.splits option.splits)

text \<open>What every step does to the two positions, whichever guard it takes.\<close>

definition step_moves :: "number_scan \<Rightarrow> number_scan option result \<Rightarrow> bool" where
  "step_moves s r \<longleftrightarrow> (\<forall>s'. r = Inr (Some s') \<longrightarrow> ns_copy s' = Suc (ns_copy s) \<and>
     (ns_end s' = ns_end s \<or> ns_end s' = ns_copy s'))"

lemma step_moves_if: "step_moves s x \<Longrightarrow> step_moves s y \<Longrightarrow> step_moves s (if c then x else y)"
  by simp

lemma step_moves_number: "step_moves s (number_step s ch)"
  unfolding number_step_def Let_def
  by (intro step_moves_if) (simp_all add: step_moves_def)

lemma number_step_copy:
  "number_step s ch = Inr (Some s') \<Longrightarrow> ns_copy s' = Suc (ns_copy s) \<and>
    (ns_end s' = ns_end s \<or> ns_end s' = ns_copy s')"
  using step_moves_number [of s ch] unfolding step_moves_def by blast

text \<open>A run that reads all of its text.\<close>

fun number_run :: "string \<Rightarrow> number_scan \<Rightarrow> number_scan option" where
  "number_run [] s = Some s"
| "number_run (ch # cs) s =
     (case number_step s ch of Inr (Some s') \<Rightarrow> number_run cs s' | _ \<Rightarrow> None)"

lemma number_run_append:
  "number_run (xs @ ys) s = (case number_run xs s of None \<Rightarrow> None | Some s' \<Rightarrow> number_run ys s')"
  by (induction xs arbitrary: s) (auto split: sum.splits option.splits)

lemma number_loop_run:
  "number_run xs s = Some s' \<Longrightarrow> number_loop (xs @ ys) s = number_loop ys s'"
  by (induction xs arbitrary: s) (auto split: sum.splits option.splits)

lemma number_run_copy: "number_run xs s = Some s' \<Longrightarrow> ns_copy s' = ns_copy s + length xs"
  by (induction xs arbitrary: s)
     (auto split: sum.splits option.splits dest: number_step_copy)

lemma number_loop_stops:
  obtains xs ys s' where "cs = xs @ ys" "number_run xs s = Some s'" "number_loop cs s = Inr s'"
    "ys = [] \<or> number_step s' (hd ys) = Inr None"
proof -
  have "\<exists>xs ys s'. cs = xs @ ys \<and> number_run xs s = Some s' \<and> number_loop cs s = Inr s' \<and>
      (ys = [] \<or> number_step s' (hd ys) = Inr None)"
  proof (induction cs arbitrary: s)
    case (Cons c cs)
    show ?case
    proof (cases "number_step s c")
      case (Inr r)
      show ?thesis
      proof (cases r)
        case None
        with Inr show ?thesis by (intro exI [of _ "[]"] exI [of _ "c # cs"]) simp
      next
        case (Some s1)
        from Cons.IH [of s1] obtain xs ys s' where "cs = xs @ ys" "number_run xs s1 = Some s'"
          "number_loop cs s1 = Inr s'" "ys = [] \<or> number_step s' (hd ys) = Inr None"
          by auto
        with Inr Some show ?thesis by (intro exI [of _ "c # xs"] exI [of _ ys]) auto
      qed
    qed (use number_step_no_failure in auto)
  qed simp
  with that show ?thesis by blast
qed

text \<open>The texts that \<open>check_number\<close> takes as one number.\<close>

definition number_accepted :: "string \<Rightarrow> bool" where
  "number_accepted p \<longleftrightarrow>
     (case number_run p number_start of Some s \<Rightarrow> p \<noteq> [] \<and> ns_end s = length p | None \<Rightarrow> False)"

lemma number_run_end:
  assumes "number_run xs number_start = Some s"
  shows "ns_end s \<le> length xs \<and> (0 < ns_end s \<longrightarrow> number_accepted (take (ns_end s) xs)) \<and>
    (\<forall>n \<le> length xs. number_accepted (take n xs) \<longrightarrow> n \<le> ns_end s)"
  using assms
proof (induction xs arbitrary: s rule: rev_induct)
  case Nil
  then have "s = number_start" by simp
  then show ?case by (simp add: number_start_def number_accepted_def)
next
  case (snoc x xs)
  from snoc.prems obtain s0 where s0: "number_run xs number_start = Some s0"
      "number_step s0 x = Inr (Some s)"
    by (auto simp: number_run_append split: option.splits sum.splits)
  have copy: "ns_copy s0 = length xs"
    using number_run_copy [OF s0(1)] by (simp add: number_start_def)
  have IH: "ns_end s0 \<le> length xs" "0 < ns_end s0 \<Longrightarrow> number_accepted (take (ns_end s0) xs)"
      "\<And>n. n \<le> length xs \<Longrightarrow> number_accepted (take n xs) \<Longrightarrow> n \<le> ns_end s0"
    using snoc.IH [OF s0(1)] by auto
  have step: "ns_copy s = Suc (length xs)" "ns_end s = ns_end s0 \<or> ns_end s = Suc (length xs)"
    using number_step_copy [OF s0(2)] copy by auto
  have full: "number_accepted (xs @ [x]) \<longleftrightarrow> ns_end s = Suc (length xs)"
    using snoc.prems by (simp add: number_accepted_def)
  show ?case
  proof (cases "ns_end s = Suc (length xs)")
    case True
    with full show ?thesis by simp
  next
    case False
    with step have "ns_end s = ns_end s0" by simp
    with IH full False show ?thesis by (auto simp: le_Suc_eq)
  qed
qed

lemma number_run_prefix: "number_run (xs @ ys) s \<noteq> None \<Longrightarrow> number_run xs s \<noteq> None"
  by (auto simp: number_run_append split: option.splits)

lemma check_number_run:
  assumes "s = xs @ ys" "number_run xs number_start = Some n"
    "ys = [] \<or> number_step n (hd ys) = Inr None"
  shows "number_loop s number_start = Inr n \<and> ns_copy n = length xs"
proof -
  have "number_loop ys n = Inr n"
    using assms(3) by (cases ys) auto
  then show ?thesis
    using assms number_loop_run [OF assms(2)] number_run_copy [OF assms(2)]
    by (simp add: number_start_def)
qed

lemma number_accepted_longest:
  assumes "s = xs @ ys" "number_run xs number_start = Some n"
    "ys = [] \<or> number_step n (hd ys) = Inr None"
    and k: "k \<le> length s" "number_accepted (take k s)"
  shows "k \<le> ns_end n"
proof -
  have "k \<le> length xs"
  proof (rule ccontr)
    assume "\<not> k \<le> length xs"
    then obtain j where j: "k = length xs + Suc j"
      by (metis add_Suc_right less_imp_Suc_add linorder_not_le)
    with k assms(1) obtain y zs where y: "ys = y # zs" by (cases ys) auto
    then have "take k s = xs @ y # take j zs"
      using assms(1) j by simp
    moreover have "number_run (take k s) number_start \<noteq> None"
      using k(2) by (auto simp: number_accepted_def split: option.splits)
    ultimately show False
      using assms(2,3) y by (simp add: number_run_append)
  qed
  with number_run_end [OF assms(2)] k assms(1) show ?thesis by auto
qed

section \<open>Numbers as texts\<close>

text \<open>
  What a number is, independently of the loop: a mantissa is digits with at most one dot in front of,
  among or behind them; a decimal number has a decimal mantissa and possibly an exponent, a
  hexadecimal one \<open>0x\<close> and a hexadecimal mantissa; either may have a sign. The code differs
  from \<open>std::strtod\<close> in two places, both of them here: no exponent follows a bare 0, and the digits of an
  unsigned exponent may be followed by a sign and more digits.
\<close>

definition decimal_digit :: "char \<Rightarrow> bool" where
  "decimal_digit c \<longleftrightarrow> c \<in> set ''0123456789''"

definition hex_digit_char :: "char \<Rightarrow> bool" where
  "hex_digit_char c \<longleftrightarrow> c \<in> set ''0123456789abcdefABCDEF''"

definition sign_char :: "char \<Rightarrow> bool" where
  "sign_char c \<longleftrightarrow> c \<in> set ''+-''"

lemma char_ranges:
  "48 \<le> (of_char c :: nat) \<and> (of_char c :: nat) \<le> 57 \<longleftrightarrow> c \<in> set ''0123456789''"
  "97 \<le> (of_char c :: nat) \<and> (of_char c :: nat) \<le> 102 \<longleftrightarrow> c \<in> set ''abcdef''"
  "65 \<le> (of_char c :: nat) \<and> (of_char c :: nat) \<le> 70 \<longleftrightarrow> c \<in> set ''ABCDEF''"
proof -
  have range: "m \<le> n \<and> n \<le> m + k \<longleftrightarrow> n \<in> set (map ((+) m) [0..<Suc k])" for m n k :: nat
    by (auto simp: image_iff Bex_def)
  have ch: "(of_char c :: nat) = of_char d \<longleftrightarrow> c = d" for d by simp
  show "48 \<le> (of_char c :: nat) \<and> (of_char c :: nat) \<le> 57 \<longleftrightarrow> c \<in> set ''0123456789''"
    using range [of 48 "of_char c" 9] by (simp add: upt_rec) (simp add: ch [symmetric])
  show "97 \<le> (of_char c :: nat) \<and> (of_char c :: nat) \<le> 102 \<longleftrightarrow> c \<in> set ''abcdef''"
    using range [of 97 "of_char c" 5] by (simp add: upt_rec) (simp add: ch [symmetric])
  show "65 \<le> (of_char c :: nat) \<and> (of_char c :: nat) \<le> 70 \<longleftrightarrow> c \<in> set ''ABCDEF''"
    using range [of 65 "of_char c" 5] by (simp add: upt_rec) (simp add: ch [symmetric])
qed

lemma is_digit_iff [simp]: "is_digit c False \<longleftrightarrow> decimal_digit c" "is_digit c True \<longleftrightarrow> hex_digit_char c"
  "is_sign c \<longleftrightarrow> sign_char c"
proof -
  show "is_digit c False \<longleftrightarrow> decimal_digit c" using char_ranges by (simp add: is_digit_def decimal_digit_def)
  show "is_digit c True \<longleftrightarrow> hex_digit_char c" using char_ranges [of c] by (simp add: is_digit_def hex_digit_char_def)
  show "is_sign c \<longleftrightarrow> sign_char c" by (auto simp: is_sign_def sign_char_def)
qed

definition digits :: "string \<Rightarrow> bool" where
  "digits ds \<longleftrightarrow> ds \<noteq> [] \<and> list_all decimal_digit ds"

definition mantissa :: "(char \<Rightarrow> bool) \<Rightarrow> string \<Rightarrow> bool" where
  "mantissa dig m \<longleftrightarrow> m \<noteq> [] \<and> list_all dig m \<or>
     (\<exists>a b. m = a @ CHR ''.'' # b \<and> list_all dig (a @ b) \<and> a @ b \<noteq> [])"

definition exponent :: "string \<Rightarrow> bool" where
  "exponent ex \<longleftrightarrow> (\<exists>e sg ds. ex = e # sg @ ds \<and> e \<in> set ''eE'' \<and> digits ds \<and> (sg = [] \<or> (\<exists>c. sg = [c] \<and> sign_char c)))"

definition double_exponent :: "string \<Rightarrow> bool" where
  "double_exponent ex \<longleftrightarrow> (\<exists>e ds c ds'. ex = e # ds @ c # ds' \<and> e \<in> set ''eE'' \<and> digits ds \<and> sign_char c \<and> digits ds')"

definition decimal_number :: "string \<Rightarrow> bool" where
  "decimal_number p \<longleftrightarrow> (\<exists>m ex. p = m @ ex \<and> mantissa decimal_digit m \<and>
     (ex = [] \<or> m \<noteq> ''0'' \<and> (exponent ex \<or> double_exponent ex)))"

definition hex_number :: "string \<Rightarrow> bool" where
  "hex_number p \<longleftrightarrow> (\<exists>x m. p = CHR ''0'' # x # m \<and> x \<in> set ''xX'' \<and> mantissa hex_digit_char m)"

definition number_text :: "string \<Rightarrow> bool" where
  "number_text p \<longleftrightarrow> (\<exists>sg m. p = sg @ m \<and> (sg = [] \<or> (\<exists>c. sg = [c] \<and> sign_char c)) \<and> (decimal_number m \<or> hex_number m))"

text \<open>The same, read from left to right: what may follow each state of the loop.\<close>

definition after_run :: "(char \<Rightarrow> bool) \<Rightarrow> (string \<Rightarrow> bool) \<Rightarrow> string \<Rightarrow> bool" where
  "after_run dig R q \<longleftrightarrow> (\<exists>ds r. q = ds @ r \<and> list_all dig ds \<and> R r)"

lemma after_run_Nil [simp]: "after_run dig R [] \<longleftrightarrow> R []"
  by (simp add: after_run_def)

lemma after_run_Cons [simp]: "after_run dig R (c # q) \<longleftrightarrow> R (c # q) \<or> dig c \<and> after_run dig R q"
proof
  assume "after_run dig R (c # q)"
  then obtain ds r where "c # q = ds @ r" "list_all dig ds" "R r" by (auto simp: after_run_def)
  then show "R (c # q) \<or> dig c \<and> after_run dig R q" by (cases ds) (auto simp: after_run_def)
next
  assume "R (c # q) \<or> dig c \<and> after_run dig R q"
  then show "after_run dig R (c # q)"
  proof (elim disjE conjE)
    assume "R (c # q)"
    then show ?thesis unfolding after_run_def by (intro exI [of _ "[]"] exI [of _ "c # q"]) simp
  next
    assume "dig c" "after_run dig R q"
    then obtain ds r where "q = ds @ r" "list_all dig ds" "R r" by (auto simp: after_run_def)
    with \<open>dig c\<close> show ?thesis unfolding after_run_def by (intro exI [of _ "c # ds"] exI [of _ r]) simp
  qed
qed

definition exponent_rest :: "string \<Rightarrow> bool" where
  "exponent_rest q \<longleftrightarrow> q \<noteq> [] \<and> after_run decimal_digit (\<lambda>r. r = [] \<or> (\<exists>s t. r = s # t \<and> sign_char s \<and> digits t)) q"

definition ends_or_exponent :: "string \<Rightarrow> bool" where
  "ends_or_exponent r \<longleftrightarrow> r = [] \<or> (\<exists>e t. r = e # t \<and> e \<in> set ''eE'' \<and> exponent_rest t)"

definition dotted_rest :: "string \<Rightarrow> bool" where
  "dotted_rest = after_run decimal_digit ends_or_exponent"

definition digits_rest :: "string \<Rightarrow> bool" where
  "digits_rest = after_run decimal_digit (\<lambda>r. ends_or_exponent r \<or> (\<exists>t. r = CHR ''.'' # t \<and> dotted_rest t))"

definition point_rest :: "string \<Rightarrow> bool" where
  "point_rest q \<longleftrightarrow> (\<exists>c t. q = c # t \<and> decimal_digit c \<and> dotted_rest t)"

definition hex_digits_rest :: "string \<Rightarrow> bool" where
  "hex_digits_rest = after_run hex_digit_char (\<lambda>r. r = [] \<or> (\<exists>t. r = CHR ''.'' # t \<and> list_all hex_digit_char t))"

definition hex_rest :: "string \<Rightarrow> bool" where
  "hex_rest q \<longleftrightarrow> (\<exists>c t. q = c # t \<and> (hex_digit_char c \<and> hex_digits_rest t \<or>
     c = CHR ''.'' \<and> t \<noteq> [] \<and> list_all hex_digit_char t))"

definition zero_rest :: "string \<Rightarrow> bool" where
  "zero_rest q \<longleftrightarrow> q = [] \<or> (\<exists>c t. q = c # t \<and> (decimal_digit c \<and> digits_rest t \<or> c = CHR ''.'' \<and> dotted_rest t \<or>
     c \<in> set ''xX'' \<and> hex_rest t))"

definition unsigned_rest :: "string \<Rightarrow> bool" where
  "unsigned_rest q \<longleftrightarrow> (\<exists>c t. q = c # t \<and> (c = CHR ''0'' \<and> zero_rest t \<or>
     decimal_digit c \<and> c \<noteq> CHR ''0'' \<and> digits_rest t \<or> c = CHR ''.'' \<and> point_rest t))"

subsection \<open>The loop reads from left to right\<close>

definition number_accepts :: "number_scan \<Rightarrow> string \<Rightarrow> bool" where
  "number_accepts s q \<longleftrightarrow> (case number_run q s of Some s' \<Rightarrow> ns_end s' = ns_copy s' | None \<Rightarrow> False)"

lemma accepts_Nil [simp]: "number_accepts s [] \<longleftrightarrow> ns_end s = ns_copy s"
  by (simp add: number_accepts_def)

lemma accepts_Cons [simp]: "number_accepts s (c # q) \<longleftrightarrow> (case number_step s c of Inr (Some s') \<Rightarrow> number_accepts s' q | _ \<Rightarrow> False)"
  by (simp add: number_accepts_def split: sum.splits option.splits)

definition scanned :: "u8 \<Rightarrow> bool \<Rightarrow> bool \<Rightarrow> nat \<Rightarrow> nat \<Rightarrow> number_scan" where
  "scanned st hex dot n e = \<lparr>ns_state = st, ns_hex = hex, ns_dot = dot, ns_copy = n, ns_end = e\<rparr>"

lemma scanned_fields [simp]: "ns_copy (scanned st hex dot n e) = n" "ns_end (scanned st hex dot n e) = e"
  by (simp_all add: scanned_def)

lemma digit_distinct:
  "decimal_digit c \<Longrightarrow> \<not> sign_char c" "\<not> decimal_digit (CHR ''.'')" "\<not> hex_digit_char (CHR ''.'')"
  "\<not> decimal_digit (CHR ''x'')" "\<not> decimal_digit (CHR ''X'')"
  "\<not> decimal_digit (CHR ''e'')" "\<not> decimal_digit (CHR ''E'')" "decimal_digit (CHR ''0'')" "\<not> sign_char (CHR ''.'')"
  "hex_digit_char (CHR ''e'')" "hex_digit_char (CHR ''E'')" "\<not> sign_char (CHR ''0'')"
  by (auto simp: decimal_digit_def hex_digit_char_def sign_char_def)

lemma step_6: "number_step (scanned 6 False dot n e) c =
    (if decimal_digit c then Inr (Some (scanned 6 False dot (Suc n) (Suc n))) else Inr None)"
  by (simp add: number_step_def Let_def scanned_def)

lemma step_5: "number_step (scanned 5 False dot n e) c =
    (if sign_char c then Inr (Some (scanned 6 False dot (Suc n) e))
     else if decimal_digit c then Inr (Some (scanned 5 False dot (Suc n) (Suc n))) else Inr None)"
  by (simp add: number_step_def Let_def scanned_def)

lemma step_4: "number_step (scanned 4 False dot n e) c =
    (if c = CHR ''.'' \<and> \<not> dot then Inr (Some (scanned 4 False True (Suc n) (Suc n)))
     else if decimal_digit c then Inr (Some (scanned 4 False dot (Suc n) (Suc n)))
     else if c \<in> set ''eE'' then Inr (Some (scanned 5 False dot (Suc n) e)) else Inr None)"
  by (auto simp add: number_step_def Let_def scanned_def)

lemma step_4_hex: "number_step (scanned 4 True dot n e) c =
    (if c = CHR ''.'' \<and> \<not> dot then Inr (Some (scanned 4 True True (Suc n) (Suc n)))
     else if hex_digit_char c then Inr (Some (scanned 4 True dot (Suc n) (Suc n))) else Inr None)"
  by (auto simp add: number_step_def Let_def scanned_def digit_distinct)

lemma step_3: "number_step (scanned 3 hex dot n e) c =
    (if c = CHR ''.'' \<and> \<not> dot then Inr (Some (scanned 3 hex True (Suc n) e))
     else if is_digit c hex then Inr (Some (scanned 4 hex dot (Suc n) (Suc n))) else Inr None)"
  by (auto simp add: number_step_def Let_def scanned_def)

lemma step_2: "number_step (scanned 2 False False n e) c =
    (if c \<in> set ''xX'' then Inr (Some (scanned 3 True False (Suc n) e))
     else if c = CHR ''.'' then Inr (Some (scanned 4 False True (Suc n) (Suc n)))
     else if decimal_digit c then Inr (Some (scanned 4 False False (Suc n) (Suc n))) else Inr None)"
  by (auto simp add: number_step_def Let_def scanned_def)

lemma step_1: "number_step (scanned 1 False False n e) c =
    (if c = CHR ''0'' then Inr (Some (scanned 2 False False (Suc n) (Suc n)))
     else if c = CHR ''.'' then Inr (Some (scanned 3 False True (Suc n) e))
     else if decimal_digit c then Inr (Some (scanned 4 False False (Suc n) (Suc n))) else Inr None)"
  by (auto simp add: number_step_def Let_def scanned_def)

lemma step_0: "number_step (scanned 0 False False n e) c =
    (if sign_char c then Inr (Some (scanned 1 False False (Suc n) e)) else number_step (scanned 1 False False n e) c)"
  by (auto simp add: number_step_def Let_def scanned_def digit_distinct)

lemma accepts_6: "number_accepts (scanned 6 False dot n e) q \<longleftrightarrow> (if q = [] then e = n else list_all decimal_digit q)"
  by (induction q arbitrary: n e) (auto simp: step_6)

lemma accepts_5: "e \<le> n \<Longrightarrow> number_accepts (scanned 5 False dot n e) q \<longleftrightarrow> (if q = [] then e = n else exponent_rest q)"
proof (induction q arbitrary: n e)
  case (Cons c q)
  have "exponent_rest (c # q) \<longleftrightarrow> sign_char c \<and> digits q \<or> decimal_digit c \<and> (q = [] \<or> exponent_rest q)"
    by (auto simp: exponent_rest_def)
  then show ?case
    using Cons.IH [of "Suc n" "Suc n"] Cons.prems digit_distinct(1) [of c]
    by (auto simp: step_5 accepts_6 digits_def)
qed simp

lemma accepts_4_dot: "number_accepts (scanned 4 False True n n) q \<longleftrightarrow> dotted_rest q"
  by (induction q arbitrary: n)
     (auto simp: step_4 dotted_rest_def ends_or_exponent_def accepts_5 digit_distinct exponent_rest_def)

lemma accepts_4: "number_accepts (scanned 4 False False n n) q \<longleftrightarrow> digits_rest q"
  by (induction q arbitrary: n)
     (auto simp: step_4 digits_rest_def accepts_4_dot ends_or_exponent_def accepts_5 digit_distinct exponent_rest_def)

lemma accepts_4_hex_dot: "number_accepts (scanned 4 True True n n) q \<longleftrightarrow> list_all hex_digit_char q"
  by (induction q arbitrary: n) (auto simp: step_4_hex)

lemma accepts_4_hex: "number_accepts (scanned 4 True False n n) q \<longleftrightarrow> hex_digits_rest q"
  by (induction q arbitrary: n) (auto simp: step_4_hex hex_digits_rest_def accepts_4_hex_dot digit_distinct)

lemma accepts_3_dot: "e < n \<Longrightarrow> number_accepts (scanned 3 False True n e) q \<longleftrightarrow> point_rest q"
  by (cases q) (auto simp: step_3 point_rest_def accepts_4_dot)

lemma accepts_3_hex_dot: "e < n \<Longrightarrow> number_accepts (scanned 3 True True n e) q \<longleftrightarrow> q \<noteq> [] \<and> list_all hex_digit_char q"
  by (cases q) (auto simp: step_3 accepts_4_hex_dot)

lemma accepts_3_hex: "e < n \<Longrightarrow> number_accepts (scanned 3 True False n e) q \<longleftrightarrow> hex_rest q"
  by (cases q) (auto simp: step_3 hex_rest_def accepts_4_hex accepts_3_hex_dot digit_distinct)

lemma accepts_2: "number_accepts (scanned 2 False False n n) q \<longleftrightarrow> zero_rest q"
  by (cases q) (auto simp: step_2 zero_rest_def accepts_3_hex accepts_4 accepts_4_dot digit_distinct)

lemma accepts_1: "q \<noteq> [] \<Longrightarrow> e \<le> n \<Longrightarrow> number_accepts (scanned 1 False False n e) q \<longleftrightarrow> unsigned_rest q"
  by (cases q) (auto simp: step_1 unsigned_rest_def accepts_2 accepts_3_dot accepts_4 digit_distinct)

lemma accepts_0: "q \<noteq> [] \<Longrightarrow> number_accepts number_start q \<longleftrightarrow>
    unsigned_rest q \<or> (\<exists>c t. q = c # t \<and> sign_char c \<and> unsigned_rest t)"
proof (cases q)
  case (Cons c t)
  have start: "number_start = scanned 0 False False 0 0" by (simp add: number_start_def scanned_def)
  have signed: "\<not> unsigned_rest (c # t)" if "sign_char c"
    using that digit_distinct(1) [of c] digit_distinct(9,12) by (auto simp: unsigned_rest_def)
  have none: "\<not> number_accepts (scanned 1 False False 1 0) []" "\<not> unsigned_rest []" by (simp_all add: unsigned_rest_def)
  show ?thesis
  proof (cases "sign_char c")
    case True
    then show ?thesis
      using signed none accepts_1 [of t 0 1] by (cases "t = []") (simp_all add: Cons start step_0)
  next
    case False
    then show ?thesis using accepts_1 [of "c # t" 0 0] by (simp add: Cons start step_0)
  qed
qed simp

subsection \<open>The two descriptions agree\<close>

lemma exponent_rest_iff:
  "(\<exists>e t. r = e # t \<and> e \<in> set ''eE'' \<and> exponent_rest t) \<longleftrightarrow> exponent r \<or> double_exponent r"
proof
  assume "\<exists>e t. r = e # t \<and> e \<in> set ''eE'' \<and> exponent_rest t"
  then obtain e q where q: "r = e # q" "e \<in> set ''eE''" "exponent_rest q" by blast
  then obtain ds u where "q = ds @ u" "q \<noteq> []" "list_all decimal_digit ds"
      and u: "u = [] \<or> (\<exists>s t. u = s # t \<and> sign_char s \<and> digits t)"
    unfolding exponent_rest_def after_run_def by blast
  then have r: "r = e # ds @ u" "e \<in> set ''eE''" "ds @ u \<noteq> []" "list_all decimal_digit ds"
    using q by simp_all
  show "exponent r \<or> double_exponent r"
  proof (cases "ds = []")
    case True
    then obtain s t where "u = [s] @ t" "sign_char s" "digits t" using r(3) u by auto
    then have "r = e # [s] @ t" using r(1) True by simp
    then show ?thesis using r(2) \<open>sign_char s\<close> \<open>digits t\<close> unfolding exponent_def by blast
  next
    case False
    then have ds: "digits ds" using r(4) by (simp add: digits_def)
    show ?thesis
    proof (cases "u = []")
      case True
      then have "r = e # [] @ ds" using r(1) by simp
      then show ?thesis using r(2) ds unfolding exponent_def by blast
    next
      case False
      then obtain s t where "u = s # t" "sign_char s" "digits t" using u by blast
      then have "double_exponent r" using r(1,2) ds unfolding double_exponent_def by blast
      then show ?thesis by simp
    qed
  qed
next
  assume "exponent r \<or> double_exponent r"
  then show "\<exists>e t. r = e # t \<and> e \<in> set ''eE'' \<and> exponent_rest t"
  proof
    assume "exponent r"
    then obtain e sg ds where r: "r = e # sg @ ds" "e \<in> set ''eE''" "digits ds" "sg = [] \<or> (\<exists>c. sg = [c] \<and> sign_char c)"
      by (auto simp: exponent_def)
    have "exponent_rest (sg @ ds)"
      using r(4)
    proof
      assume "sg = []"
      moreover have "after_run decimal_digit (\<lambda>r. r = [] \<or> R r) ds" for R
        using r(3) unfolding after_run_def by (intro exI [of _ ds] exI [of _ "[]"]) (simp add: digits_def)
      ultimately show ?thesis using r(3) by (simp add: exponent_rest_def digits_def)
    next
      assume "\<exists>c. sg = [c] \<and> sign_char c"
      then show ?thesis using r(3) by (auto simp: exponent_rest_def)
    qed
    then show ?thesis using r(1,2) by blast
  next
    assume "double_exponent r"
    then obtain e ds c ds' where r: "r = e # ds @ c # ds'" "e \<in> set ''eE''" "digits ds" "sign_char c" "digits ds'"
      by (auto simp: double_exponent_def)
    have "after_run decimal_digit (\<lambda>r. r = [] \<or> (\<exists>s t. r = s # t \<and> sign_char s \<and> digits t)) (ds @ c # ds')"
      using r(3-5) unfolding after_run_def by (intro exI [of _ ds] exI [of _ "c # ds'"]) (simp add: digits_def)
    then have "exponent_rest (ds @ c # ds')" by (simp add: exponent_rest_def)
    then show ?thesis using r(1,2) by blast
  qed
qed

lemma ends_or_exponent_iff: "ends_or_exponent r \<longleftrightarrow> r = [] \<or> exponent r \<or> double_exponent r"
  unfolding ends_or_exponent_def exponent_rest_iff ..

lemma dotted_rest_iff: "dotted_rest q \<longleftrightarrow> (\<exists>b ex. q = b @ ex \<and> list_all decimal_digit b \<and> ends_or_exponent ex)"
  by (simp add: dotted_rest_def after_run_def)

lemma digits_rest_iff:
  "digits_rest q \<longleftrightarrow> (\<exists>a ex. q = a @ ex \<and> list_all decimal_digit a \<and> ends_or_exponent ex) \<or>
     (\<exists>a b ex. q = a @ CHR ''.'' # b @ ex \<and> list_all decimal_digit (a @ b) \<and> ends_or_exponent ex)"
  by (auto simp: digits_rest_def after_run_def dotted_rest_iff) blast+

text \<open>The mantissa of a decimal number, by its first character.\<close>

lemma decimal_number_iff:
  "decimal_number q \<longleftrightarrow> q = ''0'' \<or>
     (\<exists>c a ex. q = c # a @ ex \<and> decimal_digit c \<and> list_all decimal_digit a \<and> ends_or_exponent ex \<and>
        (c # a = ''0'' \<longrightarrow> ex = [])) \<or>
     (\<exists>a b ex. q = a @ CHR ''.'' # b @ ex \<and> list_all decimal_digit (a @ b) \<and> a @ b \<noteq> [] \<and> ends_or_exponent ex)"
    (is "_ \<longleftrightarrow> _ \<or> ?plain \<or> ?dotted")
proof
  assume "decimal_number q"
  then obtain m ex where q: "q = m @ ex" "mantissa decimal_digit m" "ends_or_exponent ex" "m = ''0'' \<longrightarrow> ex = []"
    by (auto simp: decimal_number_def ends_or_exponent_iff)
  from q(2) show "q = ''0'' \<or> ?plain \<or> ?dotted"
    unfolding mantissa_def
  proof (elim disjE conjE exE)
    assume "m \<noteq> []" "list_all decimal_digit m"
    then obtain c a where "m = c # a" "decimal_digit c" "list_all decimal_digit a" by (cases m) auto
    then have ?plain using q by (intro exI [of _ c] exI [of _ a] exI [of _ ex]) simp
    then show ?thesis by blast
  next
    fix a b assume "m = a @ CHR ''.'' # b" "list_all decimal_digit (a @ b)" "a @ b \<noteq> []"
    then have ?dotted using q by (intro exI [of _ a] exI [of _ b] exI [of _ ex]) simp
    then show ?thesis by blast
  qed
next
  have number: "decimal_number (m @ ex)" if "mantissa decimal_digit m" "ends_or_exponent ex" "m = ''0'' \<longrightarrow> ex = []" for m ex
    using that unfolding decimal_number_def ends_or_exponent_iff by blast
  assume "q = ''0'' \<or> ?plain \<or> ?dotted"
  then show "decimal_number q"
  proof (elim disjE exE conjE)
    assume "q = ''0''"
    then show ?thesis using number [of "''0''" "[]"] by (simp add: mantissa_def ends_or_exponent_def digit_distinct)
  next
    fix c a ex assume "q = c # a @ ex" "decimal_digit c" "list_all decimal_digit a" "ends_or_exponent ex"
      "c # a = ''0'' \<longrightarrow> ex = []"
    then show ?thesis using number [of "c # a" ex] by (simp add: mantissa_def)
  next
    fix a b ex assume "q = a @ CHR ''.'' # b @ ex" "list_all decimal_digit (a @ b)" "a @ b \<noteq> []" "ends_or_exponent ex"
    moreover from this have "mantissa decimal_digit (a @ CHR ''.'' # b)" unfolding mantissa_def by blast
    moreover have "a @ CHR ''.'' # b \<noteq> ''0''" by (cases a) auto
    ultimately show ?thesis using number [of "a @ CHR ''.'' # b" ex] by simp
  qed
qed

definition zero_decimal :: "string \<Rightarrow> bool" where
  "zero_decimal q \<longleftrightarrow> q = [] \<or> (\<exists>c t. q = c # t \<and> (decimal_digit c \<and> digits_rest t \<or> c = CHR ''.'' \<and> dotted_rest t))"

lemma digits_restI:
  "list_all decimal_digit a \<Longrightarrow> ends_or_exponent ex \<Longrightarrow> digits_rest (a @ ex)"
  "list_all decimal_digit (a @ b) \<Longrightarrow> ends_or_exponent ex \<Longrightarrow> digits_rest (a @ CHR ''.'' # b @ ex)"
  "list_all decimal_digit b \<Longrightarrow> ends_or_exponent ex \<Longrightarrow> dotted_rest (b @ ex)"
  unfolding digits_rest_iff dotted_rest_iff by blast+

lemma decimal_numberI:
  "decimal_digit c \<Longrightarrow> list_all decimal_digit a \<Longrightarrow> ends_or_exponent ex \<Longrightarrow> c # a \<noteq> ''0'' \<Longrightarrow> decimal_number (c # a @ ex)"
  "list_all decimal_digit (a @ b) \<Longrightarrow> a @ b \<noteq> [] \<Longrightarrow> ends_or_exponent ex \<Longrightarrow> decimal_number (a @ CHR ''.'' # b @ ex)"
  unfolding decimal_number_iff by blast+

lemma decimal_after_digit:
  assumes "decimal_digit c" "digits_rest t" "p \<noteq> [] \<or> c \<noteq> CHR ''0''" "list_all decimal_digit p"
  shows "decimal_number (p @ c # t)"
proof -
  obtain d p' where d: "p @ [c] = d # p'" by (cases "p @ [c]") auto
  then have all: "decimal_digit d" "list_all decimal_digit p'" using assms(1,4) by (cases p; auto)+
  have bare: "d # p' @ a \<noteq> ''0''" for a
    using assms(3) d by (cases p) auto
  from assms(2) show ?thesis unfolding digits_rest_iff
  proof (elim disjE exE conjE)
    fix a ex assume t: "t = a @ ex" "list_all decimal_digit a" "ends_or_exponent ex"
    have eq: "p @ c # t = d # (p' @ a) @ ex" using d t(1) by (metis append.assoc append_Cons append_Nil)
    show ?thesis unfolding eq by (rule decimal_numberI(1)) (use all t bare in simp_all)
  next
    fix a b ex assume t: "t = a @ CHR ''.'' # b @ ex" "list_all decimal_digit (a @ b)" "ends_or_exponent ex"
    have "p @ c # t = (p @ c # a) @ CHR ''.'' # b @ ex" using t(1) by simp
    then show ?thesis using decimal_numberI(2) [of "p @ c # a" b ex] assms(1,4) t by simp
  qed
qed

lemma zero_decimal_iff: "zero_decimal t \<longleftrightarrow> decimal_number (CHR ''0'' # t)"
proof
  assume "zero_decimal t"
  then show "decimal_number (CHR ''0'' # t)" unfolding zero_decimal_def
  proof (elim disjE exE conjE)
    assume "t = []"
    then show ?thesis by (simp add: decimal_number_iff)
  next
    fix c u assume "t = c # u" "decimal_digit c" "digits_rest u"
    then show ?thesis using decimal_after_digit [of c u "''0''"] by (simp add: digit_distinct)
  next
    fix c u assume "t = c # u" "c = CHR ''.''" "dotted_rest u"
    then show ?thesis
      using decimal_numberI(2) [of "''0''"] by (auto simp: dotted_rest_iff digit_distinct)
  qed
next
  assume "decimal_number (CHR ''0'' # t)"
  then show "zero_decimal t" unfolding decimal_number_iff
  proof (elim disjE exE conjE)
    assume "CHR ''0'' # t = ''0''"
    then show ?thesis by (simp add: zero_decimal_def)
  next
    fix c a ex assume a: "CHR ''0'' # t = c # a @ ex" "list_all decimal_digit a" "ends_or_exponent ex" "c # a = ''0'' \<longrightarrow> ex = []"
    then show ?thesis using digits_restI(1) by (cases a) (auto simp: zero_decimal_def)
  next
    fix a b ex assume a: "CHR ''0'' # t = a @ CHR ''.'' # b @ ex" "list_all decimal_digit (a @ b)" "ends_or_exponent ex"
    then obtain a' where a': "a = CHR ''0'' # a'" by (cases a) auto
    then have t: "t = a' @ CHR ''.'' # b @ ex" "list_all decimal_digit (a' @ b)" using a by simp_all
    show ?thesis
    proof (cases a')
      case Nil
      then show ?thesis using t a(3) digits_restI(3) by (simp add: zero_decimal_def)
    next
      case (Cons d r)
      then show ?thesis using t a(3) digits_restI(2) [of r b ex] by (simp add: zero_decimal_def)
    qed
  qed
qed

lemma other_decimal_iff:
  assumes "c \<noteq> CHR ''0''"
  shows "decimal_digit c \<and> digits_rest t \<or> c = CHR ''.'' \<and> point_rest t \<longleftrightarrow> decimal_number (c # t)"
proof
  assume "decimal_digit c \<and> digits_rest t \<or> c = CHR ''.'' \<and> point_rest t"
  then show "decimal_number (c # t)"
  proof (elim disjE conjE)
    assume "decimal_digit c" "digits_rest t"
    then show ?thesis using decimal_after_digit [of c t "[]"] assms by simp
  next
    assume "c = CHR ''.''" "point_rest t"
    then show ?thesis
      using decimal_numberI(2) [of "[]" "d # b" ex for d b ex] by (auto simp: point_rest_def dotted_rest_iff)
  qed
next
  assume "decimal_number (c # t)"
  then show "decimal_digit c \<and> digits_rest t \<or> c = CHR ''.'' \<and> point_rest t" unfolding decimal_number_iff
  proof (elim disjE exE conjE)
    fix a b ex assume a: "c # t = a @ CHR ''.'' # b @ ex" "list_all decimal_digit (a @ b)" "a @ b \<noteq> []" "ends_or_exponent ex"
    show ?thesis
    proof (cases a)
      case Nil
      then obtain d b' where "b = d # b'" using a(3) by (cases b) auto
      then show ?thesis using Nil a digits_restI(3) [of b' ex] by (simp add: point_rest_def)
    next
      case (Cons d r)
      then show ?thesis using a digits_restI(2) [of r b ex] by simp
    qed
  qed (use assms digits_restI(1) in auto)
qed

lemma hex_rest_iff: "hex_rest q \<longleftrightarrow> mantissa hex_digit_char q"
proof
  assume "hex_rest q"
  then obtain c t where q: "q = c # t"
      "hex_digit_char c \<and> hex_digits_rest t \<or> c = CHR ''.'' \<and> t \<noteq> [] \<and> list_all hex_digit_char t"
    by (auto simp: hex_rest_def)
  from q(2) show "mantissa hex_digit_char q"
  proof (elim disjE conjE)
    assume c: "hex_digit_char c" and "hex_digits_rest t"
    then obtain ds r where t: "t = ds @ r" "list_all hex_digit_char ds"
        "r = [] \<or> (\<exists>u. r = CHR ''.'' # u \<and> list_all hex_digit_char u)"
      by (auto simp: hex_digits_rest_def after_run_def)
    from t(3) show ?thesis
    proof (elim disjE exE conjE)
      fix u assume "r = CHR ''.'' # u" "list_all hex_digit_char u"
      then have "q = (c # ds) @ CHR ''.'' # u" "list_all hex_digit_char ((c # ds) @ u)" "(c # ds) @ u \<noteq> []"
        using q(1) c t by simp_all
      then show ?thesis unfolding mantissa_def by blast
    qed (use q(1) c t in \<open>simp add: mantissa_def\<close>)
  next
    assume "c = CHR ''.''" "t \<noteq> []" "list_all hex_digit_char t"
    then have "q = [] @ CHR ''.'' # t" "list_all hex_digit_char ([] @ t)" "[] @ t \<noteq> []" using q(1) by simp_all
    then show ?thesis unfolding mantissa_def by blast
  qed
next
  have rest: "hex_digits_rest (ds @ r)" if "list_all hex_digit_char ds"
      "r = [] \<or> (\<exists>u. r = CHR ''.'' # u \<and> list_all hex_digit_char u)" for ds r
    unfolding hex_digits_rest_def after_run_def using that by blast
  assume "mantissa hex_digit_char q"
  then show "hex_rest q" unfolding mantissa_def
  proof (elim disjE exE conjE)
    assume "q \<noteq> []" "list_all hex_digit_char q"
    then show ?thesis using rest [of "tl q" "[]"] by (cases q) (auto simp: hex_rest_def)
  next
    fix a b assume q: "q = a @ CHR ''.'' # b" "list_all hex_digit_char (a @ b)" "a @ b \<noteq> []"
    then show ?thesis using rest [of "tl a" "CHR ''.'' # b"] by (cases a) (auto simp: hex_rest_def)
  qed
qed

lemma unsigned_rest_iff: "unsigned_rest q \<longleftrightarrow> decimal_number q \<or> hex_number q"
proof (cases q)
  case Nil
  have "\<not> decimal_number []" by (auto simp: decimal_number_def mantissa_def)
  then show ?thesis using Nil by (simp add: unsigned_rest_def hex_number_def)
next
  case (Cons c t)
  show ?thesis
  proof (cases "c = CHR ''0''")
    case True
    have "zero_rest t \<longleftrightarrow> zero_decimal t \<or> (\<exists>x u. t = x # u \<and> x \<in> set ''xX'' \<and> mantissa hex_digit_char u)"
      by (auto simp: zero_rest_def zero_decimal_def hex_rest_iff)
    then show ?thesis
      using True Cons zero_decimal_iff [of t] by (auto simp: unsigned_rest_def hex_number_def)
  next
    case False
    then show ?thesis
      using Cons other_decimal_iff [OF False, of t] by (auto simp: unsigned_rest_def hex_number_def)
  qed
qed

lemma number_text_iff:
  "number_text p \<longleftrightarrow> (decimal_number p \<or> hex_number p) \<or>
     (\<exists>c t. p = c # t \<and> sign_char c \<and> (decimal_number t \<or> hex_number t))"
proof
  assume "(decimal_number p \<or> hex_number p) \<or> (\<exists>c t. p = c # t \<and> sign_char c \<and> (decimal_number t \<or> hex_number t))"
  then show "number_text p"
  proof (elim disjE exE conjE)
    fix c t assume "p = c # t" "sign_char c" "decimal_number t"
    then show ?thesis unfolding number_text_def by (intro exI [of _ "[c]"] exI [of _ t]) simp
  next
    fix c t assume "p = c # t" "sign_char c" "hex_number t"
    then show ?thesis unfolding number_text_def by (intro exI [of _ "[c]"] exI [of _ t]) simp
  qed (unfold number_text_def, (intro exI [of _ "[]"] exI [of _ p], simp)+)
qed (auto simp: number_text_def)

lemma number_accepted_iff: "number_accepted p \<longleftrightarrow> number_text p"
proof (cases "p = []")
  case True
  have "\<not> decimal_number []" by (auto simp: decimal_number_def mantissa_def)
  then show ?thesis using True by (auto simp: number_accepted_def number_text_def hex_number_def)
next
  case False
  have "number_accepted p \<longleftrightarrow> number_accepts number_start p"
    using False number_run_copy [of p number_start]
    by (auto simp: number_accepted_def number_accepts_def number_start_def split: option.splits)
  also have "\<dots> \<longleftrightarrow> number_text p"
    unfolding accepts_0 [OF False] unsigned_rest_iff number_text_iff by blast
  finally show ?thesis .
qed

lemma check_number_value:
  assumes "s = xs @ ys" "number_run xs number_start = Some n"
    "ys = [] \<or> number_step n (hd ys) = Inr None"
  shows "check_number stream s = Inr
    (if ns_end n = 0 then (ys = [], 0)
     else if \<not> stream \<or> ys \<noteq> [] then (True, ns_end n) else (True, 0))"
  using check_number_run [OF assms] assms(1) by (simp add: check_number_def)

text \<open>A text that the loop reads to its end without a number in it may become one.\<close>

lemma number_run_open:
  assumes "number_run s number_start = Some n" "ns_end n = 0"
  shows "number_text (s @ ''0'')"
proof -
  have start: "number_start = scanned 0 False False 0 0" by (simp add: number_start_def scanned_def)
  have later: "ns_end m \<noteq> 0" if "number_run q s' = Some m" "ns_end s' \<noteq> 0" for q s' m
    using that
    by (induction q arbitrary: s') (auto split: sum.splits option.splits dest!: number_step_copy)
  have none: "number_run q (scanned st hex dot k (Suc e)) \<noteq> Some n" for q st hex dot k e
    using later [of q "scanned st hex dot k (Suc e)" n] assms(2) by auto
  have one: "t = [] \<or> t = ''.''" if "number_run t (scanned 1 False False k 0) = Some n" for t k
  proof (cases t)
    case (Cons c u)
    have "c = CHR ''.''"
      using that none by (auto simp: Cons step_1 split: if_splits)
    moreover have "u = []"
      using that none by (cases u) (auto simp: Cons \<open>c = CHR ''.''\<close> step_1 step_3 split: if_splits)
    ultimately show ?thesis using Cons by simp
  qed simp
  have zero: "decimal_number ''0''" "decimal_number ''.0''"
    using decimal_numberI(2) [of "[]" "''0''" "[]"] by (simp_all add: decimal_number_iff digit_distinct ends_or_exponent_def)
  show ?thesis
  proof (cases s)
    case Nil
    then show ?thesis using zero by (simp add: number_text_iff)
  next
    case (Cons c t)
    show ?thesis
    proof (cases "sign_char c")
      case True
      then have "number_run t (scanned 1 False False (Suc 0) 0) = Some n" using assms(1) by (simp add: Cons start step_0)
      then have "t = [] \<or> t = ''.''" by (rule one)
      then show ?thesis using True zero Cons by (auto simp: number_text_iff)
    next
      case False
      then have "number_run (c # t) (scanned 1 False False 0 0) = Some n" using assms(1) by (simp add: Cons start step_0)
      then show ?thesis using one zero Cons by (fastforce simp: number_text_iff)
    qed
  qed
qed

declare is_digit_iff [simp del]

section \<open>Properties\<close>

text \<open>C22: \<open>check_end\<close> looks for a separator in a text of which more may still arrive: it
  stops at the first occurrence, or at the first position where the text ends inside a
  possible occurrence. No occurrence can start earlier whatever arrives later, and once one
  is found the answer no longer changes.\<close>

theorem check_end_first_occurrence:
  assumes "check_end scan val = (b, e)"
  shows "b \<le> length scan \<and> (\<forall>i<b. \<not> prefix val (drop i (scan @ rest))) \<and>
    (if prefix val (drop b scan)
     then e = b + length val \<and> check_end (scan @ rest) val = (b, e)
     else e = length scan \<and> prefix (drop b scan) val)"
proof -
  have "\<not> prefix val (drop i scan @ rest)" if "refuted scan val i" for i
    using refuted_append [OF that, of rest] by simp
  then show ?thesis
    using assms check_end_found_stable [of val b scan rest]
    by (cases rule: check_end_cases [of scan val]) auto
qed

theorem check_end_first_occurrence_witness:
  "check_end ''ab'' ''b!'' = (1, 2) \<and> \<not> prefix ''b!'' (drop 0 (''ab'' @ ''x''))"
proof -
  have "check_end ''ab'' ''b!'' = (1, 2)"
    by (simp add: check_end_def check_end_loop.simps)
  from check_end_first_occurrence [OF this, of "''x''"] this show ?thesis by simp
qed

text \<open>C23: \<open>check_number\<close> takes the longest prefix that is a number: a decimal number with a mantissa and
  an exponent or a hexadecimal one with a mantissa, as \<open>strtod\<close> has them, save that it reads no exponent after
  a bare 0, that it reads a sign and more digits after the digits of an unsigned exponent, and that it knows
  no white space in front, infinities, NaN or binary exponents. It never
  reads past the text and never runs into its assertion; with nothing taken it answers true exactly if the text
  can still become a number.\<close>

theorem check_number_longest:
  "case check_number False s of
     Inl e \<Rightarrow> False
   | Inr (ok, n) \<Rightarrow> n \<le> length s \<and> (n = 0 \<or> ok \<and> number_text (take n s)) \<and>
       (\<forall>k \<le> length s. number_text (take k s) \<longrightarrow> k \<le> n) \<and>
       (n = 0 \<longrightarrow> (ok \<longleftrightarrow> (\<exists>more. number_text (s @ more))))"
proof -
  obtain xs ys n where run: "s = xs @ ys" "number_run xs number_start = Some n"
      "ys = [] \<or> number_step n (hd ys) = Inr None"
    using number_loop_stops [of s number_start] by metis
  have "ns_end n \<le> length xs" "0 < ns_end n \<Longrightarrow> number_accepted (take (ns_end n) xs)"
    using number_run_end [OF run(2)] by auto
  moreover have "length xs \<le> length s" "\<And>k. k \<le> length xs \<Longrightarrow> take k xs = take k s"
    using run(1) by auto
  moreover have "\<exists>more. number_text (s @ more)" if "ns_end n = 0" "ys = []"
    using number_run_open [OF run(2) that(1)] that(2) run(1) by auto
  moreover have "ys = []" if "number_text (s @ more)" for more
  proof (rule ccontr)
    assume "ys \<noteq> []"
    then have "number_run (s @ more) number_start = None"
      using run by (cases ys) (simp_all add: number_run_append)
    then show False using that by (simp add: number_accepted_iff [symmetric] number_accepted_def)
  qed
  ultimately show ?thesis
    unfolding check_number_value [OF run] number_accepted_iff
    using number_accepted_longest [OF run, unfolded number_accepted_iff] by auto
qed

text \<open>A number, a text that may become one, and a text that may not.\<close>

theorem check_number_longest_witness:
  "\<not> number_text (take 2 ''7,'') \<and> (\<exists>more. number_text (''-.'' @ more)) \<and> \<not> (\<exists>more. number_text (''-x'' @ more))"
proof -
  note defs = check_number_def number_start_def number_step_def is_sign_def is_digit_def Let_def
  have "check_number False ''7,'' = Inr (True, 1)" by (simp add: defs)
  with check_number_longest [of "''7,''"]
  have "\<forall>k \<le> length ''7,''. number_text (take k ''7,'') \<longrightarrow> k \<le> 1" by simp
  from this [rule_format, of 2] have "\<not> number_text (take 2 ''7,'')" by auto
  moreover have "check_number False ''-.'' = Inr (True, 0)" "check_number False ''-x'' = Inr (False, 0)"
    by (simp_all add: defs)
  ultimately show ?thesis
    using check_number_longest [of "''-.''"] check_number_longest [of "''-x''"] by simp
qed

text \<open>The two differences from \<open>strtod\<close>.\<close>

lemma check_number_differs:
  "check_number False ''1e5-3'' = Inr (True, 5)" "check_number False ''0e5'' = Inr (True, 1)"
  by (simp_all add: check_number_def number_start_def number_step_def is_sign_def is_digit_def Let_def)

text \<open>In stream mode a number is only taken when its end has been seen: an answer that
  takes characters, or rejects, stays the same whatever arrives later.\<close>

theorem check_number_stream_stable:
  assumes "check_number True s = Inr (ok, n)" "0 < n \<or> \<not> ok"
  shows "check_number True (s @ rest) = Inr (ok, n)"
proof -
  obtain xs ys st where run: "s = xs @ ys" "number_run xs number_start = Some st"
      "ys = [] \<or> number_step st (hd ys) = Inr None"
    using number_loop_stops [of s number_start] by metis
  have "ys \<noteq> []"
    using assms unfolding check_number_value [OF run] by (auto split: if_splits)
  moreover have "s @ rest = xs @ (ys @ rest)" using run by simp
  ultimately have "check_number True (s @ rest) = check_number True s"
    unfolding check_number_value [OF run]
    using run check_number_value [of "s @ rest" xs "ys @ rest" st True] by simp
  with assms show ?thesis by simp
qed

theorem check_number_stream_stable_witness:
  "check_number True (''7,'' @ ''5'') = Inr (True, 1)"
  by (rule check_number_stream_stable)
     (simp_all add: check_number_def number_start_def number_step_def is_sign_def is_digit_def
       Let_def)

end
