(* ===== verification/Expression_Tree.thy ===== *)
theory Expression_Tree
  imports Numbers "HOL-Library.Monad_Syntax"
begin

text \<open>
  The expression tree of \<open>src/belt.pp/parser.hpp\<close>: nodes in one vector, linked by 32 bit
  addresses (each node knows its last child, each child its previous peer), and
  \<open>node_address\<close>, the path from the root down the last children that the parser still
  works on. The parser's types are those of the generated parsers: 8 bit for tags,
  priorities and properties, 32 bit for sizes.

  A result is an \<open>option\<close>: None is an access outside a vector, a read of the inactive
  member of the union, or an assertion that fails.
\<close>

section \<open>Nodes\<close>

record operator_stuff =
  priority :: u8
  right :: u32
  property :: u8
  children_count :: u32
  last_child_address :: u32

record value_stuff =
  value_start_index :: u32
  value_size :: u32

text \<open>The union: nothing was written yet, or the member that was written last.\<close>

datatype union_info = No_info | Info_operator operator_stuff | Info_value value_stuff

record expression_data =
  ed_rtt :: u8
  union_is_value :: bool
  previous_peer_address :: u32
  info :: union_info

definition expression_data_new :: expression_data where
  "expression_data_new = \<lparr>ed_rtt = -1, union_is_value = False,
     previous_peer_address = -1, info = No_info\<rparr>"

definition expression_data_operator :: "u8 \<Rightarrow> u8 \<Rightarrow> u32 \<Rightarrow> u8 \<Rightarrow> expression_data" where
  "expression_data_operator rtt prio right' prop' =
     \<lparr>ed_rtt = rtt, union_is_value = False, previous_peer_address = -1,
      info = Info_operator \<lparr>priority = prio, right = right', property = prop',
        children_count = 0, last_child_address = -1\<rparr>\<rparr>"

definition expression_data_value :: "u8 \<Rightarrow> u32 \<Rightarrow> expression_data" where
  "expression_data_value rtt value_size' =
     \<lparr>ed_rtt = rtt, union_is_value = True, previous_peer_address = -1,
      info = Info_value \<lparr>value_start_index = 0, value_size = value_size'\<rparr>\<rparr>"

definition info_operator :: "expression_data \<Rightarrow> operator_stuff option" where
  "info_operator d = (case info d of Info_operator ops \<Rightarrow> Some ops | _ \<Rightarrow> None)"

definition info_value :: "expression_data \<Rightarrow> value_stuff option" where
  "info_value d = (case info d of Info_value v \<Rightarrow> Some v | _ \<Rightarrow> None)"

definition map_operator ::
  "(operator_stuff \<Rightarrow> operator_stuff) \<Rightarrow> expression_data \<Rightarrow> expression_data option" where
  "map_operator f d = do { ops \<leftarrow> info_operator d; Some (d\<lparr>info := Info_operator (f ops)\<rparr>) }"

text \<open>The properties are widened to \<open>size_t\<close> by these calls.\<close>

definition property_check :: "usize \<Rightarrow> usize \<Rightarrow> bool" where
  "property_check property_first property_second =
     (if 0 = property_first then False
      else if 0 = property_second mod property_first \<and>
              property_first * property_first \<ge> property_second then True
      else False)"

definition property_combine :: "usize \<Rightarrow> usize \<Rightarrow> usize option" where
  "property_combine property_first property_second =
     (if property_first = 0 then None else Some (property_second div property_first))"

definition property_final :: "usize \<Rightarrow> bool" where
  "property_final property' = (property' = 0 \<or> property' = 1 \<or> property' = 2)"

definition complete :: "expression_data \<Rightarrow> bool option" where
  "complete d =
     (if union_is_value d then Some True
      else do { ops \<leftarrow> info_operator d;
                Some (right ops = 0 \<and> property_final (ucast (property ops))) })"

definition child_count :: "expression_data \<Rightarrow> usize option" where
  "child_count d =
     (if union_is_value d then Some 0
      else do { ops \<leftarrow> info_operator d; Some (ucast (children_count ops)) })"

section \<open>The tree\<close>

record expression_tree =
  node_address :: "u32 list"
  memory :: "expression_data list"
  expression_string :: string

definition fetch :: "'a list \<Rightarrow> nat \<Rightarrow> 'a option" where
  "fetch xs i = (if i < length xs then Some (xs ! i) else None)"

definition tree_new :: expression_tree where
  "tree_new = \<lparr>node_address = [], memory = [], expression_string = ''''\<rparr>"

definition tree_empty :: "expression_tree \<Rightarrow> bool" where
  "tree_empty t = (memory t = [] \<or> node_address t = [])"

definition tree_create :: "expression_data \<Rightarrow> expression_tree \<Rightarrow> expression_tree option" where
  "tree_create data t =
     (if tree_empty t
      then Some (t\<lparr>memory := memory t @ [data], node_address := node_address t @ [0]\<rparr>)
      else None)"

definition tree_item :: "expression_tree \<Rightarrow> expression_data option" where
  "tree_item t = (if tree_empty t then None else fetch (memory t) (unat (last (node_address t))))"

text \<open>\<open>item2\<close> for an index other than -1; it returns a null pointer for -1.\<close>

definition tree_item2 :: "expression_tree \<Rightarrow> nat \<Rightarrow> expression_data option" where
  "tree_item2 t address_index =
     (if tree_empty t then None
      else do { a \<leftarrow> fetch (node_address t) address_index; fetch (memory t) (unat a) })"

definition tree_update ::
  "u32 \<Rightarrow> (expression_data \<Rightarrow> expression_data option) \<Rightarrow> expression_tree \<Rightarrow> expression_tree option" where
  "tree_update a f t =
     do { d \<leftarrow> fetch (memory t) (unat a);
          d' \<leftarrow> f d;
          Some (t\<lparr>memory := (memory t)[unat a := d']\<rparr>) }"

text \<open>The loop of \<open>child\<close> walks back over the peers while the index counts up.\<close>

function child_loop :: "expression_tree \<Rightarrow> u32 \<Rightarrow> u32 \<Rightarrow> u32 \<Rightarrow> u32 option" where
  "child_loop t address index count =
     (if index \<noteq> count
      then do { d \<leftarrow> fetch (memory t) (unat address);
                child_loop t (previous_peer_address d) (index + 1) count }
      else Some address)"
  by pat_completeness auto

termination
  by (relation "measure (\<lambda>(t, address, index, count). unat (count - index))")
     (auto intro: word_distance_less)

declare child_loop.simps [simp del]

definition tree_child :: "expression_tree \<Rightarrow> u32 \<Rightarrow> u32 \<Rightarrow> u32 option" where
  "tree_child t address child_index =
     do { d \<leftarrow> fetch (memory t) (unat address);
          ops \<leftarrow> info_operator d;
          child_loop t (last_child_address ops) (child_index + 1) (children_count ops) }"

fun all_complete :: "expression_tree \<Rightarrow> nat \<Rightarrow> bool option" where
  "all_complete t 0 = Some True"
| "all_complete t (Suc index) =
     do { a \<leftarrow> fetch (node_address t) index;
          d \<leftarrow> fetch (memory t) (unat a);
          c \<leftarrow> complete d;
          if c then all_complete t index else Some False }"

definition tree_complete :: "expression_tree \<Rightarrow> bool option" where
  "tree_complete t =
     (if tree_empty t then Some False else all_complete t (length (node_address t)))"

section \<open>Walking the tree\<close>

text \<open>
  \<open>depth\<close> and \<open>dump\<close> walk the tree below \<open>node_address.back()\<close> without
  recursion: \<open>track\<close> holds the child taken at every level, and each round goes down
  from the top again. One round looks at the node and then enters its next child or goes
  back up.
\<close>

fun walk_down :: "expression_tree \<Rightarrow> u32 \<Rightarrow> usize list \<Rightarrow> u32 option" where
  "walk_down t address [] = Some address"
| "walk_down t address (i # is) =
     do { address' \<leftarrow> tree_child t address (ucast i); walk_down t address' is }"

definition walk_node :: "expression_tree \<Rightarrow> usize list \<Rightarrow> nat \<Rightarrow> expression_data option" where
  "walk_node t track depth =
     (if node_address t = [] \<or> length track < depth - 1 then None
      else do { address \<leftarrow> walk_down t (last (node_address t)) (take (depth - 1) track);
                fetch (memory t) (unat address) })"

text \<open>The new track and whether there is a next child to enter.\<close>

definition walk_next :: "usize \<Rightarrow> usize list \<Rightarrow> nat \<Rightarrow> usize list \<times> bool" where
  "walk_next count track depth =
     (if 0 \<noteq> count
      then let track' = (if length track < depth then track @ [0]
                         else track[depth - 1 := track ! (depth - 1) + 1]);
               childindex = (if length track < depth then 0 else track' ! (depth - 1))
           in (track', childindex < count)
      else (track, False))"

definition walk_resize :: "usize list \<Rightarrow> nat \<Rightarrow> usize list" where
  "walk_resize track depth =
     (if length track > depth - 1 then take (depth - 1) track else track)"

partial_function (option) depth_loop ::
  "expression_tree \<Rightarrow> usize list \<Rightarrow> nat \<Rightarrow> nat \<Rightarrow> nat option" where
  "depth_loop t track depth max_depth =
     (if depth = 0 then Some (max_depth - 1)
      else do {
        d \<leftarrow> walk_node t track depth;
        count \<leftarrow> child_count d;
        let (track, down) = walk_next count track depth;
        if down
        then depth_loop t (walk_resize track (depth + 1)) (depth + 1) (max max_depth (depth + 1))
        else depth_loop t track (depth - 1) max_depth })"

declare depth_loop.simps [code]

definition tree_depth :: "expression_tree \<Rightarrow> nat option" where
  "tree_depth t = (if tree_empty t then Some 0 else depth_loop t [] 1 1)"

text \<open>The line of one node; a value is the text that it covers.\<close>

definition dump_node :: "expression_tree \<Rightarrow> nat \<Rightarrow> expression_data \<Rightarrow> string option" where
  "dump_node t depth d =
     do {
       label \<leftarrow>
         (if \<not> union_is_value d
          then do { ops \<leftarrow> info_operator d;
                    Some (to_string (unat (ed_rtt d)) @ ''|'' @ to_string (unat (property ops))) }
          else do { v \<leftarrow> info_value d;
                    let first = unat (value_start_index v);
                    let size' = unat (value_size v);
                    if first + size' > length (expression_string t) then None
                    else Some (take size' (drop first (expression_string t))) });
       c \<leftarrow> complete d;
       Some (replicate (depth - 1) CHR ''.'' @ label @ (if \<not> c then '' !!!! '' else '''') @
             [CHR 0x0A]) }"

partial_function (option) dump_loop ::
  "expression_tree \<Rightarrow> usize list \<Rightarrow> nat \<Rightarrow> string \<Rightarrow> string option" where
  "dump_loop t track depth res =
     (if depth = 0 then Some res
      else do {
        d \<leftarrow> walk_node t track depth;
        res \<leftarrow> (if length track = depth - 1
                then do { line \<leftarrow> dump_node t depth d; Some (res @ line) }
                else Some res);
        count \<leftarrow> child_count d;
        let (track, down) = walk_next count track depth;
        if down
        then dump_loop t (walk_resize track (depth + 1)) (depth + 1) res
        else dump_loop t track (depth - 1) res })"

declare dump_loop.simps [code]

definition tree_dump :: "expression_tree \<Rightarrow> string option" where
  "tree_dump t = (if tree_empty t then Some ('' !!!! '' @ [CHR 0x0A]) else dump_loop t [] 1 '''')"

end
