(* ===== verification/Parser_Core.thy ===== *)
theory Parser_Core
  imports Expression_Tree Meta
begin

text \<open>
  The parser of \<open>src/belt.pp/parser.hpp\<close>: \<open>parse_helper\<close> places one token in the
  expression tree, \<open>readers::parse\<close> tries the lexers in order, \<open>parse\<close>,
  \<open>parse_stream\<close> and \<open>parse_full\<close> drive it over a text.
\<close>

section \<open>Tokens\<close>

datatype place_as = E_discard | E_value | E_operator

text \<open>
  What \<open>internal_read\<close> of a lexer answers for a text: an error, an attempt (more text is
  needed), or a token with the number of characters it takes. A discarded token carries
  the initial \<open>expression_data\<close>: the discarding lexers leave \<open>result\<close> alone and
  \<open>parse_helper\<close> does not look at it.
\<close>

datatype read = Read_error | Read_attempt | Read_success nat expression_data place_as

type_synonym lexer = "string \<Rightarrow> read option"

text \<open>The default operator of the lexers, if they have one.\<close>

definition default_operator ::
  "(u8 \<times> u8 \<times> u32 \<times> u8) option \<Rightarrow> expression_data option" where
  "default_operator dflt =
     map_option (\<lambda>(rtt, prio, right', prop'). expression_data_operator rtt prio right' prop') dflt"

section \<open>Placing a token\<close>

text \<open>
  The index of the first loop: down from the end of \<open>node_address\<close> to a node that still
  needs something or, when there is an operator to place, has lower priority than it; None
  is \<open>size_t(-1)\<close>.
\<close>

fun stop_scan :: "expression_tree \<Rightarrow> expression_data option \<Rightarrow> nat \<Rightarrow> nat option option" where
  "stop_scan t act 0 = Some None"
| "stop_scan t act (Suc i) =
     do { d \<leftarrow> tree_item2 t i;
          c \<leftarrow> complete d;
          if \<not> c then Some (Some i)
          else case act of
                 None \<Rightarrow> stop_scan t act i
               | Some a \<Rightarrow>
                   if union_is_value d then stop_scan t act i
                   else do { ops \<leftarrow> info_operator d;
                             aops \<leftarrow> info_operator a;
                             if priority ops < priority aops then Some (Some i)
                             else stop_scan t act i } }"

text \<open>
  The second loop: up from the chosen node to the innermost node that needs something; it
  is chosen instead if it has the tag of the operator.
\<close>

fun same_scan :: "expression_tree \<Rightarrow> expression_data \<Rightarrow> nat \<Rightarrow> nat \<Rightarrow> nat option" where
  "same_scan t a current_address_index 0 = Some current_address_index"
| "same_scan t a current_address_index (Suc i) =
     do { d \<leftarrow> tree_item2 t i;
          c \<leftarrow> complete d;
          if \<not> c then Some (if ed_rtt d = ed_rtt a then i else current_address_index)
          else same_scan t a current_address_index i }"

text \<open>Cut the path so that \<open>item()\<close> is the node at an index of the path.\<close>

definition point_to :: "nat \<Rightarrow> expression_tree \<Rightarrow> expression_tree option" where
  "point_to i t =
     do { a \<leftarrow> fetch (node_address t) i;
          Some (if last (node_address t) \<noteq> a
                then t\<lparr>node_address := take (i + 1) (node_address t)\<rparr> else t) }"

definition fix_same :: "expression_data \<Rightarrow> nat \<Rightarrow> expression_tree \<Rightarrow> expression_tree option" where
  "fix_same a i t =
     do { aops \<leftarrow> info_operator a;
          address \<leftarrow> fetch (node_address t) i;
          node \<leftarrow> tree_item2 t i;
          ops \<leftarrow> info_operator node;
          combined \<leftarrow> property_combine (ucast (property ops)) (ucast (property aops));
          tree_update address
            (map_operator (\<lambda>ops. ops\<lparr>right := right aops, property := ucast combined\<rparr>)) t }"

text \<open>The new operator takes the place of the node at index \<open>i\<close>, which becomes its child.\<close>

definition insert_operator ::
  "expression_data \<Rightarrow> nat \<Rightarrow> expression_tree \<Rightarrow> expression_tree option" where
  "insert_operator a i t =
     do { address \<leftarrow> fetch (node_address t) i;
          a1 \<leftarrow> map_operator (\<lambda>ops. ops\<lparr>last_child_address := address,
                 children_count := children_count ops + 1\<rparr>) a;
          item \<leftarrow> tree_item t;
          let a2 = a1\<lparr>previous_peer_address := previous_peer_address item\<rparr>;
          t \<leftarrow> tree_update (last (node_address t))
                 (\<lambda>d. Some (d\<lparr>previous_peer_address := -1\<rparr>)) t;
          let new_address = (of_nat (length (memory t)) :: u32);
          let t = t\<lparr>node_address := (node_address t)[i := new_address]\<rparr>;
          t \<leftarrow> (if i \<noteq> 0
                then do { parent \<leftarrow> fetch (node_address t) (i - 1);
                          tree_update parent
                            (map_operator (\<lambda>ops. ops\<lparr>last_child_address := new_address\<rparr>)) t }
                else Some t);
          Some (t\<lparr>memory := memory t @ [a2]\<rparr>) }"

text \<open>A value gets the position in \<open>expression_string\<close> where its text will begin.\<close>

definition stamp :: "nat \<Rightarrow> expression_data \<Rightarrow> expression_data option" where
  "stamp expression_string_size rr =
     (if union_is_value rr
      then do { v \<leftarrow> info_value rr;
                Some (rr\<lparr>info := Info_value (v\<lparr>value_start_index :=
                        of_nat expression_string_size\<rparr>)\<rparr>) }
      else Some rr)"

definition append_value ::
  "expression_data \<Rightarrow> nat \<Rightarrow> expression_tree \<Rightarrow> expression_tree option" where
  "append_value rr i t =
     do { node \<leftarrow> tree_item2 t i;
          c \<leftarrow> complete node;
          t \<leftarrow> (if c then None else point_to i t);
          rr \<leftarrow> stamp (length (expression_string t)) rr;
          item \<leftarrow> tree_item t;
          ops \<leftarrow> info_operator item;
          let rr = rr\<lparr>previous_peer_address := last_child_address ops\<rparr>;
          let new_address = (of_nat (length (memory t)) :: u32);
          t \<leftarrow> tree_update (last (node_address t))
                 (map_operator (\<lambda>ops. ops\<lparr>last_child_address := new_address,
                    children_count := children_count ops + 1\<rparr>)) t;
          let t = t\<lparr>node_address := node_address t @ [new_address], memory := memory t @ [rr]\<rparr>;
          address \<leftarrow> fetch (node_address t) i;
          tree_update address (map_operator (\<lambda>ops. ops\<lparr>right := right ops - 1\<rparr>)) t }"

text \<open>Place an operator at the index the loops chose: whether it was placed.\<close>

definition place_operator ::
  "expression_data \<Rightarrow> nat \<Rightarrow> expression_tree \<Rightarrow> (bool \<times> expression_tree) option" where
  "place_operator a i t =
     do { node \<leftarrow> tree_item2 t i;
          fix_the_same_possible \<leftarrow>
            (if ed_rtt node = ed_rtt a \<and> \<not> union_is_value node
             then do { ops \<leftarrow> info_operator node;
                       aops \<leftarrow> info_operator a;
                       Some (property_check (ucast (property ops)) (ucast (property aops))) }
             else Some False);
          place \<leftarrow> (if fix_the_same_possible then Some True else complete node);
          if place
          then do { t \<leftarrow> point_to i t;
                    t \<leftarrow> (if fix_the_same_possible then fix_same a i t else insert_operator a i t);
                    Some (True, t) }
          else Some (False, t) }"

definition act_for_operator ::
  "expression_data option \<Rightarrow> expression_data \<Rightarrow> place_as \<Rightarrow> expression_data option option" where
  "act_for_operator dflt rr place =
     (if place = E_operator then (if union_is_value rr then None else Some (Some rr))
      else case dflt of
             Some d \<Rightarrow> if union_is_value d then None else Some (Some d)
           | None \<Rightarrow> Some None)"

definition parse_helper ::
  "expression_data option \<Rightarrow> expression_tree \<Rightarrow> expression_data \<Rightarrow> place_as
     \<Rightarrow> (bool \<times> expression_tree) option" where
  "parse_helper dflt t rr place =
     (if place = E_discard then Some (True, t)
      else if tree_empty t \<and> place = E_value then
        do { rr \<leftarrow> stamp (length (expression_string t)) rr;
             t \<leftarrow> tree_create rr t;
             Some (True, t) }
      else if \<not> tree_empty t then
        do { act \<leftarrow> act_for_operator dflt rr place;
             let address_index_max = length (node_address t) - 1;
             current_address_index \<leftarrow> stop_scan t act (length (node_address t));
             (success, current_address_index, t) \<leftarrow>
               (case act of
                  None \<Rightarrow> Some (False, current_address_index, t)
                | Some a \<Rightarrow>
                    do { let i = (case current_address_index of
                                    None \<Rightarrow> 0
                                  | Some i \<Rightarrow> if i \<noteq> address_index_max then i + 1 else i);
                         i \<leftarrow> same_scan t a i (i + 1);
                         (success, t) \<leftarrow> place_operator a i t;
                         Some (success, Some i, t) });
             (case current_address_index of
                Some i \<Rightarrow>
                  if place = E_value
                  then do { node \<leftarrow> tree_item2 t i;
                            ops \<leftarrow> info_operator node;
                            if right ops > 0
                            then do { t \<leftarrow> append_value rr i t; Some (True, t) }
                            else Some (success, t) }
                  else Some (success, t)
              | None \<Rightarrow> Some (success, t)) }
      else Some (False, t))"

section \<open>Reading tokens\<close>

record limits =
  not_yet_parsed_size_limit :: nat
  depth_limit :: nat
  expression_size_limit :: nat
  buffer_size_limit :: nat

text \<open>
  \<open>readers::parse\<close> over the list of lexers that are left: what it returns, the tree and
  the number of characters taken. The limits are looked at after the token was placed.
\<close>

fun readers_parse ::
  "limits \<Rightarrow> expression_data option \<Rightarrow> lexer list \<Rightarrow> expression_tree \<Rightarrow> string \<Rightarrow> bool
     \<Rightarrow> (bool \<times> expression_tree \<times> nat) option" where
  "readers_parse lim dflt [] t s code_on_not_parsed = Some (code_on_not_parsed, t, 0)"
| "readers_parse lim dflt (T_lexer # lexers) t s code_on_not_parsed =
     do { r \<leftarrow> T_lexer s;
          case r of
            Read_success n rr place \<Rightarrow>
              if n = 0 then None
              else do { (success, t) \<leftarrow> parse_helper dflt t rr place;
                        if success \<and> length (node_address t) \<le> depth_limit lim \<and>
                           length (memory t) \<le> expression_size_limit lim \<and>
                           length (expression_string t) + n \<le> buffer_size_limit lim
                        then Some (True, t\<lparr>expression_string := expression_string t @ take n s\<rparr>, n)
                        else readers_parse lim dflt lexers t s code_on_not_parsed }
          | Read_attempt \<Rightarrow>
              readers_parse lim dflt lexers t s
                (if length s \<le> not_yet_parsed_size_limit lim then True else code_on_not_parsed)
          | Read_error \<Rightarrow> readers_parse lim dflt lexers t s code_on_not_parsed }"

definition parse_token ::
  "limits \<Rightarrow> expression_data option \<Rightarrow> lexer list \<Rightarrow> expression_tree \<Rightarrow> string
     \<Rightarrow> (bool \<times> expression_tree \<times> nat) option" where
  "parse_token lim dflt lexers t s =
     (if s = [] then Some (True, t, 0) else readers_parse lim dflt lexers t s False)"

text \<open>
  \<open>parse_stream\<close> calls it until nothing more is taken: the answer, the tree and what is
  left of the text (nothing after a failure).
\<close>

partial_function (option) stream_loop ::
  "limits \<Rightarrow> expression_data option \<Rightarrow> lexer list \<Rightarrow> expression_tree \<Rightarrow> string
     \<Rightarrow> (bool \<times> expression_tree \<times> string) option" where
  "stream_loop lim dflt lexers t s =
     do { (ok, t, n) \<leftarrow> parse_token lim dflt lexers t s;
          if \<not> ok then Some (False, t, [])
          else if n = 0 then Some (True, t, s)
          else stream_loop lim dflt lexers t (drop n s) }"

declare stream_loop.simps [code]

definition parse_stream ::
  "limits \<Rightarrow> expression_data option \<Rightarrow> lexer list \<Rightarrow> expression_tree \<Rightarrow> string
     \<Rightarrow> (bool \<times> expression_tree \<times> string) option" where
  "parse_stream lim dflt lexers t s =
     (if s = [] then None else stream_loop lim dflt lexers t s)"

text \<open>The guard of \<open>parse_full\<close> leaves only the root in \<open>node_address\<close>.\<close>

definition parse_full ::
  "limits \<Rightarrow> expression_data option \<Rightarrow> lexer list \<Rightarrow> expression_tree \<Rightarrow> string
     \<Rightarrow> (bool \<times> expression_tree) option" where
  "parse_full lim dflt lexers t s =
     do { (ok, t, rest) \<leftarrow> parse_stream (lim\<lparr>not_yet_parsed_size_limit := 0\<rparr>) dflt lexers t s;
          ok \<leftarrow> (if ok then tree_complete t else Some False);
          Some (ok, if length (node_address t) > 1
                    then t\<lparr>node_address := take 1 (node_address t)\<rparr> else t) }"

section \<open>The bases of the lexers\<close>

text \<open>
  \<open>parse\<close> of a lexer class: whether it accepts, the characters it takes, and for an
  operator how it is placed. None is undefined behaviour in it.
\<close>

definition standard_white_space_set :: string where
  "standard_white_space_set = [CHR '' '', CHR 0x09, CHR 0x0D, CHR 0x0A]"

definition standard_operator_set :: string where
  "standard_operator_set = ''+-*&/|'' @ [CHR 0x5C] @ ''=!$@^%,;:<>''"

definition discard_parse :: "string \<Rightarrow> string \<Rightarrow> bool \<times> nat" where
  "discard_parse white s =
     (let n = length (takeWhile (\<lambda>c. c \<in> set white) s) in (n \<noteq> 0, n))"

definition discard_lexer_base :: "string \<Rightarrow> lexer" where
  "discard_lexer_base white s =
     (let (code, n) = discard_parse white s
      in Some (if code \<and> n \<noteq> 0 then Read_success n expression_data_new E_discard
               else if code then Read_attempt
               else Read_error))"

definition discard_lexer_base_flexible :: "(string \<Rightarrow> (bool \<times> nat) option) \<Rightarrow> lexer" where
  "discard_lexer_base_flexible parse s =
     do { (code, n) \<leftarrow> parse s;
          Some (if code \<and> n \<noteq> 0 then Read_success n expression_data_new E_discard
                else if code then Read_attempt
                else Read_error) }"

type_synonym operator_parse = "string \<Rightarrow> (bool \<times> nat \<times> bool \<times> u32 \<times> u8) option"

definition operator_lexer_base :: "u8 \<Rightarrow> u8 \<Rightarrow> operator_parse \<Rightarrow> lexer" where
  "operator_lexer_base rtt prio parse s =
     do { (code, n, place_as_operator, right', prop') \<leftarrow> parse s;
          Some (if code \<and> n \<noteq> 0
                then Read_success n (expression_data_operator rtt prio right' prop')
                       (if place_as_operator then E_operator else E_value)
                else if code then Read_attempt
                else Read_error) }"

definition value_lexer_base :: "u8 \<Rightarrow> (string \<Rightarrow> (bool \<times> nat) option) \<Rightarrow> lexer" where
  "value_lexer_base rtt parse s =
     do { (code, n) \<leftarrow> parse s;
          Some (if code \<and> n \<noteq> 0
                then Read_success n (expression_data_value rtt (of_nat n)) E_value
                else if code then Read_attempt
                else Read_error) }"

end
