(* ===== verification/Tree_Refinement.thy ===== *)
theory Tree_Refinement
  imports Parser_Core
begin

text \<open>
  What the linked nodes of an expression tree mean. A layout (\<open>gtree\<close>) says at which
  address each node of a tree lies; a tree is well formed for a layout if the children
  counts, the links to the last child and to the previous peers and the members of the
  union agree with it. The meaning is an ordinary syntax tree (\<open>ast\<close>), and the path
  \<open>node_address\<close> is a number of steps down its last children. On that level placing a
  token is a function on trees without addresses; the theorem that closes the theory says
  that \<open>parse_helper\<close> computes it.
\<close>

section \<open>Layouts\<close>

datatype gtree = G (addr: u32) "gtree list"

primrec kids :: "gtree \<Rightarrow> gtree list" where
  "kids (G a cs) = cs"

fun addrs :: "gtree \<Rightarrow> u32 list" where
  "addrs (G a cs) = a # concat (map addrs cs)"

fun peers :: "expression_data list \<Rightarrow> u32 \<Rightarrow> gtree list \<Rightarrow> bool" where
  "peers m p [] = True"
| "peers m p (c # cs) =
     (previous_peer_address (m ! unat (addr c)) = p \<and> peers m (addr c) cs)"

definition last_addr :: "gtree list \<Rightarrow> u32" where
  "last_addr cs = (if cs = [] then -1 else addr (last cs))"

definition node_ok :: "expression_data list \<Rightarrow> expression_data \<Rightarrow> gtree list \<Rightarrow> bool" where
  "node_ok m d cs =
     (case info d of
        No_info \<Rightarrow> False
      | Info_value v \<Rightarrow> union_is_value d \<and> cs = []
      | Info_operator ops \<Rightarrow> \<not> union_is_value d \<and> unat (children_count ops) = length cs \<and>
          last_child_address ops = last_addr cs \<and> peers m (-1) cs)"

fun wf :: "expression_data list \<Rightarrow> gtree \<Rightarrow> bool" where
  "wf m (G a cs) \<longleftrightarrow> unat a < length m \<and> node_ok m (m ! unat a) cs \<and> (\<forall>c\<in>set cs. wf m c)"

section \<open>Syntax trees\<close>

datatype ast =
    Leaf u8 u32 u32
  | Node u8 u8 u32 u8 "ast list"

fun ast_of :: "expression_data list \<Rightarrow> gtree \<Rightarrow> ast" where
  "ast_of m (G a cs) =
     (case info (m ! unat a) of
        Info_operator ops \<Rightarrow> Node (ed_rtt (m ! unat a)) (priority ops) (right ops) (property ops)
          (map (ast_of m) cs)
      | Info_value v \<Rightarrow> Leaf (ed_rtt (m ! unat a)) (value_start_index v) (value_size v)
      | No_info \<Rightarrow> Leaf (ed_rtt (m ! unat a)) 0 0)"

text \<open>Nodes on the path of last children.\<close>

fun g_at :: "nat \<Rightarrow> gtree \<Rightarrow> gtree" where
  "g_at 0 g = g"
| "g_at (Suc i) (G a cs) = g_at i (last cs)"

fun g_valid :: "nat \<Rightarrow> gtree \<Rightarrow> bool" where
  "g_valid 0 g = True"
| "g_valid (Suc i) (G a cs) = (cs \<noteq> [] \<and> g_valid i (last cs))"

fun g_set :: "nat \<Rightarrow> gtree \<Rightarrow> gtree \<Rightarrow> gtree" where
  "g_set 0 x g = x"
| "g_set (Suc i) x (G a cs) = G a (butlast cs @ [g_set i x (last cs)])"

fun spine :: "nat \<Rightarrow> gtree \<Rightarrow> u32 list" where
  "spine 0 g = []"
| "spine (Suc d) (G a cs) = a # (if cs = [] then [] else spine d (last cs))"

fun a_at :: "nat \<Rightarrow> ast \<Rightarrow> ast" where
  "a_at 0 x = x"
| "a_at (Suc i) (Node r p ri pr cs) = a_at i (last cs)"
| "a_at (Suc i) (Leaf r s n) = Leaf r s n"

fun a_set :: "nat \<Rightarrow> ast \<Rightarrow> ast \<Rightarrow> ast" where
  "a_set 0 y x = y"
| "a_set (Suc i) y (Node r p ri pr cs) = Node r p ri pr (butlast cs @ [a_set i y (last cs)])"
| "a_set (Suc i) y (Leaf r s n) = Leaf r s n"

section \<open>Facts about layouts\<close>

lemma addr_in_addrs [simp]: "addr g \<in> set (addrs g)"
  by (cases g) simp

lemma addrs_child: "c \<in> set cs \<Longrightarrow> set (addrs c) \<subseteq> set (addrs (G a cs))"
  by auto

lemma g_at_addrs: "g_valid i g \<Longrightarrow> set (addrs (g_at i g)) \<subseteq> set (addrs g)"
  by (induction i g rule: g_valid.induct) (auto dest: last_in_set)

lemma wf_g_at: "wf m g \<Longrightarrow> g_valid i g \<Longrightarrow> wf m (g_at i g)"
  by (induction i g rule: g_valid.induct) auto

lemma wf_addr: "wf m g \<Longrightarrow> unat (addr g) < length m"
  by (cases g) simp

lemma wf_addrs: "wf m g \<Longrightarrow> a \<in> set (addrs g) \<Longrightarrow> unat a < length m"
  by (induction g rule: addrs.induct) auto

lemma wf_length:
  assumes "wf m g" "distinct (addrs g)"
  shows "length (addrs g) \<le> length m"
proof -
  have "card (unat ` set (addrs g)) = length (addrs g)"
    using assms(2) by (simp add: card_image distinct_card inj_on_def word_unat_eq_iff)
  moreover have "unat ` set (addrs g) \<subseteq> {..<length m}"
    using wf_addrs [OF assms(1)] by auto
  ultimately show ?thesis
    by (metis card_lessThan card_mono finite_lessThan)
qed

lemma spine_length_le: "length (spine d g) \<le> d"
  by (induction d g rule: spine.induct) auto

lemma spine_valid: "length (spine d g) = d \<longleftrightarrow> d = 0 \<or> g_valid (d - 1) g"
proof (induction d g rule: spine.induct)
  case (2 d a cs)
  then show ?case by (cases d) auto
qed simp

lemma spine_nth: "g_valid i g \<Longrightarrow> i < d \<Longrightarrow> length (spine d g) = d \<Longrightarrow> spine d g ! i = addr (g_at i g)"
proof (induction d g arbitrary: i rule: spine.induct)
  case (2 d a cs)
  then show ?case by (cases i) (auto split: if_splits)
qed simp

lemma g_valid_mono: "g_valid i g \<Longrightarrow> j \<le> i \<Longrightarrow> g_valid j g"
proof (induction i g arbitrary: j rule: g_valid.induct)
  case (2 i a cs)
  then show ?case by (cases j) auto
qed simp

lemma take_spine: "take n (spine d g) = spine (min n d) g"
proof (induction d g arbitrary: n rule: spine.induct)
  case (2 d a cs)
  then show ?case by (cases n) auto
qed simp

lemma spine_eqI: "(\<And>i. i < d \<Longrightarrow> addr (g_at i g) = addr (g_at i g')) \<Longrightarrow> d = 0 \<or> g_valid (d - 1) g \<Longrightarrow>
    d = 0 \<or> g_valid (d - 1) g' \<Longrightarrow> spine d g = spine d g'"
  using spine_valid [of d g] spine_valid [of d g']
  by (auto intro!: nth_equalityI simp: spine_nth g_valid_mono)

lemma g_set_valid: "g_valid i g \<Longrightarrow> g_valid i (g_set i x g)"
  by (induction i g rule: g_valid.induct) auto

lemma g_at_set: "g_valid i g \<Longrightarrow> g_at i (g_set i x g) = x"
  by (induction i g rule: g_valid.induct) auto

lemma g_at_set_less: "g_valid i g \<Longrightarrow> j < i \<Longrightarrow> addr (g_at j (g_set i x g)) = addr (g_at j g)"
proof (induction i g arbitrary: j rule: g_valid.induct)
  case (2 i a cs)
  then show ?case by (cases j) auto
qed simp

lemma distinct_g_at: "distinct (addrs g) \<Longrightarrow> g_valid i g \<Longrightarrow> distinct (addrs (g_at i g))"
proof (induction i g rule: g_valid.induct)
  case (2 i a cs)
  then have "last cs \<in> set cs" by simp
  with 2 show ?case by (auto simp: distinct_concat_iff)
qed simp

lemma g_at_distinct:
  assumes "distinct (addrs g)" "g_valid i g" "j < i"
  shows "addr (g_at j g) \<notin> set (addrs (g_at i g))"
  using assms
proof (induction i g arbitrary: j rule: g_valid.induct)
  case (2 i a cs)
  have "set (addrs (g_at i (last cs))) \<subseteq> (\<Union>c\<in>set cs. set (addrs c))"
    using 2 g_at_addrs [of i "last cs"] by (auto dest: last_in_set)
  moreover have "distinct (addrs (last cs))"
    using 2 by (auto simp: distinct_concat_iff)
  ultimately show ?case
    using 2 by (cases j) auto
qed simp

section \<open>Changing the memory\<close>

lemma nth_update_address [simp]:
  fixes a b :: u32
  shows "a \<noteq> b \<Longrightarrow> (m[unat b := d]) ! unat a = m ! unat a"
  by (rule nth_list_update_neq) (simp add: word_unat_eq_iff)

lemma nth_update_append_address:
  fixes a b :: u32
  shows "a \<noteq> b \<Longrightarrow> unat a < length m \<Longrightarrow> (m[unat b := d] @ xs) ! unat a = m ! unat a"
  by (simp add: nth_append)

lemma peers_append:
  "peers m p (cs @ [c]) \<longleftrightarrow> peers m p cs \<and>
    previous_peer_address (m ! unat (addr c)) = (if cs = [] then p else addr (last cs))"
  by (induction m p cs rule: peers.induct) auto

lemma peers_cong:
  "(\<And>c. c \<in> set cs \<Longrightarrow> previous_peer_address (m' ! unat (addr c)) =
      previous_peer_address (m ! unat (addr c))) \<Longrightarrow> peers m' p cs = peers m p cs"
  by (induction m p cs rule: peers.induct) auto

lemma node_ok_cong:
  "(\<And>c. c \<in> set cs \<Longrightarrow> previous_peer_address (m' ! unat (addr c)) =
      previous_peer_address (m ! unat (addr c))) \<Longrightarrow> node_ok m' d cs = node_ok m d cs"
  using peers_cong [of cs m' m] by (auto simp: node_ok_def split: union_info.split)

definition same_on :: "expression_data list \<Rightarrow> expression_data list \<Rightarrow> u32 set \<Rightarrow> bool" where
  "same_on m m' A \<longleftrightarrow> length m \<le> length m' \<and> (\<forall>a\<in>A. m' ! unat a = m ! unat a)"

lemma same_on_wf: "same_on m m' (set (addrs g)) \<Longrightarrow> wf m g \<Longrightarrow> wf m' g \<and> ast_of m' g = ast_of m g"
proof (induction g rule: addrs.induct)
  case (1 a cs)
  have kids: "wf m' c \<and> ast_of m' c = ast_of m c" if "c \<in> set cs" for c
    using 1 that by (auto simp: same_on_def)
  have eq: "m' ! unat a = m ! unat a"
    using 1 by (simp add: same_on_def)
  have "m' ! unat (addr c) = m ! unat (addr c)" if "c \<in> set cs" for c
    using 1 that addr_in_addrs [of c] by (auto simp: same_on_def)
  then have "node_ok m' (m ! unat a) cs = node_ok m (m ! unat a) cs"
    by (intro node_ok_cong) simp
  with 1 kids eq show ?case
    by (auto simp: same_on_def split: union_info.split)
qed

definition set_last :: "u32 \<Rightarrow> expression_data \<Rightarrow> expression_data" where
  "set_last a d =
     (case info d of
        Info_operator ops \<Rightarrow> d\<lparr>info := Info_operator (ops\<lparr>last_child_address := a\<rparr>)\<rparr>
      | _ \<Rightarrow> d)"

lemma set_last_peer [simp]: "previous_peer_address (set_last a d) = previous_peer_address d"
  by (auto simp: set_last_def split: union_info.split)

text \<open>The ast of a node depends on its own data and the ast of its children.\<close>

definition ast_node :: "expression_data \<Rightarrow> ast list \<Rightarrow> ast" where
  "ast_node d xs =
     (case info d of
        Info_operator ops \<Rightarrow> Node (ed_rtt d) (priority ops) (right ops) (property ops) xs
      | Info_value v \<Rightarrow> Leaf (ed_rtt d) (value_start_index v) (value_size v)
      | No_info \<Rightarrow> Leaf (ed_rtt d) 0 0)"

lemma ast_of_node: "ast_of m (G a cs) = ast_node (m ! unat a) (map (ast_of m) cs)"
  by (simp add: ast_node_def split: union_info.split)

lemma ast_node_set_last [simp]: "ast_node (set_last a d) xs = ast_node d xs"
  by (auto simp: ast_node_def set_last_def split: union_info.split)

lemma node_ok_operator:
  "node_ok m d cs \<Longrightarrow> cs \<noteq> [] \<Longrightarrow> \<exists>ops. info d = Info_operator ops"
  by (auto simp: node_ok_def split: union_info.splits)

lemma node_ok_replace_last:
  assumes "node_ok m d (ds @ [c])"
    and "previous_peer_address (m' ! unat (addr c')) = previous_peer_address (m ! unat (addr c))"
    and "\<And>e. e \<in> set ds \<Longrightarrow> m' ! unat (addr e) = m ! unat (addr e)"
  shows "node_ok m' (set_last (addr c') d) (ds @ [c'])"
proof -
  have "peers m' p ds = peers m p ds" for p
    using assms(3) by (intro peers_cong) simp
  with assms show ?thesis
    by (auto simp: node_ok_def set_last_def last_addr_def peers_append split: union_info.splits)
qed

lemma set_last_same: "node_ok m d (ds @ [c]) \<Longrightarrow> set_last (addr c) d = d"
  by (auto simp: node_ok_def set_last_def last_addr_def split: union_info.splits)

text \<open>
  A subtree on the path of last children is exchanged: the new subtree is well formed in
  the new memory, starts where the old one's previous peer was, and outside the old subtree
  only its parent's link changed.
\<close>

lemma graft:
  assumes "wf m g" "distinct (addrs g)" "g_valid i g" "length m \<le> length m'"
    and x: "wf m' x" "distinct (addrs x)" "set (addrs x) \<subseteq> set (addrs (g_at i g)) \<union> N"
      "N \<inter> set (addrs g) = {}"
      "previous_peer_address (m' ! unat (addr x)) =
        previous_peer_address (m ! unat (addr (g_at i g)))"
    and out: "\<And>b. b \<in> set (addrs g) \<Longrightarrow> b \<notin> set (addrs (g_at i g)) \<Longrightarrow>
      m' ! unat b = (if 0 < i \<and> b = addr (g_at (i - 1) g) then set_last (addr x) (m ! unat b)
                     else m ! unat b)"
  shows "wf m' (g_set i x g) \<and> distinct (addrs (g_set i x g)) \<and>
    set (addrs (g_set i x g)) \<subseteq> set (addrs g) \<union> N \<and>
    ast_of m' (g_set i x g) = a_set i (ast_of m' x) (ast_of m g) \<and>
    previous_peer_address (m' ! unat (addr (g_set i x g))) =
      previous_peer_address (m ! unat (addr g)) \<and>
    (0 < i \<longrightarrow> addr (g_set i x g) = addr g)"
  using assms
proof (induction i arbitrary: g)
  case (Suc i)
  obtain a cs where g: "g = G a cs" by (cases g)
  with Suc.prems(3) obtain ds c where cs: "cs = ds @ [c]"
    by (cases cs rule: rev_cases) auto
  let ?c = "g_set i x c"
  have at: "g_at (Suc i) g = g_at i c" and valid: "g_valid i c"
    using Suc.prems(3) g cs by auto
  have parent: "g_at (Suc i - 1) g = (if i = 0 then g else g_at (i - 1) c)"
    using g cs by (cases i) auto
  have dist: "a \<notin> set (addrs e)" if "e \<in> set cs" for e
    using Suc.prems(2) g that by auto
  have dist_c: "distinct (addrs c)" "set (addrs e) \<inter> set (addrs c) = {}" if "e \<in> set ds" for e
    using Suc.prems(2) g cs that by auto
  have dc: "distinct (addrs c)"
    using Suc.prems(2) g cs by auto
  have sub: "set (addrs (g_at i c)) \<subseteq> set (addrs c)"
    using valid by (rule g_at_addrs)
  have in_c: "g_at (i - 1) c \<noteq> g \<and> addr (g_at (i - 1) c) \<in> set (addrs c)" if "0 < i"
  proof -
    have "g_valid (i - 1) c" using valid by (rule g_valid_mono) simp
    then have "addr (g_at (i - 1) c) \<in> set (addrs c)"
      using g_at_addrs addr_in_addrs by blast
    then show ?thesis using dist [of c] g cs by auto
  qed
  have IH: "wf m' ?c \<and> distinct (addrs ?c) \<and> set (addrs ?c) \<subseteq> set (addrs c) \<union> N \<and>
      ast_of m' ?c = a_set i (ast_of m' x) (ast_of m c) \<and>
      previous_peer_address (m' ! unat (addr ?c)) = previous_peer_address (m ! unat (addr c)) \<and>
      (0 < i \<longrightarrow> addr ?c = addr c)"
  proof (rule Suc.IH)
    fix b assume b: "b \<in> set (addrs c)" "b \<notin> set (addrs (g_at i c))"
    have "b \<noteq> a" using b dist [of c] cs by auto
    with b Suc.prems(10) [of b] g cs parent at show "m' ! unat b =
        (if 0 < i \<and> b = addr (g_at (i - 1) c) then set_last (addr x) (m ! unat b) else m ! unat b)"
      by (auto split: if_splits)
  qed (use Suc.prems g cs at valid dc in auto)
  have out_ds: "m' ! unat b = m ! unat b" if "b \<in> set (addrs e)" "e \<in> set ds" for b e
  proof -
    have "b \<notin> set (addrs c)" "b \<noteq> a"
      using dist_c(2) [OF that(2)] that dist [of e] cs by auto
    moreover have "b \<noteq> addr (g_at (Suc i - 1) g)"
      using calculation in_c parent g by (cases "i = 0") auto
    ultimately show ?thesis
      using Suc.prems(10) [of b] that g cs at sub by auto
  qed
  then have ds: "wf m' e \<and> ast_of m' e = ast_of m e" if "e \<in> set ds" for e
    using that Suc.prems(1,4) g cs by (intro same_on_wf) (auto simp: same_on_def)
  have ok: "node_ok m (m ! unat a) (ds @ [c])"
    using Suc.prems(1) g cs by simp
  have a: "m' ! unat a = set_last (addr ?c) (m ! unat a)"
  proof -
    have "a \<notin> set (addrs (g_at i c))" using dist [of c] sub cs by auto
    then have "m' ! unat a = (if a = addr (g_at (Suc i - 1) g)
        then set_last (addr x) (m ! unat a) else m ! unat a)"
      using Suc.prems(10) [of a] g at by simp
    moreover have "addr (g_at (i - 1) c) \<noteq> a" if "0 < i"
      using in_c [OF that] dist [of c] cs by auto
    ultimately show ?thesis
      using IH parent g set_last_same [OF ok] by (cases "i = 0") auto
  qed
  have new: "g_set (Suc i) x g = G a (ds @ [?c])"
    using g cs by simp
  have "node_ok m' (m' ! unat a) (ds @ [?c])"
    unfolding a using IH out_ds addr_in_addrs by (intro node_ok_replace_last [OF ok]) blast+
  moreover have "unat a < length m'"
    using Suc.prems(1,4) g by simp
  ultimately have "wf m' (g_set (Suc i) x g)"
    using IH ds new by auto
  moreover have "(\<Union>e\<in>set ds. set (addrs e)) \<inter> set (addrs ?c) = {}"
    using IH dist_c(2) Suc.prems(8) g cs by fastforce
  moreover have "a \<notin> set (addrs ?c)" "a \<notin> (\<Union>e\<in>set ds. set (addrs e))"
    using IH dist Suc.prems(8) g cs by auto
  moreover have "distinct (concat (map addrs ds))"
    using Suc.prems(2) g cs by simp
  moreover have "ast_of m' (g_set (Suc i) x g) = a_set (Suc i) (ast_of m' x) (ast_of m g)"
  proof -
    obtain ops where "info (m ! unat a) = Info_operator ops"
      using node_ok_operator [OF ok] by auto
    moreover have "map (ast_of m') ds = map (ast_of m) ds"
      using ds by simp
    ultimately show ?thesis
      using IH g cs unfolding new ast_of_node a ast_node_set_last
      by (simp add: ast_node_def)
  qed
  moreover have "previous_peer_address (m' ! unat a) = previous_peer_address (m ! unat a)"
    unfolding a by simp
  ultimately show ?case
    using IH g cs new by auto
qed auto

section \<open>Trees that have a layout\<close>

definition layout :: "expression_tree \<Rightarrow> gtree \<Rightarrow> nat \<Rightarrow> bool" where
  "layout t g d \<longleftrightarrow> wf (memory t) g \<and> distinct (addrs g) \<and> 0 < d \<and> g_valid (d - 1) g \<and>
     node_address t = spine d g"

fun a_complete :: "ast \<Rightarrow> bool" where
  "a_complete (Leaf r s n) = True"
| "a_complete (Node r p ri pr cs) = (ri = 0 \<and> property_final (ucast pr))"

fun a_rtt :: "ast \<Rightarrow> u8" where
  "a_rtt (Leaf r s n) = r"
| "a_rtt (Node r p ri pr cs) = r"

definition node_of :: "expression_tree \<Rightarrow> gtree \<Rightarrow> nat \<Rightarrow> expression_data" where
  "node_of t g i = memory t ! unat (addr (g_at i g))"

lemma layout_memory: "layout t g d \<Longrightarrow> memory t \<noteq> []"
  using wf_addr [of "memory t" g] by (auto simp: layout_def)

lemma layout_length [simp]: "layout t g d \<Longrightarrow> length (node_address t) = d"
  by (simp add: layout_def spine_valid)

lemma layout_not_empty [simp]: "layout t g d \<Longrightarrow> \<not> tree_empty t"
  using layout_memory [of t g d] layout_length [of t g d]
  by (auto simp: tree_empty_def layout_def)

lemma layout_valid: "layout t g d \<Longrightarrow> i < d \<Longrightarrow> g_valid i g"
  by (auto simp: layout_def intro: g_valid_mono)

lemma layout_nth: "layout t g d \<Longrightarrow> i < d \<Longrightarrow> node_address t ! i = addr (g_at i g)"
  using layout_valid [of t g d i] layout_length [of t g d]
  by (simp add: layout_def spine_nth)

lemma layout_fetch: "layout t g d \<Longrightarrow> i < d \<Longrightarrow> fetch (node_address t) i = Some (addr (g_at i g))"
  by (simp add: fetch_def layout_nth)

lemma layout_in_memory: "layout t g d \<Longrightarrow> i < d \<Longrightarrow> unat (addr (g_at i g)) < length (memory t)"
  using wf_g_at [of "memory t" g i] layout_valid [of t g d i] by (auto simp: layout_def dest: wf_addr)

lemma layout_item2 [simp]: "layout t g d \<Longrightarrow> i < d \<Longrightarrow> tree_item2 t i = Some (node_of t g i)"
  using layout_in_memory [of t g d i]
  by (simp add: tree_item2_def layout_fetch node_of_def) (simp add: fetch_def)

lemma layout_last: "layout t g d \<Longrightarrow> last (node_address t) = addr (g_at (d - 1) g)"
proof -
  assume lay: "layout t g d"
  then have "0 < d" "node_address t \<noteq> []"
    using layout_length [OF lay] by (auto simp: layout_def)
  then show ?thesis
    using layout_nth [OF lay, of "d - 1"] layout_length [OF lay] by (simp add: last_conv_nth)
qed

lemma layout_item: "layout t g d \<Longrightarrow> tree_item t = Some (node_of t g (d - 1))"
  using layout_in_memory [of t g d "d - 1"] layout_last [of t g d] layout_not_empty [of t g d]
  by (cases "0 < d") (simp_all add: tree_item_def node_of_def fetch_def, simp add: layout_def)

lemma layout_node_ok: "layout t g d \<Longrightarrow> i < d \<Longrightarrow> node_ok (memory t) (node_of t g i) (kids (g_at i g))"
  using wf_g_at [of "memory t" g i] layout_valid [of t g d i]
  by (cases "g_at i g") (auto simp: layout_def node_of_def)

lemma ast_of_g_at: "wf m g \<Longrightarrow> g_valid i g \<Longrightarrow> a_at i (ast_of m g) = ast_of m (g_at i g)"
proof (induction i g rule: g_valid.induct)
  case (2 i a cs)
  then have "\<exists>ops. info (m ! unat a) = Info_operator ops"
    by (auto dest: node_ok_operator)
  with 2 show ?case by (auto simp: last_map)
qed simp

lemma layout_ast: "layout t g d \<Longrightarrow> i < d \<Longrightarrow>
    a_at i (ast_of (memory t) g) = ast_node (node_of t g i) (map (ast_of (memory t)) (kids (g_at i g)))"
  using layout_valid [of t g d i]
  by (cases "g_at i g") (simp add: layout_def ast_of_g_at ast_of_node node_of_def del: ast_of.simps)

lemma node_ok_complete: "node_ok m d cs \<Longrightarrow> complete d = Some (a_complete (ast_node d xs))"
  by (auto simp: node_ok_def complete_def ast_node_def info_operator_def split: union_info.splits)

lemma node_ok_cases:
  assumes "node_ok m d cs"
  obtains (op) ops where "info d = Info_operator ops" "\<not> union_is_value d" "info_operator d = Some ops"
      "unat (children_count ops) = length cs" "last_child_address ops = last_addr cs"
      "peers m (-1) cs"
  | (val) v where "info d = Info_value v" "union_is_value d" "cs = []"
  using assms by (auto simp: node_ok_def info_operator_def split: union_info.splits)

lemma layout_new_address:
  assumes "layout t g d" "length (memory t) < 2 ^ 32"
  shows "unat (of_nat (length (memory t)) :: u32) = length (memory t)"
    "(of_nat (length (memory t)) :: u32) \<notin> set (addrs g)"
proof -
  show n: "unat (of_nat (length (memory t)) :: u32) = length (memory t)"
    using assms(2) by (simp add: unat_of_nat)
  then show "(of_nat (length (memory t)) :: u32) \<notin> set (addrs g)"
    using assms(1) wf_addrs [of "memory t" g] by (force simp: layout_def)
qed

lemma layout_distinct_at:
  "layout t g d \<Longrightarrow> i < d \<Longrightarrow> j < d \<Longrightarrow> addr (g_at i g) = addr (g_at j g) \<Longrightarrow> i = j"
proof (rule ccontr)
  assume lay: "layout t g d" and ij: "i < d" "j < d" "addr (g_at i g) = addr (g_at j g)" "i \<noteq> j"
  have "addr (g_at i g) \<notin> set (addrs (g_at j g))" if "i < j"
    using g_at_distinct [of g j i] lay layout_valid [OF lay ij(2)] that by (simp add: layout_def)
  moreover have "addr (g_at j g) \<notin> set (addrs (g_at i g))" if "j < i"
    using g_at_distinct [of g i j] lay layout_valid [OF lay ij(1)] that by (simp add: layout_def)
  ultimately show False
    using ij addr_in_addrs [of "g_at i g"] addr_in_addrs [of "g_at j g"] by (cases "i < j") auto
qed

lemma layout_point_to:
  assumes lay: "layout t g d" and i: "i < d"
  shows "\<exists>t'. point_to i t = Some t' \<and> t' = t\<lparr>node_address := spine (i + 1) g\<rparr> \<and> layout t' g (i + 1)"
proof -
  have "layout (t\<lparr>node_address := spine (i + 1) g\<rparr>) g (i + 1)"
    using lay layout_valid [OF lay i] by (simp add: layout_def)
  moreover have "take (i + 1) (node_address t) = spine (i + 1) g"
    using lay i by (simp add: layout_def take_spine min_def)
  moreover have "last (node_address t) = addr (g_at i g) \<longleftrightarrow> i = d - 1"
    using layout_distinct_at [OF lay, of "d - 1" i] layout_last [OF lay] i by auto
  moreover have "t = t\<lparr>node_address := spine (i + 1) g\<rparr>" if "i = d - 1"
    using lay that i by (simp add: layout_def)
  ultimately show ?thesis
    using lay i by (auto simp: point_to_def layout_fetch)
qed

section \<open>Placing a token, on syntax trees\<close>

text \<open>An operator to place is given by its tag, priority, right and property.\<close>

type_synonym operator = "u8 \<times> u8 \<times> u32 \<times> u8"

fun a_stop_scan :: "ast \<Rightarrow> operator option \<Rightarrow> nat \<Rightarrow> nat option" where
  "a_stop_scan x act 0 = None"
| "a_stop_scan x act (Suc i) =
     (if \<not> a_complete (a_at i x) then Some i
      else case act of
             None \<Rightarrow> a_stop_scan x act i
           | Some (rtt, prio, ri, pr) \<Rightarrow>
               (case a_at i x of
                  Leaf _ _ _ \<Rightarrow> a_stop_scan x act i
                | Node _ p _ _ _ \<Rightarrow> if p < prio then Some i else a_stop_scan x act i))"

fun a_same_scan :: "ast \<Rightarrow> u8 \<Rightarrow> nat \<Rightarrow> nat \<Rightarrow> nat" where
  "a_same_scan x rtt i 0 = i"
| "a_same_scan x rtt i (Suc j) =
     (if \<not> a_complete (a_at j x) then (if a_rtt (a_at j x) = rtt then j else i)
      else a_same_scan x rtt i j)"

fun a_fixes :: "operator \<Rightarrow> ast \<Rightarrow> bool" where
  "a_fixes (rtt, prio, ri, pr) (Leaf _ _ _) = False"
| "a_fixes (rtt, prio, ri, pr) (Node r _ _ p _) = (r = rtt \<and> property_check (ucast p) (ucast pr))"

fun a_fix :: "operator \<Rightarrow> ast \<Rightarrow> ast" where
  "a_fix (rtt, prio, ri, pr) (Node r p _ q cs) = Node r p ri (ucast ((ucast pr :: usize) div ucast q)) cs"
| "a_fix _ x = x"

definition a_insert :: "operator \<Rightarrow> ast \<Rightarrow> ast" where
  "a_insert a x = (case a of (rtt, prio, ri, pr) \<Rightarrow> Node rtt prio ri pr [x])"

fun a_append :: "ast \<Rightarrow> ast \<Rightarrow> ast" where
  "a_append y (Node r p ri pr cs) = Node r p (ri - 1) pr (cs @ [y])"
| "a_append y x = x"

definition a_place :: "operator \<Rightarrow> nat \<Rightarrow> ast \<Rightarrow> nat \<Rightarrow> bool \<times> ast \<times> nat" where
  "a_place a i x d =
     (if a_fixes a (a_at i x) then (True, a_set i (a_fix a (a_at i x)) x, i + 1)
      else if a_complete (a_at i x) then (True, a_set i (a_insert a (a_at i x)) x, i + 1)
      else (False, x, d))"

section \<open>Each operation, on layouts\<close>

lemma g_set_same: "g_valid i g \<Longrightarrow> g_set i (g_at i g) g = g"
  by (induction i g rule: g_valid.induct) auto

lemma layout_graft:
  assumes lay: "layout t g d" and i: "i < d"
    and "length (memory t) \<le> length m'" "wf m' x" "distinct (addrs x)"
      "set (addrs x) \<subseteq> set (addrs (g_at i g)) \<union> N" "N \<inter> set (addrs g) = {}"
      "previous_peer_address (m' ! unat (addr x)) = previous_peer_address (node_of t g i)"
    and "\<And>b. b \<in> set (addrs g) \<Longrightarrow> b \<notin> set (addrs (g_at i g)) \<Longrightarrow>
      m' ! unat b = (if 0 < i \<and> b = addr (g_at (i - 1) g) then set_last (addr x) (memory t ! unat b)
                     else memory t ! unat b)"
    and d': "d' = Suc i + e" "g_valid e x" "as = spine d' (g_set i x g)"
  shows "layout (t\<lparr>memory := m', node_address := as\<rparr>) (g_set i x g) d' \<and>
    ast_of m' (g_set i x g) = a_set i (ast_of m' x) (ast_of (memory t) g)"
proof -
  have valid: "g_valid i g" using lay i by (rule layout_valid)
  have "g_valid (i + e) (g_set i x g)"
    using valid d'(2) by (induction i g rule: g_valid.induct) auto
  moreover have "wf m' (g_set i x g) \<and> distinct (addrs (g_set i x g)) \<and>
      set (addrs (g_set i x g)) \<subseteq> set (addrs g) \<union> N \<and>
      ast_of m' (g_set i x g) = a_set i (ast_of m' x) (ast_of (memory t) g) \<and>
      previous_peer_address (m' ! unat (addr (g_set i x g))) =
        previous_peer_address (memory t ! unat (addr g)) \<and>
      (0 < i \<longrightarrow> addr (g_set i x g) = addr g)"
    using lay assms(3-9) by (intro graft [OF _ _ valid]) (auto simp: layout_def node_of_def)
  ultimately show ?thesis
    using d' by (simp add: layout_def)
qed

text \<open>The link of a parent on the path to its last child.\<close>

lemma layout_parent:
  assumes lay: "layout t g d" and i: "i < d" "0 < i"
  shows "set_last (addr (g_at i g)) (node_of t g (i - 1)) = node_of t g (i - 1)"
proof -
  obtain j where j: "i = Suc j" using i(2) by (cases i) auto
  obtain a cs where x: "g_at j g = G a cs" by (cases "g_at j g")
  have "g_valid (Suc j) g" using layout_valid [OF lay i(1)] j by simp
  then have "cs \<noteq> [] \<and> g_at (Suc j) g = last cs"
    using x by (induction j g rule: g_valid.induct) (auto simp: neq_Nil_conv)
  moreover have "node_ok (memory t) (node_of t g j) cs"
    using layout_node_ok [OF lay, of j] i j x by simp
  ultimately show ?thesis
    using set_last_same [of "memory t" "node_of t g j" "butlast cs" "last cs"] j by simp
qed

lemma layout_fix_same:
  assumes lay: "layout t g d" and last: "d = Suc i"
    and op: "info_operator (node_of t g i) = Some ops"
    and a: "info_operator a = Some aops" and p: "property ops \<noteq> 0"
  shows "\<exists>t'. fix_same a i t = Some t' \<and> layout t' g d \<and>
    expression_string t' = expression_string t \<and> length (memory t') = length (memory t) \<and>
    ast_of (memory t') g = a_set i (a_fix (ed_rtt a, priority aops, right aops, property aops)
      (a_at i (ast_of (memory t) g))) (ast_of (memory t) g)"
proof -
  have i: "i < d" using last by simp
  let ?x = "g_at i g" and ?u = "unat (addr (g_at i g))"
  let ?ops = "ops\<lparr>right := right aops,
    property := ucast ((ucast (property aops) :: usize) div ucast (property ops))\<rparr>"
  let ?d = "(node_of t g i)\<lparr>info := Info_operator ?ops\<rparr>"
  let ?m = "(memory t)[?u := ?d]"
  have u: "?u < length (memory t)" using lay i by (rule layout_in_memory)
  have p0: "(ucast (property ops) :: usize) \<noteq> 0"
    using p by simp
  have fixed: "fix_same a i t = Some (t\<lparr>memory := ?m\<rparr>)"
    using lay i a op u p0
    by (simp add: fix_same_def layout_nth property_combine_def tree_update_def map_operator_def
        fetch_def node_of_def)
  have valid: "g_valid i g" using lay i by (rule layout_valid)
  have wfx: "wf (memory t) ?x" "distinct (addrs ?x)"
    using lay valid wf_g_at distinct_g_at by (auto simp: layout_def)
  obtain b cs where x: "?x = G b cs" by (cases ?x)
  have ok: "node_ok (memory t) (node_of t g i) cs"
    using layout_node_ok [OF lay i] x by simp
  have info: "info (node_of t g i) = Info_operator ops"
    using op by (auto simp: info_operator_def split: union_info.splits)
  have kid: "wf ?m c \<and> ast_of ?m c = ast_of (memory t) c" if "c \<in> set cs" for c
  proof (rule same_on_wf)
    have "b \<notin> set (addrs c)" using wfx(2) x that by auto
    then show "same_on (memory t) ?m (set (addrs c))"
      using x by (auto simp: same_on_def intro!: nth_update_address)
  qed (use wfx x that in simp)
  have "previous_peer_address (?m ! unat (addr c)) = previous_peer_address (memory t ! unat (addr c))"
    for c using u by (cases "addr c = addr (g_at i g)") (simp_all add: node_of_def)
  then have "node_ok ?m ?d cs = node_ok (memory t) ?d cs"
    by (intro node_ok_cong) simp
  then have "node_ok ?m ?d cs"
    using ok info by (auto simp: node_ok_def)
  then have "wf ?m ?x"
    using u x kid by simp
  moreover have "?m ! unat b' = (if 0 < i \<and> b' = addr (g_at (i - 1) g)
      then set_last (addr ?x) (memory t ! unat b') else memory t ! unat b')"
    if "b' \<notin> set (addrs ?x)" for b'
  proof -
    have "b' \<noteq> addr ?x" using that by auto
    then have "?m ! unat b' = memory t ! unat b'" by (rule nth_update_address)
    with layout_parent [OF lay i] show ?thesis by (auto simp: node_of_def)
  qed
  ultimately have "layout (t\<lparr>memory := ?m, node_address := node_address t\<rparr>) (g_set i ?x g) d \<and>
      ast_of ?m (g_set i ?x g) = a_set i (ast_of ?m ?x) (ast_of (memory t) g)"
    using lay last wfx u valid
    by (intro layout_graft [OF lay i, where N = "{}" and e = 0]) (simp_all add: g_set_same layout_def)
  moreover have "ast_of ?m ?x = a_fix (ed_rtt a, priority aops, right aops, property aops)
      (a_at i (ast_of (memory t) g))"
    using x u info kid layout_ast [OF lay i] by (simp add: ast_node_def cong: map_cong)
  ultimately show ?thesis
    using fixed valid by (auto simp: g_set_same)
qed

lemma wf_update_root:
  assumes "wf m (G b cs)" "distinct (addrs (G b cs))" "length m \<le> length m'"
    and out: "\<And>c a. c \<in> set cs \<Longrightarrow> a \<in> set (addrs c) \<Longrightarrow> m' ! unat a = m ! unat a"
    and "node_ok m (m' ! unat b) cs"
  shows "wf m' (G b cs) \<and> ast_of m' (G b cs) = ast_node (m' ! unat b) (map (ast_of m) cs)"
proof -
  have kid: "wf m' c \<and> ast_of m' c = ast_of m c" if "c \<in> set cs" for c
    using assms(1,3) out that by (intro same_on_wf) (auto simp: same_on_def)
  have "node_ok m' (m' ! unat b) cs = node_ok m (m' ! unat b) cs"
    using out addr_in_addrs by (intro node_ok_cong) metis
  with assms kid show ?thesis
    by (simp add: ast_of_node del: ast_of.simps cong: map_cong)
qed

lemma map_operator_set_last:
  "info d = Info_operator ops \<Longrightarrow>
   map_operator (\<lambda>ops. ops\<lparr>last_child_address := a\<rparr>) d = Some (set_last a d)"
  by (simp add: map_operator_def info_operator_def set_last_def)

lemma layout_insert:
  assumes lay: "layout t g (Suc i)" and room: "length (memory t) < 2 ^ 32"
  shows "\<exists>t' g'. insert_operator (expression_data_operator rtt prio ri pr) i t = Some t' \<and>
    layout t' g' (Suc i) \<and> expression_string t' = expression_string t \<and>
    length (memory t') = Suc (length (memory t)) \<and>
    ast_of (memory t') g' = a_set i (a_insert (rtt, prio, ri, pr) (a_at i (ast_of (memory t) g)))
      (ast_of (memory t) g)"
proof -
  let ?x = "g_at i g" and ?a = "addr (g_at i g)" and ?p = "addr (g_at (i - 1) g)"
  let ?n = "of_nat (length (memory t)) :: u32"
  let ?d = "node_of t g i"
  let ?m1 = "(memory t)[unat ?a := ?d\<lparr>previous_peer_address := -1\<rparr>]"
  let ?m2 = "if i \<noteq> 0 then ?m1[unat ?p := set_last ?n (memory t ! unat ?p)] else ?m1"
  let ?new = "(expression_data_operator rtt prio ri pr)\<lparr>previous_peer_address := previous_peer_address ?d,
    info := Info_operator \<lparr>priority = prio, right = ri, property = pr, children_count = 1,
      last_child_address = ?a\<rparr>\<rparr>"
  let ?m = "?m2 @ [?new]"
  let ?g = "g_set i (G ?n [?x]) g"
  have valid: "g_valid i g" using layout_valid [OF lay] by simp
  have u: "unat ?a < length (memory t)" using layout_in_memory [OF lay, of i] by simp
  have n: "unat ?n = length (memory t)" "?n \<notin> set (addrs g)"
    using layout_new_address [OF lay room] by auto
  have pa: "?p \<noteq> ?a" "unat ?p < length (memory t)"
    "\<exists>ops. info (memory t ! unat ?p) = Info_operator ops" if "i \<noteq> 0"
  proof -
    have j: "i - 1 < Suc i" "i - 1 < i" using that by auto
    show "?p \<noteq> ?a" using layout_distinct_at [OF lay j(1), of i] that by auto
    show "unat ?p < length (memory t)" using lay j(1) by (rule layout_in_memory)
    have "kids (g_at (i - 1) g) \<noteq> []"
      using valid that by (induction i g rule: g_valid.induct) (auto simp: less_Suc_eq_0_disj split: nat.splits, case_tac i, auto)
    then show "\<exists>ops. info (memory t ! unat ?p) = Info_operator ops"
      using layout_node_ok [OF lay j(1)] by (auto simp: node_of_def dest: node_ok_operator)
  qed
  have xs: "set (addrs ?x) \<subseteq> set (addrs g)" using valid by (rule g_at_addrs)
  have p_out: "?p \<notin> set (addrs ?x)" if "i \<noteq> 0"
    using g_at_distinct [OF _ valid, of "i - 1"] lay that by (simp add: layout_def)
  have ins: "insert_operator (expression_data_operator rtt prio ri pr) i t =
      Some (t\<lparr>memory := ?m, node_address := (node_address t)[i := ?n]\<rparr>)"
  proof -
    have f: "fetch (node_address t) i = Some ?a" "tree_item t = Some ?d" "last (node_address t) = ?a"
      using layout_fetch [OF lay] layout_item [OF lay] layout_last [OF lay] by simp_all
    have a: "map_operator (\<lambda>ops. ops\<lparr>last_child_address := ?a, children_count := children_count ops + 1\<rparr>)
        (expression_data_operator rtt prio ri pr) =
      Some ((expression_data_operator rtt prio ri pr)\<lparr>info := Info_operator \<lparr>priority = prio, right = ri,
        property = pr, children_count = 1, last_child_address = ?a\<rparr>\<rparr>)"
      by (simp add: map_operator_def info_operator_def expression_data_operator_def)
    have up1: "tree_update ?a (\<lambda>d. Some (d\<lparr>previous_peer_address := -1\<rparr>)) t = Some (t\<lparr>memory := ?m1\<rparr>)"
      using u by (simp add: tree_update_def fetch_def node_of_def)
    have up2: "tree_update ?p (map_operator (\<lambda>ops. ops\<lparr>last_child_address := ?n\<rparr>))
        (t\<lparr>memory := ?m1, node_address := (node_address t)[i := ?n]\<rparr>) =
      Some (t\<lparr>memory := ?m2, node_address := (node_address t)[i := ?n]\<rparr>)" if "i \<noteq> 0"
      using pa [OF that] that map_operator_set_last [of "memory t ! unat ?p" _ ?n]
      by (auto simp: tree_update_def fetch_def)
    have par: "fetch ((node_address t)[i := ?n]) (i - 1) = Some ?p" if "i \<noteq> 0"
      using layout_nth [OF lay, of "i - 1"] layout_length [OF lay] that by (simp add: fetch_def)
    show ?thesis
    proof (cases "i = 0")
      case True
      then show ?thesis
        using f a up1 by (simp add: insert_operator_def Let_def)
    next
      case False
      show ?thesis
        unfolding insert_operator_def Let_def f a bind.bind_lunit up1
        using False up2 [OF False] par [OF False] by simp
    qed
  qed
  define m where "m = ?m"
  have new: "m ! unat ?n = ?new" using n by (simp add: m_def nth_append)
  have len: "length m = Suc (length (memory t))" by (simp add: m_def)
  have m_a: "m ! unat ?a = ?d\<lparr>previous_peer_address := -1\<rparr>"
    using u pa by (auto simp: m_def nth_append)
  have m_out: "m ! unat b = memory t ! unat b"
    if "unat b < length (memory t)" "b \<noteq> ?a" "i = 0 \<or> b \<noteq> ?p" for b
    using that by (auto simp: m_def nth_append)
  have m_p: "m ! unat ?p = set_last ?n (memory t ! unat ?p)" if "i \<noteq> 0"
    using pa [OF that] that by (auto simp: m_def nth_append)
  obtain b cs where x: "?x = G b cs" by (cases ?x)
  have wx: "wf (memory t) ?x" "distinct (addrs ?x)"
    using lay valid wf_g_at distinct_g_at by (auto simp: layout_def)
  have ok: "node_ok (memory t) ?d cs" using layout_node_ok [OF lay, of i] x by simp
  have in_m: "unat c < length (memory t)" if "c \<in> set (addrs ?x)" for c
    using wx(1) that by (rule wf_addrs)
  have wx': "wf m (G b cs) \<and> ast_of m (G b cs) = ast_node (m ! unat b) (map (ast_of (memory t)) cs)"
  proof (rule wf_update_root)
    fix c e assume "c \<in> set cs" "e \<in> set (addrs c)"
    then show "m ! unat e = memory t ! unat e"
      using wx x p_out in_m by (intro m_out) auto
  next
    show "node_ok (memory t) (m ! unat b) cs"
      using m_a ok x by (auto simp: node_ok_def split: union_info.splits)
  qed (use wx x len in auto)
  have wfx: "wf m ?x"
    using wx' unfolding x by blast
  have wn: "wf m (G ?n [?x])"
    using wfx n new m_a len by (simp add: node_ok_def last_addr_def expression_data_operator_def)
  have path: "(node_address t)[i := ?n] = spine (Suc i) ?g"
  proof (rule nth_equalityI)
    have "g_valid i ?g" using valid by (rule g_set_valid)
    then have len: "length (spine (Suc i) ?g) = Suc i" by (simp add: spine_valid)
    then show "length ((node_address t)[i := ?n]) = length (spine (Suc i) ?g)"
      using layout_length [OF lay] by simp
    fix j assume "j < length ((node_address t)[i := ?n])"
    then have j: "j < Suc i" using layout_length [OF lay] by simp
    then have "spine (Suc i) ?g ! j = addr (g_at j ?g)"
      using len \<open>g_valid i ?g\<close> g_valid_mono [of i ?g j] by (intro spine_nth) auto
    also have "\<dots> = (if j = i then ?n else addr (g_at j g))"
      using j valid by (simp add: g_at_set g_at_set_less)
    finally show "(node_address t)[i := ?n] ! j = spine (Suc i) ?g ! j"
      using j layout_nth [OF lay, of j] layout_length [OF lay] by (simp add: nth_list_update)
  qed
  have "layout (t\<lparr>memory := m, node_address := (node_address t)[i := ?n]\<rparr>) ?g (Suc i) \<and>
      ast_of m ?g = a_set i (ast_of m (G ?n [?x])) (ast_of (memory t) g)"
  proof (rule layout_graft [OF lay, where N = "{?n}" and e = 0])
    fix b' assume b': "b' \<in> set (addrs g)" "b' \<notin> set (addrs ?x)"
    have "unat b' < length (memory t)" using lay b'(1) wf_addrs by (auto simp: layout_def)
    moreover have "b' \<noteq> ?a" using b'(2) by auto
    ultimately show "m ! unat b' = (if 0 < i \<and> b' = addr (g_at (i - 1) g)
        then set_last (addr (G ?n [?x])) (memory t ! unat b') else memory t ! unat b')"
      using m_out [of b'] m_p by (cases "i = 0"; cases "b' = ?p") auto
  qed (use wn wx n xs new path len in auto)
  moreover have "ast_of m (G ?n [?x]) =
      a_insert (rtt, prio, ri, pr) (a_at i (ast_of (memory t) g))"
  proof -
    have "ast_of m ?x = a_at i (ast_of (memory t) g)"
      using wx' m_a x layout_ast [OF lay, of i]
      by (simp add: ast_node_def split: union_info.split)
    then show ?thesis
      using new by (simp add: ast_of_node a_insert_def ast_node_def expression_data_operator_def
          del: ast_of.simps)
  qed
  ultimately show ?thesis
    using ins [folded m_def] len
    by (intro exI [of _ "t\<lparr>memory := m, node_address := (node_address t)[i := ?n]\<rparr>"] exI [of _ ?g])
       simp
qed

lemma spine_g_set: "g_valid i g \<Longrightarrow> spine (i + e) (g_set i x g) = spine i g @ spine e x"
  by (induction i g rule: g_valid.induct) auto

lemma spine_snoc: "g_valid i g \<Longrightarrow> spine (Suc i) g = spine i g @ [addr (g_at i g)]"
proof (induction i g rule: g_valid.induct)
  case (1 g)
  then show ?case by (cases g) auto
qed auto

lemma g_at_kids: "g_valid i g \<Longrightarrow> g_valid (Suc i) g \<longleftrightarrow> kids (g_at i g) \<noteq> []"
proof (induction i g rule: g_valid.induct)
  case (1 g)
  then show ?case by (cases g) auto
qed auto

text \<open>A token, the node data the lexers make of it, and the tree it stands for when
  \<open>n\<close> characters were parsed before it.\<close>

datatype token = Tvalue u8 u32 | Toper operator

fun data_of :: "token \<Rightarrow> expression_data" where
  "data_of (Tvalue rtt n) = expression_data_value rtt n"
| "data_of (Toper (rtt, prio, ri, pr)) = expression_data_operator rtt prio ri pr"

fun a_token :: "nat \<Rightarrow> token \<Rightarrow> ast" where
  "a_token n (Tvalue rtt k) = Leaf rtt (of_nat n) k"
| "a_token n (Toper (rtt, prio, ri, pr)) = Node rtt prio ri pr []"

lemma stamp_data_of:
  "\<exists>d. stamp n (data_of tok) = Some d \<and> previous_peer_address d = -1 \<and>
     (\<forall>m p. node_ok m (d\<lparr>previous_peer_address := p\<rparr>) []) \<and>
     (\<forall>p. ast_node (d\<lparr>previous_peer_address := p\<rparr>) [] = a_token n tok)"
  by (cases tok)
     (auto simp: stamp_def expression_data_value_def expression_data_operator_def info_value_def
       node_ok_def last_addr_def ast_node_def)

lemma kids_length: "length cs \<le> length (concat (map addrs cs))"
proof (induction cs)
  case (Cons c cs)
  then show ?case by (cases c) auto
qed simp

lemma layout_append:
  assumes lay0: "layout t0 g d" and i: "i < d" and room: "length (memory t0) < 2 ^ 32"
    and ops: "info_operator (node_of t0 g i) = Some ops" "\<not> union_is_value (node_of t0 g i)"
    and inc: "complete (node_of t0 g i) = Some False"
  shows "\<exists>t' g'. append_value (data_of tok) i t0 = Some t' \<and>
    layout t' g' (i + 2) \<and> expression_string t' = expression_string t0 \<and>
    length (memory t') = Suc (length (memory t0)) \<and>
    ast_of (memory t') g' = a_set i (a_append (a_token (length (expression_string t0)) tok)
      (a_at i (ast_of (memory t0) g))) (ast_of (memory t0) g)"
proof -
  obtain t where t: "point_to i t0 = Some t" "t = t0\<lparr>node_address := spine (i + 1) g\<rparr>"
      and lay: "layout t g (Suc i)"
    using layout_point_to [OF lay0 i] by auto
  have [simp]: "memory t = memory t0" "expression_string t = expression_string t0"
    using t by simp_all
  have at: "node_of t g i = node_of t0 g i" by (simp add: node_of_def)
  obtain d0 where d0: "stamp (length (expression_string t0)) (data_of tok) = Some d0"
      "\<And>m p. node_ok m (d0\<lparr>previous_peer_address := p\<rparr>) []"
      "\<And>p. ast_node (d0\<lparr>previous_peer_address := p\<rparr>) [] = a_token (length (expression_string t0)) tok"
    using stamp_data_of by metis
  let ?x = "g_at i g" and ?a = "addr (g_at i g)"
  let ?n = "of_nat (length (memory t0)) :: u32"
  let ?d = "node_of t0 g i"
  let ?ops1 = "ops\<lparr>last_child_address := ?n, children_count := children_count ops + 1\<rparr>"
  let ?d1 = "?d\<lparr>info := Info_operator ?ops1\<rparr>"
  let ?d2 = "?d\<lparr>info := Info_operator (?ops1\<lparr>right := right ops - 1\<rparr>)\<rparr>"
  let ?new = "d0\<lparr>previous_peer_address := last_child_address ops\<rparr>"
  define m where "m = (memory t0)[unat ?a := ?d2] @ [?new]"
  have valid: "g_valid i g" using layout_valid [OF lay] by simp
  have u: "unat ?a < length (memory t0)" using layout_in_memory [OF lay, of i] by simp
  have n: "unat ?n = length (memory t0)" "?n \<notin> set (addrs g)"
    using layout_new_address [OF lay0 room] by auto
  have app: "append_value (data_of tok) i t0 =
      Some (t0\<lparr>memory := m, node_address := spine (Suc i) g @ [?n]\<rparr>)"
  proof -
    have f: "tree_item2 t0 i = Some ?d" "tree_item t = Some ?d" "last (node_address t) = ?a"
      using layout_item2 [OF lay0 i] layout_item [OF lay] layout_last [OF lay] at by simp_all
    have up1: "tree_update ?a (map_operator (\<lambda>ops. ops\<lparr>last_child_address := ?n,
        children_count := children_count ops + 1\<rparr>)) t = Some (t\<lparr>memory := (memory t0)[unat ?a := ?d1]\<rparr>)"
      using u ops(1) by (simp add: tree_update_def fetch_def map_operator_def node_of_def)
    have up2: "tree_update ?a (map_operator (\<lambda>ops. ops\<lparr>right := right ops - 1\<rparr>))
        (t\<lparr>node_address := node_address t @ [?n], memory := (memory t0)[unat ?a := ?d1] @ [?new]\<rparr>) =
      Some (t0\<lparr>memory := m, node_address := spine (Suc i) g @ [?n]\<rparr>)"
      using u t(2) by (simp add: tree_update_def fetch_def map_operator_def info_operator_def nth_append
          list_update_append m_def)
    have fi: "fetch (node_address t @ [?n]) i = Some ?a"
      using layout_nth [OF lay, of i] layout_length [OF lay] by (simp add: fetch_def nth_append)
    show ?thesis
      unfolding append_value_def Let_def f bind.bind_lunit inc t(1)
      using d0(1) up1 up2 fi ops(1) f by simp
  qed
  have new: "m ! unat ?n = ?new" using n by (simp add: m_def nth_append)
  have len: "length m = Suc (length (memory t0))" by (simp add: m_def)
  have m_a: "m ! unat ?a = ?d2" using u by (simp add: m_def nth_append)
  have m_out: "m ! unat b = memory t0 ! unat b" if "unat b < length (memory t0)" "b \<noteq> ?a" for b
    using that by (simp add: m_def nth_append)
  obtain b cs where x: "?x = G b cs" by (cases ?x)
  have wx: "wf (memory t0) ?x" "distinct (addrs ?x)"
    using lay valid wf_g_at distinct_g_at by (auto simp: layout_def)
  have ok: "node_ok (memory t0) ?d cs" using layout_node_ok [OF lay0 i] x by simp
  have info: "info ?d = Info_operator ops"
    using ops(1) by (auto simp: info_operator_def split: union_info.splits)
  have xs: "set (addrs ?x) \<subseteq> set (addrs g)" using valid by (rule g_at_addrs)
  have in_m: "unat c < length (memory t0)" if "c \<in> set (addrs ?x)" for c
    using wx(1) that by (rule wf_addrs)
  have m_kids: "m ! unat e = memory t0 ! unat e" if "c \<in> set cs" "e \<in> set (addrs c)" for c e
    using wx x in_m that by (intro m_out) auto
  have kid: "wf m c \<and> ast_of m c = ast_of (memory t0) c" if "c \<in> set cs" for c
    using wx(1) x that m_kids len by (intro same_on_wf) (auto simp: same_on_def)
  let ?y = "G b (cs @ [G ?n []])"
  have count: "unat (children_count ops + 1) = Suc (length cs)"
  proof -
    have "Suc (length cs) \<le> length (addrs ?x)"
      unfolding x using kids_length [of cs] by simp
    also have "\<dots> \<le> length (memory t0)" using wx by (rule wf_length)
    finally have "Suc (length cs) < 2 ^ 32" using room by simp
    moreover have "unat (children_count ops) = length cs"
      using ok info by (simp add: node_ok_def)
    ultimately show ?thesis by (simp add: unat_word_ariths)
  qed
  have "wf m ?y"
  proof -
    have "previous_peer_address (m ! unat (addr c)) = previous_peer_address (memory t0 ! unat (addr c))"
      if "c \<in> set cs" for c
      using m_kids [OF that addr_in_addrs] by simp
    then have "peers m p cs = peers (memory t0) p cs" for p by (rule peers_cong)
    then have "node_ok m ?d2 (cs @ [G ?n []])"
      using ok info ops(2) count new by (simp add: node_ok_def peers_append last_addr_def)
    moreover have "wf m (G ?n [])"
      using new len n d0(2) by simp
    ultimately show ?thesis
      using kid m_a len u x by auto
  qed
  moreover have "distinct (addrs ?y)" "set (addrs ?y) \<subseteq> set (addrs ?x) \<union> {?n}"
    using wx(2) x xs n(2) by auto
  moreover have "spine (Suc i) g @ [?n] = spine (i + 2) (g_set i ?y g)"
    using spine_g_set [OF valid, of 2 ?y] spine_snoc [OF valid] x by (simp add: numeral_2_eq_2)
  ultimately have "layout (t\<lparr>memory := m, node_address := spine (Suc i) g @ [?n]\<rparr>) (g_set i ?y g) (i + 2) \<and>
      ast_of m (g_set i ?y g) = a_set i (ast_of m ?y) (ast_of (memory t0) g)"
  proof (intro layout_graft [OF lay, where N = "{?n}" and e = 1, simplified], goal_cases)
    case (8 b')
    then have "m ! unat b' = memory t0 ! unat b'"
      using lay wf_addrs by (intro m_out) (auto simp: layout_def)
    then show ?case
      using layout_parent [OF lay, of i] x by (auto simp: node_of_def)
  qed (use len n m_a at x in auto)
  moreover have "ast_of m ?y = a_append (a_token (length (expression_string t0)) tok)
      (a_at i (ast_of (memory t0) g))"
    using m_a x info kid new n d0(3) layout_ast [OF lay0 i]
    by (simp add: ast_of_node ast_node_def del: ast_of.simps cong: map_cong)
  ultimately show ?thesis
    using app len t(2) by (intro exI [of _ "t0\<lparr>memory := m, node_address := spine (Suc i) g @ [?n]\<rparr>"]
      exI [of _ "g_set i ?y g"]) simp
qed

section \<open>The whole of parse_helper\<close>

fun a_right :: "ast \<Rightarrow> u32" where
  "a_right (Leaf r s n) = 0"
| "a_right (Node r p ri pr cs) = ri"

definition a_helper ::
  "operator option \<Rightarrow> nat \<Rightarrow> (ast \<times> nat) option \<Rightarrow> token \<Rightarrow> place_as \<Rightarrow> bool \<times> (ast \<times> nat) option" where
  "a_helper dflt n st tok place =
     (if place = E_discard then (True, st)
      else case st of
        None \<Rightarrow> if place = E_value then (True, Some (a_token n tok, 1)) else (False, None)
      | Some (x, d) \<Rightarrow>
          let act = (if place = E_operator
                     then (case tok of Toper a \<Rightarrow> Some a | Tvalue _ _ \<Rightarrow> None) else dflt);
              cur = a_stop_scan x act d;
              (ok, cur, x, d) =
                (case act of
                   None \<Rightarrow> (False, cur, x, d)
                 | Some a \<Rightarrow>
                     let i = (case cur of None \<Rightarrow> 0 | Some i \<Rightarrow> if i \<noteq> d - 1 then i + 1 else i);
                         i = a_same_scan x (fst a) i (i + 1);
                         (ok, x, d) = a_place a i x d
                     in (ok, Some i, x, d))
          in case cur of
               Some i \<Rightarrow>
                 if place = E_value \<and> 0 < a_right (a_at i x)
                 then (True, Some (a_set i (a_append (a_token n tok) (a_at i x)) x, i + 2))
                 else (ok, Some (x, d))
             | None \<Rightarrow> (ok, Some (x, d)))"

definition rep :: "expression_tree \<Rightarrow> (ast \<times> nat) option \<Rightarrow> bool" where
  "rep t st \<longleftrightarrow>
     (case st of
        None \<Rightarrow> memory t = [] \<and> node_address t = []
      | Some (x, d) \<Rightarrow> \<exists>g. layout t g d \<and> x = ast_of (memory t) g)"

abbreviation is_Node :: "ast \<Rightarrow> bool" where
  "is_Node x \<equiv> (\<exists>r p ri pr xs. x = Node r p ri pr xs)"

lemma layout_complete:
  "layout t g d \<Longrightarrow> i < d \<Longrightarrow>
    complete (node_of t g i) = Some (a_complete (a_at i (ast_of (memory t) g)))"
  using layout_node_ok [of t g d i] by (simp add: layout_ast node_ok_complete)

text \<open>What a node of the path is, in the memory and as a syntax tree.\<close>

lemma layout_node_cases:
  assumes "layout t g d" "i < d"
  obtains (op) ops xs where "info_operator (node_of t g i) = Some ops" "\<not> union_is_value (node_of t g i)"
      "a_at i (ast_of (memory t) g) =
        Node (ed_rtt (node_of t g i)) (priority ops) (right ops) (property ops) xs"
  | (val) s n where "union_is_value (node_of t g i)"
      "a_at i (ast_of (memory t) g) = Leaf (ed_rtt (node_of t g i)) s n"
  using layout_node_ok [OF assms] layout_ast [OF assms]
  by (cases rule: node_ok_cases) (auto simp: ast_node_def)

lemma data_of_operator [simp]:
  "info_operator (data_of (Toper (rtt, prio, ri, pr))) =
    Some \<lparr>priority = prio, right = ri, property = pr, children_count = 0, last_child_address = -1\<rparr>"
  "\<not> union_is_value (data_of (Toper a))"
  "ed_rtt (data_of (Toper a)) = fst a"
  by (cases a; simp add: expression_data_operator_def info_operator_def)+

declare data_of.simps(2) [simp del]

lemma stop_scan_refines:
  "layout t g d \<Longrightarrow> i \<le> d \<Longrightarrow>
    stop_scan t (map_option (\<lambda>a. data_of (Toper a)) act) i =
      Some (a_stop_scan (ast_of (memory t) g) act i)"
proof (induction i)
  case (Suc i)
  then have i: "i < d" by simp
  from Suc.prems(1) i show ?case
    by (rule layout_node_cases; cases act; use Suc i in \<open>auto simp: layout_complete simp del: a_complete.simps\<close>)
qed simp

lemma layout_rtt: "layout t g d \<Longrightarrow> i < d \<Longrightarrow> ed_rtt (node_of t g i) = a_rtt (a_at i (ast_of (memory t) g))"
  by (erule (1) layout_node_cases) auto

lemma same_scan_refines:
  "layout t g d \<Longrightarrow> j \<le> d \<Longrightarrow>
    same_scan t (data_of (Toper a)) i j = Some (a_same_scan (ast_of (memory t) g) (fst a) i j)"
  by (induction j) (auto simp: layout_complete layout_rtt)

lemma a_stop_scan_less: "a_stop_scan x act d = Some i \<Longrightarrow> i < d"
  by (induction d) (auto split: if_splits option.splits ast.splits intro: less_SucI)

lemma a_same_scan_le: "j \<le> Suc i \<Longrightarrow> a_same_scan x rtt i j \<le> i"
  by (induction j) auto

lemma a_stop_scan_None_act: "a_stop_scan x None d = Some i \<Longrightarrow> \<not> a_complete (a_at i x)"
  by (induction d) (auto split: if_splits)

lemma a_at_set: "wf m g \<Longrightarrow> g_valid i g \<Longrightarrow> a_at i (a_set i y (ast_of m g)) = y"
proof (induction i g rule: g_valid.induct)
  case (2 i a cs)
  then have "\<exists>ops. info (m ! unat a) = Info_operator ops"
    by (auto dest: node_ok_operator)
  with 2 show ?case by (auto simp: last_map)
qed simp

lemma property_check_nonzero: "property_check p q \<Longrightarrow> p \<noteq> 0"
  by (auto simp: property_check_def)

lemma place_operator_refines:
  assumes lay: "layout t g d" and i: "i < d" and room: "length (memory t) < 2 ^ 32"
  shows "\<exists>ok t' g' d'. place_operator (data_of (Toper a)) i t = Some (ok, t') \<and> layout t' g' d' \<and>
    a_place a i (ast_of (memory t) g) d = (ok, ast_of (memory t') g', d') \<and>
    length (memory t') \<le> Suc (length (memory t)) \<and> expression_string t' = expression_string t \<and>
    i < d' \<and> (\<not> ok \<longrightarrow> t' = t \<and> \<not> a_complete (a_at i (ast_of (memory t') g'))) \<and>
    (ok \<longrightarrow> is_Node (a_at i (ast_of (memory t') g')))"
proof -
  let ?x = "ast_of (memory t) g" and ?d = "node_of t g i"
  obtain rtt prio ri pr where a: "a = (rtt, prio, ri, pr)" by (cases a)
  have item: "tree_item2 t i = Some ?d" using lay i by (rule layout_item2)
  obtain t1 where t1: "point_to i t = Some t1" "t1 = t\<lparr>node_address := spine (i + 1) g\<rparr>"
      "layout t1 g (Suc i)"
    using layout_point_to [OF lay i] by auto
  have same: "memory t1 = memory t" "node_of t1 g i = ?d" "expression_string t1 = expression_string t"
    using t1(2) by (simp_all add: node_of_def)
  have compl: "complete ?d = Some (a_complete (a_at i ?x))"
    using lay i by (rule layout_complete)
  let ?fixes = "a_fixes a (a_at i ?x)"
  have fixcond: "(if ed_rtt ?d = ed_rtt (data_of (Toper a)) \<and> \<not> union_is_value ?d
      then do { ops \<leftarrow> info_operator ?d; aops \<leftarrow> info_operator (data_of (Toper a));
                Some (property_check (ucast (property ops)) (ucast (property aops))) }
      else Some False) = Some ?fixes"
    using lay i by (rule layout_node_cases) (auto simp: a)
  have place: "place_operator (data_of (Toper a)) i t =
      (if ?fixes \<or> a_complete (a_at i ?x)
       then do { t \<leftarrow> (if ?fixes then fix_same (data_of (Toper a)) i t1
                     else insert_operator (data_of (Toper a)) i t1); Some (True, t) }
       else Some (False, t))"
    unfolding place_operator_def item bind.bind_lunit fixcond compl t1(1)
    by simp
  consider (fixed) ?fixes | (insert) "\<not> ?fixes" "a_complete (a_at i ?x)"
    | (none) "\<not> ?fixes" "\<not> a_complete (a_at i ?x)" by blast
  then show ?thesis
  proof cases
    case fixed
    then obtain ops xs where ops: "info_operator ?d = Some ops" "\<not> union_is_value ?d" and
        at: "a_at i ?x = Node (ed_rtt ?d) (priority ops) (right ops) (property ops) xs"
      using lay i by (elim layout_node_cases [of t g d i]) (auto simp: a)
    have "property ops \<noteq> 0"
      using fixed by (auto simp: a at dest: property_check_nonzero)
    then obtain t2 where t2: "fix_same (data_of (Toper a)) i t1 = Some t2" "layout t2 g (Suc i)"
        "expression_string t2 = expression_string t1" "length (memory t2) = length (memory t1)"
        "ast_of (memory t2) g = a_set i (a_fix a (a_at i (ast_of (memory t1) g))) (ast_of (memory t1) g)"
      using layout_fix_same [OF t1(3) refl, of ops "data_of (Toper a)"] ops same a
      by (auto simp: data_of_operator)
    have "is_Node (a_at i (ast_of (memory t2) g))"
      using t2(5) at same a_at_set [OF _ layout_valid [OF lay i]] lay by (simp add: layout_def a)
    with t2 fixed place same show ?thesis
      by (intro exI [of _ True] exI [of _ t2] exI [of _ g] exI [of _ "Suc i"])
         (simp add: a_place_def del: a_fixes.simps a_fix.simps)
  next
    case insert
    obtain t2 g2 where t2: "insert_operator (data_of (Toper a)) i t1 = Some t2" "layout t2 g2 (Suc i)"
        "expression_string t2 = expression_string t1" "length (memory t2) = Suc (length (memory t1))"
        "ast_of (memory t2) g2 = a_set i (a_insert a (a_at i (ast_of (memory t1) g))) (ast_of (memory t1) g)"
      using layout_insert [OF t1(3), of rtt prio ri pr] room same a by (auto simp: data_of.simps)
    have "is_Node (a_at i (ast_of (memory t2) g2))"
      using t2(5) same a_at_set [OF _ layout_valid [OF lay i]] lay by (simp add: layout_def a a_insert_def)
    with t2 insert place same show ?thesis
      by (intro exI [of _ True] exI [of _ t2] exI [of _ g2] exI [of _ "Suc i"])
         (simp add: a_place_def del: a_fixes.simps a_fix.simps)
  next
    case none
    with place lay i show ?thesis
      by (intro exI [of _ False] exI [of _ t] exI [of _ g] exI [of _ d]) (simp add: a_place_def)
  qed
qed

lemma a_incomplete_Node: "\<not> a_complete x \<Longrightarrow> is_Node x"
  by (cases x) auto

text \<open>The second half of \<open>parse_helper\<close>: the value is appended if its operator has
  room on the right.\<close>

definition value_tail :: "token \<Rightarrow> nat \<Rightarrow> bool \<Rightarrow> expression_tree \<Rightarrow> (bool \<times> expression_tree) option" where
  "value_tail tok i success t =
     do { node \<leftarrow> tree_item2 t i;
          ops \<leftarrow> info_operator node;
          if right ops > 0
          then do { t \<leftarrow> append_value (data_of tok) i t; Some (True, t) }
          else Some (success, t) }"

definition a_tail :: "nat \<Rightarrow> token \<Rightarrow> nat \<Rightarrow> bool \<Rightarrow> ast \<Rightarrow> nat \<Rightarrow> bool \<times> (ast \<times> nat) option" where
  "a_tail n tok i ok x d =
     (if 0 < a_right (a_at i x)
      then (True, Some (a_set i (a_append (a_token n tok) (a_at i x)) x, i + 2))
      else (ok, Some (x, d)))"

lemma value_tail_refines:
  assumes lay: "layout t g d" and i: "i < d" and node: "is_Node (a_at i (ast_of (memory t) g))"
    and room: "length (memory t) < 2 ^ 32"
  shows "\<exists>ok t' st'. value_tail tok i success t = Some (ok, t') \<and>
    a_tail (length (expression_string t)) tok i success (ast_of (memory t) g) d = (ok, st') \<and>
    rep t' st' \<and> length (memory t') \<le> Suc (length (memory t)) \<and>
    expression_string t' = expression_string t"
proof -
  let ?x = "ast_of (memory t) g"
  obtain ops xs where ops: "info_operator (node_of t g i) = Some ops" "\<not> union_is_value (node_of t g i)"
      and at: "a_at i ?x = Node (ed_rtt (node_of t g i)) (priority ops) (right ops) (property ops) xs"
    using lay i node by (elim layout_node_cases [of t g d i]) auto
  show ?thesis
  proof (cases "right ops > 0")
    case True
    then have "complete (node_of t g i) = Some False"
      using ops by (auto simp: complete_def)
    then obtain t' g' where t': "append_value (data_of tok) i t = Some t'" "layout t' g' (i + 2)"
        "expression_string t' = expression_string t" "length (memory t') = Suc (length (memory t))"
        "ast_of (memory t') g' = a_set i (a_append (a_token (length (expression_string t)) tok)
          (a_at i ?x)) ?x"
      using layout_append [OF lay i room ops] by blast
    have "value_tail tok i success t = Some (True, t')"
      using layout_item2 [OF lay i] ops True t'(1) by (simp add: value_tail_def)
    moreover have "a_tail (length (expression_string t)) tok i success ?x d =
        (True, Some (ast_of (memory t') g', i + 2))"
      using True t'(5) at by (simp add: a_tail_def)
    moreover have "rep t' (Some (ast_of (memory t') g', i + 2))"
      using t'(2) by (auto simp: rep_def)
    ultimately show ?thesis
      using t'(3,4) by (metis order_refl)
  next
    case False
    have "value_tail tok i success t = Some (success, t)"
      using layout_item2 [OF lay i] ops False by (simp add: value_tail_def)
    moreover have "a_tail (length (expression_string t)) tok i success ?x d = (success, Some (?x, d))"
      using False at by (simp add: a_tail_def)
    moreover have "rep t (Some (?x, d))"
      using lay by (auto simp: rep_def)
    ultimately show ?thesis by (metis le_SucI order_refl)
  qed
qed

lemma rep_create:
  assumes "memory t = []" "node_address t = []"
  shows "\<exists>t'. (do { rr \<leftarrow> stamp (length (expression_string t)) (data_of tok); t \<leftarrow> tree_create rr t; Some (True, t) })
      = Some (True, t') \<and> rep t' (Some (a_token (length (expression_string t)) tok, 1)) \<and>
    length (memory t') = 1 \<and> expression_string t' = expression_string t"
proof -
  obtain d0 where d0: "stamp (length (expression_string t)) (data_of tok) = Some d0"
      "previous_peer_address d0 = -1"
      "\<And>m p. node_ok m (d0\<lparr>previous_peer_address := p\<rparr>) []"
      "\<And>p. ast_node (d0\<lparr>previous_peer_address := p\<rparr>) [] = a_token (length (expression_string t)) tok"
    using stamp_data_of by metis
  let ?t = "t\<lparr>memory := [d0], node_address := [0]\<rparr>"
  have same: "d0\<lparr>previous_peer_address := -1\<rparr> = d0" using d0(2) by simp
  have "layout ?t (G 0 []) 1" "a_token (length (expression_string t)) tok = ast_of [d0] (G 0 [])"
    using d0(3) [of "[d0]" "-1"] d0(4) [of "-1"]
    by (simp_all add: layout_def same ast_of_node del: ast_of.simps)
  then have "rep ?t (Some (a_token (length (expression_string t)) tok, 1))"
    by (auto simp: rep_def intro!: exI [of _ "G 0 []"])
  then show ?thesis
    using assms d0(1) by (auto simp: tree_create_def tree_empty_def)
qed

text \<open>The first half, for a tree with a layout and an operator to place.\<close>

lemma operator_half_refines:
  assumes lay: "layout t g d" and room: "length (memory t) < 2 ^ 32"
    and i: "i = a_same_scan (ast_of (memory t) g) (fst a)
      (case a_stop_scan (ast_of (memory t) g) (Some a) d of None \<Rightarrow> 0
       | Some i \<Rightarrow> if i \<noteq> d - 1 then i + 1 else i) j"
    and j: "j = Suc (case a_stop_scan (ast_of (memory t) g) (Some a) d of None \<Rightarrow> 0
       | Some i \<Rightarrow> if i \<noteq> d - 1 then i + 1 else i)"
  shows "i < d \<and> j \<le> d"
proof -
  have "0 < d" using lay by (simp add: layout_def)
  then have "j \<le> d"
    unfolding j by (auto split: option.splits dest: a_stop_scan_less)
  moreover have "i < j"
    unfolding i using a_same_scan_le j by (simp add: less_Suc_eq_le)
  ultimately show ?thesis by simp
qed

theorem parse_helper_refines_aux:
  assumes rep: "rep t st" and room: "Suc (length (memory t)) < 2 ^ 32"
    and tok: "place = E_operator \<longrightarrow> (\<exists>a. tok = Toper a)"
  shows "\<exists>ok t' st'.
    parse_helper (map_option (\<lambda>a. data_of (Toper a)) dflt) t (data_of tok) place = Some (ok, t') \<and>
    a_helper dflt (length (expression_string t)) st tok place = (ok, st') \<and> rep t' st' \<and>
    length (memory t') \<le> length (memory t) + 2 \<and> expression_string t' = expression_string t"
proof (cases "place = E_discard")
  case True
  with rep show ?thesis by (auto simp: parse_helper_def a_helper_def)
next
  case nodisc: False
  show ?thesis
  proof (cases st)
    case None
    then have m: "memory t = []" "node_address t = []" and e: "tree_empty t"
      using rep by (auto simp: rep_def tree_empty_def)
    show ?thesis
    proof (cases "place = E_value")
      case True
      then show ?thesis
        using rep_create [OF m, of tok] e None m
        by (auto simp: parse_helper_def a_helper_def)
    next
      case False
      then show ?thesis
        using nodisc e None rep by (auto simp: parse_helper_def a_helper_def)
    qed
  next
    case (Some xd)
    then obtain g d where lay: "layout t g d" and st: "st = Some (ast_of (memory t) g, d)"
      using rep by (cases xd) (auto simp: rep_def)
    let ?x = "ast_of (memory t) g" and ?n = "length (expression_string t)"
    define act where "act = (if place = E_operator
      then (case tok of Toper a \<Rightarrow> Some a | Tvalue _ _ \<Rightarrow> None) else dflt)"
    have act: "act_for_operator (map_option (\<lambda>a. data_of (Toper a)) dflt) (data_of tok) place =
        Some (map_option (\<lambda>a. data_of (Toper a)) act)"
      using tok by (auto simp: act_for_operator_def act_def split: option.split)
    have stop: "stop_scan t (map_option (\<lambda>a. data_of (Toper a)) act) (length (node_address t)) =
        Some (a_stop_scan ?x act d)"
      using stop_scan_refines [OF lay, of d act] layout_length [OF lay] by simp
    have ne: "\<not> tree_empty t" using lay by simp
    show ?thesis
    proof (cases act)
      case None
      then have place: "place = E_value"
        using tok nodisc by (cases place) (auto simp: act_def)
      show ?thesis
      proof (cases "a_stop_scan ?x act d")
        case None
        then show ?thesis
          using \<open>act = None\<close> act stop ne place st rep act_def layout_length [OF lay]
          by (auto simp: parse_helper_def a_helper_def)
      next
        case (Some i)
        then have i: "i < d" "is_Node (a_at i ?x)"
          using \<open>act = None\<close> a_stop_scan_less a_stop_scan_None_act a_incomplete_Node by metis+
        from value_tail_refines [OF lay i, of tok False] room
        show ?thesis
          using \<open>act = None\<close> act stop ne place st Some act_def layout_length [OF lay]
          by (auto simp: parse_helper_def a_helper_def value_tail_def a_tail_def Let_def)
      qed
    next
      case (Some a)
      define i0 where "i0 = (case a_stop_scan ?x (Some a) d of None \<Rightarrow> 0
        | Some i \<Rightarrow> if i \<noteq> d - 1 then i + 1 else i)"
      define i where "i = a_same_scan ?x (fst a) i0 (i0 + 1)"
      have i: "i < d" "i0 + 1 \<le> d"
        using operator_half_refines [OF lay _ _ refl, of i a] room i_def i0_def by simp_all
      have same: "same_scan t (data_of (Toper a)) i0 (i0 + 1) = Some i"
        using same_scan_refines [OF lay i(2), of a i0] by (simp add: i_def)
      obtain ok t1 g1 d1 where p: "place_operator (data_of (Toper a)) i t = Some (ok, t1)"
          "layout t1 g1 d1" "a_place a i ?x d = (ok, ast_of (memory t1) g1, d1)"
          "length (memory t1) \<le> Suc (length (memory t))" "expression_string t1 = expression_string t"
          "i < d1" "\<not> ok \<longrightarrow> t1 = t \<and> \<not> a_complete (a_at i (ast_of (memory t1) g1))"
          "ok \<longrightarrow> is_Node (a_at i (ast_of (memory t1) g1))"
        using place_operator_refines [OF lay i(1), of a] room by (metis Suc_lessD)
      have node: "is_Node (a_at i (ast_of (memory t1) g1))"
        using p(7,8) a_incomplete_Node by blast
      have stop': "stop_scan t (Some (data_of (Toper a))) d = Some (a_stop_scan ?x (Some a) d)"
        using stop Some layout_length [OF lay] by simp
      have helper: "parse_helper (map_option (\<lambda>a. data_of (Toper a)) dflt) t (data_of tok) place =
          (if place = E_value then value_tail tok i ok t1 else Some (ok, t1))"
        unfolding value_tail_def
        by (simp only: parse_helper_def nodisc ne act stop' Some Let_def layout_length [OF lay]
            option.map option.case bind.bind_lunit prod.case i0_def [symmetric] same p(1) if_False
            simp_thms not_False_eq_True if_True)
      have a_helper: "a_helper dflt ?n st tok place =
          (if place = E_value then a_tail ?n tok i ok (ast_of (memory t1) g1) d1
           else (ok, Some (ast_of (memory t1) g1, d1)))"
        unfolding a_tail_def
        by (simp only: a_helper_def act_def [symmetric] nodisc st Some Let_def option.case prod.case
            i0_def [symmetric] i_def [symmetric] p(3) if_False) simp
      show ?thesis
      proof (cases "place = E_value")
        case True
        from value_tail_refines [OF p(2,6) node, of tok ok] p(4,5) room helper a_helper True
        show ?thesis by fastforce
      next
        case False
        with helper a_helper p show ?thesis by (auto simp: rep_def)
      qed
    qed
  qed
qed

section \<open>Children by index\<close>

lemma peers_nth:
  "peers m p cs \<Longrightarrow> Suc j < length cs \<Longrightarrow> previous_peer_address (m ! unat (addr (cs ! Suc j))) = addr (cs ! j)"
proof (induction m p cs arbitrary: j rule: peers.induct)
  case (2 m p c cs)
  then show ?case by (cases j; cases cs) auto
qed simp

lemma child_loop_peers:
  assumes ok: "peers (memory t) (-1) cs" and mem: "\<And>c. c \<in> set cs \<Longrightarrow> unat (addr c) < length (memory t)"
    and k: "k + j < length cs" and small: "length cs < 2 ^ 32"
  shows "child_loop t (addr (cs ! (k + j))) (of_nat (length cs - j)) (of_nat (length cs)) =
    Some (addr (cs ! k))"
  using k
proof (induction j)
  case 0
  then show ?case by (subst child_loop.simps) simp
next
  case (Suc j)
  have ne: "(of_nat (length cs - Suc j) :: u32) \<noteq> of_nat (length cs)"
  proof
    assume "(of_nat (length cs - Suc j) :: u32) = of_nat (length cs)"
    then have "unat (of_nat (length cs - Suc j) :: u32) = unat (of_nat (length cs) :: u32)" by simp
    with small Suc.prems show False by (simp add: unat_of_nat del: of_nat_diff)
  qed
  have step: "(of_nat (length cs - Suc j) :: u32) + 1 = of_nat (length cs - j)"
  proof -
    have "length cs - j = Suc (length cs - Suc j)" using Suc.prems by simp
    then show ?thesis by simp
  qed
  have "fetch (memory t) (unat (addr (cs ! (k + Suc j)))) =
      Some (memory t ! unat (addr (cs ! (k + Suc j))))"
    using mem Suc.prems by (simp add: fetch_def)
  then have "child_loop t (addr (cs ! (k + Suc j))) (of_nat (length cs - Suc j)) (of_nat (length cs)) =
      child_loop t (addr (cs ! (k + j))) (of_nat (length cs - j)) (of_nat (length cs))"
    using ne step peers_nth [OF ok, of "k + j"] Suc.prems by (subst child_loop.simps) simp
  with Suc show ?case by simp
qed

section \<open>Properties\<close>

text \<open>C1: \<open>parse_helper\<close> implements placing a token in a syntax tree: on a tree whose
  memory represents a syntax tree and a path in it, it fails no assertion, reads no inactive
  union member and no address outside the memory, and the memory it leaves represents the
  tree that the address-free function computes, with the same answer.\<close>

theorem parse_helper_refines:
  assumes "rep t st" "Suc (length (memory t)) < 2 ^ 32"
    and "place = E_operator \<longrightarrow> (\<exists>a. tok = Toper a)"
  shows "case parse_helper (default_operator dflt) t (data_of tok) place of
      None \<Rightarrow> False
    | Some (ok, t') \<Rightarrow>
        (case a_helper dflt (length (expression_string t)) st tok place of
           (ok', st') \<Rightarrow> ok = ok' \<and> rep t' st') \<and>
        length (memory t') \<le> length (memory t) + 2"
proof -
  have "default_operator dflt = map_option (\<lambda>a. data_of (Toper a)) dflt"
    by (cases dflt) (auto simp: default_operator_def data_of.simps)
  then show ?thesis
    using parse_helper_refines_aux [OF assms, of dflt] by auto
qed

theorem parse_helper_refines_witness:
  "case parse_helper (default_operator None) tree_new (expression_data_value 5 1) E_value of
      None \<Rightarrow> False
    | Some (ok, t') \<Rightarrow> ok \<and> rep t' (Some (Leaf 5 0 1, 1))"
  using parse_helper_refines [of tree_new None E_value "Tvalue 5 1" None]
  by (simp add: rep_def tree_new_def a_helper_def split: option.splits prod.splits)

text \<open>\<open>child\<close> finds every child of a node by its index, walking back from the last one
  over the links to the previous peers.\<close>

theorem tree_child_nth:
  assumes "wf (memory t) (G a cs)" "distinct (addrs (G a cs))" "length (memory t) \<le> 2 ^ 32"
    and k: "k < length cs"
  shows "tree_child t a (of_nat k) = Some (addr (cs ! k))"
proof -
  have node: "unat a < length (memory t)" "node_ok (memory t) (memory t ! unat a) cs"
      "\<And>c. c \<in> set cs \<Longrightarrow> unat (addr c) < length (memory t)"
    using assms(1) wf_addr by auto
  obtain ops where ops: "info_operator (memory t ! unat a) = Some ops"
      "unat (children_count ops) = length cs" "last_child_address ops = last_addr cs"
      "peers (memory t) (-1) cs"
    using node(2) k by (cases rule: node_ok_cases) auto
  have "Suc (length cs) \<le> length (addrs (G a cs))"
    using kids_length [of cs] by simp
  also have "\<dots> \<le> length (memory t)" using assms(1,2) by (rule wf_length)
  finally have small: "length cs < 2 ^ 32" using assms(3) by simp
  let ?j = "length cs - Suc k"
  have "cs \<noteq> []" using k by auto
  then have last: "last_addr cs = addr (cs ! (k + ?j))"
    using k by (simp add: last_addr_def last_conv_nth)
  have "(of_nat k + 1 :: u32) = of_nat (length cs - ?j)"
  proof -
    have "length cs - ?j = Suc k" using k by simp
    then show ?thesis by (simp only:) simp
  qed
  moreover have "children_count ops = of_nat (length cs)"
    using arg_cong [OF ops(2), of "of_nat :: nat \<Rightarrow> u32"] by simp
  ultimately show ?thesis
    using node(1) ops last child_loop_peers [OF ops(4) node(3) _ small, of k ?j] k
    by (simp add: tree_child_def fetch_def ac_simps)
qed

theorem tree_child_nth_witness:
  "tree_child \<lparr>node_address = [1], memory =
     [expression_data_value 5 1,
      \<lparr>ed_rtt = 0, union_is_value = False, previous_peer_address = -1, info = Info_operator
        \<lparr>priority = 1, right = 0, property = 1, children_count = 1, last_child_address = 0\<rparr>\<rparr>],
     expression_string = ''7''\<rparr> 1 0 = Some 0"
  using tree_child_nth [of "\<lparr>node_address = [1], memory =
     [expression_data_value 5 1,
      \<lparr>ed_rtt = 0, union_is_value = False, previous_peer_address = -1, info = Info_operator
        \<lparr>priority = 1, right = 0, property = 1, children_count = 1, last_child_address = 0\<rparr>\<rparr>],
     expression_string = ''7''\<rparr>" 1 "[G 0 []]" 0]
  by (simp add: node_ok_def last_addr_def expression_data_value_def)

end
