(* ===== verification/Parser_Driver.thy ===== *)
theory Parser_Driver
  imports Tree_Refinement "HOL-Library.Sublist"
begin

text \<open>
  What the parser needs of its lexers, as a locale, and what it then guarantees for every
  text: no undefined behaviour and no failing assertion, a tree that has a meaning after
  every token, progress, an end, and an \<open>expression_string\<close> that is the text read so
  far. Each group of lexers interprets the locale in its own theory.
\<close>

section \<open>The contract of a lexer\<close>

definition read_ok :: "string \<Rightarrow> read \<Rightarrow> bool" where
  "read_ok s r =
     (case r of
        Read_success n rr place \<Rightarrow> 0 < n \<and> n \<le> length s \<and>
          (place = E_discard \<or>
           (\<exists>tok. rr = data_of tok \<and> (place = E_operator \<longrightarrow> (\<exists>a. tok = Toper a))))
      | _ \<Rightarrow> True)"

definition dflt_data :: "operator option \<Rightarrow> expression_data option" where
  "dflt_data dflt = map_option (\<lambda>a. data_of (Toper a)) dflt"

lemma default_operator_data: "default_operator dflt = dflt_data dflt"
  by (cases dflt) (auto simp: default_operator_def dflt_data_def data_of.simps)

text \<open>A tree with a meaning.\<close>

definition sound_tree :: "expression_tree \<Rightarrow> bool" where
  "sound_tree t \<longleftrightarrow> (\<exists>st. rep t st)"

lemma rep_string [simp]: "rep (t\<lparr>expression_string := e\<rparr>) st = rep t st"
  by (auto simp: rep_def layout_def split: option.splits)

lemma sound_tree_string [simp]: "sound_tree (t\<lparr>expression_string := e\<rparr>) = sound_tree t"
  by (simp add: sound_tree_def)

lemma sound_tree_new [simp]: "sound_tree tree_new"
  by (auto simp: sound_tree_def rep_def tree_new_def intro!: exI [of _ None])

lemma parse_helper_sound:
  assumes "sound_tree t" "Suc (length (memory t)) < 2 ^ 32"
    and "read_ok s (Read_success n rr place)"
  shows "\<exists>ok t'. parse_helper (dflt_data dflt) t rr place = Some (ok, t') \<and> sound_tree t' \<and>
    length (memory t') \<le> length (memory t) + 2 \<and> expression_string t' = expression_string t"
proof (cases "place = E_discard")
  case True
  with assms(1) show ?thesis by (auto simp: parse_helper_def)
next
  case False
  then obtain tok where "rr = data_of tok" "place = E_operator \<longrightarrow> (\<exists>a. tok = Toper a)"
    using assms(3) by (auto simp: read_ok_def)
  with assms(1,2) parse_helper_refines_aux [of t _ place tok dflt] show ?thesis
    unfolding sound_tree_def dflt_data_def by metis
qed

text \<open>The nodes that \<open>k\<close> calls of \<open>parse_helper\<close> may add to a tree.\<close>

definition room_for :: "nat \<Rightarrow> expression_tree \<Rightarrow> bool" where
  "room_for k t \<longleftrightarrow> length (memory t) + 2 * k < 2 ^ 32"

locale lexer_group =
  fixes lexers :: "lexer list" and dflt :: "operator option"
  assumes lexer_answers: "lx \<in> set lexers \<Longrightarrow> s \<noteq> [] \<Longrightarrow> \<exists>r. lx s = Some r \<and> read_ok s r"
begin

lemma readers_total:
  "set lxs \<subseteq> set lexers \<Longrightarrow> s \<noteq> [] \<Longrightarrow> sound_tree t \<Longrightarrow> room_for (length lxs) t \<Longrightarrow>
    \<exists>ok t' n. readers_parse lim (dflt_data dflt) lxs t s code = Some (ok, t', n) \<and> sound_tree t' \<and>
      length (memory t') \<le> length (memory t) + 2 * length lxs \<and> n \<le> length s \<and>
      (0 < n \<longrightarrow> ok) \<and> expression_string t' = expression_string t @ take n s"
proof (induction lxs arbitrary: t code)
  case (Cons lx lxs)
  then obtain r where r: "lx s = Some r" "read_ok s r"
    using lexer_answers [of lx s] by auto
  show ?case
  proof (cases r)
    case (Read_success n rr place)
    then have n: "0 < n" "n \<le> length s" using r(2) by (auto simp: read_ok_def)
    obtain ok t1 where t1: "parse_helper (dflt_data dflt) t rr place = Some (ok, t1)" "sound_tree t1"
        "length (memory t1) \<le> length (memory t) + 2" "expression_string t1 = expression_string t"
      using parse_helper_sound [OF Cons.prems(3), of s n rr place dflt] r Read_success Cons.prems(4)
      by (auto simp: room_for_def)
    show ?thesis
    proof (cases "ok \<and> length (node_address t1) \<le> depth_limit lim \<and>
        length (memory t1) \<le> expression_size_limit lim \<and>
        length (expression_string t1) + n \<le> buffer_size_limit lim")
      case True
      with r Read_success n t1 show ?thesis by (auto simp: numeral_2_eq_2)
    next
      case False
      have eq: "readers_parse lim (dflt_data dflt) (lx # lxs) t s code =
          readers_parse lim (dflt_data dflt) lxs t1 s code"
        using r Read_success n t1 False by auto
      from Cons.IH [of t1 code] Cons.prems t1 show ?thesis
        unfolding eq by (fastforce simp: room_for_def)
    qed
  next
    case Read_attempt
    then have "\<exists>code'. readers_parse lim (dflt_data dflt) (lx # lxs) t s code =
        readers_parse lim (dflt_data dflt) lxs t s code'"
      using r by auto
    with Cons.IH Cons.prems show ?thesis by (fastforce simp: room_for_def)
  next
    case Read_error
    then have "readers_parse lim (dflt_data dflt) (lx # lxs) t s code =
        readers_parse lim (dflt_data dflt) lxs t s code"
      using r by auto
    with Cons.IH [of t code] Cons.prems show ?thesis by (fastforce simp: room_for_def)
  qed
qed simp

lemma token_total:
  assumes "sound_tree t" "room_for (length lexers) t"
  shows "\<exists>ok t' n. parse_token lim (dflt_data dflt) lexers t s = Some (ok, t', n) \<and> sound_tree t' \<and>
    length (memory t') \<le> length (memory t) + 2 * length lexers \<and> n \<le> length s \<and>
    expression_string t' = expression_string t @ take n s"
  using readers_total [of lexers s t lim False] assms
  by (cases "s = []") (auto simp: parse_token_def)

text \<open>Every round takes a character, so \<open>parse_stream\<close> ends.\<close>

lemma stream_total:
  "sound_tree t \<Longrightarrow> room_for (length lexers * (length s + 1)) t \<Longrightarrow>
    \<exists>ok t' rest. stream_loop lim (dflt_data dflt) lexers t s = Some (ok, t', rest) \<and> sound_tree t' \<and>
      (ok \<longrightarrow> expression_string t' @ rest = expression_string t @ s) \<and>
      prefix (expression_string t) (expression_string t') \<and>
      prefix (expression_string t') (expression_string t @ s)"
proof (induction "length s" arbitrary: t s rule: less_induct)
  case less
  have "room_for (length lexers) t"
    using less.prems(2) by (simp add: room_for_def)
  then obtain ok t1 n where t1: "parse_token lim (dflt_data dflt) lexers t s = Some (ok, t1, n)"
      "sound_tree t1" "length (memory t1) \<le> length (memory t) + 2 * length lexers" "n \<le> length s"
      "expression_string t1 = expression_string t @ take n s"
    using token_total [OF less.prems(1), of lim s] by auto
  have pre: "prefix (expression_string t1) (expression_string t @ s)"
    using t1(5) by (simp add: take_is_prefix)
  show ?case
  proof (cases "ok \<and> 0 < n")
    case False
    then show ?thesis
      using t1 pre by (subst stream_loop.simps) (auto simp: prefix_def)
  next
    case True
    have len: "length (drop n s) < length s" using True t1(4) by auto
    have "length lexers * (length (drop n s) + 1) + length lexers \<le> length lexers * (length s + 1)"
    proof -
      have "length (drop n s) + 1 + 1 \<le> length s + 1" using len by simp
      then have "length lexers * (length (drop n s) + 1 + 1) \<le> length lexers * (length s + 1)"
        by (rule mult_le_mono2)
      then show ?thesis by (simp add: algebra_simps)
    qed
    then have "room_for (length lexers * (length (drop n s) + 1)) t1"
      using less.prems(2) t1(3) unfolding room_for_def by linarith
    from less.hyps [OF len t1(2) this] obtain ok' t2 rest where
      t2: "stream_loop lim (dflt_data dflt) lexers t1 (drop n s) = Some (ok', t2, rest)" "sound_tree t2"
        "ok' \<longrightarrow> expression_string t2 @ rest = expression_string t1 @ drop n s"
        "prefix (expression_string t1) (expression_string t2)"
        "prefix (expression_string t2) (expression_string t1 @ drop n s)"
      by auto
    have "expression_string t1 @ drop n s = expression_string t @ s"
      using t1(5) by simp
    moreover have "prefix (expression_string t) (expression_string t1)"
      using t1(5) by simp
    ultimately show ?thesis
      using t1 t2 True by (subst stream_loop.simps) (auto dest: append_prefixD)
  qed
qed

end

end
