(* ===== verification/Json_String.thy ===== *)
theory Json_String
  imports Scan "HOL-Library.Monad_Syntax"
begin

unbundle bit_operations_syntax

text \<open>
  Strings of \<open>src/belt.pp/json.hpp\<close>: the lexer's scan of a quoted string, \<open>encode\<close>
  and \<open>decode\<close> between a byte string and its quoted form, and the UTF-16 and UTF-8
  helpers under them. None is an assertion that fails.
\<close>

section \<open>Code points\<close>

datatype utf16_range = Bmp | High | Low

definition utf16_check :: "u16 \<Rightarrow> utf16_range" where
  "utf16_check c =
     (if 0xD800 \<le> c \<and> c \<le> 0xDBFF then High
      else if 0xDC00 \<le> c \<and> c \<le> 0xDFFF then Low
      else Bmp)"

definition utf16_surrogate_pair_to_code_point :: "u16 \<Rightarrow> u16 \<Rightarrow> u32 option" where
  "utf16_surrogate_pair_to_code_point high low =
     (if utf16_check high = High \<and> utf16_check low = Low
      then Some (0x10000 + 0x400 * (ucast high - 0xD800) + (ucast low - 0xDC00))
      else None)"

text \<open>\<open>char(...)\<close> keeps the low eight bits.\<close>

definition byte :: "u32 \<Rightarrow> char" where
  "byte w = char_of (unat w)"

definition utf32_to_utf8 :: "u32 \<Rightarrow> string option" where
  "utf32_to_utf8 cp =
     (if cp \<le> 0x7F then Some [byte cp]
      else if cp \<le> 0x7FF then
        Some [byte (0xC0 OR drop_bit 6 cp), byte (0x80 OR (cp AND 0x3F))]
      else if cp \<le> 0xFFFF then
        Some [byte (0xE0 OR drop_bit 12 cp), byte (0x80 OR (drop_bit 6 cp AND 0x3F)),
              byte (0x80 OR (cp AND 0x3F))]
      else if cp \<le> 0x10FFFF then
        Some [byte (0xF0 OR drop_bit 18 cp), byte (0x80 OR (drop_bit 12 cp AND 0x3F)),
              byte (0x80 OR (drop_bit 6 cp AND 0x3F)), byte (0x80 OR (cp AND 0x3F))]
      else None)"

section \<open>The scan of a quoted string\<close>

abbreviation quote :: char where "quote \<equiv> CHR 0x22"
abbreviation backslash :: char where "backslash \<equiv> CHR 0x5C"

definition simple_escape :: "char \<Rightarrow> bool" where
  "simple_escape c = (c \<in> {quote, backslash, CHR ''/'', CHR ''b'', CHR ''f'', CHR ''n'',
     CHR ''r'', CHR ''t''})"

definition is_hex :: "char \<Rightarrow> bool" where
  "is_hex c = is_digit c True"

text \<open>After the opening quote: whether it may be a string, and the characters it takes, 0
  while the closing quote is missing.\<close>

function string_body :: "string \<Rightarrow> nat \<Rightarrow> bool \<times> nat" where
  "string_body [] k = (True, 0)"
| "string_body (c # cs) k =
     (if c = quote then (True, k + 1)
      else if char_code c < 0x20 then (False, 0)
      else if c \<noteq> backslash then string_body cs (k + 1)
      else case cs of
             [] \<Rightarrow> (True, 0)
           | e # es \<Rightarrow>
               if simple_escape e then string_body es (k + 2)
               else if e = CHR ''u'' then
                 (if list_all is_hex (take 4 es)
                  then string_body (drop 4 es) (k + 2 + length (take 4 es))
                  else (False, 0))
               else (False, 0))"
  by pat_completeness auto

termination
  by (relation "measure (\<lambda>(s, k). length s)") auto

definition value_string_parse :: "string \<Rightarrow> (bool \<times> nat) option" where
  "value_string_parse s =
     (case s of [] \<Rightarrow> None
      | c # cs \<Rightarrow> Some (if c \<noteq> quote then (False, 0) else string_body cs 1))"

section \<open>Encoding\<close>

definition hex_char :: "nat \<Rightarrow> char" where
  "hex_char d = (if d < 10 then char_of (48 + d) else char_of (87 + d))"

definition encode_char :: "char \<Rightarrow> string" where
  "encode_char c =
     (if c = CHR 0x08 then [backslash, CHR ''b'']
      else if c = CHR 0x09 then [backslash, CHR ''t'']
      else if c = CHR 0x0A then [backslash, CHR ''n'']
      else if c = CHR 0x0C then [backslash, CHR ''f'']
      else if c = CHR 0x0D then [backslash, CHR ''r'']
      else if char_code c < 0x20
      then [backslash, CHR ''u'', CHR ''0'', CHR ''0'', hex_char (char_code c div 16),
            hex_char (char_code c mod 16)]
      else if c = backslash then [backslash, backslash]
      else if c = quote then [backslash, quote]
      else [c])"

definition encode :: "string \<Rightarrow> string" where
  "encode utf8_value = quote # concat (map encode_char utf8_value) @ [quote]"

section \<open>Decoding\<close>

record decoder =
  d_code :: bool
  d_index :: u8
  d_remaining :: u8
  d_point :: u32
  d_high :: u32
  d_ending :: bool
  d_value :: string

definition tolower :: "char \<Rightarrow> nat" where
  "tolower ch = (if 65 \<le> char_code ch \<and> char_code ch \<le> 90 then char_code ch + 32
                 else char_code ch)"

definition hex_value :: "char \<Rightarrow> u32" where
  "hex_value ch =
     (if 48 \<le> char_code ch \<and> char_code ch \<le> 57 then of_nat (char_code ch - 48)
      else if 97 \<le> tolower ch \<and> tolower ch \<le> 102 then of_nat (10 + tolower ch - 97)
      else 0)"

definition unescape :: "char \<Rightarrow> char" where
  "unescape ch =
     (if ch = CHR ''b'' then CHR 0x08 else if ch = CHR ''f'' then CHR 0x0C
      else if ch = CHR ''n'' then CHR 0x0A else if ch = CHR ''r'' then CHR 0x0D
      else if ch = CHR ''t'' then CHR 0x09 else ch)"

text \<open>The first half of a round: the character and the state give a piece of output
  (\<open>item\<close>) or move the escape sequence on.\<close>

definition decode_char :: "bool \<Rightarrow> bool \<Rightarrow> char \<Rightarrow> decoder \<Rightarrow> (decoder \<times> string) option" where
  "decode_char first final ch d =
     (let fail = d\<lparr>d_code := False\<rparr> in
      if first then Some (if ch \<noteq> quote then fail else d, '''')
      else if 0 = d_remaining d \<and> ch = backslash
      then Some (d\<lparr>d_remaining := d_remaining d + 1, d_index := 1\<rparr>, '''')
      else if 0 < d_remaining d \<and> 1 = d_index d then
        (if simple_escape ch then Some (d\<lparr>d_index := 0, d_remaining := 0\<rparr>, [unescape ch])
         else if ch = CHR ''u''
         then Some (d\<lparr>d_index := d_index d + 1, d_remaining := 4\<rparr>, '''')
         else Some (fail, ''''))
      else if 0 < d_remaining d then
        (if \<not> (2 \<le> d_index d \<and> 6 > d_index d) then None
         else if (48 \<le> char_code ch \<and> char_code ch \<le> 57) \<or>
                 (97 \<le> tolower ch \<and> tolower ch \<le> 102)
         then let point = (if 2 = d_index d then hex_value ch
                           else d_point d * 16 + hex_value ch);
                  remaining = d_remaining d - 1;
                  index = d_index d + 1
              in Some (d\<lparr>d_point := point, d_remaining := remaining,
                         d_index := (if 0 = remaining then 0 else index)\<rparr>, '''')
         else Some (fail, ''''))
      else if ch = quote then Some (if \<not> final then fail else d\<lparr>d_ending := True\<rparr>, '''')
      else if char_code ch < 0x20 then Some (fail, '''')
      else Some (d, [ch]))"

text \<open>The second half: surrogate pairs, UTF-8, output.\<close>

definition decode_surrogate :: "decoder \<Rightarrow> decoder option" where
  "decode_surrogate d =
     (if - 1 \<noteq> d_high d \<and> - 1 \<noteq> d_point d \<and> utf16_check (ucast (d_point d)) = Low
      then do { cp \<leftarrow> utf16_surrogate_pair_to_code_point (ucast (d_high d)) (ucast (d_point d));
                Some (d\<lparr>d_point := cp, d_high := - 1\<rparr>) }
      else if - 1 \<noteq> d_high d then Some (d\<lparr>d_code := False\<rparr>)
      else if - 1 \<noteq> d_point d \<and> utf16_check (ucast (d_point d)) = High
      then Some (d\<lparr>d_high := d_point d, d_point := - 1\<rparr>)
      else if - 1 \<noteq> d_point d \<and> utf16_check (ucast (d_point d)) = Low
      then Some (d\<lparr>d_code := False\<rparr>)
      else Some d)"

definition decode_output :: "decoder \<Rightarrow> string \<Rightarrow> decoder option" where
  "decode_output d item =
     do { (d, item) \<leftarrow>
            (if d_code d \<and> - 1 \<noteq> d_point d
             then do { utf8 \<leftarrow> utf32_to_utf8 (d_point d);
                       Some (d\<lparr>d_point := - 1\<rparr>, item @ utf8) }
             else Some (d, item));
          if d_code d
          then if d_point d = - 1 \<and>
                  ((item \<noteq> [] \<and> - 1 = d_high d) \<or> (item = [] \<and> - 1 \<noteq> d_high d))
               then Some (d\<lparr>d_value := d_value d @ item\<rparr>) else None
          else Some d }"

definition decode_step :: "bool \<Rightarrow> bool \<Rightarrow> char \<Rightarrow> decoder \<Rightarrow> decoder option" where
  "decode_step first final ch d =
     do { (d, item) \<leftarrow> decode_char first final ch d;
          if d_code d \<and> 0 = d_remaining d \<and> \<not> d_ending d \<and> \<not> first
          then if (- 1 \<noteq> d_point d \<and> item = []) \<or> (- 1 = d_point d \<and> item \<noteq> [])
               then do { d \<leftarrow> decode_surrogate d; decode_output d item }
               else None
          else Some d }"

fun decode_loop :: "bool \<Rightarrow> string \<Rightarrow> decoder \<Rightarrow> decoder option" where
  "decode_loop first [] d = Some d"
| "decode_loop first (ch # cs) d =
     (if d_code d
      then do { d \<leftarrow> decode_step first (cs = []) ch d; decode_loop False cs d }
      else Some d)"

definition decoder_start :: "string \<Rightarrow> decoder" where
  "decoder_start utf8_value = \<lparr>d_code = True, d_index = 0, d_remaining = 0, d_point = - 1,
     d_high = - 1, d_ending = False, d_value = utf8_value\<rparr>"

text \<open>\<open>decode\<close> appends to \<open>utf8_value\<close>, and clears it when it fails.\<close>

definition decode :: "string \<Rightarrow> string \<Rightarrow> (bool \<times> string) option" where
  "decode utf8_encoded utf8_value =
     do { d \<leftarrow> decode_loop True utf8_encoded (decoder_start utf8_value);
          let ok = (d_code d \<and> d_ending d \<and> d_point d = - 1 \<and> d_high d = - 1 \<and>
                    d_remaining d = 0);
          Some (ok, if ok then d_value d else '''') }"

section \<open>Encoding and scanning\<close>

lemma hex_char_is_hex: "d < 16 \<Longrightarrow> is_hex (hex_char d)"
  by (auto simp: is_hex_def is_digit_def hex_char_def)

lemma string_body_plain:
  "c \<noteq> quote \<Longrightarrow> c \<noteq> backslash \<Longrightarrow> \<not> char_code c < 0x20 \<Longrightarrow>
    string_body (c # cs) k = string_body cs (k + 1)"
  by simp

lemma string_body_escape:
  "simple_escape e \<Longrightarrow> string_body (backslash # e # es) k = string_body es (k + 2)"
  by simp

lemma string_body_unicode:
  "list_all is_hex [a, b, c, d] \<Longrightarrow>
    string_body (backslash # CHR ''u'' # a # b # c # d # es) k =
      string_body es (Suc (Suc (Suc (Suc (Suc (Suc k))))))"
  by (simp add: simple_escape_def numeral_eq_Suc)

lemma string_body_encode_char:
  "string_body (encode_char c @ rest) k = string_body rest (k + length (encode_char c))"
proof -
  have hex: "is_hex (hex_char (char_code c div 16))" if "char_code c < 0x20"
    using that by (intro hex_char_is_hex) (simp add: less_mult_imp_div_less)
  have hex': "is_hex (hex_char (char_code c mod 16))" "is_hex CHR ''0''"
    by (intro hex_char_is_hex, simp) (simp add: is_hex_def is_digit_def)
  show ?thesis
    unfolding encode_char_def
    using hex hex'
    by (auto simp: string_body_escape string_body_unicode simple_escape_def simp del: string_body.simps)
       (simp add: string_body_plain del: string_body.simps)
qed

lemma string_body_encode:
  "string_body (concat (map encode_char cs) @ rest) k =
    string_body rest (k + length (concat (map encode_char cs)))"
  by (induction cs arbitrary: k) (simp_all add: string_body_encode_char add.assoc)

lemma value_string_parse_encode:
  "value_string_parse (encode v @ rest) = Some (True, length (encode v))"
  by (simp add: value_string_parse_def encode_def string_body_encode)

section \<open>Decoding what was encoded\<close>

lemma decode_plain:
  assumes "c \<noteq> quote" "c \<noteq> backslash" "\<not> char_code c < 0x20"
  shows "decode_step False final c (decoder_start v) = Some (decoder_start (v @ [c]))"
  using assms
  by (simp add: decode_step_def decode_char_def decoder_start_def decode_surrogate_def
      decode_output_def)

lemma decode_simple:
  assumes "simple_escape e"
  shows "decode_loop False (backslash # e # cs) (decoder_start v) =
    decode_loop False cs (decoder_start (v @ [unescape e]))"
  using assms
  by (simp add: decode_step_def decode_char_def decoder_start_def decode_surrogate_def
      decode_output_def)

lemma hex_char_value:
  "d < 16 \<Longrightarrow> hex_value (hex_char d) = of_nat d \<and>
    ((48 \<le> char_code (hex_char d) \<and> char_code (hex_char d) \<le> 57) \<or>
     (97 \<le> tolower (hex_char d) \<and> tolower (hex_char d) \<le> 102))"
  by (auto simp: hex_value_def hex_char_def tolower_def)

text \<open>The state after the four digits of an escape sequence.\<close>

definition unicode_done :: "string \<Rightarrow> u32 \<Rightarrow> u32 \<Rightarrow> decoder" where
  "unicode_done v high p = (decoder_start v)\<lparr>d_point := p, d_high := high\<rparr>"

definition hex_digit :: "char \<Rightarrow> bool" where
  "hex_digit ch \<longleftrightarrow> (48 \<le> char_code ch \<and> char_code ch \<le> 57) \<or> (97 \<le> tolower ch \<and> tolower ch \<le> 102)"

lemma decode_hex:
  assumes "hex_digit h" "i \<in> {2, 3, 4, 5}" "r = 6 - i"
  shows "decode_char False final h \<lparr>d_code = True, d_index = i, d_remaining = r, d_point = p,
      d_high = high, d_ending = False, d_value = v\<rparr> =
    Some (\<lparr>d_code = True, d_index = (if i = 5 then 0 else i + 1), d_remaining = r - 1,
      d_point = (if i = 2 then hex_value h else p * 16 + hex_value h), d_high = high,
      d_ending = False, d_value = v\<rparr>, [])"
  using assms unfolding hex_digit_def
  by (elim insertE emptyE) (simp_all add: decode_char_def Let_def)

lemma decode_unicode:
  assumes "list_all hex_digit [a, b, c, d]"
    and p: "p = ((hex_value a * 16 + hex_value b) * 16 + hex_value c) * 16 + hex_value d" "p \<noteq> - 1"
  shows "decode_loop False (backslash # CHR ''u'' # a # b # c # d # cs)
      ((decoder_start v)\<lparr>d_high := high\<rparr>) =
    do { s \<leftarrow> decode_surrogate (unicode_done v high p); s \<leftarrow> decode_output s []; decode_loop False cs s }"
proof -
  have 1: "decode_step False f backslash \<lparr>d_code = True, d_index = 0, d_remaining = 0, d_point = - 1,
        d_high = high, d_ending = False, d_value = v\<rparr> =
      Some \<lparr>d_code = True, d_index = 1, d_remaining = 1, d_point = - 1, d_high = high,
        d_ending = False, d_value = v\<rparr>" for f
    by (simp add: decode_step_def decode_char_def decoder_start_def)
  have 2: "decode_step False f CHR ''u'' \<lparr>d_code = True, d_index = 1, d_remaining = 1, d_point = - 1,
        d_high = high, d_ending = False, d_value = v\<rparr> =
      Some \<lparr>d_code = True, d_index = 2, d_remaining = 4, d_point = - 1, d_high = high,
        d_ending = False, d_value = v\<rparr>" for f
    by (simp add: decode_step_def decode_char_def simple_escape_def)
  show ?thesis
    using assms
    by (simp add: decoder_start_def 1 2) (simp add: decode_step_def decode_hex unicode_done_def decoder_start_def)
qed

lemma of_nat_not_max: "n < 2 ^ 16 \<Longrightarrow> (of_nat n :: u32) \<noteq> - 1"
proof
  assume n: "n < 2 ^ 16" "(of_nat n :: u32) = - 1"
  then have "unat (of_nat n :: u32) = unat (- 1 :: u32)" by simp
  with n(1) show False by (simp add: unat_of_nat unsigned_minus_1_eq_mask mask_eq_exp_minus_1)
qed

lemma utf8_ascii: "n < 128 \<Longrightarrow> utf32_to_utf8 (of_nat n) = Some [char_of n]"
proof -
  assume "n < 128"
  then have "unat (of_nat n :: u32) = n" by (simp add: unat_of_nat)
  with \<open>n < 128\<close> show ?thesis
    by (simp add: utf32_to_utf8_def byte_def word_le_nat_alt)
qed

lemma utf16_small: "n < 0xD800 \<Longrightarrow> utf16_check (ucast (of_nat n :: u32)) = Bmp"
proof -
  assume "n < 0xD800"
  then have "unat (of_nat n :: u32) = n" by (simp add: unat_of_nat)
  then have "unat (ucast (of_nat n :: u32) :: u16) = take_bit 16 n"
    by (simp only: unsigned_ucast_eq unsigned_take_bit_eq) simp
  moreover have "take_bit 16 n = n"
    using \<open>n < 0xD800\<close> by (simp add: take_bit_nat_eq_self_iff)
  ultimately have "unat (ucast (of_nat n :: u32) :: u16) = n" by simp
  with \<open>n < 0xD800\<close> show ?thesis
    by (simp add: utf16_check_def word_le_nat_alt)
qed

lemma decode_control:
  assumes "n < 0x20"
  shows "decode_loop False ([backslash, CHR ''u'', CHR ''0'', CHR ''0'', hex_char (n div 16),
      hex_char (n mod 16)] @ cs) (decoder_start v) = decode_loop False cs (decoder_start (v @ [char_of n]))"
proof -
  have digits: "n div 16 < 16" "n mod 16 < 16" using assms by simp_all
  let ?p = "((hex_value CHR ''0'' * 16 + hex_value CHR ''0'') * 16 + hex_value (hex_char (n div 16))) * 16 +
      hex_value (hex_char (n mod 16))"
  have "?p = of_nat (n div 16 * 16 + n mod 16)"
    using digits by (simp only: of_nat_add of_nat_mult) (simp add: hex_char_value, simp add: hex_value_def)
  then have p: "?p = of_nat n" by simp
  moreover have "list_all hex_digit [CHR ''0'', CHR ''0'', hex_char (n div 16), hex_char (n mod 16)]"
    using digits hex_char_value by (auto simp: hex_digit_def)
  moreover have max: "(of_nat n :: u32) \<noteq> - 1"
    using assms by (intro of_nat_not_max) simp
  ultimately have "decode_loop False ([backslash, CHR ''u'', CHR ''0'', CHR ''0'', hex_char (n div 16),
      hex_char (n mod 16)] @ cs) ((decoder_start v)\<lparr>d_high := - 1\<rparr>) =
    do { s \<leftarrow> decode_surrogate (unicode_done v (- 1) (of_nat n)); s \<leftarrow> decode_output s [];
         decode_loop False cs s }"
    using decode_unicode [of "CHR ''0''" "CHR ''0''" "hex_char (n div 16)" "hex_char (n mod 16)"
        "of_nat n" cs "- 1" v] by simp
  moreover have "(decoder_start v)\<lparr>d_high := - 1\<rparr> = decoder_start v"
    by (simp add: decoder_start_def)
  ultimately show ?thesis
    using assms max utf16_small [of n] utf8_ascii [of n]
    by (simp add: decode_surrogate_def decode_output_def unicode_done_def decoder_start_def)
qed

lemma decode_encode_char:
  "decode_loop False (encode_char c @ cs) (decoder_start v) = decode_loop False cs (decoder_start (v @ [c]))"
proof -
  consider (plain) "c \<noteq> quote" "c \<noteq> backslash" "\<not> char_code c < 0x20"
    | (control) "char_code c < 0x20" "c \<notin> {CHR 0x08, CHR 0x09, CHR 0x0A, CHR 0x0C, CHR 0x0D}"
    | (simple) "c \<in> {CHR 0x08, CHR 0x09, CHR 0x0A, CHR 0x0C, CHR 0x0D, quote, backslash}"
    by blast
  then show ?thesis
  proof cases
    case plain
    then have "encode_char c = [c]" by (auto simp: encode_char_def)
    moreover have "d_code (decoder_start v)" by (simp add: decoder_start_def)
    ultimately show ?thesis using decode_plain [OF plain] by simp
  next
    case control
    then show ?thesis
      using decode_control [OF control(1), of cs v] by (simp add: encode_char_def)
  next
    case simple
    then show ?thesis
      using decode_simple [of _ cs v]
      by (elim insertE emptyE) (simp_all add: encode_char_def simple_escape_def unescape_def del: decode_loop.simps)
  qed
qed

lemma decode_encode_all:
  "decode_loop False (concat (map encode_char cs) @ rest) (decoder_start v) =
    decode_loop False rest (decoder_start (v @ cs))"
  by (induction cs arbitrary: v) (simp_all add: decode_encode_char)

lemma decode_encode: "decode (encode s) v = Some (True, v @ s)"
proof -
  have "decode_loop True (encode s) (decoder_start v) =
      decode_loop False (concat (map encode_char s) @ [quote]) (decoder_start v)"
    by (simp add: encode_def decode_step_def decode_char_def decoder_start_def)
  also have "\<dots> = Some ((decoder_start (v @ s))\<lparr>d_ending := True\<rparr>)"
    unfolding decode_encode_all by (simp add: decode_step_def decode_char_def decoder_start_def)
  finally show ?thesis
    by (simp add: decode_def decoder_start_def)
qed

section \<open>The assertions of the decoder\<close>

definition decoder_inv :: "decoder \<Rightarrow> bool" where
  "decoder_inv d \<longleftrightarrow>
     (d_high d = - 1 \<or> utf16_check (ucast (d_high d)) = High) \<and>
     ((d_remaining d = 0 \<and> d_index d = 0 \<and> d_point d = - 1) \<or>
      (d_remaining d = 1 \<and> d_index d = 1 \<and> d_point d = - 1) \<or>
      (d_remaining d = 4 \<and> d_index d = 2 \<and> d_point d = - 1) \<or>
      (d_remaining d = 3 \<and> d_index d = 3 \<and> unat (d_point d) < 16) \<or>
      (d_remaining d = 2 \<and> d_index d = 4 \<and> unat (d_point d) < 16 ^ 2) \<or>
      (d_remaining d = 1 \<and> d_index d = 5 \<and> unat (d_point d) < 16 ^ 3))"

text \<open>Between the two halves of a round an escape sequence may have been completed.\<close>

definition half_inv :: "decoder \<Rightarrow> string \<Rightarrow> bool" where
  "half_inv d item \<longleftrightarrow>
     (d_high d = - 1 \<or> utf16_check (ucast (d_high d)) = High) \<and> d_remaining d = 0 \<and> d_index d = 0 \<and>
     ((d_point d = - 1 \<and> item \<noteq> []) \<or> (unat (d_point d) < 16 ^ 4 \<and> item = []))"

lemma unat_of_nat_le: "unat (of_nat n :: u32) \<le> n"
  by (simp add: unat_of_nat)

lemma hex_value_less: "hex_digit ch \<Longrightarrow> unat (hex_value ch) < 16"
  using unat_of_nat_le [of "char_code ch - 48"] unat_of_nat_le [of "10 + tolower ch - 97"]
  by (auto simp: hex_digit_def hex_value_def simp del: of_nat_diff)

lemma point_bound:
  assumes "unat p < 16 ^ k" "k \<le> 3" "hex_digit ch"
  shows "unat (p * 16 + hex_value ch) < 16 ^ Suc k"
proof -
  have h: "unat (hex_value ch) < 16" using assms(3) by (rule hex_value_less)
  have "(16 :: nat) ^ k \<le> 16 ^ 3" using assms(2) by (rule power_increasing) simp
  then have small: "unat p * 16 + unat (hex_value ch) < 2 ^ 32" using assms(1) h by simp
  then have "unat (p * 16 + hex_value ch) = unat p * 16 + unat (hex_value ch)"
    by (simp add: unat_word_ariths)
  with assms(1) h show ?thesis by simp
qed

lemma decode_char_inv:
  assumes "decoder_inv d" "d_code d" "\<not> d_ending d" "\<not> first"
  shows "\<exists>d' item. decode_char first final ch d = Some (d', item) \<and>
    (d_code d' \<longrightarrow> (if d_remaining d' = 0 \<and> \<not> d_ending d' then half_inv d' item else decoder_inv d') \<and>
      (d_ending d' \<longrightarrow> final))"
proof -
  have hex: "(48 \<le> char_code ch \<and> char_code ch \<le> 57) \<or> (97 \<le> tolower ch \<and> tolower ch \<le> 102) \<longleftrightarrow>
      hex_digit ch"
    by (simp add: hex_digit_def)
  have first: "hex_digit ch \<Longrightarrow> unat (hex_value ch) < 16" by (rule hex_value_less)
  show ?thesis
    using assms first point_bound [of "d_point d" 1 ch] point_bound [of "d_point d" 2 ch]
      point_bound [of "d_point d" 3 ch]
    unfolding decode_char_def hex decoder_inv_def
    by (elim disjE conjE) (simp_all add: decoder_inv_def half_inv_def Let_def)
qed

lemma surrogate_pair_point:
  assumes "utf16_check high = High" "utf16_check low = Low"
  shows "\<exists>cp. utf16_surrogate_pair_to_code_point high low = Some cp \<and>
    unat cp = 0x10000 + 0x400 * (unat high - 0xD800) + (unat low - 0xDC00) \<and> unat cp \<le> 0x10FFFF"
proof -
  have h: "0xD800 \<le> unat high" "unat high \<le> 0xDBFF" and l: "0xDC00 \<le> unat low" "unat low \<le> 0xDFFF"
    using assms by (auto simp: utf16_check_def word_le_nat_alt split: if_splits)
  let ?n = "0x10000 + 0x400 * (unat high - 0xD800) + (unat low - 0xDC00)"
  have n: "?n \<le> 0x10FFFF" using h l by simp
  have "(ucast high :: u32) = of_nat (unat high)" "(ucast low :: u32) = of_nat (unat low)"
    by simp_all
  define cp :: u32 where "cp = 0x10000 + 0x400 * (ucast high - 0xD800) + (ucast low - 0xDC00)"
  have "cp = of_nat ?n"
    using h l \<open>ucast high = of_nat (unat high)\<close> \<open>ucast low = of_nat (unat low)\<close>
    by (simp add: cp_def)
  then have "unat cp = ?n"
    using n by (simp only: unat_of_nat) simp
  moreover have "utf16_surrogate_pair_to_code_point high low = Some cp"
    using assms by (simp only: utf16_surrogate_pair_to_code_point_def cp_def simp_thms if_True)
  ultimately show ?thesis
    using n by (intro exI [of _ cp]) simp
qed

lemma utf32_to_utf8_some: "unat cp \<le> 0x10FFFF \<Longrightarrow> \<exists>u. utf32_to_utf8 cp = Some u \<and> u \<noteq> []"
  by (simp add: utf32_to_utf8_def word_le_nat_alt)

lemma small_not_max: "unat (p :: u32) \<le> 0x10FFFF \<Longrightarrow> p \<noteq> - 1"
  by (auto simp: unsigned_minus_1_eq_mask mask_eq_exp_minus_1)

lemma decode_halves_inv:
  assumes "half_inv d item" "d_code d"
  shows "\<exists>d1 d2. decode_surrogate d = Some d1 \<and> decode_output d1 item = Some d2 \<and>
    (d_code d2 \<longrightarrow> decoder_inv d2) \<and> d_ending d2 = d_ending d"
proof -
  have high: "d_high d = - 1 \<or> utf16_check (ucast (d_high d)) = High"
    using assms by (simp add: half_inv_def)
  show ?thesis
  proof (cases "d_point d = - 1")
    case True
    then have "item \<noteq> []" using assms small_not_max [of "d_point d"] by (auto simp: half_inv_def)
    with True assms show ?thesis
      by (auto simp: decode_surrogate_def decode_output_def half_inv_def decoder_inv_def)
  next
    case False
    then have p: "unat (d_point d) < 16 ^ 4" "item = []"
      using assms by (auto simp: half_inv_def)
    have utf8: "\<exists>u. utf32_to_utf8 (d_point d) = Some u \<and> u \<noteq> []"
      using p(1) by (intro utf32_to_utf8_some) simp
    consider (pair) "d_high d \<noteq> - 1" "utf16_check (ucast (d_point d)) = Low"
      | (bad) "d_high d \<noteq> - 1" "utf16_check (ucast (d_point d)) \<noteq> Low"
      | (plain) "d_high d = - 1" by blast
    then show ?thesis
    proof cases
      case pair
      then obtain cp where cp: "utf16_surrogate_pair_to_code_point (ucast (d_high d)) (ucast (d_point d)) = Some cp"
          "unat cp \<le> 0x10FFFF"
        using surrogate_pair_point high by blast
      moreover obtain u where "utf32_to_utf8 cp = Some u" "u \<noteq> []"
        using utf32_to_utf8_some [OF cp(2)] by auto
      ultimately show ?thesis
        using pair p False assms small_not_max [OF cp(2)]
        by (auto simp: decode_surrogate_def decode_output_def half_inv_def decoder_inv_def)
    next
      case bad
      then show ?thesis
        using p False assms by (auto simp: decode_surrogate_def decode_output_def)
    next
      case plain
      then show ?thesis
        using p False assms utf8
        by (cases "utf16_check (ucast (d_point d))")
           (auto simp: decode_surrogate_def decode_output_def half_inv_def decoder_inv_def)
    qed
  qed
qed

lemma decode_step_inv:
  assumes "decoder_inv d" "d_code d" "\<not> d_ending d"
  shows "\<exists>d'. decode_step False final ch d = Some d' \<and>
    (d_code d' \<longrightarrow> decoder_inv d' \<and> (d_ending d' \<longrightarrow> final))"
proof -
  obtain d1 item where d1: "decode_char False final ch d = Some (d1, item)"
      "d_code d1 \<longrightarrow> (if d_remaining d1 = 0 \<and> \<not> d_ending d1 then half_inv d1 item else decoder_inv d1) \<and>
        (d_ending d1 \<longrightarrow> final)"
    using decode_char_inv [OF assms, of False final ch] by auto
  show ?thesis
  proof (cases "d_code d1 \<and> d_remaining d1 = 0 \<and> \<not> d_ending d1")
    case True
    then have half: "half_inv d1 item" using d1 by simp
    then have "(- 1 \<noteq> d_point d1 \<and> item = []) \<or> (- 1 = d_point d1 \<and> item \<noteq> [])"
      using small_not_max [of "d_point d1"] by (auto simp: half_inv_def)
    with True d1 decode_halves_inv [OF half] show ?thesis
      by (auto simp: decode_step_def)
  next
    case False
    with d1 show ?thesis by (auto simp: decode_step_def)
  qed
qed

lemma decode_loop_defined:
  "decoder_inv d \<Longrightarrow> \<not> d_ending d \<Longrightarrow> decode_loop False cs d \<noteq> None"
proof (induction cs arbitrary: d)
  case (Cons c cs)
  show ?case
  proof (cases "d_code d")
    case True
    then obtain d' where d': "decode_step False (cs = []) c d = Some d'"
        "d_code d' \<longrightarrow> decoder_inv d' \<and> (d_ending d' \<longrightarrow> cs = [])"
      using decode_step_inv [OF Cons.prems(1) _ Cons.prems(2)] by blast
    show ?thesis
    proof (cases "d_code d' \<and> \<not> d_ending d'")
      case True
      with d' Cons.IH [of d'] \<open>d_code d\<close> show ?thesis by simp
    next
      case False
      then have "decode_loop False cs d' \<noteq> None" using d' by (cases cs) auto
      with d' \<open>d_code d\<close> show ?thesis by simp
    qed
  qed simp
qed simp

lemma decode_some: "\<exists>r. decode s v = Some r"
proof (cases s)
  case (Cons c cs)
  have "\<exists>d. decode_step True (cs = []) c (decoder_start v) = Some d \<and>
      (d_code d \<longrightarrow> decoder_inv d \<and> \<not> d_ending d)"
    by (simp add: decode_step_def decode_char_def decoder_start_def decoder_inv_def)
  then obtain d where d: "decode_step True (cs = []) c (decoder_start v) = Some d"
      "d_code d \<longrightarrow> decoder_inv d \<and> \<not> d_ending d" by blast
  have "decode_loop False cs d \<noteq> None"
  proof (cases "d_code d")
    case True
    with d(2) show ?thesis by (intro decode_loop_defined) auto
  next
    case False
    then show ?thesis by (cases cs) auto
  qed
  with d Cons show ?thesis
    by (auto simp: decode_def decoder_start_def Let_def)
qed (simp add: decode_def Let_def)

section \<open>Unicode escapes\<close>

definition hex4 :: "string \<Rightarrow> u32" where
  "hex4 hs = foldl (\<lambda>p h. p * 16 + hex_value h) 0 hs"

definition unicode_escape :: "string \<Rightarrow> string" where
  "unicode_escape hs = [backslash, CHR ''u''] @ hs"

lemma decode_unicode_escape:
  assumes "length hs = 4" "list_all hex_digit hs"
  shows "decode_loop False (unicode_escape hs @ cs) ((decoder_start v)\<lparr>d_high := high\<rparr>) =
    do { s \<leftarrow> decode_surrogate (unicode_done v high (hex4 hs)); s \<leftarrow> decode_output s [];
         decode_loop False cs s } \<and> unat (hex4 hs) < 16 ^ 4"
proof -
  obtain a b c d where hs: "hs = [a, b, c, d]"
    using assms(1) by (auto simp: numeral_eq_Suc length_Suc_conv)
  have digit: "hex_digit a" "hex_digit b" "hex_digit c" "hex_digit d"
    using assms(2) hs by simp_all
  have "unat (hex_value a) < 16 ^ 1" using hex_value_less [OF digit(1)] by simp
  from point_bound [OF point_bound [OF point_bound [OF this _ digit(2)] _ digit(3)] _ digit(4)]
  have bound: "unat (hex4 hs) < 16 ^ 4"
    by (simp add: hs hex4_def)
  then have "hex4 hs \<noteq> - 1" by (intro small_not_max) simp
  moreover have "list_all hex_digit [a, b, c, d]" using digit by simp
  moreover have "hex4 hs = ((hex_value a * 16 + hex_value b) * 16 + hex_value c) * 16 + hex_value d"
    by (simp only: hs hex4_def foldl.simps mult_zero_left add_0)
  moreover have "unicode_escape hs @ cs = backslash # CHR ''u'' # a # b # c # d # cs"
    by (simp add: unicode_escape_def hs)
  ultimately show ?thesis
    using decode_unicode [of a b c d "hex4 hs" cs high v] bound by metis
qed

lemma decode_quote_start:
  "decode (quote # cs) [] =
    do { d \<leftarrow> decode_loop False cs ((decoder_start [])\<lparr>d_high := - 1\<rparr>);
         let ok = (d_code d \<and> d_ending d \<and> d_point d = - 1 \<and> d_high d = - 1 \<and> d_remaining d = 0);
         Some (ok, if ok then d_value d else []) }"
  by (simp add: decode_def decode_step_def decode_char_def decoder_start_def)

lemma decode_quote_end:
  "decode_loop False [quote] ((decoder_start v)\<lparr>d_high := high\<rparr>) =
    Some ((decoder_start v)\<lparr>d_high := high, d_ending := True\<rparr>)"
  by (simp add: decode_step_def decode_char_def decoder_start_def)

lemma unicode_done_high:
  assumes "unat p < 16 ^ 4" "utf16_check (ucast p) = High"
  shows "do { s \<leftarrow> decode_surrogate (unicode_done v (- 1) p); s \<leftarrow> decode_output s [];
      decode_loop False cs s } = decode_loop False cs ((decoder_start v)\<lparr>d_high := p\<rparr>)"
  using assms small_not_max [of p]
  by (simp add: decode_surrogate_def decode_output_def unicode_done_def decoder_start_def)

section \<open>Properties\<close>

text \<open>C15: Every byte string survives JSON: the lexer takes exactly the encoded string out of
  whatever follows it, and decoding gives the bytes back.\<close>

theorem json_string_roundtrip:
  "value_string_parse (encode s @ rest) = Some (True, length (encode s)) \<and>
   decode (encode s) [] = Some (True, s)"
  using value_string_parse_encode [of s rest] decode_encode [of s "[]"] by simp

text \<open>Decoding never runs into one of its assertions, whatever the input: it answers,
  and an input it rejects leaves an empty string.\<close>

theorem json_decode_defined:
  "case decode s v of None \<Rightarrow> False | Some (ok, v') \<Rightarrow> ok \<or> v' = []"
  using decode_some [of s v] by (auto simp: decode_def Let_def split: bind_splits)

text \<open>A unicode escape decodes to the UTF-8 bytes of its code point; a high surrogate
  followed by a low one to those of the pair's code point above the basic plane; a surrogate
  on its own is rejected.\<close>

theorem json_decode_unicode:
  assumes hs: "length hs = 4" "list_all hex_digit hs" and ls: "length ls = 4" "list_all hex_digit ls"
  shows "decode (quote # unicode_escape hs @ [quote]) [] =
      (if utf16_check (ucast (hex4 hs)) = Bmp then map_option (Pair True) (utf32_to_utf8 (hex4 hs))
       else Some (False, [])) \<and>
    (utf16_check (ucast (hex4 hs)) = High \<and> utf16_check (ucast (hex4 ls)) = Low \<longrightarrow>
      (\<exists>cp. unat cp = 0x10000 + 0x400 * (unat (hex4 hs) - 0xD800) + (unat (hex4 ls) - 0xDC00) \<and>
        decode (quote # unicode_escape hs @ unicode_escape ls @ [quote]) [] =
          map_option (Pair True) (utf32_to_utf8 cp)))"
proof -
  have h: "unat (hex4 hs) < 16 ^ 4" "hex4 hs \<noteq> - 1" and l: "unat (hex4 ls) < 16 ^ 4" "hex4 ls \<noteq> - 1"
    using decode_unicode_escape [OF hs] decode_unicode_escape [OF ls] small_not_max by force+
  have one: "decode (quote # unicode_escape hs @ [quote]) [] =
      (if utf16_check (ucast (hex4 hs)) = Bmp then map_option (Pair True) (utf32_to_utf8 (hex4 hs))
       else Some (False, []))"
  proof (cases "utf16_check (ucast (hex4 hs))")
    case High
    then show ?thesis
      using decode_unicode_escape [OF hs, of "[quote]" "- 1" "[]"] unicode_done_high [OF h(1)] h(2)
      by (simp add: decode_quote_start decode_quote_end Let_def del: decode_loop.simps)
  next
    case Low
    then show ?thesis
      using decode_unicode_escape [OF hs, of "[quote]" "- 1" "[]"] h(2)
      by (simp add: decode_quote_start Let_def decode_surrogate_def decode_output_def
          unicode_done_def decoder_start_def)
  next
    case Bmp
    obtain u where "utf32_to_utf8 (hex4 hs) = Some u" "u \<noteq> []"
      using utf32_to_utf8_some [of "hex4 hs"] h(1) by auto
    with Bmp show ?thesis
      using decode_unicode_escape [OF hs, of "[quote]" "- 1" "[]"] h(2)
        decode_quote_end [of "- 1" u]
      by (simp add: decode_quote_start Let_def decode_surrogate_def decode_output_def
          unicode_done_def decoder_start_def del: decode_loop.simps)
  qed
  have "\<exists>cp. unat cp = 0x10000 + 0x400 * (unat (hex4 hs) - 0xD800) + (unat (hex4 ls) - 0xDC00) \<and>
      decode (quote # unicode_escape hs @ unicode_escape ls @ [quote]) [] =
        map_option (Pair True) (utf32_to_utf8 cp)"
    if sur: "utf16_check (ucast (hex4 hs)) = High" "utf16_check (ucast (hex4 ls)) = Low"
  proof -
    have same: "unat (ucast (hex4 x) :: u16) = unat (hex4 x)" if "unat (hex4 x) < 16 ^ 4" for x
      using that by (simp add: unsigned_ucast_eq unsigned_take_bit_eq take_bit_nat_eq_self_iff)
    obtain cp where cp: "utf16_surrogate_pair_to_code_point (ucast (hex4 hs)) (ucast (hex4 ls)) = Some cp"
        "unat cp = 0x10000 + 0x400 * (unat (hex4 hs) - 0xD800) + (unat (hex4 ls) - 0xDC00)"
        "unat cp \<le> 0x10FFFF"
      using surrogate_pair_point [OF sur] same [OF h(1)] same [OF l(1)] by metis
    obtain u where u: "utf32_to_utf8 cp = Some u" "u \<noteq> []"
      using utf32_to_utf8_some [OF cp(3)] by auto
    have "decode_loop False (unicode_escape hs @ unicode_escape ls @ [quote]) ((decoder_start [])\<lparr>d_high := - 1\<rparr>) =
        decode_loop False (unicode_escape ls @ [quote]) ((decoder_start [])\<lparr>d_high := hex4 hs\<rparr>)"
      using decode_unicode_escape [OF hs, of "unicode_escape ls @ [quote]" "- 1" "[]"]
        unicode_done_high [OF h(1) sur(1)] by simp
    also have "\<dots> = decode_loop False [quote] ((decoder_start u)\<lparr>d_high := - 1\<rparr>)"
      using decode_unicode_escape [OF ls, of "[quote]" "hex4 hs" "[]"] cp(1) u sur h(2) l(2)
        small_not_max [OF cp(3)]
      by (simp add: decode_surrogate_def decode_output_def unicode_done_def decoder_start_def
          del: decode_loop.simps)
    finally have "decode (quote # unicode_escape hs @ unicode_escape ls @ [quote]) [] = Some (True, u)"
      using decode_quote_end [of "- 1" u]
      by (simp add: decode_quote_start Let_def decoder_start_def del: decode_loop.simps)
    with cp(2) u show ?thesis by auto
  qed
  with one show ?thesis by blast
qed

theorem json_decode_unicode_witness:
  "decode (quote # unicode_escape ''0041'' @ [quote]) [] = Some (True, ''A'')"
proof -
  have "hex4 ''0041'' = 65"
    by (simp add: hex4_def hex_value_def)
  moreover have "list_all hex_digit ''0041''"
    by (simp add: hex_digit_def)
  moreover have "char_of (65 :: nat) = CHR ''A''" by code_simp
  ultimately show ?thesis
    using json_decode_unicode [of "''0041''" "''0041''"]
    by (simp add: utf16_check_def utf32_to_utf8_def byte_def)
qed

end
