(* ===== verification/Json_Lexers.thy ===== *)
theory Json_Lexers
  imports Parser_Driver Json_String
begin

text \<open>
  The lexers of \<open>src/belt.pp/json.hpp\<close>. The tag of a lexer is its position in the list
  of lexers. They are an instance of the parser's contract, so every text, in whatever
  pieces it arrives, is parsed without undefined behaviour.
\<close>

section \<open>The list\<close>

datatype json_lexer =
    Operator_comma
  | Scope_brace
  | Scope_bracket
  | Operator_colon
  | Value_string
  | Value_number
  | Value_bool
  | Value_null
  | Discard

definition json_list :: "json_lexer list" where
  "json_list = [Operator_comma, Scope_brace, Scope_bracket, Operator_colon, Value_string,
     Value_number, Value_bool, Value_null, Discard]"

definition json_rtt :: "json_lexer \<Rightarrow> u8" where
  "json_rtt l = of_int (the (type_list_index l json_list))"

section \<open>The scanners\<close>

definition operator_comma_parse :: operator_parse where
  "operator_comma_parse s =
     (case s of [] \<Rightarrow> None
      | c # _ \<Rightarrow> Some (if c \<noteq> CHR '','' then (False, 0, False, 0, 0) else (True, 1, True, 1, 1)))"

definition operator_colon_parse :: operator_parse where
  "operator_colon_parse s =
     (case s of [] \<Rightarrow> None
      | c # _ \<Rightarrow> Some (if c \<noteq> CHR '':'' then (False, 0, False, 0, 0) else (True, 1, True, 1, 0)))"

definition scope_brace_parse :: operator_parse where
  "scope_brace_parse s =
     (case s of [] \<Rightarrow> None
      | c # _ \<Rightarrow> Some (if c \<noteq> CHR ''{'' \<and> c \<noteq> CHR ''}'' then (False, 0, False, 0, 0)
                    else if c = CHR ''{'' then (True, 1, False, 1, 4)
                    else (True, 1, True, 0, 8)))"

definition scope_bracket_parse :: operator_parse where
  "scope_bracket_parse s =
     (case s of [] \<Rightarrow> None
      | c # _ \<Rightarrow> Some (if c \<noteq> CHR ''['' \<and> c \<noteq> CHR '']'' then (False, 0, False, 0, 0)
                    else if c = CHR ''['' then (True, 1, False, 1, 4)
                    else (True, 1, True, 0, 8)))"

text \<open>\<open>check_number\<close> is called without a mode, which is stream mode.\<close>

definition value_number_parse :: "string \<Rightarrow> (bool \<times> nat) option" where
  "value_number_parse s = (case check_number True s of Inl e \<Rightarrow> None | Inr r \<Rightarrow> Some r)"

definition value_bool_parse :: "string \<Rightarrow> (bool \<times> nat) option" where
  "value_bool_parse s =
     (let (code, n) = check s ''true''
      in if code then Some (code, n) else Some (check s ''false''))"

definition value_null_parse :: "string \<Rightarrow> (bool \<times> nat) option" where
  "value_null_parse s = Some (check s ''null'')"

definition json_discard_parse :: "string \<Rightarrow> (bool \<times> nat) option" where
  "json_discard_parse s =
     (let n = length (takeWhile (\<lambda>c. CHR '' '' = c \<or> CHR 0x09 = c \<or> CHR 0x0D = c \<or> CHR 0x0A = c) s)
      in Some (n \<noteq> 0, n))"

definition json_lexers :: "lexer list" where
  "json_lexers =
     [operator_lexer_base (json_rtt Operator_comma) 1 operator_comma_parse,
      operator_lexer_base (json_rtt Scope_brace) 3 scope_brace_parse,
      operator_lexer_base (json_rtt Scope_bracket) 4 scope_bracket_parse,
      operator_lexer_base (json_rtt Operator_colon) 2 operator_colon_parse,
      value_lexer_base (json_rtt Value_string) value_string_parse,
      value_lexer_base (json_rtt Value_number) value_number_parse,
      value_lexer_base (json_rtt Value_bool) value_bool_parse,
      value_lexer_base (json_rtt Value_null) value_null_parse,
      discard_lexer_base_flexible json_discard_parse]"

section \<open>The contract\<close>

lemma json_rtt_simps [simp]:
  "json_rtt Operator_comma = 0" "json_rtt Scope_brace = 1" "json_rtt Scope_bracket = 2"
  "json_rtt Operator_colon = 3" "json_rtt Value_string = 4" "json_rtt Value_number = 5"
  "json_rtt Value_bool = 6" "json_rtt Value_null = 7" "json_rtt Discard = 8"
  by (simp_all add: json_rtt_def json_list_def)

lemma operator_lexer_ok:
  assumes "\<exists>code n place ri pr. parse s = Some (code, n, place, ri, pr) \<and> n \<le> length s"
  shows "\<exists>r. operator_lexer_base rtt prio parse s = Some r \<and> read_ok s r"
proof -
  obtain code n place ri pr where p: "parse s = Some (code, n, place, ri, pr)" "n \<le> length s"
    using assms by auto
  moreover have "expression_data_operator rtt prio ri pr = data_of (Toper (rtt, prio, ri, pr))"
    by (simp add: data_of.simps)
  ultimately show ?thesis
    unfolding operator_lexer_base_def read_ok_def by auto
qed

lemma value_lexer_ok:
  assumes "\<exists>code n. parse s = Some (code, n) \<and> n \<le> length s"
  shows "\<exists>r. value_lexer_base rtt parse s = Some r \<and> read_ok s r"
proof -
  obtain code n where p: "parse s = Some (code, n)" "n \<le> length s"
    using assms by auto
  moreover have "\<exists>tok. expression_data_value rtt (of_nat n) = data_of tok"
    by (rule exI [of _ "Tvalue rtt (of_nat n)"]) simp
  ultimately show ?thesis
    unfolding value_lexer_base_def read_ok_def by auto
qed

lemma discard_lexer_ok:
  assumes "\<exists>code n. parse s = Some (code, n) \<and> n \<le> length s"
  shows "\<exists>r. discard_lexer_base_flexible parse s = Some r \<and> read_ok s r"
  using assms by (auto simp: discard_lexer_base_flexible_def read_ok_def)

lemma string_body_le: "string_body s k = (ok, n) \<Longrightarrow> n \<le> k + length s"
proof (induction s k arbitrary: ok n rule: string_body.induct)
  case (2 c cs k)
  show ?case
  proof (cases "c = backslash")
    case True
    show ?thesis
    proof (cases cs)
      case (Cons e es)
      then show ?thesis
        using 2 True by (fastforce split: if_splits)
    qed (use 2 True in auto)
  next
    case False
    with 2 show ?thesis by (fastforce split: if_splits)
  qed
qed simp

lemma value_string_parse_ok: "s \<noteq> [] \<Longrightarrow> \<exists>code n. value_string_parse s = Some (code, n) \<and> n \<le> length s"
  using string_body_le [of "tl s" 1]
  by (cases s; cases "string_body (tl s) 1") (auto simp: value_string_parse_def)

lemma check_le: "check s str = (code, n) \<Longrightarrow> n \<le> length s"
  by (auto simp: check_spec dest: prefix_length_le split: if_splits)

lemma value_number_parse_ok: "\<exists>code n. value_number_parse s = Some (code, n) \<and> n \<le> length s"
proof -
  obtain xs ys n where run: "s = xs @ ys" "number_run xs number_start = Some n"
      "ys = [] \<or> number_step n (hd ys) = Inr None"
    using number_loop_stops [of s number_start] by metis
  have "ns_end n \<le> length s"
    using number_run_end [OF run(2)] run(1) by simp
  then show ?thesis
    unfolding value_number_parse_def check_number_value [OF run] by auto
qed

lemma takeWhile_length_le: "length (takeWhile P s) \<le> length s"
  by (induction s) auto

interpretation json: lexer_group json_lexers None
proof
  fix lx :: lexer and s :: string
  assume "lx \<in> set json_lexers" and s: "s \<noteq> []"
  moreover obtain c cs where cs: "s = c # cs" using s by (cases s) auto
  moreover have "\<exists>code n. value_bool_parse s = Some (code, n) \<and> n \<le> length s"
    by (cases "check s ''true''"; cases "check s ''false''") (auto simp: value_bool_parse_def dest: check_le)
  moreover have "\<exists>code n. value_null_parse s = Some (code, n) \<and> n \<le> length s"
    by (cases "check s ''null''") (auto simp: value_null_parse_def dest: check_le)
  moreover have "\<exists>code n. json_discard_parse s = Some (code, n) \<and> n \<le> length s"
    by (simp add: json_discard_parse_def takeWhile_length_le Let_def)
  ultimately show "\<exists>r. lx s = Some r \<and> read_ok s r"
    unfolding json_lexers_def using value_string_parse_ok [OF s] value_number_parse_ok [of s]
    by (auto intro!: operator_lexer_ok value_lexer_ok discard_lexer_ok
        simp: operator_comma_parse_def operator_colon_parse_def scope_brace_parse_def scope_bracket_parse_def)
qed

section \<open>Properties\<close>

text \<open>C13: JSON parsing is total: for any text and any limits the parser ends without undefined
  behaviour, the tree it leaves has a meaning, and unless it reports an error the characters
  it took and the rest it left are the text.\<close>

theorem json_parse_total:
  assumes "s \<noteq> []" "length s < 2 ^ 27"
  shows "\<exists>ok t rest. parse_stream lim None json_lexers tree_new s = Some (ok, t, rest) \<and>
    sound_tree t \<and> (ok \<longrightarrow> expression_string t @ rest = s) \<and> prefix (expression_string t) s"
proof -
  have "length json_lexers = 9" by (simp add: json_lexers_def)
  then have "room_for (length json_lexers * (length s + 1)) tree_new"
    using assms(2) by (simp add: room_for_def tree_new_def)
  from json.stream_total [OF sound_tree_new this, of lim]
  show ?thesis
    using assms(1) by (simp add: parse_stream_def dflt_data_def) (simp add: tree_new_def)
qed

theorem json_parse_total_witness:
  "\<exists>ok t rest. parse_stream \<lparr>not_yet_parsed_size_limit = 8, depth_limit = 8,
     expression_size_limit = 8, buffer_size_limit = 8\<rparr> None json_lexers tree_new ''[1]'' =
     Some (ok, t, rest) \<and> sound_tree t"
  using json_parse_total [of "''[1]''"] by fastforce

end
