(* ===== verification/Strings.thy ===== *)
theory Strings
  imports Prelude "HOL-Library.Sublist" "HOL-Library.Monad_Syntax"
begin

text \<open>
  The member functions of \<open>std::string\<close> that the code uses: \<open>find\<close> and
  \<open>substr\<close>. \<open>find\<close> answers the first position at or after \<open>pos\<close>, and None
  stands for \<open>npos\<close>.
\<close>

definition string_find :: "string \<Rightarrow> string \<Rightarrow> nat \<Rightarrow> nat option" where
  "string_find s str pos = List.find (\<lambda>i. prefix str (drop i s)) [pos..<Suc (length s)]"

definition string_substr :: "string \<Rightarrow> nat \<Rightarrow> nat \<Rightarrow> string" where
  "string_substr s pos n = take n (drop pos s)"

abbreviation crlf :: string where
  "crlf \<equiv> [CHR 0x0D, CHR 0x0A]"

lemma find_upt_Some:
  "List.find P [a..<b] = Some i \<longleftrightarrow> a \<le> i \<and> i < b \<and> P i \<and> (\<forall>j. a \<le> j \<and> j < i \<longrightarrow> \<not> P j)"
  (is "?l \<longleftrightarrow> ?r")
proof
  assume ?l
  then obtain k where k: "k < length [a..<b]" "P ([a..<b] ! k)" "i = [a..<b] ! k"
      "\<forall>j<k. \<not> P ([a..<b] ! j)"
    by (auto simp: find_Some_iff)
  then have i: "i = a + k" "a + k < b" by simp_all
  have "\<not> P j" if "a \<le> j" "j < i" for j
    using k(4) [rule_format, of "j - a"] that i by simp
  with k i show ?r by simp
next
  assume r: ?r
  then show ?l
    by (auto simp: find_Some_iff intro!: exI [of _ "i - a"])
qed

lemma string_find_Some:
  "string_find s str pos = Some i \<longleftrightarrow> pos \<le> i \<and> i \<le> length s \<and> prefix str (drop i s) \<and>
    (\<forall>j. pos \<le> j \<and> j < i \<longrightarrow> \<not> prefix str (drop j s))"
  unfolding string_find_def by (simp add: find_upt_Some less_Suc_eq_le del: upt_Suc)

lemma string_find_None:
  "string_find s str pos = None \<longleftrightarrow> (\<forall>j. pos \<le> j \<and> j \<le> length s \<longrightarrow> \<not> prefix str (drop j s))"
  by (auto simp: string_find_def find_None_iff less_Suc_eq_le simp del: upt_Suc)

text \<open>A single character is found behind the longest run without it.\<close>

lemma prefix_char: "prefix [c] xs \<longleftrightarrow> xs \<noteq> [] \<and> hd xs = c"
  by (cases xs) auto

lemma string_find_char:
  assumes "c \<notin> set xs" "length pre = pos"
  shows "string_find (pre @ xs @ c # rest) [c] pos = Some (pos + length xs)"
proof -
  have "\<not> prefix [c] (drop j (pre @ xs @ c # rest))" if "pos \<le> j" "j < pos + length xs" for j
  proof -
    have "drop j (pre @ xs @ c # rest) = drop (j - pos) xs @ c # rest"
      using that assms(2) by simp
    moreover have "j - pos < length xs" using that by simp
    ultimately have "hd (drop j (pre @ xs @ c # rest)) = xs ! (j - pos)"
      by (simp add: hd_append hd_drop_conv_nth)
    moreover have "xs ! (j - pos) \<noteq> c"
      using assms(1) \<open>j - pos < length xs\<close> by (metis nth_mem)
    ultimately show ?thesis by (simp only: prefix_char) simp
  qed
  then show ?thesis
    using assms(2) by (auto simp: string_find_Some)
qed

lemma string_find_char_None:
  assumes "c \<notin> set xs" "length pre = pos"
  shows "string_find (pre @ xs) [c] pos = None"
  unfolding string_find_None
proof (intro allI impI)
  fix j assume j: "pos \<le> j \<and> j \<le> length (pre @ xs)"
  then have "drop j (pre @ xs) = drop (j - pos) xs"
    using assms(2) by simp
  moreover have "c \<notin> set (drop (j - pos) xs)"
    using assms(1) by (meson in_set_dropD)
  ultimately show "\<not> prefix [c] (drop j (pre @ xs))"
    by (metis prefix_char hd_in_set)
qed

end
