(* ===== verification/Http.thy ===== *)
theory Http
  imports Strings Scan
begin

text \<open>
  \<open>src/belt.pp/http.hpp\<close>: splitting and percent decoding of a request line, the request
  object, the three replies, and the scanner of a request in a receive buffer that keeps
  its progress in the session between calls. None is undefined behaviour or a loop that
  does not end. The buffer is one text, an iterator into it a position.
\<close>

section \<open>Helpers of the request\<close>

partial_function (option) split_loop ::
  "string \<Rightarrow> string \<Rightarrow> bool \<Rightarrow> nat \<Rightarrow> bool \<Rightarrow> nat \<Rightarrow> string list \<Rightarrow> string list option" where
  "split_loop val separator skip_empty limit till_the_end find_index parts =
     (if find_index < length val \<and> length parts < limit
      then let next_index =
                 (case string_find val separator find_index of
                    None \<Rightarrow> length val
                  | Some i \<Rightarrow> if length parts = limit - 1 \<and> till_the_end then length val else i);
               part = string_substr val find_index (next_index - find_index)
           in split_loop val separator skip_empty limit till_the_end
                (next_index + length separator)
                (if part \<noteq> [] \<or> \<not> skip_empty then parts @ [part] else parts)
      else Some parts)"

declare split_loop.simps [code]

definition split :: "string \<Rightarrow> string \<Rightarrow> bool \<Rightarrow> nat \<Rightarrow> bool \<Rightarrow> string list option" where
  "split val separator skip_empty limit till_the_end =
     split_loop val separator skip_empty limit till_the_end 0 []"

text \<open>\<open>size_t(-1)\<close> as a limit.\<close>

abbreviation no_limit :: nat where
  "no_limit \<equiv> 2 ^ 64 - 1"

fun from_hex_loop :: "string \<Rightarrow> usize \<Rightarrow> usize" where
  "from_hex_loop [] res = res"
| "from_hex_loop (item # items) res =
     (if 48 \<le> char_code item \<and> char_code item \<le> 57
      then from_hex_loop items (res * 16 + of_nat (char_code item - 48))
      else if 97 \<le> char_code item \<and> char_code item \<le> 102
      then from_hex_loop items (res * 16 + of_nat (char_code item - 97 + 10))
      else if 65 \<le> char_code item \<and> char_code item \<le> 70
      then from_hex_loop items (res * 16 + of_nat (char_code item - 65 + 10))
      else - 1)"

definition from_hex :: "string \<Rightarrow> usize" where
  "from_hex val = from_hex_loop val 0"

function percent_decode_loop :: "string \<Rightarrow> nat \<Rightarrow> string \<Rightarrow> string" where
  "percent_decode_loop val find_index res =
     (if find_index < length val
      then let next_index = (case string_find val ''%'' find_index of
                               None \<Rightarrow> length val | Some i \<Rightarrow> i);
               hex = from_hex (string_substr val (next_index + 1) 2)
           in percent_decode_loop val (next_index + 3)
                (if next_index + 2 \<ge> length val \<or> - 1 = hex
                 then res @ string_substr val find_index (length val - find_index)
                 else res @ string_substr val find_index (next_index - find_index) @
                      [char_of (unat hex)])
      else res)"
  by pat_completeness auto

termination
  by (relation "measure (\<lambda>(val, find_index, res). length val - find_index)")
     (auto split: option.splits simp: string_find_Some)

declare percent_decode_loop.simps [simp del]

definition percent_decode :: "string \<Rightarrow> string" where
  "percent_decode val = percent_decode_loop val 0 []"

section \<open>The request\<close>

record request =
  path :: "string list"
  arguments :: "string \<rightharpoonup> string"
  properties :: "string \<rightharpoonup> string"

definition request_new :: request where
  "request_new = \<lparr>path = [], arguments = Map.empty, properties = Map.empty\<rparr>"

text \<open>\<open>front\<close> and \<open>back\<close> of an empty vector are undefined.\<close>

definition vec_front :: "'a list \<Rightarrow> 'a option" where
  "vec_front xs = (case xs of [] \<Rightarrow> None | x # _ \<Rightarrow> Some x)"

definition vec_back :: "'a list \<Rightarrow> 'a option" where
  "vec_back xs = (if xs = [] then None else Some (last xs))"

definition set_argument ::
  "string \<Rightarrow> bool \<times> (string \<rightharpoonup> string) \<Rightarrow> (bool \<times> (string \<rightharpoonup> string)) option" where
  "set_argument part_item st =
     do { subparts \<leftarrow> split part_item ''='' True 2 False;
          let (ok, args) = st;
          if subparts = [] \<or> length subparts > 2 then Some (False, args)
          else if length subparts = 1
          then Some (ok, args(percent_decode (hd subparts) \<mapsto> []))
          else Some (ok, args(percent_decode (hd subparts) \<mapsto> percent_decode (last subparts))) }"

fun set_arguments ::
  "string list \<Rightarrow> bool \<times> (string \<rightharpoonup> string) \<Rightarrow> (bool \<times> (string \<rightharpoonup> string)) option" where
  "set_arguments [] st = Some st"
| "set_arguments (part_item # parts) st =
     do { st \<leftarrow> set_argument part_item st; set_arguments parts st }"

text \<open>\<open>set\<close>: the answer and the request. Without any part in the url the code goes on
  to take the front of an empty vector.\<close>

definition request_set :: "string \<Rightarrow> request \<Rightarrow> (bool \<times> request) option" where
  "request_set url r =
     do { parts \<leftarrow> split url ''?'' True 2 False;
          let ok = \<not> (parts = [] \<or> length parts > 2);
          (ok, part_path, part_query) \<leftarrow>
            (if length parts = 1 then do { p \<leftarrow> vec_front parts; Some (ok, p, []) }
             else do {
               part_path \<leftarrow> vec_front parts;
               query_and_hash \<leftarrow> vec_back parts;
               parts \<leftarrow> split query_and_hash ''#'' True 2 False;
               if parts = [] \<or> length parts > 2 then Some (False, part_path, [])
               else do { part_query \<leftarrow> vec_front parts; Some (ok, part_path, part_query) } });
          path' \<leftarrow> split part_path ''/'' True no_limit False;
          parts \<leftarrow> split part_query ''&'' True no_limit False;
          (ok, args) \<leftarrow> set_arguments parts (ok, arguments r);
          Some (ok, r\<lparr>path := map percent_decode path', arguments := args\<rparr>) }"

definition add_property :: "string \<Rightarrow> request \<Rightarrow> (bool \<times> request) option" where
  "add_property val r =
     do { parts \<leftarrow> split val '': '' False 2 True;
          if parts = [] \<or> length parts > 2 then Some (False, r)
          else if length parts = 1
          then Some (True, r\<lparr>properties := (properties r)(hd parts \<mapsto> [])\<rparr>)
          else Some (True, r\<lparr>properties := (properties r)(hd parts \<mapsto> last parts)\<rparr>) }"

section \<open>The session and the replies\<close>

datatype e_status = Status_clean | Http_request_progress | Http_properties_progress | Http_done

datatype e_type = Get | Post | Put | Del | Options

record scan_status =
  status :: e_status
  req_type :: e_type
  http_header_scanning :: nat
  resource :: request

definition scan_status_new :: scan_status where
  "scan_status_new = \<lparr>status = Status_clean, req_type = Post, http_header_scanning = 0,
     resource = request_new\<rparr>"

text \<open>
  The list of the session holds the scan status of one protocol inside another; what is not
  HTTP's own is opaque here. \<open>session_handler\<close> says whether the pointer is set.
\<close>

datatype 'o iscan_status = Http_scan scan_status | Other_scan 'o

record 'o session_special_data =
  parser_unrecognized_limit :: usize
  parser_depth_limit :: usize
  lst_ptr_data :: "'o iscan_status list"
  session_handler :: bool
  autoreply :: string

definition session_special_data_new :: "'o session_special_data" where
  "session_special_data_new =
     \<lparr>parser_unrecognized_limit = 20 * 1024, parser_depth_limit = 50, lst_ptr_data = [],
      session_handler = False, autoreply = []\<rparr>"

lemma session_special_data_new_fields [simp]:
  "lst_ptr_data session_special_data_new = []" "\<not> session_handler session_special_data_new"
  "autoreply session_special_data_new = []"
  by (simp_all add: session_special_data_new_def)

definition reply_header :: "string \<Rightarrow> string \<Rightarrow> string" where
  "reply_header line content_type =
     line @ crlf @ ''Content-Type: '' @ content_type @ crlf @
     ''Access-Control-Allow-Origin: *'' @ crlf @ ''Content-Length: ''"

definition http_response ::
  "'o session_special_data \<Rightarrow> string \<Rightarrow> 'o session_special_data \<times> string" where
  "http_response ssd buffer =
     (ssd\<lparr>session_handler := False\<rparr>,
      reply_header ''HTTP/1.1 200 OK'' ''application/json'' @ to_string (length buffer) @
      crlf @ crlf @ buffer)"

definition http_not_found ::
  "'o session_special_data \<Rightarrow> string \<Rightarrow> 'o session_special_data \<times> string" where
  "http_not_found ssd buffer =
     (ssd\<lparr>session_handler := False\<rparr>,
      reply_header ''HTTP/1.1 404 Not Found'' ''text/plain'' @ to_string (length buffer) @
      crlf @ crlf @ buffer)"

definition http_internal_server_error ::
  "'o session_special_data \<Rightarrow> string \<Rightarrow> 'o session_special_data \<times> string" where
  "http_internal_server_error ssd buffer =
     (ssd\<lparr>session_handler := False\<rparr>,
      reply_header ''HTTP/1.1 500 Internal Server Error'' ''text/plain'' @
      to_string (length buffer) @ crlf @ crlf @ buffer)"

section \<open>The scanner of a request\<close>

text \<open>\<open>string(first, last)\<close>, undefined unless it is a range of the buffer.\<close>

definition slice :: "string \<Rightarrow> nat \<Rightarrow> nat \<Rightarrow> string option" where
  "slice buf first final =
     (if first \<le> final \<and> final \<le> length buf then Some (take (final - first) (drop first buf))
      else None)"

definition http_methods :: "string list" where
  "http_methods = [''POST '', ''GET '', ''PUT '', ''DELETE '', ''OPTIONS '']"

text \<open>\<open>check_begin\<close> for one method after the other until one matches something.\<close>

fun check_methods :: "string list \<Rightarrow> string \<Rightarrow> nat" where
  "check_methods [] scan = 0"
| "check_methods (m # ms) scan =
     (let n = check_begin scan m in if n = 0 then check_methods ms scan else n)"

definition method_type :: "string \<Rightarrow> e_type" where
  "method_type scanned_begin =
     (if scanned_begin = ''GET '' then Get
      else if scanned_begin = ''POST '' then Post
      else if scanned_begin = ''PUT '' then Put
      else if scanned_begin = ''DELETE '' then Del
      else Options)"

definition request_ending :: string where
  "request_ending = '' HTTP/1.1'' @ crlf"

text \<open>
  Where a phase leaves the scan: the status, \<open>iter_scan_begin\<close>, \<open>iter_fallback\<close> and
  \<open>long_enough_message\<close>; the first component says that the call returns an error.
\<close>

type_synonym scan_point = "scan_status \<times> nat \<times> nat \<times> bool"

definition request_phase :: "string \<Rightarrow> scan_point \<Rightarrow> (bool \<times> scan_point) option" where
  "request_phase buf p =
     (case p of (ss, ib, fb, long) \<Rightarrow>
        do { let check_b = ib + check_methods http_methods (drop ib buf);
             let check_e = check_end (drop ib buf) request_ending;
             scanned_begin \<leftarrow> slice buf ib check_b;
             scanned_ending \<leftarrow> slice buf (ib + fst check_e) (ib + snd check_e);
             if scanned_begin = [] \<or> scanned_ending = [] \<and> long then Some (True, p)
             else if scanned_begin \<notin> set http_methods \<or> scanned_ending \<noteq> request_ending
             then Some (False, p)
             else do {
               scanned_line \<leftarrow> slice buf ib (ib + snd check_e);
               let ss = ss\<lparr>req_type := method_type scanned_begin,
                 http_header_scanning := http_header_scanning ss + length scanned_line,
                 status := Http_properties_progress\<rparr>;
               url \<leftarrow> slice buf check_b (ib + fst check_e);
               (ok, r) \<leftarrow> request_set url (resource ss);
               Some (\<not> ok, ss\<lparr>resource := r\<rparr>, ib + snd check_e, ib + snd check_e, False) } })"

text \<open>One line of the header; the first component is None to go on, Some to leave the loop.\<close>

definition property_step :: "string \<Rightarrow> scan_point \<Rightarrow> (bool option \<times> scan_point) option" where
  "property_step buf p =
     (case p of (ss, ib, fb, long) \<Rightarrow>
        do { let check_e = check_end (drop ib buf) crlf;
             scanned_begin \<leftarrow> slice buf ib (ib + fst check_e);
             scanned_ending \<leftarrow> slice buf (ib + fst check_e) (ib + snd check_e);
             if scanned_ending = [] \<and> long then Some (Some True, p)
             else if scanned_ending \<noteq> crlf then Some (Some False, p)
             else do {
               scanned_line \<leftarrow> slice buf ib (ib + snd check_e);
               let ss = ss\<lparr>http_header_scanning := http_header_scanning ss + length scanned_line\<rparr>;
               if scanned_begin = []
               then Some (None, ss\<lparr>status := Http_done\<rparr>, ib + snd check_e, ib + snd check_e, False)
               else do {
                 (ok, r) \<leftarrow> add_property scanned_begin (resource ss);
                 Some (if ok then None else Some True,
                       ss\<lparr>resource := r\<rparr>, ib + snd check_e, ib + snd check_e, False) } } })"

partial_function (option) properties_phase ::
  "string \<Rightarrow> nat \<Rightarrow> scan_point \<Rightarrow> (bool \<times> scan_point) option" where
  "properties_phase buf header_max_size p =
     (case p of (ss, ib, fb, long) \<Rightarrow>
        if status ss = Http_properties_progress \<and> http_header_scanning ss < header_max_size
        then do { (stop, p') \<leftarrow> property_step buf p;
                  case stop of
                    Some err \<Rightarrow> Some (err, p')
                  | None \<Rightarrow> properties_phase buf header_max_size p' }
        else Some (False, p))"

declare properties_phase.simps [code]

text \<open>
  What a call gives: the answer, the scan status it returns, the session,
  \<open>iter_scan_begin\<close>, \<open>iter_fallback\<close> and the body.
\<close>

type_synonym 'o scan_result =
  "three_state \<times> scan_status \<times> 'o session_special_data \<times> nat \<times> nat \<times> string"

definition options_reply :: string where
  "options_reply =
     ''HTTP/1.1 200 OK'' @ crlf @ ''Access-Control-Allow-Origin: *'' @ crlf @
     ''Access-Control-Allow-Methods: POST, GET, PUT, DELETE, OPTIONS'' @ crlf @
     ''Access-Control-Allow-Headers: X-CUSTOM-HEADER, Content-Type'' @ crlf @
     ''Access-Control-Max-Age: 86400'' @ crlf @ ''Content-Length: 0'' @ crlf @ crlf"

text \<open>The end of a header: the answer, whether the guard is dismissed, and the rest.\<close>

definition done_phase ::
  "string \<Rightarrow> nat \<Rightarrow> 'o session_special_data \<Rightarrow> scan_point \<Rightarrow> string
     \<Rightarrow> three_state \<times> bool \<times> scan_status \<times> 'o session_special_data \<times> nat \<times> nat \<times> string" where
  "done_phase buf content_max_size ssd p body =
     (case p of (ss, _, fb, _) \<Rightarrow>
        (case req_type ss of
           Options \<Rightarrow>
             (Attempt, False, ss,
              ssd\<lparr>session_handler := False, autoreply := autoreply ssd @ options_reply\<rparr>, fb, fb, body)
         | Get \<Rightarrow> (Success, False, ss, ssd, fb, fb, body)
         | Del \<Rightarrow> (Success, False, ss, ssd, fb, fb, body)
         | _ \<Rightarrow>
             let props = properties (resource ss);
                 cl = (case props ''Content-Length'' of Some v \<Rightarrow> v | None \<Rightarrow> []);
                 ss = ss\<lparr>resource := (resource ss)\<lparr>properties := props(''Content-Length'' \<mapsto> cl)\<rparr>\<rparr>;
                 (w, pos) = stoui64 cl;
                 content_length = unat w
             in if cl = [] \<or> pos \<noteq> length cl \<or> content_length > content_max_size
                then (Error, False, ss, ssd, fb, fb, body)
                else if length buf - fb < content_length then (Attempt, True, ss, ssd, fb, fb, body)
                else (Success, False, ss, ssd, fb + content_length, fb,
                      take content_length (drop fb buf))))"

definition protocol_scan ::
  "string \<Rightarrow> nat \<Rightarrow> nat \<Rightarrow> 'o session_special_data \<Rightarrow> scan_point \<Rightarrow> string
     \<Rightarrow> (three_state \<times> bool \<times> scan_status \<times> 'o session_special_data \<times> nat \<times> nat \<times> string) option" where
  "protocol_scan buf header_max_size content_max_size ssd p body =
     do { let (ss, ib, fb, long) = p;
          let ss = (if status ss = Status_clean \<and> check_methods http_methods (drop ib buf) \<noteq> 0
                    then ss\<lparr>status := Http_request_progress\<rparr> else ss);
          let p = (ss, ib, fb, long);
          (err, p) \<leftarrow> (if status ss = Http_request_progress then request_phase buf p
                       else Some (False, p));
          let (ss, ib, fb, long) = p;
          if err then Some (Error, False, ss, ssd, ib, fb, body)
          else do {
            (err, p) \<leftarrow> properties_phase buf header_max_size p;
            let (ss, ib, fb, long) = p;
            if err \<or> http_header_scanning ss \<ge> header_max_size
            then Some (Error, False, ss, ssd, ib, fb, body)
            else if status ss = Http_done
            then Some (done_phase buf content_max_size ssd p body)
            else if status ss = Status_clean then Some (Error, False, ss, ssd, ib, fb, body)
            else Some (Attempt, True, ss, ssd, ib, fb, body) } }"

text \<open>
  The scan status is the last entry of the session's list, pushed if there is none; the
  guard takes it off again unless it is dismissed.
\<close>

definition session_scan :: "'o session_special_data \<Rightarrow> 'o iscan_status list \<times> scan_status" where
  "session_scan ssd =
     (if lst_ptr_data ssd = [] then ([], scan_status_new)
      else case last (lst_ptr_data ssd) of
             Http_scan ss \<Rightarrow> (butlast (lst_ptr_data ssd), ss)
           | Other_scan _ \<Rightarrow> (lst_ptr_data ssd, scan_status_new))"

definition protocol ::
  "'o session_special_data \<Rightarrow> string \<Rightarrow> nat \<Rightarrow> nat \<Rightarrow> nat \<Rightarrow> nat \<Rightarrow> nat \<Rightarrow> string
     \<Rightarrow> 'o scan_result option" where
  "protocol ssd buf ib fb enough_length header_max_size content_max_size body =
     do { let long_enough_message = (length buf - ib > enough_length);
          let (outer, ss) = session_scan ssd;
          (res, dismissed, ss, ssd, ib, fb, body) \<leftarrow>
            protocol_scan buf header_max_size content_max_size ssd
              (ss, ib, fb, long_enough_message) body;
          Some (res, ss,
                ssd\<lparr>lst_ptr_data := (if dismissed then outer @ [Http_scan ss] else outer)\<rparr>,
                ib, fb, body) }"

section \<open>Splitting\<close>

text \<open>The pieces between single separators, empty ones included.\<close>

function fields :: "char \<Rightarrow> string \<Rightarrow> string list" where
  "fields c s = takeWhile (\<lambda>x. x \<noteq> c) s #
     (case dropWhile (\<lambda>x. x \<noteq> c) s of [] \<Rightarrow> [] | _ # rest \<Rightarrow> fields c rest)"
  by pat_completeness auto

termination
proof (relation "measure (\<lambda>(c, s). length s)", simp, simp)
  fix c s x rest assume "dropWhile (\<lambda>x. x \<noteq> c) s = x # rest"
  then have "length (x # rest) \<le> length s"
    by (metis length_dropWhile_le)
  then show "length rest < length s" by simp
qed

declare fields.simps [simp del]

lemma takeWhile_find:
  "string_find s [c] i = (if c \<in> set (drop i s) then Some (i + length (takeWhile (\<lambda>x. x \<noteq> c) (drop i s))) else None)"
proof (cases "i \<le> length s")
  case True
  let ?t = "takeWhile (\<lambda>x. x \<noteq> c) (drop i s)"
  show ?thesis
  proof (cases "c \<in> set (drop i s)")
    case in_set: True
    then obtain ys where "dropWhile (\<lambda>x. x \<noteq> c) (drop i s) = c # ys"
      by (cases "dropWhile (\<lambda>x. x \<noteq> c) (drop i s)") (auto simp: dropWhile_eq_Nil_conv dropWhile_eq_Cons_conv)
    then have "s = take i s @ ?t @ c # ys"
      by (metis append_take_drop_id takeWhile_dropWhile_id)
    moreover have "c \<notin> set ?t" by (auto dest: set_takeWhileD)
    ultimately have "string_find s [c] i = Some (i + length ?t)"
      using string_find_char [of c ?t "take i s" i ys] True by simp
    with in_set show ?thesis by simp
  next
    case False
    then show ?thesis
      using string_find_char_None [of c "drop i s" "take i s" i] True by simp
  qed
next
  case False
  then show ?thesis by (simp add: string_find_def)
qed

lemma fields_unfold:
  "fields c s = (if c \<in> set s
     then takeWhile (\<lambda>x. x \<noteq> c) s # fields c (drop (Suc (length (takeWhile (\<lambda>x. x \<noteq> c) s))) s)
     else [s])"
proof (cases "c \<in> set s")
  case True
  then obtain ys where ys: "dropWhile (\<lambda>x. x \<noteq> c) s = c # ys"
    by (cases "dropWhile (\<lambda>x. x \<noteq> c) s") (auto simp: dropWhile_eq_Nil_conv dropWhile_eq_Cons_conv)
  then have "drop (Suc (length (takeWhile (\<lambda>x. x \<noteq> c) s))) s = ys"
    by (metis drop_Suc dropWhile_eq_drop list.sel(3) tl_drop)
  with True ys show ?thesis
    by (subst fields.simps) simp
next
  case False
  then have "takeWhile (\<lambda>x. x \<noteq> c) s = s" "dropWhile (\<lambda>x. x \<noteq> c) s = []"
    by (auto simp: takeWhile_eq_all_conv dropWhile_eq_Nil_conv)
  with False show ?thesis by (subst fields.simps) (simp only: list.case if_False)
qed

lemma fields_Nil [simp]: "fields c [] = [[]]"
  by (simp add: fields_unfold [of c "[]"])

lemma split_loop_char:
  "split_loop s [c] True limit False i parts =
    Some (parts @ take (limit - length parts) (filter (\<lambda>p. p \<noteq> []) (fields c (drop i s))))"
proof (induction "Suc (length s) - i" arbitrary: i parts rule: less_induct)
  case less
  let ?t = "takeWhile (\<lambda>x. x \<noteq> c) (drop i s)"
  show ?case
  proof (cases "i < length s \<and> length parts < limit")
    case False
    then have "limit - length parts = 0 \<or> drop i s = []" by auto
    then show ?thesis
      using False by (subst split_loop.simps) auto
  next
    case True
    show ?thesis
    proof (cases "c \<in> set (drop i s)")
      case in_set: True
      let ?n = "i + length ?t"
      let ?parts = "if ?t \<noteq> [] then parts @ [?t] else parts"
      have "string_substr s i (?n - i) = ?t"
        by (simp add: string_substr_def) (metis takeWhile_eq_take)
      then have "split_loop s [c] True limit False i parts =
          split_loop s [c] True limit False (?n + 1) ?parts"
        using True in_set by (subst split_loop.simps) (simp add: takeWhile_find Let_def)
      also have "\<dots> = Some (?parts @ take (limit - length ?parts)
          (filter (\<lambda>p. p \<noteq> []) (fields c (drop (?n + 1) s))))"
        using True by (intro less) linarith
      also have "drop (?n + 1) s = drop (Suc (length ?t)) (drop i s)"
        by (simp add: add.commute)
      finally show ?thesis
        using True in_set fields_unfold [of c "drop i s"]
        by (auto simp: take_Cons' )
    next
      case False
      have "string_substr s i (length s - i) = drop i s"
        by (simp add: string_substr_def)
      then have "split_loop s [c] True limit False i parts =
          split_loop s [c] True limit False (length s + 1) (parts @ [drop i s])"
        using True False by (subst split_loop.simps) (simp add: takeWhile_find Let_def)
      also have "\<dots> = Some (parts @ [drop i s])"
        by (subst split_loop.simps) simp
      finally show ?thesis
        using True False by (simp add: fields_unfold take_Cons')
    qed
  qed
qed

lemma split_char [result_simps]:
  "split s [c] True limit False = Some (take limit (filter (\<lambda>p. p \<noteq> []) (fields c s)))"
  by (simp add: split_def split_loop_char)

end
