(* ===== verification/Http_Request.thy ===== *)
theory Http_Request
  imports Http
begin

text \<open>
  What the helpers of a request compute (\<open>src/belt.pp/http.hpp\<close> 26-190): percent decoding
  undoes percent encoding, and an url made of a path and a query is taken apart into them.
\<close>

section \<open>Percent decoding\<close>

text \<open>The loop depends on the rest of the text only.\<close>

function percent_text :: "string \<Rightarrow> string" where
  "percent_text s =
     (if s = [] then []
      else let n = length (takeWhile (\<lambda>x. x \<noteq> CHR ''%'') s);
               hex = from_hex (take 2 (drop (Suc n) s))
           in (if n + 2 \<ge> length s \<or> - 1 = hex then s else take n s @ [char_of (unat hex)]) @
              percent_text (drop (n + 3) s))"
  by pat_completeness auto

termination
  by (relation "measure length") auto

declare percent_text.simps [simp del]

lemma percent_text_Nil [simp]: "percent_text [] = []"
  by (simp add: percent_text.simps)

lemma percent_text_unfold:
  "s \<noteq> [] \<Longrightarrow> percent_text s =
     (if length s \<le> length (takeWhile (\<lambda>x. x \<noteq> CHR ''%'') s) + 2 \<or>
         - 1 = from_hex (take 2 (drop (Suc (length (takeWhile (\<lambda>x. x \<noteq> CHR ''%'') s))) s))
      then s
      else take (length (takeWhile (\<lambda>x. x \<noteq> CHR ''%'') s)) s @
        [char_of (unat (from_hex (take 2 (drop (Suc (length (takeWhile (\<lambda>x. x \<noteq> CHR ''%'') s))) s))))]) @
     percent_text (drop (length (takeWhile (\<lambda>x. x \<noteq> CHR ''%'') s) + 3) s)"
  by (subst percent_text.simps) (simp only: Let_def if_False)

lemma next_percent:
  "(case string_find s ''%'' i of None \<Rightarrow> length s | Some j \<Rightarrow> j) =
   (if i < length s then i + length (takeWhile (\<lambda>x. x \<noteq> CHR ''%'') (drop i s)) else length s)"
proof (cases "CHR ''%'' \<in> set (drop i s)")
  case True
  then show ?thesis by (auto simp: takeWhile_find dest: in_set_dropD)
next
  case False
  then have tw: "takeWhile (\<lambda>x. x \<noteq> CHR ''%'') (drop i s) = drop i s"
    by (auto simp: takeWhile_eq_all_conv)
  from False show ?thesis by (simp add: takeWhile_find tw)
qed

lemma percent_decode_loop_text:
  "percent_decode_loop s i res = res @ percent_text (drop i s)"
proof (induction s i res rule: percent_decode_loop.induct)
  case (1 s i res)
  show ?case
  proof (cases "i < length s")
    case True
    let ?n = "length (takeWhile (\<lambda>x. x \<noteq> CHR ''%'') (drop i s))"
    let ?h = "from_hex (string_substr s (i + ?n + 1) 2)"
    have nxt: "(case string_find s ''%'' i of None \<Rightarrow> length s | Some j \<Rightarrow> j) = i + ?n"
      using True by (simp add: next_percent)
    have h: "?h = from_hex (take 2 (drop (Suc ?n) (drop i s)))"
      by (simp add: string_substr_def add.commute add.left_commute)
    have "percent_decode_loop s i res = percent_decode_loop s (i + ?n + 3)
        (if i + ?n + 2 \<ge> length s \<or> - 1 = ?h then res @ string_substr s i (length s - i)
         else res @ string_substr s i (i + ?n - i) @ [char_of (unat ?h)])"
      using True by (subst percent_decode_loop.simps) (simp only: nxt Let_def if_True)
    also have "\<dots> = (if i + ?n + 2 \<ge> length s \<or> - 1 = ?h then res @ string_substr s i (length s - i)
         else res @ string_substr s i (i + ?n - i) @ [char_of (unat ?h)]) @
         percent_text (drop (i + ?n + 3) s)"
      using 1 [OF True nxt [symmetric] refl] by (simp only: nxt)
    also have "\<dots> = res @ percent_text (drop i s)"
    proof -
      have len: "i + ?n + 2 \<ge> length s \<longleftrightarrow> ?n + 2 \<ge> length (drop i s)"
        using True by auto
      have "percent_text (drop i s) =
          (if i + ?n + 2 \<ge> length s \<or> - 1 = ?h then drop i s
           else take ?n (drop i s) @ [char_of (unat ?h)]) @
          percent_text (drop (?n + 3) (drop i s))"
        unfolding len h
        by (rule percent_text_unfold) (use True in simp)
      moreover have "drop (?n + 3) (drop i s) = drop (i + ?n + 3) s"
        by (simp add: ac_simps)
      ultimately show ?thesis
        by (simp add: string_substr_def)
    qed
    finally show ?thesis .
  next
    case False
    then show ?thesis by (subst percent_decode_loop.simps) simp
  qed
qed

lemma percent_decode_text: "percent_decode s = percent_text s"
  by (simp add: percent_decode_def percent_decode_loop_text)

definition hex_char :: "nat \<Rightarrow> char" where
  "hex_char d = (if d < 10 then char_of (48 + d) else char_of (87 + d))"

definition percent_char :: "(char \<Rightarrow> bool) \<Rightarrow> char \<Rightarrow> string" where
  "percent_char keep c =
     (if keep c \<and> c \<noteq> CHR ''%'' then [c]
      else [CHR ''%'', hex_char (char_code c div 16), hex_char (char_code c mod 16)])"

definition percent_encode :: "(char \<Rightarrow> bool) \<Rightarrow> string \<Rightarrow> string" where
  "percent_encode keep s = concat (map (percent_char keep) s)"

lemma from_hex_chars:
  assumes "n < 256"
  shows "from_hex [hex_char (n div 16), hex_char (n mod 16)] = of_nat n"
proof -
  have step: "from_hex_loop (hex_char d # cs) res = from_hex_loop cs (res * 16 + of_nat d)"
    if "d < 16" for d cs res
    using that by (auto simp: hex_char_def)
  have "n div 16 < 16" "n mod 16 < 16" using assms by auto
  then have "from_hex [hex_char (n div 16), hex_char (n mod 16)] =
      of_nat (n div 16) * 16 + of_nat (n mod 16)"
    by (simp add: from_hex_def step del: from_hex_loop.simps(2))
  also have "\<dots> = of_nat (n div 16 * 16 + n mod 16)"
    by (simp only: of_nat_add of_nat_mult of_nat_numeral)
  finally show ?thesis by simp
qed

lemma percent_text_escape:
  assumes "CHR ''%'' \<notin> set pre"
  shows "percent_text (pre @ CHR ''%'' # x # y # rest) =
    (if from_hex [x, y] = - 1 then pre @ CHR ''%'' # x # y # rest
     else pre @ [char_of (unat (from_hex [x, y]))]) @ percent_text rest"
proof -
  have "takeWhile (\<lambda>x. x \<noteq> CHR ''%'') (pre @ CHR ''%'' # x # y # rest) = pre"
    using assms by (subst takeWhile_append2) auto
  then show ?thesis
    by (subst percent_text.simps)
       (auto simp: Let_def numeral_2_eq_2 numeral_3_eq_3)
qed

lemma percent_text_plain:
  assumes "CHR ''%'' \<notin> set s"
  shows "percent_text s = s"
proof -
  have tw: "takeWhile (\<lambda>x. x \<noteq> CHR ''%'') s = s"
    using assms by (auto simp: takeWhile_eq_all_conv)
  show ?thesis
    by (subst percent_text.simps) (simp add: Let_def tw)
qed

lemma percent_text_encode:
  assumes "CHR ''%'' \<notin> set pre"
  shows "percent_text (pre @ percent_encode keep s) = pre @ s"
  using assms
proof (induction s arbitrary: pre)
  case Nil
  then show ?case by (simp add: percent_encode_def percent_text_plain)
next
  case (Cons c s)
  show ?case
  proof (cases "keep c \<and> c \<noteq> CHR ''%''")
    case True
    then show ?thesis
      using Cons.IH [of "pre @ [c]"] Cons.prems
      by (auto simp: percent_encode_def percent_char_def)
  next
    case False
    have small: "unat (of_nat (char_code c) :: usize) = char_code c"
      by (intro unat_of_nat_size less_trans [OF nat_of_char_less_256]) simp
    have "char_code c < 2 ^ 64 - 1"
      by (rule less_trans [OF nat_of_char_less_256]) simp
    moreover have "unat (- 1 :: usize) = 2 ^ 64 - 1"
      by (simp add: unsigned_minus_1_eq_mask mask_eq_exp_minus_1)
    ultimately have "(of_nat (char_code c) :: usize) \<noteq> - 1"
      using small by auto
    then show ?thesis
      using False Cons.IH [of "[]"] percent_text_escape [OF Cons.prems] small
        from_hex_chars [OF nat_of_char_less_256, of c]
      by (auto simp: percent_encode_def percent_char_def)
  qed
qed


lemma percent_decode_of_encode [result_simps]: "percent_decode (percent_encode keep s) = s"
  using percent_text_encode [of "[]" keep s] by (simp add: percent_decode_text)

text \<open>Percent decoding undoes percent encoding, whichever characters the encoder leaves
  as they are.\<close>

theorem percent_decode_encode: "percent_decode (percent_encode keep s) = s"
  by (rule percent_decode_of_encode)

text \<open>A percent sign that two hexadecimal digits do not follow: the loop appends all of
  the rest and still goes on behind it, so what follows the malformed escape is in the
  result twice.\<close>

theorem percent_decode_malformed:
  assumes "CHR ''%'' \<notin> set a" "CHR ''%'' \<notin> set b" "from_hex [x, y] = - 1"
  shows "percent_decode (a @ CHR ''%'' # x # y # b) = a @ CHR ''%'' # x # y # b @ b"
  using assms by (simp add: percent_decode_text percent_text_escape percent_text_plain)

theorem percent_decode_malformed_witness:
  "percent_decode ''100%zz sure'' = ''100%zz sure sure''"
proof -
  have "from_hex ''zz'' = - 1" by (simp add: from_hex_def)
  then show ?thesis
    using percent_decode_malformed [of "''100''" "'' sure''" "CHR ''z''" "CHR ''z''"] by simp
qed

section \<open>The parts of an url\<close>

fun join :: "char \<Rightarrow> string list \<Rightarrow> string" where
  "join c [] = []"
| "join c [x] = x"
| "join c (x # y # ys) = x @ c # join c (y # ys)"

lemma fields_plain: "c \<notin> set s \<Longrightarrow> fields c s = [s]"
  by (simp add: fields_unfold [of c s])

lemma fields_cut:
  assumes "c \<notin> set x"
  shows "fields c (x @ c # rest) = x # fields c rest"
proof -
  have "takeWhile (\<lambda>y. y \<noteq> c) (x @ c # rest) = x"
    using assms by (subst takeWhile_append2) auto
  then show ?thesis
    by (simp add: fields_unfold [of c "x @ c # rest"])
qed

lemma fields_join:
  assumes "\<And>x. x \<in> set xs \<Longrightarrow> c \<notin> set x \<and> x \<noteq> []"
  shows "filter (\<lambda>p. p \<noteq> []) (fields c (join c xs)) = xs"
  using assms by (induction c xs rule: join.induct) (simp_all add: fields_plain fields_cut)

definition unreserved :: "char \<Rightarrow> bool" where
  "unreserved c \<longleftrightarrow> c \<in> set ''-._~'' \<or> 48 \<le> char_code c \<and> char_code c \<le> 57 \<or>
     65 \<le> char_code c \<and> char_code c \<le> 90 \<or> 97 \<le> char_code c \<and> char_code c \<le> 122"

abbreviation url_encode :: "string \<Rightarrow> string" where
  "url_encode \<equiv> percent_encode unreserved"

definition argument_text :: "string \<times> string \<Rightarrow> string" where
  "argument_text kv = url_encode (fst kv) @ CHR ''='' # url_encode (snd kv)"

definition url_text :: "string list \<Rightarrow> (string \<times> string) list \<Rightarrow> string" where
  "url_text segments args =
     CHR ''/'' # join (CHR ''/'') (map url_encode segments) @
     (if args = [] then [] else CHR ''?'' # join (CHR ''&'') (map argument_text args))"

lemma url_encode_Nil [simp]: "url_encode s = [] \<longleftrightarrow> s = []"
  by (cases s) (auto simp: percent_encode_def percent_char_def)

lemma unreserved_hex: "d < 16 \<Longrightarrow> unreserved (hex_char d)"
  by (auto simp: unreserved_def hex_char_def)

lemma url_encode_chars:
  assumes "c \<in> set (url_encode s)"
  shows "unreserved c \<or> c = CHR ''%''"
proof -
  obtain d where d: "c \<in> set (percent_char unreserved d)"
    using assms by (auto simp: percent_encode_def)
  have "char_code d div 16 < 16" "char_code d mod 16 < 16"
    using nat_of_char_less_256 [of d] by (simp add: less_mult_imp_div_less, simp)
  with d show ?thesis
    by (auto simp: percent_char_def unreserved_hex split: if_splits)
qed

lemma url_encode_avoids:
  "\<not> unreserved c \<Longrightarrow> c \<noteq> CHR ''%'' \<Longrightarrow> c \<notin> set (url_encode s)"
  using url_encode_chars by blast

lemma reserved [simp]:
  "\<not> unreserved CHR ''/''" "\<not> unreserved CHR ''?''" "\<not> unreserved CHR ''#''"
  "\<not> unreserved CHR ''&''" "\<not> unreserved CHR ''=''" "\<not> unreserved CHR '' ''"
  by (simp_all add: unreserved_def)

lemma join_avoids:
  "c \<noteq> d \<Longrightarrow> (\<And>x. x \<in> set xs \<Longrightarrow> c \<notin> set x) \<Longrightarrow> c \<notin> set (join d xs)"
  by (induction d xs rule: join.induct) auto

lemma argument_avoids:
  "\<not> unreserved c \<Longrightarrow> c \<noteq> CHR ''%'' \<Longrightarrow> c \<noteq> CHR ''='' \<Longrightarrow> c \<notin> set (argument_text kv)"
  by (auto simp: argument_text_def dest: url_encode_chars)

lemma set_argument_text:
  assumes "fst kv \<noteq> []"
  shows "set_argument (argument_text kv) (ok, args) = Some (ok, args(fst kv \<mapsto> snd kv))"
proof -
  have "fields CHR ''='' (argument_text kv) = [url_encode (fst kv), url_encode (snd kv)]"
    by (simp add: argument_text_def fields_cut fields_plain url_encode_avoids)
  then have "split (argument_text kv) ''='' True 2 False =
      Some (if snd kv = [] then [url_encode (fst kv)]
            else [url_encode (fst kv), url_encode (snd kv)])"
    using assms by (simp add: split_char)
  then show ?thesis
    by (simp add: set_argument_def result_simps)
qed

lemma set_arguments_text:
  "(\<And>kv. kv \<in> set kvs \<Longrightarrow> fst kv \<noteq> []) \<Longrightarrow>
   set_arguments (map argument_text kvs) (ok, args) = Some (ok, args ++ map_of (rev kvs))"
  by (induction kvs arbitrary: args) (simp_all add: set_argument_text map_add_upd_left)


text \<open>
  Undefined behaviour: without any character other than the question mark there is no part
  at all, and the code takes the front of an empty vector.
\<close>

lemma fields_only: "filter (\<lambda>p. p \<noteq> []) (fields c s) = [] \<longleftrightarrow> set s \<subseteq> {c}"
proof (induction c s rule: fields.induct)
  case (1 c s)
  show ?case
  proof (cases "c \<in> set s")
    case True
    then obtain rest where d: "dropWhile (\<lambda>x. x \<noteq> c) s = c # rest"
      by (cases "dropWhile (\<lambda>x. x \<noteq> c) s") (auto simp: dropWhile_eq_Nil_conv dropWhile_eq_Cons_conv)
    let ?t = "takeWhile (\<lambda>x. x \<noteq> c) s"
    have s: "s = ?t @ c # rest" using d by (metis takeWhile_dropWhile_id)
    have t: "c \<notin> set ?t" by (auto dest: set_takeWhileD)
    have "set s \<subseteq> {c} \<longleftrightarrow> set ?t \<subseteq> {c} \<and> set rest \<subseteq> {c}"
      by (subst s) auto
    also have "set ?t \<subseteq> {c} \<longleftrightarrow> ?t = []"
      using t by (cases ?t) auto
    finally show ?thesis
      using "1.IH" [OF d] fields_cut [OF t, of rest] s by simp
  next
    case False
    then show ?thesis by (cases s) (auto simp: fields_plain)
  qed
qed

lemma set_argument_defined [simp]: "set_argument part st \<noteq> None"
  by (cases st) (simp add: set_argument_def split_char del: not_None_eq)

lemma set_arguments_defined [simp]: "set_arguments parts st \<noteq> None"
  by (induction parts arbitrary: st) (simp_all add: bind_eq_None_conv del: not_None_eq)

text \<open>The request is undefined behaviour exactly for the urls without any character other
  than the question mark.\<close>

theorem request_set_undefined:
  "request_set url r = None \<longleftrightarrow> set url \<subseteq> {CHR ''?''}"
proof -
  define parts where "parts = take 2 (filter (\<lambda>p. p \<noteq> []) (fields CHR ''?'' url))"
  have empty: "parts = [] \<longleftrightarrow> set url \<subseteq> {CHR ''?''}"
    using fields_only [of "CHR ''?''" url] by (simp add: parts_def)
  show ?thesis
  proof (cases parts)
    case Nil
    with empty show ?thesis
      by (simp add: request_set_def split_char parts_def [symmetric] vec_front_def)
  next
    case (Cons p ps)
    have "request_set url r \<noteq> None"
      unfolding request_set_def split_char bind.bind_lunit parts_def [symmetric] Let_def
      using Cons
      by (auto simp: bind_eq_None_conv vec_front_def vec_back_def simp del: not_None_eq
          split: prod.split list.split)
    with Cons empty show ?thesis by simp
  qed
qed

text \<open>C21: an url that is made of a path and of arguments, percent encoded, is taken apart
  into that path and those arguments; a later argument of the same name wins.\<close>

theorem request_set_url_text:
  assumes names: "[] \<notin> set segments" "[] \<notin> fst ` set args"
    and "length segments \<le> no_limit" "length args \<le> no_limit"
  shows "request_set (url_text segments args) r =
    Some (True, r\<lparr>path := segments, arguments := arguments r ++ map_of (rev args)\<rparr>)"
proof -
  let ?p = "CHR ''/'' # join (CHR ''/'') (map url_encode segments)"
  let ?q = "join (CHR ''&'') (map argument_text args)"
  have avoid_p: "CHR ''?'' \<notin> set ?p"
    by (simp, rule join_avoids) (auto simp: url_encode_avoids)
  have avoid_q: "c \<notin> set ?q" if "c = CHR ''?'' \<or> c = CHR ''#''" for c
    using that by (intro join_avoids) (auto simp: argument_avoids)
  have "filter (\<lambda>p. p \<noteq> []) (fields CHR ''/'' (join (CHR ''/'') (map url_encode segments))) =
      map url_encode segments"
    using names by (intro fields_join) (auto simp: url_encode_avoids)
  then have p: "split ?p ''/'' True no_limit False = Some (map url_encode segments)"
    using assms by (simp add: split_char fields_cut [of _ "[]", simplified])
  have "filter (\<lambda>p. p \<noteq> []) (fields CHR ''&'' ?q) = map argument_text args"
    using names by (intro fields_join) (auto simp: argument_avoids, simp add: argument_text_def)
  then have q: "split ?q ''&'' True no_limit False = Some (map argument_text args)"
    using assms by (simp add: split_char)
  have args_def: "set_arguments (map argument_text args) (True, arguments r) =
      Some (True, arguments r ++ map_of (rev args))"
    using names by (intro set_arguments_text) force
  have ends: "split [] c True no_limit False = Some []" "c = [x] \<Longrightarrow> ?p \<noteq> []" for c x
    by (simp_all add: split_def split_loop.simps)
  show ?thesis
  proof (cases "args = []")
    case True
    then have "split (url_text segments args) ''?'' True 2 False = Some [?p]"
      using avoid_p by (simp add: url_text_def split_char fields_plain)
    then show ?thesis
      using True p ends
      by (simp add: request_set_def vec_front_def map_idI result_simps)
  next
    case False
    then have "?q \<noteq> []"
      by (cases args rule: list.exhaust; cases "tl args") (auto simp: argument_text_def)
    then have url: "split (url_text segments args) ''?'' True 2 False = Some [?p, ?q]"
        "split ?q ''#'' True 2 False = Some [?q]"
      using False avoid_p avoid_q
      by (simp_all add: url_text_def split_char fields_plain fields_cut [of _ "CHR ''/'' # x" for x, simplified])
    then show ?thesis
      using p q args_def
      by (simp add: request_set_def vec_front_def vec_back_def map_idI percent_decode_of_encode)
  qed
qed

theorem request_set_url_text_witness:
  "request_set (url_text [''a b'', ''c''] [(''k'', ''1=2''), (''x'', [])]) request_new =
   Some (True, request_new\<lparr>path := [''a b'', ''c''],
     arguments := arguments request_new ++ map_of [(''x'', []), (''k'', ''1=2'')]\<rparr>)"
  using request_set_url_text [of "[''a b'', ''c'']" "[(''k'', ''1=2''), (''x'', [])]" request_new]
  by simp

end
