(* ===== verification/Http_Protocol.thy ===== *)
theory Http_Protocol
  imports Http_Request
begin

text \<open>
  The scanner of requests (\<open>http::protocol\<close>, \<open>src/belt.pp/http.hpp\<close> 267-520): a complete
  request in the buffer is read to its resource and its body, the progress kept in the
  session makes delivery in pieces equivalent to delivery at once, and the scan status never
  stays in the session behind an answer.
\<close>

section \<open>Lines\<close>

lemma check_end_first:
  assumes "\<And>i. i < length pre \<Longrightarrow> \<not> prefix val (drop i (pre @ val @ rest))"
  shows "check_end (pre @ val @ rest) val = (length pre, length pre + length val)"
proof -
  have "refuted (pre @ val @ rest) val i" if "i < length pre" for i
    using assms [OF that] that by (auto simp: refuted_def dest!: prefix_length_le)
  then show ?thesis
    using check_end_found_stable [of val "length pre" "pre @ val @ rest" "[]"] by simp
qed

lemma check_end_line:
  assumes "c \<notin> set line" "val = c # cs"
  shows "check_end (line @ val @ rest) val = (length line, length line + length val)"
proof (rule check_end_first)
  fix i assume i: "i < length line"
  then have "drop i (line @ val @ rest) = line ! i # drop (Suc i) (line @ val @ rest)"
    by (simp add: Cons_nth_drop_Suc nth_append [symmetric] flip: append_assoc)
  moreover have "line ! i \<noteq> c" using assms i by (metis nth_mem)
  ultimately show "\<not> prefix val (drop i (line @ val @ rest))"
    using assms by simp
qed

lemma slice_drop:
  "i \<le> length buf \<Longrightarrow> slice buf (i + a) (i + b) = slice (drop i buf) a b"
  by (auto simp: slice_def ac_simps le_diff_conv2)

lemma slice_mid:
  "slice (pre @ mid @ post) (length pre) (length pre + length mid) = Some mid"
  by (simp add: slice_def)

definition header_line :: "string \<times> string \<Rightarrow> string" where
  "header_line kv = fst kv @ '': '' @ snd kv"

definition header_text :: "(string \<times> string) list \<Rightarrow> string" where
  "header_text kvs = concat (map (\<lambda>kv. header_line kv @ crlf) kvs) @ crlf"

definition good_header :: "string \<times> string \<Rightarrow> bool" where
  "good_header kv \<longleftrightarrow> CHR '':'' \<notin> set (fst kv) \<and> CHR 0x0D \<notin> set (fst kv) \<and>
     CHR 0x0D \<notin> set (snd kv)"

lemma add_property_line:
  assumes "CHR '':'' \<notin> set (fst kv)"
  shows "add_property (header_line kv) r =
    Some (True, r\<lparr>properties := (properties r)(fst kv \<mapsto> snd kv)\<rparr>)"
proof -
  let ?k = "fst kv" and ?v = "snd kv"
  have find: "string_find (header_line kv) '': '' 0 = Some (length ?k)"
  proof -
    have "\<not> prefix '': '' (drop j (?k @ '': '' @ ?v))" if "j < length ?k" for j
    proof -
      have "drop j (?k @ '': '' @ ?v) = ?k ! j # drop (Suc j) ?k @ '': '' @ ?v"
        using that by (simp add: Cons_nth_drop_Suc flip: append_Cons)
      moreover have "?k ! j \<noteq> CHR '':''" using assms that by (metis nth_mem)
      ultimately show ?thesis by simp
    qed
    then show ?thesis
      by (simp add: string_find_Some header_line_def)
  qed
  have first: "split (header_line kv) '': '' False 2 True =
      split_loop (header_line kv) '': '' False 2 True (length ?k + 2) [?k]"
    unfolding split_def using find
    by (subst split_loop.simps) (simp add: header_line_def string_substr_def)
  have "split (header_line kv) '': '' False 2 True = Some (if ?v = [] then [?k] else [?k, ?v])"
  proof (cases "?v = []")
    case True
    then show ?thesis
      unfolding first by (subst split_loop.simps) (simp add: header_line_def)
  next
    case False
    have "split_loop (header_line kv) '': '' False 2 True (length ?k + 2) [?k] =
        split_loop (header_line kv) '': '' False 2 True (length (header_line kv) + 2) [?k, ?v]"
      using False
      by (subst split_loop.simps)
         (auto simp: header_line_def string_substr_def Let_def split: option.splits)
    then show ?thesis
      using False unfolding first by (subst (asm) (2) split_loop.simps) simp
  qed
  then show ?thesis
    by (simp add: add_property_def)
qed

text \<open>What is left of a buffer from a position on.\<close>

definition rest_at :: "string \<Rightarrow> nat \<Rightarrow> string \<Rightarrow> bool" where
  "rest_at buf i s \<longleftrightarrow> (\<exists>pre. buf = pre @ s \<and> length pre = i)"

lemma rest_at_drop: "rest_at buf i s \<Longrightarrow> drop i buf = s"
  by (auto simp: rest_at_def)

lemma rest_at_append:
  assumes "rest_at buf i (xs @ ys)"
  shows "rest_at buf (i + length xs) ys"
proof -
  obtain pre where "buf = (pre @ xs) @ ys" "length (pre @ xs) = i + length xs"
    using assms by (auto simp: rest_at_def)
  then show ?thesis unfolding rest_at_def by blast
qed

lemma rest_at_slice:
  assumes "rest_at buf i (a @ b)"
  shows "slice buf i (i + length a) = Some a"
  using assms by (auto simp: rest_at_def slice_def)

lemma property_step_line:
  assumes at: "rest_at buf ib (line @ crlf @ rest)" and line: "CHR 0x0D \<notin> set line"
  shows "property_step buf (ss, ib, fb, long) =
    (let n = ib + length line + 2;
         ss = ss\<lparr>http_header_scanning := http_header_scanning ss + length line + 2\<rparr>
     in if line = [] then Some (None, ss\<lparr>status := Http_done\<rparr>, n, n, False)
        else do { (ok, r) \<leftarrow> add_property line (resource ss);
                  Some (if ok then None else Some True, ss\<lparr>resource := r\<rparr>, n, n, False) })"
proof -
  have e: "check_end (drop ib buf) crlf = (length line, length line + 2)"
    using rest_at_drop [OF at] check_end_line [OF line refl, of "[CHR 0x0A]" rest] by simp
  have s: "slice buf ib (ib + length line) = Some line"
      "slice buf (ib + length line) (ib + length line + 2) = Some crlf"
      "slice buf ib (ib + length line + 2) = Some (line @ crlf)"
    using rest_at_slice [OF at] rest_at_slice [OF rest_at_append [OF at]]
      rest_at_slice [of buf ib "line @ crlf" rest] at
    by (simp_all add: add.assoc)
  show ?thesis
    unfolding property_step_def prod.case Let_def e fst_conv snd_conv add.assoc [symmetric] s
      bind.bind_lunit
    by (simp add: Let_def add.assoc)
qed


lemma header_line_nonempty [simp]: "header_line kv \<noteq> []"
  by (simp add: header_line_def)

lemma drop_nth_append: "i < length xs \<Longrightarrow> drop i (xs @ ys) = xs ! i # drop (Suc i) xs @ ys"
  by (simp add: Cons_nth_drop_Suc flip: append_Cons)

lemma properties_phase_header:
  assumes "rest_at buf ib (header_text kvs @ rest)" "\<And>kv. kv \<in> set kvs \<Longrightarrow> good_header kv"
    and "status ss = Http_properties_progress"
    and "http_header_scanning ss + length (header_text kvs) < limit"
  shows "properties_phase buf limit (ss, ib, fb, long) =
    (let n = ib + length (header_text kvs)
     in Some (False, ss\<lparr>status := Http_done,
        http_header_scanning := http_header_scanning ss + length (header_text kvs),
        resource := (resource ss)\<lparr>properties := properties (resource ss) ++ map_of (rev kvs)\<rparr>\<rparr>,
        n, n, False))"
  using assms
proof (induction kvs arbitrary: ib fb ss long)
  case Nil
  have step: "property_step buf (ss, ib, fb, long) =
      Some (None, ss\<lparr>http_header_scanning := http_header_scanning ss + 2, status := Http_done\<rparr>,
        ib + 2, ib + 2, False)"
    using Nil.prems property_step_line [of buf ib "[]" rest]
    by (simp add: header_text_def)
  show ?case
    using Nil.prems
    by (subst properties_phase.simps, simp add: step)
       (subst properties_phase.simps, simp add: header_text_def)
next
  case (Cons kv kvs)
  let ?line = "header_line kv"
  let ?n = "ib + length ?line + 2"
  let ?ss = "ss\<lparr>http_header_scanning := http_header_scanning ss + length ?line + 2,
      resource := (resource ss)\<lparr>properties := (properties (resource ss))(fst kv \<mapsto> snd kv)\<rparr>\<rparr>"
  have at: "rest_at buf ib (?line @ crlf @ header_text kvs @ rest)"
    using Cons.prems by (simp add: header_text_def)
  have good: "good_header kv" using Cons.prems by simp
  then have cr: "CHR 0x0D \<notin> set ?line"
    by (auto simp: good_header_def header_line_def)
  have step: "property_step buf (ss, ib, fb, long) = Some (None, ?ss, ?n, ?n, False)"
    using good unfolding property_step_line [OF at cr]
    by (simp add: add_property_line good_header_def)
  have at': "rest_at buf ?n (header_text kvs @ rest)"
    using rest_at_append [of buf ib "?line @ crlf"] at by (simp add: add.assoc)
  have "properties_phase buf limit (ss, ib, fb, long) = properties_phase buf limit (?ss, ?n, ?n, False)"
    using Cons.prems by (subst properties_phase.simps) (simp add: step)
  also have "\<dots> = (let n = ?n + length (header_text kvs)
     in Some (False, ?ss\<lparr>status := Http_done,
        http_header_scanning := http_header_scanning ?ss + length (header_text kvs),
        resource := (resource ?ss)\<lparr>properties := properties (resource ?ss) ++ map_of (rev kvs)\<rparr>\<rparr>,
        n, n, False))"
    using Cons.prems by (intro Cons.IH at') (auto simp: header_text_def)
  finally show ?case
    by (simp add: header_text_def Let_def map_add_upd_left ac_simps)
qed

section \<open>A complete request\<close>

definition request_text ::
  "string \<Rightarrow> string list \<Rightarrow> (string \<times> string) list \<Rightarrow> (string \<times> string) list \<Rightarrow> string" where
  "request_text verb segments args headers =
     verb @ url_text segments args @ request_ending @ header_text headers"

lemma url_text_avoids:
  assumes "c = CHR '' '' \<or> c = CHR 0x0D"
  shows "c \<notin> set (url_text segments args)"
proof -
  have c: "\<not> unreserved c" "c \<notin> set ''%/?&=''"
    using assms by (auto simp: unreserved_def)
  have "c \<notin> set (join (CHR ''/'') (map url_encode segments))"
    using c by (intro join_avoids) (auto simp: url_encode_avoids)
  moreover have "c \<notin> set (join (CHR ''&'') (map argument_text args))"
    using c by (intro join_avoids) (auto simp: argument_avoids)
  ultimately show ?thesis
    using c by (auto simp: url_text_def)
qed

text \<open>The methods: none begins another, so at most one matches.\<close>

lemma check_methods_word:
  assumes "verb \<in> set http_methods"
  shows "check_methods http_methods (verb @ s) = length verb"
  using assms unfolding http_methods_def list.set insert_iff empty_iff
  by (elim disjE FalseE; simp add: check_begin_spec)

lemma request_phase_line:
  assumes at: "rest_at buf ib (verb @ url_text segments args @ request_ending @ rest)"
    and verb: "verb \<in> set http_methods"
    and names: "[] \<notin> set segments" "[] \<notin> fst ` set args"
    and lens: "length segments \<le> no_limit" "length args \<le> no_limit"
  shows "request_phase buf (ss, ib, fb, long) =
    (let len = length verb + length (url_text segments args) + length request_ending;
         n = ib + len; r = resource ss
     in Some (False, ss\<lparr>req_type := method_type verb, status := Http_properties_progress,
          http_header_scanning := http_header_scanning ss + len,
          resource := r\<lparr>path := segments, arguments := arguments r ++ map_of (rev args)\<rparr>\<rparr>,
        n, n, False))"
proof -
  define url where "url = url_text segments args"
  have url: "CHR '' '' \<notin> set url" "\<exists>u. url = CHR ''/'' # u"
    using url_text_avoids by (auto simp: url_def url_text_def)
  have verb': "\<exists>w. verb = w @ '' '' \<and> CHR '' '' \<notin> set w"
    using verb by (auto simp: http_methods_def)
  have "check_end ((verb @ url) @ request_ending @ rest) request_ending =
      (length (verb @ url), length (verb @ url) + length request_ending)"
  proof (rule check_end_first)
    fix i assume i: "i < length (verb @ url)"
    obtain w where w: "verb = w @ '' ''" "CHR '' '' \<notin> set w" using verb' by blast
    note d = drop_nth_append [OF i, of "request_ending @ rest"]
    show "\<not> prefix request_ending (drop i ((verb @ url) @ request_ending @ rest))"
    proof (cases "i = length w")
      case True
      with w url show ?thesis by (auto simp: request_ending_def)
    next
      case False
      then have "(verb @ url) ! i \<in> set w \<union> set url"
        using i w(1) by (auto simp: nth_append nth_Cons split: nat.splits intro!: nth_mem)
      then have "(verb @ url) ! i \<noteq> CHR '' ''" using w(2) url(1) by auto
      then show ?thesis unfolding d by (simp add: request_ending_def)
    qed
  qed
  then have e: "check_end (drop ib buf) request_ending =
      (length verb + length url, length verb + length url + length request_ending)"
    using rest_at_drop [OF at] by (simp add: url_def)
  have m: "check_methods http_methods (drop ib buf) = length verb"
    using rest_at_drop [OF at] check_methods_word [OF verb] by simp
  have at1: "rest_at buf (ib + length verb) (url @ request_ending @ rest)"
    using rest_at_append [OF at] by (simp add: url_def)
  have s: "slice buf ib (ib + length verb) = Some verb"
      "slice buf (ib + (length verb + length url)) (ib + (length verb + length url + length request_ending))
        = Some request_ending"
      "slice buf ib (ib + (length verb + length url + length request_ending))
        = Some (verb @ url @ request_ending)"
      "slice buf (ib + length verb) (ib + (length verb + length url)) = Some url"
    using rest_at_slice [OF at] rest_at_slice [OF at1] rest_at_slice [OF rest_at_append [OF at1]]
      rest_at_slice [of buf ib "verb @ url @ request_ending" rest] at
    by (simp_all add: url_def add.assoc)
  have ne: "verb \<noteq> []" "request_ending \<noteq> []"
    using verb by (auto simp: http_methods_def request_ending_def)
  show ?thesis
    unfolding request_phase_def prod.case Let_def e m fst_conv snd_conv s bind.bind_lunit
    using ne verb
    by (simp add: url_def request_set_url_text [OF names lens] add.assoc)
qed


text \<open>What the code does behind a complete header.\<close>

lemma protocol_header:
  assumes buf: "rest_at buf ib (request_text verb segments args headers @ rest)"
    and verb: "verb \<in> set http_methods"
    and names: "[] \<notin> set segments" "[] \<notin> fst ` set args"
    and headers: "\<And>kv. kv \<in> set headers \<Longrightarrow> good_header kv"
    and lens: "length segments \<le> no_limit" "length args \<le> no_limit"
    and short: "length (request_text verb segments args headers) < header_max_size"
  shows "protocol_scan buf header_max_size content_max_size ssd (scan_status_new, ib, fb, long) body =
    (let n = ib + length (request_text verb segments args headers)
     in Some (done_phase buf content_max_size ssd
       (\<lparr>status = Http_done, req_type = method_type verb,
         http_header_scanning = length (request_text verb segments args headers),
         resource = \<lparr>path = segments, arguments = map_of (rev args),
           properties = map_of (rev headers)\<rparr>\<rparr>, n, n, False) body))"
proof -
  define line where "line = verb @ url_text segments args @ request_ending"
  define L where "L = length line"
  define H where "H = length (header_text headers)"
  have total: "length (request_text verb segments args headers) = L + H"
    by (simp add: L_def H_def line_def request_text_def)
  have at: "rest_at buf ib (verb @ url_text segments args @ request_ending @ header_text headers @ rest)"
    using buf by (simp add: request_text_def)
  have at': "rest_at buf (ib + L) (header_text headers @ rest)"
    using rest_at_append [of buf ib line] at by (simp add: line_def L_def)
  have m: "check_methods http_methods (drop ib buf) \<noteq> 0"
    using rest_at_drop [OF at] check_methods_word [OF verb] verb by (auto simp: http_methods_def)
  let ?res = "\<lambda>props. \<lparr>path = segments, arguments = map_of (rev args), properties = props\<rparr>"
  have r: "request_phase buf (scan_status_new\<lparr>status := Http_request_progress\<rparr>, ib, fb, long) =
      Some (False, \<lparr>status = Http_properties_progress, req_type = method_type verb,
          http_header_scanning = L, resource = ?res Map.empty\<rparr>, ib + L, ib + L, False)"
      (is "_ = Some (False, ?ss, _)")
    unfolding request_phase_line [OF at verb names lens]
    by (simp add: scan_status_new_def request_new_def Let_def L_def line_def add.assoc)
  have "properties_phase buf header_max_size (?ss, ib + L, ib + L, False) =
      (let n = ib + L + H
       in Some (False, ?ss\<lparr>status := Http_done,
        http_header_scanning := http_header_scanning ?ss + H,
        resource := (resource ?ss)\<lparr>properties := properties (resource ?ss) ++ map_of (rev headers)\<rparr>\<rparr>,
        n, n, False))"
    unfolding H_def using short total
    by (intro properties_phase_header [OF at' headers]) (simp_all add: H_def)
  then have p: "properties_phase buf header_max_size (?ss, ib + L, ib + L, False) =
      Some (False, \<lparr>status = Http_done, req_type = method_type verb, http_header_scanning = L + H,
        resource = ?res (map_of (rev headers))\<rparr>, ib + (L + H), ib + (L + H), False)"
    by (simp add: Let_def add.assoc)
  have fresh: "status scan_status_new = Status_clean" by (simp add: scan_status_new_def)
  show ?thesis
    unfolding protocol_scan_def Let_def prod.case fresh total
    using m short total by (simp add: r p)
qed


text \<open>A complete GET or DELETE request in the buffer: the answer is Success, the resource
  holds its path, its arguments and its header, both iterators stand behind the header, and
  the session is as it was before.\<close>

theorem protocol_reads_get:
  assumes "buf = pre @ request_text verb segments args headers @ rest"
    and "verb \<in> {''GET '', ''DELETE ''}"
    and "[] \<notin> set segments" "[] \<notin> fst ` set args" "\<forall>kv \<in> set headers. good_header kv"
    and "length segments \<le> no_limit" "length args \<le> no_limit"
    and "length (request_text verb segments args headers) < header_max_size"
    and "lst_ptr_data ssd = []"
  shows "let n = length pre + length (request_text verb segments args headers) in
    protocol ssd buf (length pre) fb enough header_max_size content_max_size body =
    Some (Success, \<lparr>status = Http_done, req_type = method_type verb,
         http_header_scanning = length (request_text verb segments args headers),
         resource = \<lparr>path = segments, arguments = map_of (rev args),
           properties = map_of (rev headers)\<rparr>\<rparr>, ssd, n, n, body)"
proof -
  have at: "rest_at buf (length pre) (request_text verb segments args headers @ rest)"
    using assms(1) by (auto simp: rest_at_def)
  have verb: "verb \<in> set http_methods" using assms(2) by (auto simp: http_methods_def)
  have same: "ssd\<lparr>lst_ptr_data := []\<rparr> = ssd" using assms(9) by simp
  have type: "method_type verb \<in> {Get, Del}" using assms(2) by (auto simp: method_type_def)
  have "session_scan ssd = ([], scan_status_new)" using assms(9) by (simp add: session_scan_def)
  then show ?thesis
    unfolding protocol_def Let_def
    using type protocol_header [OF at verb assms(3,4) _ assms(6-8), of content_max_size ssd fb]
      assms(5) same
    by (auto simp: done_phase_def Let_def)
qed

theorem protocol_reads_get_witness:
  "let ssd = session_special_data_new\<lparr>session_handler := True\<rparr>;
       text = request_text ''GET '' [''peers''] [(''n'', ''5'')] [(''Host'', ''x'')]
   in protocol ssd (text @ ''tail'') 0 0 1000 8192 8192 [] =
    Some (Success, \<lparr>status = Http_done, req_type = Get, http_header_scanning = length text,
         resource = \<lparr>path = [''peers''], arguments = map_of [(''n'', ''5'')],
           properties = map_of [(''Host'', ''x'')]\<rparr>\<rparr>, ssd, length text, length text, [])"
proof -
  have "length (request_text ''GET '' [''peers''] [(''n'', ''5'')] [(''Host'', ''x'')]) < 8192"
    by code_simp
  then show ?thesis
    using protocol_reads_get [of "request_text ''GET '' [''peers''] [(''n'', ''5'')] [(''Host'', ''x'')] @ ''tail''"
        "[]" "''GET ''" "[''peers'']" "[(''n'', ''5'')]" "[(''Host'', ''x'')]" "''tail''" 8192
        "session_special_data_new\<lparr>session_handler := True\<rparr>" 0 1000 8192 "[]"]
    by (simp add: good_header_def method_type_def Let_def)
qed

text \<open>C20: a complete POST or PUT request whose header gives the length of its content: the
  body is exactly that many characters behind the header, whatever follows them.\<close>

theorem protocol_reads_post:
  assumes "buf = pre @ request_text verb segments args headers @ content @ rest"
    and "verb \<in> {''POST '', ''PUT ''}"
    and "[] \<notin> set segments" "[] \<notin> fst ` set args" "\<forall>kv \<in> set headers. good_header kv"
    and "length segments \<le> no_limit" "length args \<le> no_limit"
    and "length (request_text verb segments args headers) < header_max_size"
    and "lst_ptr_data ssd = []"
    and "map_of (rev headers) ''Content-Length'' = Some (to_string (length content))"
    and "length content \<le> content_max_size" "length content < 2 ^ 64"
  shows "let n = length pre + length (request_text verb segments args headers) in
    protocol ssd buf (length pre) fb enough header_max_size content_max_size body =
    Some (Success, \<lparr>status = Http_done, req_type = method_type verb,
         http_header_scanning = length (request_text verb segments args headers),
         resource = \<lparr>path = segments, arguments = map_of (rev args),
           properties = map_of (rev headers)\<rparr>\<rparr>, ssd, n + length content, n, content)"
proof -
  have at: "rest_at buf (length pre) (request_text verb segments args headers @ content @ rest)"
    using assms(1) by (auto simp: rest_at_def)
  have verb: "verb \<in> set http_methods" using assms(2) by (auto simp: http_methods_def)
  have same: "ssd\<lparr>lst_ptr_data := []\<rparr> = ssd" using assms(9) by simp
  have type: "method_type verb \<in> {Post, Put}" using assms(2) by (auto simp: method_type_def)
  have len: "stoui64 (to_string (length content)) =
      (of_nat (length content), length (to_string (length content)))"
    using stoui64_to_string [of "length content" "[]"] assms(12) by (simp add: number_ends_def)
  have scan: "session_scan ssd = ([], scan_status_new)" using assms(9) by (simp add: session_scan_def)
  define n where "n = length pre + length (request_text verb segments args headers)"
  have "done_phase buf content_max_size ssd
      (\<lparr>status = Http_done, req_type = method_type verb,
         http_header_scanning = length (request_text verb segments args headers),
         resource = \<lparr>path = segments, arguments = map_of (rev args),
           properties = map_of (rev headers)\<rparr>\<rparr>, n, n, False) body =
     (Success, False, \<lparr>status = Http_done, req_type = method_type verb,
         http_header_scanning = length (request_text verb segments args headers),
         resource = \<lparr>path = segments, arguments = map_of (rev args),
           properties = map_of (rev headers)\<rparr>\<rparr>, ssd, n + length content, n, content)"
    using type assms(1,10-12) len
    by (auto simp: done_phase_def Let_def unat_of_nat_size n_def fun_upd_idem)
  then show ?thesis
    unfolding protocol_def Let_def n_def
    using protocol_header [OF at verb assms(3,4) _ assms(6-8), of content_max_size ssd fb]
      assms(5) same scan
    by (auto simp: Let_def n_def)
qed


theorem protocol_reads_post_witness:
  "let ssd = session_special_data_new\<lparr>session_handler := True\<rparr>;
       text = request_text ''POST '' [''api''] [] [(''Content-Length'', ''2'')]
   in protocol ssd (text @ ''{}'' @ ''GET '') 0 0 1000 8192 8192 [] =
    Some (Success, \<lparr>status = Http_done, req_type = Post, http_header_scanning = length text,
         resource = \<lparr>path = [''api''], arguments = Map.empty,
           properties = map_of [(''Content-Length'', ''2'')]\<rparr>\<rparr>, ssd,
         length text + 2, length text, ''{}'')"
proof -
  have "length (request_text ''POST '' [''api''] [] [(''Content-Length'', ''2'')]) < 8192"
    by code_simp
  moreover have "to_string (Suc (Suc 0)) = ''2''" by code_simp
  ultimately show ?thesis
    using protocol_reads_post [of "request_text ''POST '' [''api''] [] [(''Content-Length'', ''2'')] @ ''{}'' @ ''GET ''"
        "[]" "''POST ''" "[''api'']" "[]" "[(''Content-Length'', ''2'')]" "''{}''" "''GET ''" 8192
        "session_special_data_new\<lparr>session_handler := True\<rparr>" 8192 0 1000 "[]"]
    by (simp add: good_header_def method_type_def Let_def)
qed

section \<open>Delivery in pieces\<close>

lemma slice_more: "slice buf a b = Some x \<Longrightarrow> slice (buf @ extra) a b = Some x"
  by (auto simp: slice_def split: if_splits)

lemma slice_bounds: "slice buf a b = Some x \<Longrightarrow> a \<le> b \<and> b \<le> length buf"
  by (auto simp: slice_def split: if_splits)

lemma check_end_more:
  assumes "slice buf (ib + fst (check_end (drop ib buf) val)) (ib + snd (check_end (drop ib buf) val)) = Some val"
  shows "check_end (drop ib (buf @ extra)) val = check_end (drop ib buf) val"
proof -
  have ib: "ib \<le> length buf" using slice_bounds [OF assms] by linarith
  show ?thesis
  proof (rule check_end_cases [of "drop ib buf" val], goal_cases)
    case (1 b)
    then show ?case
      using check_end_found_stable [of val b "drop ib buf" extra] ib by simp
  next
    case (2 b)
    then have "take (length (drop ib buf) - b) (drop b (drop ib buf)) = val"
      using assms by (simp add: slice_def add.commute split: if_splits)
    then have "drop b (drop ib buf) = val" by simp
    with 2(3) show ?case by simp
  qed
qed

lemma property_step_more:
  assumes "property_step buf (ss, ib, fb, False) = Some (stop, p')"
  shows "stop = Some False \<and> p' = (ss, ib, fb, False) \<or>
    stop \<noteq> Some False \<and> property_step (buf @ extra) (ss, ib, fb, False) = Some (stop, p') \<and>
      (\<exists>ss' n. p' = (ss', n, n, False))"
proof -
  let ?e = "check_end (drop ib buf) crlf"
  obtain first ending where s: "slice buf ib (ib + fst ?e) = Some first"
      "slice buf (ib + fst ?e) (ib + snd ?e) = Some ending"
    using assms by (auto simp: property_step_def bind_eq_Some_conv Let_def)
  show ?thesis
  proof (cases "ending = crlf")
    case True
    then obtain l where l: "slice buf ib (ib + snd ?e) = Some l"
      using assms s by (auto simp: property_step_def Let_def bind_eq_Some_conv)
    have e: "check_end (drop ib (buf @ extra)) crlf = ?e"
      using s True by (intro check_end_more) simp
    have "property_step (buf @ extra) (ss, ib, fb, False) = property_step buf (ss, ib, fb, False)"
      unfolding property_step_def prod.case Let_def e s l slice_more [OF s(1)] slice_more [OF s(2)]
        slice_more [OF l] by (rule refl)
    with assms show ?thesis
      using s True l
      by (auto simp: property_step_def Let_def bind_eq_Some_conv split: if_splits prod.splits)
  next
    case False
    then show ?thesis
      using assms s by (auto simp: property_step_def Let_def split: if_splits)
  qed
qed

lemma properties_phase_more:
  assumes "properties_phase buf limit p = Some (False, p')" "p = (ss, n, n, False)"
  shows "properties_phase (buf @ extra) limit p = properties_phase (buf @ extra) limit p' \<and>
    (\<exists>ss' m. p' = (ss', m, m, False)) \<and> (status ss = Http_properties_progress \<or> p' = p)"
  using assms
proof (induction buf limit p "(False, p')" arbitrary: ss n rule: properties_phase.raw_induct [rotated, consumes 1, case_names step])
  case (step phase buf limit p)
  show ?case
  proof (cases "status ss = Http_properties_progress \<and> http_header_scanning ss < limit")
    case True
    then obtain stop q where q: "property_step buf p = Some (stop, q)"
        "(case stop of Some err \<Rightarrow> Some (err, q) | None \<Rightarrow> phase buf limit q) = Some (False, p')"
      using step by (auto simp: bind_eq_Some_conv)
    from property_step_more [of buf ss n n stop q extra] q(1) step(3)
    consider (wait) "stop = Some False" "q = p"
      | (found) ss' m where "stop \<noteq> Some False" "property_step (buf @ extra) p = Some (stop, q)" "q = (ss', m, m, False)"
      by auto
    then show ?thesis
    proof cases
      case wait
      then show ?thesis using q step(3) by auto
    next
      case found
      show ?thesis
      proof (cases stop)
        case None
        then have "properties_phase (buf @ extra) limit p = properties_phase (buf @ extra) limit q"
          using True found step(3) by (subst properties_phase.simps) simp
        moreover have "properties_phase (buf @ extra) limit q = properties_phase (buf @ extra) limit p' \<and>
            (\<exists>ss' m. p' = (ss', m, m, False))"
          using step(1) [of buf limit q ss' m] q None found by simp
        ultimately show ?thesis using True by simp
      next
        case (Some err)
        then show ?thesis using q found by simp
      qed
    qed
  next
    case False
    then show ?thesis using step(2,3) by auto
  qed
qed


lemma check_methods_more:
  assumes "slice buf ib (ib + check_methods http_methods (drop ib buf)) = Some verb"
    "verb \<in> set http_methods"
  shows "check_methods http_methods (drop ib (buf @ extra)) = check_methods http_methods (drop ib buf)"
proof -
  have ib: "ib \<le> length buf" using slice_bounds [OF assms(1)] by linarith
  have "take (check_methods http_methods (drop ib buf)) (drop ib buf) = verb"
    using assms(1) by (simp add: slice_def split: if_splits)
  then obtain s where "drop ib buf = verb @ s"
    by (metis append_take_drop_id)
  then show ?thesis
    using check_methods_word [OF assms(2), of s] check_methods_word [OF assms(2), of "s @ extra"] ib
    by simp
qed

lemma request_phase_more:
  assumes "request_phase buf (ss, n, n, False) = Some (False, p')"
  shows "p' = (ss, n, n, False) \<or>
    request_phase (buf @ extra) (ss, n, n, False) = Some (False, p') \<and>
    check_methods http_methods (drop n (buf @ extra)) \<noteq> 0 \<and>
    (\<exists>ss' m. p' = (ss', m, m, False) \<and> status ss' = Http_properties_progress)"
proof -
  let ?b = "n + check_methods http_methods (drop n buf)"
  let ?e = "check_end (drop n buf) request_ending"
  obtain verb ending where s: "slice buf n ?b = Some verb"
      "slice buf (n + fst ?e) (n + snd ?e) = Some ending"
    using assms by (auto simp: request_phase_def bind_eq_Some_conv Let_def)
  have verb: "verb \<noteq> []"
    using assms s by (auto simp: request_phase_def Let_def)
  show ?thesis
  proof (cases "verb \<in> set http_methods \<and> ending = request_ending")
    case True
    then obtain line url where l: "slice buf n (n + snd ?e) = Some line"
        "slice buf ?b (n + fst ?e) = Some url"
      using assms s verb by (auto simp: request_phase_def Let_def bind_eq_Some_conv)
    have e: "check_end (drop n (buf @ extra)) request_ending = ?e"
      using s True by (intro check_end_more) simp
    have b: "check_methods http_methods (drop n (buf @ extra)) = check_methods http_methods (drop n buf)"
      using s True by (intro check_methods_more) auto
    have "request_phase (buf @ extra) (ss, n, n, False) = request_phase buf (ss, n, n, False)"
      unfolding request_phase_def prod.case Let_def b e s l slice_more [OF s(1)] slice_more [OF s(2)]
        slice_more [OF l(1)] slice_more [OF l(2)] by (rule refl)
    moreover have "?b \<noteq> n"
      using s(1) verb by (auto simp: slice_def split: if_splits)
    ultimately show ?thesis
      using assms s True l verb b
      by (auto simp: request_phase_def Let_def bind_eq_Some_conv split: if_splits prod.splits)
  next
    case False
    then show ?thesis
      using assms s verb by (auto simp: request_phase_def Let_def split: if_splits)
  qed
qed

text \<open>The scan behind the request line.\<close>

definition finish_scan ::
  "string \<Rightarrow> nat \<Rightarrow> nat \<Rightarrow> 'o session_special_data \<Rightarrow> string \<Rightarrow> scan_point
     \<Rightarrow> (three_state \<times> bool \<times> scan_status \<times> 'o session_special_data \<times> nat \<times> nat \<times> string) option" where
  "finish_scan buf header_max_size content_max_size ssd body p =
     do { (err, p) \<leftarrow> properties_phase buf header_max_size p;
          let (ss, ib, fb, long) = p;
          if err \<or> http_header_scanning ss \<ge> header_max_size
          then Some (Error, False, ss, ssd, ib, fb, body)
          else if status ss = Http_done
          then Some (done_phase buf content_max_size ssd p body)
          else if status ss = Status_clean then Some (Error, False, ss, ssd, ib, fb, body)
          else Some (Attempt, True, ss, ssd, ib, fb, body) }"

lemma protocol_scan_finish:
  "protocol_scan buf header_max_size content_max_size ssd (ss, ib, fb, long) body =
    (let ss = (if status ss = Status_clean \<and> check_methods http_methods (drop ib buf) \<noteq> 0
               then ss\<lparr>status := Http_request_progress\<rparr> else ss)
     in if status ss = Http_request_progress
        then do { (err, ss, ib, fb, long) \<leftarrow> request_phase buf (ss, ib, fb, long);
                  if err then Some (Error, False, ss, ssd, ib, fb, body)
                  else finish_scan buf header_max_size content_max_size ssd body (ss, ib, fb, long) }
        else finish_scan buf header_max_size content_max_size ssd body (ss, ib, fb, long))"
  unfolding protocol_scan_def finish_scan_def Let_def prod.case
  by (auto simp: split_def intro!: bind_option_cong)

lemma finish_scan_cong:
  "properties_phase buf h p = properties_phase buf h p' \<Longrightarrow>
   finish_scan buf h c ssd body p = finish_scan buf h c ssd body p'"
  by (simp add: finish_scan_def)


text \<open>
  A call that waits for more data leaves the scan at one position; scanning the longer buffer
  from there is scanning it from the position before.
\<close>

lemma properties_phase_done:
  "status ss \<noteq> Http_properties_progress \<Longrightarrow>
   properties_phase buf limit (ss, ib, fb, long) = Some (False, (ss, ib, fb, long))"
  by (simp add: properties_phase.simps)

lemma property_step_status:
  "property_step buf p = Some (stop, p') \<Longrightarrow> status (fst p') = status (fst p) \<or> status (fst p') = Http_done"
  by (auto simp: property_step_def Let_def bind_eq_Some_conv split: prod.splits if_splits)

lemma properties_phase_status:
  assumes "properties_phase buf limit p = Some (err, p')"
  shows "status (fst p') = status (fst p) \<or> status (fst p') = Http_done"
  using assms
proof (induction buf limit p "(err, p')" rule: properties_phase.raw_induct [rotated, consumes 1, case_names step])
  case (step phase buf limit p)
  then show ?case
    using property_step_status [of buf p]
    by (fastforce simp: bind_eq_Some_conv split: prod.splits if_splits option.splits)
qed

lemma done_phase_waits:
  assumes "done_phase buf c ssd (ss, n, n, False) body = (Attempt, True, ss', ssd', ib', fb', body')"
  shows "ib' = n \<and> fb' = n \<and> ssd' = ssd \<and> body' = body \<and> status ss' = status ss \<and>
    http_header_scanning ss' = http_header_scanning ss \<and>
    done_phase buf2 c ssd (ss', n, n, False) body = done_phase buf2 c ssd (ss, n, n, False) body"
proof -
  have "req_type ss \<in> {Post, Put}"
    using assms by (cases "req_type ss") (auto simp: done_phase_def)
  then show ?thesis
    using assms by (auto simp: done_phase_def Let_def split: prod.splits if_splits option.splits)
qed

lemma finish_scan_resume:
  assumes "finish_scan buf h c ssd body (ss, n, n, False) = Some (Attempt, True, ss', ssd', ib', fb', body')"
  shows "ib' = fb' \<and> ssd' = ssd \<and> body' = body \<and> status ss' \<noteq> Status_clean \<and>
    (status ss' = Http_request_progress \<longrightarrow> status ss = Http_request_progress \<and> ss' = ss \<and> fb' = n) \<and>
    finish_scan (buf @ extra) h c ssd body (ss', fb', fb', False) =
    finish_scan (buf @ extra) h c ssd body (ss, n, n, False)"
proof -
  obtain p' where p: "properties_phase buf h (ss, n, n, False) = Some (False, p')"
    using assms by (auto simp: finish_scan_def bind_eq_Some_conv split: prod.splits if_splits)
  obtain sp m where more: "properties_phase (buf @ extra) h (ss, n, n, False) =
      properties_phase (buf @ extra) h (sp, m, m, False)" "p' = (sp, m, m, False)"
      "status ss = Http_properties_progress \<or> p' = (ss, n, n, False)"
    using properties_phase_more [OF p refl] by blast
  have status: "status sp = status ss \<or> status sp = Http_done"
    using properties_phase_status [OF p] more(2) by simp
  note to_sp = finish_scan_cong [OF more(1), of c ssd body]
  show ?thesis
  proof (cases "status sp = Http_done")
    case True
    then have d: "done_phase buf c ssd (sp, m, m, False) body = (Attempt, True, ss', ssd', ib', fb', body')"
        and h: "http_header_scanning sp < h"
      using assms p more(2) by (auto simp: finish_scan_def split: if_splits)
    note w = done_phase_waits [OF d, of "buf @ extra"]
    have "finish_scan (buf @ extra) h c ssd body (ss', m, m, False) =
        finish_scan (buf @ extra) h c ssd body (sp, m, m, False)"
      using w h True properties_phase_done [of sp] properties_phase_done [of ss']
      by (simp add: finish_scan_def)
    with w to_sp True show ?thesis by simp
  next
    case False
    then have "ss' = sp" "ib' = m" "fb' = m" "ssd' = ssd" "body' = body" "status sp \<noteq> Status_clean"
      using assms p more(2) by (auto simp: finish_scan_def split: if_splits)
    moreover have "ss' = ss \<and> m = n" if "status ss = Http_request_progress"
      using more(2,3) that calculation(1) by simp
    ultimately show ?thesis using to_sp status False by auto
  qed
qed


lemma request_phase_no_method:
  assumes "n \<le> length buf" "check_methods http_methods (drop n buf) = 0"
  shows "request_phase buf (ss, n, fb, long) = Some (True, (ss, n, fb, long))"
proof -
  let ?e = "check_end (drop n buf) request_ending"
  have "fst ?e \<le> snd ?e \<and> snd ?e \<le> length (drop n buf)"
    by (rule check_end_cases [of "drop n buf" request_ending])
       (auto dest: prefix_length_le)
  then have "slice buf (n + fst ?e) (n + snd ?e) \<noteq> None"
    using assms(1) by (auto simp: slice_def)
  moreover have "slice buf n n = Some []" using assms(1) by (simp add: slice_def)
  ultimately show ?thesis
    using assms(2) by (auto simp: request_phase_def Let_def)
qed

text \<open>The list of the session is the caller's business.\<close>

abbreviation with_list where
  "with_list l \<equiv> (\<lambda>(res, dismissed, ss, ssd, rest).
     (res, dismissed, ss, ssd\<lparr>lst_ptr_data := l\<rparr>, rest))"

lemma done_phase_list:
  "done_phase buf c (ssd\<lparr>lst_ptr_data := l\<rparr>) p body = with_list l (done_phase buf c ssd p body)"
  by (auto simp: done_phase_def Let_def split: prod.splits e_type.splits)

lemma protocol_scan_list:
  "protocol_scan buf h c (ssd\<lparr>lst_ptr_data := l\<rparr>) p body =
   map_option (with_list l) (protocol_scan buf h c ssd p body)"
  unfolding protocol_scan_def
  by (auto simp: done_phase_list map_option_bind Let_def split: prod.splits
      intro!: bind_option_cong)

abbreviation scan_started :: scan_status where
  "scan_started \<equiv> scan_status_new\<lparr>status := Http_request_progress\<rparr>"

text \<open>An attempt that keeps the session has found a method and left off in one of the later phases.\<close>

lemma protocol_attempt:
  assumes "protocol ssd buf n n enough h c body = Some (Attempt, ss, ssd', ib, fb, body')"
    and "lst_ptr_data ssd = []" "lst_ptr_data ssd' \<noteq> []" "length buf \<le> enough"
  obtains ssd1 p' where "ssd' = ssd1\<lparr>lst_ptr_data := [Http_scan ss]\<rparr>"
    "request_phase buf (scan_started, n, n, False) = Some (False, p')"
    "finish_scan buf h c ssd body p' = Some (Attempt, True, ss, ssd1, ib, fb, body')"
proof -
  have scan: "session_scan ssd = ([], scan_status_new)"
    using assms(2) by (simp add: session_scan_def)
  have long: "\<not> enough < length buf - k" for k
    using assms(4) by auto
  have clean: "status scan_status_new = Status_clean" by (simp add: scan_status_new_def)
  obtain ssd1 where scanned: "protocol_scan buf h c ssd (scan_status_new, n, n, False) body =
      Some (Attempt, True, ss, ssd1, ib, fb, body')" "ssd' = ssd1\<lparr>lst_ptr_data := [Http_scan ss]\<rparr>"
    using assms(1,3) scan long by (auto simp: protocol_def bind_eq_Some_conv split: if_splits)
  have methods: "check_methods http_methods (drop n buf) \<noteq> 0"
  proof
    assume "check_methods http_methods (drop n buf) = 0"
    then show False
      using scanned(1) clean
      by (simp add: protocol_scan_finish finish_scan_def properties_phase_done Let_def split: if_splits)
  qed
  then show ?thesis
    using that [OF scanned(2)] scanned(1) clean
    by (auto simp: protocol_scan_finish Let_def bind_eq_Some_conv split: prod.splits if_splits)
qed

abbreviation scan_erased where
  "scan_erased \<equiv> map_option (\<lambda>(res, dismissed, ss, answer). (res, dismissed, if dismissed then Some ss else None, answer))"

text \<open>Going on from where an attempt left off is scanning the longer buffer from the start.\<close>

lemma scan_resume:
  assumes req: "request_phase buf (scan_started, n, n, False) = Some (False, p')"
    and fin: "finish_scan buf h c ssd body p' = Some (Attempt, True, ss, ssd1, ib, fb, body')"
  shows "scan_erased (protocol_scan (buf @ extra) h c ssd (ss, fb, fb, False) body) =
      scan_erased (protocol_scan (buf @ extra) h c ssd (scan_status_new, n, n, False) body) \<and> ssd1 = ssd \<and> body' = body"
    (is "scan_erased ?resumed = scan_erased ?full \<and> _")
proof -
  have clean: "status scan_status_new = Status_clean" by (simp add: scan_status_new_def)
  show ?thesis
    using request_phase_more [OF req, of extra]
  proof (elim disjE conjE exE)
    assume p': "p' = (scan_started, n, n, False)"
    note r = finish_scan_resume [OF fin [unfolded p'], of extra]
    have "status ss = Http_request_progress"
      using fin unfolding p' by (auto simp: finish_scan_def properties_phase_done split: if_splits)
    then have ss: "ss = scan_started" "fb = n" using r by auto
    show ?thesis
    proof (cases "check_methods http_methods (drop n (buf @ extra)) = 0")
      case True
      obtain verb where "slice buf n (n + check_methods http_methods (drop n buf)) = Some verb"
        using req by (auto simp: request_phase_def bind_eq_Some_conv Let_def)
      then have "n \<le> length (buf @ extra)"
        using slice_bounds by fastforce
      then show ?thesis
        using True r clean ss request_phase_no_method [OF _ True]
        by (simp add: protocol_scan_finish finish_scan_def properties_phase_done Let_def)
    next
      case False
      then have "?full = ?resumed"
        using clean by (simp add: protocol_scan_finish ss Let_def)
      with r show ?thesis by simp
    qed
  next
    fix ss' m
    assume found: "request_phase (buf @ extra) (scan_started, n, n, False) = Some (False, p')"
      "check_methods http_methods (drop n (buf @ extra)) \<noteq> 0"
      "p' = (ss', m, m, False)" "status ss' = Http_properties_progress"
    note r = finish_scan_resume [OF fin [unfolded found(3)], of extra]
    have "?full = finish_scan (buf @ extra) h c ssd body p'"
      using found clean by (simp add: protocol_scan_finish Let_def)
    moreover have "?resumed = finish_scan (buf @ extra) h c ssd body (ss, fb, fb, False)"
      using r found(4) by (auto simp: protocol_scan_finish Let_def)
    ultimately show ?thesis using r found(3) by simp
  qed
qed




text \<open>With more bytes than \<open>enough_length\<close> the two differ: the limit is lifted by the first line that is found,
  but only for the call that finds it. What is one header of 17 characters to the second call is an endless line.\<close>

lemma protocol_resume_too_long:
  defines "line \<equiv> ''GET / HTTP/1.1'' @ crlf"
    and "ssd \<equiv> (session_special_data_new :: unit session_special_data)"
  shows "map_option fst (protocol ssd (line @ ''Accept: text/html'') 0 0 10 99 9 []) = Some Attempt"
    "\<exists>ss ssd'. protocol ssd (line @ ''Accept'') 0 0 10 99 9 [] = Some (Attempt, ss, ssd', 16, 16, []) \<and>
       map_option fst (protocol ssd' (line @ ''Accept: text/html'') 16 16 10 99 9 []) = Some Error"
proof -
  define ss :: scan_status where "ss = scan_started\<lparr>req_type := Get, status := Http_properties_progress, http_header_scanning := 16,
      resource := request_new\<lparr>path := [], arguments := Map.empty\<rparr>\<rparr>"
  have line: "line = ''GET '' @ url_text [] [] @ request_ending @ []" "length line = 16"
    by (simp_all add: line_def url_text_def request_ending_def)
  have request: "request_phase (line @ hdr) (scan_started, 0, 0, long) = Some (False, ss, 16, 16, False)" for hdr long
  proof -
    have "rest_at (line @ hdr) 0 (''GET '' @ url_text [] [] @ request_ending @ hdr)" by (simp add: rest_at_def line)
    from request_phase_line [OF this, of scan_started 0 long] show ?thesis
      by (simp add: http_methods_def Let_def url_text_def request_ending_def ss_def method_type_def scan_status_new_def
          request_new_def)
  qed
  have waits: "property_step (line @ hdr) (ss, 16, 16, long) = Some (if long then Some True else Some False, ss, 16, 16, long)"
    if "hdr = ''Accept'' \<or> hdr = ''Accept: text/html''" for hdr long
    using that line(2)
    by (elim disjE) (simp_all add: property_step_def check_end_def check_end_loop.simps slice_def Let_def)
  have st: "status ss = Http_properties_progress" "http_header_scanning ss = 16" by (simp_all add: ss_def)
  have finish: "finish_scan (line @ hdr) 99 9 s body (ss, 16, 16, long) =
      Some (if long then Error else Attempt, \<not> long, ss, s, 16, 16, body)"
    if "hdr = ''Accept'' \<or> hdr = ''Accept: text/html''" for hdr long body and s :: "unit session_special_data"
    using waits [OF that] st by (simp add: finish_scan_def properties_phase.simps Let_def)
  have starts: "check_methods http_methods (line @ hdr) \<noteq> 0" for hdr
    using check_methods_word [of "''GET ''"] by (simp add: line http_methods_def)
  have scan: "session_scan ssd = ([], scan_status_new)" by (simp add: ssd_def session_scan_def session_special_data_new_def)
  have first: "protocol ssd (line @ hdr) 0 0 10 99 9 [] =
      Some (Attempt, ss, ssd\<lparr>lst_ptr_data := [Http_scan ss]\<rparr>, 16, 16, [])"
    if "hdr = ''Accept'' \<or> hdr = ''Accept: text/html''" for hdr
    using request [of hdr] finish [OF that] starts [of hdr]
    by (simp add: protocol_def scan protocol_scan_finish Let_def scan_status_new_def)
  have "protocol (ssd\<lparr>lst_ptr_data := [Http_scan ss]\<rparr>) (line @ ''Accept: text/html'') 16 16 10 99 9 [] =
      Some (Error, ss, ssd\<lparr>lst_ptr_data := []\<rparr>, 16, 16, [])"
    using finish [OF disjI2 [OF refl]] line(2)
    by (simp add: protocol_def session_scan_def protocol_scan_finish st Let_def)
  then show "map_option fst (protocol ssd (line @ ''Accept: text/html'') 0 0 10 99 9 []) = Some Attempt"
    "\<exists>ss ssd'. protocol ssd (line @ ''Accept'') 0 0 10 99 9 [] = Some (Attempt, ss, ssd', 16, 16, []) \<and>
       map_option fst (protocol ssd' (line @ ''Accept: text/html'') 16 16 10 99 9 []) = Some Error"
    using first [of "''Accept''"] first [of "''Accept: text/html''"] by auto
qed

text \<open>The guard: whether the scan status stays, against the answer.\<close>

definition guarded :: "nat \<Rightarrow> three_state \<times> bool \<times> scan_status \<times> 'r \<Rightarrow> bool" where
  "guarded h r \<longleftrightarrow> (case r of (res, dismissed, ss, _) \<Rightarrow>
     if dismissed then res = Attempt \<and> http_header_scanning ss < h \<and> status ss \<noteq> Status_clean
     else res \<noteq> Attempt \<or> req_type ss = Options \<and> status ss = Http_done)"

lemma done_phase_guarded:
  assumes "status ss = Http_done" "http_header_scanning ss < h"
  shows "guarded h (done_phase buf c ssd (ss, ib, fb, long) body)"
  using assms
  by (cases "req_type ss") (simp_all add: done_phase_def guarded_def Let_def split: prod.splits)

lemma finish_scan_guarded:
  assumes "finish_scan buf h c ssd body p = Some r"
  shows "guarded h r"
proof -
  obtain err ss ib fb long where "properties_phase buf h p = Some (err, ss, ib, fb, long)"
    using assms by (auto simp: finish_scan_def bind_eq_Some_conv)
  then show ?thesis
    using assms done_phase_guarded [of ss h buf c ssd ib fb long body]
    by (auto simp: finish_scan_def guarded_def split: if_splits)
qed

lemma protocol_scan_guarded:
  assumes "protocol_scan buf h c ssd p body = Some r"
  shows "guarded h r"
proof -
  obtain ss ib fb long where "p = (ss, ib, fb, long)" by (cases p)
  then show ?thesis
    using assms finish_scan_guarded [of buf h c ssd body _ r]
    by (auto simp: protocol_scan_finish Let_def bind_eq_Some_conv split: prod.splits if_splits)
       (auto simp: guarded_def)
qed

text \<open>The scan status of a request stays in the session only while the answer is to wait
  for more data, and then the header read so far is below its limit; behind an answer the
  list is what it was without it.\<close>

theorem protocol_session:
  assumes "protocol ssd buf ib fb enough h c body = Some (res, ss, ssd', ib', fb', body')"
  shows "if lst_ptr_data ssd' = fst (session_scan ssd)
    then res \<noteq> Attempt \<or> req_type ss = Options \<and> status ss = Http_done
    else lst_ptr_data ssd' = fst (session_scan ssd) @ [Http_scan ss] \<and> res = Attempt \<and>
      http_header_scanning ss < h \<and> status ss \<noteq> Status_clean"
proof -
  obtain outer start where s: "session_scan ssd = (outer, start)" by (cases "session_scan ssd")
  obtain dismissed ssd1 where p: "protocol_scan buf h c ssd (start, ib, fb, enough < length buf - ib) body =
      Some (res, dismissed, ss, ssd1, ib', fb', body')"
      and l: "lst_ptr_data ssd' = (if dismissed then outer @ [Http_scan ss] else outer)"
    using assms by (auto simp: protocol_def s bind_eq_Some_conv)
  show ?thesis
    using protocol_scan_guarded [OF p] l s by (simp add: guarded_def split: if_splits)
qed

theorem protocol_session_witness:
  "\<exists>ss ssd'. protocol (session_special_data_new\<lparr>session_handler := True\<rparr> :: unit session_special_data) ''X'' 0 0 9 9 9 [] =
      Some (Error, ss, ssd', 0, 0, []) \<and> lst_ptr_data ssd' = []"
proof -
  have "check_methods http_methods ''X'' = 0"
    by (simp add: http_methods_def check_begin_spec)
  then have "protocol (session_special_data_new\<lparr>session_handler := True\<rparr> :: unit session_special_data)
      ''X'' 0 0 9 9 9 [] = Some (Error, scan_status_new, session_special_data_new\<lparr>session_handler := True\<rparr>, 0, 0, [])"
    by (simp add: protocol_def session_scan_def protocol_scan_finish finish_scan_def
        properties_phase_done scan_status_new_def)
  with protocol_session [OF this] show ?thesis by auto
qed


text \<open>A request line whose url is missing together with its blank is read as a range that
  ends before it begins, which is undefined behaviour.\<close>

theorem request_line_without_url:
  "request_phase (''GET HTTP/1.1'' @ crlf @ rest) (ss, 0, fb, long) = None"
proof -
  have e: "check_end (''GET'' @ request_ending @ rest) request_ending = (3, 3 + length request_ending)"
    using check_end_line [of "CHR '' ''" "''GET''" request_ending "''HTTP/1.1'' @ crlf" rest]
    by (simp add: request_ending_def)
  have m: "check_methods http_methods (''GET '' @ s) = 4" for s
    using check_methods_word [of "''GET ''" s] by (simp add: http_methods_def)
  have buf: "''GET HTTP/1.1'' @ crlf @ rest = ''GET'' @ request_ending @ rest"
      "''GET'' @ request_ending @ rest = ''GET '' @ drop 1 (request_ending @ rest)"
    by (simp_all add: request_ending_def)
  have s: "slice (''GET'' @ request_ending @ rest) 3 (3 + length request_ending) = Some request_ending"
      "slice (''GET '' @ drop 1 (request_ending @ rest)) 0 4 = Some ''GET ''"
    by (simp_all add: slice_def)
  have "check_methods http_methods (''GET'' @ request_ending @ rest) = 4"
    unfolding buf(2) by (rule m)
  moreover have "slice (''GET'' @ request_ending @ rest) 0 4 = Some ''GET ''"
    unfolding buf(2) by (rule s(2))
  moreover have "slice (''GET'' @ request_ending @ rest) 4 3 = None"
    by (simp add: slice_def)
  moreover have "request_ending \<noteq> []" "''GET '' \<in> set http_methods"
    by (simp_all add: request_ending_def http_methods_def)
  ultimately show ?thesis
    unfolding buf(1) request_phase_def
    using e s(1) by (simp add: Let_def bind_eq_None_conv del: append_Cons)
qed

end
