(* ===== verification/Scope_Helper.thy ===== *)
theory Scope_Helper
  imports Prelude
begin

text \<open>
  The guards of \<open>src/belt.pp/scope_helper.hpp\<close>: \<open>on_failure\<close>, whose action runs at the end of
  the scope unless it is dismissed, and \<open>finally\<close>, whose action always runs. A guard is its
  \<open>std::function\<close>, empty or an action on the state; an action that throws leaves a
  destructor, which ends the program. A self assignment is not modelled.
\<close>

type_synonym 's guard = "('s, unit) call option"

definition guard_new :: "'s guard" where
  "guard_new = None"

definition guard_from :: "('s, unit) call \<Rightarrow> 's guard" where
  "guard_from cleanup = Some cleanup"

text \<open>A move: the new guard and what is left of the other one.\<close>

definition guard_move :: "'s guard \<Rightarrow> 's guard \<times> 's guard" where
  "guard_move other = (other, None)"

definition guard_dismiss :: "'s guard \<Rightarrow> 's guard" where
  "guard_dismiss g = None"

definition guard_destroy :: "'s guard \<Rightarrow> ('s, unit) call" where
  "guard_destroy g s =
     (case g of
        None \<Rightarrow> (Inr (), s)
      | Some cleanup \<Rightarrow> (case cleanup s of (Inl e, s') \<Rightarrow> (Inl Terminates, s') | r \<Rightarrow> r))"

text \<open>The assignment runs the action the guard holds, then takes the other one; a failing
  action passes its exception on, for an assignment is no destructor.\<close>

definition guard_assign :: "'s guard \<Rightarrow> 's guard \<Rightarrow> ('s, 's guard \<times> 's guard) call" where
  "guard_assign g other =
     then_do (case g of None \<Rightarrow> give () | Some cleanup \<Rightarrow> cleanup)
       (\<lambda>_. give (guard_move other))"

text \<open>
  The idiom of the library: a guard, then a body that dismisses it at its end. An exception of
  the body runs the action on its way out; the end of the program and undefined behaviour run
  nothing.
\<close>

definition is_exception :: "failure \<Rightarrow> bool" where
  "is_exception e = (case e of Runtime_error _ \<Rightarrow> True | Logic_error _ \<Rightarrow> True | _ \<Rightarrow> False)"

definition guarded_scope :: "('s, unit) call \<Rightarrow> ('s, 'a) call \<Rightarrow> ('s, 'a) call" where
  "guarded_scope cleanup body s =
     (case body s of
        (Inr x, s') \<Rightarrow> then_do (guard_destroy (guard_dismiss (guard_from cleanup))) (\<lambda>_. give x) s'
      | (Inl e, s') \<Rightarrow>
          if is_exception e then then_do (guard_destroy (guard_from cleanup)) (\<lambda>_. raise e) s'
          else (Inl e, s'))"

lemma guarded_scope_Inr [result_simps]:
  "guarded_scope cleanup body s = (Inr x, s') \<longleftrightarrow> body s = (Inr x, s')"
  by (auto simp: guarded_scope_def guard_dismiss_def guard_destroy_def give_def raise_def then_do_def
      split: prod.splits sum.splits option.splits)

lemma guarded_scope_Inl:
  "guarded_scope cleanup body s = (Inl e, s') \<Longrightarrow>
    (\<not> is_exception e \<and> body s = (Inl e, s')) \<or>
    (\<exists>e1 s1 r. body s = (Inl e1, s1) \<and> is_exception e1 \<and> cleanup s1 = (r, s') \<and>
       (e = e1 \<and> r = Inr () \<or> e = Terminates \<and> (\<exists>e2. r = Inl e2)))"
  by (auto simp: guarded_scope_def guard_dismiss_def guard_destroy_def guard_from_def give_def raise_def
      then_do_def split: prod.splits sum.splits option.splits if_splits)

text \<open>\<open>finally\<close>: its members are those of \<open>on_failure\<close>, but it cannot be dismissed, and a move empties the other one
  by an assignment.\<close>

definition finally_new :: "'s guard" where
  "finally_new = None"

definition finally_from :: "('s, unit) call \<Rightarrow> 's guard" where
  "finally_from cleanup = Some cleanup"

definition finally_move :: "'s guard \<Rightarrow> 's guard \<times> 's guard" where
  "finally_move other = (other, None)"

definition finally_destroy :: "'s guard \<Rightarrow> ('s, unit) call" where
  "finally_destroy g s =
     (case g of
        None \<Rightarrow> (Inr (), s)
      | Some cleanup \<Rightarrow> (case cleanup s of (Inl e, s') \<Rightarrow> (Inl Terminates, s') | r \<Rightarrow> r))"

definition finally_assign :: "'s guard \<Rightarrow> 's guard \<Rightarrow> ('s, 's guard \<times> 's guard) call" where
  "finally_assign g other =
     then_do (case g of None \<Rightarrow> give () | Some cleanup \<Rightarrow> cleanup) (\<lambda>_. give (finally_move other))"

definition finally_scope :: "('s, unit) call \<Rightarrow> ('s, 'a) call \<Rightarrow> ('s, 'a) call" where
  "finally_scope cleanup body s =
     (case body s of
        (Inr x, s') \<Rightarrow> then_do (finally_destroy (finally_from cleanup)) (\<lambda>_. give x) s'
      | (Inl e, s') \<Rightarrow>
          if is_exception e then then_do (finally_destroy (finally_from cleanup)) (\<lambda>_. raise e) s' else (Inl e, s'))"

text \<open>The action runs once, after the body, whether it returned or threw.\<close>

lemma finally_runs:
  assumes "body s = (r, s1)" "cleanup s1 = (Inr (), s2)" "\<forall>e. r = Inl e \<longrightarrow> is_exception e"
  shows "finally_scope cleanup body s = (r, s2)"
  using assms by (cases r) (auto simp: finally_scope_def finally_destroy_def finally_from_def give_def raise_def then_do_def)

end
