(* ===== verification/Os_Interface.thy ===== *)
theory Os_Interface
  imports Scope_Helper
begin

text \<open>
  The calls of the operating system and of the C library that the socket library makes (the
  build for Linux), as a parameter: a record of functions on a system state \<open>'k\<close>, of which
  nothing is known but what a hypothesis says. An address (\<open>sockaddr\<close>) is an opaque \<open>'x\<close>.
  Each function answers what the call returns and stores; \<open>errno\<close> is read from the state. A
  list of \<open>addrinfo\<close> is a list, the null pointer the empty one.
\<close>

record 'x addrinfo =
  ai_family :: int
  ai_socktype :: int
  ai_protocol :: int
  ai_addr :: 'x

record ('k, 'x) os =
  sys_errno :: "'k \<Rightarrow> int"
  sys_strerror :: "int \<Rightarrow> string"
  sys_now :: "'k \<Rightarrow> int \<times> 'k"
  sys_epoll_create :: "'k \<Rightarrow> int \<times> 'k"
  sys_pipe :: "'k \<Rightarrow> (int \<times> int \<times> int) \<times> 'k"
  sys_fcntl_getfl :: "int \<Rightarrow> 'k \<Rightarrow> int \<times> 'k"
  sys_fcntl_setfl :: "int \<Rightarrow> int \<Rightarrow> 'k \<Rightarrow> int \<times> 'k"
  sys_epoll_add :: "int \<Rightarrow> int \<Rightarrow> bool \<Rightarrow> u64 \<Rightarrow> 'k \<Rightarrow> int \<times> 'k"
  sys_epoll_del :: "int \<Rightarrow> int \<Rightarrow> u64 \<Rightarrow> 'k \<Rightarrow> int \<times> 'k"
  sys_epoll_wait :: "int \<Rightarrow> nat \<Rightarrow> int \<Rightarrow> 'k \<Rightarrow> (int \<times> u64 list) \<times> 'k"
  sys_read_byte :: "int \<Rightarrow> 'k \<Rightarrow> int \<times> 'k"
  sys_write_byte :: "int \<Rightarrow> 'k \<Rightarrow> int \<times> 'k"
  sys_close :: "int \<Rightarrow> 'k \<Rightarrow> int \<times> 'k"
  sys_recv :: "int \<Rightarrow> nat \<Rightarrow> 'k \<Rightarrow> (int \<times> string) \<times> 'k"
  sys_send :: "int \<Rightarrow> string \<Rightarrow> 'k \<Rightarrow> int \<times> 'k"
  sys_accept :: "int \<Rightarrow> 'k \<Rightarrow> int \<times> 'k"
  sys_connect :: "int \<Rightarrow> 'x \<Rightarrow> 'k \<Rightarrow> int \<times> 'k"
  sys_so_error :: "int \<Rightarrow> 'k \<Rightarrow> (int \<times> int) \<times> 'k"
  sys_getsockname :: "int \<Rightarrow> 'k \<Rightarrow> (int \<times> 'x) \<times> 'k"
  sys_getpeername :: "int \<Rightarrow> 'k \<Rightarrow> (int \<times> 'x) \<times> 'k"
  sys_socket :: "int \<Rightarrow> int \<Rightarrow> int \<Rightarrow> 'k \<Rightarrow> int \<times> 'k"
  sys_setsockopt :: "int \<Rightarrow> int \<Rightarrow> 'k \<Rightarrow> int \<times> 'k"
  sys_bind :: "int \<Rightarrow> 'x \<Rightarrow> 'k \<Rightarrow> int \<times> 'k"
  sys_listen :: "int \<Rightarrow> int \<Rightarrow> 'k \<Rightarrow> int \<times> 'k"
  sys_getaddrinfo :: "string option \<Rightarrow> string \<Rightarrow> int \<Rightarrow> bool \<Rightarrow> 'k \<Rightarrow> (int \<times> 'x addrinfo list) \<times> 'k"
  gai_strerror :: "int \<Rightarrow> string"
  sa_family :: "'x \<Rightarrow> int"
  inet_ntop :: "'x \<Rightarrow> string"
  sin_port :: "'x \<Rightarrow> u16"

text \<open>\<open>strerror(errno)\<close>.\<close>

definition last_error :: "('k, 'x, 'm) os_scheme \<Rightarrow> 'k \<Rightarrow> string" where
  "last_error os k = sys_strerror os (sys_errno os k)"


text \<open>A system on which every call succeeds and nothing ever happens, for examples.\<close>

definition quiet_os :: "(nat, string) os" where
  "quiet_os =
     \<lparr>sys_errno = (\<lambda>_. 0), sys_strerror = (\<lambda>_. []), sys_now = (\<lambda>k. (int k, k)),
      sys_epoll_create = (\<lambda>k. (3, k)), sys_pipe = (\<lambda>k. ((0, 4, 5), k)),
      sys_fcntl_getfl = (\<lambda>_ k. (0, k)), sys_fcntl_setfl = (\<lambda>_ _ k. (0, k)),
      sys_epoll_add = (\<lambda>_ _ _ _ k. (0, k)), sys_epoll_del = (\<lambda>_ _ _ k. (0, k)),
      sys_epoll_wait = (\<lambda>_ _ _ k. ((0, []), k)), sys_read_byte = (\<lambda>_ k. (1, k)),
      sys_write_byte = (\<lambda>_ k. (1, k)), sys_close = (\<lambda>_ k. (0, k)),
      sys_recv = (\<lambda>_ _ k. ((0, []), k)), sys_send = (\<lambda>_ s k. (int (length s), k)),
      sys_accept = (\<lambda>_ k. (6, k)), sys_connect = (\<lambda>_ _ k. (0, k)), sys_so_error = (\<lambda>_ k. ((0, 0), k)),
      sys_getsockname = (\<lambda>_ k. ((0, ''a''), k)), sys_getpeername = (\<lambda>_ k. ((0, ''b''), k)),
      sys_socket = (\<lambda>_ _ _ k. (7, k)), sys_setsockopt = (\<lambda>_ _ k. (0, k)), sys_bind = (\<lambda>_ _ k. (0, k)),
      sys_listen = (\<lambda>_ _ k. (0, k)),
      sys_getaddrinfo = (\<lambda>_ _ _ _ k. ((0, [\<lparr>ai_family = 2, ai_socktype = 1, ai_protocol = 0, ai_addr = ''a''\<rparr>]), k)),
      gai_strerror = (\<lambda>_. []), sa_family = (\<lambda>_. 2), inet_ntop = (\<lambda>a. a), sin_port = (\<lambda>_. 80)\<rparr>"

end
