(* ===== verification/Timer.thy ===== *)
theory Timer
  imports Os_Interface
begin

text \<open>
  \<open>beltpp::timer\<close> of \<open>src/belt.pp/timer.hpp\<close>. Time points and durations are the ticks of the
  steady clock, unbounded here; every reading of the clock may be a later one.
\<close>

record timer =
  is_set :: bool
  last_point_expired :: int
  timer_period :: int

definition timer_new :: timer where
  "timer_new = \<lparr>is_set = False, last_point_expired = 0, timer_period = 0\<rparr>"

definition timer_set :: "('k, 'x, 'm) os_scheme \<Rightarrow> int \<Rightarrow> timer \<Rightarrow> 'k \<Rightarrow> timer \<times> 'k" where
  "timer_set os period tm k =
     (let (now, k) = sys_now os k
      in (tm\<lparr>is_set := True, last_point_expired := now - period, timer_period := period\<rparr>, k))"

definition timer_clean :: "timer \<Rightarrow> timer" where
  "timer_clean tm = tm\<lparr>is_set := False\<rparr>"

definition timer_expired :: "('k, 'x, 'm) os_scheme \<Rightarrow> timer \<Rightarrow> 'k \<Rightarrow> bool \<times> 'k" where
  "timer_expired os tm k =
     (if is_set tm
      then let (now, k) = sys_now os k in (now - last_point_expired tm \<ge> timer_period tm, k)
      else (False, k))"

partial_function (option) timer_update ::
  "('k, 'x, 'm) os_scheme \<Rightarrow> timer \<Rightarrow> 'k \<Rightarrow> (timer \<times> 'k) option" where
  "timer_update os tm k =
     (let (e, k) = timer_expired os tm k
      in if e
         then timer_update os (tm\<lparr>last_point_expired := last_point_expired tm + timer_period tm\<rparr>) k
         else Some (tm, k))"

declare timer_update.simps [code]

section \<open>Facts\<close>

definition clock_below :: "('k, 'x, 'm) os_scheme \<Rightarrow> int \<Rightarrow> bool" where
  "clock_below os b \<longleftrightarrow> (\<forall>k. fst (sys_now os k) < b)"

lemma timer_update_run:
  assumes "is_set tm" "0 < timer_period tm" "clock_below os b"
  shows "\<exists>n now k'. timer_update os tm k =
      Some (tm\<lparr>last_point_expired := last_point_expired tm + int n * timer_period tm\<rparr>, k') \<and>
    (n = 0 \<or> last_point_expired tm + int n * timer_period tm < b) \<and>
    now < last_point_expired tm + int n * timer_period tm + timer_period tm \<and>
    (\<exists>k0. (now, k') = sys_now os k0)"
  using assms
proof (induction "nat (b - last_point_expired tm)" arbitrary: tm k rule: less_induct)
  case less
  obtain now k' where clock: "sys_now os k = (now, k')" by (cases "sys_now os k")
  then have below: "now < b" using less(4) by (metis clock_below_def fst_conv)
  show ?case
  proof (cases "now - last_point_expired tm \<ge> timer_period tm")
    case False
    then have "timer_update os tm k = Some (tm, k')"
      using less(2) clock by (subst timer_update.simps) (simp add: timer_expired_def)
    moreover have "\<exists>k0. (now, k') = sys_now os k0" using clock by metis
    ultimately show ?thesis
      using False by (intro exI [of _ "0::nat"] exI [of _ now] exI [of _ k']) auto
  next
    case True
    let ?tm = "tm\<lparr>last_point_expired := last_point_expired tm + timer_period tm\<rparr>"
    have step: "timer_update os tm k = timer_update os ?tm k'"
      using less(2) clock True by (subst timer_update.simps) (simp add: timer_expired_def)
    have closer: "nat (b - last_point_expired ?tm) < nat (b - last_point_expired tm)"
      using True below less(3) by simp
    obtain n now2 k2 where ih: "timer_update os ?tm k' =
          Some (?tm\<lparr>last_point_expired := last_point_expired ?tm + int n * timer_period ?tm\<rparr>, k2)"
        "n = 0 \<or> last_point_expired ?tm + int n * timer_period ?tm < b"
        "now2 < last_point_expired ?tm + int n * timer_period ?tm + timer_period ?tm"
        "\<exists>k0. (now2, k2) = sys_now os k0"
      using less(1) [OF closer, of k'] less(2-4) by auto
    show ?thesis
      using step ih True below
      by (intro exI [of _ "Suc n"] exI [of _ now2] exI [of _ k2]) (auto simp: algebra_simps)
  qed
qed

text \<open>An update ends, unless a timer is set that has no period or a negative one.\<close>

lemma timer_update_ends:
  assumes "clock_below os b" "is_set tm \<longrightarrow> 0 < timer_period tm"
  shows "timer_update os tm k \<noteq> None"
proof (cases "is_set tm")
  case True
  then show ?thesis using timer_update_run [of tm os b k] assms by auto
next
  case False
  then show ?thesis by (subst timer_update.simps) (simp add: timer_expired_def)
qed

text \<open>C28: updating a timer with a positive period ends, for the clock does not run away while it
  is updated: the point moves by whole periods and not beyond the clock, and the next period has
  not passed at the last reading.\<close>

theorem timer_update_catches_up:
  assumes "is_set tm" "0 < timer_period tm" "clock_below os b"
  shows "\<exists>n now k'. timer_update os tm k =
      Some (tm\<lparr>last_point_expired := last_point_expired tm + int n * timer_period tm\<rparr>, k') \<and>
    (n = 0 \<or> last_point_expired tm + int n * timer_period tm < b) \<and>
    now < last_point_expired tm + int n * timer_period tm + timer_period tm \<and>
    (\<exists>k0. (now, k') = sys_now os k0)"
  using assms by (rule timer_update_run)

theorem timer_update_catches_up_witness:
  "\<exists>k'. timer_update (quiet_os\<lparr>sys_now := \<lambda>k. (35, k)\<rparr>)
      \<lparr>is_set = True, last_point_expired = 1, timer_period = 10\<rparr> 0 =
      Some (\<lparr>is_set = True, last_point_expired = 31, timer_period = 10\<rparr>, k')"
proof -
  from timer_update_catches_up [of "\<lparr>is_set = True, last_point_expired = 1, timer_period = 10\<rparr>"
      "quiet_os\<lparr>sys_now := \<lambda>k. (35, k)\<rparr>" 36 0]
  obtain n k' where n: "timer_update (quiet_os\<lparr>sys_now := \<lambda>k. (35, k)\<rparr>)
      \<lparr>is_set = True, last_point_expired = 1, timer_period = 10\<rparr> 0 =
      Some (\<lparr>is_set = True, last_point_expired = 1 + int n * 10, timer_period = 10\<rparr>, k')"
      "n = 0 \<or> 1 + int n * 10 < 36" "35 < 1 + int n * 10 + 10"
    by (auto simp: clock_below_def)
  then have "n = 3" by linarith
  with n(1) show ?thesis by simp
qed

text \<open>Without a period the loop never ends, once the clock has reached the point.\<close>

theorem timer_update_hangs:
  assumes "is_set tm" "timer_period tm = 0" "\<And>k. last_point_expired tm \<le> fst (sys_now os k)"
  shows "timer_update os tm k = None"
proof -
  have "is_set tm \<Longrightarrow> timer_period tm = 0 \<Longrightarrow> (\<And>k. last_point_expired tm \<le> fst (sys_now os k)) \<Longrightarrow> False"
    if "timer_update os tm k = Some r" for tm k r
    using that
  proof (induction os tm k r rule: timer_update.raw_induct [rotated, consumes 1, case_names step])
    case (step f os tm k r)
    obtain now k' where clock: "sys_now os k = (now, k')" by (cases "sys_now os k")
    then have "last_point_expired tm \<le> now" using step(5) [of k] by simp
    then have "f os tm k' = Some r"
      using step(2-4) clock by (simp add: timer_expired_def)
    from step(1) [OF this step(3-5)] show ?case .
  qed
  then show ?thesis using assms by (cases "timer_update os tm k") auto
qed

end
