(* ===== verification/Poll_Master.thy ===== *)
theory Poll_Master
  imports Timer
begin

text \<open>
  \<open>poll_master\<close> of \<open>src/libsocket/poll_master.hpp\<close> for Linux: an epoll descriptor, a pipe that
  wakes it, and a vector with one element for each descriptor that is registered, of which only
  the size matters here. Each call works on the object and the system state.
\<close>

record poll_master =
  m_fd :: int
  m_fd_pipe_read :: int
  m_fd_pipe_write :: int
  m_arr_event :: nat

datatype task = Task_remove | Task_accept | Task_connect | Task_receive | Task_send

type_synonym 'k poll_state = "poll_master \<times> 'k"

definition throw_errno :: "('k, 'x, 'm) os_scheme \<Rightarrow> string \<Rightarrow> 'k \<Rightarrow> failure" where
  "throw_errno os call k = Runtime_error (call @ ''(): '' @ last_error os k)"

definition close_fd :: "('k, 'x, 'm) os_scheme \<Rightarrow> int \<Rightarrow> ('k, unit) call" where
  "close_fd os fd k = (Inr (), snd (sys_close os fd k))"

abbreviation o_nonblock :: "32 word" where
  "o_nonblock \<equiv> 2048"

text \<open>\<open>flags | O_NONBLOCK\<close> on an \<open>int\<close>.\<close>

definition with_nonblock :: "int \<Rightarrow> int" where
  "with_nonblock flags = sint (or (word_of_int flags :: 32 word) o_nonblock)"

text \<open>The constructor: the flags are read from one end of the pipe and set for the other.\<close>

definition poll_new :: "('k, 'x, 'm) os_scheme \<Rightarrow> ('k, poll_master) call" where
  "poll_new os k =
     (let (fd, k) = sys_epoll_create os k
      in if fd = - 1 then (Inl (throw_errno os ''epoll_create'' k), k)
         else guarded_scope (close_fd os fd) (\<lambda>k.
           let ((res, rd, wr), k) = sys_pipe os k
           in if res = - 1 then (Inl (throw_errno os ''pipe'' k), k)
              else guarded_scope (then_do (close_fd os rd) (\<lambda>_. close_fd os wr)) (\<lambda>k.
                let (flags, k) = sys_fcntl_getfl os rd k;
                    flags = with_nonblock flags;
                    (res, k) = sys_fcntl_setfl os wr (with_nonblock flags) k
                in if res = - 1 then (Inl (throw_errno os ''fcntl'' k), k)
                   else let (res, k) = sys_epoll_add os fd rd False (- 1) k
                        in if res = - 1 then (Inl (throw_errno os ''epoll_ctl'' k), k)
                           else (Inr \<lparr>m_fd = fd, m_fd_pipe_read = rd, m_fd_pipe_write = wr,
                                   m_arr_event = 1\<rparr>, k)) k) k)"

definition poll_destroy :: "('k, 'x, 'm) os_scheme \<Rightarrow> poll_master \<Rightarrow> 'k \<Rightarrow> 'k" where
  "poll_destroy os p k =
     snd (sys_close os (m_fd_pipe_write p)
       (snd (sys_close os (m_fd_pipe_read p) (snd (sys_close os (m_fd p) k)))))"

definition poll_add ::
  "('k, 'x, 'm) os_scheme \<Rightarrow> int \<Rightarrow> u64 \<Rightarrow> task \<Rightarrow> ('k poll_state, unit) call" where
  "poll_add os socket_descriptor pid action s =
     (let (p, k) = s;
          out = (action = Task_connect \<or> action = Task_send);
          (res, k) = sys_epoll_add os (m_fd p) socket_descriptor out pid k
      in if res = - 1 then (Inl (throw_errno os ''epoll_ctl'' k), (p, k))
         else (Inr (), (p\<lparr>m_arr_event := Suc (m_arr_event p)\<rparr>, k)))"

definition poll_pop :: "('k poll_state, unit) call" where
  "poll_pop s =
     (let (p, k) = s
      in if m_arr_event p = 0 then (Inl Undefined, s)
         else (Inr (), (p\<lparr>m_arr_event := m_arr_event p - 1\<rparr>, k)))"

definition poll_remove ::
  "('k, 'x, 'm) os_scheme \<Rightarrow> int \<Rightarrow> u64 \<Rightarrow> bool \<Rightarrow> task \<Rightarrow> ('k poll_state, unit) call" where
  "poll_remove os socket_descriptor pid already_closed action s =
     (let (p, k) = s
      in if \<not> already_closed
         then let (res, k) = sys_epoll_del os (m_fd p) socket_descriptor pid k
              in if res = - 1 then (Inl (throw_errno os ''epoll_ctl'' k), (p, k))
                 else poll_pop (p, k)
         else poll_pop s)"

text \<open>
  The time to wait: \<open>duration_cast\<close> cuts a duration of nanoseconds towards zero, and the
  milliseconds are stored in an \<open>int\<close>.
\<close>

definition to_milliseconds :: "int \<Rightarrow> int" where
  "to_milliseconds d = (if 0 \<le> d then d div 1000000 else - (- d div 1000000))"

definition wait_milliseconds :: "('k, 'x, 'm) os_scheme \<Rightarrow> timer \<Rightarrow> 'k \<Rightarrow> int \<times> 'k" where
  "wait_milliseconds os tm k =
     (if is_set tm
      then let (now, k) = sys_now os k;
               timeout = (last_point_expired tm + timer_period tm) - now;
               milliseconds = sint (word_of_int (to_milliseconds timeout) :: 32 word)
           in (if milliseconds < 0 then 0 else milliseconds, k)
      else (- 1, k))"

text \<open>The events that came: their ids, and whether the pipe woke the call.\<close>

fun read_events ::
  "('k, 'x, 'm) os_scheme \<Rightarrow> int \<Rightarrow> u64 list \<Rightarrow> u64 list \<times> bool \<Rightarrow> ('k, u64 list \<times> bool) call" where
  "read_events os fd_read [] acc k = (Inr acc, k)"
| "read_events os fd_read (event_id # events) (set_ids, on_demand) k =
     (let set_ids = List.insert event_id set_ids
      in if event_id = - 1
         then let (res, k) = sys_read_byte os fd_read k
              in if res = - 1 then (Inl (throw_errno os ''read'' k), k)
                 else read_events os fd_read events (set_ids, on_demand \<or> res > 0) k
         else read_events os fd_read events (set_ids, on_demand) k)"

abbreviation eintr :: int where
  "eintr \<equiv> 4"

text \<open>\<open>epoll_wait\<close> answers the number of events, \<open>-1\<close> for an error, and stores them in the
  vector, whose front is undefined when it is empty.\<close>

definition poll_wait ::
  "('k, 'x, 'm) os_scheme \<Rightarrow> timer \<Rightarrow> ('k poll_state, u64 list \<times> bool) call" where
  "poll_wait os tm s =
     (let (p, k) = s;
          (milliseconds, k) = wait_milliseconds os tm k
      in if m_arr_event p = 0 then (Inl Undefined, (p, k))
         else let ((count, events), k) = sys_epoll_wait os (m_fd p) (m_arr_event p) milliseconds k
              in if count = - 1 \<and> sys_errno os k \<noteq> eintr
                 then (Inl (throw_errno os ''epoll_wait'' k), (p, k))
                 else let count = (if count = - 1 then 0 else nat count)
                      in if count > m_arr_event p \<or> count > length events then (Inl Undefined, (p, k))
                         else let (r, k) = read_events os (m_fd_pipe_read p) (take count events) ([], False) k
                              in (r, (p, k)))"

definition poll_wake :: "('k, 'x, 'm) os_scheme \<Rightarrow> ('k poll_state, unit) call" where
  "poll_wake os s =
     (let (p, k) = s; (res, k) = sys_write_byte os (m_fd_pipe_write p) k
      in if res = - 1 then (Inl (throw_errno os ''write'' k), (p, k)) else (Inr (), (p, k)))"

definition poll_reset :: "u64 \<Rightarrow> ('k poll_state, unit) call" where
  "poll_reset reset_id s = (Inr (), s)"

section \<open>Facts\<close>

lemma set_read_events:
  "read_events os fd events acc k = (Inr (ids, dem), k') \<Longrightarrow> set ids = set events \<union> set (fst acc)"
  by (induction os fd events acc k rule: read_events.induct)
     (auto simp: Let_def split: prod.splits if_splits)

lemma distinct_read_events:
  "read_events os fd events acc k = (Inr (ids, dem), k') \<Longrightarrow> distinct (fst acc) \<Longrightarrow> distinct ids"
  by (induction os fd events acc k rule: read_events.induct)
     (auto simp: Let_def split: prod.splits if_splits)

text \<open>A wait is never longer than the time until the timer expires, nor shorter by more than a
  millisecond.\<close>

lemma wait_milliseconds_bounds:
  assumes "is_set tm" "sys_now os k = (now, k')"
    and "last_point_expired tm + timer_period tm - now < 2 ^ 31 * 1000000"
    and "- (2 ^ 31) * 1000000 < last_point_expired tm + timer_period tm - now"
  shows "let left = last_point_expired tm + timer_period tm - now; ms = fst (wait_milliseconds os tm k)
    in 0 \<le> ms \<and> ms * 1000000 \<le> max 0 left \<and> left < (ms + 1) * 1000000"
proof -
  define left where "left = last_point_expired tm + timer_period tm - now"
  have range: "- (2 ^ 31) \<le> to_milliseconds left" "to_milliseconds left < 2 ^ 31"
    using assms(3,4) by (auto simp: left_def to_milliseconds_def)
  then have "sint (word_of_int (to_milliseconds left) :: 32 word) = to_milliseconds left"
    by (simp add: sint_sbintrunc' signed_take_bit_int_eq_self)
  then have "fst (wait_milliseconds os tm k) = max 0 (to_milliseconds left)"
    using assms(1,2) by (simp add: wait_milliseconds_def left_def max_def)
  then show ?thesis
    by (auto simp: Let_def left_def [symmetric] to_milliseconds_def)
qed

end
