(* ===== verification/Slot_Table.thy ===== *)
theory Slot_Table
  imports Ring_Queue
begin

text \<open>
  The tables of the socket library: \<open>std::list<beltpp::queue<...>>\<close>, used for the channels
  of a socket (\<open>m_lst_channels\<close>, \<open>src/libsocket/socket.cpp\<close>) and for the slots of the
  event handler (\<open>m_ids\<close>, \<open>src/libsocket/event_impl.hpp\<close>) in the same way. A queue of
  the list is never filled beyond its capacity, so its elements never move; a full one gets a
  successor of twice its size whose indices go on where its own end. Entries are marked closed
  and taken out when they are the first of their queue.
\<close>

section \<open>The operations\<close>

type_synonym 'a slots = "'a queue list"

text \<open>A last queue that has room, and the index the next entry will have.\<close>

definition table_grow :: "'a \<Rightarrow> 'a slots \<Rightarrow> ('a slots \<times> usize) result" where
  "table_grow dflt tbl =
     (if queue_full (last tbl)
      then case queue_make dflt (queue_size (last tbl) * 2) (end_index (last tbl)) 0 of
             Inl e \<Rightarrow> Inl e
           | Inr q \<Rightarrow> Inr (tbl @ [q], end_index q)
      else Inr (tbl, end_index (last tbl)))"

definition table_first :: "'a \<Rightarrow> usize \<Rightarrow> 'a slots \<Rightarrow> 'a slots result" where
  "table_first dflt capacity tbl =
     (if tbl = []
      then case queue_make dflt capacity 0 0 of Inl e \<Rightarrow> Inl e | Inr q \<Rightarrow> Inr [q]
      else Inr tbl)"

definition table_room :: "'a \<Rightarrow> usize \<Rightarrow> 'a slots \<Rightarrow> ('a slots \<times> usize) result" where
  "table_room dflt capacity tbl =
     (case table_first dflt capacity tbl of
        Inl e \<Rightarrow> Inl e
      | Inr tbl' \<Rightarrow> table_grow dflt tbl')"

definition table_push :: "'a \<Rightarrow> 'a \<Rightarrow> 'a slots \<Rightarrow> 'a slots result" where
  "table_push dflt x tbl =
     (case queue_push dflt x (last tbl) of
        Inl e \<Rightarrow> Inl e
      | Inr q \<Rightarrow> Inr (butlast tbl @ [q]))"

text \<open>The position of the first queue for which an index is valid.\<close>

fun table_find :: "'a slots \<Rightarrow> usize \<Rightarrow> nat option" where
  "table_find [] i = None"
| "table_find (q # qs) i =
     (if valid_index q i then Some 0 else map_option Suc (table_find qs i))"

definition table_at :: "'a slots \<Rightarrow> usize \<Rightarrow> 'a option result" where
  "table_at tbl i =
     (case table_find tbl i of
        None \<Rightarrow> Inr None
      | Some n \<Rightarrow> (case queue_at (tbl ! n) i of Inl e \<Rightarrow> Inl e | Inr x \<Rightarrow> Inr (Some x)))"

definition table_assign :: "nat \<Rightarrow> usize \<Rightarrow> 'a \<Rightarrow> 'a slots \<Rightarrow> 'a slots result" where
  "table_assign n i x tbl =
     (case queue_assign (tbl ! n) i x of Inl e \<Rightarrow> Inl e | Inr q \<Rightarrow> Inr (tbl[n := q]))"

function pop_closed :: "('a \<Rightarrow> bool) \<Rightarrow> 'a queue \<Rightarrow> 'a queue result" where
  "pop_closed closed q =
     (if queue_empty q then Inr q
      else case queue_front q of
             Inl e \<Rightarrow> Inl e
           | Inr x \<Rightarrow>
               if \<not> closed x then Inr q
               else (case queue_pop q of Inl e \<Rightarrow> Inl e | Inr q' \<Rightarrow> pop_closed closed q'))"
  by pat_completeness auto

termination
  by (relation "measure (\<lambda>(closed, q). unat (m_i_size q))")
     (auto simp: queue_pop_def queue_empty_def Let_def unat_minus_one unat_gt_0 split: if_splits)

declare pop_closed.simps [simp del]

text \<open>What follows closing an entry of the \<open>n\<close>th queue: taking out its closed first entries
  (unless the slot is kept), then the queue itself if nothing is left and it is not the last.\<close>

definition table_release :: "('a \<Rightarrow> bool) \<Rightarrow> bool \<Rightarrow> nat \<Rightarrow> 'a slots \<Rightarrow> 'a slots result" where
  "table_release closed keep n tbl =
     (case (if keep then Inr (tbl ! n) else pop_closed closed (tbl ! n)) of
        Inl e \<Rightarrow> Inl e
      | Inr q \<Rightarrow>
          if queue_empty q \<and> Suc n \<noteq> length tbl
          then Inr (take n tbl @ drop (Suc n) tbl)
          else Inr (tbl[n := q]))"

section \<open>Invariant and view\<close>

abbreviation q_begin :: "'a queue \<Rightarrow> nat" where
  "q_begin q \<equiv> unat (begin_index q)"

text \<open>The entries of one queue and of the table by their index.\<close>

definition queue_view :: "'a queue \<Rightarrow> nat \<Rightarrow> 'a option" where
  "queue_view q i =
     (if q_begin q \<le> i \<and> i < queue_used q then Some (queue_list q ! (i - q_begin q)) else None)"

fun table_view :: "'a slots \<Rightarrow> nat \<Rightarrow> 'a option" where
  "table_view [] i = None"
| "table_view (q # qs) i = (case queue_view q i of None \<Rightarrow> table_view qs i | Some x \<Rightarrow> Some x)"

text \<open>The queues come in the order of their indices; the indices stay below \<open>2 ^ 62\<close>.\<close>

abbreviation id_limit :: nat where
  "id_limit \<equiv> 2 ^ 62"

fun chained :: "nat \<Rightarrow> 'a slots \<Rightarrow> bool" where
  "chained lo [] = (lo \<le> id_limit)"
| "chained lo (q # qs) =
     (queue_inv q \<and> m_vec_queue q \<noteq> [] \<and> lo \<le> q_begin q \<and> chained (queue_used q) qs)"

definition next_id :: "'a slots \<Rightarrow> nat" where
  "next_id tbl = (if tbl = [] then 0 else queue_used (last tbl))"

definition table_ok :: "'a slots \<Rightarrow> bool" where
  "table_ok tbl \<longleftrightarrow> chained 0 tbl"

lemma chained_mono: "chained lo tbl \<Longrightarrow> lo' \<le> lo \<Longrightarrow> chained lo' tbl"
  by (cases tbl) auto

lemma chained_limit: "chained lo tbl \<Longrightarrow> lo \<le> id_limit"
proof (induction lo tbl rule: chained.induct)
  case (2 lo q qs)
  then show ?case by (auto simp: queue_used_def)
qed simp

lemma chained_append:
  "chained lo (xs @ ys) \<longleftrightarrow> chained lo xs \<and> chained (if xs = [] then lo else queue_used (last xs)) ys"
  by (induction lo xs rule: chained.induct) (auto dest: chained_limit)

lemma view_bounds: "queue_view q i = Some x \<Longrightarrow> q_begin q \<le> i \<and> i < queue_used q"
  by (simp add: queue_view_def split: if_splits)

lemma table_view_ge: "chained lo tbl \<Longrightarrow> table_view tbl i = Some x \<Longrightarrow> lo \<le> i"
proof (induction lo tbl rule: chained.induct)
  case (2 lo q qs)
  then show ?case
    using view_bounds [of q i] by (auto simp: queue_used_def split: option.splits)
qed simp

lemma table_view_append:
  "table_view (xs @ ys) i = (case table_view xs i of None \<Rightarrow> table_view ys i | Some x \<Rightarrow> Some x)"
  by (induction xs) (auto split: option.splits)

lemma chained_used: "chained lo (xs @ [q]) \<Longrightarrow> table_view xs i = Some x \<Longrightarrow> i < q_begin q"
proof (induction lo xs rule: chained.induct)
  case (2 lo p ps)
  have "queue_used p \<le> q_begin q" if "chained (queue_used p) (ps @ [q])"
    using that
  proof (induction "queue_used p" ps arbitrary: p rule: chained.induct)
    case (2 r rs)
    then show ?case by (force simp: queue_used_def)
  qed simp
  then show ?case
    using 2 view_bounds [of p i] by (auto split: option.splits)
qed simp

lemma table_view_less:
  assumes "table_ok tbl" "table_view tbl i = Some x"
  shows "i < next_id tbl"
proof -
  have "tbl \<noteq> []" using assms by auto
  then obtain qs q where tbl: "tbl = qs @ [q]" by (metis append_butlast_last_id)
  then show ?thesis
    using assms chained_used [of 0 qs q i x] view_bounds [of q i x]
    by (auto simp: table_ok_def table_view_append next_id_def queue_used_def split: option.splits)
qed


section \<open>Finding an entry\<close>

definition queue_near :: "'a queue \<Rightarrow> bool" where
  "queue_near q \<longleftrightarrow> queue_inv q \<and> m_vec_queue q \<noteq> [] \<and> queue_used q \<le> id_limit"

lemma chained_near: "chained lo tbl \<Longrightarrow> q \<in> set tbl \<Longrightarrow> queue_near q"
  by (induction lo tbl rule: chained.induct) (auto simp: queue_near_def dest: chained_limit)

lemma unat_end_index: "queue_used q \<le> id_limit \<Longrightarrow> unat (end_index q) = queue_used q"
  by (simp add: end_index_begin queue_used_def unat_add_size)

lemma valid_index_range:
  assumes "queue_used q \<le> id_limit"
  shows "valid_index q i \<longleftrightarrow> q_begin q \<le> unat i \<and> unat i < queue_used q"
proof -
  have "unat (i - begin_index q) =
      (if q_begin q \<le> unat i then unat i - q_begin q else unat i + 2 ^ 64 - q_begin q)"
    using unat_sub_if_size [of i "begin_index q"] by (simp add: word_size word_le_nat_alt)
  then show ?thesis
    using assms by (auto simp: valid_index_window word_less_nat_alt queue_used_def)
qed

lemma index_offset: "q_begin q \<le> unat i \<Longrightarrow> i = begin_index q + of_nat (unat i - q_begin q)"
  by simp

lemma queue_at_view:
  assumes near: "queue_near q" and i: "valid_index q i"
  shows "queue_view q (unat i) = Some (queue_list q ! (unat i - q_begin q)) \<and>
    queue_at q i = Inr (queue_list q ! (unat i - q_begin q))"
proof -
  have r: "q_begin q \<le> unat i" "unat i < queue_used q"
    using valid_index_range [of q i] near i by (auto simp: queue_near_def)
  then have "queue_at q (begin_index q + of_nat (unat i - q_begin q)) =
      Inr (queue_list q ! (unat i - q_begin q))"
    using near by (intro queue_at_begin) (auto simp: queue_near_def queue_used_def)
  with r show ?thesis
    using index_offset [OF r(1)] by (simp add: queue_view_def)
qed

lemma table_find_view:
  assumes "chained lo tbl"
  shows "case table_find tbl i of
      None \<Rightarrow> table_view tbl (unat i) = None
    | Some n \<Rightarrow> n < length tbl \<and> valid_index (tbl ! n) i \<and>
        table_view tbl (unat i) = queue_view (tbl ! n) (unat i)"
  using assms
proof (induction lo tbl rule: chained.induct)
  case (2 lo q qs)
  have near: "queue_near q" using chained_near [OF 2(2)] by simp
  show ?case
  proof (cases "valid_index q i")
    case True
    then show ?thesis using queue_at_view [OF near True] by (simp split: option.splits)
  next
    case False
    then have "queue_view q (unat i) = None"
      using valid_index_range [of q i] near by (auto simp: queue_view_def queue_near_def)
    then show ?thesis using 2 False by (auto split: option.splits)
  qed
qed simp

lemma table_at_view [result_simps]:
  assumes "table_ok tbl"
  shows "table_at tbl i = Inr (table_view tbl (unat i))"
proof (cases "table_find tbl i")
  case None
  then show ?thesis
    using table_find_view [of 0 tbl i] assms by (simp add: table_at_def table_ok_def)
next
  case (Some n)
  then have n: "n < length tbl" "valid_index (tbl ! n) i"
      "table_view tbl (unat i) = queue_view (tbl ! n) (unat i)"
    using table_find_view [of 0 tbl i] assms by (auto simp: table_ok_def)
  then have "queue_near (tbl ! n)"
    using assms chained_near [of 0 tbl "tbl ! n"] by (simp add: table_ok_def)
  with n Some show ?thesis
    using queue_at_view [of "tbl ! n" i] by (simp add: table_at_def)
qed

section \<open>A new entry\<close>

lemma queue_make_at:
  assumes "m < 64" "e \<noteq> 0 \<or> True"
  shows "\<exists>q. queue_make dflt (2 ^ m) e 0 = Inr q \<and> queue_inv q \<and> m_i_size q = 0 \<and>
    length (m_vec_queue q) = 2 ^ m \<and> begin_index q = e"
  using queue_make_spec [of m 0 e dflt] assms by auto

text \<open>A table that is ready for a push: it has a last queue with room.\<close>

definition has_room :: "'a slots \<Rightarrow> bool" where
  "has_room tbl \<longleftrightarrow> tbl \<noteq> [] \<and> \<not> queue_full (last tbl)"

lemma queue_view_empty: "m_i_size q = 0 \<Longrightarrow> queue_view q i = None"
  by (simp add: queue_view_def queue_used_def)

lemma table_grow_spec:
  assumes ok: "table_ok tbl" and ne: "tbl \<noteq> []" and few: "next_id tbl < id_limit"
  shows "\<exists>tbl'. table_grow dflt tbl = Inr (tbl', of_nat (next_id tbl)) \<and> table_ok tbl' \<and>
    has_room tbl' \<and> table_view tbl' = table_view tbl \<and> next_id tbl' = next_id tbl"
proof -
  let ?q = "last tbl"
  have q: "queue_near ?q" "?q \<in> set tbl"
    using ok ne chained_near [of 0 tbl ?q] by (auto simp: table_ok_def)
  then have inv: "queue_inv ?q" "m_vec_queue ?q \<noteq> []" and used: "queue_used ?q < id_limit"
    using few ne by (auto simp: queue_near_def next_id_def)
  have u: "unat (end_index ?q) = next_id tbl"
    using unat_end_index [of ?q] used ne by (simp add: next_id_def)
  have "of_nat (unat (end_index ?q)) = end_index ?q" by simp
  with u have e: "end_index ?q = of_nat (next_id tbl)" "unat (end_index ?q) = next_id tbl"
    by simp_all
  show ?thesis
  proof (cases "queue_full ?q")
    case False
    then show ?thesis using e ok ne by (simp add: table_grow_def has_room_def)
  next
    case True
    obtain k where k: "k < 64" "length (m_vec_queue ?q) = 2 ^ k" "vec_size ?q = 2 ^ k"
      using inv by (cases rule: queue_inv_cases) auto
    then have size: "m_i_size ?q = 2 ^ k" using True by (simp add: queue_full_def)
    then have "2 ^ k \<le> queue_used ?q" using k(1) by (simp add: queue_used_def)
    then have "(2 :: nat) ^ k < 2 ^ 62" using used by simp
    then have k62: "k < 62" by (rule power_less_imp_less_exp [rotated]) simp
    have double: "queue_size ?q * 2 = 2 ^ Suc k" using size by (simp add: queue_size_def)
    obtain p where p: "queue_make dflt (2 ^ Suc k) (end_index ?q) 0 = Inr p" "queue_inv p"
        "m_i_size p = 0" "length (m_vec_queue p) = 2 ^ Suc k" "begin_index p = end_index ?q"
      using queue_make_at [of "Suc k" "end_index ?q" dflt] k62 by auto
    have used_p: "queue_used p = next_id tbl" "end_index p = end_index ?q"
      using p(3,5) e by (simp_all add: queue_used_def end_index_begin)
    have "m_vec_queue p \<noteq> []" using p(4) by auto
    then have "table_ok (tbl @ [p])"
      using ok ne p used_p few e(2) by (simp add: table_ok_def chained_append next_id_def)
    moreover have "vec_size p = 2 ^ Suc k"
      using p(4) by (simp add: vec_size_def del: power_Suc)
    then have "unat (vec_size p) = 2 ^ Suc k"
      using k62 unat_pow2 [of "Suc k"] by (simp del: power_Suc)
    then have "\<not> queue_full p"
      using p(3) by (auto simp: queue_full_def)
    moreover have "table_view (tbl @ [p]) = table_view tbl"
      using p(3) by (intro ext) (simp add: table_view_append queue_view_empty split: option.splits)
    ultimately show ?thesis
      using True double p(1,3) used_p e
      by (simp add: table_grow_def has_room_def next_id_def del: power_Suc)
  qed
qed


lemma table_first_spec:
  assumes ok: "table_ok tbl" and cap: "capacity = 2 ^ k" "k < 62"
  shows "\<exists>tbl'. table_first dflt capacity tbl = Inr tbl' \<and> table_ok tbl' \<and> tbl' \<noteq> [] \<and>
    table_view tbl' = table_view tbl \<and> next_id tbl' = next_id tbl"
proof (cases "tbl = []")
  case False
  with ok show ?thesis by (simp add: table_first_def)
next
  case True
  obtain q where q: "queue_make dflt (2 ^ k) 0 0 = Inr q" "queue_inv q" "m_i_size q = 0"
      "length (m_vec_queue q) = 2 ^ k" "begin_index q = 0"
    using queue_make_at [of k 0 dflt] cap by auto
  have "queue_used q = 0" using q by (simp add: queue_used_def)
  moreover have "m_vec_queue q \<noteq> []" using q(4) by auto
  moreover have "table_view [q] = table_view tbl"
    using q(3) by (intro ext) (simp add: True queue_view_empty)
  ultimately show ?thesis
    using True q cap by (simp add: table_first_def table_ok_def next_id_def)
qed

lemma table_room_spec:
  assumes ok: "table_ok tbl" and few: "next_id tbl < id_limit"
    and cap: "capacity = 2 ^ k" "k < 62"
  shows "\<exists>tbl'. table_room dflt capacity tbl = Inr (tbl', of_nat (next_id tbl)) \<and> table_ok tbl' \<and>
    has_room tbl' \<and> table_view tbl' = table_view tbl \<and> next_id tbl' = next_id tbl"
proof -
  obtain t where t: "table_first dflt capacity tbl = Inr t" "table_ok t" "t \<noteq> []"
      "table_view t = table_view tbl" "next_id t = next_id tbl"
    using table_first_spec [OF ok cap, of dflt] by blast
  then show ?thesis
    using table_grow_spec [of t dflt] few by (auto simp: table_room_def)
qed

lemma queue_push_view:
  assumes near: "queue_near q" and few: "queue_used q < id_limit"
  shows "\<exists>q'. queue_push dflt x q = Inr q' \<and> queue_inv q' \<and> m_vec_queue q' \<noteq> [] \<and>
    q_begin q' = q_begin q \<and> queue_used q' = Suc (queue_used q) \<and>
    queue_list q' = queue_list q @ [x] \<and> queue_view q' = (queue_view q)(queue_used q \<mapsto> x)"
proof -
  have inv: "queue_inv q" using near by (simp add: queue_near_def)
  have "push_ok q"
    using few inv by (intro queue_ok_push_ok) (auto simp: queue_ok_def)
  from queue_push_spec [OF inv this, of dflt x] obtain q' where q':
      "queue_push dflt x q = Inr q'" "queue_inv q'" "queue_list q' = queue_list q @ [x]"
      "begin_index q' = begin_index q" "m_i_size q' = m_i_size q + 1" by blast
  have size: "unat (m_i_size q') = Suc (unat (m_i_size q))"
    using q'(3) by (metis length_append_singleton length_queue_list)
  then have used: "queue_used q' = Suc (queue_used q)"
    by (simp add: queue_used_def q'(4))
  have "queue_view q' = (queue_view q)(queue_used q \<mapsto> x)"
    using used by (intro ext)
      (auto simp: queue_view_def q'(3,4) queue_used_def nth_append)
  moreover have "m_vec_queue q' \<noteq> []"
    using q'(2) size by (intro size_pos_vector) auto
  ultimately show ?thesis using q' used by auto
qed

lemma table_push_spec:
  assumes ok: "table_ok tbl" and room: "has_room tbl" and few: "next_id tbl < id_limit"
  shows "\<exists>q. table_push dflt x tbl = Inr (butlast tbl @ [q]) \<and> table_ok (butlast tbl @ [q]) \<and>
    queue_list q = queue_list (last tbl) @ [x] \<and>
    table_view (butlast tbl @ [q]) = (table_view tbl)(next_id tbl \<mapsto> x) \<and>
    next_id (butlast tbl @ [q]) = Suc (next_id tbl)"
proof -
  obtain qs p where tbl: "tbl = qs @ [p]"
    using room by (metis has_room_def append_butlast_last_id)
  have near: "queue_near p"
    using ok chained_near [of 0 tbl p] by (simp add: table_ok_def tbl)
  have few': "queue_used p < id_limit" using few by (simp add: next_id_def tbl)
  obtain q where q: "queue_push dflt x p = Inr q" "queue_inv q" "m_vec_queue q \<noteq> []"
      "q_begin q = q_begin p" "queue_used q = Suc (queue_used p)"
      "queue_list q = queue_list p @ [x]" "queue_view q = (queue_view p)(queue_used p \<mapsto> x)"
    using queue_push_view [OF near few', of dflt x] by blast
  have "table_ok (qs @ [q])"
    using ok q few' by (auto simp: table_ok_def tbl chained_append)
  moreover have "table_view (qs @ [q]) = (table_view tbl)(next_id tbl \<mapsto> x)"
  proof
    fix i
    have "table_view qs (queue_used p) = None"
      using chained_used [of 0 qs p "queue_used p"] ok
      by (fastforce simp: table_ok_def tbl queue_used_def)
    then show "table_view (qs @ [q]) i = ((table_view tbl)(next_id tbl \<mapsto> x)) i"
      by (auto simp: tbl next_id_def table_view_append q(7) split: option.splits)
  qed
  ultimately show ?thesis
    using q by (simp add: table_push_def tbl next_id_def)
qed


section \<open>Changing and closing an entry\<close>

lemma split_at: "n < length tbl \<Longrightarrow> tbl = take n tbl @ tbl ! n # drop (Suc n) tbl"
  by (rule id_take_nth_drop)

lemma table_view_mid:
  assumes "table_ok (xs @ q # ys)"
  shows "table_view (xs @ q # ys) i =
    (if q_begin q \<le> i \<and> i < queue_used q then queue_view q i else table_view (xs @ ys) i)"
proof -
  have "table_view xs i = None" if "q_begin q \<le> i"
    using assms that chained_used [of 0 xs q i]
    by (force simp: table_ok_def chained_append dest: chained_limit)
  then show ?thesis
    by (auto simp: table_view_append queue_view_def split: option.splits)
qed

text \<open>Exchanging one queue for another whose window ends at the same index.\<close>

lemma exchange_queue:
  assumes ok: "table_ok (xs @ q # ys)" and q': "queue_inv q'" "m_vec_queue q' \<noteq> []"
    and window: "q_begin q \<le> q_begin q'" "queue_used q' = queue_used q"
  shows "table_ok (xs @ q' # ys)" "next_id (xs @ q' # ys) = next_id (xs @ q # ys)"
    "table_view (xs @ q' # ys) i =
      (if q_begin q \<le> i \<and> i < queue_used q then queue_view q' i else table_view (xs @ q # ys) i)"
proof -
  show ok': "table_ok (xs @ q' # ys)"
    using assms by (auto simp: table_ok_def chained_append)
  show "next_id (xs @ q' # ys) = next_id (xs @ q # ys)"
    using window by (auto simp: next_id_def)
  show "table_view (xs @ q' # ys) i =
      (if q_begin q \<le> i \<and> i < queue_used q then queue_view q' i else table_view (xs @ q # ys) i)"
  proof (cases "q_begin q \<le> i \<and> i < queue_used q")
    case True
    have "table_view xs i = None"
      using ok True chained_used [of 0 xs q i]
      by (force simp: table_ok_def chained_append dest: chained_limit)
    moreover have "table_view ys i = None"
      using ok True table_view_ge [of "queue_used q" ys i]
      by (cases "table_view ys i") (auto simp: table_ok_def chained_append)
    ultimately show ?thesis
      using True by (simp add: table_view_append split: option.splits)
  next
    case False
    then show ?thesis
      using window table_view_mid [OF ok] table_view_mid [OF ok'] by auto
  qed
qed

lemma table_assign_spec:
  assumes ok: "table_ok tbl" and found: "table_find tbl i = Some n"
  shows "\<exists>tbl'. table_assign n i x tbl = Inr tbl' \<and> table_ok tbl' \<and> length tbl' = length tbl \<and>
    table_view tbl' = (table_view tbl)(unat i \<mapsto> x) \<and> next_id tbl' = next_id tbl"
proof -
  define q xs ys where "q = tbl ! n" and "xs = take n tbl" and "ys = drop (Suc n) tbl"
  have n: "n < length tbl" "valid_index q i"
    using table_find_view [of 0 tbl i] ok found by (auto simp: table_ok_def q_def)
  then have tbl: "tbl = xs @ q # ys" "length xs = n"
    using split_at [of n tbl] by (auto simp: q_def xs_def ys_def)
  have near: "queue_near q"
    using ok n chained_near [of 0 tbl q] by (simp add: table_ok_def q_def)
  let ?j = "unat i - q_begin q"
  have r: "q_begin q \<le> unat i" "unat i < queue_used q" "?j < unat (m_i_size q)"
    using valid_index_range [of q i] near n(2) by (auto simp: queue_near_def queue_used_def)
  let ?q' = "q\<lparr>m_vec_queue := (m_vec_queue q)[slot q ?j := x]\<rparr>"
  have assign: "queue_assign q i x = Inr ?q'"
    using queue_assign_begin [of q ?j x] near r index_offset [OF r(1)]
    by (simp add: queue_near_def)
  have q': "queue_inv ?q'" "m_vec_queue ?q' \<noteq> []" "begin_index ?q' = begin_index q"
      "queue_used ?q' = queue_used q" "queue_list ?q' = (queue_list q)[?j := x]"
    using near r queue_list_assign [of q ?j x] by (simp_all add: queue_near_def queue_used_def)
  have view: "queue_view ?q' k = (if k = unat i then Some x else queue_view q k)" for k
    using q' r by (auto simp: queue_view_def nth_list_update)
  note ok_mid = ok [unfolded tbl(1)]
  note ex = exchange_queue [OF ok_mid q'(1,2)]
  have window: "q_begin q \<le> q_begin ?q'" using q'(3) by simp
  have upd: "tbl[n := ?q'] = xs @ ?q' # ys" using tbl by (simp add: list_update_append)
  have "table_view (xs @ ?q' # ys) = (table_view tbl)(unat i \<mapsto> x)"
  proof
    fix k
    have "table_view tbl k = queue_view q k" if "q_begin q \<le> k \<and> k < queue_used q"
      using table_view_mid [OF ok_mid, of k] that by (simp add: tbl(1))
    then show "table_view (xs @ ?q' # ys) k = ((table_view tbl)(unat i \<mapsto> x)) k"
      using ex(3) [OF window q'(4), of k] view r by (auto simp: tbl(1))
  qed
  then show ?thesis
    using assign ex(1,2) [OF window q'(4)] upd tbl by (auto simp: table_assign_def nth_append)
qed

lemma pop_closed_spec:
  assumes "queue_near q"
  shows "\<exists>q' k. pop_closed closed q = Inr q' \<and> queue_near q' \<and> k \<le> length (queue_list q) \<and>
    queue_list q' = drop k (queue_list q) \<and> q_begin q' = q_begin q + k \<and>
    queue_used q' = queue_used q \<and> (\<forall>j<k. closed (queue_list q ! j)) \<and>
    (queue_list q' = [] \<or> \<not> closed (hd (queue_list q')))"
  using assms
proof (induction closed q rule: pop_closed.induct)
  case (1 closed q)
  have inv: "queue_inv q" using 1 by (simp add: queue_near_def)
  show ?case
  proof (cases "queue_empty q")
    case True
    then show ?thesis
      using 1 by (intro exI [of _ q] exI [of _ 0]) (auto simp: pop_closed.simps queue_empty_def)
  next
    case False
    then have ne: "m_i_size q \<noteq> 0" by (auto simp: queue_empty_def)
    note front = queue_front_spec [OF inv ne]
    show ?thesis
    proof (cases "closed (hd (queue_list q))")
      case False
      then show ?thesis
        using 1(2) front ne
        by (intro exI [of _ q] exI [of _ 0]) (auto simp: pop_closed.simps)
    next
      case True
      obtain p where p: "queue_pop q = Inr p" "queue_inv p" "queue_list p = tl (queue_list q)"
          "begin_index p = begin_index q + 1" "m_i_size p = m_i_size q - 1"
        using queue_pop_spec [OF inv ne] by blast
      have size: "unat (m_i_size p) = unat (m_i_size q) - 1" "0 < unat (m_i_size q)"
        using p(5) ne by (simp_all add: unat_minus_one unat_gt_0)
      have used: "q_begin p = q_begin q + 1" "queue_used p = queue_used q"
        using p(4) size 1(2) by (simp_all add: queue_near_def queue_used_def unat_add_size)
      have "m_vec_queue p \<noteq> []"
        using p(1) 1(2) by (auto simp: queue_pop_def Let_def queue_near_def split: if_splits)
      then have near: "queue_near p" using p(2) used 1(2) by (simp add: queue_near_def)
      have "\<not> \<not> closed (hd (queue_list q))" using True by simp
      from "1.IH" [OF False front this p(1) near] obtain q' k where ih:
          "pop_closed closed p = Inr q'" "queue_near q'" "k \<le> length (queue_list p)"
          "queue_list q' = drop k (queue_list p)" "q_begin q' = q_begin p + k"
          "queue_used q' = queue_used p" "\<forall>j<k. closed (queue_list p ! j)"
          "queue_list q' = [] \<or> \<not> closed (hd (queue_list q'))"
        by blast
      have list: "queue_list q = hd (queue_list q) # queue_list p"
        using p(3) ne by simp
      have "pop_closed closed q = pop_closed closed p"
        using False True front p(1) by (subst pop_closed.simps) simp
      moreover have "closed (queue_list q ! j)" if "j < Suc k" for j
        using that ih(7) True by (subst list) (auto simp: nth_Cons' )
      ultimately show ?thesis
        using ih used list
        by (intro exI [of _ q'] exI [of _ "Suc k"]) (metis add_Suc_right add.commute drop_Suc length_Cons list.sel(3) plus_1_eq_Suc Suc_le_mono)
    qed
  qed
qed


text \<open>The entries taken out are closed ones, and whatever is left of the queue begins with an
  open one.\<close>

lemma table_release_spec:
  assumes ok: "table_ok tbl" and n: "n < length tbl"
  shows "\<exists>tbl'. table_release closed keep n tbl = Inr tbl' \<and> table_ok tbl' \<and>
    next_id tbl' = next_id tbl \<and> tbl' \<noteq> [] \<and>
    (\<forall>i. table_view tbl' i = table_view tbl i \<or>
       table_view tbl' i = None \<and> (\<exists>x. table_view tbl i = Some x \<and> closed x \<and> \<not> keep))"
proof -
  define q xs ys where "q = tbl ! n" and "xs = take n tbl" and "ys = drop (Suc n) tbl"
  then have tbl: "tbl = xs @ q # ys" "length xs = n"
    using split_at [of n tbl] n by auto
  have near: "queue_near q"
    using ok n chained_near [of 0 tbl q] by (simp add: table_ok_def q_def)
  obtain q' k where q': "(if keep then Inr q else pop_closed closed q) = Inr q'" "queue_near q'"
      "k \<le> length (queue_list q)" "queue_list q' = drop k (queue_list q)"
      "q_begin q' = q_begin q + k" "queue_used q' = queue_used q"
      "\<forall>j<k. closed (queue_list q ! j) \<and> \<not> keep"
  proof (cases keep)
    case True
    with near show ?thesis by (intro that [of q 0]) auto
  next
    case False
    with pop_closed_spec [OF near, of closed] show ?thesis by (auto intro: that)
  qed
  have window: "q_begin q \<le> q_begin q'" using q'(5) by simp
  have q'_ok: "queue_inv q'" "m_vec_queue q' \<noteq> []" using q'(2) by (auto simp: queue_near_def)
  note ex = exchange_queue [OF ok [unfolded tbl(1)] q'_ok window q'(6)]
  have closed_out: "table_view (xs @ q' # ys) i = table_view tbl i \<or>
      table_view (xs @ q' # ys) i = None \<and> (\<exists>x. table_view tbl i = Some x \<and> closed x \<and> \<not> keep)" for i
  proof (cases "q_begin q \<le> i \<and> i < queue_used q")
    case in_window: True
    have view: "table_view tbl i = Some (queue_list q ! (i - q_begin q))"
      using table_view_mid [OF ok [unfolded tbl(1)], of i] in_window by (simp add: tbl(1) queue_view_def)
    show ?thesis
    proof (cases "q_begin q' \<le> i")
      case True
      then have "queue_view q' i = Some (queue_list q ! (i - q_begin q))"
        using q' in_window by (simp add: queue_view_def)
      with view show ?thesis using ex(3) [of i] in_window by simp
    next
      case False
      then have "i - q_begin q < k" using q'(5) in_window by linarith
      then have "closed (queue_list q ! (i - q_begin q)) \<and> \<not> keep"
        using q'(7) by blast
      with view False show ?thesis using ex(3) [of i] in_window by (simp add: queue_view_def)
    qed
  next
    case False
    then show ?thesis using ex(3) [of i] by (auto simp: tbl(1))
  qed
  show ?thesis
  proof (cases "queue_empty q' \<and> Suc n \<noteq> length tbl")
    case False
    then have "table_release closed keep n tbl = Inr (xs @ q' # ys)"
      using q'(1) tbl by (auto simp: table_release_def nth_append list_update_append)
    then show ?thesis using ex(1,2) closed_out tbl(1) by simp
  next
    case True
    then have ys: "ys \<noteq> []" using tbl by auto
    have "table_release closed keep n tbl = Inr (xs @ ys)"
      using q'(1) tbl True by (auto simp: table_release_def nth_append)
    moreover have "table_ok (xs @ ys)"
      using ok ys tbl(1) chained_mono [of "queue_used q" ys]
      by (cases ys) (auto simp: table_ok_def chained_append queue_used_def)
    moreover have "next_id (xs @ ys) = next_id tbl"
      using ys by (simp add: tbl(1) next_id_def)
    moreover have "table_view (xs @ ys) = table_view (xs @ q' # ys)"
      using True by (intro ext)
        (simp add: table_view_append queue_view_empty queue_empty_def split: option.splits)
    ultimately show ?thesis using closed_out ys by auto
  qed
qed


section \<open>The open entries\<close>

definition table_live :: "('a \<Rightarrow> bool) \<Rightarrow> 'a slots \<Rightarrow> nat \<Rightarrow> 'a option" where
  "table_live closed tbl i =
     (case table_view tbl i of None \<Rightarrow> None | Some x \<Rightarrow> if closed x then None else Some x)"

lemma table_live_cong: "table_view tbl' = table_view tbl \<Longrightarrow> table_live closed tbl' = table_live closed tbl"
  by (simp add: table_live_def fun_eq_iff)

lemma table_live_upd:
  assumes "table_view tbl' = (table_view tbl)(i \<mapsto> x)"
  shows "table_live closed tbl' = (table_live closed tbl)(i := (if closed x then None else Some x))"
  by (simp add: table_live_def assms fun_eq_iff)

lemma table_live_dom: 
  assumes ok: "table_ok tbl"
  shows "dom (table_live closed tbl) \<subseteq> {..<next_id tbl}"
proof
  fix i assume "i \<in> dom (table_live closed tbl)"
  then obtain x where "table_view tbl i = Some x"
    by (auto simp: table_live_def split: option.splits)
  then show "i \<in> {..<next_id tbl}" using table_view_less [OF ok] by simp
qed

lemma table_live_finite: "table_ok tbl \<Longrightarrow> finite (dom (table_live closed tbl))"
  by (rule finite_subset [OF table_live_dom finite_lessThan])

lemma table_live_release:
  assumes "table_ok tbl" "n < length tbl" "table_release closed keep n tbl = Inr tbl'"
  shows "table_live closed tbl' = table_live closed tbl \<and> table_ok tbl' \<and> next_id tbl' = next_id tbl \<and>
    tbl' \<noteq> []"
proof -
  from table_release_spec [OF assms(1,2), of closed keep] assms(3)
  have r: "table_ok tbl'" "next_id tbl' = next_id tbl" "tbl' \<noteq> []"
      "table_view tbl' i = table_view tbl i \<or>
       table_view tbl' i = None \<and> (\<exists>x. table_view tbl i = Some x \<and> closed x)" for i
    by auto
  have "table_live closed tbl' i = table_live closed tbl i" for i
    using r(4) [of i] by (auto simp: table_live_def)
  with r show ?thesis by auto
qed

lemma table_live_fresh: "table_ok tbl \<Longrightarrow> table_live closed tbl (next_id tbl) = None"
  using table_live_dom [of tbl closed] by force

lemma table_find_live:
  assumes "table_ok tbl"
  shows "case table_find tbl i of
      None \<Rightarrow> table_view tbl (unat i) = None
    | Some n \<Rightarrow> n < length tbl \<and>
        (\<exists>x. table_view tbl (unat i) = Some x \<and> queue_at (tbl ! n) i = Inr x)"
proof (cases "table_find tbl i")
  case None
  then show ?thesis
    using table_find_view [of 0 tbl i] assms by (simp add: table_ok_def)
next
  case (Some n)
  then have n: "n < length tbl" "valid_index (tbl ! n) i"
      "table_view tbl (unat i) = queue_view (tbl ! n) (unat i)"
    using table_find_view [of 0 tbl i] assms by (auto simp: table_ok_def)
  then have "queue_near (tbl ! n)"
    using assms chained_near [of 0 tbl "tbl ! n"] by (simp add: table_ok_def)
  with n Some show ?thesis
    using queue_at_view [of "tbl ! n" i] by simp
qed

text \<open>Growing and pushing as one step.\<close>

lemma table_find_take: "table_find tbl i = Some n \<Longrightarrow> n < m \<Longrightarrow> table_find (take m tbl) i = Some n"
proof (induction tbl i arbitrary: n m rule: table_find.induct)
  case (2 q qs i)
  then show ?case by (cases m) (auto split: if_splits)
qed simp

text \<open>The windows of the queues do not overlap.\<close>

lemma table_find_unique:
  assumes ok: "table_ok tbl" and found: "table_find tbl i = Some n"
    and m: "m < length tbl" "valid_index (tbl ! m) i"
  shows "m = n"
proof (rule ccontr)
  assume other: "m \<noteq> n"
  have first: "\<not> valid_index (tbl ! j) i" if "j < n" for j
    using found that
  proof (induction tbl i arbitrary: n j rule: table_find.induct)
    case (2 q qs i)
    then show ?case by (cases j) (auto split: if_splits)
  qed simp
  then have "n < m" using other m(2) by (meson linorder_neqE_nat)
  have c: "chained 0 (take m tbl @ [tbl ! m])"
  proof -
    have "chained 0 ((take m tbl @ [tbl ! m]) @ drop (Suc m) tbl)"
      using ok m(1) by (simp add: table_ok_def flip: id_take_nth_drop)
    then show ?thesis by (simp only: chained_append)
  qed
  have find: "table_find (take m tbl) i = Some n" by (rule table_find_take [OF found \<open>n < m\<close>])
  have "chained 0 (take m tbl)" using c by (simp add: chained_append)
  from table_find_live [OF this [folded table_ok_def], of i] find
  obtain x where "table_view (take m tbl) (unat i) = Some x" by auto
  from chained_used [OF c this] have "unat i < q_begin (tbl ! m)" .
  moreover have "queue_near (tbl ! m)"
    using chained_near [of 0 tbl] ok m(1) by (simp add: table_ok_def)
  ultimately show False
    using valid_index_range [of "tbl ! m" i] m(2) by (simp add: queue_near_def)
qed

lemma table_grow_push:
  assumes "table_ok tbl" "tbl \<noteq> []" "next_id tbl < id_limit" "table_grow dflt tbl = Inr (tbl1, eid)"
  shows "unat eid = next_id tbl \<and> table_ok tbl1 \<and> tbl1 \<noteq> [] \<and> table_view tbl1 = table_view tbl \<and>
    next_id tbl1 = next_id tbl \<and>
    (\<exists>tbl2. table_push dflt x tbl1 = Inr tbl2 \<and> table_ok tbl2 \<and>
       table_view tbl2 = (table_view tbl)(next_id tbl \<mapsto> x) \<and> next_id tbl2 = Suc (next_id tbl))"
proof -
  from table_grow_spec [OF assms(1-3), of dflt] assms(4)
  have g: "eid = of_nat (next_id tbl)" "table_ok tbl1" "has_room tbl1" "table_view tbl1 = table_view tbl"
      "next_id tbl1 = next_id tbl"
    by auto
  have "unat eid = next_id tbl"
    using assms(3) by (simp add: g(1) unat_of_nat_size)
  moreover obtain tbl2 where "table_push dflt x tbl1 = Inr tbl2" "table_ok tbl2"
      "table_view tbl2 = (table_view tbl)(next_id tbl \<mapsto> x)" "next_id tbl2 = Suc (next_id tbl)"
    using table_push_spec [OF g(2,3), of dflt x] assms(3) g(4,5) by auto
  ultimately show ?thesis using g by (auto simp: has_room_def)
qed

section \<open>The contract of a table of handles\<close>

text \<open>
  What the users of such a table rely on: an index that is given out is new, it leads to its
  entry until it is deleted and to nothing afterwards, and no operation touches another entry.
  The operations may fail and may change other parts of the state.
\<close>

datatype ('x, 'y) handle_op = Op_add 'x | Op_del 'y

locale handle_table =
  fixes inv :: "'s \<Rightarrow> bool"
    and live :: "'s \<Rightarrow> nat \<Rightarrow> 'a option"
    and fresh :: "'s \<Rightarrow> nat"
    and used :: "'s \<Rightarrow> nat"
    and limit :: nat
    and add :: "'x \<Rightarrow> ('s, 'r) call"
    and key :: "'r \<Rightarrow> nat"
    and del :: "'y \<Rightarrow> ('s, unit) call"
    and target :: "'y \<Rightarrow> nat"
  assumes add_law: "inv s \<Longrightarrow> used s < limit \<Longrightarrow> add x s = (Inr i, s') \<Longrightarrow>
      inv s' \<and> key i = fresh s \<and> fresh s' = Suc (fresh s) \<and> (\<exists>a. live s' = (live s)(fresh s \<mapsto> a))"
    and add_failed: "inv s \<Longrightarrow> used s < limit \<Longrightarrow> add x s = (Inl e, s') \<Longrightarrow>
      inv s' \<and> fresh s' = fresh s \<and> live s' = live s"
    and add_used: "inv s \<Longrightarrow> used s < limit \<Longrightarrow> add x s = (r, s') \<Longrightarrow> used s' \<le> Suc (used s)"
    and del_law: "inv s \<Longrightarrow> del y s = (u, s') \<Longrightarrow>
      inv s' \<and> fresh s' = fresh s \<and> used s' \<le> used s \<and>
      (live s' = (live s)(target y := None) \<or> (\<exists>e. u = Inl e) \<and> live s' = live s)"
    and bounded: "inv s \<Longrightarrow> dom (live s) \<subseteq> {..<fresh s}"

fun handle_step ::
  "('x \<Rightarrow> ('s, 'r) call) \<Rightarrow> ('r \<Rightarrow> nat) \<Rightarrow> ('y \<Rightarrow> ('s, unit) call) \<Rightarrow> ('x, 'y) handle_op
     \<Rightarrow> 's \<times> nat list \<Rightarrow> 's \<times> nat list"
where
  "handle_step add key del (Op_add x) (s, given) =
     (case add x s of (Inl _, s') \<Rightarrow> (s', given) | (Inr i, s') \<Rightarrow> (s', given @ [key i]))"
| "handle_step add key del (Op_del i) (s, given) = (snd (del i s), given)"

context handle_table
begin

text \<open>Whatever is done, no index is given out twice, and only given indices are open.\<close>

lemma run_handles:
  assumes "inv s" "used s + length ops \<le> limit"
    and "fold (handle_step add key del) ops (s, given) = (s', given')"
    and "sorted_wrt (<) given" "\<forall>i \<in> set given. i < fresh s" "dom (live s) \<subseteq> set given \<union> old"
  shows "inv s' \<and> sorted_wrt (<) given' \<and> (\<forall>i \<in> set given'. i < fresh s') \<and> fresh s \<le> fresh s' \<and>
    dom (live s') \<subseteq> set given' \<union> old"
  using assms
proof (induction ops arbitrary: s given)
  case (Cons op ops)
  obtain s1 g1 where step: "handle_step add key del op (s, given) = (s1, g1)" by fastforce
  have "inv s1 \<and> sorted_wrt (<) g1 \<and> (\<forall>i \<in> set g1. i < fresh s1) \<and> fresh s \<le> fresh s1 \<and>
      used s1 \<le> Suc (used s) \<and> dom (live s1) \<subseteq> set g1 \<union> old"
  proof (cases op)
    case (Op_add x)
    have room: "used s < limit" using Cons.prems(2) by simp
    show ?thesis
    proof (cases "add x s")
      case (Pair r t)
      then show ?thesis
        using step Op_add Cons.prems add_law [OF Cons.prems(1) room, of x] add_failed [OF Cons.prems(1) room, of x]
          add_used [OF Cons.prems(1) room Pair]
        by (cases r) (fastforce simp: sorted_wrt_append)+
    qed
  next
    case (Op_del i)
    then have "inv s1" "fresh s1 = fresh s" "used s1 \<le> used s"
        "live s1 = (live s)(target i := None) \<or> live s1 = live s" "g1 = given"
      using step del_law [OF Cons.prems(1), of i "fst (del i s)" "snd (del i s)"] by auto
    then have "dom (live s1) \<subseteq> dom (live s)" by (auto split: if_splits)
    then have "dom (live s1) \<subseteq> set given \<union> old"
      using Cons.prems(6) by (rule subset_trans)
    with \<open>inv s1\<close> \<open>fresh s1 = fresh s\<close> \<open>g1 = given\<close> \<open>used s1 \<le> used s\<close> show ?thesis
      using Cons.prems(4,5) by simp
  qed
  then show ?case
    using Cons.IH [of s1 g1] Cons.prems(2,3) step by auto
qed auto

end

end
