(* ===== verification/Event_Handler.thy ===== *)
theory Event_Handler
  imports Poll_Master Slot_Table
begin

text \<open>
  The event handler of the socket library (\<open>event_handler_impl\<close>, \<open>event_handler_ex\<close> in
  \<open>src/libsocket/event_impl.hpp\<close> and \<open>event.cpp\<close>): a table of slots, one for each descriptor
  that is polled, that lead from the ids of the poll to an event item and its own id. An event
  item is its address, a number. The locks of the mutex are left out (one thread). \<open>assert\<close> is
  compiled out.
\<close>

record event_slot =
  es_closed :: bool
  es_item_id :: u64
  es_item :: nat

definition event_slot_of :: "u64 \<Rightarrow> nat \<Rightarrow> event_slot" where
  "event_slot_of item_id pitem = \<lparr>es_closed = False, es_item_id = item_id, es_item = pitem\<rparr>"

record 'k handler =
  timer_helper :: timer
  poll :: poll_master
  ids :: "event_slot slots"
  event_item_ids :: "nat \<rightharpoonup> u64 set"
  event_items :: "nat list"
  sync_eh_ids :: "u64 list"
  os_state :: 'k

definition on_poll :: "('k poll_state, 'a) call \<Rightarrow> ('k handler, 'a) call" where
  "on_poll = on_part (\<lambda>h. (poll h, os_state h)) (\<lambda>(p, k) h. h\<lparr>poll := p, os_state := k\<rparr>)"

text \<open>The loop that looks for a slot from the last queue to the first.\<close>

definition find_back :: "'a slots \<Rightarrow> usize \<Rightarrow> nat" where
  "find_back tbl i =
     (case filter (\<lambda>n. valid_index (tbl ! n) i) (rev [0..<length tbl]) of [] \<Rightarrow> 0 | n # _ \<Rightarrow> n)"

definition eh_place :: "bool \<Rightarrow> u64 \<Rightarrow> ('k handler, nat \<times> u64) call" where
  "eh_place reuse_slot slot_id h =
     (if reuse_slot then (Inr (find_back (ids h) slot_id, slot_id), h)
      else case table_grow (event_slot_of 0 0) (ids h) of
             Inl e \<Rightarrow> (Inl e, h)
           | Inr (tbl, eid) \<Rightarrow> (Inr (length tbl - 1, eid), h\<lparr>ids := tbl\<rparr>))"

definition eh_store :: "bool \<Rightarrow> nat \<Rightarrow> u64 \<Rightarrow> event_slot \<Rightarrow> ('k handler, u64) call" where
  "eh_store reuse_slot n eid sl h =
     (case (if reuse_slot then table_assign n eid sl (ids h)
            else table_push (event_slot_of 0 0) sl (ids h)) of
        Inl e \<Rightarrow> (Inl e, h)
      | Inr tbl \<Rightarrow> (Inr eid, h\<lparr>ids := tbl\<rparr>))"

definition eh_add ::
  "('k, 'x, 'm) os_scheme \<Rightarrow> nat \<Rightarrow> int \<Rightarrow> u64 \<Rightarrow> task \<Rightarrow> bool \<Rightarrow> u64 \<Rightarrow> ('k handler, u64) call" where
  "eh_add os ev_it handle item_id action reuse_slot slot_id h =
     (case table_first (event_slot_of 0 0) 16 (ids h) of
        Inl e \<Rightarrow> (Inl e, h)
      | Inr tbl \<Rightarrow>
          then_do (eh_place reuse_slot slot_id) (\<lambda>(n, eid).
          then_do (on_poll (poll_add os handle eid action)) (\<lambda>_.
            guarded_scope (on_poll (poll_remove os handle eid False action))
              (eh_store reuse_slot n eid (event_slot_of item_id ev_it)))) (h\<lparr>ids := tbl\<rparr>))"

definition eh_remove ::
  "('k, 'x, 'm) os_scheme \<Rightarrow> int \<Rightarrow> u64 \<Rightarrow> bool \<Rightarrow> task \<Rightarrow> bool \<Rightarrow> ('k handler, unit) call" where
  "eh_remove os handle eid already_closed action keep_slot h =
     (case table_find (ids h) eid of
        None \<Rightarrow> (Inl (Runtime_error ''event_handler_ex::remove''), h)
      | Some n \<Rightarrow>
          (case queue_at (ids h ! n) eid of
             Inl e \<Rightarrow> (Inl e, h)
           | Inr sl \<Rightarrow>
               if es_closed sl then (Inl (Runtime_error ''event_handler_ex::remove''), h)
               else case table_assign n eid (sl\<lparr>es_closed := True\<rparr>) (ids h) of
                      Inl e \<Rightarrow> (Inl e, h)
                    | Inr tbl \<Rightarrow>
                        then_do (on_poll (poll_remove os handle eid already_closed action)) (\<lambda>_ h.
                          case table_release es_closed keep_slot n (ids h) of
                            Inl e \<Rightarrow> (Inl e, h)
                          | Inr tbl \<Rightarrow> (Inr (), h\<lparr>ids := tbl\<rparr>)) (h\<lparr>ids := tbl\<rparr>)))"

definition eh_reset :: "u64 \<Rightarrow> ('k handler, unit) call" where
  "eh_reset reset_id = on_poll (poll_reset reset_id)"

definition eh_set_sync_result :: "u64 \<Rightarrow> ('k handler, unit) call" where
  "eh_set_sync_result eid h =
     (Inr (), h\<lparr>sync_eh_ids := (if eid \<in> set (sync_eh_ids h) then sync_eh_ids h
        else sync_eh_ids h @ [eid])\<rparr>)"

section \<open>Waiting\<close>

datatype wait_result =
    Nothing | On_demand | Timer_out | On_demand_and_timer_out | Event | On_demand_and_event
  | Timer_out_and_event | On_demand_and_timer_out_and_event

text \<open>The values of the enumeration.\<close>

definition wait_code :: "wait_result \<Rightarrow> nat" where
  "wait_code r =
     (case r of Nothing \<Rightarrow> 0 | On_demand \<Rightarrow> 1 | Timer_out \<Rightarrow> 2 | On_demand_and_timer_out \<Rightarrow> 3
      | Event \<Rightarrow> 4 | On_demand_and_event \<Rightarrow> 5 | Timer_out_and_event \<Rightarrow> 6
      | On_demand_and_timer_out_and_event \<Rightarrow> 7)"

definition wait_result_of :: "bool \<Rightarrow> bool \<Rightarrow> bool \<Rightarrow> wait_result" where
  "wait_result_of on_demand on_timer on_event =
     (if \<not> on_demand \<and> \<not> on_timer \<and> \<not> on_event then Nothing
      else if on_demand \<and> \<not> on_timer \<and> \<not> on_event then On_demand
      else if \<not> on_demand \<and> on_timer \<and> \<not> on_event then Timer_out
      else if \<not> on_demand \<and> \<not> on_timer \<and> on_event then Event
      else if on_demand \<and> on_timer \<and> \<not> on_event then On_demand_and_timer_out
      else if on_demand \<and> \<not> on_timer \<and> on_event then On_demand_and_event
      else if \<not> on_demand \<and> on_timer \<and> on_event then Timer_out_and_event
      else On_demand_and_timer_out_and_event)"

text \<open>The loop over the ids that came: the items, the ids of each item, the ids that were
  found.\<close>

fun eh_collect ::
  "event_slot slots \<Rightarrow> u64 list \<Rightarrow> nat set \<times> (nat \<rightharpoonup> u64 set) \<times> u64 list
     \<Rightarrow> (nat set \<times> (nat \<rightharpoonup> u64 set) \<times> u64 list) result" where
  "eh_collect tbl [] acc = Inr acc"
| "eh_collect tbl (eid # eids) (items, item_ids, kept) =
     (case table_at tbl eid of
        Inl e \<Rightarrow> Inl e
      | Inr None \<Rightarrow> eh_collect tbl eids (items, item_ids, kept)
      | Inr (Some sl) \<Rightarrow>
          let prev = (case item_ids (es_item sl) of None \<Rightarrow> {} | Some is \<Rightarrow> is)
          in eh_collect tbl eids
               (insert (es_item sl) items, item_ids(es_item sl \<mapsto> insert (es_item_id sl) prev), kept @ [eid]))"

definition eh_update_timer :: "('k, 'x, 'm) os_scheme \<Rightarrow> ('k handler, unit) call" where
  "eh_update_timer os h =
     (case timer_update os (timer_helper h) (os_state h) of
        None \<Rightarrow> (Inl Diverges, h)
      | Some (tm, k) \<Rightarrow> (Inr (), h\<lparr>timer_helper := tm, os_state := k\<rparr>))"

definition eh_expired :: "('k, 'x, 'm) os_scheme \<Rightarrow> ('k handler, bool) call" where
  "eh_expired os h =
     (let (e, k) = timer_expired os (timer_helper h) (os_state h) in (Inr e, h\<lparr>os_state := k\<rparr>))"

text \<open>The ids to report: one that a call completed at once, else what the poll gives. The set of the former is a list,
  gone through in the order of insertion.\<close>

definition eh_poll :: "('k, 'x, 'm) os_scheme \<Rightarrow> ('k handler, u64 list \<times> bool) call" where
  "eh_poll os h =
     (case sync_eh_ids h of
        eid # rest \<Rightarrow> (Inr ([eid], False), h\<lparr>sync_eh_ids := rest\<rparr>)
      | [] \<Rightarrow> on_poll (poll_wait os (timer_helper h)) h)"

text \<open>\<open>prepare_wait\<close> of the event items is a parameter. The answer holds the items.\<close>

definition eh_wait ::
  "('k, 'x, 'm) os_scheme \<Rightarrow> (nat \<Rightarrow> 'k \<Rightarrow> 'k) \<Rightarrow> ('k handler, wait_result \<times> nat set) call" where
  "eh_wait os prepare h =
     (let h = h\<lparr>event_item_ids := Map.empty, os_state := fold prepare (event_items h) (os_state h)\<rparr>
      in then_do (eh_expired os) (\<lambda>expired.
         if expired then then_do (eh_update_timer os) (\<lambda>_. give (Timer_out, {}))
         else then_do (eh_poll os) (\<lambda>(set_ids, on_demand) h.
           case eh_collect (ids h) set_ids ({}, Map.empty, []) of
             Inl e \<Rightarrow> (Inl e, h)
           | Inr (items, item_ids, set_ids) \<Rightarrow>
               then_do (eh_expired os) (\<lambda>on_timer.
               then_do (if on_timer then eh_update_timer os else give ()) (\<lambda>_.
                 give (wait_result_of on_demand on_timer (set_ids \<noteq> []), items)))
               (h\<lparr>event_item_ids := item_ids\<rparr>))) h)"

text \<open>\<open>at\<close> throws for an item that has no events.\<close>

definition eh_waited :: "nat \<Rightarrow> 'k handler \<Rightarrow> u64 set result" where
  "eh_waited ev_it h =
     (case event_item_ids h ev_it of
        None \<Rightarrow> Inl (Logic_error ''unordered_map::at'')
      | Some is \<Rightarrow> Inr is)"

definition eh_wake :: "('k, 'x, 'm) os_scheme \<Rightarrow> ('k handler, unit) call" where
  "eh_wake os = on_poll (poll_wake os)"

definition eh_set_timer :: "('k, 'x, 'm) os_scheme \<Rightarrow> int \<Rightarrow> ('k handler, unit) call" where
  "eh_set_timer os period h =
     (let (tm, k) = timer_set os period (timer_helper h) (os_state h)
      in (Inr (), h\<lparr>timer_helper := tm, os_state := k\<rparr>))"

definition eh_add_item :: "nat \<Rightarrow> ('k handler, unit) call" where
  "eh_add_item ev_it h =
     (Inr (), h\<lparr>event_items := (if ev_it \<in> set (event_items h) then event_items h
        else event_items h @ [ev_it])\<rparr>)"

definition eh_remove_item :: "nat \<Rightarrow> ('k handler, unit) call" where
  "eh_remove_item ev_it h = (Inr (), h\<lparr>event_items := removeAll ev_it (event_items h)\<rparr>)"


section \<open>Facts\<close>

lemma on_poll_def':
  "on_poll m h = (case m (poll h, os_state h) of (r, (p, k)) \<Rightarrow> (r, h\<lparr>poll := p, os_state := k\<rparr>))"
  by (simp add: on_poll_def on_part_def split: prod.splits)

lemma on_poll_fields:
  "on_poll m h = (r, h') \<Longrightarrow> ids h' = ids h \<and> event_item_ids h' = event_item_ids h \<and>
     sync_eh_ids h' = sync_eh_ids h \<and> timer_helper h' = timer_helper h \<and> event_items h' = event_items h"
  by (auto simp: on_poll_def' split: prod.splits)

lemma poll_add_size:
  "on_poll (poll_add os fd eid action) h = (r, h') \<Longrightarrow>
   m_arr_event (poll h') = (case r of Inl _ \<Rightarrow> m_arr_event (poll h) | Inr _ \<Rightarrow> Suc (m_arr_event (poll h))) \<and>
   (case r of Inl e \<Rightarrow> is_exception e | Inr _ \<Rightarrow> True)"
  by (auto simp: on_poll_def' poll_add_def throw_errno_def is_exception_def Let_def split: prod.splits if_splits)

lemma poll_remove_size:
  "on_poll (poll_remove os fd eid already_closed action) h = (r, h') \<Longrightarrow> 0 < m_arr_event (poll h) \<Longrightarrow>
   m_arr_event (poll h') = (case r of Inl _ \<Rightarrow> m_arr_event (poll h) | Inr _ \<Rightarrow> m_arr_event (poll h) - 1) \<and>
   (case r of Inl e \<Rightarrow> is_exception e | Inr _ \<Rightarrow> True)"
  by (auto simp: on_poll_def' poll_remove_def poll_pop_def throw_errno_def is_exception_def Let_def
      split: prod.splits if_splits)

definition eh_live :: "'k handler \<Rightarrow> nat \<Rightarrow> event_slot option" where
  "eh_live h = table_live es_closed (ids h)"

text \<open>The vector of the poll has an element for each open slot, and one for the pipe.\<close>

definition eh_inv :: "'k handler \<Rightarrow> bool" where
  "eh_inv h \<longleftrightarrow> table_ok (ids h) \<and> card (dom (eh_live h)) < m_arr_event (poll h)"

definition eh_fresh :: "'k handler \<Rightarrow> nat" where
  "eh_fresh h = next_id (ids h)"

lemma eh_live_finite: "eh_inv h \<Longrightarrow> finite (dom (eh_live h))"
  by (simp add: eh_inv_def eh_live_def table_live_finite)

lemma event_slot_of_open [simp]: "\<not> es_closed (event_slot_of item_id it)"
  by (simp add: event_slot_of_def)

lemma eh_add_fresh:
  assumes inv: "eh_inv h" and few: "eh_fresh h < id_limit"
    and run: "eh_add os it fd item_id action False sid h = (r, h')"
  shows "case r of
      Inl e \<Rightarrow> is_exception e \<and> eh_inv h' \<and> eh_fresh h' = eh_fresh h \<and> eh_live h' = eh_live h
    | Inr eid \<Rightarrow> eh_inv h' \<and> unat eid = eh_fresh h \<and> eh_fresh h' = Suc (eh_fresh h) \<and>
        eh_live h' = (eh_live h)(eh_fresh h \<mapsto> event_slot_of item_id it)"
proof -
  have cap: "(16 :: usize) = 2 ^ 4" "4 < (62 :: nat)" by simp_all
  obtain t where t: "table_first (event_slot_of 0 0) 16 (ids h) = Inr t" "table_ok t" "t \<noteq> []"
      "table_view t = table_view (ids h)" "next_id t = next_id (ids h)"
    using table_first_spec [OF _ cap, of "ids h" "event_slot_of 0 0"] inv by (auto simp: eh_inv_def)
  have few_t: "next_id t < id_limit" using few t(5) by (simp add: eh_fresh_def)
  obtain tbl1 eid where g: "table_grow (event_slot_of 0 0) t = Inr (tbl1, eid)"
    using table_grow_spec [OF t(2,3) few_t, of "event_slot_of 0 0"] by blast
  from table_grow_push [OF t(2,3) few_t g, of "event_slot_of item_id it"] obtain tbl2 where p:
      "unat eid = next_id t" "table_ok tbl1" "tbl1 \<noteq> []" "table_view tbl1 = table_view t"
      "next_id tbl1 = next_id t" "table_push (event_slot_of 0 0) (event_slot_of item_id it) tbl1 = Inr tbl2"
      "table_ok tbl2" "table_view tbl2 = (table_view t)(next_id t \<mapsto> event_slot_of item_id it)"
      "next_id tbl2 = Suc (next_id t)"
    by auto
  let ?h1 = "h\<lparr>ids := tbl1\<rparr>"
  obtain ra h2 where pa: "on_poll (poll_add os fd eid action) ?h1 = (ra, h2)"
    by (cases "on_poll (poll_add os fd eid action) ?h1")
  have ids2: "ids h2 = tbl1" using on_poll_fields [OF pa] by simp
  note size2 = poll_add_size [OF pa]
  have placed: "eh_place False sid (h\<lparr>ids := t\<rparr>) = (Inr (length tbl1 - 1, eid), ?h1)"
    using g by (simp add: eh_place_def)
  have fin: "finite (dom (eh_live h))" by (rule eh_live_finite [OF inv])
  show ?thesis
  proof (cases ra)
    case (Inl e)
    then have "r = Inl e" "h' = h2"
      using run t(1) placed pa by (simp_all add: eh_add_def)
    moreover have "eh_live h2 = eh_live h"
      using table_live_cong [OF p(4), of es_closed] table_live_cong [OF t(4), of es_closed]
      by (simp add: eh_live_def ids2)
    ultimately show ?thesis
      using Inl size2 inv p(2,5) t(5) ids2 by (simp add: eh_inv_def eh_fresh_def)
  next
    case (Inr u)
    have "eh_store False (length tbl1 - 1) eid (event_slot_of item_id it) h2 = (Inr eid, h2\<lparr>ids := tbl2\<rparr>)"
      using p(6) by (simp add: eh_store_def ids2)
    then have "guarded_scope (on_poll (poll_remove os fd eid False action))
        (eh_store False (length tbl1 - 1) eid (event_slot_of item_id it)) h2 = (Inr eid, h2\<lparr>ids := tbl2\<rparr>)"
      by (rule guarded_scope_Inr [THEN iffD2])
    then have "r = Inr eid" "h' = h2\<lparr>ids := tbl2\<rparr>"
      using run t(1) placed pa Inr by (simp_all add: eh_add_def)
    moreover have live: "eh_live (h2\<lparr>ids := tbl2\<rparr>) = (eh_live h)(eh_fresh h \<mapsto> event_slot_of item_id it)"
      using table_live_upd [OF p(8), of es_closed] table_live_cong [OF t(4), of es_closed] t(5)
      by (simp add: eh_live_def eh_fresh_def)
    moreover have "eh_live h (eh_fresh h) = None"
      using inv by (simp add: eh_live_def eh_fresh_def eh_inv_def table_live_fresh)
    then have "card (dom ((eh_live h)(eh_fresh h \<mapsto> event_slot_of item_id it))) = Suc (card (dom (eh_live h)))"
      using fin by (simp add: card_insert_if domIff)
    ultimately show ?thesis
      using Inr size2 inv p(1,7,9) t(5) by (simp add: eh_inv_def eh_fresh_def)
  qed
qed

lemma eh_remove_effect:
  assumes inv: "eh_inv h" and run: "eh_remove os fd eid already_closed action keep h = (r, h')"
  shows "eh_inv h' \<and> eh_fresh h' = eh_fresh h \<and> eh_live h' = (eh_live h)(unat eid := None) \<and>
    (case r of Inl e \<Rightarrow> is_exception e | Inr _ \<Rightarrow> unat eid \<in> dom (eh_live h))"
proof (cases "unat eid \<in> dom (eh_live h)")
  case False
  have ok: "table_ok (ids h)" using inv by (simp add: eh_inv_def)
  have "r = Inl (Runtime_error ''event_handler_ex::remove'') \<and> h' = h"
    using run False table_find_live [OF ok, of eid]
    by (auto simp: eh_remove_def eh_live_def table_live_def split: option.splits if_splits)
  moreover have "(eh_live h)(unat eid := None) = eh_live h" using False by (auto simp: fun_eq_iff domIff)
  ultimately show ?thesis using inv by (simp add: is_exception_def)
next
  case True
  have ok: "table_ok (ids h)" using inv by (simp add: eh_inv_def)
  obtain n sl where f: "table_find (ids h) eid = Some n" "n < length (ids h)"
      "table_view (ids h) (unat eid) = Some sl" "queue_at (ids h ! n) eid = Inr sl" "\<not> es_closed sl"
    using True table_find_live [OF ok, of eid]
    by (auto simp: eh_live_def table_live_def split: option.splits if_splits)
  obtain tbl where a: "table_assign n eid (sl\<lparr>es_closed := True\<rparr>) (ids h) = Inr tbl" "table_ok tbl"
      "length tbl = length (ids h)" "table_view tbl = (table_view (ids h))(unat eid \<mapsto> sl\<lparr>es_closed := True\<rparr>)"
      "next_id tbl = next_id (ids h)"
    using table_assign_spec [OF ok f(1), of "sl\<lparr>es_closed := True\<rparr>"] by blast
  let ?h1 = "h\<lparr>ids := tbl\<rparr>"
  have live1: "eh_live ?h1 = (eh_live h)(unat eid := None)"
    using table_live_upd [OF a(4), of es_closed] by (simp add: eh_live_def)
  have card1: "Suc (card (dom (eh_live ?h1))) = card (dom (eh_live h))"
  proof -
    have "dom (eh_live ?h1) = dom (eh_live h) - {unat eid}"
      by (auto simp: live1 split: if_splits)
    then show ?thesis
      using card.remove [OF eh_live_finite [OF inv] True] by (simp only:)
  qed
  obtain rp h2 where pr: "on_poll (poll_remove os fd eid already_closed action) ?h1 = (rp, h2)"
    by (cases "on_poll (poll_remove os fd eid already_closed action) ?h1")
  have pos: "0 < m_arr_event (poll ?h1)" using inv by (auto simp: eh_inv_def)
  note size = poll_remove_size [OF pr pos]
  have ids2: "ids h2 = tbl" using on_poll_fields [OF pr] by simp
  show ?thesis
  proof (cases rp)
    case (Inl e)
    then have "r = Inl e" "h' = h2"
      using run f a(1) pr by (simp_all add: eh_remove_def)
    moreover have "eh_live h2 = eh_live ?h1" by (simp add: eh_live_def ids2)
    ultimately show ?thesis
      using Inl size inv a(2,5) ids2 live1 card1 by (simp add: eh_inv_def eh_fresh_def)
  next
    case (Inr u)
    obtain tbl' where rel: "table_release es_closed keep n tbl = Inr tbl'"
      using table_release_spec [OF a(2), of n es_closed keep] f(2) a(3) by auto
    have rl: "table_live es_closed tbl' = table_live es_closed tbl" "table_ok tbl'" "next_id tbl' = next_id tbl"
      using table_live_release [OF a(2) _ rel] f(2) a(3) by auto
    have "r = Inr ()" "h' = h2\<lparr>ids := tbl'\<rparr>"
      using run f a(1) pr Inr rel by (simp_all add: eh_remove_def ids2)
    moreover have live2: "eh_live (h2\<lparr>ids := tbl'\<rparr>) = eh_live ?h1"
      using rl by (simp add: eh_live_def)
    moreover have "card (dom (eh_live ?h1)) < m_arr_event (poll h2)"
    proof -
      have "m_arr_event (poll h2) = m_arr_event (poll h) - 1" using size Inr by simp
      moreover have "card (dom (eh_live h)) < m_arr_event (poll h)" using inv by (simp add: eh_inv_def)
      ultimately show ?thesis using card1 by linarith
    qed
    then have "eh_inv (h2\<lparr>ids := tbl'\<rparr>)"
      unfolding eh_inv_def live2 using rl by simp
    ultimately show ?thesis
      using a(5) rl live1 True by (simp add: eh_fresh_def)
  qed
qed

text \<open>A slot that is removed but kept stays in the table, and can be taken again.\<close>

lemma eh_remove_keep:
  assumes inv: "eh_inv h" and run: "eh_remove os fd eid already_closed action True h = (Inr u, h')"
  shows "\<exists>sl. table_view (ids h') (unat eid) = Some sl"
proof -
  have ok: "table_ok (ids h)" using inv by (simp add: eh_inv_def)
  obtain n sl tbl where f: "table_find (ids h) eid = Some n" "queue_at (ids h ! n) eid = Inr sl" "\<not> es_closed sl"
      "table_assign n eid (sl\<lparr>es_closed := True\<rparr>) (ids h) = Inr tbl"
    using run by (auto simp: eh_remove_def split: option.splits sum.splits if_splits)
  obtain h2 where g: "on_poll (poll_remove os fd eid already_closed action) (h\<lparr>ids := tbl\<rparr>) = (Inr (), h2)"
      "(case table_release es_closed True n (ids h2) of Inl e \<Rightarrow> (Inl e, h2)
        | Inr tbl \<Rightarrow> (Inr (), h2\<lparr>ids := tbl\<rparr>)) = (Inr u, h')"
    using run f by (auto simp: eh_remove_def then_do_Inr)
  obtain tbl' where rel: "table_release es_closed True n (ids h2) = Inr tbl'" "h' = h2\<lparr>ids := tbl'\<rparr>"
    using g(2) by (auto split: sum.splits)
  obtain "table_ok tbl" "length tbl = length (ids h)"
      "table_view tbl = (table_view (ids h))(unat eid \<mapsto> sl\<lparr>es_closed := True\<rparr>)"
    using table_assign_spec [OF ok f(1), of "sl\<lparr>es_closed := True\<rparr>"] f(4) by auto
  moreover have "ids h2 = tbl" using on_poll_fields [OF g(1)] by simp
  moreover have "n < length (ids h)" using table_find_live [OF ok, of eid] f(1) by simp
  ultimately have "table_view tbl' (unat eid) = table_view tbl (unat eid)"
    using table_release_spec [of tbl n es_closed True] rel(1) by auto
  then show ?thesis
    using \<open>table_view tbl = _\<close> rel(2) by simp
qed

lemma find_back_found:
  assumes "table_ok tbl" "table_find tbl i = Some n"
  shows "find_back tbl i = n"
proof -
  have n: "n < length tbl" "valid_index (tbl ! n) i"
    using table_find_view [of 0 tbl i] assms by (simp_all add: table_ok_def)
  define ms where "ms = filter (\<lambda>n. valid_index (tbl ! n) i) (rev [0..<length tbl])"
  have mem: "m \<in> set ms \<longleftrightarrow> m < length tbl \<and> valid_index (tbl ! m) i" for m
    by (auto simp: ms_def)
  have "ms \<noteq> []" using n mem [of n] by (metis empty_iff list.set(1))
  then have "hd ms \<in> set ms" by simp
  then have "hd ms = n" using table_find_unique [OF assms, of "hd ms"] mem by blast
  with \<open>ms \<noteq> []\<close> show ?thesis
    by (simp add: find_back_def flip: ms_def) (cases ms, simp_all)
qed

lemma eh_add_reuse:
  assumes inv: "eh_inv h" and kept: "table_view (ids h) (unat eid) = Some sl" and closed: "es_closed sl"
    and run: "eh_add os it fd item_id action True eid h = (r, h')"
  shows "eh_inv h' \<and> eh_fresh h' = eh_fresh h \<and>
    (case r of Inl e \<Rightarrow> is_exception e \<and> eh_live h' = eh_live h
     | Inr i \<Rightarrow> i = eid \<and> eh_live h' = (eh_live h)(unat eid \<mapsto> event_slot_of item_id it))"
proof -
  have ok: "table_ok (ids h)" using inv by (simp add: eh_inv_def)
  obtain n where n: "table_find (ids h) eid = Some n"
    using table_find_live [OF ok, of eid] kept by (auto split: option.splits)
  have "ids h \<noteq> []" using n by auto
  then have first: "table_first (event_slot_of 0 0) 16 (ids h) = Inr (ids h)" by (simp add: table_first_def)
  have placed: "eh_place True eid h = (Inr (n, eid), h)"
    by (simp add: eh_place_def find_back_found [OF ok n])
  obtain ra h2 where pa: "on_poll (poll_add os fd eid action) h = (ra, h2)" by fastforce
  have ids2: "ids h2 = ids h" using on_poll_fields [OF pa] by simp
  note size2 = poll_add_size [OF pa]
  have none: "eh_live h (unat eid) = None" using kept closed by (simp add: eh_live_def table_live_def)
  show ?thesis
  proof (cases ra)
    case (Inl e)
    then have "r = Inl e" "h' = h2"
      using run first placed pa by (simp_all add: eh_add_def)
    then show ?thesis
      using Inl size2 inv ids2 by (simp add: eh_inv_def eh_fresh_def eh_live_def)
  next
    case (Inr u)
    obtain tbl2 where t: "table_assign n eid (event_slot_of item_id it) (ids h) = Inr tbl2" "table_ok tbl2"
        "table_view tbl2 = (table_view (ids h))(unat eid \<mapsto> event_slot_of item_id it)" "next_id tbl2 = next_id (ids h)"
      using table_assign_spec [OF ok n, of "event_slot_of item_id it"] by blast
    have "eh_store True n eid (event_slot_of item_id it) h2 = (Inr eid, h2\<lparr>ids := tbl2\<rparr>)"
      using t by (simp add: eh_store_def ids2)
    then have "guarded_scope (on_poll (poll_remove os fd eid False action))
        (eh_store True n eid (event_slot_of item_id it)) h2 = (Inr eid, h2\<lparr>ids := tbl2\<rparr>)"
      by (rule guarded_scope_Inr [THEN iffD2])
    then have res: "r = Inr eid" "h' = h2\<lparr>ids := tbl2\<rparr>"
      using run first placed pa Inr by (simp_all add: eh_add_def)
    have live: "eh_live (h2\<lparr>ids := tbl2\<rparr>) = (eh_live h)(unat eid \<mapsto> event_slot_of item_id it)"
      using table_live_upd [OF t(3), of es_closed] by (simp add: eh_live_def)
    have "card (dom ((eh_live h)(unat eid \<mapsto> event_slot_of item_id it))) = Suc (card (dom (eh_live h)))"
      using eh_live_finite [OF inv] none by (simp add: card_insert_if domIff)
    then show ?thesis
      using res live Inr size2 inv t(2,4) by (simp add: eh_inv_def eh_fresh_def)
  qed
qed

interpretation eh: handle_table eh_inv eh_live eh_fresh eh_fresh id_limit
  "\<lambda>(it, fd, item_id, action). eh_add os it fd item_id action False 0" unat
  "\<lambda>(eid, fd, already_closed, action, keep). eh_remove os fd eid already_closed action keep"
  "\<lambda>(eid, _). unat eid"
  for os :: "('k, 'x, 'm) os_scheme"
proof (unfold_locales, goal_cases)
  case (1 s x i s')
  then show ?case
    using eh_add_fresh [of s os "fst x" "fst (snd x)" "fst (snd (snd x))" "snd (snd (snd x))" 0 "Inr i" s']
    by (auto simp: split_def)
next
  case (2 s x e s')
  then show ?case
    using eh_add_fresh [of s os "fst x" "fst (snd x)" "fst (snd (snd x))" "snd (snd (snd x))" 0 "Inl e" s']
    by (auto simp: split_def)
next
  case (3 s x r s')
  then show ?case
    using eh_add_fresh [of s os "fst x" "fst (snd x)" "fst (snd (snd x))" "snd (snd (snd x))" 0 r s']
    by (auto simp: split_def split: sum.splits)
next
  case (4 s y r s')
  then show ?case
    using eh_remove_effect [of s os "fst (snd y)" "fst y" "fst (snd (snd y))" "fst (snd (snd (snd y)))"
      "snd (snd (snd (snd y)))" r s']
    by (cases r) (auto simp: split_def)
next
  case (5 s)
  then show ?case
    using table_live_dom [of "ids s" es_closed] by (simp add: eh_inv_def eh_live_def eh_fresh_def)
qed


text \<open>The handler of a fresh poll.\<close>

definition eh_new :: "('k, 'x, 'm) os_scheme \<Rightarrow> 'k \<Rightarrow> 'k handler result \<times> 'k" where
  "eh_new os k =
     then_do (poll_new os) (\<lambda>p k.
       (Inr \<lparr>timer_helper = timer_new, poll = p, ids = [], event_item_ids = Map.empty,
          event_items = [], sync_eh_ids = [], os_state = k\<rparr>, k)) k"

lemma poll_new_size: "poll_new os k = (Inr p, k') \<Longrightarrow> m_arr_event p = 1"
  by (auto simp: poll_new_def guarded_scope_Inr Let_def split: prod.splits if_splits)

lemma table_live_Nil [simp]: "table_live closed [] = Map.empty"
  by (simp add: table_live_def fun_eq_iff)

lemma eh_new_inv: "eh_new os k = (Inr h, k') \<Longrightarrow> eh_inv h \<and> eh_live h = Map.empty \<and> eh_fresh h = 0"
  by (auto simp: eh_new_def then_do_Inr eh_inv_def eh_live_def eh_fresh_def next_id_def
      table_ok_def poll_new_size)

text \<open>An example: a handler with one slot, of the item 1, whose call completed at once.\<close>

definition example_empty :: "nat handler" where
  "example_empty = (case eh_new quiet_os 0 of (Inr h, _) \<Rightarrow> h | (Inl _, _) \<Rightarrow> undefined)"

definition example_slot :: "nat handler" where
  "example_slot = snd (eh_add quiet_os 1 7 0 Task_accept False 0 example_empty)"

definition example_handler :: "nat handler" where
  "example_handler = snd (eh_set_sync_result 0 example_slot)"

lemma example_slot_all:
  "eh_inv example_slot \<and> eh_live example_slot = [0 \<mapsto> event_slot_of 0 1] \<and> eh_fresh example_slot = 1"
proof -
  have new: "eh_new quiet_os 0 = (Inr example_empty, 0)"
    by (simp add: example_empty_def eh_new_def poll_new_def guarded_scope_def guard_dismiss_def
        guard_destroy_def give_def then_do_def quiet_os_def Let_def)
  have empty: "eh_inv example_empty" "eh_fresh example_empty < id_limit" "eh_fresh example_empty = 0"
      "eh_live example_empty = Map.empty"
    using eh_new_inv [OF new] by simp_all
  obtain r h where run: "eh_add quiet_os 1 7 0 Task_accept False 0 example_empty = (r, h)" by fastforce
  have "isl (fst (eh_add quiet_os 1 7 0 Task_accept False 0 example_empty)) = False" by code_simp
  then obtain i where "r = Inr i" using run by (cases r) auto
  then show ?thesis
    using eh_add_fresh [OF empty(1,2) run] empty(3,4) run by (simp add: example_slot_def)
qed

lemmas example_slot_inv = example_slot_all [THEN conjunct1]
lemmas example_slot_live = example_slot_all [THEN conjunct2]

lemma example_inv: "eh_inv example_handler"
  using example_slot_inv
  by (simp add: example_handler_def eh_set_sync_result_def eh_inv_def eh_live_def)

lemma example_wait:
  "fst (eh_wait quiet_os (\<lambda>_ k. k) example_handler) = Inr (Event, {1})"
  by code_simp

text \<open>The loop of \<open>wait\<close> over the ids that came, as a set of pairs of an item and one of its
  ids.\<close>

definition held :: "(nat \<rightharpoonup> u64 set) \<Rightarrow> (nat \<times> u64) set" where
  "held m = {(it, i). \<exists>is. m it = Some is \<and> i \<in> is}"

lemma held_upd:
  "held (m(it \<mapsto> insert i (case m it of None \<Rightarrow> {} | Some is \<Rightarrow> is))) = insert (it, i) (held m)"
  by (auto simp: held_def split: option.splits if_splits)

definition slots_of :: "event_slot slots \<Rightarrow> u64 list \<Rightarrow> event_slot set" where
  "slots_of tbl eids = {sl. \<exists>eid \<in> set eids. table_view tbl (unat eid) = Some sl}"

lemma slots_of_Cons:
  "slots_of tbl (eid # eids) =
     (case table_view tbl (unat eid) of None \<Rightarrow> {} | Some sl \<Rightarrow> {sl}) \<union> slots_of tbl eids"
  by (auto simp: slots_of_def split: option.splits)

lemma eh_collect_spec:
  assumes "table_ok tbl" "items = dom item_ids" "\<forall>it is. item_ids it = Some is \<longrightarrow> is \<noteq> {}"
  shows "\<exists>item_ids'. eh_collect tbl eids (items, item_ids, kept) =
      Inr (dom item_ids', item_ids', kept @ filter (\<lambda>eid. table_view tbl (unat eid) \<noteq> None) eids) \<and>
    held item_ids' = held item_ids \<union> (\<lambda>sl. (es_item sl, es_item_id sl)) ` slots_of tbl eids \<and>
    (\<forall>it is. item_ids' it = Some is \<longrightarrow> is \<noteq> {})"
  using assms(2,3)
proof (induction eids arbitrary: items item_ids kept)
  case Nil
  then show ?case by (auto simp: slots_of_def)
next
  case (Cons eid eids)
  show ?case
  proof (cases "table_view tbl (unat eid)")
    case None
    then show ?thesis
      using Cons.IH [OF Cons.prems, of kept] table_at_view [OF assms(1), of eid]
      by (simp add: slots_of_Cons)
  next
    case (Some sl)
    define m where "m = item_ids(es_item sl \<mapsto> insert (es_item_id sl)
      (case item_ids (es_item sl) of None \<Rightarrow> {} | Some is \<Rightarrow> is))"
    have step: "eh_collect tbl (eid # eids) (items, item_ids, kept) =
        eh_collect tbl eids (insert (es_item sl) items, m, kept @ [eid])"
      using Some table_at_view [OF assms(1), of eid] by (simp add: Let_def m_def)
    have m: "insert (es_item sl) items = dom m" "\<forall>it is. m it = Some is \<longrightarrow> is \<noteq> {}"
      using Cons.prems by (auto simp: m_def)
    obtain item_ids' where ih: "eh_collect tbl eids (insert (es_item sl) items, m, kept @ [eid]) =
          Inr (dom item_ids', item_ids', (kept @ [eid]) @ filter (\<lambda>eid. table_view tbl (unat eid) \<noteq> None) eids)"
        "held item_ids' = held m \<union> (\<lambda>sl. (es_item sl, es_item_id sl)) ` slots_of tbl eids"
        "\<forall>it is. item_ids' it = Some is \<longrightarrow> is \<noteq> {}"
      using Cons.IH [OF m, of "kept @ [eid]"] by blast
    have "held m = insert (es_item sl, es_item_id sl) (held item_ids)"
      by (simp only: m_def held_upd)
    then show ?thesis
      using step ih Some by (intro exI [of _ item_ids']) (simp add: slots_of_Cons)
  qed
qed

lemma dom_held: "(\<forall>it is. m it = Some is \<longrightarrow> is \<noteq> {}) \<Longrightarrow> dom m = fst ` held m"
  by (force simp: held_def image_iff)

lemma wait_code_of:
  "wait_code (wait_result_of d t e) = of_bool d + 2 * of_bool t + 4 * of_bool e"
  by (simp add: wait_result_of_def wait_code_def)

lemma eh_expired_fields:
  "eh_expired os h = (r, h') \<Longrightarrow> ids h' = ids h \<and> event_item_ids h' = event_item_ids h \<and> (\<exists>e. r = Inr e)"
  by (auto simp: eh_expired_def split: prod.splits)

lemma eh_update_timer_fields:
  "eh_update_timer os h = (Inr u, h') \<Longrightarrow> ids h' = ids h \<and> event_item_ids h' = event_item_ids h"
  by (auto simp: eh_update_timer_def split: option.splits)

lemma eh_poll_fields:
  "eh_poll os h = (r, h') \<Longrightarrow> ids h' = ids h"
  by (auto simp: eh_poll_def dest: on_poll_fields split: list.splits)

text \<open>What \<open>wait\<close> reports: the value of the answer holds one bit each for a wake, the timer and
  an event, the event bit exactly when there are items; \<open>waited\<close> answers for the items reported and
  throws for every other; and each id it answers is the id of a slot of that item.\<close>

theorem eh_wait_reports:
  assumes "table_ok (ids h)" "eh_wait os prepare h = (Inr (res, items), h')"
  shows "(\<exists>on_demand on_timer. wait_code res =
      of_bool on_demand + 2 * of_bool on_timer + 4 * of_bool (items \<noteq> {})) \<and>
    (\<forall>it. case eh_waited it h' of
       Inl _ \<Rightarrow> it \<notin> items
     | Inr item_ids \<Rightarrow> it \<in> items \<and> item_ids \<noteq> {} \<and>
         (\<forall>i \<in> item_ids. \<exists>eid sl. table_view (ids h') eid = Some sl \<and> es_item sl = it \<and> es_item_id sl = i))"
proof -
  define h0 where "h0 = h\<lparr>event_item_ids := Map.empty, os_state := fold prepare (event_items h) (os_state h)\<rparr>"
  have h0: "ids h0 = ids h" "event_item_ids h0 = Map.empty" by (simp_all add: h0_def)
  obtain e1 h1 where e1: "eh_expired os h0 = (Inr e1, h1)"
    using eh_expired_fields [of os h0] by (metis surj_pair)
  have h1: "ids h1 = ids h" "event_item_ids h1 = Map.empty"
    using eh_expired_fields [OF e1] h0 by simp_all
  show ?thesis
  proof (cases e1)
    case True
    then obtain u where "eh_update_timer os h1 = (Inr u, h')" "res = Timer_out" "items = {}"
      using assms(2) e1 by (auto simp: eh_wait_def h0_def [symmetric] then_do_Inr give_def)
    then show ?thesis
      using eh_update_timer_fields [of os h1 u h'] h1
      by (auto simp: eh_waited_def wait_code_def intro: exI [of _ True] exI [of _ False])
  next
    case False
    then obtain set_ids dem h2 where p: "eh_poll os h1 = (Inr (set_ids, dem), h2)"
        and rest: "(case eh_collect (ids h2) set_ids ({}, Map.empty, []) of
             Inl e \<Rightarrow> (Inl e, h2)
           | Inr (items, item_ids, set_ids) \<Rightarrow>
               then_do (eh_expired os) (\<lambda>on_timer.
               then_do (if on_timer then eh_update_timer os else give ()) (\<lambda>_.
                 give (wait_result_of dem on_timer (set_ids \<noteq> []), items)))
               (h2\<lparr>event_item_ids := item_ids\<rparr>)) = (Inr (res, items), h')"
      using assms(2) e1 by (auto simp: eh_wait_def h0_def [symmetric] then_do_Inr)
    have ids2: "ids h2 = ids h" using eh_poll_fields [OF p] h1 by simp
    have held0: "held Map.empty = {}" by (simp add: held_def)
    obtain m where m: "eh_collect (ids h2) set_ids ({}, Map.empty, []) =
          Inr (dom m, m, filter (\<lambda>eid. table_view (ids h) (unat eid) \<noteq> None) set_ids)"
        "held m = (\<lambda>sl. (es_item sl, es_item_id sl)) ` slots_of (ids h) set_ids"
        "\<forall>it is. m it = Some is \<longrightarrow> is \<noteq> {}"
      using eh_collect_spec [of "ids h2" "{}" Map.empty set_ids "[]"] assms(1) by (auto simp: ids2 held0)
    have kept: "filter (\<lambda>eid. table_view (ids h) (unat eid) \<noteq> None) set_ids \<noteq> [] \<longleftrightarrow> dom m \<noteq> {}"
      using dom_held [OF m(3)] m(2) by (auto simp: slots_of_def filter_empty_conv)
    obtain t h4 where t: "eh_expired os (h2\<lparr>event_item_ids := m\<rparr>) = (Inr t, h4)"
        "(if t then eh_update_timer os else give ()) h4 = (Inr (), h')"
        "res = wait_result_of dem t (filter (\<lambda>eid. table_view (ids h) (unat eid) \<noteq> None) set_ids \<noteq> [])"
        "items = dom m"
      using rest unfolding m(1) by (auto simp: then_do_Inr give_def [of "(_, _)"])
    have res: "res = wait_result_of dem t (dom m \<noteq> {})" using t(3) unfolding kept .
    have h': "ids h' = ids h" "event_item_ids h' = m"
      using eh_expired_fields [OF t(1)] eh_update_timer_fields [of os h4 "()" h'] t(2) ids2
      by (auto simp: give_def split: if_splits)
    have "\<exists>eid sl. table_view (ids h') eid = Some sl \<and> es_item sl = it \<and> es_item_id sl = i"
      if "m it = Some js" "i \<in> js" for it js i
    proof -
      have "(it, i) \<in> held m" using that by (auto simp: held_def)
      then show ?thesis unfolding m(2) h'(1) by (auto simp: slots_of_def)
    qed
    then show ?thesis
      using res t(4) h' m(3) wait_code_of by (auto simp: eh_waited_def split: option.splits)
  qed
qed


theorem eh_wait_reports_witness:
  "\<exists>h'. eh_wait quiet_os (\<lambda>_ k. k) example_handler = (Inr (Event, {1}), h') \<and>
    (\<exists>item_ids. eh_waited 1 h' = Inr item_ids \<and> item_ids \<noteq> {}) \<and> (\<exists>e. eh_waited 2 h' = Inl e)"
proof -
  obtain h' where run: "eh_wait quiet_os (\<lambda>_ k. k) example_handler = (Inr (Event, {1}), h')"
    using example_wait by (metis prod.collapse)
  have "table_ok (ids example_handler)" using example_inv by (simp add: eh_inv_def)
  from eh_wait_reports [OF this run]
  have reported: "\<forall>it. case eh_waited it h' of Inl _ \<Rightarrow> it \<notin> {1} | Inr item_ids \<Rightarrow> it \<in> {1} \<and> item_ids \<noteq> {} \<and>
      (\<forall>i \<in> item_ids. \<exists>eid sl. table_view (ids h') eid = Some sl \<and> es_item sl = it \<and> es_item_id sl = i)"
    by (rule conjunct2)
  show ?thesis
    using run spec [OF reported, of 1] spec [OF reported, of 2] by (auto split: sum.splits)
qed

text \<open>C9: over any run of registrations and removals, with whatever failures of the system, no slot
  id is given out twice, a later id is a larger one, only slots that were given out are open, and
  the vector that the poll fills has room for all of them.\<close>

theorem eh_ids_unique:
  assumes "eh_inv h" "eh_fresh h + length ops \<le> id_limit"
    and "fold (handle_step (\<lambda>(it, fd, item_id, action). eh_add os it fd item_id action False 0) unat
       (\<lambda>(eid, fd, already_closed, action, keep). eh_remove os fd eid already_closed action keep))
       ops (h, []) = (h', given)"
  shows "sorted_wrt (<) given \<and> dom (eh_live h') \<subseteq> set given \<union> dom (eh_live h) \<and>
    card (dom (eh_live h')) < m_arr_event (poll h')"
  using eh.run_handles [OF assms, of "dom (eh_live h)"] by (simp add: eh_inv_def)

theorem eh_ids_unique_witness:
  "\<exists>h h' given. eh_new quiet_os 0 = (Inr h, 0) \<and>
    fold (handle_step (\<lambda>(it, fd, item_id, action). eh_add quiet_os it fd item_id action False 0) unat
       (\<lambda>(eid, fd, already_closed, action, keep). eh_remove quiet_os fd eid already_closed action keep))
       [Op_add (1, 7, 0, Task_accept), Op_del (0, 7, False, Task_accept, False), Op_add (1, 8, 1, Task_connect)]
       (h, []) = (h', given) \<and> sorted_wrt (<) given"
proof -
  obtain h where h: "eh_new quiet_os 0 = (Inr h, 0)"
    by (simp add: eh_new_def poll_new_def guarded_scope_def guard_dismiss_def guard_destroy_def
        give_def then_do_def quiet_os_def Let_def)
  let ?ops = "[Op_add (1, 7, 0, Task_accept), Op_del (0, 7, False, Task_accept, False), Op_add (1, 8, 1, Task_connect)]"
  obtain h' given where run: "fold (handle_step (\<lambda>(it, fd, item_id, action). eh_add quiet_os it fd item_id action False 0) unat
       (\<lambda>(eid, fd, already_closed, action, keep). eh_remove quiet_os fd eid already_closed action keep))
       ?ops (h, []) = (h', given)"
    by fastforce
  have "eh_inv h" "eh_fresh h + length ?ops \<le> id_limit"
    using eh_new_inv [OF h] by simp_all
  from eh_ids_unique [OF this run] h run show ?thesis by blast
qed

text \<open>The contract of \<open>epoll_wait\<close>: it fails with \<open>-1\<close>, or stores as many events as it says, and no
  more than there is room for.\<close>

definition wait_contract :: "('k, 'x, 'm) os_scheme \<Rightarrow> bool" where
  "wait_contract os \<longleftrightarrow> (\<forall>fd n ms k. case sys_epoll_wait os fd n ms k of
     ((count, events), k') \<Rightarrow> count = - 1 \<or> (count = int (length events) \<and> length events \<le> n))"

lemma read_events_failure:
  "read_events os fd events acc k = (Inl e, k') \<Longrightarrow> is_exception e"
  by (induction os fd events acc k rule: read_events.induct)
     (auto simp: Let_def throw_errno_def is_exception_def split: prod.splits if_splits)

lemma poll_wait_failure:
  assumes "wait_contract os" "0 < m_arr_event p" "poll_wait os tm (p, k) = (r, (p', k'))"
  shows "p' = p \<and> (\<forall>e. r = Inl e \<longrightarrow> is_exception e)"
proof -
  obtain ms k1 where ms: "wait_milliseconds os tm k = (ms, k1)" by fastforce
  obtain count events k2 where w: "sys_epoll_wait os (m_fd p) (m_arr_event p) ms k1 = ((count, events), k2)"
    by (metis surj_pair)
  have "case sys_epoll_wait os (m_fd p) (m_arr_event p) ms k1 of ((count, events), k') \<Rightarrow>
      count = - 1 \<or> (count = int (length events) \<and> length events \<le> m_arr_event p)"
    using assms(1) unfolding wait_contract_def by (elim allE)
  then have "count = - 1 \<or> (count = int (length events) \<and> length events \<le> m_arr_event p)"
    by (simp add: w)
  then show ?thesis
    using assms(2,3) ms w
    by (auto simp: poll_wait_def Let_def throw_errno_def is_exception_def dest: read_events_failure
        split: prod.splits if_splits)
qed


lemma eh_wait_slots:
  assumes "eh_inv h" "wait_contract os" "eh_wait os prepare h = (r, h')"
  shows "eh_inv h' \<and> ids h' = ids h \<and> poll h' = poll h \<and>
    (case r of Inl e \<Rightarrow> is_exception e \<or> e = Diverges \<and> (\<exists>k. timer_update os (timer_helper h) k = None) | Inr _ \<Rightarrow> True)"
proof -
  have expired: "eh_expired os g = (q, g') \<Longrightarrow> ids g' = ids g \<and> poll g' = poll g \<and> timer_helper g' = timer_helper g \<and> (\<exists>e. q = Inr e)" for g q g'
    by (auto simp: eh_expired_def split: prod.splits)
  have update: "eh_update_timer os g = (q, g') \<Longrightarrow> ids g' = ids g \<and> poll g' = poll g \<and>
      (q = Inr () \<or> q = Inl Diverges \<and> (\<exists>k. timer_update os (timer_helper g) k = None))" for g q g'
    by (auto simp: eh_update_timer_def split: option.splits prod.splits)
  have pos: "0 < m_arr_event (poll h)" using assms(1) by (auto simp: eh_inv_def)
  have polled: "ids g' = ids g \<and> poll g' = poll g \<and> timer_helper g' = timer_helper g \<and> (\<forall>e. q = Inl e \<longrightarrow> is_exception e)"
    if "eh_poll os g = (q, g')" "poll g = poll h" for g q g'
    using that poll_wait_failure [OF assms(2), of "poll g" "timer_helper g" "os_state g"] pos
    by (auto simp: eh_poll_def on_poll_def' split: list.splits prod.splits)
  have ok: "table_ok (ids h)" using assms(1) by (simp add: eh_inv_def)
  define h0 where "h0 = h\<lparr>event_item_ids := Map.empty, os_state := fold prepare (event_items h) (os_state h)\<rparr>"
  have h0: "ids h0 = ids h" "poll h0 = poll h" "timer_helper h0 = timer_helper h" by (simp_all add: h0_def)
  obtain e1 h1 where e1: "eh_expired os h0 = (Inr e1, h1)"
    using eh_expired_fields [of os h0] by (metis surj_pair)
  have h1: "ids h1 = ids h" "poll h1 = poll h" "timer_helper h1 = timer_helper h" using expired [OF e1] h0 by simp_all
  have "ids h' = ids h \<and> poll h' = poll h \<and>
      (case r of Inl e \<Rightarrow> is_exception e \<or> e = Diverges \<and> (\<exists>k. timer_update os (timer_helper h) k = None) | Inr _ \<Rightarrow> True)"
  proof (cases e1)
    case True
    then have "(case eh_update_timer os h1 of (Inl e, g) \<Rightarrow> (Inl e, g)
        | (Inr _, g) \<Rightarrow> (Inr (Timer_out, {}), g)) = (r, h')"
      using assms(3) e1 by (simp add: eh_wait_def h0_def [symmetric] then_do_def give_def split: prod.splits sum.splits)
    then show ?thesis using update [of h1] h1 by (auto split: prod.splits sum.splits)
  next
    case False
    obtain q h2 where p: "eh_poll os h1 = (q, h2)" by fastforce
    have h2: "ids h2 = ids h" "poll h2 = poll h" "timer_helper h2 = timer_helper h" "\<forall>e. q = Inl e \<longrightarrow> is_exception e"
      using polled [OF p] h1 by simp_all
    show ?thesis
    proof (cases q)
      case (Inl e)
      then show ?thesis using assms(3) e1 False p h2
        by (auto simp: eh_wait_def h0_def [symmetric] then_do_def)
    next
      case (Inr sd)
      obtain set_ids dem where sd: "sd = (set_ids, dem)" by fastforce
      obtain m kept where m: "eh_collect (ids h2) set_ids ({}, Map.empty, []) = Inr (dom m, m, kept)"
        using eh_collect_spec [of "ids h2" "{}" Map.empty set_ids "[]"] ok by (auto simp: h2)
      obtain t h4 where t: "eh_expired os (h2\<lparr>event_item_ids := m\<rparr>) = (Inr t, h4)"
        using eh_expired_fields [of os "h2\<lparr>event_item_ids := m\<rparr>"] by (metis surj_pair)
      have h4: "ids h4 = ids h" "poll h4 = poll h" "timer_helper h4 = timer_helper h" using expired [OF t] h2 by simp_all
      have "then_do (if t then eh_update_timer os else give ()) (\<lambda>_.
          give (wait_result_of dem t (kept \<noteq> []), dom m)) h4 = (r, h')"
        using assms(3) e1 False p Inr sd m t
        by (simp add: eh_wait_def h0_def [symmetric] then_do_def [of "eh_poll os"] then_do_def [of "eh_expired os"])
      then show ?thesis using update [of h4] h4
        by (cases t) (auto simp: give_def then_do_def split: prod.splits sum.splits)
    qed
  qed
  then show ?thesis using assms(1) by (simp add: eh_inv_def eh_live_def)
qed

text \<open>C27: waiting is safe: with a handler whose invariant holds, a system that keeps the
  contract of \<open>epoll_wait\<close> and a clock that does not run away, a wait returns or fails with an exception; only
  with a timer that was set with a period of 0 or less it may never end. The slots are as before and the
  invariant still holds.\<close>

theorem eh_wait_safe:
  assumes "eh_inv h" "wait_contract os" "clock_below os b" "eh_wait os prepare h = (r, h')"
  shows "eh_inv h' \<and> ids h' = ids h \<and>
    (case r of Inl e \<Rightarrow> is_exception e \<or> e = Diverges \<and> is_set (timer_helper h) \<and> timer_period (timer_helper h) \<le> 0 | Inr _ \<Rightarrow> True)"
proof -
  have "is_set (timer_helper h) \<and> timer_period (timer_helper h) \<le> 0" if "timer_update os (timer_helper h) k = None" for k
    using timer_update_ends [OF assms(3), of "timer_helper h" k] that by force
  then show ?thesis using eh_wait_slots [OF assms(1,2,4)] by (auto split: sum.splits)
qed

theorem eh_wait_safe_witness:
  "\<exists>r h'. eh_wait (quiet_os\<lparr>sys_now := \<lambda>k. (0, k)\<rparr>) (\<lambda>_ k. k) example_handler = (r, h') \<and> eh_inv h' \<and>
    ids h' = ids example_handler \<and> (\<forall>e. r = Inl e \<longrightarrow> is_exception e)"
proof -
  let ?os = "quiet_os\<lparr>sys_now := \<lambda>k. (0, k)\<rparr>"
  obtain r h' where run: "eh_wait ?os (\<lambda>_ k. k) example_handler = (r, h')" by fastforce
  have "wait_contract ?os" "clock_below ?os 1" by (simp_all add: wait_contract_def clock_below_def quiet_os_def)
  moreover have "\<not> is_set (timer_helper example_handler)" by code_simp
  ultimately show ?thesis using eh_wait_safe [OF example_inv _ _ run] run by (auto split: sum.splits)
qed

end
