(* ===== verification/Native_Socket.thy ===== *)
theory Native_Socket
  imports Event_Handler
begin

text \<open>
  The thin layer over the socket calls, \<open>src/libsocket/native.hpp\<close> and \<open>native.cpp\<close>, in the
  build for Linux: socket handles, the tests of what a call returned, connecting, accepting,
  reading, and the two functions that write the bytes a channel holds back.
\<close>

section \<open>Handles and results\<close>

record sync_result =
  sync_is_set :: bool
  sync_succeeded :: bool
  sync_error_code :: int

definition sync_result_new :: sync_result where
  "sync_result_new = \<lparr>sync_is_set = False, sync_succeeded = False, sync_error_code = 0\<rparr>"

type_synonym socket_handle = int

abbreviation invalid_value :: socket_handle where
  "invalid_value \<equiv> - 1"

definition is_invalid :: "socket_handle \<Rightarrow> bool" where
  "is_invalid handle = (handle = invalid_value)"

text \<open>A handle that is moved from becomes invalid: the new owner's value and what is left.\<close>

definition handle_move :: "socket_handle \<Rightarrow> socket_handle \<times> socket_handle" where
  "handle_move other = (other, invalid_value)"

text \<open>\<open>reset\<close> answers what \<open>close\<close> returns; the handle is invalid afterwards.\<close>

definition handle_reset ::
  "('k, 'x, 'm) os_scheme \<Rightarrow> socket_handle \<Rightarrow> 'k \<Rightarrow> int \<times> socket_handle \<times> 'k" where
  "handle_reset os handle k =
     (if handle \<noteq> invalid_value
      then let (res, k) = sys_close os handle k in (res, invalid_value, k)
      else (0, handle, k))"

definition handle_destroy :: "('k, 'x, 'm) os_scheme \<Rightarrow> socket_handle \<Rightarrow> 'k \<Rightarrow> 'k" where
  "handle_destroy os handle k = (case handle_reset os handle k of (_, _, k) \<Rightarrow> k)"

section \<open>The tests\<close>

abbreviation econnrefused :: int where "econnrefused \<equiv> 111"
abbreviation ewouldblock :: int where "ewouldblock \<equiv> 11"
abbreviation eagain :: int where "eagain \<equiv> 11"
abbreviation econnreset :: int where "econnreset \<equiv> 104"
abbreviation epipe :: int where "epipe \<equiv> 32"
abbreviation einprogress :: int where "einprogress \<equiv> 115"

definition check_connection_refused :: "bool \<Rightarrow> int \<Rightarrow> bool" where
  "check_connection_refused res error_code = (False = res \<and> error_code = econnrefused)"

definition check_connected_error :: "bool \<Rightarrow> int \<Rightarrow> bool" where
  "check_connected_error res error_code = (False = res)"

definition check_accepted_skip :: "bool \<Rightarrow> int \<Rightarrow> bool" where
  "check_accepted_skip res error_code = False"

definition check_recv_block :: "usize \<Rightarrow> int \<Rightarrow> bool" where
  "check_recv_block res error_code =
     (- 1 = res \<and> (error_code = ewouldblock \<or> error_code = eagain))"

definition check_recv_connect :: "usize \<Rightarrow> int \<Rightarrow> bool" where
  "check_recv_connect res error_code = (- 1 = res \<and> error_code = econnreset)"

definition check_recv_fail :: "usize \<Rightarrow> bool" where
  "check_recv_fail res = (- 1 = res)"

definition check_send_dropped :: "usize \<Rightarrow> int \<Rightarrow> bool" where
  "check_send_dropped res error_code = (- 1 = res \<and> error_code = epipe)"

section \<open>Connecting, accepting, reading\<close>

text \<open>The answer of the two branches of \<open>getsockopt\<close>: whether it is connected, and the value
  that \<open>so_error\<close> holds.\<close>

definition get_connected_status ::
  "('k, 'x, 'm) os_scheme \<Rightarrow> socket_handle \<Rightarrow> 'k \<Rightarrow> (bool \<times> int) \<times> 'k" where
  "get_connected_status os fd k =
     (let ((r, so_error), k) = sys_so_error os fd k
      in if - 1 = r then ((False, so_error), k)
         else if 0 = so_error then ((True, so_error), k)
         else ((False, so_error), k))"

definition native_accept ::
  "('k, 'x, 'm) os_scheme \<Rightarrow> socket_handle \<Rightarrow> 'k \<Rightarrow> (socket_handle \<times> bool \<times> int) \<times> 'k" where
  "native_accept os fd k = (let (joined, k) = sys_accept os fd k in ((joined, True, 0), k))"

text \<open>What \<open>recv\<close> answers, the bytes it stores at the pointer, and the error code.\<close>

definition native_recv ::
  "('k, 'x, 'm) os_scheme \<Rightarrow> socket_handle \<Rightarrow> usize \<Rightarrow> 'k \<Rightarrow> (usize \<times> string \<times> int) \<times> 'k" where
  "native_recv os fd len k =
     (let ((r, bytes), k) = sys_recv os fd (unat len) k
      in ((word_of_int r, bytes, sys_errno os k), k))"

definition native_connect ::
  "('k, 'x, 'm) os_scheme \<Rightarrow> socket_handle \<Rightarrow> 'x \<Rightarrow> sync_result \<Rightarrow> 'k \<Rightarrow> sync_result \<times> 'k" where
  "native_connect os fd addr res k =
     (let (r, k) = sys_connect os fd addr k
      in if - 1 \<noteq> r \<or> sys_errno os k \<noteq> einprogress
         then let res = res\<lparr>sync_is_set := True, sync_succeeded := (0 = r)\<rparr>
              in (if \<not> sync_succeeded res then res\<lparr>sync_error_code := sys_errno os k\<rparr> else res, k)
         else (res, k))"

section \<open>Writing\<close>

type_synonym byte_queue = "char queue"

text \<open>A value-initialised \<open>char\<close>.\<close>

abbreviation no_char :: char where "no_char \<equiv> CHR 0x00"

abbreviation chunk_size :: usize where "chunk_size \<equiv> 2097152"

text \<open>The calls work on the event handler and the bytes that wait.\<close>

type_synonym 'k wire = "'k handler \<times> byte_queue"

definition on_eh :: "('k handler, 'a) call \<Rightarrow> ('k wire, 'a) call" where
  "on_eh = on_part fst (\<lambda>h w. (h, snd w))"

text \<open>A descriptor is registered anew for another task, in the slot it has.\<close>

definition rearm ::
  "('k, 'x, 'm) os_scheme \<Rightarrow> nat \<Rightarrow> socket_handle \<Rightarrow> u64 \<Rightarrow> u64 \<Rightarrow> task \<Rightarrow> task \<Rightarrow> ('k handler, unit) call" where
  "rearm os ev_it fd ev_id eh_id before after =
     then_do (eh_remove os fd eh_id False before True) (\<lambda>_.
     then_do (eh_add os ev_it fd ev_id after True eh_id) (\<lambda>_. give ()))"

definition push_bytes :: "string \<Rightarrow> byte_queue \<Rightarrow> byte_queue result" where
  "push_bytes = fold_res (queue_push no_char)"

definition async_send ::
  "('k, 'x, 'm) os_scheme \<Rightarrow> nat \<Rightarrow> socket_handle \<Rightarrow> u64 \<Rightarrow> u64 \<Rightarrow> string \<Rightarrow> ('k wire, unit) call" where
  "async_send os ev_it fd ev_id eh_id message w =
     then_do (if queue_empty (snd w)
              then on_eh (rearm os ev_it fd ev_id eh_id Task_receive Task_send)
              else give ())
       (\<lambda>_ (h, q). case push_bytes message q of Inl e \<Rightarrow> (Inl e, (h, q)) | Inr q \<Rightarrow> (Inr (), (h, q))) w"

text \<open>The bytes to write at once.\<close>

function send_chunk :: "byte_queue \<Rightarrow> usize \<Rightarrow> string \<Rightarrow> string result" where
  "send_chunk q index buffer =
     (if index \<noteq> end_index q \<and> of_nat (length buffer) < chunk_size
      then case iterator_deref q index of
             Inl e \<Rightarrow> Inl e
           | Inr c \<Rightarrow> send_chunk q (iterator_inc q index) (buffer @ [c])
      else Inr buffer)"
  by pat_completeness auto

termination
  by (relation "measure (\<lambda>(q, index, buffer). unat (end_index q - index))")
     (auto simp: iterator_inc_def intro: word_distance_less)

declare send_chunk.simps [simp del]

primrec pop_bytes :: "nat \<Rightarrow> byte_queue \<Rightarrow> byte_queue result" where
  "pop_bytes 0 q = Inr q"
| "pop_bytes (Suc n) q = (case queue_pop q of Inl e \<Rightarrow> Inl e | Inr q' \<Rightarrow> pop_bytes n q')"

function pop_all :: "byte_queue \<Rightarrow> byte_queue result" where
  "pop_all q =
     (if queue_empty q then Inr q
      else case queue_pop q of Inl e \<Rightarrow> Inl e | Inr q' \<Rightarrow> pop_all q')"
  by pat_completeness auto

termination
  by (relation "measure (\<lambda>q. unat (m_i_size q))")
     (auto simp: queue_pop_def queue_empty_def Let_def unat_minus_one unat_gt_0 split: if_splits)

declare pop_all.simps [simp del]

text \<open>\<open>error_code\<close> is an argument that is left as it is unless the call fails.\<close>

definition native_send ::
  "('k, 'x, 'm) os_scheme \<Rightarrow> nat \<Rightarrow> socket_handle \<Rightarrow> u64 \<Rightarrow> u64 \<Rightarrow> int \<Rightarrow> ('k wire, usize \<times> int) call" where
  "native_send os ev_it fd ev_id eh_id error_code w =
     (let (h, q) = w
      in case send_chunk q (begin_index q) [] of
           Inl e \<Rightarrow> (Inl e, w)
         | Inr buffer \<Rightarrow>
             if buffer = [] then (Inr (0, error_code), w)
             else
               let (r, k) = sys_send os fd buffer (os_state h);
                   h = h\<lparr>os_state := k\<rparr>;
                   errno = sys_errno os k;
                   (res, error_code) =
                     (if - 1 = r \<and> (ewouldblock = errno \<or> eagain = errno) then (0, error_code)
                      else if - 1 = r then (r, errno)
                      else (r, error_code))
               in case (if - 1 \<noteq> res then pop_bytes (unat (word_of_int res :: usize)) q else pop_all q) of
                    Inl e \<Rightarrow> (Inl e, (h, q))
                  | Inr q \<Rightarrow>
                      then_do (if queue_empty q
                               then on_eh (rearm os ev_it fd ev_id eh_id Task_send Task_receive)
                               else give ())
                        (\<lambda>_. give (word_of_int res, error_code)) (h, q))"

section \<open>Facts on the byte queues\<close>

abbreviation byte_limit :: nat where "byte_limit \<equiv> 2 ^ 63"

lemma push_bytes_spec:
  "queue_ok q \<Longrightarrow> queue_used q + length message \<le> byte_limit \<Longrightarrow>
    \<exists>q'. push_bytes message q = Inr q' \<and> queue_ok q' \<and> queue_list q' = queue_list q @ message \<and>
      queue_used q' = queue_used q + length message"
  unfolding push_bytes_def by (rule rq.enq_all)

lemma pop_bytes_replicate: "pop_bytes n q = fold_res (\<lambda>_. queue_pop) (replicate n ()) q"
  by (induction n arbitrary: q) (simp_all split: sum.splits)

lemma pop_bytes_spec:
  "queue_ok q \<Longrightarrow> n \<le> length (queue_list q) \<Longrightarrow>
    \<exists>q'. pop_bytes n q = Inr q' \<and> queue_ok q' \<and> queue_list q' = drop n (queue_list q) \<and>
      queue_used q' = queue_used q"
  unfolding pop_bytes_replicate by (rule rq.deq_many)

lemma pop_all_bytes: "pop_all q = pop_bytes (unat (m_i_size q)) q"
proof (induction "unat (m_i_size q)" arbitrary: q)
  case 0
  then show ?case by (subst pop_all.simps) (simp add: queue_empty_def unat_eq_0)
next
  case (Suc n)
  then have ne: "m_i_size q \<noteq> 0" by auto
  obtain q' where q': "queue_pop q = Inr q'" "m_i_size q' = m_i_size q - 1"
    using ne by (cases "m_i_start q + 1 = vec_size q") (auto simp: queue_pop_def Let_def)
  have "unat (m_i_size q') = n" using Suc.hyps(2) ne by (simp add: q' unat_minus_one)
  with Suc.hyps show ?case
    using ne q' by (subst pop_all.simps) (simp add: queue_empty_def flip: Suc.hyps(2))
qed

lemma pop_all_spec:
  assumes "queue_ok q"
  shows "\<exists>q'. pop_all q = Inr q' \<and> queue_ok q' \<and> queue_list q' = [] \<and> queue_used q' = queue_used q"
  using pop_bytes_spec [OF assms, of "unat (m_i_size q)"] by (simp add: pop_all_bytes)

abbreviation chunk_bytes :: nat where "chunk_bytes \<equiv> 2097152"

lemma chunk_room [simp]:
  "n \<le> chunk_bytes \<Longrightarrow> of_nat n < chunk_size \<longleftrightarrow> n < chunk_bytes"
  by (simp add: word_less_nat_alt unat_of_nat_size)

lemma send_chunk_from:
  assumes "queue_inv q" "j \<le> unat (m_i_size q)" "length buffer \<le> chunk_bytes"
  shows "send_chunk q (begin_index q + of_nat j) buffer =
    Inr (take chunk_bytes (buffer @ drop j (queue_list q)))"
  using assms
proof (induction "unat (m_i_size q) - j" arbitrary: j buffer)
  case 0
  then have "j = unat (m_i_size q)" by simp
  then show ?case
    using 0(4) by (subst send_chunk.simps) (simp add: end_index_begin)
next
  case (Suc d)
  then have j: "j < unat (m_i_size q)" by simp
  have at: "begin_index q + of_nat j \<noteq> end_index q"
    by (rule offset_size(2) [OF j])
  have drop: "drop j (queue_list q) = queue_list q ! j # drop (Suc j) (queue_list q)"
    using j by (simp only: Cons_nth_drop_Suc length_queue_list)
  show ?case
  proof (cases "length buffer < chunk_bytes")
    case False
    then show ?thesis using Suc.prems(3) by (subst send_chunk.simps) simp
  next
    case True
    have "iterator_deref q (begin_index q + of_nat j) = Inr (queue_list q ! j)"
      using at queue_at_begin [OF Suc.prems(1) j] by (simp add: iterator_deref_def)
    moreover have "iterator_inc q (begin_index q + of_nat j) = begin_index q + of_nat (Suc j)"
      using at by (simp add: iterator_inc_def)
    moreover have "send_chunk q (begin_index q + of_nat (Suc j)) (buffer @ [queue_list q ! j]) =
        Inr (take chunk_bytes ((buffer @ [queue_list q ! j]) @ drop (Suc j) (queue_list q)))"
      using Suc.hyps(2) Suc.prems j True by (intro Suc.hyps(1)) auto
    moreover have "(of_nat (length buffer) :: usize) < chunk_size" using True by simp
    ultimately show ?thesis
      using at drop by (subst send_chunk.simps) (simp only: if_True simp_thms sum.case append_assoc append.simps)
  qed
qed

lemma send_chunk_spec:
  "queue_inv q \<Longrightarrow> send_chunk q (begin_index q) [] = Inr (take chunk_bytes (queue_list q))"
  using send_chunk_from [of q 0 "[]"] by simp

section \<open>Facts on the slot of a channel\<close>

text \<open>Registering a descriptor for another task: its slot stays, or it is closed.\<close>

lemma rearm_effect:
  assumes inv: "eh_inv h" and run: "rearm os it fd ev_id eid before after h = (r, h')"
  shows "eh_inv h' \<and> eh_fresh h' = eh_fresh h \<and>
    (case r of
       Inl e \<Rightarrow> is_exception e \<and> eh_live h' = (eh_live h)(unat eid := None)
     | Inr _ \<Rightarrow> unat eid \<in> dom (eh_live h) \<and>
         eh_live h' = (eh_live h)(unat eid \<mapsto> event_slot_of ev_id it))"
proof -
  obtain r1 h1 where rem: "eh_remove os fd eid False before True h = (r1, h1)" by fastforce
  note gone = eh_remove_effect [OF inv rem]
  show ?thesis
  proof (cases r1)
    case (Inl e)
    then have "r = Inl e" "h' = h1" using run rem by (simp_all add: rearm_def)
    then show ?thesis using gone Inl by auto
  next
    case (Inr u)
    obtain sl where kept: "table_view (ids h1) (unat eid) = Some sl"
      using eh_remove_keep [OF inv] rem Inr by blast
    have live1: "unat eid \<in> dom (eh_live h)" "eh_live h1 = (eh_live h)(unat eid := None)"
      using gone Inr by simp_all
    then have "eh_live h1 (unat eid) = None" by simp
    then have closed: "es_closed sl" using kept by (simp add: eh_live_def table_live_def split: if_splits)
    obtain r2 h2 where add: "eh_add os it fd ev_id after True eid h1 = (r2, h2)" by fastforce
    have inv1: "eh_inv h1" using gone by simp
    have "(r = Inl e \<and> r2 = Inl e \<or> r = Inr () \<and> (\<exists>i. r2 = Inr i)) \<and> h' = h2"
      if "r2 = Inl e \<or> (\<exists>i. r2 = Inr i)" for e
      using run rem Inr add that by (cases r2) (auto simp: rearm_def give_def)
    then show ?thesis
      using eh_add_reuse [OF inv1 kept closed add] gone live1 by (cases r2) auto
  qed
qed

section \<open>The bytes of a connection stay in order\<close>

lemma async_send_effect:
  assumes inv: "eh_inv h" and ok: "queue_ok q" "queue_used q + length message \<le> byte_limit"
    and run: "async_send os it fd ev_id eid message (h, q) = (r, (h', q'))"
  shows "eh_inv h' \<and> eh_fresh h' = eh_fresh h \<and>
    (case r of
       Inl e \<Rightarrow> is_exception e \<and> q' = q \<and> eh_live h' = (eh_live h)(unat eid := None)
     | Inr _ \<Rightarrow> queue_ok q' \<and> queue_list q' = queue_list q @ message \<and>
         queue_used q' = queue_used q + length message \<and>
         (if queue_list q = [] then unat eid \<in> dom (eh_live h) \<and>
            eh_live h' = (eh_live h)(unat eid \<mapsto> event_slot_of ev_id it)
          else eh_live h' = eh_live h))"
proof -
  obtain q1 where q1: "push_bytes message q = Inr q1" "queue_ok q1" "queue_list q1 = queue_list q @ message"
      "queue_used q1 = queue_used q + length message"
    using push_bytes_spec [OF ok] by blast
  show ?thesis
  proof (cases "queue_empty q")
    case False
    then show ?thesis
      using run q1 inv by (auto simp: async_send_def give_def queue_empty_def)
  next
    case True
    obtain r1 h1 where arm: "rearm os it fd ev_id eid Task_receive Task_send h = (r1, h1)" by fastforce
    have "r = (case r1 of Inl e \<Rightarrow> Inl e | Inr _ \<Rightarrow> Inr ()) \<and> h' = h1 \<and> q' = (case r1 of Inl _ \<Rightarrow> q | Inr _ \<Rightarrow> q1)"
      using run arm q1(1) True by (cases r1) (auto simp: async_send_def on_eh_def on_part_def then_do_def)
    then show ?thesis
      using rearm_effect [OF inv arm] q1 True by (auto simp: queue_empty_def split: sum.splits)
  qed
qed

text \<open>The contract of \<open>send\<close>: it fails with \<open>-1\<close>, or takes a part of the buffer.\<close>

definition send_contract :: "('k, 'x, 'm) os_scheme \<Rightarrow> bool" where
  "send_contract os \<longleftrightarrow> (\<forall>fd buffer k. case sys_send os fd buffer k of
     (r, k') \<Rightarrow> r = - 1 \<or> (0 \<le> r \<and> r \<le> int (length buffer)))"

text \<open>The bytes the system takes from a connection when it is written to.\<close>

definition accepted :: "('k, 'x, 'm) os_scheme \<Rightarrow> socket_handle \<Rightarrow> 'k wire \<Rightarrow> string" where
  "accepted os fd w =
     (case send_chunk (snd w) (begin_index (snd w)) [] of
        Inl e \<Rightarrow> []
      | Inr buffer \<Rightarrow>
          if buffer = [] then [] else take (nat (fst (sys_send os fd buffer (os_state (fst w))))) buffer)"

lemma native_send_effect:
  assumes inv: "eh_inv h" and ok: "queue_ok q" and contract: "send_contract os"
    and run: "native_send os it fd ev_id eid error_code (h, q) = (r, (h', q'))"
  shows "eh_inv h' \<and> eh_fresh h' = eh_fresh h \<and> queue_ok q' \<and> queue_used q' = queue_used q \<and>
    (case r of
       Inl e \<Rightarrow> is_exception e \<and> eh_live h' = (eh_live h)(unat eid := None)
     | Inr (res, _) \<Rightarrow>
         (if res = - 1 then queue_list q' = [] else accepted os fd (h, q) @ queue_list q' = queue_list q) \<and>
         (eh_live h' = eh_live h \<or> unat eid \<in> dom (eh_live h) \<and>
            eh_live h' = (eh_live h)(unat eid \<mapsto> event_slot_of ev_id it)))"
proof -
  define buffer where "buffer = take chunk_bytes (queue_list q)"
  have chunk: "send_chunk q (begin_index q) [] = Inr buffer"
    using ok by (simp add: queue_ok_def send_chunk_spec buffer_def)
  show ?thesis
  proof (cases "buffer = []")
    case True
    then have "r = Inr (0, error_code)" "h' = h" "q' = q"
      using run chunk by (simp_all add: native_send_def)
    moreover have "accepted os fd (h, q) = []"
      using True chunk by (simp add: accepted_def)
    ultimately have "r = Inr (0, error_code)" "h' = h" "q' = q" "accepted os fd (h, q) = []"
      by simp_all
    then show ?thesis using inv ok by simp
  next
    case False
    obtain n k where sent: "sys_send os fd buffer (os_state h) = (n, k)" by fastforce
    have "case sys_send os fd buffer (os_state h) of (r, k') \<Rightarrow> r = - 1 \<or> (0 \<le> r \<and> r \<le> int (length buffer))"
      using contract unfolding send_contract_def by (elim allE)
    then have n: "n = - 1 \<or> (0 \<le> n \<and> n \<le> int (length buffer))" by (simp add: sent)
    have acc: "accepted os fd (h, q) = take (nat n) buffer"
      using False chunk by (simp add: accepted_def sent)
    define blocked where "blocked \<longleftrightarrow> n = - 1 \<and> sys_errno os k = eagain"
    define res where "res = (if blocked then 0 else n)"
    have small: "length buffer \<le> chunk_bytes" by (simp add: buffer_def)
    have res: "res = - 1 \<or> (0 \<le> res \<and> res \<le> int (length buffer) \<and> take (nat n) buffer = take (nat res) buffer)"
      using n by (auto simp: res_def blocked_def)
    have word: "unat (word_of_int res :: usize) = nat res" "word_of_int res \<noteq> (- 1 :: usize)" if "res \<noteq> - 1"
    proof -
      have le: "0 \<le> res" "res < 2 ^ 22" using res that small by auto
      then have u: "uint (word_of_int res :: usize) = res"
        by (simp add: uint_word_of_int)
      then show "unat (word_of_int res :: usize) = nat res" by (simp add: unat_eq_nat_uint)
      show "word_of_int res \<noteq> (- 1 :: usize)"
      proof
        assume "word_of_int res = (- 1 :: usize)"
        then have "uint (word_of_int res :: usize) = uint (- 1 :: usize)" by (rule arg_cong)
        also have "\<dots> = 2 ^ 64 - 1" by (simp add: unsigned_minus_1_eq_mask mask_eq_exp_minus_1)
        finally show False using u le by simp
      qed
    qed
    obtain q1 where q1: "(if - 1 \<noteq> res then pop_bytes (unat (word_of_int res :: usize)) q else pop_all q) = Inr q1"
        "queue_ok q1" "queue_used q1 = queue_used q" "queue_list q1 = (if res = - 1 then [] else drop (nat res) (queue_list q))"
    proof (cases "res = - 1")
      case True
      then show ?thesis using pop_all_spec [OF ok] that by auto
    next
      case False
      have "length buffer \<le> length (queue_list q)" by (simp add: buffer_def)
      then have "nat res \<le> length (queue_list q)" using res False by linarith
      then show ?thesis using pop_bytes_spec [OF ok] that False word by auto
    qed
    let ?h1 = "h\<lparr>os_state := k\<rparr>"
    have inv1: "eh_inv ?h1" and same1: "eh_live ?h1 = eh_live h" "eh_fresh ?h1 = eh_fresh h"
      using inv by (simp_all add: eh_inv_def eh_live_def eh_fresh_def)
    obtain ec where rest: "then_do (if queue_empty q1 then on_eh (rearm os it fd ev_id eid Task_send Task_receive) else give ())
          (\<lambda>_. give (word_of_int res :: usize, ec)) (?h1, q1) = (r, (h', q'))"
    proof
      show "then_do (if queue_empty q1 then on_eh (rearm os it fd ev_id eid Task_send Task_receive) else give ())
          (\<lambda>_. give (word_of_int res :: usize, if n = - 1 \<and> \<not> blocked then sys_errno os k else error_code)) (?h1, q1) = (r, (h', q'))"
        using run chunk False q1(1) unfolding res_def blocked_def
        by (auto simp: native_send_def sent Let_def split: if_splits)
    qed
    have bytes: "if word_of_int res = (- 1 :: usize) then queue_list q1 = []
        else accepted os fd (h, q) @ queue_list q1 = queue_list q"
    proof (cases "res = - 1")
      case True
      then show ?thesis using q1(4) by simp
    next
      case False
      then have "nat res \<le> chunk_bytes" "take (nat n) buffer = take (nat res) buffer"
        using res small by linarith+
      then have "take (nat n) buffer @ drop (nat res) (queue_list q) = queue_list q"
        by (simp add: buffer_def min_def)
      then show ?thesis using False word(2) q1(4) by (simp add: acc)
    qed
    show ?thesis
    proof (cases "queue_empty q1")
      case False
      then have "r = Inr (word_of_int res, ec)" "h' = ?h1" "q' = q1"
        using rest by (simp_all add: give_def then_do_def)
      then show ?thesis using inv1 same1 q1(2,3) bytes by simp
    next
      case True
      obtain r1 h1 where arm: "rearm os it fd ev_id eid Task_send Task_receive ?h1 = (r1, h1)" by fastforce
      have "r = (case r1 of Inl e \<Rightarrow> Inl e | Inr _ \<Rightarrow> Inr (word_of_int res, ec)) \<and> h' = h1 \<and> q' = q1"
        using rest arm True by (cases r1) (auto simp: on_eh_def on_part_def then_do_def give_def)
      then show ?thesis
        using rearm_effect [OF inv1 arm] q1(2,3) bytes same1 by (auto split: sum.splits)
    qed
  qed
qed

text \<open>A connection that is written to and flushed, with the bytes that the system took.\<close>

datatype wire_op = Op_send string | Op_flush

fun wire_step ::
  "('k, 'x, 'm) os_scheme \<Rightarrow> nat \<Rightarrow> socket_handle \<Rightarrow> u64 \<Rightarrow> u64 \<Rightarrow> wire_op
     \<Rightarrow> 'k wire \<times> string \<Rightarrow> ('k wire \<times> string) result" where
  "wire_step os it fd ev_id eid (Op_send message) (w, out) =
     (case async_send os it fd ev_id eid message w of
        (Inl e, _) \<Rightarrow> Inl e
      | (Inr _, w') \<Rightarrow> Inr (w', out))"
| "wire_step os it fd ev_id eid Op_flush (w, out) =
     (case native_send os it fd ev_id eid 0 w of
        (Inl e, _) \<Rightarrow> Inl e
      | (Inr (res, error_code), w') \<Rightarrow>
          if res = - 1 then Inl (Runtime_error ''send'') else Inr (w', out @ accepted os fd w))"

fun written :: "wire_op list \<Rightarrow> string" where
  "written [] = []"
| "written (Op_send message # ops) = message @ written ops"
| "written (Op_flush # ops) = written ops"

lemma wire_run:
  assumes "eh_inv h" "queue_ok q" "send_contract os" "queue_used q + length (written ops) \<le> byte_limit"
    and "fold_res (wire_step os it fd ev_id eid) ops ((h, q), out) = Inr ((h', q'), out')"
  shows "out' @ queue_list q' = out @ queue_list q @ written ops"
  using assms
proof (induction ops arbitrary: h q out)
  case (Cons op ops)
  obtain h1 q1 out1 where step: "wire_step os it fd ev_id eid op ((h, q), out) = Inr ((h1, q1), out1)"
      and rest: "fold_res (wire_step os it fd ev_id eid) ops ((h1, q1), out1) = Inr ((h', q'), out')"
    using Cons.prems(5) by (auto split: sum.splits)
  show ?case
  proof (cases op)
    case (Op_send message)
    have run: "async_send os it fd ev_id eid message (h, q) = (Inr (), (h1, q1))" "out1 = out"
      using step Op_send by (auto split: prod.splits sum.splits)
    have room: "queue_used q + length message \<le> byte_limit"
      using Cons.prems(4) Op_send by simp
    have "eh_inv h1" "queue_ok q1" "queue_list q1 = queue_list q @ message" "queue_used q1 = queue_used q + length message"
      using async_send_effect [OF Cons.prems(1,2) room run(1)] by simp_all
    then show ?thesis
      using Cons.IH [OF _ _ Cons.prems(3) _ rest] Cons.prems(4) run(2) Op_send by simp
  next
    case Op_flush
    obtain res ec where run: "native_send os it fd ev_id eid 0 (h, q) = (Inr (res, ec), (h1, q1))" "res \<noteq> - 1"
        "out1 = out @ accepted os fd (h, q)"
      using step Op_flush by (auto split: prod.splits sum.splits if_splits)
    have "eh_inv h1" "queue_ok q1" "queue_used q1 = queue_used q" "accepted os fd (h, q) @ queue_list q1 = queue_list q"
      using native_send_effect [OF Cons.prems(1-3) run(1)] run(2) by simp_all
    then show ?thesis
      using Cons.IH [OF _ _ Cons.prems(3) _ rest] Cons.prems(4) run(3) Op_flush by simp
  qed
qed simp

text \<open>C8: a connection is a FIFO of bytes: whatever is sent and flushed, and however many bytes the
  system takes at a time, what it took followed by what still waits is what was waiting
  at first followed by the messages that were sent.\<close>

theorem wire_fifo:
  assumes "eh_inv h" "queue_ok q" "send_contract os" "queue_used q + length (written ops) \<le> byte_limit"
    and "fold_res (wire_step os it fd ev_id eid) ops ((h, q), []) = Inr ((h', q'), out)"
  shows "out @ queue_list q' = queue_list q @ written ops"
  using wire_run [OF assms] by simp

text \<open>A system that takes two bytes at a time.\<close>

definition slow_os :: "(nat, string) os" where
  "slow_os = quiet_os\<lparr>sys_send := (\<lambda>_ s k. (min 2 (int (length s)), k))\<rparr>"

theorem wire_fifo_witness:
  "\<exists>h' q' out. fold_res (wire_step slow_os 1 7 0 0) [Op_send ''abc'', Op_flush, Op_send ''d'', Op_flush]
      ((example_slot, no_queue), []) = Inr ((h', q'), out) \<and> out @ queue_list q' = ''abcd''"
proof -
  have "isl (fold_res (wire_step slow_os 1 7 0 0) [Op_send ''abc'', Op_flush, Op_send ''d'', Op_flush]
      ((example_slot, no_queue), [])) = False"
    by code_simp
  then obtain h' q' out where run: "fold_res (wire_step slow_os 1 7 0 0)
      [Op_send ''abc'', Op_flush, Op_send ''d'', Op_flush] ((example_slot, no_queue), []) = Inr ((h', q'), out)"
    by (metis isl_def obj_sumE surj_pair)
  have "send_contract slow_os" by (simp add: send_contract_def slow_os_def quiet_os_def)
  from wire_fifo [OF example_slot_inv _ this _ run] run show ?thesis by auto
qed

end
