(* ===== verification/Ip_Address.thy ===== *)
theory Ip_Address
  imports Strings Numbers
begin

text \<open>
  The address of a socket, \<open>ip_destination\<close> and \<open>ip_address\<close> of
  \<open>src/belt.pp/isocket.hpp\<close>, with their textual form, and the identifiers of peers
  (\<open>construct_peer_id\<close>, \<open>parse_peer_id\<close> of \<open>src/libsocket/socket.cpp\<close>), which hold
  such an address behind the number of a channel.
\<close>

section \<open>Addresses\<close>

record ip_destination =
  address :: string
  port :: u16

definition ip_destination_new :: ip_destination where
  "ip_destination_new = \<lparr>address = [], port = 0\<rparr>"

definition destination_empty :: "ip_destination \<Rightarrow> bool" where
  "destination_empty d = (port d = 0 \<or> address d = [])"

definition destination_eq :: "ip_destination \<Rightarrow> ip_destination \<Rightarrow> bool" where
  "destination_eq d other = (address d = address other \<and> port d = port other)"

datatype ip_type = Any | Ipv4 | Ipv6

record ip_address =
  ip_type :: ip_type
  local_dest :: ip_destination
  remote_dest :: ip_destination

definition ip_address_new :: ip_address where
  "ip_address_new = \<lparr>ip_type = Any, local_dest = ip_destination_new, remote_dest = ip_destination_new\<rparr>"

definition ip_address_eq :: "ip_address \<Rightarrow> ip_address \<Rightarrow> bool" where
  "ip_address_eq a other = (destination_eq (local_dest a) (local_dest other) \<and>
     destination_eq (remote_dest a) (remote_dest other) \<and> ip_type a = ip_type other)"

definition ip_to_string_dest :: "ip_address \<Rightarrow> string" where
  "ip_to_string_dest a =
     (if destination_empty (local_dest a) then []
      else let (op, cl) = (case ip_type a of Ipv6 \<Rightarrow> (''['', '']'') | Any \<Rightarrow> (''{'', ''}'') | Ipv4 \<Rightarrow> ([], []))
           in op @ address (local_dest a) @ cl @ '':'' @ to_string (unat (port (local_dest a))))"

text \<open>The holder of the remote address has no remote address of its own, so the call the code
  makes on it ends after one step.\<close>

definition ip_to_string :: "ip_address \<Rightarrow> string" where
  "ip_to_string a =
     (let local_holder = ip_address_new\<lparr>local_dest := local_dest a, ip_type := ip_type a\<rparr>;
          remote_holder = ip_address_new\<lparr>local_dest := remote_dest a, ip_type := ip_type a\<rparr>
      in ip_to_string_dest local_holder @
         (if \<not> destination_empty (remote_dest a) then ''<=>'' @ ip_to_string_dest remote_holder else []))"

definition error_help :: "string \<Rightarrow> string" where
  "error_help val = ''cannot parse \"'' @ val @
     ''\". use host_name::port [or [host_name]::port for ipv6 [or {host_name}::port for any]] to specify ip address''"

text \<open>\<open>value.substr(1, colon_index - 2)\<close>: the difference is of type \<open>size_t\<close>, and wraps.\<close>

definition ip_from_string_dest :: "string \<Rightarrow> ip_address \<Rightarrow> ip_address result" where
  "ip_from_string_dest val self =
     (let op_bracket = string_find val ''['' 0;
          cl_bracket = string_find val '']'' 0;
          op_brace = string_find val ''{'' 0;
          cl_brace = string_find val ''}'' 0;
          bracket = (if op_bracket = Some 0 \<and> cl_bracket \<noteq> None then cl_bracket else None);
          brace = (if op_brace = Some 0 \<and> cl_brace \<noteq> None then cl_brace else None);
          scope = (if brace \<noteq> None then brace else bracket);
          type = (if brace \<noteq> None then Any else if bracket \<noteq> None then Ipv6 else Ipv4)
      in
      if brace = None \<and> (op_brace \<noteq> None \<or> cl_brace \<noteq> None)
      then Inl (Runtime_error (error_help val))
      else if bracket = None \<and> (op_bracket \<noteq> None \<or> cl_bracket \<noteq> None)
      then Inl (Runtime_error (error_help val))
      else case (case scope of None \<Rightarrow> string_find val '':'' 0 | Some i \<Rightarrow> string_find val '':'' i) of
        None \<Rightarrow> Inl (Runtime_error (error_help val))
      | Some colon \<Rightarrow>
          let str_host = (case scope of
                            None \<Rightarrow> string_substr val 0 colon
                          | Some _ \<Rightarrow> string_substr val 1 (unat (of_nat colon - 2 :: usize)));
              str_port = string_substr val (colon + 1) (length val);
              (p, end_pos) = stoui16 str_port
          in if end_pos \<noteq> length str_port
             then Inl (Runtime_error (''cannot parse \"'' @ str_port @ ''\". ip port must be uint16''))
             else Inr (self\<lparr>ip_type := type, local_dest := \<lparr>address = str_host, port = p\<rparr>\<rparr>))"

text \<open>
  \<open>from_string\<close>: the answer and the object. The holders are local, so a text that cannot be
  parsed leaves the object; a bundle that mixes the families has reset its type already.
\<close>

definition ip_from_string :: "string \<Rightarrow> ip_address \<Rightarrow> unit result \<times> ip_address" where
  "ip_from_string val self =
     (case string_find val ''<=>'' 0 of
        Some delimiter \<Rightarrow>
          (case ip_from_string_dest (string_substr val 0 delimiter) ip_address_new of
             Inl e \<Rightarrow> (Inl e, self)
           | Inr l \<Rightarrow>
               (case ip_from_string_dest (string_substr val (delimiter + 3) (length val)) ip_address_new of
                  Inl e \<Rightarrow> (Inl e, self)
                | Inr r \<Rightarrow>
                    let six = (ip_type l = Ipv6 \<or> ip_type r = Ipv6);
                        four = (ip_type l = Ipv4 \<or> ip_type r = Ipv4)
                    in if six \<and> four
                       then (Inl (Runtime_error ''cannot mix ip4 and ip6 addresses in a bundle''),
                             self\<lparr>ip_type := Any\<rparr>)
                       else (Inr (), self\<lparr>ip_type := (if four then Ipv4 else if six then Ipv6 else Any),
                               local_dest := local_dest l, remote_dest := local_dest r\<rparr>)))
      | None \<Rightarrow>
          (case ip_from_string_dest val ip_address_new of
             Inl e \<Rightarrow> (Inl e, self)
           | Inr l \<Rightarrow> (Inr (), l)))"

section \<open>Peers\<close>

definition construct_peer_id :: "u64 \<Rightarrow> ip_address \<Rightarrow> string" where
  "construct_peer_id cid socket_bundle = to_string (unat cid) @ ''<=>'' @ ip_to_string socket_bundle"

definition parse_peer_id :: "string \<Rightarrow> u64 result" where
  "parse_peer_id peer_id =
     (case string_find peer_id ''<=>'' 0 of
        None \<Rightarrow> Inl (Runtime_error ''parse_peer_id'')
      | Some pos \<Rightarrow>
          let (cid, parse_end) = stoui64 peer_id
          in if parse_end \<noteq> pos then Inl (Runtime_error ''parse_peer_id'') else Inr cid)"

section \<open>Facts\<close>

lemma string_find_word:
  assumes "c \<notin> set xs"
  shows "string_find (xs @ (c # w) @ rest) (c # w) 0 = Some (length xs)"
proof -
  have "\<not> prefix (c # w) (drop j (xs @ (c # w) @ rest))" if "j < length xs" for j
  proof -
    have "drop j (xs @ (c # w) @ rest) = xs ! j # drop (Suc j) xs @ (c # w) @ rest"
      using that by (simp add: Cons_nth_drop_Suc flip: append_Cons)
    moreover have "xs ! j \<noteq> c" using assms that by (metis nth_mem)
    ultimately show ?thesis by simp
  qed
  then show ?thesis by (simp add: string_find_Some)
qed

lemma string_find_absent:
  assumes "c \<notin> set xs"
  shows "string_find xs (c # w) i = None"
proof -
  have "\<not> prefix (c # w) (drop j xs)" for j
  proof
    assume "prefix (c # w) (drop j xs)"
    then have "c \<in> set (drop j xs)" by (auto simp: prefix_def)
    with assms show False by (auto dest: in_set_dropD)
  qed
  then show ?thesis by (simp add: string_find_None)
qed

lemma number_avoids:
  "\<not> (48 \<le> char_code c \<and> char_code c \<le> 57) \<Longrightarrow> c \<notin> set (to_string n)"
  by (auto dest!: to_string_digits)

lemma peer_id_parses [result_simps]: "parse_peer_id (construct_peer_id cid b) = Inr cid"
proof -
  have find: "string_find (construct_peer_id cid b) ''<=>'' 0 = Some (length (to_string (unat cid)))"
    using string_find_word [of "CHR ''<''" "to_string (unat cid)" "''=>''" "ip_to_string b"]
    by (simp add: construct_peer_id_def number_avoids)
  have "number_ends (''<=>'' @ ip_to_string b)"
    by (simp add: number_ends_def digit_val_def)
  then have "stoui64 (construct_peer_id cid b) = (cid, length (to_string (unat cid)))"
    using stoui64_to_string [of "unat cid" "''<=>'' @ ip_to_string b"] unat_less_size [of cid]
    by (simp add: construct_peer_id_def)
  with find show ?thesis by (simp add: parse_peer_id_def)
qed


definition good_host :: "ip_type \<Rightarrow> string \<Rightarrow> bool" where
  "good_host t h \<longleftrightarrow> h \<noteq> [] \<and> length h < 2 ^ 64 \<and> set h \<inter> set ''[]{}<'' = {} \<and> (t = Ipv4 \<longrightarrow> CHR '':'' \<notin> set h)"

lemma stoui16_to_string [result_simps]: "stoui16 (to_string (unat p)) = (p, length (to_string (unat p)))"
proof -
  have p: "unat p < 2 ^ 16" using unsigned_less [of p] by simp
  then have "stoui64 (to_string (unat p)) = (of_nat (unat p), length (to_string (unat p)))"
    using stoui64_to_string [of "unat p" "[]"] by (simp add: number_ends_def)
  moreover have "(of_nat (unat p) :: u64) = ucast p" by simp
  moreover have "(ucast (ucast p :: u64) :: u16) = p" by (simp add: ucast_up_ucast_id is_up)
  ultimately show ?thesis by (simp add: stoui16_def)
qed

lemma string_find_here: "string_find (c # xs) [c] 0 = Some 0"
  by (simp add: string_find_Some)

lemma string_find_after:
  "c \<notin> set xs \<Longrightarrow> length pre = i \<Longrightarrow> string_find (pre @ xs @ c # rest) [c] i = Some (i + length xs)"
  by (rule string_find_char)

lemma destination_parses:
  assumes h: "good_host t h" and p: "p \<noteq> 0"
  shows "ip_from_string_dest (ip_to_string_dest \<lparr>ip_type = t, local_dest = \<lparr>address = h, port = p\<rparr>,
      remote_dest = r\<rparr>) self = Inr (self\<lparr>ip_type := t, local_dest := \<lparr>address = h, port = p\<rparr>\<rparr>)"
proof -
  define num where "num = to_string (unat p)"
  have num: "c \<notin> set num" if "c \<in> set ''[]{}:''" for c
    using that by (auto simp: num_def number_avoids)
  have port: "stoui16 num = (p, length num)" by (simp add: num_def stoui16_to_string)
  have host: "c \<notin> set h" if "c \<in> set ''[]{}''" for c
    using h that by (auto simp: good_host_def)
  have wrapped: "ip_from_string_dest (op # h @ cl # '':'' @ num) self =
      Inr (self\<lparr>ip_type := t, local_dest := \<lparr>address = h, port = p\<rparr>\<rparr>)"
    if "op = CHR ''['' \<and> cl = CHR '']'' \<and> t = Ipv6 \<or> op = CHR ''{'' \<and> cl = CHR ''}'' \<and> t = Any" for op cl
  proof -
    let ?v = "op # h @ cl # '':'' @ num"
    have find_cl: "string_find ?v [cl] 0 = Some (Suc (length h))"
      using string_find_char [of cl "op # h" "[]" 0 "'':'' @ num"] that host by auto
    have colon: "string_find ?v '':'' (Suc (length h)) = Some (Suc (Suc (length h)))"
      using string_find_char [of "CHR '':''" "[cl]" "op # h" "Suc (length h)" num] that by auto
    have none: "string_find ?v [c] 0 = None" if "c \<in> set ''[]{}''" "c \<noteq> op" "c \<noteq> cl" for c
      using that host num by (intro string_find_absent) auto
    have substr: "string_substr ?v (Suc 0) (unat (of_nat (Suc (Suc (length h))) - 2 :: usize)) = h"
    proof -
      have "(of_nat (Suc (Suc (length h))) - 2 :: usize) = of_nat (length h)" by simp
      then show ?thesis
        using h by (simp only: unat_of_nat_size good_host_def) (simp add: string_substr_def)
    qed
    have tail: "string_substr ?v (Suc (Suc (length h)) + 1) (length ?v) = num"
      by (simp add: string_substr_def)
    note here = string_find_here [of op "h @ cl # '':'' @ num"]
    show ?thesis
      using that
    proof (elim disjE conjE)
      assume t: "op = CHR ''[''" "cl = CHR '']''" "t = Ipv6"
      have f: "string_find ?v ''['' 0 = Some 0" "string_find ?v '']'' 0 = Some (Suc (length h))"
          "string_find ?v ''{'' 0 = None" "string_find ?v ''}'' 0 = None"
        using here find_cl none t by simp_all
      show ?thesis
        unfolding ip_from_string_dest_def Let_def f using colon substr tail port t by simp
    next
      assume t: "op = CHR ''{''" "cl = CHR ''}''" "t = Any"
      have f: "string_find ?v ''{'' 0 = Some 0" "string_find ?v ''}'' 0 = Some (Suc (length h))"
          "string_find ?v ''['' 0 = None" "string_find ?v '']'' 0 = None"
        using here find_cl none t by simp_all
      show ?thesis
        unfolding ip_from_string_dest_def Let_def f using colon substr tail port t by simp
    qed
  qed
  have plain: "ip_from_string_dest (h @ '':'' @ num) self =
      Inr (self\<lparr>ip_type := t, local_dest := \<lparr>address = h, port = p\<rparr>\<rparr>)" if "t = Ipv4"
  proof -
    have "string_find (h @ '':'' @ num) [c] 0 = None" if "c \<in> set ''[]{}''" for c
      using that host num by (intro string_find_absent) auto
    moreover have "string_find (h @ '':'' @ num) '':'' 0 = Some (length h)"
      using string_find_char [of "CHR '':''" h "[]" 0 num] h that by (simp add: good_host_def)
    ultimately show ?thesis
      using that port by (simp add: ip_from_string_dest_def Let_def string_substr_def)
  qed
  show ?thesis
    using h p wrapped plain
    by (cases t) (auto simp: ip_to_string_dest_def destination_empty_def good_host_def num_def)
qed


lemma destination_text_avoids:
  assumes "good_host t h" "c = CHR ''<''"
  shows "c \<notin> set (ip_to_string_dest \<lparr>ip_type = t, local_dest = \<lparr>address = h, port = p\<rparr>, remote_dest = r\<rparr>)"
  using assms
  by (auto simp: ip_to_string_dest_def good_host_def number_avoids split: ip_type.splits)

text \<open>C29: an address is read back from its text: the local destination alone, or the bundle of
  both, whatever the object held before.\<close>

theorem ip_address_roundtrip:
  assumes "good_host (ip_type a) (address (local_dest a))" "port (local_dest a) \<noteq> 0"
    and "remote_dest a = ip_destination_new \<or>
      good_host (ip_type a) (address (remote_dest a)) \<and> port (remote_dest a) \<noteq> 0"
  shows "ip_from_string (ip_to_string a) self = (Inr (), a)"
proof -
  obtain t h p rh rp where a: "a = \<lparr>ip_type = t, local_dest = \<lparr>address = h, port = p\<rparr>,
      remote_dest = \<lparr>address = rh, port = rp\<rparr>\<rparr>"
    by (metis (full_types) ip_address.surjective ip_destination.surjective old.unit.exhaust)
  define l where "l = ip_to_string_dest \<lparr>ip_type = t, local_dest = \<lparr>address = h, port = p\<rparr>,
      remote_dest = ip_destination_new\<rparr>"
  define r where "r = ip_to_string_dest \<lparr>ip_type = t, local_dest = \<lparr>address = rh, port = rp\<rparr>,
      remote_dest = ip_destination_new\<rparr>"
  have host: "good_host t h" "p \<noteq> 0" using assms a by simp_all
  have pl: "ip_from_string_dest l self = Inr (self\<lparr>ip_type := t, local_dest := \<lparr>address = h, port = p\<rparr>\<rparr>)" for self
    unfolding l_def by (rule destination_parses [OF host])
  have avoid: "CHR ''<'' \<notin> set l"
    using destination_text_avoids [OF host(1) refl] by (simp add: l_def)
  show ?thesis
  proof (cases "rp = 0 \<or> rh = []")
    case True
    then have "\<lparr>address = rh, port = rp\<rparr> = ip_destination_new"
      using assms(3) a by (auto simp: good_host_def ip_destination_new_def)
    moreover have "ip_to_string a = l"
      using True by (simp add: a l_def ip_to_string_def destination_empty_def ip_address_new_def Let_def)
    moreover have "string_find l ''<=>'' 0 = None"
      using avoid by (rule string_find_absent)
    ultimately show ?thesis
      using pl by (simp add: ip_from_string_def a ip_address_new_def)
  next
    case False
    then have rhost: "good_host t rh" "rp \<noteq> 0"
      using assms(3) a by (auto simp: ip_destination_new_def)
    have pr: "ip_from_string_dest r self = Inr (self\<lparr>ip_type := t, local_dest := \<lparr>address = rh, port = rp\<rparr>\<rparr>)" for self
      unfolding r_def by (rule destination_parses [OF rhost])
    have shown: "ip_to_string a = l @ ''<=>'' @ r"
      using False by (simp add: a l_def r_def ip_to_string_def destination_empty_def ip_address_new_def Let_def)
    have "string_find (ip_to_string a) ''<=>'' 0 = Some (length l)"
      using string_find_word [OF avoid, of "''=>''" r] by (simp add: shown)
    moreover have "string_substr (ip_to_string a) 0 (length l) = l"
      "string_substr (ip_to_string a) (length l + 3) (length (ip_to_string a)) = r"
      by (simp_all add: shown string_substr_def)
    ultimately show ?thesis
      using pl pr by (cases t) (simp_all add: ip_from_string_def a Let_def)
  qed
qed

theorem ip_address_roundtrip_witness:
  "ip_from_string (ip_to_string \<lparr>ip_type = Ipv6, local_dest = \<lparr>address = ''::1'', port = 80\<rparr>,
      remote_dest = \<lparr>address = ''fe80::2'', port = 9000\<rparr>\<rparr>) ip_address_new =
    (Inr (), \<lparr>ip_type = Ipv6, local_dest = \<lparr>address = ''::1'', port = 80\<rparr>,
      remote_dest = \<lparr>address = ''fe80::2'', port = 9000\<rparr>\<rparr>)"
  by (rule ip_address_roundtrip) (simp_all add: good_host_def)


text \<open>The identifier of a peer gives back the number of its channel, whatever the address
  behind it.\<close>

theorem peer_id_roundtrip: "parse_peer_id (construct_peer_id cid socket_bundle) = Inr cid"
  by (rule peer_id_parses)

end
