(* ===== verification/Socket_Address.thy ===== *)
theory Socket_Address
  imports Native_Socket Ip_Address
begin

text \<open>
  The addresses of sockets and the making of descriptors (the functions of namespace \<open>detail\<close>
  in \<open>src/libsocket/socket.cpp\<close>): reading the addresses of a connection, looking a name up,
  and making one descriptor per address found. Freeing a list of addresses is left out.
\<close>

section \<open>The address of a connection\<close>

abbreviation af_unspec :: int where "af_unspec \<equiv> 0"
abbreviation af_inet :: int where "af_inet \<equiv> 2"
abbreviation af_inet6 :: int where "af_inet6 \<equiv> 10"

definition dumpaddr :: "('k, 'x, 'm) os_scheme \<Rightarrow> 'x \<Rightarrow> ip_address result" where
  "dumpaddr os addr =
     (let dest = \<lparr>address = inet_ntop os addr, port = sin_port os addr\<rparr>
      in if sa_family os addr = af_inet
         then Inr (ip_address_new\<lparr>local_dest := dest, ip_type := Ipv4\<rparr>)
         else if sa_family os addr = af_inet6
         then Inr (ip_address_new\<lparr>local_dest := dest, ip_type := Ipv6\<rparr>)
         else Inl (Runtime_error ''beltpp::address dump(sockaddr &address) not implemented''))"

definition dump :: "('k, 'x, 'm) os_scheme \<Rightarrow> 'x \<Rightarrow> string result" where
  "dump os addr = (case dumpaddr os addr of Inl e \<Rightarrow> Inl e | Inr a \<Rightarrow> Inr (ip_to_string a))"

definition get_socket_bundle ::
  "('k, 'x, 'm) os_scheme \<Rightarrow> socket_handle \<Rightarrow> ('k, ip_address) call" where
  "get_socket_bundle os fd k =
     (let ((res, addr), k) = sys_getsockname os fd k
      in if - 1 = res then (Inl (Runtime_error (''getsockname(): '' @ last_error os k)), k)
         else case dumpaddr os addr of
                Inl e \<Rightarrow> (Inl e, k)
              | Inr bundle \<Rightarrow>
                  let ((res, addr), k) = sys_getpeername os fd k
                  in if 0 = res
                     then case dumpaddr os addr of
                            Inl e \<Rightarrow> (Inl e, k)
                          | Inr other \<Rightarrow> (Inr (bundle\<lparr>remote_dest := local_dest other\<rparr>), k)
                     else (Inr bundle, k))"

section \<open>Looking a name up\<close>

abbreviation eai_addrfamily :: int where "eai_addrfamily \<equiv> - 9"
abbreviation eai_noname :: int where "eai_noname \<equiv> - 2"

definition is_family_mismatch_error :: "int \<Rightarrow> bool" where
  "is_family_mismatch_error rv = (rv = eai_addrfamily \<or> rv = eai_noname)"

definition ai_family_of :: "ip_type \<Rightarrow> int" where
  "ai_family_of type = (case type of Any \<Rightarrow> af_unspec | Ipv4 \<Rightarrow> af_inet | Ipv6 \<Rightarrow> af_inet6)"

text \<open>An empty address asks for a local one (\<open>AI_PASSIVE\<close>).\<close>

definition getaddressinfo ::
  "('k, 'x, 'm) os_scheme \<Rightarrow> int \<Rightarrow> ip_destination \<Rightarrow> bool \<Rightarrow> ('k, 'x addrinfo list) call" where
  "getaddressinfo os family dest hold_family_mismatch_exception k =
     (let passive = (address dest = []);
          sz_address = (if passive then None else Some (address dest));
          ((rv, servinfo), k) = sys_getaddrinfo os sz_address (to_string (unat (port dest))) family passive k
      in if rv \<noteq> 0 \<and> (\<not> is_family_mismatch_error rv \<or> \<not> hold_family_mismatch_exception)
         then (Inl (Runtime_error (gai_strerror os rv)), k)
         else if rv \<noteq> 0 then (Inr [], k)
         else if servinfo = [] then (Inl (Runtime_error ''assert(pservinfo);''), k)
         else (Inr servinfo, k))"

section \<open>Making descriptors\<close>

text \<open>\<open>flags ^ O_NONBLOCK\<close> on an \<open>int\<close>.\<close>

definition without_nonblock :: "int \<Rightarrow> int" where
  "without_nonblock flags = sint (xor (word_of_int flags :: 32 word) o_nonblock)"

definition set_nonblocking ::
  "('k, 'x, 'm) os_scheme \<Rightarrow> socket_handle \<Rightarrow> bool \<Rightarrow> ('k, unit) call" where
  "set_nonblocking os fd option k =
     (let (flags, k) = sys_fcntl_getfl os fd k;
          flags = (if \<not> option then without_nonblock flags else with_nonblock flags);
          (res, k) = sys_fcntl_setfl os fd flags k
      in if - 1 = res then (Inl (Runtime_error (''setsockopt():F_SETFL '' @ last_error os k)), k)
         else (Inr (), k))"

abbreviation so_reuseaddr :: int where "so_reuseaddr \<equiv> 2"
abbreviation so_keepalive :: int where "so_keepalive \<equiv> 9"
abbreviation so_reuseport :: int where "so_reuseport \<equiv> 15"

definition set_option ::
  "('k, 'x, 'm) os_scheme \<Rightarrow> socket_handle \<Rightarrow> int \<Rightarrow> ('k, unit) call" where
  "set_option os fd name k =
     (let (res, k) = sys_setsockopt os fd name k
      in if - 1 = res then (Inl (Runtime_error (''setsockopt(): '' @ last_error os k)), k)
         else (Inr (), k))"

definition bind_socket ::
  "('k, 'x, 'm) os_scheme \<Rightarrow> socket_handle \<Rightarrow> 'x \<Rightarrow> string \<Rightarrow> ('k, unit) call" where
  "bind_socket os fd addr str_temp_address k =
     (let (res, k) = sys_bind os fd addr k
      in if - 1 = res
         then (Inl (Runtime_error (''bind(): '' @ str_temp_address @ '', '' @ last_error os k)), k)
         else (Inr (), k))"

definition do_if :: "bool \<Rightarrow> ('s, unit) call \<Rightarrow> ('s, unit) call" where
  "do_if b m = (if b then m else give ())"

definition destroy_call :: "('k, 'x, 'm) os_scheme \<Rightarrow> socket_handle \<Rightarrow> ('k, unit) call" where
  "destroy_call os fd k = (Inr (), handle_destroy os fd k)"

text \<open>One descriptor; its handle is closed when a step throws.\<close>

definition make_socket ::
  "('k, 'x, 'm) os_scheme \<Rightarrow> bool \<Rightarrow> bool \<Rightarrow> bool \<Rightarrow> bool \<Rightarrow> 'x addrinfo \<Rightarrow> ('k, socket_handle) call" where
  "make_socket os to_bind reuse alive non_blocking p k =
     (let (fd, k) = sys_socket os (ai_family p) (ai_socktype p) (ai_protocol p) k
      in if is_invalid fd then (Inl (Runtime_error (''socket(): '' @ last_error os k)), k)
         else guarded_scope (destroy_call os fd)
           (then_do (lift_result (dump os (ai_addr p))) (\<lambda>str_temp_address.
            then_do (set_option os fd so_reuseaddr) (\<lambda>_.
            then_do (do_if reuse (set_option os fd so_reuseport)) (\<lambda>_.
            then_do (do_if alive (set_option os fd so_keepalive)) (\<lambda>_.
            then_do (do_if non_blocking (set_nonblocking os fd True)) (\<lambda>_.
            then_do (do_if to_bind (bind_socket os fd (ai_addr p) str_temp_address)) (\<lambda>_.
            give fd))))))) k)"

definition destroy_all :: "('k, 'x, 'm) os_scheme \<Rightarrow> socket_handle list \<Rightarrow> ('k, unit) call" where
  "destroy_all os fds k = (Inr (), fold (handle_destroy os) fds k)"

text \<open>The loop over the addresses; the descriptors that are made so far are closed when one
  fails.\<close>

fun make_sockets ::
  "('k, 'x, 'm) os_scheme \<Rightarrow> bool \<Rightarrow> bool \<Rightarrow> bool \<Rightarrow> bool \<Rightarrow> 'x addrinfo list
     \<Rightarrow> (socket_handle \<times> 'x addrinfo) list \<Rightarrow> ('k, (socket_handle \<times> 'x addrinfo) list) call" where
  "make_sockets os to_bind reuse alive non_blocking [] res k = (Inr res, k)"
| "make_sockets os to_bind reuse alive non_blocking (p # ps) res k =
     then_do (guarded_scope (destroy_all os (map fst res)) (make_socket os to_bind reuse alive non_blocking p))
       (\<lambda>fd. make_sockets os to_bind reuse alive non_blocking ps (res @ [(fd, p)])) k"

definition sockets_for ::
  "('k, 'x, 'm) os_scheme \<Rightarrow> 'x addrinfo list \<Rightarrow> bool \<Rightarrow> bool \<Rightarrow> bool \<Rightarrow> bool
     \<Rightarrow> ('k, (socket_handle \<times> 'x addrinfo) list) call" where
  "sockets_for os servinfo to_bind reuse alive non_blocking k =
     (if servinfo = [] then (Inl (Runtime_error ''assert(servinfo);''), k)
      else make_sockets os to_bind reuse alive non_blocking servinfo [] k)"

section \<open>No descriptor is lost\<close>

text \<open>
  The contract of the calls on descriptors, for a set \<open>opened\<close> of the ones the process holds:
  \<open>socket\<close> makes a new one, \<open>close\<close> takes one away, the others keep them.
\<close>

definition fd_contract :: "('k, 'x, 'm) os_scheme \<Rightarrow> ('k \<Rightarrow> int set) \<Rightarrow> bool" where
  "fd_contract os opened \<longleftrightarrow>
     (\<forall>a b c k fd k'. sys_socket os a b c k = (fd, k') \<longrightarrow>
        (if fd = invalid_value then opened k' = opened k
         else fd \<notin> opened k \<and> opened k' = insert fd (opened k))) \<and>
     (\<forall>fd k. opened (snd (sys_close os fd k)) = opened k - {fd}) \<and>
     (\<forall>fd name k. opened (snd (sys_setsockopt os fd name k)) = opened k) \<and>
     (\<forall>fd k. opened (snd (sys_fcntl_getfl os fd k)) = opened k) \<and>
     (\<forall>fd flags k. opened (snd (sys_fcntl_setfl os fd flags k)) = opened k) \<and>
     (\<forall>fd addr k. opened (snd (sys_bind os fd addr k)) = opened k)"

text \<open>A call that keeps the descriptors and fails with exceptions only.\<close>

definition keeps_fds :: "('k \<Rightarrow> int set) \<Rightarrow> ('k, 'a) call \<Rightarrow> bool" where
  "keeps_fds opened m \<longleftrightarrow> (\<forall>k r k'. m k = (r, k') \<longrightarrow>
     opened k' = opened k \<and> (\<forall>e. r = Inl e \<longrightarrow> is_exception e))"

lemma keeps_fds_then [intro]:
  assumes "keeps_fds opened m" "\<And>x. keeps_fds opened (f x)"
  shows "keeps_fds opened (then_do m f)"
  unfolding keeps_fds_def
proof (intro allI impI)
  fix k r k'
  assume run: "then_do m f k = (r, k')"
  obtain r1 k1 where m: "m k = (r1, k1)" by fastforce
  then show "opened k' = opened k \<and> (\<forall>e. r = Inl e \<longrightarrow> is_exception e)"
    using run assms unfolding keeps_fds_def by (cases r1) force+
qed

lemma keeps_fds_basic [intro]:
  "keeps_fds opened (give x)" "keeps_fds opened m \<Longrightarrow> keeps_fds opened (do_if b m)"
  by (auto simp: keeps_fds_def give_def do_if_def)

lemma keeps_fds_steps:
  assumes "fd_contract os opened"
  shows "keeps_fds opened (lift_result (dump os addr))" "keeps_fds opened (set_option os fd name)"
    "keeps_fds opened (set_nonblocking os fd b)" "keeps_fds opened (bind_socket os fd addr text)"
proof -
  have option: "opened k' = opened k" if "sys_setsockopt os fd name k = (r, k')" for fd name k r k'
    using assms that unfolding fd_contract_def by (metis snd_conv)
  have getfl: "opened k' = opened k" if "sys_fcntl_getfl os fd k = (r, k')" for fd k r k'
    using assms that unfolding fd_contract_def by (metis snd_conv)
  have setfl: "opened k' = opened k" if "sys_fcntl_setfl os fd flags k = (r, k')" for fd flags k r k'
    using assms that unfolding fd_contract_def by (metis snd_conv)
  have bound: "opened k' = opened k" if "sys_bind os fd addr k = (r, k')" for fd addr k r k'
    using assms that unfolding fd_contract_def by (metis snd_conv)
  show "keeps_fds opened (lift_result (dump os addr))"
    by (auto simp: keeps_fds_def lift_result_def dump_def dumpaddr_def Let_def is_exception_def split: if_splits)
  show "keeps_fds opened (set_option os fd name)"
    by (auto simp: keeps_fds_def set_option_def is_exception_def dest: option split: prod.splits if_splits)
  show "keeps_fds opened (set_nonblocking os fd b)"
    by (auto simp: keeps_fds_def set_nonblocking_def Let_def is_exception_def dest!: getfl setfl
        split: prod.splits if_splits)
  show "keeps_fds opened (bind_socket os fd addr text)"
    by (auto simp: keeps_fds_def bind_socket_def is_exception_def dest: bound split: prod.splits if_splits)
qed

lemma handle_destroy_opened:
  "fd_contract os opened \<Longrightarrow> fd \<noteq> invalid_value \<Longrightarrow> opened (handle_destroy os fd k) = opened k - {fd}"
proof -
  assume "fd_contract os opened" "fd \<noteq> invalid_value"
  moreover have "opened (snd (sys_close os fd k)) = opened k - {fd}"
    using calculation(1) unfolding fd_contract_def by (elim conjE allE)
  ultimately show ?thesis
    by (cases "sys_close os fd k") (simp add: handle_destroy_def handle_reset_def)
qed

lemma guarded_scope_Inl_effect:
  assumes "body k = (Inl e, k1)" "is_exception e" "cleanup k1 = (Inr (), k2)"
  shows "guarded_scope cleanup body k = (Inl e, k2)"
  using assms by (simp add: guarded_scope_def guard_destroy_def guard_from_def then_do_def raise_def)

lemma make_socket_opened:
  assumes contract: "fd_contract os opened" and run: "make_socket os b reuse alive n p k = (r, k')"
  shows "case r of Inl e \<Rightarrow> is_exception e \<and> opened k' = opened k
    | Inr fd \<Rightarrow> fd \<noteq> invalid_value \<and> fd \<notin> opened k \<and> opened k' = insert fd (opened k)"
proof -
  obtain fd k1 where sock: "sys_socket os (ai_family p) (ai_socktype p) (ai_protocol p) k = (fd, k1)" by fastforce
  have made: "if fd = invalid_value then opened k1 = opened k
      else fd \<notin> opened k \<and> opened k1 = insert fd (opened k)"
  proof -
    have "\<forall>a b c k fd k'. sys_socket os a b c k = (fd, k') \<longrightarrow>
        (if fd = invalid_value then opened k' = opened k else fd \<notin> opened k \<and> opened k' = insert fd (opened k))"
      using contract unfolding fd_contract_def by (rule conjunct1)
    then show ?thesis using sock by (elim allE) (erule mp)
  qed
  show ?thesis
  proof (cases "is_invalid fd")
    case True
    then show ?thesis
      using run sock made by (auto simp: make_socket_def is_invalid_def is_exception_def)
  next
    case False
    define body where "body = then_do (lift_result (dump os (ai_addr p))) (\<lambda>str_temp_address.
        then_do (set_option os fd so_reuseaddr) (\<lambda>_.
        then_do (do_if reuse (set_option os fd so_reuseport)) (\<lambda>_.
        then_do (do_if alive (set_option os fd so_keepalive)) (\<lambda>_.
        then_do (do_if n (set_nonblocking os fd True)) (\<lambda>_.
        then_do (do_if b (bind_socket os fd (ai_addr p) str_temp_address)) (\<lambda>_. give fd))))))"
    have kept: "keeps_fds opened body"
      unfolding body_def by (intro keeps_fds_then keeps_fds_basic keeps_fds_steps [OF contract])
    have "x = fd" if "body k1 = (Inr x, k2)" for x k2
      using that by (auto simp: body_def then_do_Inr give_def)
    then obtain r2 k2 where b: "body k1 = (r2, k2)" "r2 = Inr fd \<or> (\<exists>e. r2 = Inl e)"
      by (metis obj_sumE surj_pair)
    have run': "guarded_scope (destroy_call os fd) body k1 = (r, k')"
      using run sock False by (simp add: make_socket_def body_def)
    show ?thesis
    proof (cases r2)
      case (Inr x)
      then have "guarded_scope (destroy_call os fd) body k1 = (Inr fd, k2)"
        using b by (intro guarded_scope_Inr [THEN iffD2]) simp
      then show ?thesis
        using run' kept b made False unfolding keeps_fds_def by (auto simp: is_invalid_def)
    next
      case (Inl e)
      have e: "is_exception e" "opened k2 = opened k1" using kept b Inl unfolding keeps_fds_def by auto
      have "guarded_scope (destroy_call os fd) body k1 = (Inl e, handle_destroy os fd k2)"
        using b Inl e by (intro guarded_scope_Inl_effect) (simp_all add: destroy_call_def)
      then show ?thesis
        using run' e made False handle_destroy_opened [OF contract, of fd k2] by (auto simp: is_invalid_def)
    qed
  qed
qed

lemma destroy_all_opened:
  "fd_contract os opened \<Longrightarrow> invalid_value \<notin> set fds \<Longrightarrow>
    opened (fold (handle_destroy os) fds k) = opened k - set fds"
  by (induction fds arbitrary: k) (auto simp: handle_destroy_opened)

lemma make_sockets_opened:
  assumes "fd_contract os opened" "make_sockets os b reuse alive n ps res k = (r, k')"
    and "opened k = base \<union> set (map fst res)" "base \<inter> set (map fst res) = {}"
    and "invalid_value \<notin> set (map fst res)" "distinct (map fst res)"
  shows "case r of Inl e \<Rightarrow> is_exception e \<and> opened k' = base
    | Inr socks \<Rightarrow> opened k' = base \<union> set (map fst socks) \<and> base \<inter> set (map fst socks) = {} \<and>
        distinct (map fst socks) \<and> map snd socks = map snd res @ ps"
  using assms(2-)
proof (induction ps arbitrary: res k)
  case (Cons p ps)
  obtain r1 k1 where make: "make_socket os b reuse alive n p k = (r1, k1)" by fastforce
  note made = make_socket_opened [OF assms(1) make]
  show ?case
  proof (cases r1)
    case (Inl e)
    then have e: "is_exception e" "opened k1 = opened k" using made by simp_all
    have "guarded_scope (destroy_all os (map fst res)) (make_socket os b reuse alive n p) k =
        (Inl e, fold (handle_destroy os) (map fst res) k1)"
      using make Inl e by (intro guarded_scope_Inl_effect) (simp_all add: destroy_all_def)
    then have "r = Inl e" "k' = fold (handle_destroy os) (map fst res) k1"
      using Cons.prems(1) by simp_all
    then show ?thesis
      using e destroy_all_opened [OF assms(1) Cons.prems(4), of k1] Cons.prems(2,3) by auto
  next
    case (Inr fd)
    then have "guarded_scope (destroy_all os (map fst res)) (make_socket os b reuse alive n p) k = (Inr fd, k1)"
      using make by (intro guarded_scope_Inr [THEN iffD2]) simp
    then have rest: "make_sockets os b reuse alive n ps (res @ [(fd, p)]) k1 = (r, k')"
      using Cons.prems(1) by simp
    show ?thesis
      using Cons.IH [OF rest] made Inr Cons.prems(2-5) by (cases r) auto
  qed
qed auto

text \<open>C16: making the descriptors of a socket loses none: when every address got its descriptor, the
  process holds just these new ones more; when a step fails, with an exception, every descriptor
  made on the way is closed again.\<close>

theorem sockets_for_no_leak:
  assumes "fd_contract os opened" "sockets_for os servinfo b reuse alive n k = (r, k')"
  shows "case r of Inl e \<Rightarrow> is_exception e \<and> opened k' = opened k
    | Inr socks \<Rightarrow> opened k' = opened k \<union> set (map fst socks) \<and> opened k \<inter> set (map fst socks) = {} \<and>
        distinct (map fst socks) \<and> map snd socks = servinfo"
proof (cases "servinfo = []")
  case True
  then show ?thesis using assms(2) by (auto simp: sockets_for_def is_exception_def)
next
  case False
  then have "make_sockets os b reuse alive n servinfo [] k = (r, k')"
    using assms(2) by (simp add: sockets_for_def)
  from make_sockets_opened [OF assms(1) this, of "opened k"] show ?thesis by (cases r) simp_all
qed

text \<open>A system that counts its descriptors and cannot bind the second one.\<close>

definition counting_os :: "(int set, string) os" where
  "counting_os =
     \<lparr>sys_errno = (\<lambda>_. 98), sys_strerror = (\<lambda>_. ''in use''), sys_now = (\<lambda>k. (0, k)),
      sys_epoll_create = (\<lambda>k. (- 1, k)), sys_pipe = (\<lambda>k. ((- 1, 0, 0), k)),
      sys_fcntl_getfl = (\<lambda>_ k. (0, k)), sys_fcntl_setfl = (\<lambda>_ _ k. (0, k)),
      sys_epoll_add = (\<lambda>_ _ _ _ k. (0, k)), sys_epoll_del = (\<lambda>_ _ _ k. (0, k)),
      sys_epoll_wait = (\<lambda>_ _ _ k. ((0, []), k)), sys_read_byte = (\<lambda>_ k. (1, k)),
      sys_write_byte = (\<lambda>_ k. (1, k)), sys_close = (\<lambda>fd k. (0, k - {fd})),
      sys_recv = (\<lambda>_ _ k. ((0, []), k)), sys_send = (\<lambda>_ s k. (int (length s), k)),
      sys_accept = (\<lambda>_ k. (- 1, k)), sys_connect = (\<lambda>_ _ k. (0, k)), sys_so_error = (\<lambda>_ k. ((0, 0), k)),
      sys_getsockname = (\<lambda>_ k. ((0, ''a''), k)), sys_getpeername = (\<lambda>_ k. ((0, ''b''), k)),
      sys_socket = (\<lambda>_ _ _ k. if 7 \<notin> k then (7, insert 7 k) else if 8 \<notin> k then (8, insert 8 k) else (- 1, k)),
      sys_setsockopt = (\<lambda>_ _ k. (0, k)), sys_bind = (\<lambda>fd _ k. (if fd = 8 then - 1 else 0, k)),
      sys_listen = (\<lambda>_ _ k. (0, k)), sys_getaddrinfo = (\<lambda>_ _ _ _ k. ((0, []), k)),
      gai_strerror = (\<lambda>_. []), sa_family = (\<lambda>_. 2), inet_ntop = (\<lambda>a. a), sin_port = (\<lambda>_. 80)\<rparr>"

theorem sockets_for_no_leak_witness:
  "\<exists>e k'. sockets_for counting_os (replicate 2 \<lparr>ai_family = 2, ai_socktype = 1, ai_protocol = 0, ai_addr = ''a''\<rparr>)
      True True True True {1} = (Inl e, k') \<and> k' = {1}"
proof -
  let ?p = "replicate 2 \<lparr>ai_family = 2, ai_socktype = 1, ai_protocol = 0, ai_addr = ''a''\<rparr>"
  obtain r k' where run: "sockets_for counting_os ?p True True True True {1} = (r, k')" by fastforce
  have "isl (fst (sockets_for counting_os ?p True True True True {1}))" by code_simp
  then obtain e where "r = Inl e" using run by (cases r) auto
  moreover have "fd_contract counting_os (\<lambda>k. k)"
    by (auto simp: fd_contract_def counting_os_def split: if_splits)
  from sockets_for_no_leak [OF this run] \<open>r = Inl e\<close> have "k' = {1}" by simp
  ultimately show ?thesis using run by blast
qed

end
