(* ===== verification/Channels.thy ===== *)
theory Channels
  imports Socket_Address Http
begin

text \<open>
  The channels of a socket (\<open>channel\<close>, \<open>socket_internals\<close>, \<open>add_channel\<close>, \<open>get_channel\<close>,
  \<open>get_channel_safe\<close>, \<open>delete_channel\<close> of \<open>src/libsocket/socket.cpp\<close>): the table of
  connections, tied to the slots of the event handler. A socket is an event item, its address a
  number. The mutex is left out, \<open>assert\<close> is compiled out.
\<close>

section \<open>State\<close>

datatype peer_type = Listening | Streaming_opened | Streaming_accepted

record 'o channel =
  m_closed :: bool
  m_socket_descriptor :: socket_handle
  m_type :: peer_type
  m_attempts :: usize
  m_eh_id :: u64
  m_socket_bundle :: ip_address
  m_socket_bundle_from_network :: ip_address
  m_receive_stream :: byte_queue
  m_send_stream :: byte_queue
  m_special_data :: "'o session_special_data"
  m_sync_result :: sync_result

definition channel_of ::
  "usize \<Rightarrow> socket_handle \<Rightarrow> peer_type \<Rightarrow> ip_address \<Rightarrow> ip_address \<Rightarrow> u64 \<Rightarrow> sync_result \<Rightarrow> 'o channel" where
  "channel_of attempts socket_descriptor type socket_bundle socket_bundle_from_network eh_id res =
     \<lparr>m_closed = False, m_socket_descriptor = socket_descriptor, m_type = type,
      m_attempts = attempts, m_eh_id = eh_id, m_socket_bundle = socket_bundle,
      m_socket_bundle_from_network = socket_bundle_from_network, m_receive_stream = no_queue,
      m_send_stream = no_queue, m_special_data = session_special_data_new, m_sync_result = res\<rparr>"

definition channel_new :: "'o channel" where
  "channel_new = channel_of 0 invalid_value Listening ip_address_new ip_address_new 0 sync_result_new"

text \<open>The event handler that \<open>m_peh\<close> points to is part of the state.\<close>

record ('k, 'o) internals =
  m_peh :: "'k handler"
  m_lst_channels :: "'o channel slots"
  self_item :: nat
  m_option :: u32

definition on_peh :: "('k handler, 'a) call \<Rightarrow> (('k, 'o) internals, 'a) call" where
  "on_peh = on_part m_peh (\<lambda>h s. s\<lparr>m_peh := h\<rparr>)"

definition on_os :: "('k, 'a) call \<Rightarrow> (('k, 'o) internals, 'a) call" where
  "on_os = on_part (\<lambda>s. os_state (m_peh s)) (\<lambda>k s. s\<lparr>m_peh := (m_peh s)\<lparr>os_state := k\<rparr>\<rparr>)"

definition internals_new :: "'k handler \<Rightarrow> nat \<Rightarrow> u32 \<Rightarrow> ('k, 'o) internals" where
  "internals_new eh self option =
     \<lparr>m_peh = eh, m_lst_channels = [], self_item = self, m_option = option\<rparr>"

section \<open>Adding a channel\<close>

definition channel_action :: "peer_type \<Rightarrow> usize \<Rightarrow> task" where
  "channel_action type attempts =
     (if type \<noteq> Listening then (if attempts = 0 then Task_receive else Task_connect) else Task_accept)"

text \<open>The addresses of a new channel, and what connecting gave if it did not have to wait. The
  target is the address to connect to, in both forms, or null.\<close>

definition channel_bundles ::
  "('k, 'x, 'm) os_scheme \<Rightarrow> socket_handle \<Rightarrow> task \<Rightarrow> u64 \<Rightarrow> ('x \<times> ip_address) option
     \<Rightarrow> (('k, 'o) internals, ip_address \<times> ip_address \<times> sync_result) call" where
  "channel_bundles os fd action eh_id target =
     (if action = Task_connect
      then case target of
             None \<Rightarrow> raise Undefined
           | Some (addr, paddress) \<Rightarrow>
               then_do (on_os (\<lambda>k. let (res, k) = native_connect os fd addr sync_result_new k in (Inr res, k)))
                 (\<lambda>connect_result.
               then_do (if sync_is_set connect_result then on_peh (eh_set_sync_result eh_id) else give ())
                 (\<lambda>_.
               then_do (on_os (get_socket_bundle os fd)) (\<lambda>bundle.
               give (bundle\<lparr>remote_dest := remote_dest paddress\<rparr>, bundle, connect_result))))
      else then_do (on_os (get_socket_bundle os fd)) (\<lambda>bundle. give (bundle, bundle, sync_result_new)))"

definition push_channel :: "u64 \<Rightarrow> 'o channel \<Rightarrow> (('k, 'o) internals, string) call" where
  "push_channel cid c s =
     (case table_push channel_new c (m_lst_channels s) of
        Inl e \<Rightarrow> (Inl e, s)
      | Inr tbl \<Rightarrow> (Inr (construct_peer_id cid (m_socket_bundle c)), s\<lparr>m_lst_channels := tbl\<rparr>))"

definition add_channel ::
  "('k, 'x, 'm) os_scheme \<Rightarrow> socket_handle \<Rightarrow> peer_type \<Rightarrow> usize \<Rightarrow> ('x \<times> ip_address) option
     \<Rightarrow> (('k, 'o) internals, string) call" where
  "add_channel os fd type attempts target s =
     (case table_room channel_new 4 (m_lst_channels s) of
        Inl e \<Rightarrow> (Inl e, s)
      | Inr (tbl, cid) \<Rightarrow>
          let action = channel_action type attempts
          in then_do (on_peh (eh_add os (self_item s) fd cid action False 0)) (\<lambda>eh_id.
             guarded_scope (on_peh (eh_remove os fd eh_id False action False))
               (then_do (channel_bundles os fd action eh_id target) (\<lambda>(bundle, bundle_from_network, res).
                push_channel cid (channel_of attempts fd type bundle bundle_from_network eh_id res))))
             (s\<lparr>m_lst_channels := tbl\<rparr>))"

section \<open>Looking a channel up\<close>

definition get_channel :: "'o channel slots \<Rightarrow> u64 \<Rightarrow> 'o channel result" where
  "get_channel tbl current_id =
     (case table_at tbl current_id of
        Inl e \<Rightarrow> Inl e
      | Inr None \<Rightarrow> Inl (Runtime_error (''get_channel: '' @ to_string (unat current_id)))
      | Inr (Some c) \<Rightarrow> Inr c)"

text \<open>The place of an open channel: the first queue for which the index is valid and leads to a
  channel that is not closed.\<close>

fun find_open :: "'o channel slots \<Rightarrow> u64 \<Rightarrow> nat option result" where
  "find_open [] current_id = Inr None"
| "find_open (q # qs) current_id =
     (if valid_index q current_id
      then case queue_at q current_id of
             Inl e \<Rightarrow> Inl e
           | Inr c \<Rightarrow>
               if \<not> m_closed c then Inr (Some 0)
               else map_sum id (map_option Suc) (find_open qs current_id)
      else map_sum id (map_option Suc) (find_open qs current_id))"

definition get_channel_safe :: "'o channel slots \<Rightarrow> u64 \<Rightarrow> (nat \<times> 'o channel) option result" where
  "get_channel_safe tbl current_id =
     (case find_open tbl current_id of
        Inl e \<Rightarrow> Inl e
      | Inr None \<Rightarrow> Inr None
      | Inr (Some n) \<Rightarrow>
          (case queue_at (tbl ! n) current_id of Inl e \<Rightarrow> Inl e | Inr c \<Rightarrow> Inr (Some (n, c))))"

text \<open>Writing through the reference to a channel.\<close>

definition put_channel :: "nat \<Rightarrow> u64 \<Rightarrow> 'o channel \<Rightarrow> (('k, 'o) internals, unit) call" where
  "put_channel n cid c s =
     (case table_assign n cid c (m_lst_channels s) of
        Inl e \<Rightarrow> (Inl e, s)
      | Inr tbl \<Rightarrow> (Inr (), s\<lparr>m_lst_channels := tbl\<rparr>))"

section \<open>Deleting a channel\<close>

definition channel_reset :: "'o channel \<Rightarrow> socket_handle \<Rightarrow> 'o channel" where
  "channel_reset c handle =
     c\<lparr>m_socket_descriptor := handle, m_closed := True, m_receive_stream := no_queue,
       m_send_stream := no_queue, m_special_data := session_special_data_new\<rparr>"

definition release_channel :: "nat \<Rightarrow> (('k, 'o) internals, unit) call" where
  "release_channel n s =
     (case table_release m_closed False n (m_lst_channels s) of
        Inl e \<Rightarrow> (Inl e, s)
      | Inr tbl \<Rightarrow> (Inr (), s\<lparr>m_lst_channels := tbl\<rparr>))"

definition delete_channel ::
  "('k, 'x, 'm) os_scheme \<Rightarrow> u64 \<Rightarrow> (('k, 'o) internals, unit) call" where
  "delete_channel os current_id s =
     (case get_channel_safe (m_lst_channels s) current_id of
        Inl e \<Rightarrow> (Inl e, s)
      | Inr None \<Rightarrow> (Inr (), s)
      | Inr (Some (n, c)) \<Rightarrow>
          then_do (on_os (\<lambda>k. case handle_reset os (m_socket_descriptor c) k of
              (res, handle, k) \<Rightarrow> (Inr (res, handle), k))) (\<lambda>(res, handle).
            let c = channel_reset c handle;
                action = (if m_type c = Streaming_opened \<or> m_type c = Streaming_accepted
                          then Task_receive else Task_accept)
            in then_do (put_channel n current_id c) (\<lambda>_.
               then_do (on_peh (eh_remove os (m_socket_descriptor c) (m_eh_id c) True action False)) (\<lambda>_.
               then_do (release_channel n) (\<lambda>_.
               if 0 \<noteq> res then raise (Runtime_error ''::close unsuccessful'') else give ())))) s)"

section \<open>The socket object\<close>

text \<open>The destructor closes the handle of every open channel, and ends the program when that
  fails.\<close>

fun close_channels ::
  "('k, 'x, 'm) os_scheme \<Rightarrow> 'o channel list \<Rightarrow> ('k, unit) call" where
  "close_channels os [] k = (Inr (), k)"
| "close_channels os (c # cs) k =
     (if m_closed c then close_channels os cs k
      else case handle_reset os (m_socket_descriptor c) k of
             (res, _, k) \<Rightarrow> if 0 \<noteq> res then (Inl Terminates, k) else close_channels os cs k)"

fun channels_of :: "'o channel slots \<Rightarrow> 'o channel list result" where
  "channels_of [] = Inr []"
| "channels_of (q # qs) =
     (case queue_copy_out q (begin_index q) of
        Inl e \<Rightarrow> Inl e
      | Inr cs \<Rightarrow> (case channels_of qs of Inl e \<Rightarrow> Inl e | Inr rest \<Rightarrow> Inr (cs @ rest)))"

definition socket_destroy ::
  "('k, 'x, 'm) os_scheme \<Rightarrow> (('k, 'o) internals, unit) call" where
  "socket_destroy os s =
     (case channels_of (m_lst_channels s) of
        Inl e \<Rightarrow> (Inl e, s)
      | Inr cs \<Rightarrow> on_os (close_channels os cs) s)"

text \<open>What the channel of a peer holds.\<close>

definition peer_channel :: "string \<Rightarrow> ('k, 'o) internals \<Rightarrow> 'o channel result" where
  "peer_channel peer s =
     (case parse_peer_id peer of
        Inl e \<Rightarrow> Inl e
      | Inr current_id \<Rightarrow> get_channel (m_lst_channels s) current_id)"

definition get_peer_type :: "string \<Rightarrow> ('k, 'o) internals \<Rightarrow> peer_type result" where
  "get_peer_type peer s = map_sum id m_type (peer_channel peer s)"

definition peer_info :: "string \<Rightarrow> ('k, 'o) internals \<Rightarrow> ip_address result" where
  "peer_info peer s = map_sum id m_socket_bundle (peer_channel peer s)"

definition info_connection :: "string \<Rightarrow> ('k, 'o) internals \<Rightarrow> ip_address result" where
  "info_connection peer s = map_sum id m_socket_bundle_from_network (peer_channel peer s)"

definition session_data :: "string \<Rightarrow> ('k, 'o) internals \<Rightarrow> 'o session_special_data result" where
  "session_data peer s = map_sum id m_special_data (peer_channel peer s)"

text \<open>The list of the open channels: the number is only counted for the channels shown.\<close>

fun dump_queue :: "u64 \<Rightarrow> 'o channel list \<Rightarrow> string" where
  "dump_queue cid [] = []"
| "dump_queue cid (c # cs) =
     (if m_closed c then dump_queue cid cs
      else construct_peer_id cid (m_socket_bundle c) @ [CHR 0x0A] @ dump_queue (cid + 1) cs)"

fun dump_channels :: "'o channel slots \<Rightarrow> string result" where
  "dump_channels [] = Inr []"
| "dump_channels (q # qs) =
     (case queue_copy_out q (begin_index q) of
        Inl e \<Rightarrow> Inl e
      | Inr cs \<Rightarrow> (case dump_channels qs of
          Inl e \<Rightarrow> Inl e | Inr rest \<Rightarrow> Inr (dump_queue (begin_index q) cs @ rest)))"

definition socket_dump :: "('k, 'o) internals \<Rightarrow> string result" where
  "socket_dump s = dump_channels (m_lst_channels s)"

section \<open>Looking a channel up\<close>

lemma find_open_above:
  assumes "chained lo tbl" "unat i < lo"
  shows "find_open tbl i = Inr None"
  using assms
proof (induction lo tbl rule: chained.induct)
  case (2 lo q qs)
  have "queue_near q" using chained_near [OF 2(2)] by simp
  then have "\<not> valid_index q i"
    using valid_index_range [of q i] 2(2,3) by (simp add: queue_near_def)
  then show ?case
    using 2 by (simp add: queue_used_def)
qed simp

lemma find_open_live:
  assumes "chained lo tbl"
  shows "find_open tbl i =
    Inr (case table_view tbl (unat i) of None \<Rightarrow> None
         | Some c \<Rightarrow> if m_closed c then None else table_find tbl i)"
  using assms
proof (induction lo tbl rule: chained.induct)
  case (2 lo q qs)
  have near: "queue_near q" using chained_near [OF 2(2)] by simp
  show ?case
  proof (cases "valid_index q i")
    case True
    obtain c where c: "queue_at q i = Inr c" "queue_view q (unat i) = Some c"
      using queue_at_view [OF near True] by blast
    have "unat i < queue_used q"
      using valid_index_range [of q i] near True by (simp add: queue_near_def)
    then have "find_open qs i = Inr None" using 2(2) find_open_above [of "queue_used q" qs] by simp
    with True c show ?thesis by simp
  next
    case False
    then have "queue_view q (unat i) = None"
      using valid_index_range [of q i] near by (auto simp: queue_view_def queue_near_def)
    then show ?thesis using 2 False by (auto split: option.splits)
  qed
qed simp

definition sock_live :: "('k, 'o) internals \<Rightarrow> nat \<Rightarrow> 'o channel option" where
  "sock_live s = table_live m_closed (m_lst_channels s)"

lemma get_channel_safe_live:
  assumes ok: "table_ok tbl"
  shows "case table_live m_closed tbl (unat i) of
      None \<Rightarrow> get_channel_safe tbl i = Inr None
    | Some c \<Rightarrow> \<exists>n. get_channel_safe tbl i = Inr (Some (n, c)) \<and> table_find tbl i = Some n"
  using find_open_live [of 0 tbl i] table_find_live [OF ok, of i] ok
  by (auto simp: get_channel_safe_def table_ok_def table_live_def split: option.splits if_splits)

lemma get_channel_live:
  assumes ok: "table_ok tbl"
  shows "get_channel tbl i =
    (case table_view tbl (unat i) of
       None \<Rightarrow> Inl (Runtime_error (''get_channel: '' @ to_string (unat i)))
     | Some c \<Rightarrow> Inr c)"
  by (simp add: get_channel_def table_at_view [OF ok] split: option.splits)

section \<open>Invariant\<close>

text \<open>
  Every open slot of the event handler that belongs to this socket leads to an open channel, and
  that channel leads back to the slot: so no two slots share a channel, and no event is reported
  for a channel that is gone.
\<close>

definition linked :: "('k, 'o) internals \<Rightarrow> bool" where
  "linked s \<longleftrightarrow> (\<forall>eid sl. eh_live (m_peh s) eid = Some sl \<longrightarrow> es_item sl = self_item s \<longrightarrow>
     (\<exists>c. sock_live s (unat (es_item_id sl)) = Some c \<and> unat (m_eh_id c) = eid))"

definition sock_inv :: "('k, 'o) internals \<Rightarrow> bool" where
  "sock_inv s \<longleftrightarrow> eh_inv (m_peh s) \<and> table_ok (m_lst_channels s) \<and> linked s"

definition sock_fresh :: "('k, 'o) internals \<Rightarrow> nat" where
  "sock_fresh s = next_id (m_lst_channels s)"

definition sock_used :: "('k, 'o) internals \<Rightarrow> nat" where
  "sock_used s = max (sock_fresh s) (eh_fresh (m_peh s))"

text \<open>Calls that leave the tables as they are.\<close>

definition same_tables :: "('k, 'o) internals \<Rightarrow> ('k, 'o) internals \<Rightarrow> bool" where
  "same_tables s s' \<longleftrightarrow> m_lst_channels s' = m_lst_channels s \<and> self_item s' = self_item s \<and>
     ids (m_peh s') = ids (m_peh s) \<and> poll (m_peh s') = poll (m_peh s)"

lemma same_tables_inv:
  "same_tables s s' \<Longrightarrow> sock_inv s' = sock_inv s \<and> sock_live s' = sock_live s \<and> sock_fresh s' = sock_fresh s \<and>
    sock_used s' = sock_used s \<and> eh_live (m_peh s') = eh_live (m_peh s) \<and> eh_inv (m_peh s') = eh_inv (m_peh s) \<and>
    eh_fresh (m_peh s') = eh_fresh (m_peh s)"
  by (simp add: same_tables_def sock_inv_def sock_live_def sock_fresh_def sock_used_def linked_def
      eh_inv_def eh_live_def eh_fresh_def)

lemma same_tables_refl [simp]: "same_tables s s"
  by (simp add: same_tables_def)

lemma same_tables_trans: "same_tables s s1 \<Longrightarrow> same_tables s1 s2 \<Longrightarrow> same_tables s s2"
  by (simp add: same_tables_def)

lemma on_os_same: "on_os m s = (r, s') \<Longrightarrow> same_tables s s'"
  by (auto simp: on_os_def on_part_def same_tables_def split: prod.splits)

lemma channel_bundles_same:
  "channel_bundles os fd action eh_id target s = (r, s') \<Longrightarrow> same_tables s s'"
proof -
  assume run: "channel_bundles os fd action eh_id target s = (r, s')"
  have sync: "same_tables s1 s2"
    if "(if b then on_peh (eh_set_sync_result eh_id) else give ()) s1 = (r', s2)"
    for b s1 s2 and r' :: "unit result"
    using that
    by (auto simp: on_peh_def on_part_def eh_set_sync_result_def give_def same_tables_def split: if_splits)
  show ?thesis
  proof (cases "action = Task_connect")
    case False
    then show ?thesis
      using run on_os_same [of "get_socket_bundle os fd" s]
      by (auto simp: channel_bundles_def then_do_def give_def split: prod.splits sum.splits)
  next
    case True
    show ?thesis
    proof (cases target)
      case None
      with True run show ?thesis by (simp add: channel_bundles_def raise_def)
    next
      case (Some t)
      obtain addr paddress where t: "t = (addr, paddress)" by fastforce
      show ?thesis
        using run True Some t
        by (auto simp: channel_bundles_def then_do_def give_def split: prod.splits sum.splits
            dest!: on_os_same sync intro: same_tables_trans)
    qed
  qed
qed

section \<open>Adding and deleting\<close>

lemma channel_bundles_defined:
  fixes s :: "('k, 'o) internals"
  assumes "action = Task_connect \<Longrightarrow> target \<noteq> None"
    and "channel_bundles os fd action eh_id target s = (Inl e, s')"
  shows "is_exception e"
proof -
  have gsb: "is_exception e" if "get_socket_bundle os fd k = (Inl e, k')" for e k k'
    using that
    by (auto simp: get_socket_bundle_def dumpaddr_def Let_def is_exception_def split: prod.splits if_splits)
  have gsb': "is_exception e" if "on_os (get_socket_bundle os fd) s = (Inl e, s')" for e s s'
    using that gsb by (auto simp: on_os_def on_part_def split: prod.splits)
  have no_failure: "on_os (\<lambda>k. case f k of (res, k) \<Rightarrow> (Inr res, k)) s \<noteq> (Inl e, s')"
    for f :: "'k \<Rightarrow> sync_result \<times> 'k" and s s' :: "('k, 'o) internals" and e
    by (auto simp: on_os_def on_part_def split: prod.splits)
  show ?thesis
  proof (cases "action = Task_connect")
    case False
    then show ?thesis
      using assms(2) gsb' by (auto simp: channel_bundles_def then_do_def give_def split: prod.splits sum.splits)
  next
    case True
    then obtain addr paddress where "target = Some (addr, paddress)" using assms(1) by auto
    then show ?thesis
      using assms(2) True gsb'
      by (auto simp: channel_bundles_def then_do_Inl then_do_Inr give_def no_failure on_peh_def
          on_part_def eh_set_sync_result_def split: prod.splits sum.splits if_splits)
  qed
qed

lemma sock_live_upd:
  "table_view (m_lst_channels s') = (table_view (m_lst_channels s))(i \<mapsto> c) \<Longrightarrow>
    sock_live s' = (sock_live s)(i := (if m_closed c then None else Some c))"
  unfolding sock_live_def by (rule table_live_upd)

lemma sock_live_fresh: "table_ok (m_lst_channels s) \<Longrightarrow> sock_live s (sock_fresh s) = None"
  by (simp add: sock_live_def sock_fresh_def table_live_fresh)

lemma on_peh_fields:
  "on_peh m s = (r, s') \<Longrightarrow> m (m_peh s) = (r, m_peh s') \<and> m_lst_channels s' = m_lst_channels s \<and>
    self_item s' = self_item s \<and> m_option s' = m_option s"
  by (auto simp: on_peh_def on_part_def split: prod.splits)

lemma sock_live_push:
  assumes ok: "table_ok (m_lst_channels s)" and room: "has_room (m_lst_channels s)"
    and few: "sock_fresh s < id_limit" and open_channel: "\<not> m_closed c"
  shows "\<exists>s'. push_channel cid c s = (Inr (construct_peer_id cid (m_socket_bundle c)), s') \<and>
    table_ok (m_lst_channels s') \<and> sock_live s' = (sock_live s)(sock_fresh s \<mapsto> c) \<and>
    sock_fresh s' = Suc (sock_fresh s) \<and> m_peh s' = m_peh s \<and> self_item s' = self_item s"
proof -
  obtain q where q: "table_push channel_new c (m_lst_channels s) = Inr (butlast (m_lst_channels s) @ [q])"
      "table_ok (butlast (m_lst_channels s) @ [q])"
      "table_view (butlast (m_lst_channels s) @ [q]) = (table_view (m_lst_channels s))(sock_fresh s \<mapsto> c)"
      "next_id (butlast (m_lst_channels s) @ [q]) = Suc (sock_fresh s)"
    using table_push_spec [OF ok room, of channel_new c] few by (auto simp: sock_fresh_def)
  then show ?thesis
    using open_channel sock_live_upd [of "s\<lparr>m_lst_channels := butlast (m_lst_channels s) @ [q]\<rparr>" s "sock_fresh s" c]
    by (simp add: push_channel_def sock_fresh_def)
qed

lemma table_room_live:
  assumes "sock_inv s" "sock_used s < id_limit"
  shows "\<exists>tbl. table_room channel_new 4 (m_lst_channels s) = Inr (tbl, of_nat (sock_fresh s)) \<and>
    has_room tbl \<and> sock_inv (s\<lparr>m_lst_channels := tbl\<rparr>) \<and> sock_live (s\<lparr>m_lst_channels := tbl\<rparr>) = sock_live s \<and>
    sock_fresh (s\<lparr>m_lst_channels := tbl\<rparr>) = sock_fresh s"
proof -
  have ok: "table_ok (m_lst_channels s)" using assms(1) by (simp add: sock_inv_def)
  have few: "next_id (m_lst_channels s) < id_limit" using assms(2) by (simp add: sock_used_def sock_fresh_def)
  have four: "(4 :: usize) = 2 ^ 2" "2 < (62 :: nat)" by simp_all
  obtain tbl where t: "table_room channel_new 4 (m_lst_channels s) = Inr (tbl, of_nat (sock_fresh s))"
      "table_ok tbl" "has_room tbl" "table_view tbl = table_view (m_lst_channels s)" "next_id tbl = sock_fresh s"
    using table_room_spec [OF ok few four, of channel_new] unfolding sock_fresh_def by blast
  have live: "sock_live (s\<lparr>m_lst_channels := tbl\<rparr>) = sock_live s"
    using table_live_cong [OF t(4), of m_closed] by (simp add: sock_live_def)
  then show ?thesis
    using t assms(1) by (intro exI [of _ tbl]) (simp add: sock_inv_def linked_def sock_fresh_def)
qed

lemma add_channel_effect:
  fixes s :: "('k, 'o) internals"
  assumes inv: "sock_inv s" and few: "sock_used s < id_limit"
    and target: "channel_action type attempts = Task_connect \<Longrightarrow> target \<noteq> None"
    and run: "add_channel os fd type attempts target s = (r, s')"
  shows "sock_inv s' \<and> sock_used s' \<le> Suc (sock_used s) \<and> self_item s' = self_item s \<and>
    (case r of
       Inl e \<Rightarrow> (is_exception e \<or> e = Terminates) \<and> sock_fresh s' = sock_fresh s \<and> sock_live s' = sock_live s
     | Inr peer \<Rightarrow> parse_peer_id peer = Inr (of_nat (sock_fresh s)) \<and> sock_fresh s' = Suc (sock_fresh s) \<and>
         (\<exists>c. sock_live s' = (sock_live s)(sock_fresh s \<mapsto> c) \<and> m_type c = type \<and> m_attempts c = attempts \<and>
            m_socket_descriptor c = fd \<and> peer = construct_peer_id (of_nat (sock_fresh s)) (m_socket_bundle c) \<and>
            eh_live (m_peh s') (unat (m_eh_id c)) = Some (event_slot_of (of_nat (sock_fresh s)) (self_item s))))"
proof -
  define cid where "cid = (of_nat (sock_fresh s) :: u64)"
  define action where "action = channel_action type attempts"
  obtain tbl where room: "table_room channel_new 4 (m_lst_channels s) = Inr (tbl, cid)" "has_room tbl"
      "sock_inv (s\<lparr>m_lst_channels := tbl\<rparr>)" "sock_live (s\<lparr>m_lst_channels := tbl\<rparr>) = sock_live s"
      "sock_fresh (s\<lparr>m_lst_channels := tbl\<rparr>) = sock_fresh s"
    using table_room_live [OF inv few] by (auto simp: cid_def)
  let ?s0 = "s\<lparr>m_lst_channels := tbl\<rparr>"
  have unat_cid: "unat cid = sock_fresh s"
    using few by (simp add: cid_def unat_of_nat_size sock_used_def)
  obtain r1 s1 where add: "on_peh (eh_add os (self_item s) fd cid action False 0) ?s0 = (r1, s1)" by fastforce
  note add_fields = on_peh_fields [OF add]
  have eh_few: "eh_fresh (m_peh s) < id_limit" using few by (simp add: sock_used_def)
  have eh_inv: "eh_inv (m_peh s)" using inv by (simp add: sock_inv_def)
  have added: "case r1 of
      Inl e \<Rightarrow> is_exception e \<and> eh_inv (m_peh s1) \<and> eh_fresh (m_peh s1) = eh_fresh (m_peh s) \<and> eh_live (m_peh s1) = eh_live (m_peh s)
    | Inr eid \<Rightarrow> eh_inv (m_peh s1) \<and> unat eid = eh_fresh (m_peh s) \<and> eh_fresh (m_peh s1) = Suc (eh_fresh (m_peh s)) \<and>
        eh_live (m_peh s1) = (eh_live (m_peh s))(eh_fresh (m_peh s) \<mapsto> event_slot_of cid (self_item s))"
    using eh_add_fresh [OF eh_inv eh_few, of os "self_item s" fd cid action 0 r1 "m_peh s1"] add_fields by simp
  show ?thesis
  proof (cases r1)
    case (Inl e)
    then have "r = Inl e" "s' = s1"
      using run room add by (simp_all add: add_channel_def action_def [symmetric])
    moreover have "sock_live s1 = sock_live ?s0" "sock_fresh s1 = sock_fresh ?s0"
      using add_fields by (simp_all add: sock_live_def sock_fresh_def)
    ultimately show ?thesis
      using added Inl room(3-5) add_fields by (simp add: sock_inv_def linked_def sock_used_def le_SucI)
  next
    case (Inr eid)
    define body where "body = then_do (channel_bundles os fd action eid target)
        (\<lambda>(bundle, bundle_from_network, res). (push_channel cid (channel_of attempts fd type bundle bundle_from_network eid res)
           :: (('k, 'o) internals, string) call))"
    have guarded: "guarded_scope (on_peh (eh_remove os fd eid False action False)) body s1 = (r, s')"
      using run room add Inr by (simp add: add_channel_def action_def [symmetric] body_def)
    have eh1: "eh_inv (m_peh s1)" "unat eid = eh_fresh (m_peh s)" "eh_fresh (m_peh s1) = Suc (eh_fresh (m_peh s))"
        "eh_live (m_peh s1) = (eh_live (m_peh s))(eh_fresh (m_peh s) \<mapsto> event_slot_of cid (self_item s))"
      using added Inr by simp_all
    have s1: "table_ok (m_lst_channels s1)" "sock_live s1 = sock_live s" "sock_fresh s1 = sock_fresh s"
        "m_lst_channels s1 = tbl" "self_item s1 = self_item s"
      using add_fields room(3-5) by (simp_all add: sock_inv_def sock_live_def sock_fresh_def)
    obtain r2 s2 where bundles: "channel_bundles os fd action eid target s1 = (r2, s2)" by fastforce
    note same = channel_bundles_same [OF bundles]
    have s2: "table_ok (m_lst_channels s2)" "sock_live s2 = sock_live s" "sock_fresh s2 = sock_fresh s"
        "has_room (m_lst_channels s2)" "self_item s2 = self_item s" "eh_inv (m_peh s2)"
        "eh_live (m_peh s2) = (eh_live (m_peh s))(eh_fresh (m_peh s) \<mapsto> event_slot_of cid (self_item s))"
        "eh_fresh (m_peh s2) = Suc (eh_fresh (m_peh s))"
      using same same_tables_inv [OF same] s1 room(2) eh1 by (simp_all add: same_tables_def)
    have old_fresh: "eh_live (m_peh s) (eh_fresh (m_peh s)) = None"
      using eh.bounded [OF eh_inv] by fastforce
    show ?thesis
    proof (cases r2)
      case (Inr b)
      obtain ba bn res where b: "b = (ba, bn, res)" by (metis prod_cases3)
      define c where "c = (channel_of attempts fd type ba bn eid res :: 'o channel)"
      have c: "\<not> m_closed c" "m_eh_id c = eid" "m_type c = type" "m_attempts c = attempts"
          "m_socket_descriptor c = fd"
        by (simp_all add: c_def channel_of_def)
      obtain s3 where push: "push_channel cid c s2 = (Inr (construct_peer_id cid (m_socket_bundle c)), s3)"
          "table_ok (m_lst_channels s3)" "sock_live s3 = (sock_live s2)(sock_fresh s2 \<mapsto> c)"
          "sock_fresh s3 = Suc (sock_fresh s2)" "m_peh s3 = m_peh s2" "self_item s3 = self_item s2"
        using sock_live_push [OF s2(1) s2(4) _ c(1), of cid] few s2(3) by (auto simp: sock_used_def)
      have "body s1 = (Inr (construct_peer_id cid (m_socket_bundle c)), s3)"
        using bundles Inr b push(1) by (simp add: body_def c_def)
      then have "guarded_scope (on_peh (eh_remove os fd eid False action False)) body s1 =
          (Inr (construct_peer_id cid (m_socket_bundle c)), s3)"
        by (rule guarded_scope_Inr [THEN iffD2])
      then have res: "r = Inr (construct_peer_id cid (m_socket_bundle c))" "s' = s3"
        using guarded by simp_all
      have linked_new: "linked s3"
        unfolding linked_def
      proof (intro allI impI)
        fix e sl
        assume sl: "eh_live (m_peh s3) e = Some sl" "es_item sl = self_item s3"
        show "\<exists>c. sock_live s3 (unat (es_item_id sl)) = Some c \<and> unat (m_eh_id c) = e"
        proof (cases "e = eh_fresh (m_peh s)")
          case True
          then have "sl = event_slot_of cid (self_item s)" using sl(1) push(5) s2(7) by simp
          then show ?thesis
            using True push(3) s2(3) unat_cid c(2) eh1(2) by (simp add: event_slot_of_def)
        next
          case False
          then have "eh_live (m_peh s) e = Some sl" using sl(1) push(5) s2(7) by simp
          moreover have "es_item sl = self_item s" using sl(2) push(6) s2(5) by simp
          ultimately obtain c' where "sock_live s (unat (es_item_id sl)) = Some c'" "unat (m_eh_id c') = e"
            using inv by (auto simp: sock_inv_def linked_def)
          moreover have "sock_live s (sock_fresh s) = None"
            using inv by (simp add: sock_inv_def sock_live_fresh)
          ultimately show ?thesis
            using push(3) s2(2,3) by (intro exI [of _ c']) auto
        qed
      qed
      have "peer = construct_peer_id (of_nat (sock_fresh s)) (m_socket_bundle c) \<Longrightarrow>
          parse_peer_id peer = Inr (of_nat (sock_fresh s))" for peer
        by (simp add: peer_id_parses)
      then show ?thesis
        using res push s2 eh1(2) c linked_new
        by (auto simp: sock_inv_def sock_used_def cid_def)
    next
      case (Inl e)
      have exc: "is_exception e"
        by (rule channel_bundles_defined [of action target os fd eid s1 e s2])
          (use target bundles Inl in \<open>simp_all add: action_def\<close>)
      have body: "body s1 = (Inl e, s2)" using bundles Inl by (simp add: body_def)
      obtain r3 s3 where clean: "on_peh (eh_remove os fd eid False action False) s2 = (r3, s3)" by fastforce
      note clean_fields = on_peh_fields [OF clean]
      have gone: "eh_inv (m_peh s3)" "eh_fresh (m_peh s3) = eh_fresh (m_peh s2)"
          "eh_live (m_peh s3) = (eh_live (m_peh s2))(unat eid := None)"
        using eh_remove_effect [OF s2(6), of os fd eid False action False r3 "m_peh s3"] clean_fields by simp_all
      have live3: "eh_live (m_peh s3) = eh_live (m_peh s)"
        using gone(3) s2(7) eh1(2) old_fresh by (auto simp: fun_eq_iff)
      have "(case r of Inl e' \<Rightarrow> e' = e \<or> e' = Terminates | Inr _ \<Rightarrow> False) \<and> s' = s3"
        using guarded body exc clean
        by (cases r3) (auto simp: guarded_scope_def guard_destroy_def guard_from_def then_do_def raise_def)
      moreover have "sock_live s3 = sock_live s" "sock_fresh s3 = sock_fresh s" "self_item s3 = self_item s"
          "table_ok (m_lst_channels s3)"
        using clean_fields s2 by (simp_all add: sock_live_def sock_fresh_def)
      ultimately show ?thesis
        using gone live3 s2(8) inv exc
        by (auto simp: sock_inv_def linked_def sock_used_def split: sum.splits)
    qed
  qed
qed

lemma put_channel_found:
  assumes ok: "table_ok (m_lst_channels s)" and found: "table_find (m_lst_channels s) cid = Some n"
  shows "\<exists>tbl. put_channel n cid c s = (Inr (), s\<lparr>m_lst_channels := tbl\<rparr>) \<and> table_ok tbl \<and>
    length tbl = length (m_lst_channels s) \<and> table_find tbl cid = Some n \<and>
    sock_live (s\<lparr>m_lst_channels := tbl\<rparr>) = (sock_live s)(unat cid := (if m_closed c then None else Some c)) \<and>
    sock_fresh (s\<lparr>m_lst_channels := tbl\<rparr>) = sock_fresh s"
proof -
  obtain tbl where t: "table_assign n cid c (m_lst_channels s) = Inr tbl" "table_ok tbl"
      "length tbl = length (m_lst_channels s)" "table_view tbl = (table_view (m_lst_channels s))(unat cid \<mapsto> c)"
      "next_id tbl = next_id (m_lst_channels s)"
    using table_assign_spec [OF ok found, of c] by blast
  have "table_find tbl cid = Some n"
  proof -
    have n: "n < length (m_lst_channels s)" "valid_index (m_lst_channels s ! n) cid"
      using table_find_view [of 0 "m_lst_channels s" cid] ok found by (simp_all add: table_ok_def)
    obtain q where q: "queue_assign (m_lst_channels s ! n) cid c = Inr q" "tbl = (m_lst_channels s)[n := q]"
      using t(1) by (auto simp: table_assign_def split: sum.splits)
    have "valid_index q cid"
      using q(1) n(2) by (auto simp: queue_assign_def valid_index_def begin_index_def end_index_def vec_size_def split: if_splits)
    then have valid: "n < length tbl" "valid_index (tbl ! n) cid" using n q(2) by simp_all
    obtain m where m: "table_find tbl cid = Some m"
      using table_find_live [OF t(2), of cid] t(4) by (auto split: option.splits)
    then show ?thesis using table_find_unique [OF t(2) m valid] by simp
  qed
  then show ?thesis
    using t sock_live_upd [of "s\<lparr>m_lst_channels := tbl\<rparr>" s "unat cid" c]
    by (intro exI [of _ tbl]) (simp add: put_channel_def sock_fresh_def)
qed

lemma delete_channel_effect:
  fixes s :: "('k, 'o) internals"
  assumes inv: "sock_inv s" and run: "delete_channel os cid s = (r, s')"
  shows "sock_inv s' \<and> sock_fresh s' = sock_fresh s \<and> sock_used s' = sock_used s \<and> self_item s' = self_item s \<and>
    sock_live s' = (sock_live s)(unat cid := None) \<and> (case r of Inl e \<Rightarrow> is_exception e | Inr _ \<Rightarrow> True)"
proof (cases "sock_live s (unat cid)")
  case None
  have ok: "table_ok (m_lst_channels s)" using inv by (simp add: sock_inv_def)
  have "r = Inr ()" "s' = s"
    using run None get_channel_safe_live [OF ok, of cid] by (simp_all add: delete_channel_def sock_live_def)
  moreover have "(sock_live s)(unat cid := None) = sock_live s" using None by (auto simp: fun_eq_iff)
  ultimately show ?thesis using inv by simp
next
  case (Some c)
  have ok: "table_ok (m_lst_channels s)" using inv by (simp add: sock_inv_def)
  obtain n where n: "get_channel_safe (m_lst_channels s) cid = Inr (Some (n, c))" "table_find (m_lst_channels s) cid = Some n"
    using Some get_channel_safe_live [OF ok, of cid] by (auto simp: sock_live_def)
  obtain res handle k where reset: "handle_reset os (m_socket_descriptor c) (os_state (m_peh s)) = (res, handle, k)"
    by (metis prod_cases3)
  define s1 where "s1 = s\<lparr>m_peh := (m_peh s)\<lparr>os_state := k\<rparr>\<rparr>"
  define c1 where "c1 = channel_reset c handle"
  define action where "action = (if m_type c = Streaming_opened \<or> m_type c = Streaming_accepted then Task_receive else Task_accept)"
  have c1: "m_closed c1" "m_eh_id c1 = m_eh_id c" "m_type c1 = m_type c" by (simp_all add: c1_def channel_reset_def)
  have same1: "same_tables s s1" by (simp add: s1_def same_tables_def)
  note inv1 = same_tables_inv [OF same1]
  have ok1: "table_ok (m_lst_channels s1)" "table_find (m_lst_channels s1) cid = Some n" "self_item s1 = self_item s"
    using ok n same1 by (simp_all add: same_tables_def)
  obtain tbl where put: "put_channel n cid c1 s1 = (Inr (), s1\<lparr>m_lst_channels := tbl\<rparr>)" "table_ok tbl"
      "length tbl = length (m_lst_channels s1)" "table_find tbl cid = Some n"
      "sock_live (s1\<lparr>m_lst_channels := tbl\<rparr>) = (sock_live s1)(unat cid := None)"
      "sock_fresh (s1\<lparr>m_lst_channels := tbl\<rparr>) = sock_fresh s1"
    using put_channel_found [OF ok1(1,2), of c1] c1(1) by auto
  let ?s2 = "s1\<lparr>m_lst_channels := tbl\<rparr>"
  obtain r3 s3 where rem: "on_peh (eh_remove os (m_socket_descriptor c1) (m_eh_id c) True action False) ?s2 = (r3, s3)"
    by fastforce
  note fields = on_peh_fields [OF rem]
  have eh1: "eh_inv (m_peh ?s2)" using inv inv1 by (simp add: sock_inv_def)
  have gone: "eh_inv (m_peh s3)" "eh_fresh (m_peh s3) = eh_fresh (m_peh s)"
      "eh_live (m_peh s3) = (eh_live (m_peh s))(unat (m_eh_id c) := None)"
      "case r3 of Inl e \<Rightarrow> is_exception e | Inr _ \<Rightarrow> True"
    using eh_remove_effect [OF eh1, of os _ "m_eh_id c" True action False r3 "m_peh s3"] fields inv1
    by (auto split: sum.splits)
  have tables3: "m_lst_channels s3 = tbl" "self_item s3 = self_item s" using fields ok1(3) by simp_all
  have live3: "sock_live s3 = (sock_live s)(unat cid := None)" "sock_fresh s3 = sock_fresh s"
    using put(5,6) inv1 tables3(1) by (simp_all add: sock_live_def sock_fresh_def)
  have linked3: "\<exists>c'. ((sock_live s)(unat cid := None)) (unat (es_item_id sl)) = Some c' \<and> unat (m_eh_id c') = eid"
    if sl: "eh_live (m_peh s3) eid = Some sl" "es_item sl = self_item s" for eid sl
  proof -
    have other: "eh_live (m_peh s) eid = Some sl" "eid \<noteq> unat (m_eh_id c)"
      using sl(1) gone(3) by (auto split: if_splits)
    then obtain c' where c': "sock_live s (unat (es_item_id sl)) = Some c'" "unat (m_eh_id c') = eid"
      using inv sl(2) by (auto simp: sock_inv_def linked_def)
    then have "unat (es_item_id sl) \<noteq> unat cid" using other(2) Some by auto
    then show ?thesis using c' by simp
  qed
  have inv3: "sock_inv s3"
    unfolding sock_inv_def linked_def using gone(1) put(2) tables3 live3(1) linked3 by simp
  have used3: "sock_used s3 = sock_used s" using gone(2) live3(2) by (simp add: sock_used_def)
  have step: "delete_channel os cid s = then_do (on_peh (eh_remove os (m_socket_descriptor c1) (m_eh_id c) True action False))
      (\<lambda>_. then_do (release_channel n) (\<lambda>_.
         if 0 \<noteq> res then raise (Runtime_error ''::close unsuccessful'') else give ())) ?s2"
    using n(1) reset put(1) c1 by (simp add: delete_channel_def on_os_def on_part_def Let_def s1_def c1_def action_def)
  show ?thesis
  proof (cases r3)
    case (Inl e)
    then have "r = Inl e" "s' = s3" using run step rem by simp_all
    then show ?thesis using gone(4) Inl inv3 used3 live3 tables3 by simp
  next
    case (Inr u)
    have "n < length tbl" using table_find_live [OF put(2), of cid] put(4) by simp
    then obtain tbl' where rel: "table_release m_closed False n tbl = Inr tbl'"
      using table_release_spec [OF put(2), of n m_closed False] by auto
    have t: "table_live m_closed tbl' = table_live m_closed tbl" "table_ok tbl'" "next_id tbl' = next_id tbl"
      using table_live_release [OF put(2) \<open>n < length tbl\<close> rel] by simp_all
    have "s' = s3\<lparr>m_lst_channels := tbl'\<rparr>" "case r of Inl e \<Rightarrow> is_exception e | Inr _ \<Rightarrow> True"
      using run step rem Inr rel tables3(1)
      by (auto simp: then_do_def release_channel_def raise_def give_def is_exception_def split: if_splits)
    moreover have "sock_live (s3\<lparr>m_lst_channels := tbl'\<rparr>) = sock_live s3"
        "sock_fresh (s3\<lparr>m_lst_channels := tbl'\<rparr>) = sock_fresh s3"
      using t tables3(1) by (simp_all add: sock_live_def sock_fresh_def)
    ultimately show ?thesis
      using inv3 used3 live3 tables3 t(2) by (simp add: sock_inv_def linked_def sock_used_def)
  qed
qed

section \<open>The table of channels as a table of handles\<close>

text \<open>The number of a peer.\<close>

definition peer_number :: "string \<Rightarrow> nat" where
  "peer_number peer = (case parse_peer_id peer of Inl _ \<Rightarrow> 0 | Inr cid \<Rightarrow> unat cid)"

text \<open>A channel that is made for a connection to a target has attempts, any other has none.\<close>

definition add_for ::
  "('k, 'x, 'm) os_scheme \<Rightarrow> socket_handle \<times> peer_type \<times> (usize \<times> 'x \<times> ip_address) option
     \<Rightarrow> (('k, 'o) internals, string) call" where
  "add_for os x =
     (case x of
        (fd, type, None) \<Rightarrow> add_channel os fd type 0 None
      | (fd, type, Some (attempts, addr, paddress)) \<Rightarrow> add_channel os fd type attempts (Some (addr, paddress)))"

lemma add_for_channel:
  "\<exists>fd type attempts target. add_for os x = add_channel os fd type attempts target \<and>
    (channel_action type attempts = Task_connect \<longrightarrow> target \<noteq> None)"
proof -
  obtain fd type conn where x: "x = (fd, type, conn)" by (metis prod_cases3)
  show ?thesis
  proof (cases conn)
    case None
    have "channel_action type 0 \<noteq> Task_connect" by (simp add: channel_action_def)
    then show ?thesis using x None unfolding add_for_def by fastforce
  next
    case (Some c)
    obtain attempts addr paddress where "c = (attempts, addr, paddress)" by (metis prod_cases3)
    then show ?thesis using x Some unfolding add_for_def by fastforce
  qed
qed

interpretation sock: handle_table sock_inv sock_live sock_fresh sock_used id_limit
  "add_for os" peer_number "delete_channel os" unat
  for os :: "('k, 'x, 'm) os_scheme"
proof (unfold_locales, goal_cases)
  case (1 s x i s')
  obtain fd type attempts target where a: "add_for os x s = add_channel os fd type attempts target s"
      "channel_action type attempts = Task_connect \<longrightarrow> target \<noteq> None"
    using add_for_channel by metis
  have "unat (of_nat (sock_fresh s) :: u64) = sock_fresh s"
    using 1(2) by (simp add: unat_of_nat_size sock_used_def)
  moreover have "channel_action type attempts = Task_connect \<Longrightarrow> target \<noteq> None"
      "add_channel os fd type attempts target s = (Inr i, s')"
    using a 1(3) by simp_all
  note add_channel_effect [OF 1(1,2) this]
  then have "parse_peer_id i = Inr (of_nat (sock_fresh s))" "sock_inv s'" "sock_fresh s' = Suc (sock_fresh s)"
      "\<exists>c. sock_live s' = (sock_live s)(sock_fresh s \<mapsto> c)"
    unfolding sum.case by blast+
  ultimately show ?case by (simp add: peer_number_def)
next
  case (2 s x e s')
  obtain fd type attempts target where a: "add_for os x s = add_channel os fd type attempts target s"
      "channel_action type attempts = Task_connect \<longrightarrow> target \<noteq> None"
    using add_for_channel by metis
  then show ?case
    using add_channel_effect [OF 2(1,2), of type attempts target os fd "Inl e" s'] 2(3) by simp
next
  case (3 s x r s')
  obtain fd type attempts target where a: "add_for os x s = add_channel os fd type attempts target s"
      "channel_action type attempts = Task_connect \<longrightarrow> target \<noteq> None"
    using add_for_channel by metis
  then show ?case
    using add_channel_effect [OF 3(1,2), of type attempts target os fd r s'] 3(3) by simp
next
  case (4 s y r s')
  then show ?case using delete_channel_effect [of s os y r s'] by simp
next
  case (5 s)
  then show ?case
    using table_live_dom [of "m_lst_channels s" m_closed] by (simp add: sock_inv_def sock_live_def sock_fresh_def)
qed

section \<open>Properties\<close>

lemma internals_new_inv:
  assumes "eh_inv h" "\<And>eid sl. eh_live h eid = Some sl \<Longrightarrow> es_item sl \<noteq> self"
  shows "sock_inv (internals_new h self option)" "sock_live (internals_new h self option) = Map.empty"
    "sock_fresh (internals_new h self option) = 0"
  using assms
  by (auto simp: sock_inv_def linked_def internals_new_def table_ok_def sock_live_def sock_fresh_def next_id_def)

lemma example_internals:
  "sock_inv (internals_new example_slot 5 option)" "sock_fresh (internals_new example_slot 5 option) = 0"
proof -
  have other: "es_item sl \<noteq> 5" if "eh_live example_slot eid = Some sl" for eid sl
    using that example_slot_live by (auto simp: event_slot_of_def split: if_splits)
  show "sock_inv (internals_new example_slot 5 option)"
    by (rule internals_new_inv(1) [OF example_slot_inv]) (rule other)
  show "sock_fresh (internals_new example_slot 5 option) = 0"
    by (rule internals_new_inv(3) [OF example_slot_inv]) (rule other)
qed

text \<open>C11: over any run of added and deleted channels, with whatever failures of the system, no
  peer number is given out twice and later ones are larger, only channels that were given out are
  open, and every slot of the event handler that belongs to the socket leads to an open
  channel that leads back to the slot.\<close>

theorem channels_linked:
  assumes "sock_inv s" "sock_used s + length ops \<le> id_limit"
    and "fold (handle_step (add_for os) peer_number (delete_channel os)) ops (s, []) = (s', given)"
  shows "sorted_wrt (<) given \<and> dom (sock_live s') \<subseteq> set given \<union> dom (sock_live s) \<and> linked s'"
  using sock.run_handles [OF assms, of "dom (sock_live s)"] by (simp add: sock_inv_def)

theorem channels_linked_witness:
  "\<exists>s' given. fold (handle_step (add_for quiet_os) peer_number (delete_channel quiet_os))
      [Op_add (7, Listening, None), Op_add (8, Streaming_opened, Some (2, ''b'', ip_address_new)), Op_del 0]
      (internals_new example_slot 5 0 :: (nat, unit) internals, []) = (s', given) \<and>
    sorted_wrt (<) given \<and> linked s'"
proof -
  let ?ops = "[Op_add (7, Listening, None), Op_add (8, Streaming_opened, Some (2, ''b'', ip_address_new)), Op_del 0]"
  let ?s = "internals_new example_slot 5 0 :: (nat, unit) internals"
  obtain s' given where run: "fold (handle_step (add_for quiet_os) peer_number (delete_channel quiet_os)) ?ops (?s, []) = (s', given)"
    by fastforce
  have "sock_inv ?s" "sock_fresh ?s = 0" by (rule example_internals)+
  moreover have "sock_used ?s + length ?ops \<le> id_limit"
    using calculation(2) example_slot_live by (simp add: sock_used_def internals_new_def)
  ultimately show ?thesis
    using channels_linked [OF _ _ run] run by blast
qed

text \<open>A deleted channel is gone: its number leads to nothing, and no open slot of the event
  handler has its number any more, so no later event is taken for it.\<close>

theorem deleted_channel_gone:
  assumes "sock_inv s" "delete_channel os cid s = (r, s')"
  shows "get_channel_safe (m_lst_channels s') cid = Inr None \<and>
    (\<forall>eid sl. eh_live (m_peh s') eid = Some sl \<longrightarrow> es_item sl = self_item s' \<longrightarrow> es_item_id sl \<noteq> cid)"
proof -
  have eff: "sock_inv s'" "sock_live s' = (sock_live s)(unat cid := None)"
    using delete_channel_effect [OF assms] by simp_all
  then show ?thesis
    using get_channel_safe_live [of "m_lst_channels s'" cid]
    by (fastforce simp: sock_inv_def linked_def sock_live_def)
qed

theorem deleted_channel_gone_witness:
  "\<exists>r s'. delete_channel quiet_os 0 (internals_new example_slot 5 0 :: (nat, unit) internals) = (r, s') \<and>
    get_channel_safe (m_lst_channels s') 0 = Inr None"
proof -
  let ?s = "internals_new example_slot 5 0 :: (nat, unit) internals"
  obtain r s' where run: "delete_channel quiet_os 0 ?s = (r, s')" by fastforce
  from deleted_channel_gone [OF example_internals(1) run] run show ?thesis by blast
qed

text \<open>\<open>dump\<close> counts the channels it shows, not the ones it passes: a channel behind a closed one is
  shown under the number of the closed one.\<close>

theorem dump_after_closed:
  assumes "m_closed c" "\<not> m_closed d"
  shows "dump_queue cid [c, d] = construct_peer_id cid (m_socket_bundle d) @ [CHR 0x0A]"
  using assms by simp

theorem dump_after_closed_witness:
  "dump_queue 4 [channel_new\<lparr>m_closed := True\<rparr>, channel_new :: unit channel] =
    construct_peer_id 4 (m_socket_bundle (channel_new :: unit channel)) @ [CHR 0x0A]"
proof -
  have "m_closed (channel_new\<lparr>m_closed := True\<rparr> :: unit channel)" "\<not> m_closed (channel_new :: unit channel)"
    by (simp_all add: channel_new_def channel_of_def)
  from dump_after_closed [OF this, of 4] show ?thesis by simp
qed

end
