(* ===== verification/Stream_Messages.thy ===== *)
theory Stream_Messages
  imports Packet Ip_Address
begin

text \<open>
  The messages that the library itself puts into packets: those of \<open>src/belt.pp/stream.hpp\<close> on
  the life of a stream, those of \<open>src/belt.pp/isocket.hpp\<close> on a connection that could not be opened.
\<close>

text \<open>The messages the library makes itself (\<open>isocket.hpp\<close>, \<open>stream.hpp\<close>), and those of the
  protocol.\<close>

datatype 'm sock_message =
    Stream_join
  | Stream_drop
  | Stream_protocol_error string
  | Socket_open_refused string ip_address
  | Socket_open_error string ip_address
  | Loaded 'm

definition builtin_rtt :: "'m sock_message \<Rightarrow> usize" where
  "builtin_rtt msg =
     (case msg of
        Stream_join \<Rightarrow> - 10 | Stream_drop \<Rightarrow> - 11 | Stream_protocol_error _ \<Rightarrow> - 12
      | Socket_open_refused _ _ \<Rightarrow> - 13 | Socket_open_error _ _ \<Rightarrow> - 14 | Loaded _ \<Rightarrow> size_max)"

definition builtin_packet :: "'m sock_message \<Rightarrow> 'm sock_message packet" where
  "builtin_packet msg = packet_set builtin_rtt (\<lambda>_. []) msg packet_new"

end
