(* ===== verification/Socket.thy ===== *)
theory Socket
  imports Channels Stream_Messages
begin

text \<open>
  The socket object \<open>socket_ex\<close> of \<open>src/libsocket/socket.cpp\<close>: listening, opening, receiving and
  sending. The message loader of the protocol is a parameter: from the buffered text and the
  session data it gives how much it read, a message or none, and the new session data. The
  order in which a set of ids is gone through is a parameter too.
\<close>

section \<open>Messages\<close>

text \<open>What the loader answers.\<close>

record 'm pmsg_all =
  all_rtt :: usize
  all_pmsg :: "'m option"
  all_fsaver :: "('m \<Rightarrow> string) option"

type_synonym ('o, 'm) loader =
  "string \<Rightarrow> 'o session_special_data \<Rightarrow> (nat \<times> 'm sock_message pmsg_all) result \<times> 'o session_special_data"

type_synonym 'm packets = "'m sock_message packet list"

section \<open>Listening and opening\<close>

definition has_option :: "u32 \<Rightarrow> u32 \<Rightarrow> bool" where
  "has_option options flag = (and options flag \<noteq> 0)"

abbreviation option_reuse_port :: u32 where "option_reuse_port \<equiv> 1"
abbreviation option_keep_alive :: u32 where "option_keep_alive \<equiv> 2"

definition bound_sockets ::
  "('k, 'x, 'm) os_scheme \<Rightarrow> 'x addrinfo list
     \<Rightarrow> (('k, 'o) internals, (socket_handle \<times> 'x addrinfo) list) call" where
  "bound_sockets os servinfo s =
     on_os (sockets_for os servinfo True (has_option (m_option s) option_reuse_port)
       (has_option (m_option s) option_keep_alive) True) s"

text \<open>One round of the loop of \<open>listen\<close>: a peer, or the text of an error.\<close>

definition listen_one ::
  "('k, 'x, 'm) os_scheme \<Rightarrow> int \<Rightarrow> socket_handle \<Rightarrow> 'x addrinfo
     \<Rightarrow> (('k, 'o) internals, string + string) call" where
  "listen_one os backlog fd pinfo =
     then_do (lift_result (dump os (ai_addr pinfo))) (\<lambda>str_temp_address.
     then_do (on_os (\<lambda>k. let (res, k) = sys_listen os fd backlog k in (Inr (res, last_error os k), k)))
       (\<lambda>(res, listen_error).
     if - 1 = res
     then then_do (on_os (destroy_call os fd)) (\<lambda>_. give (Inl (str_temp_address @ '' - '' @ listen_error)))
     else then_do (add_channel os fd Listening 0 None) (\<lambda>peer. give (Inr peer))))"

fun listen_loop ::
  "('k, 'x, 'm) os_scheme \<Rightarrow> int \<Rightarrow> (socket_handle \<times> 'x addrinfo) list \<Rightarrow> string list \<Rightarrow> string
     \<Rightarrow> (('k, 'o) internals, string list) call" where
  "listen_loop os backlog [] peers error_message =
     (if peers = [] \<and> error_message \<noteq> []
      then raise (Runtime_error (''listen(): '' @ error_message)) else give peers)"
| "listen_loop os backlog ((fd, pinfo) # socks) peers error_message =
     then_do (guarded_scope (on_os (destroy_all os (fd # map fst socks))) (listen_one os backlog fd pinfo)) (\<lambda>r.
     case r of
       Inr peer \<Rightarrow> listen_loop os backlog socks (peers @ [peer]) error_message
     | Inl err \<Rightarrow> listen_loop os backlog socks peers
         ((if error_message \<noteq> [] then error_message @ ''; '' else []) @ err))"

definition socket_listen ::
  "('k, 'x, 'm) os_scheme \<Rightarrow> ip_address \<Rightarrow> int \<Rightarrow> (('k, 'o) internals, string list) call" where
  "socket_listen os addr backlog =
     then_do (on_os (getaddressinfo os (ai_family_of (ip_type addr)) (local_dest addr) False)) (\<lambda>servinfo.
     then_do (bound_sockets os servinfo) (\<lambda>socks. listen_loop os backlog socks [] []))"

text \<open>One round of the loop of \<open>open\<close>: nothing when the remote name has no address of the
  family.\<close>

definition open_one ::
  "('k, 'x, 'm) os_scheme \<Rightarrow> ip_address \<Rightarrow> usize \<Rightarrow> socket_handle \<Rightarrow> 'x addrinfo
     \<Rightarrow> (('k, 'o) internals, string list) call" where
  "open_one os addr attempts fd pinfo =
     then_do (lift_result (dump os (ai_addr pinfo))) (\<lambda>_.
     then_do (on_os (getaddressinfo os (ai_family pinfo) (remote_dest addr) (ip_type addr = Any))) (\<lambda>remoteinfo.
     case remoteinfo of
       [] \<Rightarrow> then_do (on_os (destroy_call os fd)) (\<lambda>_. give [])
     | p # _ \<Rightarrow>
         then_do (lift_result (dump os (ai_addr p))) (\<lambda>_.
         then_do (add_channel os fd Streaming_opened attempts (Some (ai_addr p, addr))) (\<lambda>peer. give [peer]))))"

fun open_loop ::
  "('k, 'x, 'm) os_scheme \<Rightarrow> ip_address \<Rightarrow> usize \<Rightarrow> (socket_handle \<times> 'x addrinfo) list \<Rightarrow> string list
     \<Rightarrow> (('k, 'o) internals, string list) call" where
  "open_loop os addr attempts [] peers = give peers"
| "open_loop os addr attempts ((fd, pinfo) # socks) peers =
     then_do (guarded_scope (on_os (destroy_all os (fd # map fst socks))) (open_one os addr attempts fd pinfo))
       (\<lambda>new. open_loop os addr attempts socks (peers @ new))"

definition socket_open ::
  "('k, 'x, 'm) os_scheme \<Rightarrow> ip_address \<Rightarrow> usize \<Rightarrow> (('k, 'o) internals, string list) call" where
  "socket_open os addr attempts =
     (let addr = (if destination_empty (remote_dest addr)
                  then addr\<lparr>remote_dest := local_dest addr, local_dest := ip_destination_new\<rparr> else addr);
          family = ai_family_of (ip_type addr)
      in then_do (on_os (getaddressinfo os family (local_dest addr) False)) (\<lambda>localinfo.
         let attempts = (if attempts = 0 then 1 else attempts)
         in then_do (bound_sockets os localinfo) (\<lambda>socks. open_loop os addr attempts socks [])))"

section \<open>Receiving: the bytes of a stream\<close>

text \<open>What \<open>recv\<close> stores at the pointer to the free range.\<close>

definition queue_fill :: "usize \<Rightarrow> string \<Rightarrow> byte_queue \<Rightarrow> byte_queue result" where
  "queue_fill pos bytes q =
     (if unat pos + length bytes \<le> length (m_vec_queue q)
      then Inr (q\<lparr>m_vec_queue := take (unat pos) (m_vec_queue q) @ bytes @
             drop (unat pos + length bytes) (m_vec_queue q)\<rparr>)
      else Inl Undefined)"

text \<open>Pushing the bytes that the buffer holds already; the pointer is valid as long as the vector
  is the one of \<open>cap\<close> elements it points into.\<close>

fun push_received :: "nat \<Rightarrow> nat \<Rightarrow> nat \<Rightarrow> byte_queue \<Rightarrow> byte_queue result" where
  "push_received cap pos 0 q = Inr q"
| "push_received cap pos (Suc n) q =
     (if length (m_vec_queue q) = cap \<and> pos < cap
      then case queue_push no_char (m_vec_queue q ! pos) q of
             Inl e \<Rightarrow> Inl e
           | Inr q \<Rightarrow> push_received cap (Suc pos) n q
      else Inl Undefined)"

text \<open>Taking out what the loader read.\<close>

fun pop_read :: "nat \<Rightarrow> byte_queue \<Rightarrow> byte_queue result" where
  "pop_read 0 q = Inr q"
| "pop_read (Suc n) q =
     (if queue_empty q then Inr q
      else case queue_pop q of Inl e \<Rightarrow> Inl e | Inr q \<Rightarrow> pop_read n q)"

text \<open>
  The loop that loads messages as long as there are any; a reply that the session asks for is
  sent instead of a message. The state is the event handler and the channel.
\<close>

partial_function (option) deliver_loop ::
  "('k, 'x, 'm) os_scheme \<Rightarrow> ('o, 'p) loader \<Rightarrow> nat \<Rightarrow> u64 \<Rightarrow> 'k handler \<Rightarrow> 'o channel \<Rightarrow> 'p packets
     \<Rightarrow> ('p packets result \<times> 'k handler \<times> 'o channel) option" where
  "deliver_loop os loader it cid h c res =
     (if queue_empty (m_receive_stream c) then Some (Inr res, h, c)
      else case queue_copy_out (m_receive_stream c) (begin_index (m_receive_stream c)) of
             Inl e \<Rightarrow> Some (Inl e, h, c)
           | Inr buf \<Rightarrow>
               (case loader buf (m_special_data c) of
                  (Inl e, ssd) \<Rightarrow> Some (Inl e, h, c\<lparr>m_special_data := ssd\<rparr>)
                | (Inr (n, pmsgall), ssd) \<Rightarrow>
                    (case pop_read n (m_receive_stream c) of
                       Inl e \<Rightarrow> Some (Inl e, h, c\<lparr>m_special_data := ssd\<rparr>)
                     | Inr q \<Rightarrow>
                         let c = c\<lparr>m_special_data := ssd, m_receive_stream := q\<rparr>
                         in if all_rtt pmsgall = - 2
                            then deliver_loop os loader it cid h c (res @ [builtin_packet (Stream_protocol_error buf)])
                            else case all_pmsg pmsgall of
                              Some m \<Rightarrow>
                                deliver_loop os loader it cid h c
                                  (res @ [packet_set_internal (all_rtt pmsgall) (Some m) (all_fsaver pmsgall) packet_new])
                            | None \<Rightarrow>
                                if autoreply ssd \<noteq> []
                                then (case async_send os it (m_socket_descriptor c) cid (m_eh_id c) (autoreply ssd)
                                             (h, m_send_stream c) of
                                        (Inl e, (h, out)) \<Rightarrow> Some (Inl e, h, c\<lparr>m_send_stream := out\<rparr>)
                                      | (Inr _, (h, out)) \<Rightarrow>
                                          deliver_loop os loader it cid h (c\<lparr>m_send_stream := out\<rparr>) res)
                                else Some (Inr res, h, c))))"

declare deliver_loop.simps [code]

text \<open>What becomes of a channel after an event.\<close>

datatype 'm outcome = Go_on | Drop_channel | Deliver "'m packets"

text \<open>Writing, when there was nothing to read.\<close>

definition stream_send ::
  "('k, 'x, 'm) os_scheme \<Rightarrow> nat \<Rightarrow> u64 \<Rightarrow> int \<Rightarrow> ('k handler \<times> 'o channel, 'p outcome) call" where
  "stream_send os it cid error_code w =
     (let (h, c) = w
      in case native_send os it (m_socket_descriptor c) cid (m_eh_id c) error_code (h, m_send_stream c) of
           (Inl e, (h, out)) \<Rightarrow> (Inl e, (h, c\<lparr>m_send_stream := out\<rparr>))
         | (Inr (send_res, error_code), (h, out)) \<Rightarrow>
             let c = c\<lparr>m_send_stream := out\<rparr>
             in if check_send_dropped send_res error_code then (Inr Drop_channel, (h, c))
                else if - 1 = send_res
                then (Inl (Runtime_error (''send(): '' @ sys_strerror os error_code)), (h, c))
                else (Inr Go_on, (h, c)))"

definition stream_deliver ::
  "('k, 'x, 'm) os_scheme \<Rightarrow> ('o, 'p) loader \<Rightarrow> nat \<Rightarrow> u64 \<Rightarrow> nat \<Rightarrow> nat
     \<Rightarrow> ('k handler \<times> 'o channel, 'p outcome) call" where
  "stream_deliver os loader it cid pos count w =
     (let (h, c) = w
      in case push_received (length (m_vec_queue (m_receive_stream c))) pos count (m_receive_stream c) of
           Inl e \<Rightarrow> (Inl e, (h, c))
         | Inr q \<Rightarrow>
             (case deliver_loop os loader it cid h (c\<lparr>m_receive_stream := q\<rparr>) [] of
                None \<Rightarrow> (Inl Diverges, (h, c))
              | Some (Inl e, h, c) \<Rightarrow> (Inl e, (h, c))
              | Some (Inr res, h, c) \<Rightarrow> (Inr (Deliver res), (h, c))))"

definition stream_event ::
  "('k, 'x, 'm) os_scheme \<Rightarrow> ('o, 'p) loader \<Rightarrow> nat \<Rightarrow> u64 \<Rightarrow> ('k handler \<times> 'o channel, 'p outcome) call" where
  "stream_event os loader it cid w =
     (let (h, c) = w
      in case queue_reserve no_char 64 (m_receive_stream c) of
           Inl e \<Rightarrow> (Inl e, w)
         | Inr q \<Rightarrow>
             (case get_free_range q of
                Inl e \<Rightarrow> (Inl e, (h, c\<lparr>m_receive_stream := q\<rparr>))
              | Inr (p_buffer, size_buffer) \<Rightarrow>
                  let ((res, bytes, error_code), k) = native_recv os (m_socket_descriptor c) size_buffer (os_state h);
                      h = h\<lparr>os_state := k\<rparr>
                  in (case queue_fill p_buffer bytes q of
                        Inl e \<Rightarrow> (Inl e, (h, c\<lparr>m_receive_stream := q\<rparr>))
                      | Inr q \<Rightarrow>
                          let c = c\<lparr>m_receive_stream := q\<rparr>
                          in if check_recv_block res error_code then stream_send os it cid error_code (h, c)
                             else let res = (if check_recv_connect res error_code then 0 else res)
                                  in if check_recv_fail res
                                     then (Inl (Runtime_error (''recv(): '' @ sys_strerror os error_code)), (h, c))
                                     else if 0 = res then (Inr Drop_channel, (h, c))
                                     else stream_deliver os loader it cid (unat p_buffer) (unat res) (h, c))))"

section \<open>Receiving\<close>

text \<open>The answer of a round of the loop over the ids: go on, or leave it with packets of a peer.\<close>

type_synonym 'm answer = "('m packets \<times> string) option"

text \<open>The channel is connecting.\<close>

definition connect_status ::
  "('k, 'x, 'm) os_scheme \<Rightarrow> 'o channel \<Rightarrow> 'k \<Rightarrow> (bool \<times> int \<times> 'o channel) \<times> 'k" where
  "connect_status os c k =
     (let c = c\<lparr>m_attempts := m_attempts c - 1\<rparr>
      in if sync_is_set (m_sync_result c)
         then ((sync_succeeded (m_sync_result c), sync_error_code (m_sync_result c),
                c\<lparr>m_sync_result := sync_result_new\<rparr>), k)
         else let ((res, error_code), k) = get_connected_status os (m_socket_descriptor c) k
              in ((res, error_code, c), k))"

definition connect_succeeded ::
  "('k, 'x, 'm) os_scheme \<Rightarrow> u64 \<Rightarrow> nat \<Rightarrow> 'o channel \<Rightarrow> (('k, 'o) internals, 'p answer) call" where
  "connect_succeeded os cid n c =
     then_do (on_peh (eh_remove os (m_socket_descriptor c) (m_eh_id c) False Task_connect True)) (\<lambda>_.
     then_do (\<lambda>s. on_peh (eh_add os (self_item s) (m_socket_descriptor c) cid Task_receive True (m_eh_id c)) s)
       (\<lambda>eh_id.
     then_do (put_channel n cid (c\<lparr>m_eh_id := eh_id, m_attempts := 0\<rparr>)) (\<lambda>_.
     then_do (on_os (get_socket_bundle os (m_socket_descriptor c))) (\<lambda>from_network.
     then_do (put_channel n cid
         (c\<lparr>m_eh_id := eh_id, m_attempts := 0, m_socket_bundle_from_network := from_network\<rparr>)) (\<lambda>_.
     give (Some ([builtin_packet Stream_join], construct_peer_id cid (m_socket_bundle c))))))))"

definition receive_connect ::
  "('k, 'x, 'm) os_scheme \<Rightarrow> u64 \<Rightarrow> nat \<Rightarrow> 'o channel \<Rightarrow> (('k, 'o) internals, 'p answer) call" where
  "receive_connect os cid n c =
     then_do (on_os (\<lambda>k. case connect_status os c k of (a, k) \<Rightarrow> (Inr a, k)))
       (\<lambda>(res, error_code, c).
     then_do (put_channel n cid c) (\<lambda>_.
       let socket_bundle = m_socket_bundle c;
           connect_error = sys_strerror os error_code
       in if check_connection_refused res error_code
          then then_do (delete_channel os cid) (\<lambda>_.
               if m_attempts c \<noteq> 0
               then then_do (socket_open os socket_bundle (m_attempts c)) (\<lambda>_. give None)
               else give (Some ([builtin_packet (Socket_open_refused connect_error socket_bundle)],
                      construct_peer_id cid socket_bundle)))
          else if check_connected_error res error_code
          then then_do (delete_channel os cid) (\<lambda>_.
               give (Some ([builtin_packet (Socket_open_error connect_error socket_bundle)],
                 construct_peer_id cid socket_bundle)))
          else connect_succeeded os cid n c))"

text \<open>The channel is listening. The new handle is closed unless a channel takes it.\<close>

definition receive_accept ::
  "('k, 'x, 'm) os_scheme \<Rightarrow> u64 \<Rightarrow> nat \<Rightarrow> 'o channel \<Rightarrow> (('k, 'o) internals, 'p answer) call" where
  "receive_accept os cid n c =
     then_do (on_os (\<lambda>k. case native_accept os (m_socket_descriptor c) k of (a, k) \<Rightarrow> (Inr a, k)))
       (\<lambda>(joined, res, error_code).
     if check_accepted_skip res error_code
     then then_do (on_os (destroy_call os joined)) (\<lambda>_. give None)
     else if is_invalid joined then give None
     else guarded_scope (on_os (destroy_call os joined))
       (if check_connected_error res error_code
        then raise (Runtime_error (''accept(): '' @ sys_strerror os error_code))
        else then_do (on_os (set_nonblocking os joined True)) (\<lambda>_.
             then_do (on_os (get_socket_bundle os joined)) (\<lambda>socket_bundle_temp.
             if destination_empty (remote_dest socket_bundle_temp)
             then then_do (on_os (destroy_call os joined)) (\<lambda>_. give None)
             else then_do (add_channel os joined Streaming_accepted 0 None) (\<lambda>peer.
                  give (Some ([builtin_packet Stream_join], peer)))))))"

text \<open>The channel is a stream; what the event did to it is kept also when it failed.\<close>

definition receive_stream ::
  "('k, 'x, 'm) os_scheme \<Rightarrow> ('o, 'p) loader \<Rightarrow> u64 \<Rightarrow> nat \<Rightarrow> 'o channel
     \<Rightarrow> (('k, 'o) internals, 'p answer) call" where
  "receive_stream os loader cid n c s =
     (let (r, (h, c)) = stream_event os loader (self_item s) cid (m_peh s, c)
      in then_do (put_channel n cid c) (\<lambda>_.
         let peer = construct_peer_id cid (m_socket_bundle c)
         in case r of
              Inl e \<Rightarrow> raise e
            | Inr Go_on \<Rightarrow> give None
            | Inr Drop_channel \<Rightarrow>
                then_do (delete_channel os cid) (\<lambda>_. give (Some ([builtin_packet Stream_drop], peer)))
            | Inr (Deliver res) \<Rightarrow> give (if res \<noteq> [] then Some (res, peer) else None))
         (s\<lparr>m_peh := h\<rparr>))"

definition receive_one ::
  "('k, 'x, 'm) os_scheme \<Rightarrow> ('o, 'p) loader \<Rightarrow> u64 \<Rightarrow> (('k, 'o) internals, 'p answer) call" where
  "receive_one os loader cid s =
     (case get_channel_safe (m_lst_channels s) cid of
        Inl e \<Rightarrow> (Inl e, s)
      | Inr None \<Rightarrow> (Inr None, s)
      | Inr (Some (n, c)) \<Rightarrow>
          then_do (on_peh (eh_reset (m_eh_id c))) (\<lambda>_.
            if m_attempts c \<noteq> 0 then receive_connect os cid n c
            else if m_type c = Listening then receive_accept os cid n c
            else receive_stream os loader cid n c) s)"

fun receive_ids ::
  "('k, 'x, 'm) os_scheme \<Rightarrow> ('o, 'p) loader \<Rightarrow> u64 list \<Rightarrow> (('k, 'o) internals, 'p packets \<times> string) call" where
  "receive_ids os loader [] = give ([], [])"
| "receive_ids os loader (cid # cids) =
     then_do (receive_one os loader cid) (\<lambda>answer.
       case answer of Some a \<Rightarrow> give a | None \<Rightarrow> receive_ids os loader cids)"

definition socket_receive ::
  "('k, 'x, 'm) os_scheme \<Rightarrow> ('o, 'p) loader \<Rightarrow> (u64 set \<Rightarrow> u64 list)
     \<Rightarrow> (('k, 'o) internals, 'p packets \<times> string) call" where
  "socket_receive os loader order s =
     (case eh_waited (self_item s) (m_peh s) of
        Inl e \<Rightarrow> (Inl e, s)
      | Inr set_ids \<Rightarrow> receive_ids os loader (order set_ids) s)"

section \<open>Sending\<close>

text \<open>The function the session's handler points to, if it is set.\<close>

type_synonym ('o, 'm) special_handler =
  "'o session_special_data \<Rightarrow> 'm sock_message packet \<Rightarrow> string result \<times> 'o session_special_data"

definition message_stream ::
  "('o, 'p) special_handler \<Rightarrow> 'o session_special_data \<Rightarrow> 'p sock_message packet
     \<Rightarrow> string result \<times> 'o session_special_data" where
  "message_stream fp sp_data pack =
     (if session_handler sp_data then fp sp_data pack
      else case packet_to_string pack of
             Inl e \<Rightarrow> (Inl e, sp_data)
           | Inr text \<Rightarrow>
               (if text = [] then (Inl (Runtime_error ''send empty message''), sp_data) else (Inr text, sp_data)))"

definition shortened :: "string \<Rightarrow> string" where
  "shortened text = (if length text > 23 then take 20 text @ ''...'' else text)"

definition send_stream ::
  "('k, 'x, 'm) os_scheme \<Rightarrow> ('o, 'p) special_handler \<Rightarrow> u64 \<Rightarrow> nat \<Rightarrow> 'o channel \<Rightarrow> 'p sock_message packet
     \<Rightarrow> (('k, 'o) internals, unit) call" where
  "send_stream os fp cid n c pack s =
     (let (text, ssd) = message_stream fp (m_special_data c) pack;
          c = c\<lparr>m_special_data := ssd\<rparr>
      in case text of
           Inl e \<Rightarrow> then_do (put_channel n cid c) (\<lambda>_. raise e) s
         | Inr text \<Rightarrow>
             let (r, (h, out)) = async_send os (self_item s) (m_socket_descriptor c) cid (m_eh_id c) text
                                   (m_peh s, m_send_stream c)
             in then_do (put_channel n cid (c\<lparr>m_send_stream := out\<rparr>)) (\<lambda>_. lift_result r) (s\<lparr>m_peh := h\<rparr>))"

definition socket_send ::
  "('k, 'x, 'm) os_scheme \<Rightarrow> ('o, 'p) special_handler \<Rightarrow> string \<Rightarrow> 'p sock_message packet
     \<Rightarrow> (('k, 'o) internals, unit) call" where
  "socket_send os fp peer pack s =
     (case parse_peer_id peer of
        Inl e \<Rightarrow> (Inl e, s)
      | Inr cid \<Rightarrow>
          if packet_type pack = - 11 then delete_channel os cid s
          else case get_channel (m_lst_channels s) cid of
                 Inl e \<Rightarrow> (Inl e, s)
               | Inr c \<Rightarrow>
                   if m_type c \<noteq> Streaming_opened \<and> m_type c \<noteq> Streaming_accepted
                   then (Inl (Runtime_error (''send message on non streaming channel: peer - '' @ peer)), s)
                   else if m_closed c
                   then (case packet_to_string pack of
                           Inl e \<Rightarrow> (Inl e, s)
                         | Inr text \<Rightarrow> (Inl (Runtime_error (''send message on closed channel: peer - '' @ peer @
                             '', '' @ shortened text)), s))
                   else case table_find (m_lst_channels s) cid of
                          None \<Rightarrow> (Inl Undefined, s)
                        | Some n \<Rightarrow> send_stream os fp cid n c pack s)"

end
