(* ===== verification/Socket_Stream.thy ===== *)
theory Socket_Stream
  imports Socket
begin

text \<open>
  The receiving side of a stream: the bytes that the system stores in the free range of the ring
  buffer are the next elements of the queue, the loop over the messages ends for a loader that makes
  progress, and for any loader the stream does what it would do with a plain text in place of
  the ring buffer.
\<close>

section \<open>Reading into the buffer\<close>

lemma push_received_spec:
  assumes "queue_inv q" "length (m_vec_queue q) = cap" "unat (m_i_size q) + n \<le> cap"
    and "\<forall>i < n. slot q (unat (m_i_size q) + i) = pos + i"
  shows "push_received cap pos n q = Inr (q\<lparr>m_i_size := m_i_size q + of_nat n\<rparr>)"
  using assms
proof (induction n arbitrary: q pos)
  case (Suc n)
  let ?q = "q\<lparr>m_i_size := m_i_size q + 1\<rparr>"
  have room: "unat (m_i_size q) < length (m_vec_queue q)" using Suc.prems by simp
  have pos: "slot q (unat (m_i_size q)) = pos" using Suc.prems(4) by force
  have "slot q (unat (m_i_size q)) < length (m_vec_queue q)" using room by (intro slot_less) auto
  then have push: "queue_push no_char (m_vec_queue q ! pos) q = Inr ?q" "pos < cap"
    using queue_push_room [OF Suc.prems(1) room] pos Suc.prems(2) by simp_all
  have cap: "cap \<le> 2 ^ 63"
    using Suc.prems(1,2) pow2_le_63 by (cases rule: queue_inv_cases) auto
  then have sz: "unat (m_i_size ?q) = Suc (unat (m_i_size q))"
    using Suc.prems(2,3) room by (simp add: unat_add_size)
  have "queue_inv ?q"
    using Suc.prems(1) room sz by (auto simp: queue_inv_def)
  moreover have "\<forall>i < n. slot ?q (unat (m_i_size ?q) + i) = Suc pos + i"
  proof (intro allI impI)
    fix i assume "i < n"
    then show "slot ?q (unat (m_i_size ?q) + i) = Suc pos + i"
      using Suc.prems(4) [rule_format, of "Suc i"] unfolding sz by (simp add: slot_def)
  qed
  moreover have "unat (m_i_size ?q) + n \<le> cap" using Suc.prems(3) unfolding sz by simp
  ultimately have "push_received cap (Suc pos) n ?q = Inr (?q\<lparr>m_i_size := m_i_size ?q + of_nat n\<rparr>)"
    using Suc.prems(2) by (intro Suc.IH) simp_all
  then show ?case using push Suc.prems(2) by (simp add: algebra_simps)
qed simp

lemma fill_outside:
  assumes range: "unat (m_i_size q) + sz \<le> length (m_vec_queue q)" "pos + sz \<le> length (m_vec_queue q)"
      "\<forall>i < sz. slot q (unat (m_i_size q) + i) = pos + i"
    and fits: "length bytes \<le> sz" and i: "i < unat (m_i_size q)"
  shows "(take pos (m_vec_queue q) @ bytes @ drop (pos + length bytes) (m_vec_queue q)) ! slot q i =
    m_vec_queue q ! slot q i"
proof -
  have room: "i < length (m_vec_queue q)" using range(1) i by linarith
  have "slot q i < pos \<or> pos + length bytes \<le> slot q i"
  proof (rule ccontr)
    assume "\<not> ?thesis"
    then obtain j where j: "j < length bytes" "slot q i = pos + j"
      by (metis add_diff_inverse_nat nat_add_left_cancel_less not_le)
    then have "slot q i = slot q (unat (m_i_size q) + j)" using range(3) fits by simp
    then have "i = unat (m_i_size q) + j"
      using slot_inj [of q i "unat (m_i_size q) + j"] room j(1) fits range(1) by linarith
    then show False using i by simp
  qed
  moreover have "slot q i < length (m_vec_queue q)" using room by (intro slot_less) auto
  ultimately show ?thesis using range(2) fits by (auto simp: nth_append min_def)
qed

lemma read_into_queue:
  assumes ok: "queue_ok q0" "queue_used q0 + length bytes \<le> byte_limit" "bytes \<noteq> []"
    and reserve: "queue_reserve no_char 64 q0 = Inr q" and free: "get_free_range q = Inr (pos, sz)"
    and fits: "length bytes \<le> unat sz" and fill: "queue_fill pos bytes q = Inr q1"
  shows "\<exists>q2. push_received (length (m_vec_queue q1)) (unat pos) (length bytes) q1 = Inr q2 \<and> queue_ok q2 \<and>
    queue_list q2 = queue_list q0 @ bytes \<and> queue_used q2 = queue_used q0 + length bytes"
proof -
  have "0 < length bytes" using ok(3) by simp
  then have "queue_used q0 < byte_limit" using ok(2) by linarith
  then have push_ok: "push_ok q0" by (rule queue_ok_push_ok [OF ok(1)])
  have inv0: "queue_inv q0" using ok(1) by (simp add: queue_ok_def)
  have q: "queue_inv q" "queue_list q = queue_list q0" "begin_index q = begin_index q0" "m_i_size q = m_i_size q0"
      "unat (m_i_size q) < length (m_vec_queue q)"
    using queue_reserve_spec [OF inv0 push_ok, of no_char] reserve by auto
  have range: "unat (m_i_size q) + unat sz \<le> length (m_vec_queue q)" "unat pos + unat sz \<le> length (m_vec_queue q)"
      "\<forall>i < unat sz. slot q (unat (m_i_size q) + i) = unat pos + i"
    using get_free_range_spec [OF q(1,5)] free by auto
  define vec where "vec = take (unat pos) (m_vec_queue q) @ bytes @ drop (unat pos + length bytes) (m_vec_queue q)"
  have q1: "q1 = q\<lparr>m_vec_queue := vec\<rparr>"
    using fill by (auto simp: queue_fill_def vec_def split: if_splits)
  have len: "length vec = length (m_vec_queue q)" using range(2) fits by (simp add: vec_def)
  have inv1: "queue_inv q1" using q(1) len by (simp add: q1)
  have slot1: "slot q1 j = slot q j" for j using len by (simp add: q1)
  let ?q2 = "q1\<lparr>m_i_size := m_i_size q1 + of_nat (length bytes)\<rparr>"
  have push: "push_received (length (m_vec_queue q1)) (unat pos) (length bytes) q1 = Inr ?q2"
  proof (rule push_received_spec [OF inv1 refl])
    show "unat (m_i_size q1) + length bytes \<le> length (m_vec_queue q1)"
      using range(1) fits len by (simp add: q1)
    show "\<forall>i < length bytes. slot q1 (unat (m_i_size q1) + i) = unat pos + i"
      using range(3) fits slot1 by (simp add: q1)
  qed
  have cap: "length (m_vec_queue q) \<le> 2 ^ 63"
    using q(1) pow2_le_63 by (cases rule: queue_inv_cases) auto
  have small: "unat (m_i_size q) + length bytes \<le> 2 ^ 63" using range(1) fits cap by linarith
  have sz2: "unat (m_i_size ?q2) = unat (m_i_size q) + length bytes"
    using small by (simp add: q1 unat_add_size unat_of_nat_size)
  have inv2: "queue_inv ?q2"
    using inv1 sz2 range(1) fits len q(5) unfolding queue_inv_def by (auto simp: q1)
  have list2: "queue_list ?q2 = queue_list q @ bytes"
  proof (rule nth_equalityI)
    show "length (queue_list ?q2) = length (queue_list q @ bytes)" using sz2 by simp
    fix i assume i: "i < length (queue_list ?q2)"
    have at: "queue_list ?q2 ! i = vec ! slot q i"
      using i by (simp add: queue_list_def slot_def q1 len)
    show "queue_list ?q2 ! i = (queue_list q @ bytes) ! i"
    proof (cases "i < unat (m_i_size q)")
      case True
      then have "vec ! slot q i = m_vec_queue q ! slot q i"
        unfolding vec_def by (rule fill_outside [OF range fits])
      then show ?thesis using at True by (simp add: nth_append)
    next
      case False
      define j where "j = i - unat (m_i_size q)"
      have j: "i = unat (m_i_size q) + j" "j < length bytes" using False i sz2 by (simp_all add: j_def)
      then have "slot q i = unat pos + j" using range(3) fits by simp
      then have "vec ! slot q i = bytes ! j" using j(2) range(2) fits by (simp add: vec_def nth_append)
      then show ?thesis using at j by (simp add: nth_append)
    qed
  qed
  have begin2: "begin_index ?q2 = begin_index q0"
    using q(3) len by (simp add: q1 begin_index_def vec_size_def)
  have used2: "queue_used ?q2 = queue_used q0 + length bytes"
    using begin2 sz2 q(4) by (simp add: queue_used_def)
  have "queue_ok ?q2" using inv2 used2 ok(2) by (simp add: queue_ok_def)
  then show ?thesis using push list2 used2 q(2) by auto
qed

lemma fill_keeps_list:
  assumes ok: "queue_ok q0" "queue_used q0 < byte_limit"
    and reserve: "queue_reserve no_char 64 q0 = Inr q" and free: "get_free_range q = Inr (pos, sz)"
    and fits: "length bytes \<le> unat sz"
  shows "\<exists>q1. queue_fill pos bytes q = Inr q1 \<and> queue_ok q1 \<and> queue_list q1 = queue_list q0 \<and>
    queue_used q1 = queue_used q0"
proof -
  have inv0: "queue_inv q0" using ok(1) by (simp add: queue_ok_def)
  have q: "queue_inv q" "queue_list q = queue_list q0" "begin_index q = begin_index q0" "m_i_size q = m_i_size q0"
      "unat (m_i_size q) < length (m_vec_queue q)"
    using queue_reserve_spec [OF inv0 queue_ok_push_ok [OF ok], of no_char] reserve by auto
  have range: "unat (m_i_size q) + unat sz \<le> length (m_vec_queue q)" "unat pos + unat sz \<le> length (m_vec_queue q)"
      "\<forall>i < unat sz. slot q (unat (m_i_size q) + i) = unat pos + i"
    using get_free_range_spec [OF q(1,5)] free by auto
  define vec where "vec = take (unat pos) (m_vec_queue q) @ bytes @ drop (unat pos + length bytes) (m_vec_queue q)"
  let ?q1 = "q\<lparr>m_vec_queue := vec\<rparr>"
  have len: "length vec = length (m_vec_queue q)" using range(2) fits by (simp add: vec_def)
  have "queue_fill pos bytes q = Inr ?q1"
    using range(2) fits by (simp add: queue_fill_def vec_def)
  moreover have same: "begin_index ?q1 = begin_index q" using len by (simp add: begin_index_def vec_size_def)
  then have "queue_used ?q1 = queue_used q0" using q by (simp add: queue_used_def)
  moreover have "queue_inv ?q1" using q(1) len by simp
  moreover have "vec ! slot q i = m_vec_queue q ! slot q i" if "i < unat (m_i_size q)" for i
    unfolding vec_def using that by (rule fill_outside [OF range fits])
  then have "queue_list ?q1 = queue_list q" using len by (simp add: queue_list_def slot_def)
  ultimately show ?thesis using ok(2) q(2) by (auto simp: queue_ok_def)
qed

lemma pop_read_spec:
  "queue_ok q \<Longrightarrow> \<exists>q'. pop_read n q = Inr q' \<and> queue_ok q' \<and> queue_list q' = drop n (queue_list q) \<and>
    queue_used q' = queue_used q"
proof (induction n arbitrary: q)
  case (Suc n)
  show ?case
  proof (cases "queue_empty q")
    case True
    then have "queue_list q = []" by (simp add: queue_empty_def)
    then show ?thesis using True Suc.prems by simp
  next
    case False
    then have "queue_list q \<noteq> []" by (simp add: queue_empty_def)
    then obtain q1 where q1: "queue_pop q = Inr q1" "queue_ok q1" "queue_list q1 = tl (queue_list q)"
        "queue_used q1 = queue_used q"
      using rq.deq_law [OF Suc.prems] by blast
    then show ?thesis using Suc.IH [OF q1(2)] False by (simp add: drop_Suc)
  qed
qed simp

lemma copy_out_all: "queue_ok q \<Longrightarrow> queue_copy_out q (begin_index q) = Inr (queue_list q)"
  using queue_copy_out_spec [of q 0] by (simp add: queue_ok_def)

section \<open>The messages of a text\<close>

text \<open>What a loader makes of a text, with the session data before and after: the packets and the
  text that is left.\<close>

inductive loads ::
  "('o, 'p) loader \<Rightarrow> string \<Rightarrow> 'o session_special_data \<Rightarrow> 'p packets \<Rightarrow> string \<Rightarrow> 'o session_special_data \<Rightarrow> bool"
  for L :: "('o, 'p) loader" where
  loads_nil: "loads L [] ssd [] [] ssd"
| loads_wait: "buf \<noteq> [] \<Longrightarrow> L buf ssd = (Inr (n, a), ssd') \<Longrightarrow> all_rtt a \<noteq> - 2 \<Longrightarrow> all_pmsg a = None \<Longrightarrow>
    autoreply ssd' = [] \<Longrightarrow> loads L buf ssd [] (drop n buf) ssd'"
| loads_error: "buf \<noteq> [] \<Longrightarrow> L buf ssd = (Inr (n, a), ssd') \<Longrightarrow> all_rtt a = - 2 \<Longrightarrow>
    loads L (drop n buf) ssd' ps rest ssd'' \<Longrightarrow>
    loads L buf ssd (builtin_packet (Stream_protocol_error buf) # ps) rest ssd''"
| loads_message: "buf \<noteq> [] \<Longrightarrow> L buf ssd = (Inr (n, a), ssd') \<Longrightarrow> all_rtt a \<noteq> - 2 \<Longrightarrow> all_pmsg a = Some m \<Longrightarrow>
    loads L (drop n buf) ssd' ps rest ssd'' \<Longrightarrow>
    loads L buf ssd (packet_set_internal (all_rtt a) (Some m) (all_fsaver a) packet_new # ps) rest ssd''"

lemma deliver_loop_loads:
  assumes "loads L buf ssd ps rest ssd'" "queue_ok (m_receive_stream c)"
    and "queue_list (m_receive_stream c) = buf" "m_special_data c = ssd"
  shows "\<exists>q'. deliver_loop os L it cid h c res =
      Some (Inr (res @ ps), h, c\<lparr>m_special_data := ssd', m_receive_stream := q'\<rparr>) \<and>
    queue_ok q' \<and> queue_list q' = rest \<and> queue_used q' = queue_used (m_receive_stream c)"
  using assms
proof (induction arbitrary: c res rule: loads.induct)
  case (loads_nil ssd)
  then have "queue_empty (m_receive_stream c)" by (simp add: queue_empty_def)
  then show ?case
    using loads_nil by (subst deliver_loop.simps) (intro exI [of _ "m_receive_stream c"], simp)
next
  case (loads_wait buf ssd n a ssd')
  have ne: "\<not> queue_empty (m_receive_stream c)"
    using loads_wait.hyps(1) loads_wait.prems(2) by (auto simp: queue_empty_def)
  obtain q where q: "pop_read n (m_receive_stream c) = Inr q" "queue_ok q" "queue_list q = drop n buf"
      "queue_used q = queue_used (m_receive_stream c)"
    using pop_read_spec [OF loads_wait.prems(1)] loads_wait.prems(2) by blast
  have "deliver_loop os L it cid h c res = Some (Inr res, h, c\<lparr>m_special_data := ssd', m_receive_stream := q\<rparr>)"
    using ne q(1) copy_out_all [OF loads_wait.prems(1)] loads_wait.hyps loads_wait.prems(2,3)
    by (subst deliver_loop.simps) (simp add: Let_def)
  then show ?case using q by auto
next
  case (loads_error buf ssd n a ssd' ps rest ssd'')
  have ne: "\<not> queue_empty (m_receive_stream c)"
    using loads_error.hyps(1) loads_error.prems(2) by (auto simp: queue_empty_def)
  obtain q where q: "pop_read n (m_receive_stream c) = Inr q" "queue_ok q" "queue_list q = drop n buf"
      "queue_used q = queue_used (m_receive_stream c)"
    using pop_read_spec [OF loads_error.prems(1)] loads_error.prems(2) by blast
  let ?c = "c\<lparr>m_special_data := ssd', m_receive_stream := q\<rparr>"
  have "deliver_loop os L it cid h c res =
      deliver_loop os L it cid h ?c (res @ [builtin_packet (Stream_protocol_error buf)])"
    using ne q(1) copy_out_all [OF loads_error.prems(1)] loads_error.hyps(2,3) loads_error.prems(2,3)
    by (subst deliver_loop.simps) (simp add: Let_def)
  then show ?case
    using loads_error.IH [of ?c "res @ [builtin_packet (Stream_protocol_error buf)]"] q by auto
next
  case (loads_message buf ssd n a ssd' m ps rest ssd'')
  have ne: "\<not> queue_empty (m_receive_stream c)"
    using loads_message.hyps(1) loads_message.prems(2) by (auto simp: queue_empty_def)
  obtain q where q: "pop_read n (m_receive_stream c) = Inr q" "queue_ok q" "queue_list q = drop n buf"
      "queue_used q = queue_used (m_receive_stream c)"
    using pop_read_spec [OF loads_message.prems(1)] loads_message.prems(2) by blast
  let ?c = "c\<lparr>m_special_data := ssd', m_receive_stream := q\<rparr>"
  let ?p = "packet_set_internal (all_rtt a) (Some m) (all_fsaver a) packet_new"
  have "deliver_loop os L it cid h c res = deliver_loop os L it cid h ?c (res @ [?p])"
    using ne q(1) copy_out_all [OF loads_message.prems(1)] loads_message.hyps(2-4) loads_message.prems(2,3)
    by (subst deliver_loop.simps) (simp add: Let_def)
  then show ?case
    using loads_message.IH [of ?c "res @ [?p]"] q by auto
qed

text \<open>
  A loader that makes progress, on the session data of \<open>P\<close>: it does not throw, it reads at least
  one byte of a message or an error, and it asks for no reply.
\<close>

definition progressive ::
  "('o, 'p) loader \<Rightarrow> ('o session_special_data \<Rightarrow> bool) \<Rightarrow> bool" where
  "progressive L P \<longleftrightarrow> (\<forall>buf ssd. P ssd \<longrightarrow> buf \<noteq> [] \<longrightarrow>
     (\<exists>n a ssd'. L buf ssd = (Inr (n, a), ssd') \<and> P ssd' \<and> autoreply ssd' = [] \<and>
        (all_rtt a = - 2 \<or> all_pmsg a \<noteq> None \<longrightarrow> 0 < n)))"

lemma loads_total:
  assumes "progressive L P" "P ssd"
  shows "\<exists>ps rest ssd'. loads L buf ssd ps rest ssd' \<and> P ssd'"
  using assms(2)
proof (induction buf arbitrary: ssd rule: length_induct)
  case (1 buf)
  show ?case
  proof (cases "buf = []")
    case True
    then show ?thesis using 1(2) loads_nil by blast
  next
    case False
    then obtain n a ssd' where L: "L buf ssd = (Inr (n, a), ssd')" "P ssd'" "autoreply ssd' = []"
        "all_rtt a = - 2 \<or> all_pmsg a \<noteq> None \<longrightarrow> 0 < n"
      using assms(1) 1(2) unfolding progressive_def by blast
    show ?thesis
    proof (cases "all_rtt a \<noteq> - 2 \<and> all_pmsg a = None")
      case True
      then show ?thesis using loads_wait [of buf L ssd n a ssd'] False L by blast
    next
      case found: False
      then have "length (drop n buf) < length buf" using L(4) False by simp
      then obtain ps rest ssd'' where rest: "loads L (drop n buf) ssd' ps rest ssd''" "P ssd''"
        using 1(1) L(2) by blast
      then show ?thesis
        using found loads_error [OF False L(1) _ rest(1)] loads_message [OF False L(1) _ _ rest(1)]
        by (cases "all_rtt a = - 2"; cases "all_pmsg a") blast+
    qed
  qed
qed

text \<open>With a loader that makes progress, the loop over the messages of a channel ends, whatever
  bytes have come, and leaves the event handler alone.\<close>

theorem deliver_loop_ends:
  assumes "progressive L P" "P (m_special_data c)" "queue_ok (m_receive_stream c)"
  shows "\<exists>ps c'. deliver_loop os L it cid h c [] = Some (Inr ps, h, c') \<and> P (m_special_data c')"
proof -
  obtain ps rest ssd' where loads: "loads L (queue_list (m_receive_stream c)) (m_special_data c) ps rest ssd'" "P ssd'"
    using loads_total [OF assms(1,2)] by blast
  then show ?thesis
    using deliver_loop_loads [OF loads(1) assms(3) refl refl, of os it cid h "[]"] by auto
qed

text \<open>A loader for which each byte is a message.\<close>

definition byte_loader :: "('o, char) loader" where
  "byte_loader buf ssd =
     (Inr (1, \<lparr>all_rtt = 1, all_pmsg = Some (Loaded (hd buf)), all_fsaver = None\<rparr>), ssd)"

lemma byte_loader_progressive: "progressive byte_loader (\<lambda>ssd. autoreply ssd = [])"
  by (simp add: progressive_def byte_loader_def)

theorem deliver_loop_ends_witness:
  "\<exists>ps c'. deliver_loop quiet_os byte_loader 1 0 example_slot (channel_new :: unit channel) [] =
    Some (Inr ps, example_slot, c')"
proof -
  have "autoreply (m_special_data (channel_new :: unit channel)) = []"
      "queue_ok (m_receive_stream (channel_new :: unit channel))"
    by (simp_all add: channel_new_def channel_of_def)
  from deliver_loop_ends [OF byte_loader_progressive this] show ?thesis by blast
qed

section \<open>A stream is a text\<close>

text \<open>
  What a stream does, with the ring buffer, its free range, its growth and its absolute indices gone:
  the channel without its buffer, and the text of the bytes that came and are not read yet. The loader is any
  function: it may throw, report protocol errors, read nothing, or leave a reply to be sent; and the loop
  may go on for ever.
\<close>

definition plain :: "'o channel \<Rightarrow> 'o channel" where
  "plain c = c\<lparr>m_receive_stream := no_queue\<rparr>"

partial_function (option) text_loop ::
  "('k, 'x, 'm) os_scheme \<Rightarrow> ('o, 'p) loader \<Rightarrow> nat \<Rightarrow> u64 \<Rightarrow> 'k handler \<Rightarrow> 'o channel \<Rightarrow> string \<Rightarrow> 'p packets
     \<Rightarrow> ('p packets result \<times> 'k handler \<times> 'o channel \<times> string) option" where
  "text_loop os L it cid h d bytes res =
     (if bytes = [] then Some (Inr res, h, d, [])
      else case L bytes (m_special_data d) of
             (Inl e, ssd) \<Rightarrow> Some (Inl e, h, d\<lparr>m_special_data := ssd\<rparr>, bytes)
           | (Inr (n, found), ssd) \<Rightarrow>
               let d = d\<lparr>m_special_data := ssd\<rparr>; rest = drop n bytes
               in if all_rtt found = - 2
                  then text_loop os L it cid h d rest (res @ [builtin_packet (Stream_protocol_error bytes)])
                  else case all_pmsg found of
                    Some m \<Rightarrow>
                      text_loop os L it cid h d rest
                        (res @ [packet_set_internal (all_rtt found) (Some m) (all_fsaver found) packet_new])
                  | None \<Rightarrow>
                      if autoreply ssd = [] then Some (Inr res, h, d, rest)
                      else case async_send os it (m_socket_descriptor d) cid (m_eh_id d) (autoreply ssd)
                                  (h, m_send_stream d) of
                             (Inl e, (h, out)) \<Rightarrow> Some (Inl e, h, d\<lparr>m_send_stream := out\<rparr>, rest)
                           | (Inr _, (h, out)) \<Rightarrow> text_loop os L it cid h (d\<lparr>m_send_stream := out\<rparr>) rest res)"

declare text_loop.simps [code]

lemma plain_simps [simp]:
  "m_special_data (plain c) = m_special_data c" "m_socket_descriptor (plain c) = m_socket_descriptor c"
  "m_eh_id (plain c) = m_eh_id c" "m_send_stream (plain c) = m_send_stream c"
  "plain (c\<lparr>m_receive_stream := q\<rparr>) = plain c"
  "plain (c\<lparr>m_special_data := ssd, m_receive_stream := q\<rparr>) = (plain c)\<lparr>m_special_data := ssd\<rparr>"
  "plain (c\<lparr>m_special_data := ssd\<rparr>) = (plain c)\<lparr>m_special_data := ssd\<rparr>"
  "plain (c\<lparr>m_send_stream := out\<rparr>) = (plain c)\<lparr>m_send_stream := out\<rparr>"
  by (simp_all add: plain_def)

lemma queue_empty_list: "queue_empty q \<longleftrightarrow> queue_list q = []"
  by (auto simp: queue_empty_def)

lemma deliver_loop_text:
  assumes "deliver_loop os L it cid h c res = Some (r, h', c')" "queue_ok (m_receive_stream c)"
  shows "text_loop os L it cid h (plain c) (queue_list (m_receive_stream c)) res =
      Some (r, h', plain c', queue_list (m_receive_stream c')) \<and>
    queue_ok (m_receive_stream c') \<and> queue_used (m_receive_stream c') = queue_used (m_receive_stream c)"
proof -
  let ?P = "\<lambda>os L it cid h c res y. queue_ok (m_receive_stream c) \<longrightarrow>
    text_loop os L it cid h (plain c) (queue_list (m_receive_stream c)) res =
      Some (fst y, fst (snd y), plain (snd (snd y)), queue_list (m_receive_stream (snd (snd y)))) \<and>
    queue_ok (m_receive_stream (snd (snd y))) \<and>
    queue_used (m_receive_stream (snd (snd y))) = queue_used (m_receive_stream c)"
  have "?P os L it cid h c res (r, h', c')"
  proof (rule deliver_loop.raw_induct [OF _ assms(1), where P = ?P], intro impI, goal_cases)
    case (1 f os L it cid h c res y)
    note ok = 1(3) and IH = 1(1) [THEN mp]
    note body = 1(2) [unfolded copy_out_all [OF ok] queue_empty_list]
    show ?case
    proof (cases "queue_list (m_receive_stream c) = []")
      case True
      then have "m_i_size (m_receive_stream c) = 0" by simp
      then have "y = (Inr res, h, c)" using body by simp
      then show ?thesis using ok by (subst text_loop.simps) (simp add: True)
    next
      case ne: False
      obtain a ssd where L: "L (queue_list (m_receive_stream c)) (m_special_data c) = (a, ssd)" by fastforce
      show ?thesis
      proof (cases a)
        case (Inl e)
        then show ?thesis using body ne L ok by (subst text_loop.simps) auto
      next
        case (Inr p)
        obtain n pm where p: "p = (n, pm)" by fastforce
        obtain q where q: "pop_read n (m_receive_stream c) = Inr q" "queue_ok q"
            "queue_list q = drop n (queue_list (m_receive_stream c))" "queue_used q = queue_used (m_receive_stream c)"
          using pop_read_spec [OF ok] by blast
        obtain s h1 out where send: "async_send os it (m_socket_descriptor c) cid (m_eh_id c) (autoreply ssd)
            (h, m_send_stream c) = (s, (h1, out))"
          by (metis surj_pair)
        note facts = ne L Inr p q send
        have more: "text_loop os L it cid h1 (plain c1) (drop n (queue_list (m_receive_stream c))) res1 =
            Some (fst y, fst (snd y), plain (snd (snd y)), queue_list (m_receive_stream (snd (snd y)))) \<and>
          queue_ok (m_receive_stream (snd (snd y))) \<and>
          queue_used (m_receive_stream (snd (snd y))) = queue_used (m_receive_stream c)"
          if "f os L it cid h1 c1 res1 = Some y" "m_receive_stream c1 = q" for h1 c1 res1
          using IH [OF that(1)] q that(2) by simp
        let ?c = "c\<lparr>m_special_data := ssd, m_receive_stream := q\<rparr>"
        show ?thesis
        proof (cases "all_rtt pm = - 2 \<or> all_pmsg pm \<noteq> None \<or> autoreply ssd = []")
          case True
          then show ?thesis
            using body facts more [of h ?c "res @ [builtin_packet (Stream_protocol_error (queue_list (m_receive_stream c)))]"]
              more [of h ?c "res @ [packet_set_internal (all_rtt pm) (all_pmsg pm) (all_fsaver pm) packet_new]"]
            by (subst text_loop.simps) (auto simp: Let_def split: if_splits option.splits)
        next
          case False
          then show ?thesis using body facts more [of h1 "?c\<lparr>m_send_stream := out\<rparr>" res]
            by (subst text_loop.simps) (cases s; auto simp: Let_def)
        qed
      qed
    qed
  qed
  then show ?thesis using assms(2) by simp
qed

lemma text_loop_deliver:
  assumes "text_loop os L it cid h d bytes res = Some y"
    and "queue_ok (m_receive_stream c)" "plain c = d" "queue_list (m_receive_stream c) = bytes"
  shows "deliver_loop os L it cid h c res \<noteq> None"
proof -
  let ?P = "\<lambda>os L it cid h d bytes res y. \<forall>c. queue_ok (m_receive_stream c) \<longrightarrow> plain c = d \<longrightarrow>
    queue_list (m_receive_stream c) = bytes \<longrightarrow> deliver_loop os L it cid h c res \<noteq> None"
  have "?P os L it cid h d bytes res y"
  proof (rule text_loop.raw_induct [OF _ assms(1), where P = ?P], intro allI impI, goal_cases)
    case (1 f os L it cid h d bytes res y c)
    note ok = 1(3) and IH = 1(1) [THEN spec, THEN mp, THEN mp, THEN mp]
    have d: "m_special_data d = m_special_data c" "m_socket_descriptor d = m_socket_descriptor c"
        "m_eh_id d = m_eh_id c" "m_send_stream d = m_send_stream c"
      using 1(4) by auto
    show ?case
    proof (cases "bytes = []")
      case True
      then show ?thesis using 1(5) by (subst deliver_loop.simps) (simp add: queue_empty_list)
    next
      case ne: False
      obtain a ssd where L: "L bytes (m_special_data c) = (a, ssd)" by fastforce
      show ?thesis
      proof (cases a)
        case (Inl e)
        then show ?thesis using 1(5) ne L
          by (subst deliver_loop.simps) (simp add: queue_empty_list copy_out_all [OF ok])
      next
        case (Inr p)
        obtain n pm where p: "p = (n, pm)" by fastforce
        obtain q where q: "pop_read n (m_receive_stream c) = Inr q" "queue_ok q"
            "queue_list q = drop n bytes"
          using pop_read_spec [OF ok] 1(5) by blast
        obtain s h1 out where send: "async_send os it (m_socket_descriptor c) cid (m_eh_id c) (autoreply ssd)
            (h, m_send_stream c) = (s, (h1, out))"
          by (metis surj_pair)
        note facts = ne L Inr p q send d 1(5)
        have more: "deliver_loop os L it cid h1 c1 res1 \<noteq> None"
          if "f os L it cid h1 (plain c1) (drop n bytes) res1 = Some y" "m_receive_stream c1 = q" for h1 c1 res1
          using IH [OF that(1)] q that(2) by simp
        let ?c = "c\<lparr>m_special_data := ssd, m_receive_stream := q\<rparr>"
        have plain: "plain ?c = d\<lparr>m_special_data := ssd\<rparr>" using 1(4) by auto
        show ?thesis
        proof (cases "all_rtt pm = - 2 \<or> all_pmsg pm \<noteq> None \<or> autoreply ssd = []")
          case True
          then show ?thesis
            using 1(2) facts plain more [of h ?c "res @ [builtin_packet (Stream_protocol_error bytes)]"]
              more [of h ?c "res @ [packet_set_internal (all_rtt pm) (all_pmsg pm) (all_fsaver pm) packet_new]"]
            by (subst deliver_loop.simps)
               (auto simp: Let_def queue_empty_list copy_out_all [OF ok] split: if_splits option.splits)
        next
          case False
          then show ?thesis using 1(2,4) facts more [of h1 "?c\<lparr>m_send_stream := out\<rparr>" res]
            by (subst deliver_loop.simps)
               (cases s; auto simp: Let_def queue_empty_list copy_out_all [OF ok])
        qed
      qed
    qed
  qed
  then show ?thesis using assms(2-) by blast
qed

lemma text_loop_suffix:
  assumes "text_loop os L it cid h d bytes res = Some (r, h', d', rest)"
  shows "suffix rest bytes"
proof -
  let ?P = "\<lambda>os L it cid h d bytes res y. suffix (snd (snd (snd y))) bytes"
  have "?P os L it cid h d bytes res (r, h', d', rest)"
  proof (rule text_loop.raw_induct [OF _ assms, where P = ?P], goal_cases)
    case (1 f os L it cid h d bytes res y)
    have more: "suffix (snd (snd (snd y))) bytes" if "f os L it cid h1 d1 (drop n bytes) res1 = Some y" for h1 d1 n res1
      using 1(1) [OF that] suffix_drop suffix_order.trans by blast
    show ?case
      using 1(2) by (auto simp: Let_def suffix_drop intro: more split: if_splits sum.splits prod.splits option.splits)
  qed
  then show ?thesis by simp
qed

text \<open>An event, for which \<open>recv\<close> is offered room for \<open>n\<close> bytes.\<close>

definition text_event ::
  "('k, 'x, 'm) os_scheme \<Rightarrow> ('o, 'p) loader \<Rightarrow> nat \<Rightarrow> u64 \<Rightarrow> nat
     \<Rightarrow> ('k handler \<times> 'o channel \<times> string, 'p outcome) call" where
  "text_event os L it cid n w =
     (let (h, d, bytes) = w;
          ((r, new), k) = sys_recv os (m_socket_descriptor d) n (os_state h);
          h = h\<lparr>os_state := k\<rparr>;
          error_code = sys_errno os k
      in if r = - 1
         then if error_code = ewouldblock \<or> error_code = eagain
              then let (s, (h, d)) = stream_send os it cid error_code (h, d) in (s, (h, d, bytes))
              else if error_code = econnreset then (Inr Drop_channel, (h, d, bytes))
              else (Inl (Runtime_error (''recv(): '' @ sys_strerror os error_code)), (h, d, bytes))
         else if r = 0 then (Inr Drop_channel, (h, d, bytes))
         else case text_loop os L it cid h d (bytes @ new) [] of
                None \<Rightarrow> (Inl Diverges, (h, d, bytes))
              | Some (Inl e, w) \<Rightarrow> (Inl e, w)
              | Some (Inr ps, w) \<Rightarrow> (Inr (Deliver ps), w))"

text \<open>The bytes that an event brings.\<close>

definition new_bytes :: "('k, 'x, 'm) os_scheme \<Rightarrow> 'k handler \<times> 'o channel \<Rightarrow> nat \<Rightarrow> string" where
  "new_bytes os w n =
     (let ((r, new), k) = sys_recv os (m_socket_descriptor (snd w)) n (os_state (fst w))
      in if r = - 1 then [] else new)"

definition free_size :: "byte_queue \<Rightarrow> nat" where
  "free_size q =
     (case queue_reserve no_char 64 q of
        Inl e \<Rightarrow> 0
      | Inr q \<Rightarrow> (case get_free_range q of Inl e \<Rightarrow> 0 | Inr (pos, sz) \<Rightarrow> unat sz))"

definition arrived :: "('k, 'x, 'm) os_scheme \<Rightarrow> 'k handler \<times> 'o channel \<Rightarrow> string" where
  "arrived os w = new_bytes os w (free_size (m_receive_stream (snd w)))"

text \<open>The contract of \<open>recv\<close>: it stores no more than it may, and answers how much, or \<open>-1\<close>.\<close>

definition recv_contract :: "('k, 'x, 'm) os_scheme \<Rightarrow> bool" where
  "recv_contract os \<longleftrightarrow> (\<forall>fd n k. case sys_recv os fd n k of
     ((r, bytes), k') \<Rightarrow> length bytes \<le> n \<and> (r = - 1 \<or> r = int (length bytes)))"

lemma stream_send_plain:
  assumes "stream_send os it cid error_code (h, c) = (r, (h', c'))"
  shows "stream_send os it cid error_code (h, plain c) = (r, (h', plain c')) \<and>
    m_receive_stream c' = m_receive_stream c"
proof -
  obtain s h1 out where send: "native_send os it (m_socket_descriptor c) cid (m_eh_id c) error_code
      (h, m_send_stream c) = (s, (h1, out))"
    by (metis surj_pair)
  then show ?thesis
    using assms by (auto simp: stream_send_def Let_def split: sum.splits prod.splits if_splits)
qed


text \<open>One event on the buffer is one event on the text.\<close>

lemma stream_event_text:
  assumes contract: "recv_contract os" and ok: "queue_ok (m_receive_stream c)"
    and room: "queue_used (m_receive_stream c) + length (arrived os (h, c)) < byte_limit"
    and run: "stream_event os L it cid (h, c) = (r, (h', c'))"
  shows "0 < free_size (m_receive_stream c) \<and>
    text_event os L it cid (free_size (m_receive_stream c)) (h, plain c, queue_list (m_receive_stream c)) =
      (r, (h', plain c', queue_list (m_receive_stream c'))) \<and>
    queue_ok (m_receive_stream c') \<and>
    queue_used (m_receive_stream c') \<le> queue_used (m_receive_stream c) + length (arrived os (h, c))"
proof -
  let ?q0 = "m_receive_stream c"
  have used: "queue_used ?q0 < byte_limit" using room by simp
  have inv0: "queue_inv ?q0" using ok by (simp add: queue_ok_def)
  obtain q where q: "queue_reserve no_char 64 ?q0 = Inr q" "queue_inv q" "unat (m_i_size q) < length (m_vec_queue q)"
    using queue_reserve_spec [OF inv0 queue_ok_push_ok [OF ok used], of no_char] by auto
  obtain pos sz where free: "get_free_range q = Inr (pos, sz)" "0 < unat sz"
      "unat pos + unat sz \<le> length (m_vec_queue q)"
    using get_free_range_spec [OF q(2,3)] by auto
  have size: "free_size ?q0 = unat sz" by (simp add: free_size_def q(1) free(1))
  obtain rv bytes k where recv: "sys_recv os (m_socket_descriptor c) (unat sz) (os_state h) = ((rv, bytes), k)"
    by (metis surj_pair)
  have "case sys_recv os (m_socket_descriptor c) (unat sz) (os_state h) of
      ((r, bytes), k') \<Rightarrow> length bytes \<le> unat sz \<and> (r = - 1 \<or> r = int (length bytes))"
    using contract unfolding recv_contract_def by (elim allE)
  then have fits: "length bytes \<le> unat sz" and rv: "rv = - 1 \<or> rv = int (length bytes)" by (simp_all add: recv)
  obtain q1 where q1: "queue_fill pos bytes q = Inr q1" "queue_ok q1" "queue_list q1 = queue_list ?q0"
      "queue_used q1 = queue_used ?q0"
    using fill_keeps_list [OF ok used q(1) free(1) fits] by blast
  define h1 where "h1 = h\<lparr>os_state := k\<rparr>"
  define ec where "ec = sys_errno os k"
  let ?c1 = "c\<lparr>m_receive_stream := q1\<rparr>"
  have event: "stream_event os L it cid (h, c) =
      (if check_recv_block (word_of_int rv) ec then stream_send os it cid ec (h1, ?c1)
       else let res = (if check_recv_connect (word_of_int rv) ec then 0 else word_of_int rv)
            in if check_recv_fail res then (Inl (Runtime_error (''recv(): '' @ sys_strerror os ec)), (h1, ?c1))
               else if 0 = res then (Inr Drop_channel, (h1, ?c1))
               else stream_deliver os L it cid (unat pos) (unat res) (h1, ?c1))"
    by (simp add: stream_event_def q(1) free(1) native_recv_def recv q1(1) h1_def ec_def Let_def)
  have "length (m_vec_queue q) \<le> 2 ^ 63"
    using q(2) pow2_le_63 by (cases rule: queue_inv_cases) auto
  then have small: "length bytes \<le> 2 ^ 63" using fits free(3) by linarith
  show ?thesis
  proof (cases "rv = - 1")
    case True
    then have minus: "(word_of_int rv :: usize) = - 1" by simp
    have arr: "arrived os (h, c) = []" by (simp add: arrived_def new_bytes_def size recv True)
    show ?thesis
    proof (cases "ec = ewouldblock \<or> ec = eagain")
      case send: True
      then have "stream_send os it cid ec (h1, ?c1) = (r, (h', c'))"
        using run event minus by (simp add: check_recv_block_def)
      from stream_send_plain [OF this] show ?thesis
        using send True q1 free(2)
        by (simp add: text_event_def size recv arr flip: h1_def ec_def)
    next
      case False
      then show ?thesis
        using run event minus True q1 free(2)
        by (auto simp: text_event_def size recv arr check_recv_block_def check_recv_connect_def check_recv_fail_def
            Let_def split: if_splits simp flip: h1_def ec_def)
    qed
  next
    case False
    then have rv: "rv = int (length bytes)" using rv by simp
    have arr: "arrived os (h, c) = bytes" by (simp add: arrived_def new_bytes_def size recv False)
    have count: "unat (word_of_int rv :: usize) = length bytes"
      using small by (simp add: rv unat_of_nat_size)
    have "unat (- 1 :: usize) = 2 ^ 64 - 1"
      by (simp add: unsigned_minus_1_eq_mask mask_eq_exp_minus_1)
    then have minus: "(word_of_int rv :: usize) \<noteq> - 1" using small count by auto
    have zero: "(word_of_int rv :: usize) = 0 \<longleftrightarrow> bytes = []" using count by (metis length_0_conv unat_eq_zero)
    have run1: "(if bytes = [] then (Inr Drop_channel, (h1, ?c1))
        else stream_deliver os L it cid (unat pos) (length bytes) (h1, ?c1)) = (r, (h', c'))"
      using run event minus zero count
      by (auto simp: check_recv_block_def check_recv_connect_def check_recv_fail_def Let_def split: if_splits)
    show ?thesis
    proof (cases "bytes = []")
      case True
      then show ?thesis
        using run1 rv q1 free(2) by (auto simp: text_event_def size recv arr simp flip: h1_def ec_def)
    next
      case ne: False
      obtain q2 where q2: "push_received (length (m_vec_queue q1)) (unat pos) (length bytes) q1 = Inr q2" "queue_ok q2"
          "queue_list q2 = queue_list ?q0 @ bytes" "queue_used q2 = queue_used ?q0 + length bytes"
        using read_into_queue [OF ok _ ne q(1) free(1) fits q1(1)] room unfolding arr by auto
      let ?c2 = "c\<lparr>m_receive_stream := q2\<rparr>"
      have deliver: "(case deliver_loop os L it cid h1 ?c2 [] of
                None \<Rightarrow> (Inl Diverges, (h1, ?c1))
              | Some (Inl e, h, c) \<Rightarrow> (Inl e, (h, c))
              | Some (Inr res, h, c) \<Rightarrow> (Inr (Deliver res), (h, c))) = (r, (h', c'))"
        using run1 ne q2(1) by (simp add: stream_deliver_def)
      have spec: "text_event os L it cid (unat sz) (h, plain c, queue_list ?q0) =
          (case text_loop os L it cid h1 (plain c) (queue_list ?q0 @ bytes) [] of
                None \<Rightarrow> (Inl Diverges, (h1, plain c, queue_list ?q0))
              | Some (Inl e, w) \<Rightarrow> (Inl e, w)
              | Some (Inr ps, w) \<Rightarrow> (Inr (Deliver ps), w))"
        using ne rv by (simp add: text_event_def recv flip: h1_def)
      show ?thesis
      proof (cases "deliver_loop os L it cid h1 ?c2 []")
        case None
        have "text_loop os L it cid h1 (plain c) (queue_list ?q0 @ bytes) [] = None"
          using text_loop_deliver [of os L it cid h1 "plain c" "queue_list ?q0 @ bytes" "[]" _ ?c2] None q2
          by (cases "text_loop os L it cid h1 (plain c) (queue_list ?q0 @ bytes) []") auto
        then show ?thesis using deliver spec None q1 free(2) by (auto simp: size)
      next
        case (Some y)
        obtain r1 h2 c2 where y: "y = (r1, h2, c2)" by (metis surj_pair)
        show ?thesis
          using deliver_loop_text [OF Some [unfolded y]] deliver spec Some y q2 free(2)
          by (cases r1) (auto simp: size arr)
      qed
    qed
  qed
qed


text \<open>A number of events, up to one that does not leave the stream open: how each ended, and the bytes that came.\<close>

fun stays_open :: "'p outcome result \<Rightarrow> bool" where
  "stays_open (Inr Go_on) = True"
| "stays_open (Inr (Deliver ps)) = True"
| "stays_open r = False"

fun run_events ::
  "('k, 'x, 'm) os_scheme \<Rightarrow> ('o, 'p) loader \<Rightarrow> nat \<Rightarrow> u64 \<Rightarrow> nat \<Rightarrow> 'k handler \<times> 'o channel
     \<Rightarrow> 'p outcome result list \<times> string \<times> 'k handler \<times> 'o channel" where
  "run_events os L it cid 0 w = ([], [], w)"
| "run_events os L it cid (Suc k) w =
     (case stream_event os L it cid w of (r, w') \<Rightarrow>
        if stays_open r
        then case run_events os L it cid k w' of (rs, bytes, w'') \<Rightarrow> (r # rs, arrived os w @ bytes, w'')
        else ([r], arrived os w, w'))"

fun run_text ::
  "('k, 'x, 'm) os_scheme \<Rightarrow> ('o, 'p) loader \<Rightarrow> nat \<Rightarrow> u64 \<Rightarrow> nat list \<Rightarrow> 'k handler \<times> 'o channel \<times> string
     \<Rightarrow> 'p outcome result list \<times> string \<times> 'k handler \<times> 'o channel \<times> string" where
  "run_text os L it cid [] w = ([], [], w)"
| "run_text os L it cid (n # ns) (h, d, bytes) =
     (case text_event os L it cid n (h, d, bytes) of (r, w') \<Rightarrow>
        if stays_open r
        then case run_text os L it cid ns w' of (rs, later, w'') \<Rightarrow> (r # rs, new_bytes os (h, d) n @ later, w'')
        else ([r], new_bytes os (h, d) n, w'))"

lemma new_bytes_plain: "arrived os (h, c) = new_bytes os (h, plain c) (free_size (m_receive_stream c))"
  by (simp add: arrived_def new_bytes_def)

lemma run_events_text:
  assumes "recv_contract os" "queue_ok (m_receive_stream c)" "queue_used (m_receive_stream c) + length bytes < byte_limit"
    and "run_events os L it cid k (h, c) = (rs, bytes, (h', c'))"
  shows "\<exists>ns. length ns = length rs \<and> list_all (\<lambda>n. 0 < n) ns \<and>
    run_text os L it cid ns (h, plain c, queue_list (m_receive_stream c)) =
      (rs, bytes, (h', plain c', queue_list (m_receive_stream c')))"
  using assms(2-)
proof (induction k arbitrary: h c rs bytes)
  case 0
  then show ?case by (intro exI [of _ "[]"]) auto
next
  case (Suc k)
  obtain r h1 c1 where event: "stream_event os L it cid (h, c) = (r, (h1, c1))" by (metis surj_pair)
  obtain rs1 later where run: "stays_open r \<Longrightarrow> run_events os L it cid k (h1, c1) = (rs1, later, (h', c'))"
      "stays_open r \<Longrightarrow> rs = r # rs1 \<and> bytes = arrived os (h, c) @ later"
      "\<not> stays_open r \<Longrightarrow> rs = [r] \<and> bytes = arrived os (h, c) \<and> h' = h1 \<and> c' = c1"
    using Suc.prems(3) event by (cases "stays_open r") (auto split: prod.splits)
  have "length (arrived os (h, c)) \<le> length bytes" using run by (cases "stays_open r") simp_all
  then have "queue_used (m_receive_stream c) + length (arrived os (h, c)) < byte_limit"
    using Suc.prems(2) by linarith
  note step = stream_event_text [OF assms(1) Suc.prems(1) this event]
  let ?n = "free_size (m_receive_stream c)"
  show ?case
  proof (cases "stays_open r")
    case True
    then have "queue_used (m_receive_stream c1) + length later < byte_limit"
      using step run(2) Suc.prems(2) by simp
    then obtain ns where "length ns = length rs1" "list_all (\<lambda>n. 0 < n) ns"
        "run_text os L it cid ns (h1, plain c1, queue_list (m_receive_stream c1)) =
          (rs1, later, (h', plain c', queue_list (m_receive_stream c')))"
      using Suc.IH [of c1 later h1 rs1] step run(1) True by blast
    then show ?thesis
      using step run(2) True by (intro exI [of _ "?n # ns"]) (simp add: new_bytes_plain)
  next
    case False
    then show ?thesis
      using step run(3) by (intro exI [of _ "[?n]"]) (simp add: new_bytes_plain)
  qed
qed

lemma text_event_suffix:
  assumes "recv_contract os" "text_event os L it cid n (h, d, bytes) = (r, (h', d', rest))" "r \<noteq> Inl Diverges"
  shows "suffix rest (bytes @ new_bytes os (h, d) n)"
proof -
  obtain rv new k where recv: "sys_recv os (m_socket_descriptor d) n (os_state h) = ((rv, new), k)"
    by (metis surj_pair)
  have "case sys_recv os (m_socket_descriptor d) n (os_state h) of
      ((r, bytes), k') \<Rightarrow> length bytes \<le> n \<and> (r = - 1 \<or> r = int (length bytes))"
    using assms(1) unfolding recv_contract_def by (elim allE)
  then have none: "rv = 0 \<Longrightarrow> new = []" by (simp add: recv)
  show ?thesis
  proof (cases "rv = - 1 \<or> rv = 0")
    case True
    then show ?thesis
      using assms(2,3) recv none by (auto simp: text_event_def new_bytes_def Let_def suffix_def split: if_splits prod.splits)
  next
    case False
    then show ?thesis
      using assms(2,3) recv
      by (auto simp: text_event_def new_bytes_def Let_def dest!: text_loop_suffix split: option.splits prod.splits sum.splits)
  qed
qed

lemma run_text_suffix:
  assumes "recv_contract os" "run_text os L it cid ns (h, d, bytes) = (rs, later, (h', d', rest))"
    and "list_all (\<lambda>r. r \<noteq> Inl Diverges) rs"
  shows "suffix rest (bytes @ later)"
  using assms(2,3)
proof (induction ns arbitrary: h d bytes rs later)
  case (Cons n ns)
  obtain r h1 d1 bytes1 where event: "text_event os L it cid n (h, d, bytes) = (r, (h1, d1, bytes1))"
    by (metis surj_pair)
  have ends: "r \<noteq> Inl Diverges" using Cons.prems event by (auto split: if_splits prod.splits)
  note step = text_event_suffix [OF assms(1) event ends]
  show ?case
  proof (cases "stays_open r")
    case True
    then obtain rs1 later1 where run: "run_text os L it cid ns (h1, d1, bytes1) = (rs1, later1, (h', d', rest))"
        "rs = r # rs1" "later = new_bytes os (h, d) n @ later1"
      using Cons.prems(1) event by (auto split: prod.splits)
    have "suffix rest (bytes1 @ later1)" using Cons.IH [OF run(1)] Cons.prems(2) run(2) by simp
    moreover have "suffix (bytes1 @ later1) (bytes @ later)" using step run(3) by (auto simp: suffix_def)
    ultimately show ?thesis by (rule suffix_order.trans)
  next
    case False
    then show ?thesis using Cons.prems(1) event step by auto
  qed
qed (auto simp: suffix_def)

text \<open>C5: a stream is a text. Take any loader, one that throws, reports protocol errors or asks for automatic
  replies included, and any system whose \<open>recv\<close> keeps its contract. Any number of events on a
  fresh stream end, one by one, with the same results (packets, failures, the drop of the channel, a loop that
  never ends), the same calls of the system and the same session data as when there is no ring buffer, only the text of
  the bytes that came and were not read: the loader is always given that whole text, what it reads
  is taken off its front, and the next bytes are put at its end. The bytes that wait at the end are the
  last ones of all that came, unless a loop never ended. Only how many bytes \<open>recv\<close> is offered, at least one, depends on the
  buffer. Fewer than \<open>2^63\<close> bytes are to come in all.\<close>

theorem stream_is_text:
  assumes "recv_contract os" "m_receive_stream c = no_queue"
    and "run_events os L it cid k (h, c) = (rs, bytes, (h', c'))" "length bytes < byte_limit"
  shows "(\<exists>ns. length ns = length rs \<and> list_all (\<lambda>n. 0 < n) ns \<and>
      run_text os L it cid ns (h, plain c, []) = (rs, bytes, (h', plain c', queue_list (m_receive_stream c')))) \<and>
    (list_all (\<lambda>r. r \<noteq> Inl Diverges) rs \<longrightarrow> suffix (queue_list (m_receive_stream c')) bytes)"
proof -
  have c: "queue_ok (m_receive_stream c)" "queue_used (m_receive_stream c) + length bytes < byte_limit"
      "queue_list (m_receive_stream c) = []"
    using assms(2,4) by simp_all
  obtain ns where "length ns = length rs" "list_all (\<lambda>n. 0 < n) ns"
      and run: "run_text os L it cid ns (h, plain c, []) = (rs, bytes, (h', plain c', queue_list (m_receive_stream c')))"
    using run_events_text [OF assms(1) c(1,2) assms(3)] unfolding c(3) by blast
  moreover have "suffix (queue_list (m_receive_stream c')) bytes" if "list_all (\<lambda>r. r \<noteq> Inl Diverges) rs"
    using run_text_suffix [OF assms(1) run that] by simp
  ultimately show ?thesis by blast
qed

text \<open>A loader that takes pairs, asks for a reply at a plus and reports an error at an exclamation mark, as the
  loaders of the repository do: with the error all the bytes are read. The bytes come one by one.\<close>

definition mixed_loader :: "('o, char) loader" where
  "mixed_loader buf ssd =
     (let nothing = \<lparr>all_rtt = size_max, all_pmsg = None, all_fsaver = None\<rparr>
      in case buf of
           [] \<Rightarrow> (Inr (0, nothing), ssd)
         | x # rest \<Rightarrow>
             if x = CHR ''!'' then (Inr (length buf, nothing\<lparr>all_rtt := - 2\<rparr>), ssd)
             else if x = CHR ''+'' then (Inr (1, nothing), ssd\<lparr>autoreply := ''ok''\<rparr>)
             else if rest = [] then (Inr (0, nothing), ssd\<lparr>autoreply := []\<rparr>)
             else (Inr (2, \<lparr>all_rtt = 1, all_pmsg = Some (Loaded x), all_fsaver = None\<rparr>), ssd))"

definition drip_os :: "(nat, string) os" where
  "drip_os = quiet_os\<lparr>sys_recv := (\<lambda>_ n k. let bytes = take n [''ab+!'' ! (k mod 4)] in ((int (length bytes), bytes), Suc k))\<rparr>"

definition delivered :: "'p outcome result list \<Rightarrow> 'p sock_message option list list" where
  "delivered = map (\<lambda>r. case r of Inr (Deliver ps) \<Rightarrow> map m_ptr_message ps | _ \<Rightarrow> [])"

theorem stream_is_text_witness:
  "\<exists>rs h' c' ns rest. run_events drip_os mixed_loader 1 0 4 (example_slot, channel_new :: unit channel) =
      (rs, ''ab+!'', (h', c')) \<and> delivered rs = [[], [Some (Loaded CHR ''a'')], [], [Some (Stream_protocol_error ''!'')]] \<and>
    run_text drip_os mixed_loader 1 0 ns (example_slot, plain (channel_new :: unit channel), []) =
      (rs, ''ab+!'', (h', plain c', rest))"
proof -
  obtain rs bytes h' c' where run:
      "run_events drip_os mixed_loader 1 0 4 (example_slot, channel_new :: unit channel) = (rs, bytes, (h', c'))"
    by (metis surj_pair)
  have "case run_events drip_os mixed_loader 1 0 4 (example_slot, channel_new :: unit channel) of
      (rs, bytes, _) \<Rightarrow> bytes = ''ab+!'' \<and>
        delivered rs = [[], [Some (Loaded CHR ''a'')], [], [Some (Stream_protocol_error ''!'')]]"
    by code_simp
  then have bytes: "bytes = ''ab+!''"
      and "delivered rs = [[], [Some (Loaded CHR ''a'')], [], [Some (Stream_protocol_error ''!'')]]"
    unfolding run by simp_all
  moreover have contract: "recv_contract drip_os" by (simp add: recv_contract_def drip_os_def Let_def)
  have "m_receive_stream (channel_new :: unit channel) = no_queue" by (simp add: channel_new_def channel_of_def)
  from stream_is_text [OF contract this run] obtain ns where
      "run_text drip_os mixed_loader 1 0 ns (example_slot, plain (channel_new :: unit channel), []) =
        (rs, bytes, (h', plain c', queue_list (m_receive_stream c')))"
    by (auto simp: bytes)
  ultimately show ?thesis using run by blast
qed

section \<open>A reply that is never taken back\<close>

text \<open>
  Nothing in the library empties \<open>autoreply\<close> once it is set. When a message is incomplete then,
  and the loader waits without reading a byte, the loop sends the reply over and over: it never
  returns, unless a call fails.
\<close>

theorem autoreply_never_ends:
  assumes "deliver_loop os L it cid h c res = Some (r, h', c')"
    and "queue_ok (m_receive_stream c)" "queue_list (m_receive_stream c) \<noteq> []"
    and "L (queue_list (m_receive_stream c)) (m_special_data c) = (Inr (0, a), m_special_data c)"
    and "all_rtt a \<noteq> - 2" "all_pmsg a = None" "autoreply (m_special_data c) \<noteq> []"
  shows "\<exists>e. r = Inl e"
proof -
  define q ssd where "q = m_receive_stream c" and "ssd = m_special_data c"
  have q: "queue_copy_out q (begin_index q) = Inr (queue_list q)" "\<not> queue_empty q"
    using assms(2,3) copy_out_all by (auto simp: q_def queue_empty_def)
  have L: "L (queue_list q) ssd = (Inr (0, a), ssd)" "autoreply ssd \<noteq> []"
    using assms(4,7) by (simp_all add: q_def ssd_def)
  have "m_receive_stream c = q \<and> m_special_data c = ssd \<longrightarrow> (\<exists>e. fst (r, h', c') = Inl e)"
  proof (rule deliver_loop.raw_induct [OF _ assms(1),
      where P = "\<lambda>os L' it cid h c res y. L' = L \<longrightarrow> m_receive_stream c = q \<and> m_special_data c = ssd \<longrightarrow> (\<exists>e. fst y = Inl e)",
      THEN mp, OF _ refl], intro impI, goal_cases)
    case (1 f os L' it cid h c res y)
    obtain s h1 out where send: "async_send os it (m_socket_descriptor c) cid (m_eh_id c) (autoreply ssd) (h, m_send_stream c) = (s, (h1, out))"
      by (metis surj_pair)
    have c: "c\<lparr>m_special_data := ssd, m_receive_stream := q\<rparr> = c" using 1(4) by auto
    have run: "(case s of Inl e \<Rightarrow> Some (Inl e, h1, c\<lparr>m_send_stream := out\<rparr>)
        | Inr _ \<Rightarrow> f os L it cid h1 (c\<lparr>m_send_stream := out\<rparr>) res) = Some y"
      using 1(2-4) q L assms(5,6) send c by (cases s) (simp_all add: Let_def)
    show ?case
    proof (cases s)
      case (Inl e)
      then show ?thesis using run by auto
    next
      case (Inr u)
      then have "f os L it cid h1 (c\<lparr>m_send_stream := out\<rparr>) res = Some y" using run by simp
      from 1(1) [OF this] show ?thesis using 1(4) by simp
    qed
  qed
  then show ?thesis by (simp add: q_def ssd_def)
qed

text \<open>A loader that waits for a second byte.\<close>

definition pair_loader :: "('o, char) loader" where
  "pair_loader buf ssd =
     (case buf of
        x # y # _ \<Rightarrow> (Inr (2, \<lparr>all_rtt = 1, all_pmsg = Some (Loaded x), all_fsaver = None\<rparr>), ssd)
      | _ \<Rightarrow> (Inr (0, \<lparr>all_rtt = size_max, all_pmsg = None, all_fsaver = None\<rparr>), ssd))"

theorem autoreply_never_ends_witness:
  "\<exists>q. queue_list q = ''x'' \<and> \<not> (\<exists>ps h' c'. deliver_loop quiet_os pair_loader 1 0 example_slot
      ((channel_new :: unit channel)\<lparr>m_receive_stream := q, m_special_data := session_special_data_new\<lparr>autoreply := ''hi''\<rparr>\<rparr>) [] =
    Some (Inr ps, h', c'))"
proof -
  obtain q where q: "queue_ok q" "queue_list q = ''x''"
    using push_bytes_spec [of no_queue "''x''"] by auto
  let ?c = "(channel_new :: unit channel)\<lparr>m_receive_stream := q, m_special_data := session_special_data_new\<lparr>autoreply := ''hi''\<rparr>\<rparr>"
  have "False" if "deliver_loop quiet_os pair_loader 1 0 example_slot ?c [] = Some (Inr ps, h', c')" for ps h' c'
    using autoreply_never_ends [OF that, of "\<lparr>all_rtt = size_max, all_pmsg = None, all_fsaver = None\<rparr>"] q
    by (simp add: pair_loader_def)
  then show ?thesis using q(2) by blast
qed

end
