(* ===== verification/Socket_Invariant.thy ===== *)
theory Socket_Invariant
  imports Socket
begin

text \<open>
  The link between the slots of the event handler and the channels of a socket survives every
  call on the socket: listening, opening, sending, and receiving with all its branches, also
  when the call fails on the way.
\<close>

section \<open>Steps on the slot of a channel\<close>

text \<open>What a call on a stream may do to the event handler: its own slot stays, is closed, or is
  taken again for the same channel.\<close>

definition slot_step :: "nat \<Rightarrow> u64 \<Rightarrow> u64 \<Rightarrow> 'k handler \<Rightarrow> 'k handler \<Rightarrow> bool" where
  "slot_step it cid eid h h' \<longleftrightarrow> eh_inv h \<longrightarrow> eh_inv h' \<and> eh_fresh h' = eh_fresh h \<and>
     (eh_live h' = eh_live h \<or> eh_live h' = (eh_live h)(unat eid := None) \<or>
      eh_live h' = (eh_live h)(unat eid \<mapsto> event_slot_of cid it))"

lemma slot_step_refl [simp]: "slot_step it cid eid h h"
  by (simp add: slot_step_def)

lemma slot_step_trans: "slot_step it cid eid h h1 \<Longrightarrow> slot_step it cid eid h1 h2 \<Longrightarrow> slot_step it cid eid h h2"
  unfolding slot_step_def by auto

lemma slot_step_os [simp]: "slot_step it cid eid h (h\<lparr>os_state := k\<rparr>)"
  by (simp add: slot_step_def eh_inv_def eh_live_def eh_fresh_def)

lemma rearm_slot: "rearm os it fd cid eid before after h = (r, h') \<Longrightarrow> slot_step it cid eid h h'"
  using rearm_effect [of h os it fd cid eid before after r h'] by (auto simp: slot_step_def split: sum.splits)

lemma async_send_slot:
  "async_send os it fd cid eid message (h, q) = (r, (h', q')) \<Longrightarrow> slot_step it cid eid h h'"
  by (cases "queue_empty q")
     (auto simp: async_send_def on_eh_def on_part_def then_do_def give_def
        split: prod.splits sum.splits dest: rearm_slot)

lemma native_send_slot:
  assumes "native_send os it fd cid eid error_code (h, q) = (r, (h', q'))"
  shows "slot_step it cid eid h h'"
proof (cases "send_chunk q (begin_index q) []")
  case (Inl e)
  then show ?thesis using assms by (simp add: native_send_def)
next
  case (Inr buffer)
  show ?thesis
  proof (cases "buffer = []")
    case True
    then show ?thesis using assms Inr by (simp add: native_send_def)
  next
    case False
    obtain n k where sent: "sys_send os fd buffer (os_state h) = (n, k)" by fastforce
    have rest: "slot_step it cid eid h h'"
      if "(case x of Inl e \<Rightarrow> (Inl e, (h\<lparr>os_state := k\<rparr>, q)) | Inr q1 \<Rightarrow>
          then_do (if queue_empty q1 then on_eh (rearm os it fd cid eid Task_send Task_receive) else give ())
            (\<lambda>_. give y) (h\<lparr>os_state := k\<rparr>, q1)) = (r, (h', q'))" for x y
    proof (cases x)
      case (Inl e)
      then show ?thesis using that by auto
    next
      case (Inr q1)
      then show ?thesis
        using that
        by (cases "queue_empty q1")
           (auto simp: on_eh_def on_part_def then_do_def give_def split: prod.splits sum.splits
             dest!: rearm_slot intro: slot_step_trans [OF slot_step_os])
    qed
    define blocked where "blocked \<longleftrightarrow> - 1 = n \<and> (ewouldblock = sys_errno os k \<or> eagain = sys_errno os k)"
    define res where "res = (if blocked then 0 else n)"
    define ec where "ec = (if \<not> blocked \<and> - 1 = n then sys_errno os k else error_code)"
    have "(if - 1 = n \<and> (ewouldblock = sys_errno os k \<or> eagain = sys_errno os k) then (0, error_code)
        else if - 1 = n then (n, sys_errno os k) else (n, error_code)) = (res, ec)"
      by (simp add: res_def ec_def blocked_def)
    then have "(case (if - 1 \<noteq> res then pop_bytes (unat (word_of_int res :: usize)) q else pop_all q) of
        Inl e \<Rightarrow> (Inl e, (h\<lparr>os_state := k\<rparr>, q))
      | Inr q1 \<Rightarrow> then_do (if queue_empty q1 then on_eh (rearm os it fd cid eid Task_send Task_receive) else give ())
          (\<lambda>_. give (word_of_int res, ec)) (h\<lparr>os_state := k\<rparr>, q1)) = (r, (h', q'))"
      using assms Inr False unfolding native_send_def by (simp add: sent Let_def del: if_split)
    then show ?thesis by (rule rest)
  qed
qed

text \<open>What no call on a stream changes of its channel.\<close>

definition same_channel :: "'o channel \<Rightarrow> 'o channel \<Rightarrow> bool" where
  "same_channel c c' \<longleftrightarrow> m_closed c' = m_closed c \<and> m_eh_id c' = m_eh_id c \<and> m_type c' = m_type c \<and>
     m_socket_descriptor c' = m_socket_descriptor c \<and> m_attempts c' = m_attempts c \<and>
     m_socket_bundle c' = m_socket_bundle c"

lemma same_channel_refl [simp]: "same_channel c c"
  by (simp add: same_channel_def)

lemma deliver_loop_slot:
  assumes "deliver_loop os L it cid h c res = Some (r, h', c')"
  shows "slot_step it cid (m_eh_id c) h h' \<and> same_channel c c'"
proof -
  have "slot_step it cid (m_eh_id c) h (fst (snd (r, h', c'))) \<and> same_channel c (snd (snd (r, h', c')))"
  proof (rule deliver_loop.raw_induct [OF _ assms,
      where P = "\<lambda>os L it cid h c res y. slot_step it cid (m_eh_id c) h (fst (snd y)) \<and> same_channel c (snd (snd y))"],
      goal_cases)
    case (1 f os L it cid h c res y)
    have more: "slot_step it cid (m_eh_id c) h (fst (snd y)) \<and> same_channel c (snd (snd y))"
      if "f os L it cid h1 c1 res1 = Some y" "slot_step it cid (m_eh_id c) h h1" "same_channel c c1" for h1 c1 res1
    proof -
      have "m_eh_id c1 = m_eh_id c" using that(3) by (simp add: same_channel_def)
      then show ?thesis
        using 1(1) [OF that(1)] that(2,3) slot_step_trans by (fastforce simp: same_channel_def)
    qed
    have stop: "slot_step it cid (m_eh_id c) h (fst (snd y)) \<and> same_channel c (snd (snd y))"
      if "y = (w, h, c1)" "same_channel c c1" for w c1
      using that by simp
    show ?case
    proof (cases "queue_empty (m_receive_stream c)")
      case True
      then show ?thesis using 1(2) by (auto intro: stop)
    next
      case ne: False
      show ?thesis
      proof (cases "queue_copy_out (m_receive_stream c) (begin_index (m_receive_stream c))")
        case (Inl e)
        then show ?thesis using 1(2) ne by (auto intro: stop)
      next
        case buf: (Inr buf)
        obtain a ssd where L: "L buf (m_special_data c) = (a, ssd)" by fastforce
        have c1: "same_channel c (c\<lparr>m_special_data := ssd\<rparr>)" by (simp add: same_channel_def)
        show ?thesis
        proof (cases a)
          case (Inl e)
          then show ?thesis using 1(2) ne buf L c1 by (auto intro: stop)
        next
          case a: (Inr p)
          obtain n pm where p: "p = (n, pm)" by fastforce
          show ?thesis
          proof (cases "pop_read n (m_receive_stream c)")
            case (Inl e)
            then show ?thesis using 1(2) ne buf L a p c1 by (auto intro: stop)
          next
            case q: (Inr q)
            let ?c = "c\<lparr>m_special_data := ssd, m_receive_stream := q\<rparr>"
            have c2: "same_channel c ?c" by (simp add: same_channel_def)
            show ?thesis
            proof (cases "all_rtt pm = - 2 \<or> all_pmsg pm \<noteq> None")
              case True
              then obtain res1 where "f os L it cid h ?c res1 = Some y"
                using 1(2) ne buf L a p q by (cases "all_rtt pm = - 2") (auto simp: Let_def)
              then show ?thesis by (rule more [OF _ slot_step_refl c2])
            next
              case none: False
              show ?thesis
              proof (cases "autoreply ssd = []")
                case True
                then show ?thesis using 1(2) ne buf L a p q none c2 by (auto simp: Let_def intro: stop)
              next
                case False
                obtain r h1 out where sent: "async_send os it (m_socket_descriptor c) cid (m_eh_id c) (autoreply ssd)
                    (h, m_send_stream c) = (r, (h1, out))"
                  by (metis prod_cases3)
                have c3: "same_channel c (?c\<lparr>m_send_stream := out\<rparr>)" by (simp add: same_channel_def)
                have "y = (Inl e, h1, ?c\<lparr>m_send_stream := out\<rparr>)" if "r = Inl e" for e
                  using 1(2) ne buf L a p q none False sent that by (simp add: Let_def)
                moreover have "f os L it cid h1 (?c\<lparr>m_send_stream := out\<rparr>) res = Some y" if "r = Inr u" for u
                  using 1(2) ne buf L a p q none False sent that by (simp add: Let_def)
                ultimately show ?thesis
                  using async_send_slot [OF sent] c3 more by (cases r) fastforce+
              qed
            qed
          qed
        qed
      qed
    qed
  qed
  then show ?thesis by simp
qed

section \<open>Calls that keep the invariant\<close>

text \<open>At most \<open>N\<close> new ids are used up, and the invariant holds afterwards, also when the call
  failed.\<close>

definition kept :: "nat \<Rightarrow> ('k, 'o) internals \<Rightarrow> ('k, 'o) internals \<Rightarrow> bool" where
  "kept N s s' \<longleftrightarrow> sock_inv s' \<and> sock_used s' \<le> sock_used s + N \<and> self_item s' = self_item s"

definition keeps :: "nat \<Rightarrow> (('k, 'o) internals, 'a) call \<Rightarrow> bool" where
  "keeps N m \<longleftrightarrow> (\<forall>s r s'. m s = (r, s') \<longrightarrow> sock_inv s \<longrightarrow> sock_used s + N \<le> id_limit \<longrightarrow> kept N s s')"

named_theorems keep_rules

lemma keepsD: "keeps N m \<Longrightarrow> m s = (r, s') \<Longrightarrow> sock_inv s \<Longrightarrow> sock_used s + N \<le> id_limit \<Longrightarrow> kept N s s'"
  by (auto simp: keeps_def)

lemma kept_trans: "kept N s s1 \<Longrightarrow> kept M s1 s2 \<Longrightarrow> kept (N + M) s s2"
  by (auto simp: kept_def)

lemma kept_mono: "kept N s s' \<Longrightarrow> N \<le> M \<Longrightarrow> kept M s s'"
  by (auto simp: kept_def)

lemma kept_refl: "sock_inv s \<Longrightarrow> kept N s s"
  by (auto simp: kept_def)

lemma kept_same: "same_tables s s' \<Longrightarrow> sock_inv s \<Longrightarrow> kept N s s'"
  using same_tables_inv [of s s'] by (auto simp: kept_def same_tables_def)

lemma keeps_mono: "keeps N m \<Longrightarrow> N \<le> M \<Longrightarrow> keeps M m"
  unfolding keeps_def by (meson add_le_cancel_left kept_mono le_trans)

lemma keeps_bind:
  assumes "keeps N m" "\<And>x s s'. m s = (Inr x, s') \<Longrightarrow> keeps M (f x)"
  shows "keeps (N + M) (then_do m f)"
  unfolding keeps_def
proof (intro allI impI)
  fix s r s'
  assume run: "then_do m f s = (r, s')" and inv: "sock_inv s" and few: "sock_used s + (N + M) \<le> id_limit"
  obtain a s1 where m: "m s = (a, s1)" by fastforce
  have k1: "kept N s s1" using keepsD [OF assms(1) m inv] few by simp
  show "kept (N + M) s s'"
  proof (cases a)
    case (Inl e)
    then show ?thesis using run m kept_mono [OF k1, of "N + M"] by (simp add: then_do_def)
  next
    case (Inr x)
    have "f x s1 = (r, s')" "keeps M (f x)"
      using run m Inr assms(2) by (simp_all add: then_do_def)
    moreover have "sock_inv s1" "sock_used s1 + M \<le> id_limit" using k1 few by (auto simp: kept_def)
    ultimately have "kept M s1 s'" by (intro keepsD)
    then show ?thesis using k1 kept_trans by blast
  qed
qed

lemma keeps_then [keep_rules]: "keeps N m \<Longrightarrow> (\<And>x. keeps 0 (f x)) \<Longrightarrow> keeps N (then_do m f)"
  using keeps_bind [of N m 0 f] by simp

lemma keeps_after: "keeps 0 m \<Longrightarrow> (\<And>x. keeps M (f x)) \<Longrightarrow> keeps M (then_do m f)"
  using keeps_bind [of 0 m M f] by simp

lemma keeps_simple [keep_rules]: "keeps N (give x)" "keeps N (raise e)" "keeps N (lift_result y)"
  by (auto simp: keeps_def give_def raise_def lift_result_def kept_refl)

lemma keeps_os [keep_rules]: "keeps N (on_os m)"
  using on_os_same kept_same by (fastforce simp: keeps_def)

lemma keeps_guard [keep_rules]:
  assumes "keeps N m"
  shows "keeps N (guarded_scope (on_os cleanup) m)"
  unfolding keeps_def
proof (intro allI impI)
  fix s r s'
  assume run: "guarded_scope (on_os cleanup) m s = (r, s')" and inv: "sock_inv s" "sock_used s + N \<le> id_limit"
  show "kept N s s'"
  proof (cases r)
    case (Inr x)
    then show ?thesis using run assms inv by (auto simp: guarded_scope_Inr intro: keepsD)
  next
    case (Inl e)
    with run guarded_scope_Inl [of "on_os cleanup" m s e s']
    obtain e1 s1 where b: "m s = (Inl e1, s1)" "s' = s1 \<or> (\<exists>r. on_os cleanup s1 = (r, s'))" by blast
    have k: "kept N s s1" using b(1) assms inv by (auto intro: keepsD)
    then have "s' = s1 \<or> same_tables s1 s'" using b(2) on_os_same by blast
    then show ?thesis
      using k kept_same [of s1 s' 0] kept_trans [of N s s1 0 s'] by (auto simp: kept_def)
  qed
qed

lemma keeps_add:
  assumes "channel_action type attempts = Task_connect \<Longrightarrow> target \<noteq> None"
  shows "keeps (Suc 0) (add_channel os fd type attempts target)"
  unfolding keeps_def
proof (intro allI impI)
  fix s r s'
  assume run: "add_channel os fd type attempts target s = (r, s')" and inv: "sock_inv s"
    and few: "sock_used s + Suc 0 \<le> id_limit"
  have "sock_used s < id_limit" using few by (simp only: add_Suc_right add_0_right Suc_le_eq)
  then show "kept (Suc 0) s s'"
    using add_channel_effect [OF inv _ assms run] by (simp add: kept_def)
qed

lemma delete_kept: "delete_channel os cid s = (r, s') \<Longrightarrow> sock_inv s \<Longrightarrow> kept 0 s s'"
  using delete_channel_effect [of s os cid r s'] by (simp add: kept_def)

section \<open>Listening and opening\<close>

text \<open>The system gives at most \<open>B\<close> addresses for a name.\<close>

definition addr_bound :: "('k, 'x, 'm) os_scheme \<Rightarrow> nat \<Rightarrow> bool" where
  "addr_bound os B \<longleftrightarrow> (\<forall>name port family passive k.
     case sys_getaddrinfo os name port family passive k of ((rv, servinfo), k') \<Rightarrow> length servinfo \<le> B)"

lemma getaddressinfo_bound:
  assumes "addr_bound os B" "getaddressinfo os family dest hold k = (Inr servinfo, k')"
  shows "length servinfo \<le> B"
proof -
  let ?name = "if address dest = [] then None else Some (address dest)"
  let ?call = "sys_getaddrinfo os ?name (to_string (unat (port dest))) family (address dest = []) k"
  have "case ?call of ((rv, servinfo), k') \<Rightarrow> length servinfo \<le> B"
    using assms(1) unfolding addr_bound_def by (elim allE)
  moreover obtain rv infos k1 where call: "?call = ((rv, infos), k1)"
    by (cases ?call) auto
  ultimately have infos: "length infos \<le> B" by simp
  have "servinfo = [] \<or> servinfo = infos"
    using assms(2) call unfolding getaddressinfo_def Let_def by (simp split: if_split_asm)
  then show ?thesis using infos by auto
qed

lemma make_sockets_length:
  "make_sockets os b reuse alive n ps res k = (Inr socks, k') \<Longrightarrow> length socks = length res + length ps"
proof (induction os b reuse alive n ps res k rule: make_sockets.induct)
  case (2 os b reuse alive n p ps res k)
  then show ?case by (force simp: then_do_Inr)
qed simp

lemma bound_sockets_length:
  "bound_sockets os servinfo s = (Inr socks, s') \<Longrightarrow> length socks = length servinfo"
  by (auto simp: bound_sockets_def on_os_def on_part_def sockets_for_def split: prod.splits if_splits
      dest: make_sockets_length)

lemma keeps_give_up: "keeps (Suc 0) (then_do (on_os m) (\<lambda>_. give x))"
  by (intro keeps_then keeps_os keeps_simple)

lemma keeps_listen_one:
  "keeps (Suc 0) (listen_one os backlog fd pinfo :: (('k, 'o) internals, string + string) call)"
proof -
  have add: "keeps (Suc 0) (then_do (add_channel os fd Listening 0 None) (\<lambda>peer. give (Inr peer :: string + string))
      :: (('k, 'o) internals, string + string) call)"
    by (intro keeps_then keeps_add keeps_simple) (simp add: channel_action_def)
  show ?thesis
    unfolding listen_one_def
    by (intro keeps_after keeps_simple keeps_os) (auto simp: keeps_give_up add split: prod.splits)
qed

lemma keeps_listen_loop:
  "keeps (length socks) (listen_loop os backlog socks peers error_message :: (('k, 'o) internals, string list) call)"
proof (induction socks arbitrary: peers error_message)
  case (Cons s socks)
  obtain fd pinfo where "s = (fd, pinfo)" by fastforce
  moreover have "keeps (1 + length socks) (listen_loop os backlog ((fd, pinfo) # socks) peers error_message
      :: (('k, 'o) internals, string list) call)"
    unfolding listen_loop.simps
    by (rule keeps_bind [OF keeps_guard [OF keeps_listen_one [unfolded One_nat_def [symmetric]]]]) (simp add: Cons split: sum.splits)
  ultimately show ?case by simp
qed (simp add: keeps_simple)

lemma keeps_bound_sockets:
  fixes os :: "('k, 'x, 'm) os_scheme"
  assumes "addr_bound os B" "getaddressinfo os family dest False k = (Inr servinfo, k')"
    and f: "\<And>socks. keeps (length socks) (f socks :: (('k, 'o) internals, 'a) call)"
  shows "keeps B (then_do (bound_sockets os servinfo) f)"
proof (rule keeps_bind [of 0 _ B, simplified], goal_cases)
  case 1
  show ?case
    unfolding keeps_def bound_sockets_def using on_os_same kept_same by blast
next
  case (2 socks s s1)
  have "length socks \<le> B"
    using bound_sockets_length [OF 2] getaddressinfo_bound [OF assms(1,2)] by simp
  with f show ?case by (rule keeps_mono)
qed

lemma on_os_result: "on_os m s = (Inr x, s') \<Longrightarrow> \<exists>k'. m (os_state (m_peh s)) = (Inr x, k')"
  by (auto simp: on_os_def on_part_def split: prod.splits)

lemma keeps_socket_listen:
  assumes "addr_bound os B"
  shows "keeps B (socket_listen os addr backlog)"
  unfolding socket_listen_def
proof (rule keeps_bind [of 0 _ B, simplified], goal_cases)
  case 1
  show ?case by (rule keeps_os)
next
  case (2 servinfo s s1)
  then obtain k' where "getaddressinfo os (ai_family_of (ip_type addr)) (local_dest addr) False (os_state (m_peh s)) =
      (Inr servinfo, k')"
    by (elim exE [OF on_os_result])
  then show ?case by (rule keeps_bound_sockets [OF assms]) (rule keeps_listen_loop)
qed

lemma keeps_open_one:
  "keeps (Suc 0) (open_one os addr attempts fd pinfo :: (('k, 'o) internals, string list) call)"
proof -
  have add: "keeps (Suc 0) (then_do (add_channel os fd Streaming_opened attempts (Some (a, addr))) (\<lambda>peer. give [peer])
      :: (('k, 'o) internals, string list) call)" for a
    by (intro keeps_then keeps_add keeps_simple) simp
  show ?thesis
    unfolding open_one_def
    by (intro keeps_after keeps_simple keeps_os)
       (auto simp: keeps_give_up intro: keeps_after keeps_simple add split: list.splits)
qed

lemma keeps_open_loop:
  "keeps (length socks) (open_loop os addr attempts socks peers :: (('k, 'o) internals, string list) call)"
proof (induction socks arbitrary: peers)
  case (Cons s socks)
  obtain fd pinfo where "s = (fd, pinfo)" by fastforce
  moreover have "keeps (1 + length socks) (open_loop os addr attempts ((fd, pinfo) # socks) peers
      :: (('k, 'o) internals, string list) call)"
    unfolding open_loop.simps by (rule keeps_bind [OF keeps_guard [OF keeps_open_one [unfolded One_nat_def [symmetric]]] Cons])
  ultimately show ?case by simp
qed (simp add: keeps_simple)

lemma keeps_socket_open:
  fixes os :: "('k, 'x, 'm) os_scheme"
  assumes "addr_bound os B"
  shows "keeps B (socket_open os addr attempts :: (('k, 'o) internals, string list) call)"
proof -
  have *: "keeps B (then_do (on_os (getaddressinfo os (ai_family_of (ip_type a)) (local_dest a) False)) (\<lambda>localinfo.
      then_do (bound_sockets os localinfo) (\<lambda>socks. open_loop os a n socks []))
        :: (('k, 'o) internals, string list) call)" for a n
  proof (rule keeps_bind [of 0 _ B, simplified], goal_cases)
    case 1
    show ?case by (rule keeps_os)
  next
    case (2 servinfo s s1)
    then obtain k' where "getaddressinfo os (ai_family_of (ip_type a)) (local_dest a) False (os_state (m_peh s)) =
        (Inr servinfo, k')"
      by (elim exE [OF on_os_result])
    then show ?case by (rule keeps_bound_sockets [OF assms]) (rule keeps_open_loop)
  qed
  show ?thesis unfolding socket_open_def Let_def by (rule *)
qed


section \<open>Receiving\<close>

lemma slot_step_kept:
  assumes inv: "sock_inv s" and live: "sock_live s (unat cid) = Some c"
    and step: "slot_step (self_item s) cid (m_eh_id c) (m_peh s) h"
  shows "kept 0 s (s\<lparr>m_peh := h\<rparr>)"
proof -
  have h: "eh_inv h" "eh_fresh h = eh_fresh (m_peh s)"
      "eh_live h = eh_live (m_peh s) \<or> eh_live h = (eh_live (m_peh s))(unat (m_eh_id c) := None) \<or>
       eh_live h = (eh_live (m_peh s))(unat (m_eh_id c) \<mapsto> event_slot_of cid (self_item s))"
    using step inv by (auto simp: slot_step_def sock_inv_def)
  have "linked (s\<lparr>m_peh := h\<rparr>)"
    using h(3) inv live
    by (auto simp: linked_def sock_inv_def sock_live_def event_slot_of_def split: if_splits)
  then show ?thesis
    using h(1,2) inv by (simp add: kept_def sock_inv_def sock_used_def sock_fresh_def)
qed

text \<open>The channel a call works on.\<close>

definition at_channel :: "nat \<Rightarrow> u64 \<Rightarrow> 'o channel \<Rightarrow> ('k, 'o) internals \<Rightarrow> bool" where
  "at_channel n cid c s \<longleftrightarrow> table_find (m_lst_channels s) cid = Some n \<and> sock_live s (unat cid) = Some c"

lemma at_channel_peh [simp]: "at_channel n cid c (s\<lparr>m_peh := h\<rparr>) = at_channel n cid c s"
  by (simp add: at_channel_def sock_live_def)

lemma at_channel_open: "at_channel n cid c s \<Longrightarrow> \<not> m_closed c"
  by (auto simp: at_channel_def sock_live_def table_live_def split: option.splits if_splits)

lemma put_kept:
  assumes inv: "sock_inv s" and at: "at_channel n cid c s" and c': "m_eh_id c' = m_eh_id c" "\<not> m_closed c'"
  shows "\<exists>s'. put_channel n cid c' s = (Inr (), s') \<and> kept 0 s s' \<and> at_channel n cid c' s' \<and> m_peh s' = m_peh s"
proof -
  have "table_ok (m_lst_channels s)" using inv by (simp add: sock_inv_def)
  then obtain tbl where put: "put_channel n cid c' s = (Inr (), s\<lparr>m_lst_channels := tbl\<rparr>)" "table_ok tbl"
      "table_find tbl cid = Some n"
      "sock_live (s\<lparr>m_lst_channels := tbl\<rparr>) = (sock_live s)(unat cid \<mapsto> c')"
      "sock_fresh (s\<lparr>m_lst_channels := tbl\<rparr>) = sock_fresh s"
    using put_channel_found [of s cid n c'] at c' by (auto simp: at_channel_def)
  have "linked (s\<lparr>m_lst_channels := tbl\<rparr>)"
    using inv at c' put(4) by (fastforce simp: linked_def sock_inv_def at_channel_def)
  then show ?thesis
    using put inv by (auto simp: kept_def sock_inv_def sock_used_def at_channel_def)
qed

text \<open>After a step on the slot of a channel the channel is put back.\<close>

lemma put_slot_step:
  assumes inv: "sock_inv s" and at: "at_channel n cid c s"
    and step: "slot_step (self_item s) cid (m_eh_id c) (m_peh s) h" and c': "m_eh_id c' = m_eh_id c" "\<not> m_closed c'"
  shows "\<exists>s'. put_channel n cid c' (s\<lparr>m_peh := h\<rparr>) = (Inr (), s') \<and> kept 0 s s' \<and> at_channel n cid c' s'"
proof -
  have k: "kept 0 s (s\<lparr>m_peh := h\<rparr>)"
    using slot_step_kept [OF inv _ step] at by (simp add: at_channel_def)
  then obtain s' where "put_channel n cid c' (s\<lparr>m_peh := h\<rparr>) = (Inr (), s')" "kept 0 (s\<lparr>m_peh := h\<rparr>) s'"
      "at_channel n cid c' s'"
    using put_kept [of "s\<lparr>m_peh := h\<rparr>" n cid c c'] at c' by (auto simp: kept_def)
  then show ?thesis using kept_trans [OF k, of 0 s'] by auto
qed

lemma stream_send_slot:
  assumes "stream_send os it cid error_code (h, c) = (r, (h', c'))"
  shows "slot_step it cid (m_eh_id c) h h' \<and> same_channel c c'"
proof -
  obtain x h1 q where sent: "native_send os it (m_socket_descriptor c) cid (m_eh_id c) error_code (h, m_send_stream c) =
      (x, (h1, q))" by (metis prod_cases3)
  have "h' = h1 \<and> c' = c\<lparr>m_send_stream := q\<rparr>"
    using assms sent by (cases x) (auto simp: stream_send_def Let_def split: if_splits prod.splits)
  then show ?thesis using native_send_slot [OF sent] by (simp add: same_channel_def)
qed

lemma stream_deliver_slot:
  assumes "stream_deliver os L it cid pos n (h, c) = (r, (h', c'))"
  shows "slot_step it cid (m_eh_id c) h h' \<and> same_channel c c'"
proof (cases "push_received (length (m_vec_queue (m_receive_stream c))) pos n (m_receive_stream c)")
  case (Inl e)
  then show ?thesis using assms by (simp add: stream_deliver_def)
next
  case (Inr q)
  let ?c = "c\<lparr>m_receive_stream := q\<rparr>"
  have c: "m_eh_id ?c = m_eh_id c" "same_channel ?c c' = same_channel c c'" by (simp_all add: same_channel_def)
  show ?thesis
  proof (cases "deliver_loop os L it cid h ?c []")
    case None
    then show ?thesis using assms Inr by (simp add: stream_deliver_def)
  next
    case (Some y)
    obtain x h1 c1 where y: "y = (x, h1, c1)" by (metis prod_cases3)
    then have "h' = h1 \<and> c' = c1"
      using assms Inr Some by (cases x) (simp_all add: stream_deliver_def)
    then show ?thesis using deliver_loop_slot [OF Some [unfolded y]] c by simp
  qed
qed

lemma stream_event_slot:
  assumes "stream_event os L it cid (h, c) = (r, (h', c'))"
  shows "slot_step it cid (m_eh_id c) h h' \<and> same_channel c c'"
proof (cases "queue_reserve no_char 64 (m_receive_stream c)")
  case (Inl e)
  then show ?thesis using assms by (simp add: stream_event_def)
next
  case q: (Inr q)
  have rs: "same_channel c (c\<lparr>m_receive_stream := x\<rparr>)" for x by (simp add: same_channel_def)
  show ?thesis
  proof (cases "get_free_range q")
    case (Inl e)
    then show ?thesis using assms q rs by (auto simp: stream_event_def)
  next
    case (Inr p)
    obtain pos size where p: "p = (pos, size)" by fastforce
    obtain res bytes ec k where rd: "native_recv os (m_socket_descriptor c) size (os_state h) = ((res, bytes, ec), k)"
      by (cases "native_recv os (m_socket_descriptor c) size (os_state h)") auto
    show ?thesis
    proof (cases "queue_fill pos bytes q")
      case (Inl e)
      then show ?thesis using assms q Inr p rd rs by (auto simp: stream_event_def)
    next
      case f: (Inr q1)
      let ?h = "h\<lparr>os_state := k\<rparr>" and ?c = "c\<lparr>m_receive_stream := q1\<rparr>"
      have same: "same_channel ?c d = same_channel c d" for d by (simp add: same_channel_def)
      have eq: "stream_event os L it cid (h, c) =
          (if check_recv_block res ec then stream_send os it cid ec (?h, ?c)
           else let res = (if check_recv_connect res ec then 0 else res)
                in if check_recv_fail res
                   then (Inl (Runtime_error (''recv(): '' @ sys_strerror os ec)), (?h, ?c))
                   else if 0 = res then (Inr Drop_channel, (?h, ?c))
                   else stream_deliver os L it cid (unat pos) (unat res) (?h, ?c))"
        unfolding stream_event_def by (simp add: q Inr p rd f)
      consider "stream_send os it cid ec (?h, ?c) = (r, (h', c'))" | "h' = ?h" "c' = ?c"
        | m where "stream_deliver os L it cid (unat pos) m (?h, ?c) = (r, (h', c'))"
        using assms unfolding eq Let_def by (auto split: if_split_asm)
      then show ?thesis
      proof cases
        case 1
        then show ?thesis using stream_send_slot [OF 1] same slot_step_trans [OF slot_step_os] by auto
      next
        case 2
        then show ?thesis using rs by simp
      next
        case 3
        then show ?thesis using stream_deliver_slot [OF 3] same slot_step_trans [OF slot_step_os] by auto
      qed
    qed
  qed
qed


text \<open>A run of a call that starts in a given state.\<close>

lemma kept_bind:
  assumes run: "then_do m f s = (r, s')" and m: "\<And>a s1. m s = (a, s1) \<Longrightarrow> kept N s s1"
    and f: "\<And>x s1. m s = (Inr x, s1) \<Longrightarrow> f x s1 = (r, s') \<Longrightarrow> kept N s s1 \<Longrightarrow> kept M s1 s'"
  shows "kept (N + M) s s'"
proof -
  obtain a s1 where a: "m s = (a, s1)" by fastforce
  note k = m [OF a]
  show ?thesis
  proof (cases a)
    case (Inl e)
    then have "s' = s1" using run a by (simp add: then_do_def)
    then show ?thesis using k kept_mono by fastforce
  next
    case (Inr x)
    then show ?thesis using run a f [of x s1] k kept_trans by (fastforce simp: then_do_def)
  qed
qed

lemma receive_stream_kept:
  assumes inv: "sock_inv s" and at: "at_channel n cid c s"
    and run: "receive_stream os L cid n c s = (r, s')"
  shows "kept 0 s s'"
proof -
  obtain x h c1 where ev: "stream_event os L (self_item s) cid (m_peh s, c) = (x, (h, c1))"
    by (metis prod_cases3)
  have step: "slot_step (self_item s) cid (m_eh_id c) (m_peh s) h" "same_channel c c1"
    using stream_event_slot [OF ev] by simp_all
  then obtain s1 where s1: "put_channel n cid c1 (s\<lparr>m_peh := h\<rparr>) = (Inr (), s1)" "kept 0 s s1"
    using put_slot_step [OF inv at step(1), of c1] at_channel_open [OF at] by (auto simp: same_channel_def)
  have "kept 0 s1 s'"
  proof (cases "x = Inr Drop_channel")
    case True
    obtain a s2 where d: "delete_channel os cid s1 = (a, s2)" by fastforce
    have "kept 0 s1 s2" using delete_kept [OF d] s1(2) by (simp add: kept_def)
    then show ?thesis
      using run ev s1(1) True d by (cases a) (auto simp: receive_stream_def then_do_def give_def raise_def)
  next
    case False
    then have "s' = s1"
      using run ev s1(1)
      by (auto simp: receive_stream_def Let_def then_do_def give_def raise_def split: sum.splits outcome.splits)
    then show ?thesis using s1(2) by (simp add: kept_def)
  qed
  then show ?thesis using kept_trans [OF s1(2)] by fastforce
qed


lemma connect_succeeded_kept:
  assumes inv: "sock_inv s" and at: "at_channel n cid c s"
    and run: "connect_succeeded os cid n c s = (r, s')"
  shows "kept 0 s s'"
proof -
  have h: "eh_inv (m_peh s)" using inv by (simp add: sock_inv_def)
  have live: "sock_live s (unat cid) = Some c" using at by (simp add: at_channel_def)
  obtain a h1 where rm: "eh_remove os (m_socket_descriptor c) (m_eh_id c) False Task_connect True (m_peh s) = (a, h1)"
    by fastforce
  have e1: "eh_inv h1" "eh_fresh h1 = eh_fresh (m_peh s)" "eh_live h1 = (eh_live (m_peh s))(unat (m_eh_id c) := None)"
    using eh_remove_effect [OF h rm] by simp_all
  have step1: "slot_step (self_item s) cid (m_eh_id c) (m_peh s) h1" using e1 by (simp add: slot_step_def)
  show ?thesis
  proof (cases a)
    case (Inl e)
    then have "s' = s\<lparr>m_peh := h1\<rparr>"
      using run rm by (simp add: connect_succeeded_def then_do_def on_peh_def on_part_def)
    then show ?thesis using slot_step_kept [OF inv live step1] by simp
  next
    case a: (Inr u)
    obtain sl where sl: "table_view (ids h1) (unat (m_eh_id c)) = Some sl"
      using eh_remove_keep [OF h] rm a by blast
    have "eh_live h1 (unat (m_eh_id c)) = None" using e1(3) by simp
    then have "es_closed sl" using sl by (auto simp: eh_live_def table_live_def split: if_splits)
    note reuse = eh_add_reuse [OF e1(1) sl this]
    obtain b h2 where add: "eh_add os (self_item s) (m_socket_descriptor c) cid Task_receive True (m_eh_id c) h1 = (b, h2)"
      by fastforce
    have e2: "eh_inv h2" "eh_fresh h2 = eh_fresh (m_peh s)" using reuse [OF add] e1(2) by simp_all
    show ?thesis
    proof (cases b)
      case (Inl e)
      have "slot_step (self_item s) cid (m_eh_id c) (m_peh s) h2"
        using reuse [OF add] e1 Inl by (simp add: slot_step_def)
      moreover have "s' = s\<lparr>m_peh := h2\<rparr>"
        using run rm a add Inl by (simp add: connect_succeeded_def then_do_def on_peh_def on_part_def)
      ultimately show ?thesis using slot_step_kept [OF inv live] by simp
    next
      case (Inr i)
      have i: "i = m_eh_id c" "eh_live h2 = (eh_live (m_peh s))(unat (m_eh_id c) \<mapsto> event_slot_of cid (self_item s))"
        using reuse [OF add] e1 Inr by simp_all
      have step: "slot_step (self_item s) cid (m_eh_id c) (m_peh s) h2" using i e2 by (simp add: slot_step_def)
      let ?c = "c\<lparr>m_eh_id := i, m_attempts := 0\<rparr>"
      have c: "m_eh_id ?c = m_eh_id c" "\<not> m_closed ?c" using i(1) at_channel_open [OF at] by simp_all
      obtain s2 where s2: "put_channel n cid ?c (s\<lparr>m_peh := h2\<rparr>) = (Inr (), s2)" "kept 0 s s2" "at_channel n cid ?c s2"
        using put_slot_step [OF inv at step c] by blast
      obtain d s3 where net: "on_os (get_socket_bundle os (m_socket_descriptor c)) s2 = (d, s3)" by fastforce
      have inv2: "sock_inv s2" using s2(2) by (simp add: kept_def)
      have same: "same_tables s2 s3" using on_os_same [OF net] .
      have k3: "kept 0 s s3" using kept_trans [OF s2(2) kept_same [OF same inv2, of 0]] by simp
      have at3: "at_channel n cid ?c s3"
        using s2(3) same by (simp add: at_channel_def sock_live_def same_tables_def)
      show ?thesis
      proof (cases d)
        case (Inl e)
        then have "s' = s3"
          using run rm a add Inr s2(1) net by (simp add: connect_succeeded_def then_do_def on_peh_def on_part_def)
        then show ?thesis using k3 by simp
      next
        case d: (Inr net_bundle)
        let ?d = "c\<lparr>m_eh_id := i, m_attempts := 0, m_socket_bundle_from_network := net_bundle\<rparr>"
        have "sock_inv s3" "m_eh_id ?d = m_eh_id ?c" "\<not> m_closed ?d"
          using k3 c(2) by (simp_all add: kept_def)
        then obtain s4 where s4: "put_channel n cid ?d s3 = (Inr (), s4)" "kept 0 s3 s4"
          using put_kept [OF _ at3, of ?d] by blast
        then have "s' = s4"
          using run rm a add Inr s2(1) net d
          by (simp add: connect_succeeded_def then_do_def on_peh_def on_part_def give_def)
        then show ?thesis using kept_trans [OF k3 s4(2)] by simp
      qed
    qed
  qed
qed


lemma receive_connect_kept:
  assumes inv: "sock_inv s" and at: "at_channel n cid c s" and B: "addr_bound os B" "sock_used s + B \<le> id_limit"
    and run: "receive_connect os cid n c s = (r, s')"
  shows "kept B s s'"
proof -
  obtain res ec c1 k where st: "connect_status os c (os_state (m_peh s)) = ((res, ec, c1), k)"
    by (cases "connect_status os c (os_state (m_peh s))") auto
  have c1: "m_eh_id c1 = m_eh_id c" "m_closed c1 = m_closed c"
    using st by (auto simp: connect_status_def Let_def split: if_splits prod.splits)
  obtain s1 where s1: "put_channel n cid c1 (s\<lparr>m_peh := (m_peh s)\<lparr>os_state := k\<rparr>\<rparr>) = (Inr (), s1)"
      "kept 0 s s1" "at_channel n cid c1 s1"
    using put_slot_step [OF inv at slot_step_os c1(1)] c1(2) at_channel_open [OF at] by blast
  have inv1: "sock_inv s1" "sock_used s1 + B \<le> id_limit" using s1(2) B(2) by (simp_all add: kept_def)
  obtain a s2 where del: "delete_channel os cid s1 = (a, s2)" by fastforce
  have k2: "kept 0 s1 s2" using delete_kept [OF del inv1(1)] .
  obtain b s3 where opened: "socket_open os (m_socket_bundle c1) (m_attempts c1) s2 = (b, s3)" by fastforce
  have k3: "kept B s1 s3"
    using kept_trans [OF k2 keepsD [OF keeps_socket_open [OF B(1)] opened]] k2 inv1(2) by (simp add: kept_def)
  have start: "receive_connect os cid n c s = (let socket_bundle = m_socket_bundle c1;
           connect_error = sys_strerror os ec
       in if check_connection_refused res ec
          then then_do (delete_channel os cid) (\<lambda>_.
               if m_attempts c1 \<noteq> 0
               then then_do (socket_open os socket_bundle (m_attempts c1)) (\<lambda>_. give None)
               else give (Some ([builtin_packet (Socket_open_refused connect_error socket_bundle)],
                      construct_peer_id cid socket_bundle)))
          else if check_connected_error res ec
          then then_do (delete_channel os cid) (\<lambda>_.
               give (Some ([builtin_packet (Socket_open_error connect_error socket_bundle)],
                 construct_peer_id cid socket_bundle)))
          else connect_succeeded os cid n c1) s1"
    unfolding receive_connect_def by (simp add: then_do_def on_os_def on_part_def st s1(1) Let_def)
  have "s' = s2 \<or> s' = s3 \<or> connect_succeeded os cid n c1 s1 = (r, s')"
    using run unfolding start Let_def
    by (cases a; cases b) (auto simp: then_do_def del opened give_def split: if_split_asm)
  then have "kept B s1 s'"
    using kept_mono [OF k2, of B] k3 kept_mono [OF connect_succeeded_kept [OF inv1(1) s1(3)], of os r s' B] by auto
  then show ?thesis using kept_trans [OF s1(2)] by fastforce
qed

lemma keeps_receive_accept: "keeps (Suc 0) (receive_accept os cid n c :: (('k, 'o) internals, 'p answer) call)"
proof -
  have add: "keeps (Suc 0) (then_do (add_channel os fd Streaming_accepted 0 None) (\<lambda>peer.
      give (Some ([builtin_packet Stream_join], peer))) :: (('k, 'o) internals, 'p answer) call)" for fd
    by (intro keeps_then keeps_add keeps_simple) (simp add: channel_action_def)
  have body: "keeps (Suc 0) (if destination_empty (remote_dest sb)
      then then_do (on_os (destroy_call os fd)) (\<lambda>_. give None)
      else then_do (add_channel os fd Streaming_accepted 0 None) (\<lambda>peer.
        give (Some ([builtin_packet Stream_join], peer))) :: (('k, 'o) internals, 'p answer) call)" for fd sb
    by (simp add: add keeps_give_up)
  have guarded: "keeps (Suc 0) (guarded_scope (on_os (destroy_call os joined))
       (if check_connected_error res ec
        then raise e
        else then_do (on_os (set_nonblocking os joined True)) (\<lambda>_.
             then_do (on_os (get_socket_bundle os joined)) (\<lambda>sb.
             if destination_empty (remote_dest sb)
             then then_do (on_os (destroy_call os joined)) (\<lambda>_. give None)
             else then_do (add_channel os joined Streaming_accepted 0 None) (\<lambda>peer.
                  give (Some ([builtin_packet Stream_join], peer)))))) :: (('k, 'o) internals, 'p answer) call)"
    for joined res ec e
    using body by (cases "check_connected_error res ec") (simp_all only: if_True if_False, auto intro!: keeps_guard keeps_after keeps_simple keeps_os)
  show ?thesis
    unfolding receive_accept_def
    by (intro keeps_after keeps_os) (simp add: guarded keeps_give_up keeps_simple split: prod.splits)
qed


lemma receive_one_kept:
  assumes inv: "sock_inv s" and B: "addr_bound os B" "sock_used s + Suc B \<le> id_limit"
    and run: "receive_one os L cid s = (r, s')"
  shows "kept (Suc B) s s'"
proof -
  have ok: "table_ok (m_lst_channels s)" using inv by (simp add: sock_inv_def)
  show ?thesis
  proof (cases "sock_live s (unat cid)")
    case None
    then have "s' = s" using run get_channel_safe_live [OF ok, of cid] by (simp add: receive_one_def sock_live_def)
    then show ?thesis using inv by (simp add: kept_refl)
  next
    case (Some c)
    then obtain n where n: "get_channel_safe (m_lst_channels s) cid = Inr (Some (n, c))"
        "table_find (m_lst_channels s) cid = Some n"
      using get_channel_safe_live [OF ok, of cid] by (auto simp: sock_live_def)
    have at: "at_channel n cid c s" using n Some by (simp add: at_channel_def)
    have reset: "on_peh (eh_reset eid) s = (Inr (), s)" for eid
      by (simp add: on_peh_def on_part_def eh_reset_def on_poll_def poll_reset_def)
    have "receive_connect os cid n c s = (r, s') \<or> receive_accept os cid n c s = (r, s') \<or>
        receive_stream os L cid n c s = (r, s')"
      using run by (auto simp: receive_one_def n reset then_do_def split: if_splits)
    then consider "receive_connect os cid n c s = (r, s')" | "receive_accept os cid n c s = (r, s')"
      | "receive_stream os L cid n c s = (r, s')" by blast
    then show ?thesis
    proof cases
      case 1
      then show ?thesis using receive_connect_kept [OF inv at B(1) _ 1] B(2) kept_mono by fastforce
    next
      case 2
      then show ?thesis using keepsD [OF keeps_receive_accept 2 inv] B(2) kept_mono [of "Suc 0" s s' "Suc B"] by simp
    next
      case 3
      then show ?thesis using receive_stream_kept [OF inv at 3] kept_mono by blast
    qed
  qed
qed

lemma receive_ids_kept:
  assumes "addr_bound os B"
  shows "keeps (Suc B * length cids) (receive_ids os L cids :: (('k, 'o) internals, 'p packets \<times> string) call)"
proof (induction cids)
  case (Cons cid cids)
  have "keeps (Suc B) (receive_one os L cid)"
    using receive_one_kept assms by (auto simp: keeps_def)
  moreover have "keeps (Suc B * length cids) ((case answer of Some a \<Rightarrow> give a | None \<Rightarrow> receive_ids os L cids)
      :: (('k, 'o) internals, 'p packets \<times> string) call)" for answer
    using Cons keeps_simple by (auto split: option.splits)
  ultimately have "keeps (Suc B + Suc B * length cids) (receive_ids os L (cid # cids)
      :: (('k, 'o) internals, 'p packets \<times> string) call)"
    unfolding receive_ids.simps by (rule keeps_bind)
  then show ?case by simp
qed (simp add: keeps_simple)

lemma send_stream_kept:
  assumes inv: "sock_inv s" and at: "at_channel n cid c s"
    and run: "send_stream os fp cid n c pack s = (r, s')"
  shows "kept 0 s s'"
proof -
  obtain x ssd where msg: "message_stream fp (m_special_data c) pack = (x, ssd)" by fastforce
  let ?c = "c\<lparr>m_special_data := ssd\<rparr>"
  show ?thesis
  proof (cases x)
    case (Inl e)
    obtain s1 where s1: "put_channel n cid ?c s = (Inr (), s1)" "kept 0 s s1"
      using put_kept [OF inv at, of ?c] at_channel_open [OF at] by auto
    then show ?thesis using run msg Inl by (simp add: send_stream_def then_do_def raise_def)
  next
    case (Inr m)
    obtain a h out where sent: "async_send os (self_item s) (m_socket_descriptor c) cid (m_eh_id c) m
        (m_peh s, m_send_stream c) = (a, (h, out))"
      by (metis prod_cases3)
    obtain s1 where s1: "put_channel n cid (?c\<lparr>m_send_stream := out\<rparr>) (s\<lparr>m_peh := h\<rparr>) = (Inr (), s1)" "kept 0 s s1"
      using put_slot_step [OF inv at async_send_slot [OF sent], of "?c\<lparr>m_send_stream := out\<rparr>"] at_channel_open [OF at]
      by auto
    then show ?thesis using run msg Inr sent by (simp add: send_stream_def then_do_def lift_result_def)
  qed
qed

lemma socket_send_kept:
  assumes inv: "sock_inv s" and run: "socket_send os fp peer pack s = (r, s')"
  shows "kept 0 s s'"
proof (cases "parse_peer_id peer")
  case (Inl e)
  then show ?thesis using run inv by (simp add: socket_send_def kept_refl)
next
  case cid: (Inr cid)
  have ok: "table_ok (m_lst_channels s)" using inv by (simp add: sock_inv_def)
  show ?thesis
  proof (cases "packet_type pack = - 11")
    case True
    then show ?thesis using run cid inv by (auto simp: socket_send_def intro: delete_kept)
  next
    case False
    show ?thesis
    proof (cases "s' = s")
      case True
      then show ?thesis using inv by (simp add: kept_refl)
    next
      case changed: False
      then obtain c n where c: "get_channel (m_lst_channels s) cid = Inr c" "\<not> m_closed c"
          "table_find (m_lst_channels s) cid = Some n" "send_stream os fp cid n c pack s = (r, s')"
        using run cid False
        by (auto simp: socket_send_def split: sum.splits if_splits option.splits)
      have "table_view (m_lst_channels s) (unat cid) = Some c"
        using c(1) get_channel_live [OF ok, of cid] by (auto split: option.splits)
      then have "at_channel n cid c s"
        using c by (simp add: at_channel_def sock_live_def table_live_def)
      then show ?thesis using send_stream_kept [OF inv _ c(4)] by blast
    qed
  qed
qed


section \<open>Any run of calls\<close>

text \<open>What a client of the socket does, in any order; it may go on after an exception.\<close>

datatype 'p sock_op =
    Do_listen ip_address int
  | Do_open ip_address usize
  | Do_wait
  | Do_receive
  | Do_send string "'p sock_message packet"
  | Do_drop u64

fun sock_do ::
  "('k, 'x, 'm) os_scheme \<Rightarrow> ('o, 'p) loader \<Rightarrow> ('o, 'p) special_handler \<Rightarrow> (u64 set \<Rightarrow> u64 list) \<Rightarrow> (nat \<Rightarrow> 'k \<Rightarrow> 'k)
     \<Rightarrow> 'p sock_op \<Rightarrow> ('k, 'o) internals \<Rightarrow> ('k, 'o) internals" where
  "sock_do os L fp order prepare (Do_listen addr backlog) s = snd (socket_listen os addr backlog s)"
| "sock_do os L fp order prepare (Do_open addr attempts) s = snd (socket_open os addr attempts s)"
| "sock_do os L fp order prepare Do_wait s = snd (on_peh (eh_wait os prepare) s)"
| "sock_do os L fp order prepare Do_receive s = snd (socket_receive os L order s)"
| "sock_do os L fp order prepare (Do_send peer pack) s = snd (socket_send os fp peer pack s)"
| "sock_do os L fp order prepare (Do_drop cid) s = snd (delete_channel os cid s)"

text \<open>How many ids a call may use up, when the system gives at most \<open>B\<close> addresses for a name.\<close>

fun sock_cost :: "nat \<Rightarrow> (u64 set \<Rightarrow> u64 list) \<Rightarrow> 'p sock_op \<Rightarrow> ('k, 'o) internals \<Rightarrow> nat" where
  "sock_cost B order (Do_listen _ _) s = B"
| "sock_cost B order (Do_open _ _) s = B"
| "sock_cost B order Do_receive s =
     (case eh_waited (self_item s) (m_peh s) of Inl _ \<Rightarrow> 0 | Inr waited \<Rightarrow> Suc B * length (order waited))"
| "sock_cost B order _ s = 0"

fun sock_run ::
  "('k, 'x, 'm) os_scheme \<Rightarrow> ('o, 'p) loader \<Rightarrow> ('o, 'p) special_handler \<Rightarrow> (u64 set \<Rightarrow> u64 list) \<Rightarrow> (nat \<Rightarrow> 'k \<Rightarrow> 'k)
     \<Rightarrow> nat \<Rightarrow> 'p sock_op list \<Rightarrow> ('k, 'o) internals \<Rightarrow> ('k, 'o) internals \<times> nat" where
  "sock_run os L fp order prepare B [] s = (s, 0)"
| "sock_run os L fp order prepare B (op # ops) s =
     (let (s', n) = sock_run os L fp order prepare B ops (sock_do os L fp order prepare op s)
      in (s', sock_cost B order op s + n))"

lemma wait_kept:
  assumes inv: "sock_inv s" and os: "wait_contract os" and run: "on_peh (eh_wait os prepare) s = (r, s')"
  shows "kept 0 s s'"
proof -
  obtain x h where w: "eh_wait os prepare (m_peh s) = (x, h)" by fastforce
  have "eh_inv (m_peh s)" using inv by (simp add: sock_inv_def)
  note eh_wait_slots [OF this os w]
  then have "same_tables s s'"
    using run w by (auto simp: on_peh_def on_part_def same_tables_def)
  then show ?thesis using inv by (rule kept_same)
qed

lemma sock_do_kept:
  assumes inv: "sock_inv s" and B: "addr_bound os B" "wait_contract os"
    and few: "sock_used s + sock_cost B order op s \<le> id_limit"
  shows "kept (sock_cost B order op s) s (sock_do os L fp order prepare op s)"
proof (cases op)
  case (Do_listen addr backlog)
  then show ?thesis
    using keepsD [OF keeps_socket_listen [OF B(1)] prod.collapse [symmetric] inv] few by simp
next
  case (Do_open addr attempts)
  then show ?thesis
    using keepsD [OF keeps_socket_open [OF B(1)] prod.collapse [symmetric] inv] few by simp
next
  case Do_wait
  then show ?thesis using wait_kept [OF inv B(2) prod.collapse [symmetric]] by simp
next
  case Do_receive
  then show ?thesis
  proof (cases "eh_waited (self_item s) (m_peh s)")
    case (Inl e)
    then show ?thesis using Do_receive inv by (simp add: socket_receive_def kept_refl)
  next
    case (Inr js)
    then show ?thesis
      using Do_receive few keepsD [OF receive_ids_kept [OF B(1)] prod.collapse [symmetric] inv]
      by (simp add: socket_receive_def del: mult_Suc)
  qed
next
  case (Do_send peer pack)
  then show ?thesis using socket_send_kept [OF inv prod.collapse [symmetric]] by simp
next
  case (Do_drop cid)
  then show ?thesis using delete_kept [OF prod.collapse [symmetric] inv] by simp
qed

text \<open>C10: over any run of calls on a socket, listening, opening, waiting, receiving, sending and
  dropping, with whatever failures of the system and exceptions on the way, every slot of the event
  handler that belongs to the socket leads to an open channel that leads back to the slot; the
  tables stay well formed, and no more ids are used up than the calls can make.\<close>

theorem socket_run_linked:
  assumes "sock_inv s" "addr_bound os B" "wait_contract os"
    and "sock_run os L fp order prepare B ops s = (s', n)" "sock_used s + n \<le> id_limit"
  shows "sock_inv s' \<and> linked s' \<and> sock_used s' \<le> sock_used s + n"
proof -
  have "kept n s s'"
    using assms(1,4,5)
  proof (induction ops arbitrary: s n)
    case Nil
    then show ?case by (simp add: kept_refl)
  next
    case (Cons op ops)
    obtain m where m: "sock_run os L fp order prepare B ops (sock_do os L fp order prepare op s) = (s', m)"
        "n = sock_cost B order op s + m"
      using Cons.prems(2) by (auto simp: Let_def split: prod.splits)
    have k: "kept (sock_cost B order op s) s (sock_do os L fp order prepare op s)"
      using Cons.prems(1,3) m(2) by (intro sock_do_kept assms) simp_all
    then have "kept m (sock_do os L fp order prepare op s) s'"
      using Cons.prems(3) m by (intro Cons.IH) (auto simp: kept_def)
    with k show ?case unfolding m(2) by (rule kept_trans)
  qed
  then show ?thesis by (simp add: kept_def sock_inv_def)
qed

theorem socket_run_linked_witness:
  "\<exists>s'. sock_run quiet_os (\<lambda>_ d. (Inl Undefined, d)) (\<lambda>d _. (Inr [], d)) (\<lambda>_. []) (\<lambda>_ k. k) 1
      [Do_listen ip_address_new 5, Do_wait, Do_open ip_address_new 0, Do_drop 0 :: unit sock_op]
      (internals_new example_slot 5 0 :: (nat, unit) internals) = (s', 2) \<and> sock_inv s' \<and> linked s'"
proof -
  let ?s = "internals_new example_slot 5 0 :: (nat, unit) internals"
  obtain s' n where run: "sock_run quiet_os (\<lambda>_ d. (Inl Undefined, d)) (\<lambda>d _. (Inr [], d)) (\<lambda>_. []) (\<lambda>_ k. k) 1
      [Do_listen ip_address_new 5, Do_wait, Do_open ip_address_new 0, Do_drop 0 :: unit sock_op] ?s = (s', n)"
    by fastforce
  then have n: "n = 2" by (simp add: Let_def)
  have "addr_bound quiet_os 1" "wait_contract quiet_os"
    by (simp_all add: addr_bound_def wait_contract_def quiet_os_def)
  moreover have "sock_used ?s + n \<le> id_limit"
    using example_slot_live by (simp add: sock_used_def sock_fresh_def next_id_def internals_new_def n)
  ultimately show ?thesis
    using socket_run_linked [OF example_internals(1) _ _ run] run n by blast
qed

end
