(* ===== verification/Direct_Stream.thy ===== *)
theory Direct_Stream
  imports Ring_Queue Stream_Messages Scope_Helper "HOL-Library.AList"
begin

text \<open>
  Streams between the parts of one process, \<open>src/libdirect_stream\<close>: every stream registers its
  name in a shared channel and keeps there a queue for each other stream that has written to
  it. The hash maps are association lists; the order in which one is gone through is a
  parameter, a permutation of the keys. The event handlers of the streams are given by
  numbers and what \<open>wake\<close> does is a parameter. The lock of the channel makes each call one step.
\<close>

section \<open>The channel\<close>

record 'm peer_streams =
  peer_eh :: "nat option"
  peer_incoming :: "(string \<times> 'm packet queue) list"

record ('k, 'm) direct_channel =
  dc_streams :: "(string \<times> 'm peer_streams) list"
  dc_system :: 'k

definition direct_channel_new :: "'k \<Rightarrow> ('k, 'm) direct_channel" where
  "direct_channel_new k = \<lparr>dc_streams = [], dc_system = k\<rparr>"

type_synonym key_order = "string list \<Rightarrow> string list"
type_synonym 'k waker = "nat \<Rightarrow> ('k, unit) call"

definition put_stream :: "string \<Rightarrow> 'm peer_streams \<Rightarrow> ('k, 'm) direct_channel \<Rightarrow> ('k, 'm) direct_channel" where
  "put_stream name e d = d\<lparr>dc_streams := AList.update name e (dc_streams d)\<rparr>"

definition put_incoming :: "string \<Rightarrow> 'm packet queue \<Rightarrow> 'm peer_streams \<Rightarrow> 'm peer_streams" where
  "put_incoming sender q e = e\<lparr>peer_incoming := AList.update sender q (peer_incoming e)\<rparr>"

text \<open>\<open>first->wake()\<close> of a stream; its pointer may be null.\<close>

definition wake_stream :: "'k waker \<Rightarrow> string \<Rightarrow> (('k, 'm) direct_channel, unit) call" where
  "wake_stream wake name d =
     (case map_of (dc_streams d) name of
        None \<Rightarrow> (Inl Undefined, d)
      | Some e \<Rightarrow>
          (case peer_eh e of
             None \<Rightarrow> (Inl Undefined, d)
           | Some h \<Rightarrow> on_part dc_system (\<lambda>k d. d\<lparr>dc_system := k\<rparr>) (wake h) d))"

text \<open>\<open>second[sender].push(pack)\<close>: a missing queue is made first.\<close>

definition push_from :: "string \<Rightarrow> string \<Rightarrow> 'm packet \<Rightarrow> (('k, 'm) direct_channel, unit) call" where
  "push_from owner sender pack d =
     (case map_of (dc_streams d) owner of
        None \<Rightarrow> (Inl Undefined, d)
      | Some e \<Rightarrow>
          let q = (case map_of (peer_incoming e) sender of None \<Rightarrow> no_queue | Some q \<Rightarrow> q)
          in (case queue_push packet_new pack q of
                Inl err \<Rightarrow> (Inl err, put_stream owner (put_incoming sender q e) d)
              | Inr q \<Rightarrow> (Inr (), put_stream owner (put_incoming sender q e) d)))"

section \<open>Joining\<close>

text \<open>\<open>insert\<close> of an empty queue, which has to be new, and the first message in it.\<close>

definition insert_join :: "string \<Rightarrow> string \<Rightarrow> string \<Rightarrow> (('k, 'p sock_message) direct_channel, unit) call" where
  "insert_join what owner sender d =
     (case map_of (dc_streams d) owner of
        None \<Rightarrow> (Inl Undefined, d)
      | Some e \<Rightarrow>
          if map_of (peer_incoming e) sender \<noteq> None then (Inl (Logic_error what), d)
          else push_from owner sender (builtin_packet Stream_join) d)"

definition join_one ::
  "'k waker \<Rightarrow> string \<Rightarrow> string \<Rightarrow> (('k, 'p sock_message) direct_channel, unit) call" where
  "join_one wake peerid name =
     then_do (insert_join ''direct_stream: false == insert_res_existing.second'' name peerid) (\<lambda>_.
     then_do (insert_join ''direct_stream: false == insert_res_new.second'' peerid name) (\<lambda>_.
     then_do (wake_stream wake name) (\<lambda>_. wake_stream wake peerid)))"

fun join_loop ::
  "'k waker \<Rightarrow> string \<Rightarrow> string list \<Rightarrow> (('k, 'p sock_message) direct_channel, unit) call" where
  "join_loop wake peerid [] = give ()"
| "join_loop wake peerid (name # names) =
     (if name = peerid then join_loop wake peerid names
      else then_do (join_one wake peerid name) (\<lambda>_. join_loop wake peerid names))"

definition direct_new ::
  "'k waker \<Rightarrow> key_order \<Rightarrow> string \<Rightarrow> nat \<Rightarrow> (('k, 'p sock_message) direct_channel, unit) call" where
  "direct_new wake order peerid eh d =
     (if map_of (dc_streams d) peerid \<noteq> None
      then (Inl (Logic_error ''direct_stream: false == insert_res.second''), d)
      else let d = put_stream peerid \<lparr>peer_eh = Some eh, peer_incoming = []\<rparr> d
           in join_loop wake peerid (order (map fst (dc_streams d))) d)"

section \<open>Leaving\<close>

fun leave_loop ::
  "'k waker \<Rightarrow> string \<Rightarrow> string list \<Rightarrow> (('k, 'p sock_message) direct_channel, unit) call" where
  "leave_loop wake peerid [] = give ()"
| "leave_loop wake peerid (name # names) =
     then_do
       (if name = peerid then (\<lambda>d. (Inr (), d\<lparr>dc_streams := AList.delete peerid (dc_streams d)\<rparr>))
        else then_do (push_from name peerid (builtin_packet Stream_drop)) (\<lambda>_. wake_stream wake name))
       (\<lambda>_. leave_loop wake peerid names)"

text \<open>An exception that leaves a destructor ends the program.\<close>

definition direct_destroy ::
  "'k waker \<Rightarrow> key_order \<Rightarrow> string \<Rightarrow> (('k, 'p sock_message) direct_channel, unit) call" where
  "direct_destroy wake order peerid d =
     (case leave_loop wake peerid (order (map fst (dc_streams d))) d of
        (Inl e, d) \<Rightarrow> (Inl (if is_exception e then Terminates else e), d)
      | r \<Rightarrow> r)"

section \<open>Receiving and sending\<close>

function drain :: "'m packet queue \<Rightarrow> 'm packet list \<Rightarrow> ('m packet list \<times> 'm packet queue) result" where
  "drain q result =
     (if queue_empty q then Inr (result, q)
      else case queue_front q of
             Inl e \<Rightarrow> Inl e
           | Inr x \<Rightarrow> (case queue_pop q of Inl e \<Rightarrow> Inl e | Inr q \<Rightarrow> drain q (result @ [x])))"
  by pat_completeness auto

termination
  by (relation "measure (\<lambda>(q, _). unat (m_i_size q))")
     (auto simp: queue_pop_def queue_empty_def Let_def unat_minus_one unat_gt_0 split: if_splits)

declare drain.simps [simp del]

text \<open>The packets of one peer, if any; \<open>peer\<close> is left alone when there is none. \<open>streams[peerid]\<close>
  makes an entry when the own one is gone.\<close>

definition direct_receive ::
  "key_order \<Rightarrow> string \<Rightarrow> (('k, 'm) direct_channel, (string \<times> 'm packet list) option) call" where
  "direct_receive order peerid d =
     (let e = (case map_of (dc_streams d) peerid of
                 None \<Rightarrow> \<lparr>peer_eh = None, peer_incoming = []\<rparr> | Some e \<Rightarrow> e);
          d = put_stream peerid e d
      in case order (map fst (peer_incoming e)) of
           [] \<Rightarrow> (Inr None, d)
         | peer # _ \<Rightarrow>
             (case map_of (peer_incoming e) peer of
                None \<Rightarrow> (Inl Undefined, d)
              | Some q \<Rightarrow>
                  (case drain q [] of
                     Inl err \<Rightarrow> (Inl err, d)
                   | Inr (result, _) \<Rightarrow>
                       (Inr (Some (peer, result)),
                        put_stream peerid (e\<lparr>peer_incoming := AList.delete peer (peer_incoming e)\<rparr>) d))))"

definition direct_send ::
  "'k waker \<Rightarrow> string \<Rightarrow> string \<Rightarrow> 'm packet \<Rightarrow> (('k, 'm) direct_channel, unit) call" where
  "direct_send wake peerid peer package d =
     (if peer = peerid then (Inl (Runtime_error ''direct_stream::send: peer == peerid''), d)
      else if map_of (dc_streams d) peer = None
      then (Inl (Runtime_error ''direct_stream::send: it = channel->streams.end()''), d)
      else then_do (push_from peer peerid package) (\<lambda>_. wake_stream wake peer) d)"

section \<open>What a stream sees\<close>

definition stream_eh :: "('k, 'm) direct_channel \<Rightarrow> string \<Rightarrow> nat option option" where
  "stream_eh d x = map_option peer_eh (map_of (dc_streams d) x)"

definition stream_queue :: "('k, 'm) direct_channel \<Rightarrow> string \<Rightarrow> string \<Rightarrow> 'm packet queue option" where
  "stream_queue d x y =
     (case map_of (dc_streams d) x of None \<Rightarrow> None | Some e \<Rightarrow> map_of (peer_incoming e) y)"

definition stream_keys :: "('k, 'm) direct_channel \<Rightarrow> string list" where
  "stream_keys d = map fst (dc_streams d)"

lemma stream_keys_eh: "set (stream_keys d) = dom (stream_eh d)"
  by (auto simp: stream_keys_def stream_eh_def dom_def map_of_eq_None_iff simp flip: not_None_eq)

lemma stream_queue_gone: "stream_eh d x = None \<Longrightarrow> stream_queue d x y = None"
  by (simp add: stream_eh_def stream_queue_def)

text \<open>A push that succeeds.\<close>

definition pushed :: "'m packet \<Rightarrow> 'm packet queue option \<Rightarrow> 'm packet queue" where
  "pushed pack q =
     (case queue_push packet_new pack (case q of None \<Rightarrow> no_queue | Some q \<Rightarrow> q) of Inl _ \<Rightarrow> no_queue | Inr q \<Rightarrow> q)"

lemma put_view:
  assumes "map_of (dc_streams d) x = Some e"
  shows "stream_eh (put_stream x (put_incoming y q e) d) = stream_eh d"
    "stream_keys (put_stream x (put_incoming y q e) d) = stream_keys d"
    "stream_queue (put_stream x (put_incoming y q e) d) = (stream_queue d)(x := (stream_queue d x)(y \<mapsto> q))"
  using assms map_of_SomeD [OF assms]
  by (force simp: stream_eh_def stream_keys_def stream_queue_def put_stream_def put_incoming_def update_conv'
      update_keys fun_eq_iff split: option.splits)+

lemma push_from_view:
  assumes "push_from x y pack d = (Inr u, d')"
  shows "stream_eh d x \<noteq> None" "stream_eh d' = stream_eh d" "stream_keys d' = stream_keys d"
    "stream_queue d' = (stream_queue d)(x := (stream_queue d x)(y \<mapsto> pushed pack (stream_queue d x y)))"
proof -
  obtain e where e: "map_of (dc_streams d) x = Some e"
    using assms by (auto simp: push_from_def split: option.splits)
  obtain q where q: "queue_push packet_new pack (case map_of (peer_incoming e) y of None \<Rightarrow> no_queue | Some q \<Rightarrow> q) = Inr q"
      "d' = put_stream x (put_incoming y q e) d"
    using assms e by (auto simp: push_from_def Let_def split: sum.splits)
  have "pushed pack (stream_queue d x y) = q"
    using q(1) e by (simp add: pushed_def stream_queue_def)
  then show "stream_eh d x \<noteq> None" "stream_eh d' = stream_eh d" "stream_keys d' = stream_keys d"
      "stream_queue d' = (stream_queue d)(x := (stream_queue d x)(y \<mapsto> pushed pack (stream_queue d x y)))"
    using put_view [OF e, of y q] q(2) e by (simp_all add: stream_eh_def)
qed

lemma wake_stream_view:
  assumes "wake_stream wake x d = (r, d')"
  shows "stream_eh d' = stream_eh d" "stream_keys d' = stream_keys d" "stream_queue d' = stream_queue d"
  using assms
  by (auto simp: wake_stream_def on_part_def stream_eh_def stream_keys_def stream_queue_def fun_eq_iff
      split: option.splits prod.splits)

lemma insert_join_view:
  assumes "insert_join what x y d = (Inr u, d')"
  shows "stream_eh d' = stream_eh d" "stream_keys d' = stream_keys d" "stream_queue d x y = None"
    "stream_queue d' = (stream_queue d)(x := (stream_queue d x)(y \<mapsto> pushed (builtin_packet Stream_join) None))"
proof -
  have p: "push_from x y (builtin_packet Stream_join) d = (Inr u, d')" and n: "stream_queue d x y = None"
    using assms by (auto simp: insert_join_def stream_queue_def split: option.splits if_splits)
  show "stream_eh d' = stream_eh d" "stream_keys d' = stream_keys d" "stream_queue d x y = None"
    "stream_queue d' = (stream_queue d)(x := (stream_queue d x)(y \<mapsto> pushed (builtin_packet Stream_join) None))"
    using push_from_view [OF p] n by simp_all
qed

lemma join_one_view:
  assumes "join_one wake p x d = (Inr u, d')" "x \<noteq> p"
  shows "stream_eh d' = stream_eh d \<and> stream_keys d' = stream_keys d \<and>
    stream_queue d x p = None \<and> stream_queue d p x = None \<and>
    stream_queue d' = (stream_queue d)(x := (stream_queue d x)(p \<mapsto> pushed (builtin_packet Stream_join) None),
      p := (stream_queue d p)(x \<mapsto> pushed (builtin_packet Stream_join) None))"
proof -
  obtain d1 d2 d3 where
      1: "insert_join ''direct_stream: false == insert_res_existing.second'' x p d = (Inr (), d1)"
    and 2: "insert_join ''direct_stream: false == insert_res_new.second'' p x d1 = (Inr (), d2)"
    and 3: "wake_stream wake x d2 = (Inr (), d3)" and 4: "wake_stream wake p d3 = (Inr u, d')"
    using assms(1) by (auto simp: join_one_def then_do_Inr)
  have "stream_queue d1 p = stream_queue d p" using insert_join_view [OF 1] assms(2) by simp
  then show ?thesis
    using insert_join_view [OF 1] insert_join_view [OF 2] wake_stream_view [OF 3] wake_stream_view [OF 4] by simp
qed

lemma join_loop_view:
  assumes "join_loop wake p ns d = (Inr u, d')" "distinct ns"
  shows "stream_eh d' = stream_eh d \<and> stream_keys d' = stream_keys d \<and>
    (\<forall>x \<in> set ns - {p}. stream_queue d x p = None \<and> stream_queue d p x = None) \<and>
    stream_queue d' = (\<lambda>x y. if x \<noteq> y \<and> (x = p \<and> y \<in> set ns \<or> y = p \<and> x \<in> set ns)
      then Some (pushed (builtin_packet Stream_join) None) else stream_queue d x y)"
  using assms
proof (induction ns arbitrary: d)
  case Nil
  then show ?case by (auto simp: give_def fun_eq_iff)
next
  case (Cons x ns)
  show ?case
  proof (cases "x = p")
    case True
    then show ?thesis using Cons by (auto simp: fun_eq_iff)
  next
    case False
    then obtain d1 where one: "join_one wake p x d = (Inr (), d1)" and rest: "join_loop wake p ns d1 = (Inr u, d')"
      using Cons.prems by (auto simp: then_do_Inr)
    note v = join_one_view [OF one False]
    have IH: "stream_eh d' = stream_eh d1 \<and> stream_keys d' = stream_keys d1 \<and>
      (\<forall>x \<in> set ns - {p}. stream_queue d1 x p = None \<and> stream_queue d1 p x = None) \<and>
      stream_queue d' = (\<lambda>x y. if x \<noteq> y \<and> (x = p \<and> y \<in> set ns \<or> y = p \<and> x \<in> set ns)
        then Some (pushed (builtin_packet Stream_join) None) else stream_queue d1 x y)"
      using Cons.IH [OF rest] Cons.prems(2) by simp
    have "stream_queue d y p = None \<and> stream_queue d p y = None" if "y \<in> set ns - {p}" for y
    proof -
      have "y \<noteq> x" using that Cons.prems(2) by auto
      then show ?thesis using IH v that False by (auto simp: fun_upd_def split: if_splits)
    qed
    moreover have "stream_queue d' = (\<lambda>a y. if a \<noteq> y \<and> (a = p \<and> y \<in> set (x # ns) \<or> y = p \<and> a \<in> set (x # ns))
        then Some (pushed (builtin_packet Stream_join) None) else stream_queue d a y)"
      using IH v False by (auto simp: fun_eq_iff)
    ultimately show ?thesis using IH v by auto
  qed
qed

lemma leave_loop_view:
  assumes "leave_loop wake p ns d = (Inr u, d')" "distinct ns"
  shows "stream_eh d' = (if p \<in> set ns then (stream_eh d)(p := None) else stream_eh d) \<and>
    (distinct (stream_keys d) \<longrightarrow> distinct (stream_keys d')) \<and>
    stream_queue d' = (\<lambda>x y. if x = p \<and> p \<in> set ns then None
      else if y = p \<and> x \<in> set ns then Some (pushed (builtin_packet Stream_drop) (stream_queue d x y))
      else stream_queue d x y)"
  using assms
proof (induction ns arbitrary: d)
  case Nil
  then show ?case by (auto simp: give_def fun_eq_iff)
next
  case (Cons x ns)
  show ?case
  proof (cases "x = p")
    case True
    let ?d = "d\<lparr>dc_streams := AList.delete p (dc_streams d)\<rparr>"
    have rest: "leave_loop wake p ns ?d = (Inr u, d')"
      using Cons.prems True by (auto simp: then_do_Inr)
    have v: "stream_eh ?d = (stream_eh d)(p := None)" "stream_queue ?d = (stream_queue d)(p := Map.empty)"
        "distinct (stream_keys d) \<Longrightarrow> distinct (stream_keys ?d)"
      by (auto simp: stream_eh_def stream_queue_def stream_keys_def delete_conv' fun_eq_iff distinct_delete)
    show ?thesis
      using Cons.IH [OF rest] Cons.prems(2) True v by (auto simp: fun_eq_iff)
  next
    case False
    then obtain d1 d2 where push: "push_from x p (builtin_packet Stream_drop) d = (Inr (), d1)"
        and "wake_stream wake x d1 = (Inr (), d2)" and rest: "leave_loop wake p ns d2 = (Inr u, d')"
      using Cons.prems by (auto simp: then_do_Inr)
    then have v: "stream_eh d2 = stream_eh d" "stream_keys d2 = stream_keys d"
        "stream_queue d2 = (stream_queue d)(x := (stream_queue d x)(p \<mapsto> pushed (builtin_packet Stream_drop) (stream_queue d x p)))"
      using push_from_view [OF push] wake_stream_view by metis+
    show ?thesis
      using Cons.IH [OF rest] Cons.prems(2) False v by (auto simp: fun_eq_iff)
  qed
qed

section \<open>The mailboxes a channel promises\<close>

text \<open>
  The specification: a set of names and a list of packets from each stream to each other one. A
  stream that joins greets every other one and is greeted by it, one that leaves says so; a stream
  reads all that one of the others has written, or nothing when nobody has.
\<close>

record 'm mailboxes =
  mb_names :: "string set"
  mb_box :: "string \<Rightarrow> string \<Rightarrow> 'm packet list"

datatype 'm direct_op =
    D_join string nat
  | D_leave string
  | D_send string string "'m packet"
  | D_receive string

type_synonym 'm direct_answer = "(string \<times> 'm packet list) option"

inductive mail_step ::
  "'p sock_message direct_op \<Rightarrow> 'p sock_message direct_answer \<Rightarrow> 'p sock_message mailboxes
     \<Rightarrow> 'p sock_message mailboxes \<Rightarrow> bool" where
  join: "p \<notin> N \<Longrightarrow> \<forall>x \<in> N. box x p = [] \<Longrightarrow>
    mail_step (D_join p h) None \<lparr>mb_names = N, mb_box = box\<rparr>
      \<lparr>mb_names = insert p N,
       mb_box = (\<lambda>x y. if x = p \<and> y \<in> N \<or> y = p \<and> x \<in> N then [builtin_packet Stream_join] else box x y)\<rparr>"
| leave: "mail_step (D_leave p) None \<lparr>mb_names = N, mb_box = box\<rparr>
      \<lparr>mb_names = N - {p},
       mb_box = (\<lambda>x y. if x = p then [] else if y = p \<and> x \<in> N then box x y @ [builtin_packet Stream_drop]
         else box x y)\<rparr>"
| send: "q \<in> N \<Longrightarrow> q \<noteq> p \<Longrightarrow>
    mail_step (D_send p q pack) None \<lparr>mb_names = N, mb_box = box\<rparr>
      \<lparr>mb_names = N, mb_box = box(q := (box q)(p := box q p @ [pack]))\<rparr>"
| receive: "box p x \<noteq> [] \<Longrightarrow>
    mail_step (D_receive p) (Some (x, box p x)) \<lparr>mb_names = N, mb_box = box\<rparr>
      \<lparr>mb_names = N, mb_box = box(p := (box p)(x := []))\<rparr>"
| receive_none: "\<forall>x. box p x = [] \<Longrightarrow> mail_step (D_receive p) None \<lparr>mb_names = N, mb_box = box\<rparr> \<lparr>mb_names = N, mb_box = box\<rparr>"

definition mail_of :: "('k, 'm) direct_channel \<Rightarrow> 'm mailboxes" where
  "mail_of d = \<lparr>mb_names = set (stream_keys d),
     mb_box = (\<lambda>x y. case stream_queue d x y of None \<Rightarrow> [] | Some q \<Rightarrow> queue_list q)\<rparr>"

text \<open>No queue has seen more than \<open>n\<close> packets, none is empty, every stream has an event handler.\<close>

definition direct_inv :: "nat \<Rightarrow> ('k, 'm) direct_channel \<Rightarrow> bool" where
  "direct_inv n d \<longleftrightarrow> distinct (stream_keys d) \<and> (\<forall>x. stream_eh d x \<noteq> Some None) \<and>
     (\<forall>x y q. stream_queue d x y = Some q \<longrightarrow> queue_ok q \<and> queue_used q \<le> n \<and> queue_list q \<noteq> [])"

definition keys_order :: "key_order \<Rightarrow> bool" where
  "keys_order order \<longleftrightarrow> (\<forall>ks. set (order ks) = set ks \<and> (distinct ks \<longrightarrow> distinct (order ks)))"

abbreviation packet_limit :: nat where "packet_limit \<equiv> 2 ^ 63"

lemma pushed_spec:
  assumes "case q of None \<Rightarrow> True | Some q0 \<Rightarrow> queue_ok q0 \<and> queue_used q0 \<le> n" "n < packet_limit"
  shows "queue_ok (pushed pack q) \<and> queue_used (pushed pack q) \<le> Suc n \<and>
    queue_list (pushed pack q) = (case q of None \<Rightarrow> [] | Some q0 \<Rightarrow> queue_list q0) @ [pack]"
proof -
  define q1 where "q1 = (case q of None \<Rightarrow> no_queue | Some q \<Rightarrow> q)"
  have q1: "queue_ok q1" "queue_used q1 \<le> n" "queue_list q1 = (case q of None \<Rightarrow> [] | Some q0 \<Rightarrow> queue_list q0)"
    using assms(1) by (auto simp: q1_def split: option.splits)
  then obtain q2 where "queue_push packet_new pack q1 = Inr q2" "queue_ok q2" "queue_list q2 = queue_list q1 @ [pack]"
      "queue_used q2 = Suc (queue_used q1)"
    using rq.enq_law [of q1 packet_new pack] assms(2) by auto
  then show ?thesis using q1 by (simp add: pushed_def q1_def [symmetric])
qed

lemma drain_spec:
  "queue_ok q \<Longrightarrow> \<exists>q'. drain q acc = Inr (acc @ queue_list q, q')"
proof (induction "unat (m_i_size q)" arbitrary: q acc)
  case 0
  then show ?case by (subst drain.simps) (simp add: queue_empty_def unat_eq_0)
next
  case (Suc n)
  then have ne: "queue_list q \<noteq> []" "m_i_size q \<noteq> 0" by (auto simp: unat_eq_0)
  obtain q1 where q1: "queue_pop q = Inr q1" "queue_ok q1" "queue_list q1 = tl (queue_list q)"
    using rq.deq_law [OF Suc.prems ne(1)] by blast
  have "length (queue_list q1) = n" using q1(3) Suc.hyps(2) by simp
  then obtain q' where "drain q1 (acc @ [hd (queue_list q)]) = Inr ((acc @ [hd (queue_list q)]) @ queue_list q1, q')"
    using Suc.hyps(1) [of q1 "acc @ [hd (queue_list q)]"] q1(2) by auto
  then show ?case
    using ne q1 rq.front_law [OF Suc.prems ne(1)] by (subst drain.simps) (simp add: queue_empty_def)
qed

lemma direct_inv_mono: "direct_inv n d \<Longrightarrow> n \<le> m \<Longrightarrow> direct_inv m d"
  by (fastforce simp: direct_inv_def)

fun direct_do ::
  "'k waker \<Rightarrow> key_order \<Rightarrow> 'p sock_message direct_op
     \<Rightarrow> (('k, 'p sock_message) direct_channel, 'p sock_message direct_answer) call" where
  "direct_do wake order (D_join p h) = then_do (direct_new wake order p h) (\<lambda>_. give None)"
| "direct_do wake order (D_leave p) = then_do (direct_destroy wake order p) (\<lambda>_. give None)"
| "direct_do wake order (D_send p q pack) = then_do (direct_send wake p q pack) (\<lambda>_. give None)"
| "direct_do wake order (D_receive p) = direct_receive order p"

lemma direct_inv_step:
  assumes "direct_inv n d" "distinct (stream_keys d')" "\<And>x. stream_eh d' x \<noteq> Some None"
    and "\<And>x y q. stream_queue d' x y = Some q \<Longrightarrow>
      queue_ok q \<and> queue_used q \<le> Suc n \<and> queue_list q \<noteq> [] \<or> stream_queue d x y = Some q"
  shows "direct_inv (Suc n) d'"
  using assms unfolding direct_inv_def by (meson le_SucI)

lemma join_simulates:
  assumes inv: "direct_inv n d" "n < packet_limit" and order: "keys_order order"
    and run: "direct_new wake order p h d = (Inr u, d')"
  shows "direct_inv (Suc n) d' \<and> mail_step (D_join p h) None (mail_of d) (mail_of d')"
proof -
  let ?e = "\<lparr>peer_eh = Some h, peer_incoming = []\<rparr>" and ?j = "builtin_packet Stream_join :: 'b sock_message packet"
  have new: "map_of (dc_streams d) p = None"
    using run by (auto simp: direct_new_def split: if_splits)
  define d0 where "d0 = put_stream p ?e d"
  have p: "p \<notin> set (stream_keys d)" using new by (simp add: stream_keys_def map_of_eq_None_iff)
  have d0: "stream_keys d0 = stream_keys d @ [p]" "stream_eh d0 = (stream_eh d)(p \<mapsto> Some h)"
      "stream_queue d0 = stream_queue d"
    using p new
    by (auto simp: d0_def put_stream_def stream_keys_def stream_eh_def stream_queue_def update_keys update_conv' fun_eq_iff)
  have loop: "join_loop wake p (order (stream_keys d0)) d0 = (Inr u, d')"
    using run new by (simp add: direct_new_def d0_def stream_keys_def Let_def)
  have dist: "distinct (order (stream_keys d0))" "set (order (stream_keys d0)) = insert p (set (stream_keys d))"
    using order inv(1) p d0(1) by (auto simp: keys_order_def direct_inv_def)
  note v = join_loop_view [OF loop dist(1), unfolded dist(2)]
  have jq: "queue_ok (pushed ?j None)" "queue_used (pushed ?j None) \<le> Suc n" "queue_list (pushed ?j None) = [?j]"
    using pushed_spec [where q = None and n = 0 and pack = ?j] by auto
  have own: "stream_queue d p y = None" for y
    using new by (simp add: stream_queue_def)
  have gone: "stream_queue d x p = None" if "x \<in> set (stream_keys d)" for x
    using v that p d0(3) by auto
  have "q = pushed ?j None \<or> stream_queue d x y = Some q" if "stream_queue d' x y = Some q" for x y q
    using that v d0(3) by (auto split: if_splits)
  note queues = this
  have "direct_inv (Suc n) d'"
  proof (rule direct_inv_step [OF inv(1)])
    show "distinct (stream_keys d')" "stream_eh d' x \<noteq> Some None" for x
      using v d0(1,2) p inv(1) by (auto simp: direct_inv_def)
    show "queue_ok q \<and> queue_used q \<le> Suc n \<and> queue_list q \<noteq> [] \<or> stream_queue d x y = Some q"
      if "stream_queue d' x y = Some q" for x y q
      using queues [OF that] jq by (elim disjE) simp_all
  qed
  moreover have "mail_of d' = \<lparr>mb_names = insert p (set (stream_keys d)),
     mb_box = (\<lambda>x y. if x = p \<and> y \<in> set (stream_keys d) \<or> y = p \<and> x \<in> set (stream_keys d) then [?j]
       else mb_box (mail_of d) x y)\<rparr>"
    using v d0 p jq(3) by (auto simp: mail_of_def fun_eq_iff)
  moreover have "mail_step (D_join p h) None (mail_of d) \<lparr>mb_names = insert p (set (stream_keys d)),
     mb_box = (\<lambda>x y. if x = p \<and> y \<in> set (stream_keys d) \<or> y = p \<and> x \<in> set (stream_keys d) then [?j]
       else mb_box (mail_of d) x y)\<rparr>"
    using mail_step.join [of p "set (stream_keys d)" "mb_box (mail_of d)" h] p gone by (simp add: mail_of_def)
  ultimately show ?thesis by simp
qed

lemma queue_in_inv: "direct_inv n d \<Longrightarrow> case stream_queue d x y of None \<Rightarrow> True | Some q \<Rightarrow> queue_ok q \<and> queue_used q \<le> n"
  by (auto simp: direct_inv_def split: option.splits)

lemma leave_simulates:
  assumes inv: "direct_inv n d" "n < packet_limit" and order: "keys_order order"
    and run: "direct_destroy wake order p d = (Inr u, d')"
  shows "direct_inv (Suc n) d' \<and> mail_step (D_leave p) None (mail_of d) (mail_of d')"
proof -
  let ?m = "builtin_packet Stream_drop :: 'b sock_message packet"
  have loop: "leave_loop wake p (order (stream_keys d)) d = (Inr u, d')"
    using run by (auto simp: direct_destroy_def stream_keys_def split: prod.splits sum.splits)
  have dist: "distinct (order (stream_keys d))" "set (order (stream_keys d)) = set (stream_keys d)"
    using order inv(1) by (auto simp: keys_order_def direct_inv_def)
  note v = leave_loop_view [OF loop dist(1), unfolded dist(2)]
  have gone: "stream_queue d x y = None" if "x \<notin> set (stream_keys d)" for x y
    using that stream_queue_gone [of d x y] by (simp add: stream_keys_eh domIff)
  have names: "set (stream_keys d') = set (stream_keys d) - {p}"
    using v by (auto simp: stream_keys_eh split: if_splits)
  have dropped: "queue_ok (pushed ?m (stream_queue d x y)) \<and> queue_used (pushed ?m (stream_queue d x y)) \<le> Suc n \<and>
      queue_list (pushed ?m (stream_queue d x y)) = (case stream_queue d x y of None \<Rightarrow> [] | Some q \<Rightarrow> queue_list q) @ [?m]"
    for x y by (rule pushed_spec [OF queue_in_inv [OF inv(1)] inv(2)])
  have "direct_inv (Suc n) d'"
  proof (rule direct_inv_step [OF inv(1)])
    show "distinct (stream_keys d')" "stream_eh d' x \<noteq> Some None" for x
      using v inv(1) by (auto simp: direct_inv_def)
    show "queue_ok q \<and> queue_used q \<le> Suc n \<and> queue_list q \<noteq> [] \<or> stream_queue d x y = Some q"
      if "stream_queue d' x y = Some q" for x y q
      using that v dropped [of x y] by (auto simp del: queue_list_empty split: if_splits)
  qed
  moreover have "mail_of d' = \<lparr>mb_names = set (stream_keys d) - {p},
     mb_box = (\<lambda>x y. if x = p then [] else if y = p \<and> x \<in> set (stream_keys d)
       then mb_box (mail_of d) x y @ [?m] else mb_box (mail_of d) x y)\<rparr>"
    using v names gone dropped by (auto simp: mail_of_def fun_eq_iff)
  ultimately show ?thesis
    using mail_step.leave [of p "set (stream_keys d)" "mb_box (mail_of d)"] by (simp add: mail_of_def)
qed

lemma send_simulates:
  assumes inv: "direct_inv n d" "n < packet_limit"
    and run: "direct_send wake p q pack d = (Inr u, d')"
  shows "direct_inv (Suc n) d' \<and> mail_step (D_send p q pack) None (mail_of d) (mail_of d')"
proof -
  obtain d1 where push: "push_from q p pack d = (Inr (), d1)" and wk: "wake_stream wake q d1 = (Inr u, d')"
      and ne: "q \<noteq> p" "map_of (dc_streams d) q \<noteq> None"
    using run by (auto simp: direct_send_def then_do_Inr split: if_splits)
  have v: "stream_eh d' = stream_eh d" "stream_keys d' = stream_keys d"
      "stream_queue d' = (stream_queue d)(q := (stream_queue d q)(p \<mapsto> pushed pack (stream_queue d q p)))"
    using push_from_view [OF push] wake_stream_view [OF wk] by simp_all
  have q: "q \<in> set (stream_keys d)" using ne by (simp add: stream_keys_def map_of_eq_None_iff)
  note sent = pushed_spec [OF queue_in_inv [OF inv(1), of q p] inv(2), where pack = pack]
  have "direct_inv (Suc n) d'"
  proof (rule direct_inv_step [OF inv(1)])
    show "distinct (stream_keys d')" "stream_eh d' x \<noteq> Some None" for x
      using v inv(1) by (auto simp: direct_inv_def)
    show "queue_ok r \<and> queue_used r \<le> Suc n \<and> queue_list r \<noteq> [] \<or> stream_queue d x y = Some r"
      if "stream_queue d' x y = Some r" for x y r
      using that v(3) sent by (auto simp del: queue_list_empty split: if_splits)
  qed
  moreover have "mail_of d' = \<lparr>mb_names = set (stream_keys d),
     mb_box = (mb_box (mail_of d))(q := (mb_box (mail_of d) q)(p := mb_box (mail_of d) q p @ [pack]))\<rparr>"
    using v sent by (simp add: mail_of_def fun_eq_iff)
  ultimately show ?thesis
    using mail_step.send [OF q ne(1), of pack "mb_box (mail_of d)"] by (simp add: mail_of_def)
qed

lemma receive_simulates:
  assumes inv: "direct_inv n d" "n < packet_limit" and order: "keys_order order" and p: "p \<in> set (stream_keys d)"
  shows "\<exists>out d'. direct_receive order p d = (Inr out, d') \<and> direct_inv (Suc n) d' \<and>
    mail_step (D_receive p) out (mail_of d) (mail_of d')"
proof -
  obtain e where e: "map_of (dc_streams d) p = Some e"
    using p by (auto simp: stream_keys_def dest: weak_map_of_SomeI)
  have same: "stream_eh (put_stream p e d) = stream_eh d" "stream_keys (put_stream p e d) = stream_keys d"
      "stream_queue (put_stream p e d) = stream_queue d"
    using e p by (auto simp: put_stream_def stream_eh_def stream_keys_def stream_queue_def update_conv' update_keys fun_eq_iff)
  have q: "stream_queue d p = map_of (peer_incoming e)" using e by (simp add: stream_queue_def fun_eq_iff)
  show ?thesis
  proof (cases "order (map fst (peer_incoming e))")
    case Nil
    then have "map fst (peer_incoming e) = []" using order by (metis keys_order_def set_empty2 set_empty)
    then have "mb_box (mail_of d) p x = []" for x by (simp add: mail_of_def q)
    then have "mail_step (D_receive p) None (mail_of d) (mail_of d)"
      using mail_step.receive_none [of "mb_box (mail_of d)" p "mb_names (mail_of d)"] by (simp add: mail_of_def)
    moreover have "direct_inv (Suc n) (put_stream p e d)" "mail_of (put_stream p e d) = mail_of d"
      using direct_inv_mono [OF inv(1), of "Suc n"] same by (simp_all add: direct_inv_def mail_of_def)
    ultimately show ?thesis using Nil e by (simp add: direct_receive_def)
  next
    case (Cons x xs)
    then have "x \<in> set (map fst (peer_incoming e))" using order by (metis keys_order_def list.set_intros(1))
    then obtain r where r: "map_of (peer_incoming e) x = Some r" by (auto dest: weak_map_of_SomeI)
    then have ok: "queue_ok r" "queue_list r \<noteq> []"
      using inv(1) fun_cong [OF q, of x] unfolding direct_inv_def by metis+
    obtain r' where drained: "drain r [] = Inr (queue_list r, r')" using drain_spec [OF ok(1), of "[]"] by auto
    define d' where "d' = put_stream p (e\<lparr>peer_incoming := AList.delete x (peer_incoming e)\<rparr>) (put_stream p e d)"
    have v: "stream_eh d' = stream_eh d" "stream_keys d' = stream_keys d"
        "stream_queue d' = (stream_queue d)(p := (stream_queue d p)(x := None))"
      using e p
      by (auto simp: d'_def put_stream_def stream_eh_def stream_keys_def stream_queue_def update_conv' update_keys
          delete_conv' fun_eq_iff)
    have "direct_inv (Suc n) d'"
    proof (rule direct_inv_step [OF inv(1)])
      show "distinct (stream_keys d')" "stream_eh d' y \<noteq> Some None" for y
        using v inv(1) by (auto simp: direct_inv_def)
      show "queue_ok s \<and> queue_used s \<le> Suc n \<and> queue_list s \<noteq> [] \<or> stream_queue d a b = Some s"
        if "stream_queue d' a b = Some s" for a b s
        using that v(3) by (auto split: if_splits)
    qed
    moreover have "direct_receive order p d = (Inr (Some (x, queue_list r)), d')"
      using Cons e r drained by (simp add: direct_receive_def d'_def)
    moreover have box: "mb_box (mail_of d) p x = queue_list r" using r q by (simp add: mail_of_def)
    moreover have "mail_of d' = \<lparr>mb_names = set (stream_keys d), mb_box = (mb_box (mail_of d))(p := (mb_box (mail_of d) p)(x := []))\<rparr>"
      using v by (simp add: mail_of_def fun_eq_iff)
    ultimately show ?thesis
      using mail_step.receive [of "mb_box (mail_of d)" p x "set (stream_keys d)"] ok(2) by (simp add: mail_of_def)
  qed
qed

section \<open>Runs\<close>

fun direct_run ::
  "'k waker \<Rightarrow> key_order \<Rightarrow> 'p sock_message direct_op list
     \<Rightarrow> (('k, 'p sock_message) direct_channel, 'p sock_message direct_answer list) call" where
  "direct_run wake order [] = give []"
| "direct_run wake order (op # ops) =
     then_do (direct_do wake order op) (\<lambda>out. then_do (direct_run wake order ops) (\<lambda>outs. give (out # outs)))"

text \<open>Calls on streams that exist.\<close>

fun owned :: "string set \<Rightarrow> 'm direct_op list \<Rightarrow> bool" where
  "owned N [] = True"
| "owned N (D_join p _ # ops) = owned (insert p N) ops"
| "owned N (D_leave p # ops) = (p \<in> N \<and> owned (N - {p}) ops)"
| "owned N (D_send p _ _ # ops) = (p \<in> N \<and> owned N ops)"
| "owned N (D_receive p # ops) = (p \<in> N \<and> owned N ops)"

inductive mail_run ::
  "'p sock_message direct_op list \<Rightarrow> 'p sock_message direct_answer list \<Rightarrow> 'p sock_message mailboxes
     \<Rightarrow> 'p sock_message mailboxes \<Rightarrow> bool" where
  Nil: "mail_run [] [] m m"
| Cons: "mail_step op out m m1 \<Longrightarrow> mail_run ops outs m1 m2 \<Longrightarrow> mail_run (op # ops) (out # outs) m m2"

inductive_cases mail_joinE: "mail_step (D_join p h) out m m'"
inductive_cases mail_leaveE: "mail_step (D_leave p) out m m'"
inductive_cases mail_sendE: "mail_step (D_send p q pack) out m m'"
inductive_cases mail_receiveE: "mail_step (D_receive p) out m m'"

lemma direct_do_simulates:
  assumes "direct_inv n d" "n < packet_limit" "keys_order order" "owned (set (stream_keys d)) (op # ops)"
    and "direct_do wake order op d = (Inr out, d')"
  shows "direct_inv (Suc n) d' \<and> mail_step op out (mail_of d) (mail_of d') \<and> owned (set (stream_keys d')) ops"
proof -
  have *: "direct_inv (Suc n) d' \<and> mail_step op out (mail_of d) (mail_of d')"
  proof (cases op)
    case (D_join p h)
    then show ?thesis using join_simulates [OF assms(1-3)] assms(5) by (auto simp: then_do_Inr give_def)
  next
    case (D_leave p)
    then show ?thesis using leave_simulates [OF assms(1-3)] assms(5) by (auto simp: then_do_Inr give_def)
  next
    case (D_send p q pack)
    then show ?thesis using send_simulates [OF assms(1,2)] assms(5) by (auto simp: then_do_Inr give_def)
  next
    case (D_receive p)
    then show ?thesis using receive_simulates [OF assms(1-3), of p] assms(4,5) by auto
  qed
  then have "mb_names (mail_of d') = (case op of D_join p _ \<Rightarrow> insert p (mb_names (mail_of d))
      | D_leave p \<Rightarrow> mb_names (mail_of d) - {p} | _ \<Rightarrow> mb_names (mail_of d))"
    by (cases op) (auto elim: mail_joinE mail_leaveE mail_sendE mail_receiveE)
  then have "owned (set (stream_keys d')) ops"
    using assms(4) by (cases op) (auto simp: mail_of_def)
  with * show ?thesis by blast
qed

lemma direct_run_simulates:
  assumes "direct_inv n d" "n + length ops \<le> packet_limit" "keys_order order" "owned (set (stream_keys d)) ops"
    and "direct_run wake order ops d = (Inr outs, d')"
  shows "direct_inv (n + length ops) d' \<and> mail_run ops outs (mail_of d) (mail_of d')"
  using assms(1,2,4,5)
proof (induction ops arbitrary: n d outs)
  case Nil
  then show ?case by (auto simp: give_def intro: mail_run.Nil)
next
  case (Cons op ops)
  obtain out d1 outs1 where run: "direct_do wake order op d = (Inr out, d1)" "direct_run wake order ops d1 = (Inr outs1, d')"
      "outs = out # outs1"
    using Cons.prems(4) by (auto simp: then_do_Inr give_def)
  have "n < packet_limit" using Cons.prems(2) by simp
  note one = direct_do_simulates [OF Cons.prems(1) this assms(3) Cons.prems(3) run(1)]
  then have "direct_inv (Suc n + length ops) d' \<and> mail_run ops outs1 (mail_of d1) (mail_of d')"
    using Cons.prems(2) run(2) by (intro Cons.IH) simp_all
  then show ?case using one run(3) by (auto intro: mail_run.Cons)
qed

text \<open>What was written from one stream to another, and what the other one got from it.\<close>

fun written_to :: "string \<Rightarrow> string \<Rightarrow> 'm direct_op list \<Rightarrow> 'm packet list" where
  "written_to p q [] = []"
| "written_to p q (D_send p' q' pack # ops) = (if p' = p \<and> q' = q then [pack] else []) @ written_to p q ops"
| "written_to p q (_ # ops) = written_to p q ops"

fun got_from :: "string \<Rightarrow> string \<Rightarrow> 'm direct_op list \<Rightarrow> 'm direct_answer list \<Rightarrow> 'm packet list" where
  "got_from p q (D_receive q' # ops) (Some (p', packs) # outs) =
     (if p' = p \<and> q' = q then packs else []) @ got_from p q ops outs"
| "got_from p q (_ # ops) (_ # outs) = got_from p q ops outs"
| "got_from p q _ _ = []"

fun concerns :: "string \<Rightarrow> 'm direct_op \<Rightarrow> bool" where
  "concerns p (D_join p' _) = (p' = p)"
| "concerns p (D_leave p') = (p' = p)"
| "concerns p _ = False"

lemma mail_run_fifo:
  assumes "mail_run ops outs m m'" "\<forall>op \<in> set ops. \<not> concerns p op \<and> \<not> concerns q op"
  shows "mb_box m q p @ written_to p q ops = got_from p q ops outs @ mb_box m' q p"
  using assms
proof (induction rule: mail_run.induct)
  case (Cons op out m m1 ops outs m2)
  have IH: "mb_box m1 q p @ written_to p q ops = got_from p q ops outs @ mb_box m2 q p"
    using Cons by simp
  show ?case
  proof (cases op)
    case (D_join p' h)
    then show ?thesis using Cons IH by (auto elim!: mail_joinE split: if_splits)
  next
    case (D_leave p')
    then show ?thesis using Cons IH by (auto elim!: mail_leaveE split: if_splits)
  next
    case (D_send p' q' pack)
    then show ?thesis using Cons.hyps(1) IH by (auto elim!: mail_sendE split: if_splits)
  next
    case (D_receive q')
    then show ?thesis using Cons.hyps(1) IH by (auto elim!: mail_receiveE split: if_splits)
  qed
qed simp

lemma push_from_keeps_eh: "push_from x y pack d = (r, d') \<Longrightarrow> stream_eh d' = stream_eh d"
  by (auto simp: push_from_def Let_def put_view split: option.splits sum.splits)

lemma join_one_keeps_eh: "join_one wake p x d = (r, d') \<Longrightarrow> stream_eh d' = stream_eh d"
proof -
  have ins: "insert_join what a b c = (r, c') \<Longrightarrow> stream_eh c' = stream_eh c" for what a b c r and c' :: "('a, 'b sock_message) direct_channel"
    by (auto simp: insert_join_def split: option.splits if_splits dest: push_from_keeps_eh)
  assume "join_one wake p x d = (r, d')"
  then show ?thesis
    by (auto simp: join_one_def then_do_def split: prod.splits sum.splits dest!: ins wake_stream_view(1))
qed

lemma join_loop_keeps_eh: "join_loop wake p ns d = (r, d') \<Longrightarrow> stream_eh d' = stream_eh d"
  by (induction ns arbitrary: d)
     (auto simp: give_def then_do_def split: if_splits prod.splits sum.splits dest!: join_one_keeps_eh)

section \<open>Properties\<close>

definition quiet_wake :: "nat waker" where
  "quiet_wake h k = (Inr (), k + 1)"

lemma empty_channel:
  "direct_inv 0 (direct_channel_new k)" "stream_keys (direct_channel_new k) = []"
  "mail_of (direct_channel_new k) = \<lparr>mb_names = {}, mb_box = (\<lambda>_ _. [])\<rparr>"
  by (simp_all add: direct_inv_def direct_channel_new_def stream_keys_def stream_eh_def stream_queue_def mail_of_def)

definition example_pack :: "string \<Rightarrow> string sock_message packet" where
  "example_pack text = packet_set builtin_rtt (\<lambda>_. []) (Loaded text) packet_new"

lemma example_order: "keys_order rev" "keys_order (\<lambda>ks. ks)"
  by (simp_all add: keys_order_def)

text \<open>C4: the streams of a channel are mailboxes: any run of calls on existing streams, as long as
  none fails, does what the specification says with a list of packets for each pair of streams,
  whatever the order of the hash maps, greetings and farewells included.\<close>

theorem direct_stream_mailboxes:
  assumes "direct_inv n d" "n + length ops \<le> packet_limit" "keys_order order" "owned (set (stream_keys d)) ops"
    and "direct_run wake order ops d = (Inr outs, d')"
  shows "mail_run ops outs (mail_of d) (mail_of d')"
  using direct_run_simulates [OF assms] by blast

theorem direct_stream_mailboxes_witness:
  "\<exists>outs d'. direct_run quiet_wake rev [D_join ''a'' 1, D_join ''b'' 2, D_send ''a'' ''b'' (example_pack ''hi''), D_receive ''b'',
      D_leave ''a'', D_receive ''b''] (direct_channel_new 0) = (Inr outs, d') \<and>
    mail_run [D_join ''a'' 1, D_join ''b'' 2, D_send ''a'' ''b'' (example_pack ''hi''), D_receive ''b'', D_leave ''a'',
      D_receive ''b''] outs \<lparr>mb_names = {}, mb_box = (\<lambda>_ _. [])\<rparr> (mail_of d')"
proof -
  let ?ops = "[D_join ''a'' 1, D_join ''b'' 2, D_send ''a'' ''b'' (example_pack ''hi''), D_receive ''b'', D_leave ''a'',
      D_receive ''b'']"
  have "isl (fst (direct_run quiet_wake rev ?ops (direct_channel_new 0))) = False" by code_simp
  then obtain outs d' where run: "direct_run quiet_wake rev ?ops (direct_channel_new 0) = (Inr outs, d')"
    by (metis obj_sumE isl_def prod.collapse)
  have "owned (set (stream_keys (direct_channel_new 0))) ?ops" by (simp add: empty_channel)
  from direct_stream_mailboxes [OF empty_channel(1) _ example_order(1) this run]
  show ?thesis using run by (auto simp: empty_channel)
qed

text \<open>Packets from one stream to another arrive in the order they were sent, none is lost and
  none comes twice: what was pending and what was sent meanwhile is what was received
  followed by what is pending now.\<close>

theorem direct_stream_fifo:
  assumes "direct_inv n d" "n + length ops \<le> packet_limit" "keys_order order" "owned (set (stream_keys d)) ops"
    and "direct_run wake order ops d = (Inr outs, d')"
    and "\<forall>op \<in> set ops. \<not> concerns p op \<and> \<not> concerns q op"
  shows "mb_box (mail_of d) q p @ written_to p q ops = got_from p q ops outs @ mb_box (mail_of d') q p"
proof -
  have "mail_run ops outs (mail_of d) (mail_of d')" using direct_run_simulates [OF assms(1-5)] by blast
  then show ?thesis using assms(6) by (rule mail_run_fifo)
qed

definition example_pair :: "(nat, string sock_message) direct_channel" where
  "example_pair = snd (direct_run quiet_wake rev [D_join ''a'' 1, D_join ''b'' 2, D_receive ''b''] (direct_channel_new 0))"

lemma example_pair_inv: "direct_inv 3 example_pair \<and> set (stream_keys example_pair) = {''a'', ''b''}"
proof -
  let ?ops = "[D_join ''a'' 1, D_join ''b'' 2, D_receive ''b''] :: string sock_message direct_op list"
  have "isl (fst (direct_run quiet_wake rev ?ops (direct_channel_new 0))) = False" by code_simp
  then obtain outs d' where run: "direct_run quiet_wake rev ?ops (direct_channel_new 0) = (Inr outs, d')"
    by (metis obj_sumE isl_def prod.collapse)
  have "owned (set (stream_keys (direct_channel_new 0))) ?ops" by (simp add: empty_channel)
  moreover have three: "0 + length ?ops = 3" by simp
  moreover have "0 + length ?ops \<le> packet_limit" unfolding three by simp
  ultimately have "direct_inv 3 d'"
    using direct_run_simulates [OF empty_channel(1) _ example_order(1) _ run] by metis
  moreover have "set (stream_keys example_pair) = {''a'', ''b''}" unfolding stream_keys_def by code_simp
  ultimately show ?thesis using run by (simp add: example_pair_def)
qed

theorem direct_stream_fifo_witness:
  "\<exists>outs d'. direct_run quiet_wake rev [D_send ''a'' ''b'' (example_pack ''x''), D_send ''a'' ''b'' (example_pack ''y''),
      D_receive ''b''] example_pair = (Inr outs, d') \<and>
    mb_box (mail_of example_pair) ''b'' ''a'' @ [example_pack ''x'', example_pack ''y''] =
      got_from ''a'' ''b'' [D_send ''a'' ''b'' (example_pack ''x''), D_send ''a'' ''b'' (example_pack ''y''), D_receive ''b'']
        outs @ mb_box (mail_of d') ''b'' ''a''"
proof -
  let ?ops = "[D_send ''a'' ''b'' (example_pack ''x''), D_send ''a'' ''b'' (example_pack ''y''), D_receive ''b'']"
  have "isl (fst (direct_run quiet_wake rev ?ops example_pair)) = False" by code_simp
  then obtain outs d' where run: "direct_run quiet_wake rev ?ops example_pair = (Inr outs, d')"
    by (metis obj_sumE isl_def prod.collapse)
  have "owned (set (stream_keys example_pair)) ?ops" using example_pair_inv by simp
  from direct_stream_fifo [OF conjunct1 [OF example_pair_inv] _ example_order(1) this run, of "''a''" "''b''"]
  show ?thesis using run by auto
qed

text \<open>C30: a stream cannot come back under its name while another one has not read the farewell
  of its former life: the constructor fails, and it leaves the name registered with the event
  handler of the object that was never made.\<close>

theorem direct_rejoin_fails:
  assumes "keys_order order" "distinct (stream_keys d)" "p \<notin> set (stream_keys d)"
    and "x \<in> set (stream_keys d)" "mb_box (mail_of d) x p \<noteq> []"
    and "direct_new wake order p h d = (r, d')"
  shows "(\<exists>e. r = Inl e) \<and> stream_eh d' p = Some (Some h)"
proof -
  define d0 where "d0 = put_stream p \<lparr>peer_eh = Some h, peer_incoming = []\<rparr> d"
  have new: "map_of (dc_streams d) p = None" using assms(3) by (simp add: stream_keys_def map_of_eq_None_iff)
  have d0: "stream_keys d0 = stream_keys d @ [p]" "stream_eh d0 = (stream_eh d)(p \<mapsto> Some h)"
      "stream_queue d0 = stream_queue d"
    using assms(3) new
    by (auto simp: d0_def put_stream_def stream_keys_def stream_eh_def stream_queue_def update_keys update_conv' fun_eq_iff)
  have loop: "join_loop wake p (order (stream_keys d0)) d0 = (r, d')"
    using assms(6) new by (simp add: direct_new_def d0_def stream_keys_def Let_def)
  have "stream_queue d0 x p \<noteq> None" using assms(5) d0(3) by (cases "stream_queue d x p") (auto simp: mail_of_def)
  moreover have "distinct (order (stream_keys d0))" "x \<in> set (order (stream_keys d0)) - {p}"
    using assms(1-4) d0(1) by (auto simp: keys_order_def)
  ultimately have "r \<noteq> Inr u" for u
    using join_loop_view [of wake p "order (stream_keys d0)" d0 u d'] loop by auto
  then show ?thesis using join_loop_keeps_eh [OF loop] d0(2) by (cases r) auto
qed

theorem direct_rejoin_fails_witness:
  "\<exists>e d'. direct_new quiet_wake (\<lambda>ks. ks) ''a'' 7 (snd (direct_destroy quiet_wake rev ''a'' example_pair)) = (Inl e, d') \<and>
    stream_eh d' ''a'' = Some (Some 7)"
proof -
  let ?d = "snd (direct_destroy quiet_wake rev ''a'' example_pair)"
  obtain r d' where run: "direct_new quiet_wake (\<lambda>ks. ks) ''a'' 7 ?d = (r, d')" by fastforce
  have keys: "stream_keys ?d = [''b'']" unfolding stream_keys_def by code_simp
  have "length (mb_box (mail_of ?d) ''b'' ''a'') = 1"
    unfolding mail_of_def stream_queue_def queue_list_def by code_simp
  then have "mb_box (mail_of ?d) ''b'' ''a'' \<noteq> []" by auto
  from direct_rejoin_fails [OF example_order(2) _ _ _ this run] show ?thesis
    using run by (auto simp: keys)
qed

end
