(* ===== verification/Processor.thy ===== *)
theory Processor
  imports Event_Handler "HOL-Library.Multiset"
begin

text \<open>
  The pool of worker threads \<open>processor_ex\<close> of \<open>src/libprocessor/processor.cpp\<close>, with all
  interleavings of its threads. A step is a critical section, a notification, or a step of a
  thread outside the lock. The threads are given by where they stand; a thread that waits for a
  condition variable sleeps, and comes back awake to look at its condition again. The worker function
  is a parameter that gives the results a package is answered with, in the order they are sent.
  The queues are lists here.
\<close>

section \<open>The state\<close>

datatype pending_policy = Allow_new | Prevent_new | Empty_queue

text \<open>Where a thread of the pool stands: before the lock at the top of its loop, asleep in the
  condition variable, awake but not yet in the lock again, with a package in hand, sending
  results, ended.\<close>

datatype 'm pc = Loop_top | Sleeping | Woken | Working 'm | Sending 'm "'m list" | Exited

text \<open>A caller of \<open>processor_ex::wait\<close>, and the one that waits for output.\<close>

datatype waiter = W_sleeping usize | W_woken usize | W_done

datatype reader = R_idle | R_sleeping | R_woken

text \<open>A call of \<open>setCoreCount\<close> under way: the number of threads it goes by and the number it wants.\<close>

datatype core = Core_idle | Core_read | Core_grow usize usize | Core_join usize usize

record 'm processor =
  on_demand_wakeup :: usize
  m_policy :: pending_policy
  m_thread_count :: usize
  m_busy_count :: usize
  m_i_task_count :: usize
  m_threads :: "'m pc list"
  m_input_queue :: "'m list"
  m_output_queue :: "'m list"
  run_notices :: nat
  waiters :: "waiter list"
  reader :: reader
  core :: core

section \<open>Changing the number of threads\<close>

definition core_set :: "usize \<Rightarrow> 'm processor \<Rightarrow> 'm processor" where
  "core_set n s = s\<lparr>m_thread_count := n, core := Core_read\<rparr>"

definition core_read :: "'m processor \<Rightarrow> 'm processor" where
  "core_read s = s\<lparr>core := Core_grow (of_nat (length (m_threads s))) (m_thread_count s)\<rparr>"

definition wake_all :: "'m pc list \<Rightarrow> 'm pc list" where
  "wake_all = map (\<lambda>t. if t = Sleeping then Woken else t)"

definition core_grow :: "usize \<Rightarrow> usize \<Rightarrow> 'm processor \<Rightarrow> 'm processor" where
  "core_grow current_thread_count desired_thread_count s =
     (if current_thread_count < desired_thread_count
      then s\<lparr>m_threads := m_threads s @ [Loop_top],
             core := Core_grow (current_thread_count + 1) desired_thread_count\<rparr>
      else if current_thread_count > desired_thread_count
      then s\<lparr>m_threads := wake_all (m_threads s), core := Core_join current_thread_count desired_thread_count\<rparr>
      else s\<lparr>core := Core_idle\<rparr>)"

text \<open>\<open>join\<close> returns when the last thread has ended.\<close>

definition core_join :: "usize \<Rightarrow> usize \<Rightarrow> 'm processor \<Rightarrow> 'm processor" where
  "core_join current_thread_count desired_thread_count s =
     (if current_thread_count > desired_thread_count
      then s\<lparr>m_threads := butlast (m_threads s), core := Core_join (current_thread_count - 1) desired_thread_count\<rparr>
      else s\<lparr>core := Core_idle\<rparr>)"

definition get_core_count :: "'m processor \<Rightarrow> nat" where
  "get_core_count s = length (m_threads s)"

definition processor_new :: "usize \<Rightarrow> 'm processor" where
  "processor_new n =
     core_set n \<lparr>on_demand_wakeup = 0, m_policy = Allow_new, m_thread_count = n, m_busy_count = 0,
       m_i_task_count = 0, m_threads = [], m_input_queue = [], m_output_queue = [], run_notices = 0,
       waiters = [], reader = R_idle, core = Core_idle\<rparr>"

definition processor_destroy :: "'m processor \<Rightarrow> 'm processor" where
  "processor_destroy s = core_set 0 s"

section \<open>The threads of the pool\<close>

definition set_thread :: "nat \<Rightarrow> 'm pc \<Rightarrow> 'm processor \<Rightarrow> 'm processor" where
  "set_thread i t s = s\<lparr>m_threads := (m_threads s)[i := t]\<rparr>"

definition wants_stop :: "nat \<Rightarrow> 'm processor \<Rightarrow> bool" where
  "wants_stop i s = (m_thread_count s < of_nat i + 1)"

definition take_task :: "nat \<Rightarrow> 'm processor \<Rightarrow> 'm processor" where
  "take_task i s =
     (case m_input_queue s of
        [] \<Rightarrow> s
      | package # rest \<Rightarrow>
          set_thread i (Working package) (s\<lparr>m_input_queue := rest, m_busy_count := m_busy_count s + 1\<rparr>))"

text \<open>In the lock at the top of the loop: with nothing to do the thread ends or goes to sleep.\<close>

definition loop_enter :: "nat \<Rightarrow> 'm processor \<Rightarrow> 'm processor" where
  "loop_enter i s =
     (if m_input_queue s = []
      then if wants_stop i s then set_thread i Exited s else set_thread i Sleeping s
      else take_task i s)"

text \<open>Awake, in the lock again: with nothing to do and its end not wanted the thread sleeps on.\<close>

definition loop_wake :: "nat \<Rightarrow> 'm processor \<Rightarrow> 'm processor" where
  "loop_wake i s =
     (if m_input_queue s \<noteq> [] \<or> wants_stop i s
      then if m_input_queue s \<noteq> [] then take_task i s else set_thread i Loop_top s
      else set_thread i Sleeping s)"

definition work_begin :: "('m \<Rightarrow> 'm list) \<Rightarrow> nat \<Rightarrow> 'm \<Rightarrow> 'm processor \<Rightarrow> 'm processor" where
  "work_begin worker i package s =
     set_thread i (Sending package (if Empty_queue \<noteq> m_policy s then worker package else [])) s"

definition notify_reader :: "'m processor \<Rightarrow> 'm processor" where
  "notify_reader s = (if reader s = R_sleeping then s\<lparr>reader := R_woken\<rparr> else s)"

definition result_send :: "nat \<Rightarrow> 'm \<Rightarrow> 'm \<Rightarrow> 'm list \<Rightarrow> 'm processor \<Rightarrow> 'm processor" where
  "result_send i package result rest s =
     notify_reader (set_thread i (Sending package rest) (s\<lparr>m_output_queue := m_output_queue s @ [result]\<rparr>))"

text \<open>\<open>notify_one\<close> for the callers of \<open>wait\<close>: which one is the choice \<open>j\<close> of the system.\<close>

definition notify_waiter :: "nat \<Rightarrow> 'm processor \<Rightarrow> 'm processor" where
  "notify_waiter j s =
     (if j < length (waiters s)
      then case waiters s ! j of W_sleeping n \<Rightarrow> s\<lparr>waiters := (waiters s)[j := W_woken n]\<rparr> | _ \<Rightarrow> s
      else s)"

definition work_end :: "nat \<Rightarrow> nat \<Rightarrow> 'm processor \<Rightarrow> 'm processor" where
  "work_end i j s =
     (let s = set_thread i Loop_top (s\<lparr>m_busy_count := m_busy_count s - 1\<rparr>)
      in if m_input_queue s = [] \<and> m_busy_count s = 0 then notify_waiter j s else s)"

text \<open>\<open>notify_one\<close> for the threads of the pool, made by \<open>send\<close> outside the lock.\<close>

definition notify_run :: "nat \<Rightarrow> 'm processor \<Rightarrow> 'm processor" where
  "notify_run j s =
     (let s = s\<lparr>run_notices := run_notices s - 1\<rparr>
      in if j < length (m_threads s) \<and> m_threads s ! j = Sleeping then set_thread j Woken s else s)"

section \<open>The calls of the clients\<close>

definition processor_send :: "'m \<Rightarrow> 'm processor \<Rightarrow> 'm processor" where
  "processor_send pack s =
     (if m_policy s = Allow_new
      then s\<lparr>m_input_queue := m_input_queue s @ [pack], m_i_task_count := m_i_task_count s + 1,
             run_notices := run_notices s + 1\<rparr>
      else s)"

definition processor_receive :: "'m processor \<Rightarrow> 'm list \<times> 'm processor" where
  "processor_receive s = (m_output_queue s, s\<lparr>m_output_queue := []\<rparr>)"

definition wait_ready :: "usize \<Rightarrow> 'm processor \<Rightarrow> bool" where
  "wait_ready i_task_count s =
     (m_input_queue s = [] \<and> 0 = m_busy_count s \<and> m_i_task_count s \<ge> i_task_count)"

text \<open>A caller of \<open>wait\<close> looks at its condition.\<close>

definition wait_check :: "nat \<Rightarrow> usize \<Rightarrow> 'm processor \<Rightarrow> 'm processor" where
  "wait_check j i_task_count s =
     (if wait_ready i_task_count s
      then s\<lparr>m_i_task_count := 0, waiters := (waiters s)[j := W_done]\<rparr>
      else s\<lparr>waiters := (waiters s)[j := W_sleeping i_task_count]\<rparr>)"

definition processor_wait :: "usize \<Rightarrow> 'm processor \<Rightarrow> 'm processor" where
  "processor_wait i_task_count s =
     wait_check (length (waiters s)) i_task_count (s\<lparr>waiters := waiters s @ [W_sleeping i_task_count]\<rparr>)"

section \<open>The event handler of a pool\<close>

text \<open>The answer of the condition that \<open>wait\<close> waits for.\<close>

definition output_check :: "'m processor \<Rightarrow> wait_result option \<times> 'm processor" where
  "output_check s =
     (if m_output_queue s \<noteq> [] then (Some Event, s)
      else if on_demand_wakeup s \<noteq> 0 then (Some On_demand, s\<lparr>on_demand_wakeup := on_demand_wakeup s - 1\<rparr>)
      else (None, s))"

definition reader_check :: "'m processor \<Rightarrow> 'm processor" where
  "reader_check s =
     (case output_check s of (None, s) \<Rightarrow> s\<lparr>reader := R_sleeping\<rparr> | (Some _, s) \<Rightarrow> s\<lparr>reader := R_idle\<rparr>)"

definition processor_wake :: "'m processor \<Rightarrow> 'm processor" where
  "processor_wake s = notify_reader (s\<lparr>on_demand_wakeup := on_demand_wakeup s + 1\<rparr>)"

text \<open>The handler itself holds at most one item; what it is asked to add may be none of its
  kind.\<close>

type_synonym 'm pool_handler = "'m processor option"

definition pool_wait :: "'m pool_handler \<Rightarrow> 'm pool_handler result" where
  "pool_wait ev_it =
     (case ev_it of
        None \<Rightarrow> Inl (Logic_error ''processor_event_handler_ex::wait'')
      | Some s \<Rightarrow> Inr (Some (reader_check s)))"

definition pool_wake :: "'m pool_handler \<Rightarrow> 'm pool_handler result" where
  "pool_wake ev_it =
     (case ev_it of
        None \<Rightarrow> Inl (Logic_error ''processor_event_handler_ex::wake'')
      | Some s \<Rightarrow> Inr (Some (processor_wake s)))"

definition pool_add :: "'m processor option \<Rightarrow> 'm pool_handler \<Rightarrow> 'm pool_handler result" where
  "pool_add item ev_it =
     (if ev_it \<noteq> None then Inl (Logic_error ''processor_event_handler_ex::add: ev_it'')
      else if item = None then Inl (Logic_error ''processor_event_handler_ex::add: nullptr == p'')
      else Inr item)"

definition pool_remove :: "'m pool_handler \<Rightarrow> 'm pool_handler result" where
  "pool_remove ev_it =
     (if ev_it = None then Inl (Logic_error ''processor_event_handler_ex::add: ev_it'') else Inr None)"

definition pool_waited :: "'m pool_handler \<Rightarrow> u64 set result" where
  "pool_waited ev_it = Inl (Logic_error ''processor_event_handler_ex::waited'')"

definition pool_set_timer :: "int \<Rightarrow> 'm pool_handler \<Rightarrow> 'm pool_handler result" where
  "pool_set_timer period ev_it = Inl (Logic_error ''processor_event_handler_ex::set_timer'')"

section \<open>Steps\<close>

text \<open>What the outside sees of a step.\<close>

datatype 'm label =
    L_none
  | L_send 'm
  | L_take 'm
  | L_result 'm
  | L_finish 'm
  | L_receive "'m list"
  | L_wait_done

definition thread_at :: "'m processor \<Rightarrow> nat \<Rightarrow> 'm pc \<Rightarrow> bool" where
  "thread_at s i t \<longleftrightarrow> i < length (m_threads s) \<and> m_threads s ! i = t"

definition waiter_at :: "'m processor \<Rightarrow> nat \<Rightarrow> waiter \<Rightarrow> bool" where
  "waiter_at s j w \<longleftrightarrow> j < length (waiters s) \<and> waiters s ! j = w"

text \<open>A notification reaches one that sleeps, if there is one.\<close>

definition may_wake_waiter :: "nat \<Rightarrow> 'm processor \<Rightarrow> bool" where
  "may_wake_waiter j s \<longleftrightarrow> (\<exists>n. waiter_at s j (W_sleeping n)) \<or> (\<forall>k n. \<not> waiter_at s k (W_sleeping n))"

definition may_wake_thread :: "nat \<Rightarrow> 'm processor \<Rightarrow> bool" where
  "may_wake_thread j s \<longleftrightarrow> thread_at s j Sleeping \<or> (\<forall>k. \<not> thread_at s k Sleeping)"

definition take_label :: "'m processor \<Rightarrow> 'm label" where
  "take_label s = (case m_input_queue s of [] \<Rightarrow> L_none | package # _ \<Rightarrow> L_take package)"

text \<open>Steps the pool makes by itself.\<close>

inductive pool_step :: "('m \<Rightarrow> 'm list) \<Rightarrow> 'm processor \<Rightarrow> 'm label \<Rightarrow> 'm processor \<Rightarrow> bool"
  for worker where
  enter: "thread_at s i Loop_top \<Longrightarrow> pool_step worker s (take_label s) (loop_enter i s)"
| awake: "thread_at s i Woken \<Longrightarrow> pool_step worker s (take_label s) (loop_wake i s)"
| work: "thread_at s i (Working package) \<Longrightarrow> pool_step worker s L_none (work_begin worker i package s)"
| result: "thread_at s i (Sending package (r # rest)) \<Longrightarrow>
    pool_step worker s (L_result r) (result_send i package r rest s)"
| finish: "thread_at s i (Sending package []) \<Longrightarrow> may_wake_waiter j s \<Longrightarrow>
    pool_step worker s (L_finish package) (work_end i j s)"
| notice: "run_notices s \<noteq> 0 \<Longrightarrow> may_wake_thread j s \<Longrightarrow> pool_step worker s L_none (notify_run j s)"
| read: "core s = Core_read \<Longrightarrow> pool_step worker s L_none (core_read s)"
| grow: "core s = Core_grow cur des \<Longrightarrow> pool_step worker s L_none (core_grow cur des s)"
| join: "core s = Core_join cur des \<Longrightarrow> cur > des \<Longrightarrow> m_threads s \<noteq> [] \<Longrightarrow> List.last (m_threads s) = Exited \<Longrightarrow>
    pool_step worker s L_none (core_join cur des s)"
| joined: "core s = Core_join cur des \<Longrightarrow> \<not> cur > des \<Longrightarrow> pool_step worker s L_none (core_join cur des s)"
| wait_again: "waiter_at s j (W_woken n) \<Longrightarrow>
    pool_step worker s (if wait_ready n s then L_wait_done else L_none) (wait_check j n s)"
| reader_again: "reader s = R_woken \<Longrightarrow> pool_step worker s L_none (reader_check s)"

text \<open>Steps of the clients, and threads that wake for no reason.\<close>

inductive client_move :: "'m processor \<Rightarrow> 'm label \<Rightarrow> 'm processor \<Rightarrow> bool" where
  send: "client_move s (if m_policy s = Allow_new then L_send pack else L_none) (processor_send pack s)"
| receive: "client_move s (L_receive (fst (processor_receive s))) (snd (processor_receive s))"
| wait: "client_move s (if wait_ready n s then L_wait_done else L_none) (processor_wait n s)"
| wait_output: "reader s = R_idle \<Longrightarrow> client_move s L_none (reader_check s)"
| wake: "client_move s L_none (processor_wake s)"
| set_core: "core s = Core_idle \<Longrightarrow> client_move s L_none (core_set n s)"
| spurious: "thread_at s i Sleeping \<Longrightarrow> client_move s L_none (set_thread i Woken s)"
| spurious_wait: "waiter_at s j (W_sleeping n) \<Longrightarrow>
    client_move s L_none (s\<lparr>waiters := (waiters s)[j := W_woken n]\<rparr>)"
| spurious_reader: "reader s = R_sleeping \<Longrightarrow> client_move s L_none (s\<lparr>reader := R_woken\<rparr>)"

section \<open>What is recorded of a run\<close>

record 'm history =
  h_sent :: "'m list"
  h_taken :: "'m list"
  h_finished :: "'m list"
  h_results :: "'m list"
  h_received :: "'m list"

definition no_history :: "'m history" where
  "no_history = \<lparr>h_sent = [], h_taken = [], h_finished = [], h_results = [], h_received = []\<rparr>"

fun recorded :: "'m label \<Rightarrow> 'm history \<Rightarrow> 'm history" where
  "recorded (L_send x) h = h\<lparr>h_sent := h_sent h @ [x]\<rparr>"
| "recorded (L_take x) h = h\<lparr>h_taken := h_taken h @ [x]\<rparr>"
| "recorded (L_finish x) h = h\<lparr>h_finished := h_finished h @ [x]\<rparr>"
| "recorded (L_result x) h = h\<lparr>h_results := h_results h @ [x]\<rparr>"
| "recorded (L_receive xs) h = h\<lparr>h_received := h_received h @ xs\<rparr>"
| "recorded _ h = h"

inductive reached :: "('m \<Rightarrow> 'm list) \<Rightarrow> 'm processor \<Rightarrow> 'm history \<Rightarrow> bool"
  for worker where
  start: "reached worker (processor_new n) no_history"
| pool: "reached worker s h \<Longrightarrow> pool_step worker s l s' \<Longrightarrow> reached worker s' (recorded l h)"
| client: "reached worker s h \<Longrightarrow> client_move s l s' \<Longrightarrow> reached worker s' (recorded l h)"

section \<open>Counting\<close>

text \<open>What a thread has in hand, and what it still has to send.\<close>

fun in_hand :: "'m pc \<Rightarrow> 'm list" where
  "in_hand (Working p) = [p]"
| "in_hand (Sending p _) = [p]"
| "in_hand _ = []"

fun to_send :: "'m pc \<Rightarrow> 'm list" where
  "to_send (Sending _ rs) = rs"
| "to_send _ = []"

fun begun :: "'m pc \<Rightarrow> 'm list" where
  "begun (Sending p _) = [p]"
| "begun _ = []"

abbreviation all_of :: "('m pc \<Rightarrow> 'm list) \<Rightarrow> 'm processor \<Rightarrow> 'm list" where
  "all_of f s \<equiv> concat (map f (m_threads s))"

lemma mset_concat_update:
  "i < length ts \<Longrightarrow> mset (concat (map f (ts[i := t]))) + mset (f (ts ! i)) = mset (concat (map f ts)) + mset (f t)"
proof (induction ts arbitrary: i)
  case (Cons x ts)
  then show ?case by (cases i) (auto simp: add_ac)
qed simp

lemma mset_set_thread:
  assumes "thread_at s i t0"
  shows "mset (all_of f (set_thread i t s)) + mset (f t0) = mset (all_of f s) + mset (f t)"
  using assms mset_concat_update [of i "m_threads s" f t] by (simp add: thread_at_def set_thread_def)

text \<open>Steps on the threads leave the other parts alone.\<close>

lemma set_thread_fields [simp]:
  "length (m_threads (set_thread i t s)) = length (m_threads s)"
  "m_input_queue (set_thread i t s) = m_input_queue s" "m_output_queue (set_thread i t s) = m_output_queue s"
  "m_busy_count (set_thread i t s) = m_busy_count s" "m_thread_count (set_thread i t s) = m_thread_count s"
  "core (set_thread i t s) = core s" "reader (set_thread i t s) = reader s" "waiters (set_thread i t s) = waiters s"
  "run_notices (set_thread i t s) = run_notices s" "on_demand_wakeup (set_thread i t s) = on_demand_wakeup s"
  "m_policy (set_thread i t s) = m_policy s" "m_i_task_count (set_thread i t s) = m_i_task_count s"
  "m_threads (set_thread i t s) = (m_threads s)[i := t]"
  by (simp_all add: set_thread_def)

lemma notify_waiter_fields [simp]:
  "m_threads (notify_waiter j s) = m_threads s" "m_input_queue (notify_waiter j s) = m_input_queue s"
  "m_output_queue (notify_waiter j s) = m_output_queue s" "m_busy_count (notify_waiter j s) = m_busy_count s"
  "m_thread_count (notify_waiter j s) = m_thread_count s" "core (notify_waiter j s) = core s"
  "reader (notify_waiter j s) = reader s" "run_notices (notify_waiter j s) = run_notices s"
  "on_demand_wakeup (notify_waiter j s) = on_demand_wakeup s" "m_policy (notify_waiter j s) = m_policy s"
  by (auto simp: notify_waiter_def split: waiter.splits)

lemma notify_reader_fields [simp]:
  "m_threads (notify_reader s) = m_threads s" "m_input_queue (notify_reader s) = m_input_queue s"
  "m_output_queue (notify_reader s) = m_output_queue s" "m_busy_count (notify_reader s) = m_busy_count s"
  "m_thread_count (notify_reader s) = m_thread_count s" "core (notify_reader s) = core s"
  "run_notices (notify_reader s) = run_notices s" "waiters (notify_reader s) = waiters s"
  "m_policy (notify_reader s) = m_policy s" "on_demand_wakeup (notify_reader s) = on_demand_wakeup s"
  "reader (notify_reader s) \<noteq> R_sleeping"
  by (auto simp: notify_reader_def)

lemmas pool_defs = loop_enter_def loop_wake_def take_task_def work_begin_def result_send_def work_end_def
  notify_run_def core_read_def core_grow_def core_join_def wait_check_def reader_check_def output_check_def Let_def

lemmas client_defs = processor_send_def processor_receive_def processor_wait_def wait_check_def reader_check_def
  output_check_def processor_wake_def core_set_def

text \<open>The busy count is the number of threads with a package in hand.\<close>

definition counted :: "'m processor \<Rightarrow> bool" where
  "counted s \<longleftrightarrow> m_busy_count s = of_nat (length (all_of in_hand s))"

lemma length_set_thread:
  assumes "thread_at s i t0"
  shows "length (all_of f (set_thread i t s)) + length (f t0) = length (all_of f s) + length (f t)"
  using arg_cong [OF mset_set_thread [OF assms], of size f t] by simp

lemma all_of_wake_all: "concat (map f (wake_all ts)) = concat (map f ts)" if "f Sleeping = f Woken"
  using that by (induction ts) (auto simp: wake_all_def)

lemma thread_at_upd [simp]:
  "thread_at (s\<lparr>m_input_queue := x\<rparr>) = thread_at s" "thread_at (s\<lparr>m_busy_count := b\<rparr>) = thread_at s"
  "thread_at (s\<lparr>m_output_queue := x\<rparr>) = thread_at s" "thread_at (s\<lparr>run_notices := k\<rparr>) = thread_at s"
  by (simp_all add: thread_at_def fun_eq_iff)

lemma counted_set:
  "thread_at s i t0 \<Longrightarrow> length (in_hand t) = length (in_hand t0) \<Longrightarrow> counted s \<Longrightarrow> counted (set_thread i t s)"
  using length_set_thread [of s i t0 in_hand t] by (simp add: counted_def)

lemma counted_take:
  assumes "thread_at s i t0" "in_hand t0 = []" "counted s"
  shows "counted (take_task i s)"
proof (cases "m_input_queue s")
  case (Cons p rest)
  let ?s = "s\<lparr>m_input_queue := rest, m_busy_count := m_busy_count s + 1\<rparr>"
  have "thread_at ?s i t0" using assms(1) by simp
  from length_set_thread [OF this, of in_hand "Working p"] assms(2)
  have "length (all_of in_hand (set_thread i (Working p) ?s)) = Suc (length (all_of in_hand s))" by simp
  then show ?thesis using assms(3) Cons by (simp add: counted_def take_task_def del: set_thread_fields(13))
qed (simp add: take_task_def assms)

lemma counted_end:
  assumes "thread_at s i (Sending p [])" "counted s"
  shows "counted (work_end i j s)"
proof -
  let ?s = "s\<lparr>m_busy_count := m_busy_count s - 1\<rparr>"
  have "thread_at ?s i (Sending p [])" using assms(1) by simp
  from length_set_thread [OF this, of in_hand Loop_top]
  have "Suc (length (all_of in_hand (set_thread i Loop_top ?s))) = length (all_of in_hand s)" by simp
  then have "of_nat (Suc (length (all_of in_hand (set_thread i Loop_top ?s)))) = m_busy_count s"
    using assms(2) by (simp add: counted_def del: set_thread_fields(13))
  then have "m_busy_count s - 1 = of_nat (length (all_of in_hand (set_thread i Loop_top ?s)))"
    by (simp add: algebra_simps del: set_thread_fields(13))
  then show ?thesis by (simp add: counted_def work_end_def Let_def)
qed

lemma all_of_butlast:
  "ts \<noteq> [] \<Longrightarrow> List.last ts = Exited \<Longrightarrow> f Exited = [] \<Longrightarrow> concat (map f (butlast ts)) = concat (map f ts)"
  by (cases ts rule: rev_cases) simp_all

lemma pool_counted: "pool_step worker s l s' \<Longrightarrow> counted s \<Longrightarrow> counted s'"
proof (induction rule: pool_step.induct)
  case (enter s i)
  then show ?case
    by (auto simp: loop_enter_def intro: counted_take counted_set)
next
  case (awake s i)
  then show ?case by (auto simp: loop_wake_def intro: counted_take counted_set)
next
  case (work s i package)
  then show ?case by (auto simp: work_begin_def intro: counted_set)
next
  case (result s i package r rest)
  have "counted (set_thread i (Sending package rest) s)" using counted_set [OF result(1) _ result(2)] by simp
  then show ?case by (simp add: counted_def result_send_def)
next
  case (finish s i package j)
  then show ?case by (intro counted_end)
next
  case (notice s j)
  show ?case
  proof (cases "thread_at s j Sleeping")
    case True
    have "counted (set_thread j Woken s)" by (rule counted_set [OF True _ notice(3)]) simp
    then show ?thesis by (simp add: counted_def notify_run_def Let_def) (use notice(3) in \<open>simp add: counted_def\<close>)
  next
    case False
    then show ?thesis using notice(3) by (auto simp: notify_run_def Let_def counted_def thread_at_def)
  qed
next
  case (read s)
  then show ?case by (simp add: core_read_def counted_def)
next
  case (grow s cur des)
  then show ?case by (simp add: core_grow_def counted_def all_of_wake_all)
next
  case (join s cur des)
  then show ?case by (simp add: core_join_def counted_def all_of_butlast)
next
  case (joined s cur des)
  then show ?case by (simp add: core_join_def counted_def)
next
  case (wait_again s j n)
  then show ?case by (simp add: wait_check_def counted_def)
next
  case (reader_again s)
  then show ?case by (auto simp: reader_check_def output_check_def counted_def split: prod.splits)
qed

lemma client_counted: "client_move s l s' \<Longrightarrow> counted s \<Longrightarrow> counted s'"
proof (induction rule: client_move.induct)
  case (spurious s i)
  show ?case by (rule counted_set [OF spurious(1) _ spurious(2)]) simp
qed (simp_all add: client_defs counted_def)

section \<open>The number of threads\<close>

text \<open>Where \<open>setCoreCount\<close> stands fits the threads there are; only threads that are not wanted any more
  have ended, and once all are called to end those that are not wanted do not sleep.\<close>

definition cored :: "'m processor \<Rightarrow> bool" where
  "cored s \<longleftrightarrow> length (m_threads s) < 2 ^ 64 \<and>
     (\<forall>i. thread_at s i Exited \<longrightarrow> unat (m_thread_count s) \<le> i) \<and>
     (case core s of
        Core_idle \<Rightarrow> length (m_threads s) = unat (m_thread_count s)
      | Core_read \<Rightarrow> True
      | Core_grow cur des \<Rightarrow> unat cur = length (m_threads s) \<and> des = m_thread_count s
      | Core_join cur des \<Rightarrow> unat cur = length (m_threads s) \<and> des = m_thread_count s \<and> des \<le> cur \<and>
          (\<forall>i. thread_at s i Sleeping \<longrightarrow> i < unat (m_thread_count s)))"

lemma wants_stop_nat:
  "i < length (m_threads s) \<Longrightarrow> length (m_threads s) < 2 ^ 64 \<Longrightarrow> wants_stop i s \<longleftrightarrow> unat (m_thread_count s) \<le> i"
proof -
  assume "i < length (m_threads s)" "length (m_threads s) < 2 ^ 64"
  then have "unat (of_nat i + 1 :: usize) = Suc i"
    using unat_of_nat_size [of "Suc i"] by (simp add: add.commute)
  then show ?thesis by (simp add: wants_stop_def word_less_nat_alt less_Suc_eq_le)
qed

lemma cored_set:
  assumes "cored s" "thread_at s i t0" "t = Exited \<Longrightarrow> unat (m_thread_count s) \<le> i"
    and "t = Sleeping \<Longrightarrow> i < unat (m_thread_count s)"
  shows "cored (set_thread i t s)"
  using assms by (auto simp: cored_def thread_at_def nth_list_update split: core.splits if_splits)

lemma cored_upd [simp]:
  "cored (s\<lparr>m_input_queue := x\<rparr>) = cored s" "cored (s\<lparr>m_busy_count := b\<rparr>) = cored s"
  "cored (s\<lparr>m_output_queue := x\<rparr>) = cored s" "cored (s\<lparr>run_notices := k\<rparr>) = cored s"
  "cored (s\<lparr>waiters := w\<rparr>) = cored s" "cored (s\<lparr>reader := r\<rparr>) = cored s"
  "cored (s\<lparr>m_i_task_count := n\<rparr>) = cored s" "cored (s\<lparr>on_demand_wakeup := n\<rparr>) = cored s"
  by (simp_all add: cored_def thread_at_def split: core.split)

lemma cored_notify [simp]: "cored (notify_waiter j s) = cored s" "cored (notify_reader s) = cored s"
  by (auto simp: notify_waiter_def notify_reader_def split: waiter.splits)

lemma cored_take: "cored s \<Longrightarrow> thread_at s i t0 \<Longrightarrow> cored (take_task i s)"
  by (auto simp: take_task_def intro!: cored_set split: list.splits)

lemma thread_at_Suc: "thread_at s i t \<Longrightarrow> cored s \<Longrightarrow> wants_stop i s \<longleftrightarrow> unat (m_thread_count s) \<le> i"
  by (rule wants_stop_nat) (auto simp: thread_at_def cored_def)

lemma length_wake_all [simp]: "length (wake_all ts) = length ts"
  by (simp add: wake_all_def)

lemma thread_at_wake_all:
  "thread_at (s\<lparr>m_threads := wake_all (m_threads s), core := c\<rparr>) i Exited = thread_at s i Exited"
  "\<not> thread_at (s\<lparr>m_threads := wake_all (m_threads s), core := c\<rparr>) i Sleeping"
  by (auto simp: thread_at_def wake_all_def split: if_splits)

lemma cored_grow:
  assumes "cored s" "core s = Core_grow cur des"
  shows "cored (core_grow cur des s)"
proof -
  have c: "unat cur = length (m_threads s)" "des = m_thread_count s" "length (m_threads s) < 2 ^ 64"
      "\<And>i. thread_at s i Exited \<Longrightarrow> unat (m_thread_count s) \<le> i"
    using assms by (auto simp: cored_def)
  consider "cur < des" | "cur > des" | "cur = des" by fastforce
  then show ?thesis
  proof cases
    case 1
    then have "Suc (unat cur) \<le> unat des" by (simp add: word_less_nat_alt)
    then have "Suc (unat cur) < 2 ^ 64" using unat_less_size [of des] by simp
    moreover from this have "unat (cur + 1) = Suc (unat cur)" by (simp add: unat_add_size)
    ultimately show ?thesis
      using c 1 by (auto simp: core_grow_def cored_def thread_at_def nth_append less_Suc_eq split: if_splits)
  next
    case 2
    then show ?thesis
      using c by (auto simp: core_grow_def cored_def thread_at_wake_all word_less_nat_alt word_le_nat_alt)
  next
    case 3
    then show ?thesis using c by (auto simp: core_grow_def cored_def thread_at_def)
  qed
qed

lemma cored_join:
  assumes "cored s" "core s = Core_join cur des" "m_threads s \<noteq> []"
  shows "cored (core_join cur des s)"
proof -
  have c: "unat cur = length (m_threads s)" "des = m_thread_count s" "length (m_threads s) < 2 ^ 64" "des \<le> cur"
      "\<And>i. thread_at s i Exited \<Longrightarrow> unat (m_thread_count s) \<le> i"
      "\<And>i. thread_at s i Sleeping \<Longrightarrow> i < unat (m_thread_count s)"
    using assms by (auto simp: cored_def)
  have at: "thread_at (s\<lparr>m_threads := butlast (m_threads s), core := x\<rparr>) i t \<Longrightarrow> thread_at s i t" for i t x
    by (auto simp: thread_at_def nth_butlast)
  show ?thesis
  proof (cases "cur > des")
    case True
    then have "unat des < unat cur" by (simp add: word_less_nat_alt)
    then have "cur \<noteq> 0" by auto
    then have "unat (cur - 1) = unat cur - 1" by (rule unat_minus_one)
    then have "unat (cur - 1) = length (m_threads s) - 1" "des \<le> cur - 1"
      using c \<open>unat des < unat cur\<close> by (auto simp: word_le_nat_alt)
    then show ?thesis using True c at by (auto simp: core_join_def cored_def)
  next
    case False
    then have "cur = des" using c(4) by simp
    then show ?thesis using c by (auto simp: core_join_def cored_def thread_at_def)
  qed
qed

lemma cored_joined:
  assumes "cored s" "core s = Core_join cur des" "\<not> cur > des"
  shows "cored (core_join cur des s)"
proof -
  have "cur = des" using assms by (auto simp: cored_def)
  then show ?thesis using assms by (auto simp: core_join_def cored_def thread_at_def)
qed

lemma pool_cored: "pool_step worker s l s' \<Longrightarrow> cored s \<Longrightarrow> cored s'"
proof (induction rule: pool_step.induct)
  case (enter s i)
  then show ?case
    using thread_at_Suc [OF enter] by (auto simp: loop_enter_def intro: cored_take intro!: cored_set)
next
  case (awake s i)
  then show ?case
    using thread_at_Suc [OF awake] by (auto simp: loop_wake_def intro: cored_take intro!: cored_set)
next
  case (work s i package)
  then show ?case by (auto simp: work_begin_def intro: cored_set)
next
  case (result s i package r rest)
  then show ?case by (auto simp: result_send_def intro!: cored_set)
next
  case (finish s i package j)
  then show ?case by (auto simp: work_end_def Let_def intro!: cored_set)
next
  case (notice s j)
  then show ?case by (auto simp: notify_run_def Let_def thread_at_def intro!: cored_set)
next
  case (read s)
  then show ?case by (auto simp: core_read_def cored_def thread_at_def unat_of_nat_size)
next
  case (grow s cur des)
  then show ?case by (intro cored_grow)
next
  case (join s cur des)
  then show ?case by (intro cored_join)
next
  case (joined s cur des)
  then show ?case by (intro cored_joined)
next
  case (wait_again s j n)
  then show ?case by (simp add: wait_check_def)
next
  case (reader_again s)
  then show ?case by (auto simp: reader_check_def output_check_def split: prod.splits)
qed

lemma client_cored: "client_move s l s' \<Longrightarrow> cored s \<Longrightarrow> cored s'"
proof (induction rule: client_move.induct)
  case (set_core s n)
  then show ?case by (auto simp: core_set_def cored_def thread_at_def)
next
  case (spurious s i)
  then show ?case by (auto intro!: cored_set)
qed (auto simp: client_defs split: prod.splits)

section \<open>No wake-up is lost\<close>

definition active :: "'m pc \<Rightarrow> bool" where
  "active t \<longleftrightarrow> t \<noteq> Sleeping \<and> t \<noteq> Exited"

definition some_active :: "'m processor \<Rightarrow> bool" where
  "some_active s \<longleftrightarrow> (\<exists>i t. thread_at s i t \<and> active t)"

text \<open>While there is something to do, a notification is under way or a thread is about, unless all
  have ended.\<close>

definition run_alert :: "'m processor \<Rightarrow> bool" where
  "run_alert s \<longleftrightarrow> m_input_queue s = [] \<or> run_notices s \<noteq> 0 \<or> some_active s \<or> (\<forall>i t. thread_at s i t \<longrightarrow> t = Exited)"

text \<open>The reader only sleeps while there is nothing for it.\<close>

definition read_alert :: "'m processor \<Rightarrow> bool" where
  "read_alert s \<longleftrightarrow> (reader s = R_sleeping \<longrightarrow> m_output_queue s = [] \<and> on_demand_wakeup s = 0)"

lemma active_simps [simp]:
  "active Loop_top" "active Woken" "active (Working p)" "active (Sending p rs)" "\<not> active Sleeping" "\<not> active Exited"
  by (simp_all add: active_def)

lemma run_alert_active: "thread_at s i t \<Longrightarrow> active t \<Longrightarrow> run_alert s"
  by (auto simp: run_alert_def some_active_def)

lemma run_alert_set: "thread_at s i t0 \<Longrightarrow> active t \<Longrightarrow> run_alert (set_thread i t s)"
  by (rule run_alert_active [of _ i t]) (simp_all add: thread_at_def)

lemma run_alert_empty: "m_input_queue s = [] \<Longrightarrow> run_alert s"
  by (simp add: run_alert_def)

lemma run_alert_take: "thread_at s i t0 \<Longrightarrow> run_alert (take_task i s)"
  by (cases "m_input_queue s") (auto simp: take_task_def intro: run_alert_empty run_alert_set)

text \<open>What only touches other parts.\<close>

lemma run_alert_same:
  "run_alert s \<Longrightarrow> m_input_queue s' = m_input_queue s \<Longrightarrow> m_threads s' = m_threads s \<Longrightarrow> run_notices s' = run_notices s \<Longrightarrow>
    run_alert s'"
  by (auto simp: run_alert_def some_active_def thread_at_def)

lemma pool_run_alert: "pool_step worker s l s' \<Longrightarrow> run_alert s \<Longrightarrow> run_alert s'"
proof (induction rule: pool_step.induct)
  case (enter s i)
  then show ?case by (auto simp: loop_enter_def intro: run_alert_take run_alert_empty)
next
  case (awake s i)
  then show ?case by (auto simp: loop_wake_def intro: run_alert_take run_alert_empty)
next
  case (work s i package)
  then show ?case by (auto simp: work_begin_def intro: run_alert_set)
next
  case (result s i package r rest)
  have "run_alert (set_thread i (Sending package rest) s)" using run_alert_set [OF result(1)] by simp
  then show ?case by (rule run_alert_same) (simp_all add: result_send_def)
next
  case (finish s i package j)
  have "run_alert (set_thread i Loop_top s)" using run_alert_set [OF finish(1)] by simp
  then show ?case by (rule run_alert_same) (simp_all add: work_end_def Let_def)
next
  case (notice s j)
  show ?case
  proof (cases "thread_at s j Sleeping")
    case True
    then have "thread_at (notify_run j s) j Woken" by (simp add: notify_run_def thread_at_def Let_def)
    then show ?thesis by (rule run_alert_active) simp
  next
    case False
    then have "t = Exited \<or> active t" if "thread_at s i t" for i t
      using notice(2) that by (auto simp: may_wake_thread_def active_def)
    then have "some_active s \<or> (\<forall>i t. thread_at s i t \<longrightarrow> t = Exited)" by (auto simp: some_active_def)
    then show ?thesis using False by (auto simp: notify_run_def Let_def run_alert_def some_active_def thread_at_def)
  qed
next
  case (read s)
  then show ?case by (auto simp: core_read_def elim: run_alert_same)
next
  case (grow s cur des)
  let ?w = "s\<lparr>m_threads := wake_all (m_threads s), core := Core_join cur des\<rparr>"
  have "thread_at (s\<lparr>m_threads := m_threads s @ [Loop_top], core := c\<rparr>) (length (m_threads s)) Loop_top" for c
    by (simp add: thread_at_def)
  then have more: "run_alert (s\<lparr>m_threads := m_threads s @ [Loop_top], core := c\<rparr>)" for c
    by (rule run_alert_active) simp
  have "thread_at ?w i (if t = Sleeping then Woken else t)" if "thread_at s i t" for i t
    using that by (simp add: thread_at_def wake_all_def)
  moreover have "\<exists>t0. thread_at s i t0 \<and> t = (if t0 = Sleeping then Woken else t0)" if "thread_at ?w i t" for i t
    using that by (auto simp: thread_at_def wake_all_def)
  ultimately have "run_alert ?w"
    using grow(2) unfolding run_alert_def some_active_def by (fastforce simp: active_def)
  then show ?case using grow(2) more by (auto simp: core_grow_def elim: run_alert_same)
next
  case (join s cur des)
  have at: "thread_at (s\<lparr>m_threads := butlast (m_threads s), core := c\<rparr>) i t \<longleftrightarrow> thread_at s i t \<and> i \<noteq> length (m_threads s) - 1"
    for i t c by (auto simp: thread_at_def nth_butlast)
  have "t = Exited" if "thread_at s (length (m_threads s) - 1) t" for t
    using that join(3,4) by (simp add: thread_at_def last_conv_nth)
  then have keep: "thread_at (s\<lparr>m_threads := butlast (m_threads s), core := c\<rparr>) i t" if "thread_at s i t" "active t" for i t c
    using that at by (auto simp: active_def)
  have "some_active s \<Longrightarrow> some_active (s\<lparr>m_threads := butlast (m_threads s), core := c\<rparr>)" for c
    using keep unfolding some_active_def by blast
  moreover have "(\<forall>i t. thread_at s i t \<longrightarrow> t = Exited) \<Longrightarrow>
      (\<forall>i t. thread_at (s\<lparr>m_threads := butlast (m_threads s), core := c\<rparr>) i t \<longrightarrow> t = Exited)" for c
    using at by blast
  ultimately show ?case
    using join(2,5) unfolding run_alert_def core_join_def by simp blast
next
  case (joined s cur des)
  then show ?case by (auto simp: core_join_def elim: run_alert_same)
next
  case (wait_again s j n)
  then show ?case by (auto simp: wait_check_def elim: run_alert_same)
next
  case (reader_again s)
  then show ?case by (auto simp: reader_check_def output_check_def elim: run_alert_same)
qed

lemma client_run_alert: "client_move s l s' \<Longrightarrow> run_alert s \<Longrightarrow> run_alert s'"
proof (induction rule: client_move.induct)
  case (send s pack)
  then show ?case by (auto simp: processor_send_def run_alert_def)
next
  case (spurious s i)
  then show ?case by (auto intro: run_alert_set)
qed (auto simp: client_defs elim: run_alert_same)

lemma read_alert_set [simp]: "read_alert (set_thread i t s) = read_alert s"
  by (simp add: read_alert_def)

lemma pool_read_alert: "pool_step worker s l s' \<Longrightarrow> read_alert s \<Longrightarrow> read_alert s'"
  by (induction rule: pool_step.induct)
     (auto simp: pool_defs read_alert_def result_send_def split: list.splits if_splits)

lemma client_read_alert: "client_move s l s' \<Longrightarrow> read_alert s \<Longrightarrow> read_alert s'"
  by (induction rule: client_move.induct)
     (auto simp: client_defs read_alert_def split: list.splits if_splits)

section \<open>Every package is answered once\<close>

definition answers :: "('m \<Rightarrow> 'm list) \<Rightarrow> 'm pc \<Rightarrow> 'm list" where
  "answers worker t = concat (map worker (begun t))"

definition recorded_ok :: "('m \<Rightarrow> 'm list) \<Rightarrow> 'm processor \<Rightarrow> 'm history \<Rightarrow> bool" where
  "recorded_ok worker s h \<longleftrightarrow> m_policy s = Allow_new \<and>
     h_sent h = h_taken h @ m_input_queue s \<and>
     h_results h = h_received h @ m_output_queue s \<and>
     mset (h_taken h) = mset (all_of in_hand s) + mset (h_finished h) \<and>
     mset (h_received h @ m_output_queue s) + mset (all_of to_send s) =
       mset (concat (map worker (h_finished h))) + mset (all_of (answers worker) s)"

lemma answers_simps [simp]:
  "answers worker Loop_top = []" "answers worker Sleeping = []" "answers worker Woken = []"
  "answers worker Exited = []" "answers worker (Working p) = []" "answers worker (Sending p rs) = worker p"
  by (simp_all add: answers_def)

text \<open>A step that moves a thread with nothing in hand.\<close>

lemma recorded_ok_idle:
  assumes "recorded_ok worker s h" "thread_at s i t0"
    and "in_hand t = in_hand t0" "to_send t = to_send t0" "answers worker t = answers worker t0"
  shows "recorded_ok worker (set_thread i t s) h"
  using assms mset_set_thread [OF assms(2), of in_hand t] mset_set_thread [OF assms(2), of to_send t]
    mset_set_thread [OF assms(2), of "answers worker" t]
  by (simp add: recorded_ok_def del: set_thread_fields(13))

lemma recorded_ok_take:
  assumes ok: "recorded_ok worker s h" and at: "thread_at s i t0" and t0: "in_hand t0 = []" "to_send t0 = []" "answers worker t0 = []"
    and "m_input_queue s \<noteq> []"
  shows "recorded_ok worker (take_task i s) (recorded (take_label s) h)"
proof -
  obtain p rest where q: "m_input_queue s = p # rest" using assms(6) by (cases "m_input_queue s") auto
  let ?s = "s\<lparr>m_input_queue := rest, m_busy_count := m_busy_count s + 1\<rparr>"
  have at': "thread_at ?s i t0" using at by simp
  note m = mset_set_thread [OF at', of in_hand "Working p"] mset_set_thread [OF at', of to_send "Working p"]
    mset_set_thread [OF at', of "answers worker" "Working p"]
  show ?thesis
    using ok q t0 m
    by (simp add: recorded_ok_def take_task_def take_label_def del: set_thread_fields(13))
qed

lemma recorded_none [simp]: "recorded L_none h = h" "recorded L_wait_done h = h"
  by simp_all

lemma recorded_ok_same:
  "recorded_ok worker s h \<Longrightarrow> m_threads s' = m_threads s \<Longrightarrow> m_input_queue s' = m_input_queue s \<Longrightarrow>
    m_output_queue s' = m_output_queue s \<Longrightarrow> m_policy s' = m_policy s \<Longrightarrow> recorded_ok worker s' h"
  by (simp add: recorded_ok_def)

lemma take_label_empty: "m_input_queue s = [] \<Longrightarrow> take_label s = L_none"
  by (simp add: take_label_def)

lemma pool_recorded: "pool_step worker s l s' \<Longrightarrow> recorded_ok worker s h \<Longrightarrow> recorded_ok worker s' (recorded l h)"
proof (induction rule: pool_step.induct)
  case (enter s i)
  then show ?case
    by (cases "m_input_queue s = []")
       (auto simp: loop_enter_def take_label_empty intro: recorded_ok_take intro!: recorded_ok_idle)
next
  case (awake s i)
  then show ?case
    by (cases "m_input_queue s = []")
       (auto simp: loop_wake_def take_label_empty intro: recorded_ok_take intro!: recorded_ok_idle)
next
  case (work s i package)
  note m = mset_set_thread [OF work(1), of in_hand "Sending package (worker package)"]
    mset_set_thread [OF work(1), of to_send "Sending package (worker package)"]
    mset_set_thread [OF work(1), of "answers worker" "Sending package (worker package)"]
  let ?s = "set_thread i (Sending package (worker package)) s"
  have "mset (h_received h @ m_output_queue s) + mset (all_of to_send s) =
      mset (concat (map worker (h_finished h))) + mset (all_of (answers worker) s)"
    using work(2) by (simp add: recorded_ok_def)
  then have "mset (h_received h @ m_output_queue s) + mset (all_of to_send ?s) =
      mset (concat (map worker (h_finished h))) + mset (all_of (answers worker) ?s)"
    using m by (simp del: set_thread_fields(13) mset_append)
  then show ?case
    using work(2) m(1) by (simp add: work_begin_def recorded_ok_def del: set_thread_fields(13))
next
  case (result s i package r rest)
  let ?s = "set_thread i (Sending package rest) s"
  note m = mset_set_thread [OF result(1), of in_hand "Sending package rest"]
    mset_set_thread [OF result(1), of to_send "Sending package rest"]
    mset_set_thread [OF result(1), of "answers worker" "Sending package rest"]
  have "mset (h_received h @ m_output_queue s) + mset (all_of to_send s) =
      mset (concat (map worker (h_finished h))) + mset (all_of (answers worker) s)"
    using result(2) by (simp add: recorded_ok_def)
  moreover have "mset (all_of to_send s) = add_mset r (mset (all_of to_send ?s))"
      "mset (all_of (answers worker) ?s) = mset (all_of (answers worker) s)"
    using m(2,3) by (simp_all del: set_thread_fields(13))
  ultimately have "mset (h_received h @ m_output_queue s @ [r]) + mset (all_of to_send ?s) =
      mset (concat (map worker (h_finished h))) + mset (all_of (answers worker) ?s)"
    by (simp del: set_thread_fields(13))
  then have "recorded_ok worker (?s\<lparr>m_output_queue := m_output_queue s @ [r]\<rparr>) (recorded (L_result r) h)"
    using result(2) m(1) by (simp add: recorded_ok_def del: set_thread_fields(13))
  then show ?case by (rule recorded_ok_same) (simp_all add: result_send_def)
next
  case (finish s i package j)
  let ?s = "set_thread i Loop_top s"
  note m = mset_set_thread [OF finish(1), of in_hand Loop_top]
    mset_set_thread [OF finish(1), of to_send Loop_top]
    mset_set_thread [OF finish(1), of "answers worker" Loop_top]
  have "mset (h_received h @ m_output_queue s) + mset (all_of to_send s) =
      mset (concat (map worker (h_finished h))) + mset (all_of (answers worker) s)"
    using finish(3) by (simp add: recorded_ok_def)
  moreover have "mset (all_of to_send ?s) = mset (all_of to_send s)"
      "mset (all_of (answers worker) s) = mset (worker package) + mset (all_of (answers worker) ?s)"
    using m(2,3) by (simp_all add: add.commute del: set_thread_fields(13))
  ultimately have "mset (h_received h @ m_output_queue s) + mset (all_of to_send ?s) =
      mset (concat (map worker (h_finished h @ [package]))) + mset (all_of (answers worker) ?s)"
    by (simp add: add.assoc del: set_thread_fields(13))
  then have "recorded_ok worker ?s (recorded (L_finish package) h)"
    using finish(3) m(1) by (simp add: recorded_ok_def del: set_thread_fields(13))
  then show ?case by (rule recorded_ok_same) (simp_all add: work_end_def Let_def)
next
  case (notice s j)
  have "recorded_ok worker (if thread_at s j Sleeping then set_thread j Woken s else s) h"
    using notice(3) by (auto intro!: recorded_ok_idle)
  then have "recorded_ok worker (notify_run j s) h"
    by (rule recorded_ok_same) (auto simp: notify_run_def Let_def thread_at_def)
  then show ?case by simp
next
  case (read s)
  then show ?case by (auto simp: core_read_def elim: recorded_ok_same)
next
  case (grow s cur des)
  then show ?case by (simp add: core_grow_def recorded_ok_def all_of_wake_all)
next
  case (join s cur des)
  then show ?case by (simp add: core_join_def recorded_ok_def all_of_butlast)
next
  case (joined s cur des)
  then show ?case by (simp add: core_join_def recorded_ok_def)
next
  case (wait_again s j n)
  then show ?case by (auto simp: wait_check_def elim: recorded_ok_same)
next
  case (reader_again s)
  then show ?case by (auto simp: reader_check_def output_check_def elim: recorded_ok_same)
qed

lemma client_recorded: "client_move s l s' \<Longrightarrow> recorded_ok worker s h \<Longrightarrow> recorded_ok worker s' (recorded l h)"
proof (induction rule: client_move.induct)
  case (send s pack)
  then show ?case by (auto simp: processor_send_def recorded_ok_def)
next
  case (receive s)
  then show ?case by (auto simp: processor_receive_def recorded_ok_def)
next
  case (spurious s i)
  then show ?case by (auto intro!: recorded_ok_idle)
qed (auto simp: client_defs elim: recorded_ok_same)

text \<open>What holds in every state that is reached.\<close>

lemma reached_inv:
  "reached worker s h \<Longrightarrow> counted s \<and> cored s \<and> run_alert s \<and> read_alert s \<and> recorded_ok worker s h"
proof (induction rule: reached.induct)
  case (start n)
  then show ?case
    by (simp add: processor_new_def core_set_def counted_def cored_def run_alert_def read_alert_def recorded_ok_def
        no_history_def thread_at_def)
next
  case (pool s h l s')
  then show ?case
    using pool_counted [OF pool(2)] pool_cored [OF pool(2)] pool_run_alert [OF pool(2)] pool_read_alert [OF pool(2)]
      pool_recorded [OF pool(2)] by blast
next
  case (client s h l s')
  then show ?case
    using client_counted [OF client(2)] client_cored [OF client(2)] client_run_alert [OF client(2)]
      client_read_alert [OF client(2)] client_recorded [OF client(2)] by blast
qed

section \<open>The pool comes to rest\<close>

fun pc_weight :: "('m \<Rightarrow> 'm list) \<Rightarrow> 'm pc \<Rightarrow> nat" where
  "pc_weight worker Loop_top = 1"
| "pc_weight worker Sleeping = 0"
| "pc_weight worker Woken = 2"
| "pc_weight worker (Working p) = 4 + 2 * length (worker p)"
| "pc_weight worker (Sending p rs) = 3 + 2 * length rs"
| "pc_weight worker Exited = 0"

fun core_weight :: "nat \<Rightarrow> nat \<Rightarrow> core \<Rightarrow> nat" where
  "core_weight n tc Core_idle = 0"
| "core_weight n tc Core_read = 2 * n + 4 * (tc - n) + (n - tc) + 3"
| "core_weight n tc (Core_grow cur des) = 2 * n + 4 * (tc - n) + (n - tc) + 2"
| "core_weight n tc (Core_join cur des) = (n - tc) + 1"

fun waiter_weight :: "waiter \<Rightarrow> nat" where
  "waiter_weight (W_woken n) = 1"
| "waiter_weight _ = 0"

definition threads_weight :: "('m \<Rightarrow> 'm list) \<Rightarrow> 'm processor \<Rightarrow> nat" where
  "threads_weight worker s = sum_list (map (pc_weight worker) (m_threads s))"

definition weight :: "('m \<Rightarrow> 'm list) \<Rightarrow> 'm processor \<Rightarrow> nat" where
  "weight worker s = threads_weight worker s + sum_list (map (\<lambda>p. 4 + 2 * length (worker p)) (m_input_queue s)) +
     3 * run_notices s + sum_list (map waiter_weight (waiters s)) + (if reader s = R_woken then 1 else 0) +
     core_weight (length (m_threads s)) (unat (m_thread_count s)) (core s)"

lemma sum_list_set:
  "i < length xs \<Longrightarrow> sum_list (map f (xs[i := t])) + f (xs ! i) = sum_list (map f xs) + (f t :: nat)"
proof (induction xs arbitrary: i)
  case (Cons x xs)
  then show ?case by (cases i) auto
qed simp

lemma weight_set:
  assumes "thread_at s i t0"
  shows "weight worker (set_thread i t s) + pc_weight worker t0 = weight worker s + pc_weight worker t"
  using assms sum_list_set [of i "m_threads s" "pc_weight worker" t]
  by (simp add: weight_def threads_weight_def thread_at_def)

lemma weight_take:
  assumes "thread_at s i t0" "0 < pc_weight worker t0" "m_input_queue s \<noteq> []"
  shows "weight worker (take_task i s) < weight worker s"
proof -
  obtain p rest where q: "m_input_queue s = p # rest" using assms(3) by (cases "m_input_queue s") auto
  let ?s = "s\<lparr>m_input_queue := rest, m_busy_count := m_busy_count s + 1\<rparr>"
  have "weight worker (set_thread i (Working p) ?s) + pc_weight worker t0 = weight worker ?s + pc_weight worker (Working p)"
    using weight_set [of ?s i t0] assms(1) by simp
  moreover have "weight worker ?s + 4 + 2 * length (worker p) = weight worker s"
    using q by (simp add: weight_def threads_weight_def)
  ultimately show ?thesis using assms(2) q by (simp add: take_task_def)
qed

lemma weight_notify_reader: "weight worker (notify_reader s) \<le> weight worker s + 1"
  by (simp add: notify_reader_def weight_def threads_weight_def)

lemma weight_notify_waiter: "weight worker (notify_waiter j s) \<le> weight worker s + 1"
proof (cases "\<exists>n. j < length (waiters s) \<and> waiters s ! j = W_sleeping n")
  case True
  then obtain n where n: "j < length (waiters s)" "waiters s ! j = W_sleeping n" by blast
  then show ?thesis
    using sum_list_set [OF n(1), of waiter_weight "W_woken n"] by (simp add: notify_waiter_def weight_def threads_weight_def)
next
  case False
  then have "notify_waiter j s = s" by (auto simp: notify_waiter_def split: waiter.splits)
  then show ?thesis by simp
qed

lemma sum_list_wake_all: "sum_list (map (pc_weight worker) (wake_all ts)) \<le> sum_list (map (pc_weight worker) ts) + 2 * length ts"
  by (induction ts) (auto simp: wake_all_def)

lemma sum_list_butlast_le: "sum_list (map f (butlast xs)) \<le> (sum_list (map f xs) :: nat)"
  by (cases xs rule: rev_cases) simp_all

lemma pool_weight: "pool_step worker s l s' \<Longrightarrow> cored s \<Longrightarrow> weight worker s' < weight worker s"
proof (induction rule: pool_step.induct)
  case (enter s i)
  then show ?case
    using weight_set [OF enter(1), of worker Exited] weight_set [OF enter(1), of worker Sleeping]
      weight_take [OF enter(1), of worker] by (auto simp: loop_enter_def)
next
  case (awake s i)
  then show ?case
    using weight_set [OF awake(1), of worker Loop_top] weight_set [OF awake(1), of worker Sleeping]
      weight_take [OF awake(1), of worker] by (auto simp: loop_wake_def)
next
  case (work s i package)
  then show ?case
    using weight_set [OF work(1), of worker "Sending package (worker package)"] weight_set [OF work(1), of worker "Sending package []"]
    by (auto simp: work_begin_def)
next
  case (result s i package r rest)
  let ?s = "set_thread i (Sending package rest) (s\<lparr>m_output_queue := m_output_queue s @ [r]\<rparr>)"
  have "weight worker (s\<lparr>m_output_queue := m_output_queue s @ [r]\<rparr>) = weight worker s"
    by (simp add: weight_def threads_weight_def)
  then have "weight worker ?s + 2 = weight worker s"
    using weight_set [of "s\<lparr>m_output_queue := m_output_queue s @ [r]\<rparr>" i "Sending package (r # rest)" worker "Sending package rest"]
      result(1) by simp
  then show ?case using weight_notify_reader [of worker ?s] by (simp add: result_send_def)
next
  case (finish s i package j)
  let ?s = "set_thread i Loop_top (s\<lparr>m_busy_count := m_busy_count s - 1\<rparr>)"
  have "weight worker (s\<lparr>m_busy_count := m_busy_count s - 1\<rparr>) = weight worker s"
    by (simp add: weight_def threads_weight_def)
  then have "weight worker ?s + 2 = weight worker s"
    using weight_set [of "s\<lparr>m_busy_count := m_busy_count s - 1\<rparr>" i "Sending package []" worker Loop_top] finish(1) by simp
  moreover have "work_end i j s = ?s \<or> work_end i j s = notify_waiter j ?s"
    by (simp add: work_end_def Let_def)
  ultimately show ?case using weight_notify_waiter [of worker j ?s] by auto
next
  case (notice s j)
  have less: "weight worker (s\<lparr>run_notices := run_notices s - 1\<rparr>) + 3 = weight worker s"
    using notice(1) by (simp add: weight_def threads_weight_def)
  show ?case
  proof (cases "thread_at s j Sleeping")
    case True
    then show ?thesis
      using less weight_set [of "s\<lparr>run_notices := run_notices s - 1\<rparr>" j Sleeping worker Woken]
      by (simp add: notify_run_def Let_def thread_at_def)
  next
    case False
    then show ?thesis using less by (auto simp: notify_run_def Let_def thread_at_def)
  qed
next
  case (read s)
  then show ?case by (simp add: core_read_def weight_def threads_weight_def)
next
  case (grow s cur des)
  have c: "unat cur = length (m_threads s)" "des = m_thread_count s" using grow by (simp_all add: cored_def)
  consider "cur < des" | "cur > des" | "cur = des" by fastforce
  then show ?case
  proof cases
    case 1
    then show ?thesis
      using c grow(1) by (auto simp: core_grow_def weight_def threads_weight_def word_less_nat_alt)
  next
    case 2
    then show ?thesis
      using c grow(1) sum_list_wake_all [of worker "m_threads s"]
      by (auto simp: core_grow_def weight_def threads_weight_def word_less_nat_alt)
  next
    case 3
    then show ?thesis using grow(1) by (simp add: core_grow_def weight_def threads_weight_def)
  qed
next
  case (join s cur des)
  have c: "unat cur = length (m_threads s)" "des = m_thread_count s" using join by (simp_all add: cored_def)
  then show ?case
    using join(1,2) sum_list_butlast_le [of "pc_weight worker" "m_threads s"]
    by (auto simp: core_join_def weight_def threads_weight_def word_less_nat_alt)
next
  case (joined s cur des)
  then show ?case by (simp add: core_join_def weight_def threads_weight_def)
next
  case (wait_again s j n)
  then have j: "j < length (waiters s)" "waiters s ! j = W_woken n" by (simp_all add: waiter_at_def)
  show ?case
    using sum_list_set [OF j(1), of waiter_weight W_done] sum_list_set [OF j(1), of waiter_weight "W_sleeping n"] j(2)
    by (auto simp: wait_check_def weight_def threads_weight_def)
next
  case (reader_again s)
  then show ?case by (auto simp: reader_check_def output_check_def weight_def threads_weight_def)
qed

definition at_rest :: "('m \<Rightarrow> 'm list) \<Rightarrow> 'm processor \<Rightarrow> bool" where
  "at_rest worker s \<longleftrightarrow> (\<forall>l s'. \<not> pool_step worker s l s')"

lemma rest_threads:
  assumes "at_rest worker s" "thread_at s i t"
  shows "t = Sleeping \<or> t = Exited"
proof (cases t)
  case Loop_top
  then show ?thesis using assms pool_step.enter unfolding at_rest_def by blast
next
  case Woken
  then show ?thesis using assms pool_step.awake unfolding at_rest_def by blast
next
  case (Working p)
  then show ?thesis using assms pool_step.work [of s i p worker] unfolding at_rest_def by blast
next
  case (Sending p rs)
  obtain j where j: "may_wake_waiter j s" unfolding may_wake_waiter_def by blast
  show ?thesis
  proof (cases rs)
    case Nil
    then show ?thesis
      using assms Sending pool_step.finish [OF _ j, of i p worker] unfolding at_rest_def by blast
  next
    case (Cons r rest)
    then show ?thesis
      using assms Sending pool_step.result [of s i p r rest worker] unfolding at_rest_def by blast
  qed
qed simp_all

lemma rest_notices:
  assumes "at_rest worker s"
  shows "run_notices s = 0"
proof -
  have "\<exists>j. may_wake_thread j s" unfolding may_wake_thread_def by blast
  then show ?thesis using assms pool_step.notice unfolding at_rest_def by blast
qed

lemma rest_core:
  assumes rest: "at_rest worker s" and cored: "cored s"
  shows "core s = Core_idle"
proof (cases "core s")
  case Core_read
  then show ?thesis using rest pool_step.read unfolding at_rest_def by blast
next
  case (Core_grow cur des)
  then show ?thesis using rest pool_step.grow unfolding at_rest_def by blast
next
  case (Core_join cur des)
  show ?thesis
  proof (cases "cur > des")
    case True
    have c: "unat cur = length (m_threads s)" "des = m_thread_count s"
        "\<And>i. thread_at s i Sleeping \<Longrightarrow> i < unat (m_thread_count s)"
      using cored Core_join by (auto simp: cored_def)
    then have n: "unat (m_thread_count s) < length (m_threads s)" using True by (simp add: word_less_nat_alt)
    let ?i = "length (m_threads s) - 1"
    have at: "thread_at s ?i (List.last (m_threads s))" using n last_conv_nth [of "m_threads s"] by (cases "m_threads s = []") (auto simp: thread_at_def)
    have "\<not> thread_at s ?i Sleeping" using c(3) [of ?i] n by auto
    then have "List.last (m_threads s) = Exited" using rest_threads [OF rest at] at by auto
    then show ?thesis using rest pool_step.join [OF Core_join True] n unfolding at_rest_def by fastforce
  next
    case False
    then show ?thesis using rest pool_step.joined [OF Core_join] unfolding at_rest_def by blast
  qed
qed

lemma in_hand_idle:
  assumes "\<And>i t. thread_at s i t \<Longrightarrow> t = Sleeping \<or> t = Exited"
  shows "all_of in_hand s = []" "all_of to_send s = []" "all_of (answers worker) s = []"
proof -
  have "t = Sleeping \<or> t = Exited" if "t \<in> set (m_threads s)" for t
    using that assms by (auto simp: thread_at_def in_set_conv_nth)
  then have "in_hand t = [] \<and> to_send t = [] \<and> answers worker t = []" if "t \<in> set (m_threads s)" for t
    using that by fastforce
  then show "all_of in_hand s = []" "all_of to_send s = []" "all_of (answers worker) s = []" by simp_all
qed

lemma mset_concat_map: "mset (concat (map f xs)) = (\<Sum>x \<in># mset xs. mset (f x))"
  by (induction xs) simp_all

lemma rest_done:
  assumes "reached worker s h" "at_rest worker s" "0 < m_thread_count s"
  shows "m_input_queue s = []" "mset (h_finished h) = mset (h_sent h)"
    "mset (h_results h) = mset (concat (map worker (h_sent h)))"
proof -
  have inv: "counted s" "cored s" "run_alert s" "recorded_ok worker s h"
    using reached_inv [OF assms(1)] by simp_all
  have "length (m_threads s) = unat (m_thread_count s)"
    using inv(2) rest_core [OF assms(2) inv(2)] by (simp add: cored_def)
  then have "0 < length (m_threads s)" using assms(3) by (simp add: word_less_nat_alt)
  then have at: "thread_at s 0 (m_threads s ! 0)" by (simp add: thread_at_def)
  moreover have "\<not> thread_at s 0 Exited" using inv(2) assms(3) by (auto simp: cored_def word_less_nat_alt)
  moreover have "\<not> some_active s"
    using rest_threads [OF assms(2)] by (auto simp: some_active_def active_def)
  ultimately show empty: "m_input_queue s = []"
    using inv(3) rest_notices [OF assms(2)] unfolding run_alert_def by metis
  note idle = in_hand_idle [OF rest_threads [OF assms(2)]]
  show fin: "mset (h_finished h) = mset (h_sent h)"
    using inv(4) empty idle(1) by (simp add: recorded_ok_def)
  have "mset (h_results h) = mset (concat (map worker (h_finished h)))"
    using inv(4) idle(2,3) by (simp add: recorded_ok_def)
  also have "\<dots> = mset (concat (map worker (h_sent h)))"
    by (simp only: mset_concat_map fin)
  finally show "mset (h_results h) = mset (concat (map worker (h_sent h)))" .
qed

text \<open>Runs of the pool on its own.\<close>

inductive pool_run :: "('m \<Rightarrow> 'm list) \<Rightarrow> nat \<Rightarrow> 'm processor \<Rightarrow> 'm history \<Rightarrow> 'm processor \<Rightarrow> 'm history \<Rightarrow> bool"
  for worker where
  done_none: "pool_run worker 0 s h s h"
| one_more: "pool_run worker n s h s1 h1 \<Longrightarrow> pool_step worker s1 l s2 \<Longrightarrow> pool_run worker (Suc n) s h s2 (recorded l h1)"

lemma pool_run_reached: "pool_run worker n s h s' h' \<Longrightarrow> reached worker s h \<Longrightarrow> reached worker s' h'"
  by (induction rule: pool_run.induct) (auto intro: reached.pool)

lemma pool_run_weight:
  "pool_run worker n s h s' h' \<Longrightarrow> reached worker s h \<Longrightarrow> n + weight worker s' \<le> weight worker s"
proof (induction rule: pool_run.induct)
  case (one_more n s h s1 h1 l s2)
  have "cored s1" using reached_inv [OF pool_run_reached [OF one_more(1,4)]] by blast
  then have "weight worker s2 < weight worker s1" using pool_weight [OF one_more(2)] by blast
  then show ?case using one_more.IH one_more(4) by simp
qed simp

section \<open>Properties\<close>

text \<open>C3: in every state of every run, with any interleaving of the threads and the clients, the
  packages taken up are the ones sent, in their order; each is in the hands of one thread or
  finished; the results come out in the order in which they were sent, and they are the answers
  to the packages that were begun, less those still to be sent.\<close>

theorem processor_exactly_once:
  assumes "reached worker s h"
  shows "h_sent h = h_taken h @ m_input_queue s \<and>
    mset (h_taken h) = mset (all_of in_hand s) + mset (h_finished h) \<and>
    h_results h = h_received h @ m_output_queue s \<and>
    mset (h_results h) + mset (all_of to_send s) =
      mset (concat (map worker (h_finished h))) + mset (all_of (answers worker) s) \<and>
    m_busy_count s = of_nat (length (all_of in_hand s))"
  using reached_inv [OF assms] by (simp add: recorded_ok_def counted_def)

text \<open>A run to apply it to: one thread, one package.\<close>

definition example_pool :: "string processor" where
  "example_pool = loop_enter 0 (processor_send ''job'' (core_grow 1 1 (core_grow 0 1 (core_read (processor_new 1)))))"

lemma example_pool_reached:
  "reached (\<lambda>p. [p, ''done'']) example_pool
     \<lparr>h_sent = [''job''], h_taken = [''job''], h_finished = [], h_results = [], h_received = []\<rparr>"
proof -
  let ?w = "\<lambda>p. [p, ''done'']"
  define s1 :: "string processor" where "s1 = core_read (processor_new 1)"
  define s2 where "s2 = core_grow 0 1 s1"
  define s3 where "s3 = core_grow 1 1 s2"
  define s4 where "s4 = processor_send ''job'' s3"
  note defs = s4_def s3_def s2_def s1_def processor_new_def core_set_def core_read_def core_grow_def processor_send_def
    thread_at_def take_label_def
  have r1: "reached ?w s1 no_history"
    using reached.pool [OF reached.start pool_step.read, of 1 ?w] by (simp add: s1_def processor_new_def core_set_def)
  have r2: "reached ?w s2 no_history"
    using reached.pool [OF r1 pool_step.grow, of 0 1] by (simp add: defs)
  have r3: "reached ?w s3 no_history"
    using reached.pool [OF r2 pool_step.grow, of 1 1] by (simp add: defs)
  have r4: "reached ?w s4 (no_history\<lparr>h_sent := [''job'']\<rparr>)"
    using reached.client [OF r3 client_move.send, of "''job''"] by (simp add: defs no_history_def)
  have "reached ?w (loop_enter 0 s4) (no_history\<lparr>h_sent := [''job''], h_taken := [''job'']\<rparr>)"
    using reached.pool [OF r4 pool_step.enter, of 0] by (simp add: defs no_history_def)
  then show ?thesis by (simp add: example_pool_def s4_def s3_def s2_def s1_def no_history_def)
qed

theorem processor_exactly_once_witness:
  "[''job''] = [''job''] @ m_input_queue example_pool \<and> m_busy_count example_pool = 1"
proof -
  have "length (all_of in_hand example_pool) = 1" by code_simp
  then show ?thesis using processor_exactly_once [OF example_pool_reached] by simp
qed

text \<open>C2: once the clients have stopped the pool comes to rest: from any state it takes a bounded
  number of steps on its own, and where it can take none, if at least one thread is wanted,
  every package ever sent is finished, with all its answers, and nothing is left in the queue;
  the one that waits for output only sleeps while there is none. So no wake-up is lost.\<close>

theorem processor_drains:
  assumes "reached worker s h" "pool_run worker n s h s' h'"
  shows "n \<le> weight worker s \<and>
    (at_rest worker s' \<and> 0 < m_thread_count s' \<longrightarrow>
       m_input_queue s' = [] \<and> mset (h_finished h') = mset (h_sent h') \<and>
       mset (h_results h') = mset (concat (map worker (h_sent h')))) \<and>
    (reader s' = R_sleeping \<longrightarrow> m_output_queue s' = [] \<and> on_demand_wakeup s' = 0)"
  using pool_run_weight [OF assms(2,1)] rest_done [OF pool_run_reached [OF assms(2,1)]]
    reached_inv [OF pool_run_reached [OF assms(2,1)]] by (auto simp: read_alert_def)

theorem processor_drains_witness:
  "\<exists>s h. pool_run (\<lambda>p. [p, ''done'']) 7 example_pool
      \<lparr>h_sent = [''job''], h_taken = [''job''], h_finished = [], h_results = [], h_received = []\<rparr> s h \<and>
    7 \<le> weight (\<lambda>p. [p, ''done'']) example_pool \<and> mset (h_finished h) = {#''job''#}"
proof -
  let ?w = "\<lambda>p. [p, ''done'']" and ?h = "\<lparr>h_sent = [''job''], h_taken = [''job''], h_finished = [], h_results = [], h_received = []\<rparr>"
  define s1 where "s1 = work_begin ?w 0 ''job'' example_pool"
  define s2 where "s2 = result_send 0 ''job'' ''job'' [''done''] s1"
  define s3 where "s3 = result_send 0 ''job'' ''done'' [] s2"
  define s4 where "s4 = work_end 0 0 s3"
  define s5 where "s5 = loop_enter 0 s4"
  define s6 where "s6 = notify_run 0 s5"
  define s7 where "s7 = loop_wake 0 s6"
  note defs = s7_def s6_def s5_def s4_def s3_def s2_def s1_def
  have v: "m_threads example_pool = [Working ''job'']" "m_threads s1 = [Sending ''job'' [''job'', ''done'']]"
      "m_threads s2 = [Sending ''job'' [''done'']]" "m_threads s3 = [Sending ''job'' []]" "m_threads s4 = [Loop_top]"
      "m_threads s5 = [Sleeping]" "m_threads s6 = [Woken]" "m_threads s7 = [Sleeping]" "run_notices s5 = 1" "run_notices s7 = 0"
      "core s7 = Core_idle" "reader s7 = R_idle" "waiters s7 = []" "waiters s3 = []" "m_input_queue s4 = []" "m_input_queue s6 = []"
      "m_thread_count s7 = 1"
    unfolding defs by code_simp+
  have at: "thread_at s 0 t" if "m_threads s = [t]" for s :: "string processor" and t using that by (simp add: thread_at_def)
  note more = pool_run.one_more [of ?w _ example_pool ?h]
  have r: "pool_run ?w 1 example_pool ?h s1 ?h"
    using more [OF pool_run.done_none pool_step.work [OF at [OF v(1)]]] by (simp add: s1_def)
  have r: "pool_run ?w 2 example_pool ?h s2 (?h\<lparr>h_results := [''job'']\<rparr>)"
    using more [OF r pool_step.result [OF at [OF v(2)]]] by (simp add: s2_def numeral_2_eq_2)
  have r: "pool_run ?w 3 example_pool ?h s3 (?h\<lparr>h_results := [''job'', ''done'']\<rparr>)"
    using more [OF r pool_step.result [OF at [OF v(3)]]] by (simp add: s3_def)
  have "may_wake_waiter 0 s3" using v(14) by (simp add: may_wake_waiter_def waiter_at_def)
  then have r: "pool_run ?w 4 example_pool ?h s4 (?h\<lparr>h_results := [''job'', ''done''], h_finished := [''job'']\<rparr>)"
    using more [OF r pool_step.finish [OF at [OF v(4)], of 0]] by (simp add: s4_def)
  have r: "pool_run ?w 5 example_pool ?h s5 (?h\<lparr>h_results := [''job'', ''done''], h_finished := [''job'']\<rparr>)"
    using more [OF r pool_step.enter [OF at [OF v(5)]]] by (simp add: s5_def take_label_empty v(15))
  have "may_wake_thread 0 s5" using at [OF v(6)] by (simp add: may_wake_thread_def)
  then have r: "pool_run ?w 6 example_pool ?h s6 (?h\<lparr>h_results := [''job'', ''done''], h_finished := [''job'']\<rparr>)"
    using more [OF r pool_step.notice [of s5 0]] v(9) by (simp add: s6_def)
  have r: "pool_run ?w 7 example_pool ?h s7 (?h\<lparr>h_results := [''job'', ''done''], h_finished := [''job'']\<rparr>)"
    using more [OF r pool_step.awake [OF at [OF v(7)]]] by (simp add: s7_def take_label_empty v(16))
  have only: "thread_at s7 i t \<longleftrightarrow> i = 0 \<and> t = Sleeping" "\<not> waiter_at s7 j w" for i t j w
    using v(8,13) by (auto simp: thread_at_def waiter_at_def)
  have rest: "at_rest ?w s7"
    unfolding at_rest_def using v(10-12) only by (auto elim!: pool_step.cases)
  from processor_drains [OF example_pool_reached r] rest v(17) r show ?thesis by fastforce
qed

lemma length_in_hand: "length (all_of in_hand s) \<le> length (m_threads s)"
proof -
  have one: "length (in_hand t) \<le> 1" for t :: "'a pc" by (cases t) simp_all
  have "length (concat (map in_hand ts)) \<le> length ts" for ts :: "'a pc list"
  proof (induction ts)
    case (Cons t ts)
    then show ?case using one [of t] by simp
  qed simp
  then show ?thesis .
qed

lemma wait_done_ready:
  "pool_step worker s L_wait_done s' \<or> client_move s L_wait_done s' \<Longrightarrow> \<exists>n. wait_ready n s"
  by (auto elim!: pool_step.cases client_move.cases simp: take_label_def split: if_splits list.splits)

text \<open>C31: \<open>wait\<close> only returns when all the packages sent so far are finished.\<close>

theorem processor_wait_finished:
  assumes "reached worker s h" "pool_step worker s L_wait_done s' \<or> client_move s L_wait_done s'"
  shows "m_input_queue s = [] \<and> all_of in_hand s = [] \<and> mset (h_finished h) = mset (h_sent h)"
proof -
  have inv: "counted s" "cored s" "recorded_ok worker s h" using reached_inv [OF assms(1)] by simp_all
  obtain n where ready: "wait_ready n s" using wait_done_ready [OF assms(2)] by blast
  have "length (all_of in_hand s) < 2 ^ 64"
    using length_in_hand [of s] inv(2) by (auto simp: cored_def)
  then have "length (all_of in_hand s) = 0"
    using ready inv(1) unat_of_nat_size [of "length (all_of in_hand s)"] by (simp add: wait_ready_def counted_def)
  then show ?thesis using ready inv(3) by (simp add: wait_ready_def recorded_ok_def)
qed

theorem processor_wait_finished_witness:
  "m_input_queue (core_read (processor_new 1 :: string processor)) = [] \<and>
    mset (h_finished (no_history :: string history)) = mset (h_sent (no_history :: string history))"
proof -
  let ?s = "core_read (processor_new 1) :: string processor"
  have "reached (\<lambda>p. [p]) ?s no_history"
    using reached.pool [OF reached.start pool_step.read, of 1 "\<lambda>p. [p]"] by (simp add: processor_new_def core_set_def)
  moreover have "wait_ready 0 ?s" by (simp add: wait_ready_def core_read_def processor_new_def core_set_def)
  then have "client_move ?s L_wait_done (processor_wait 0 ?s)" using client_move.wait [of ?s 0] by simp
  ultimately show ?thesis using processor_wait_finished [of "\<lambda>p. [p]" ?s no_history "processor_wait 0 ?s"] by blast
qed

text \<open>
  A run with one thread in which two clients wait, the first for five finished packages and the second
  for one: the package is finished, and its notice goes to the first.
\<close>

definition lost_1 :: "string processor" where "lost_1 = core_read (processor_new 1)"
definition lost_2 :: "string processor" where "lost_2 = core_grow 0 1 lost_1"
definition lost_3 :: "string processor" where "lost_3 = core_grow 1 1 lost_2"
definition lost_4 :: "string processor" where "lost_4 = processor_send ''job'' lost_3"
definition lost_5 :: "string processor" where "lost_5 = processor_wait 5 lost_4"
definition lost_6 :: "string processor" where "lost_6 = processor_wait 1 lost_5"
definition lost_7 :: "string processor" where "lost_7 = notify_run 0 lost_6"
definition lost_8 :: "string processor" where "lost_8 = loop_enter 0 lost_7"
definition lost_9 :: "string processor" where "lost_9 = work_begin (\<lambda>_. []) 0 ''job'' lost_8"
definition lost_10 :: "string processor" where "lost_10 = work_end 0 0 lost_9"
definition lost_11 :: "string processor" where "lost_11 = loop_enter 0 lost_10"
definition lost_12 :: "string processor" where "lost_12 = wait_check 0 5 lost_11"

lemmas lost_defs = lost_12_def lost_11_def lost_10_def lost_9_def lost_8_def lost_7_def lost_6_def lost_5_def lost_4_def
  lost_3_def lost_2_def lost_1_def

lemma lost_values:
  "core lost_1 = Core_grow 0 1" "core lost_2 = Core_grow 1 1" "m_policy lost_3 = Allow_new" "\<not> wait_ready 5 lost_4"
  "\<not> wait_ready 1 lost_5" "run_notices lost_6 \<noteq> 0" "m_threads lost_6 = [Loop_top]" "m_threads lost_7 = [Loop_top]"
  "m_threads lost_8 = [Working ''job'']" "m_threads lost_9 = [Sending ''job'' []]"
  "waiters lost_9 = [W_sleeping 5, W_sleeping 1]" "m_threads lost_10 = [Loop_top]"
  "waiters lost_11 = [W_woken 5, W_sleeping 1]" "\<not> wait_ready 5 lost_11"
  unfolding lost_defs by code_simp+

lemma lost_last:
  "m_threads lost_12 = [Sleeping]" "waiters lost_12 = [W_sleeping 5, W_sleeping 1]" "run_notices lost_12 = 0"
  "core lost_12 = Core_idle" "reader lost_12 = R_idle" "wait_ready 1 lost_12"
  unfolding lost_defs by code_simp+

lemma some_reached_pool:
  assumes "\<exists>h. reached w s h" "\<exists>l. pool_step w s l s'"
  shows "\<exists>h. reached w s' h"
  using assms reached.pool by blast

lemma some_reached_client:
  assumes "\<exists>h. reached w s h" "\<exists>l. client_move s l s'"
  shows "\<exists>h. reached w s' h"
  using assms reached.client by blast

lemma only_thread_at: "m_threads s = [t] \<Longrightarrow> thread_at s 0 t"
  by (simp add: thread_at_def)

lemma lost_waits: "\<exists>h. reached (\<lambda>_. []) lost_6 h"
proof -
  note pool = some_reached_pool [where w = "\<lambda>_. []"] and client = some_reached_client [where w = "\<lambda>_. []"]
  have r: "\<exists>h. reached (\<lambda>_. []) lost_1 h" unfolding lost_1_def
  proof (rule pool [of "processor_new 1"])
    show "\<exists>h. reached (\<lambda>_. []) (processor_new 1 :: string processor) h" using reached.start by blast
    have "core (processor_new 1 :: string processor) = Core_read" by (simp add: processor_new_def core_set_def)
    then show "\<exists>l. pool_step (\<lambda>_. []) (processor_new 1 :: string processor) l (core_read (processor_new 1))"
      using pool_step.read by blast
  qed
  have r: "\<exists>h. reached (\<lambda>_. []) lost_2 h"
    unfolding lost_2_def by (rule pool [OF r]) (use lost_values in \<open>blast intro: pool_step.grow\<close>)
  have r: "\<exists>h. reached (\<lambda>_. []) lost_3 h"
    unfolding lost_3_def by (rule pool [OF r]) (use lost_values in \<open>blast intro: pool_step.grow\<close>)
  have r: "\<exists>h. reached (\<lambda>_. []) lost_4 h" unfolding lost_4_def by (rule client [OF r]) (blast intro: client_move.send)
  have r: "\<exists>h. reached (\<lambda>_. []) lost_5 h" unfolding lost_5_def by (rule client [OF r]) (blast intro: client_move.wait)
  show ?thesis unfolding lost_6_def by (rule client [OF r]) (blast intro: client_move.wait)
qed

lemma lost_reached: "\<exists>h. reached (\<lambda>_. []) lost_12 h"
proof -
  note pool = some_reached_pool [where w = "\<lambda>_. []"] and v = lost_values
  have "may_wake_thread 0 lost_6" using v(7) by (auto simp: may_wake_thread_def thread_at_def)
  then have r: "\<exists>h. reached (\<lambda>_. []) lost_7 h" unfolding lost_7_def
    by (intro pool [OF lost_waits]) (use v(6) in \<open>blast intro: pool_step.notice\<close>)
  have r: "\<exists>h. reached (\<lambda>_. []) lost_8 h"
    unfolding lost_8_def by (rule pool [OF r]) (use only_thread_at [OF v(8)] in \<open>blast intro: pool_step.enter\<close>)
  have r: "\<exists>h. reached (\<lambda>_. []) lost_9 h"
    unfolding lost_9_def by (rule pool [OF r]) (use only_thread_at [OF v(9)] in \<open>blast intro: pool_step.work\<close>)
  have "may_wake_waiter 0 lost_9" using v(11) by (auto simp: may_wake_waiter_def waiter_at_def)
  then have r: "\<exists>h. reached (\<lambda>_. []) lost_10 h" unfolding lost_10_def
    by (intro pool [OF r]) (use only_thread_at [OF v(10)] in \<open>blast intro: pool_step.finish\<close>)
  have r: "\<exists>h. reached (\<lambda>_. []) lost_11 h"
    unfolding lost_11_def by (rule pool [OF r]) (use only_thread_at [OF v(12)] in \<open>blast intro: pool_step.enter\<close>)
  have "waiter_at lost_11 0 (W_woken 5)" using v(13) by (simp add: waiter_at_def)
  then show ?thesis unfolding lost_12_def by (intro pool [OF r]) (blast intro: pool_step.wait_again)
qed

text \<open>C32: with two callers of \<open>wait\<close> a wake-up is lost: \<open>notify_one\<close> can reach the one whose condition does
  not hold, and the other one sleeps on although its condition holds, with the whole pool at
  rest.\<close>

theorem processor_wait_lost:
  "\<exists>(s :: string processor) h j n. reached (\<lambda>_. []) s h \<and> waiter_at s j (W_sleeping n) \<and> wait_ready n s \<and>
     at_rest (\<lambda>_. []) s"
proof -
  have only: "thread_at lost_12 i t \<longleftrightarrow> i = 0 \<and> t = Sleeping" "waiter_at lost_12 j w \<Longrightarrow> w = W_sleeping 5 \<or> w = W_sleeping 1"
    for i t j w
    using lost_last(1,2) by (auto simp: thread_at_def waiter_at_def less_Suc_eq)
  have "at_rest (\<lambda>_. []) lost_12"
    unfolding at_rest_def using lost_last(3-5) only by (auto elim!: pool_step.cases)
  moreover have "waiter_at lost_12 1 (W_sleeping 1)" using lost_last(2) by (simp add: waiter_at_def)
  ultimately show ?thesis using lost_reached lost_last(6) by blast
qed

end
