(* ===== verification/Math_Expression.thy ===== *)
theory Math_Expression
  imports Parser_Driver
begin

text \<open>
  The lexers of \<open>src/belt.pp/math_expression.hpp\<close> with the parser: an arithmetic expression that
  follows the usual grammar is parsed to a tree with the value the grammar gives it. \<open>std::strtod\<close>
  is a parameter, the number of characters it takes.
\<close>

section \<open>The list\<close>

datatype math_lexer =
    Math_discard
  | Binary_operator_plus
  | Binary_operator_minus
  | Math_number
  | Binary_operator_multiply
  | Binary_operator_divide
  | Binary_operator_power
  | Bracket
  | Unary_operator_plus

definition math_list :: "math_lexer list" where
  "math_list = [Math_discard, Binary_operator_plus, Binary_operator_minus, Math_number,
     Binary_operator_multiply, Binary_operator_divide, Binary_operator_power, Bracket, Unary_operator_plus]"

definition math_rtt :: "math_lexer \<Rightarrow> u8" where
  "math_rtt l = of_int (the (type_list_index l math_list))"

section \<open>The scanners\<close>

definition binary_operator_plus_parse :: operator_parse where
  "binary_operator_plus_parse s =
     (case s of [] \<Rightarrow> None
      | c # _ \<Rightarrow> Some (if c \<noteq> CHR ''+'' then (False, 0, False, 0, 0) else (True, 1, True, 1, 1)))"

definition binary_operator_minus_parse :: operator_parse where
  "binary_operator_minus_parse s =
     (case s of [] \<Rightarrow> None
      | c # _ \<Rightarrow> Some (if c \<noteq> CHR ''-'' then (False, 0, False, 0, 0) else (True, 1, True, 1, 1)))"

definition binary_operator_multiply_parse :: operator_parse where
  "binary_operator_multiply_parse s =
     (case s of [] \<Rightarrow> None
      | c # _ \<Rightarrow> Some (if c \<noteq> CHR ''*'' then (False, 0, False, 0, 0) else (True, 1, True, 1, 1)))"

definition binary_operator_divide_parse :: operator_parse where
  "binary_operator_divide_parse s =
     (case s of [] \<Rightarrow> None
      | c # _ \<Rightarrow> Some (if c \<noteq> CHR ''/'' then (False, 0, False, 0, 0) else (True, 1, True, 1, 1)))"

definition binary_operator_power_parse :: operator_parse where
  "binary_operator_power_parse s =
     (case s of [] \<Rightarrow> None
      | c # _ \<Rightarrow> Some (if c \<noteq> CHR ''^'' then (False, 0, False, 0, 0) else (True, 1, True, 1, 1)))"

definition unary_operator_plus_parse :: operator_parse where
  "unary_operator_plus_parse s =
     (case s of [] \<Rightarrow> None
      | c # _ \<Rightarrow> Some (if c \<noteq> CHR ''+'' then (False, 0, False, 0, 0) else (True, 1, False, 1, 1)))"

definition bracket_parse :: operator_parse where
  "bracket_parse s =
     (case s of [] \<Rightarrow> None
      | c # _ \<Rightarrow> Some (if c \<noteq> CHR ''('' \<and> c \<noteq> CHR '')'' then (False, 0, False, 0, 0)
                    else if c = CHR ''('' then (True, 1, False, 1, 4)
                    else (True, 1, True, 0, 8)))"

definition math_number_parse :: "(string \<Rightarrow> nat) \<Rightarrow> string \<Rightarrow> (bool \<times> nat) option" where
  "math_number_parse strtod s =
     (case s of [] \<Rightarrow> None
      | _ \<Rightarrow> let length' = strtod s
             in if length' = 0 then Some (False, 0)
                else if length' \<le> length s then Some (True, length') else None)"

text \<open>\<open>get_default\<close> of the multiplication, with its tag and priority.\<close>

definition math_default :: operator where
  "math_default = (math_rtt Binary_operator_multiply, 2, 1, 1)"

definition math_lexers :: "(string \<Rightarrow> nat) \<Rightarrow> lexer list" where
  "math_lexers strtod =
     [discard_lexer_base standard_white_space_set,
      operator_lexer_base (math_rtt Binary_operator_plus) 1 binary_operator_plus_parse,
      operator_lexer_base (math_rtt Binary_operator_minus) 1 binary_operator_minus_parse,
      value_lexer_base (math_rtt Math_number) (math_number_parse strtod),
      operator_lexer_base (math_rtt Binary_operator_multiply) 2 binary_operator_multiply_parse,
      operator_lexer_base (math_rtt Binary_operator_divide) 2 binary_operator_divide_parse,
      operator_lexer_base (math_rtt Binary_operator_power) 3 binary_operator_power_parse,
      operator_lexer_base (math_rtt Bracket) 5 bracket_parse,
      operator_lexer_base (math_rtt Unary_operator_plus) 4 unary_operator_plus_parse]"

lemma math_rtt_simps [simp]:
  "math_rtt Math_discard = 0" "math_rtt Binary_operator_plus = 1" "math_rtt Binary_operator_minus = 2"
  "math_rtt Math_number = 3" "math_rtt Binary_operator_multiply = 4" "math_rtt Binary_operator_divide = 5"
  "math_rtt Binary_operator_power = 6" "math_rtt Bracket = 7" "math_rtt Unary_operator_plus = 8"
  by (simp_all add: math_rtt_def math_list_def)

section \<open>The grammar\<close>

text \<open>Sums of products of powers of atoms, all of them from left to right; an atom is a number or an
  expression in brackets. \<open>grammar p\<close> holds of the expressions of level \<open>p\<close>, from sums, which is 1, to
  atoms, which is 4.\<close>

datatype bop = Plus | Minus | Times | Divide | Power

fun bop_char :: "bop \<Rightarrow> char" where
  "bop_char Plus = CHR ''+''" | "bop_char Minus = CHR ''-''" | "bop_char Times = CHR ''*''"
| "bop_char Divide = CHR ''/''" | "bop_char Power = CHR ''^''"

fun bop_lexer :: "bop \<Rightarrow> math_lexer" where
  "bop_lexer Plus = Binary_operator_plus" | "bop_lexer Minus = Binary_operator_minus"
| "bop_lexer Times = Binary_operator_multiply" | "bop_lexer Divide = Binary_operator_divide"
| "bop_lexer Power = Binary_operator_power"

fun level :: "bop \<Rightarrow> nat" where
  "level Plus = 1" | "level Minus = 1" | "level Times = 2" | "level Divide = 2" | "level Power = 3"

datatype expr = Num string | Paren expr | Chain expr chain
and chain = End | More bop expr chain

definition digits :: "string \<Rightarrow> bool" where
  "digits ds \<longleftrightarrow> ds \<noteq> [] \<and> (\<forall>c \<in> set ds. c \<in> set ''0123456789'')"

primrec grammar :: "expr \<Rightarrow> nat \<Rightarrow> bool" and grammar_chain :: "chain \<Rightarrow> nat \<Rightarrow> bool" where
  "grammar (Num ds) p = (p = 4 \<and> digits ds)"
| "grammar (Paren e) p = (p = 4 \<and> grammar e 1)"
| "grammar (Chain e r) p = (p \<in> {1..3} \<and> grammar e (Suc p) \<and> grammar_chain r p)"
| "grammar_chain End p = True"
| "grammar_chain (More b e r) p = (level b = p \<and> grammar e (Suc p) \<and> grammar_chain r p)"

primrec render :: "expr \<Rightarrow> string" and render_chain :: "chain \<Rightarrow> string" where
  "render (Num ds) = ds"
| "render (Paren e) = ''('' @ render e @ '')''"
| "render (Chain e r) = render e @ render_chain r"
| "render_chain End = []"
| "render_chain (More b e r) = bop_char b # render e @ render_chain r"

primrec expr_value :: "(string \<Rightarrow> 'a) \<Rightarrow> (bop \<Rightarrow> 'a \<Rightarrow> 'a \<Rightarrow> 'a) \<Rightarrow> expr \<Rightarrow> 'a"
and chain_value :: "(string \<Rightarrow> 'a) \<Rightarrow> (bop \<Rightarrow> 'a \<Rightarrow> 'a \<Rightarrow> 'a) \<Rightarrow> chain \<Rightarrow> 'a \<Rightarrow> 'a" where
  "expr_value num ap (Num ds) = num ds"
| "expr_value num ap (Paren e) = expr_value num ap e"
| "expr_value num ap (Chain e r) = chain_value num ap r (expr_value num ap e)"
| "chain_value num ap End v = v"
| "chain_value num ap (More b e r) v = chain_value num ap r (ap b v (expr_value num ap e))"

section \<open>The value of a syntax tree\<close>

text \<open>An operator node has two or more children and is worked out from the left.\<close>

definition bop_of :: "u8 \<Rightarrow> bop" where
  "bop_of r = (if r = 1 then Plus else if r = 2 then Minus else if r = 4 then Times
               else if r = 5 then Divide else Power)"

fun folded :: "('a \<Rightarrow> 'a \<Rightarrow> 'a) \<Rightarrow> 'a list \<Rightarrow> 'a" where
  "folded f (x # xs) = foldl f x xs"

fun tree_value :: "(string \<Rightarrow> 'a) \<Rightarrow> (bop \<Rightarrow> 'a \<Rightarrow> 'a \<Rightarrow> 'a) \<Rightarrow> string \<Rightarrow> ast \<Rightarrow> 'a" where
  "tree_value num ap text (Leaf r s n) = num (take (unat n) (drop (unat s) text))"
| "tree_value num ap text (Node r p ri pr xs) =
     folded (ap (bop_of r)) (map (tree_value num ap text) xs)"

section \<open>Trees under construction\<close>

text \<open>The nodes on the path: an operator with the operands that are finished, or an open bracket.\<close>

datatype frame = Fop bop "ast list" | Fopen

definition bop_rtt :: "bop \<Rightarrow> u8" where "bop_rtt b = math_rtt (bop_lexer b)"
definition bop_prio :: "bop \<Rightarrow> u8" where "bop_prio b = of_nat (level b)"

fun plug :: "frame list \<Rightarrow> ast \<Rightarrow> ast" where
  "plug [] y = y"
| "plug (Fop b xs # fs) y = Node (bop_rtt b) (bop_prio b) 0 1 (xs @ [plug fs y])"
| "plug (Fopen # fs) y = Node 7 5 0 4 [plug fs y]"

fun open_node :: "frame \<Rightarrow> ast" where
  "open_node (Fop b xs) = Node (bop_rtt b) (bop_prio b) 1 1 xs"
| "open_node Fopen = Node 7 5 1 4 []"

text \<open>A state that waits for an operand, and one after a finished operand.\<close>

definition await :: "frame list \<Rightarrow> (ast \<times> nat) option" where
  "await fs = (if fs = [] then None else Some (plug (butlast fs) (open_node (last fs)), length fs))"

definition after :: "frame list \<Rightarrow> ast \<Rightarrow> (ast \<times> nat) option" where
  "after fs y = Some (plug fs y, Suc (length fs))"

text \<open>A finished operand.\<close>

fun operand :: "ast \<Rightarrow> bool" where
  "operand (Leaf r s n) = True"
| "operand (Node r p ri pr xs) = (r = 7 \<and> p = 5 \<and> ri = 0 \<and> pr = 2)"

definition ops_from :: "nat \<Rightarrow> frame list \<Rightarrow> bool" where
  "ops_from p fs \<longleftrightarrow> (\<forall>f \<in> set fs. \<exists>b xs. f = Fop b xs \<and> xs \<noteq> [] \<and> p \<le> level b)"

definition ops_below :: "nat \<Rightarrow> frame list \<Rightarrow> bool" where
  "ops_below p fs \<longleftrightarrow> (\<forall>f \<in> set fs. \<exists>b xs. f = Fop b xs \<and> xs \<noteq> [] \<and> level b < p)"

lemma plug_append: "plug (fs @ gs) y = plug fs (plug gs y)"
  by (induction fs y rule: plug.induct) auto

lemma a_at_plug [simp]: "i \<le> length fs \<Longrightarrow> a_at i (plug fs y) = plug (drop i fs) y"
proof (induction i arbitrary: fs)
  case (Suc i)
  then show ?case by (cases "(fs, y)" rule: plug.cases) auto
qed simp

lemma a_set_plug [simp]: "i \<le> length fs \<Longrightarrow> a_set i z (plug fs y) = plug (take i fs) z"
proof (induction i arbitrary: fs)
  case (Suc i)
  then show ?case by (cases "(fs, y)" rule: plug.cases) auto
qed simp

lemma bop_simps [simp]:
  "bop_of (bop_rtt b) = b" "bop_rtt b = bop_rtt c \<longleftrightarrow> b = c" "bop_rtt b \<noteq> 7" "7 \<noteq> bop_rtt b"
  "bop_prio b < bop_prio c \<longleftrightarrow> level b < level c" "bop_prio b < 5"
  by (cases b; cases c; simp add: bop_rtt_def bop_of_def bop_prio_def)+

lemma properties [simp]: "property_final 1" "property_final 2" "\<not> property_final 4" "property_check 1 1"
  "property_check 4 8"
  by (simp_all add: property_final_def property_check_def)

lemma plug_complete: "ops_from p fs \<Longrightarrow> operand y \<Longrightarrow> a_complete (plug fs y)"
  by (cases "(fs, y)" rule: plug.cases; cases y) (auto simp: ops_from_def)

section \<open>Placing a token\<close>

lemma stop_scan_complete:
  assumes "\<And>i. n \<le> i \<Longrightarrow> i < m \<Longrightarrow> a_complete (a_at i x) \<and>
      (\<forall>rtt prio ri pr r p ri' pr' xs. act = Some (rtt, prio, ri, pr) \<longrightarrow> a_at i x = Node r p ri' pr' xs \<longrightarrow> \<not> p < prio)"
    and "n \<le> m"
  shows "a_stop_scan x act m = a_stop_scan x act n"
  using assms
proof (induction m)
  case (Suc m)
  show ?case
  proof (cases "n = Suc m")
    case False
    then have "a_complete (a_at m x)" "\<forall>rtt prio ri pr r p ri' pr' xs. act = Some (rtt, prio, ri, pr) \<longrightarrow>
        a_at m x = Node r p ri' pr' xs \<longrightarrow> \<not> p < prio"
      using Suc.prems(1) [of m] Suc.prems(2) by auto
    then have "a_stop_scan x act (Suc m) = a_stop_scan x act m"
      by (auto split: option.splits ast.splits)
    then show ?thesis using Suc False by simp
  qed simp
qed simp

lemma same_scan_complete:
  assumes "\<And>i. n \<le> i \<Longrightarrow> i < m \<Longrightarrow> a_complete (a_at i x)" "n \<le> m"
  shows "a_same_scan x rtt k m = a_same_scan x rtt k n"
  using assms
proof (induction m)
  case (Suc m)
  then show ?case by (cases "n = Suc m") auto
qed simp

text \<open>An operand goes to the node that waits for it.\<close>

lemma await_top:
  assumes "fs \<noteq> []"
  shows "a_at (length fs - 1) (plug (butlast fs) (open_node (last fs))) = open_node (last fs)"
    "a_set (length fs - 1) z (plug (butlast fs) (open_node (last fs))) = plug (butlast fs) z"
    "\<not> a_complete (open_node (last fs))" "0 < a_right (open_node (last fs))"
proof -
  show "a_at (length fs - 1) (plug (butlast fs) (open_node (last fs))) = open_node (last fs)"
    "a_set (length fs - 1) z (plug (butlast fs) (open_node (last fs))) = plug (butlast fs) z"
    using assms by simp_all
  show "\<not> a_complete (open_node (last fs))" "0 < a_right (open_node (last fs))"
    by (cases "last fs"; simp)+
qed

lemma plug_last:
  "fs \<noteq> [] \<Longrightarrow> plug (butlast fs) (a_append y (open_node (last fs))) = plug fs y"
  by (cases fs rule: rev_cases; cases "last fs") (auto simp: plug_append)

lemma default_fix: "a_fixes math_default (open_node f) \<Longrightarrow> a_fix math_default (open_node f) = open_node f"
  by (cases f) (auto simp: math_default_def bop_rtt_def)

lemma place_operand:
  "a_helper (Some math_default) n (await fs) tok E_value = (True, Some (plug fs (a_token n tok), Suc (length fs)))"
proof (cases "fs = []")
  case True
  then show ?thesis by (simp add: a_helper_def await_def)
next
  case False
  let ?x = "plug (butlast fs) (open_node (last fs))"
  obtain m where m: "length fs = Suc m" using False by (cases fs) auto
  have top: "a_at m ?x = open_node (last fs)" "\<not> a_complete (open_node (last fs))" "0 < a_right (open_node (last fs))"
      "\<And>z. a_set m z ?x = plug (butlast fs) z"
    using await_top [OF False] m by simp_all
  have stop: "a_stop_scan ?x (Some math_default) (Suc m) = Some m" using top by simp
  have same: "a_same_scan ?x (fst math_default) m (Suc m) = m" using top by simp
  have place: "\<exists>ok d. a_place math_default m ?x (Suc m) = (ok, ?x, d)"
    unfolding a_place_def using top default_fix [of "last fs"] by auto
  then obtain ok d where place: "a_place math_default m ?x (Suc m) = (ok, ?x, d)" by blast
  show ?thesis
    using False top plug_last [OF False, of "a_token n tok"] m
    by (simp add: a_helper_def await_def stop [unfolded Suc_eq_plus1 [symmetric]] same place del: a_stop_scan.simps a_same_scan.simps)
qed

lemma place_value:
  "a_helper (Some math_default) n (await fs) (Tvalue r k) E_value = (True, after fs (Leaf r (of_nat n) k))"
  by (simp add: place_operand after_def)

lemma place_open:
  "a_helper (Some math_default) n (await fs) (Toper (7, 5, 1, 4)) E_value = (True, await (fs @ [Fopen]))"
  using place_operand [of n fs "Toper (7, 5, 1, 4)"] by (simp add: await_def)

text \<open>An operator goes above what binds stronger.\<close>

definition reach :: "frame list \<Rightarrow> bool" where
  "reach fs \<longleftrightarrow> fs = [] \<or> last fs = Fopen"

lemma ops_from_drop: "ops_from p fs \<Longrightarrow> ops_from p (drop i fs)"
  by (auto simp: ops_from_def dest: in_set_dropD)

lemma ops_below_complete:
  assumes "ops_below p g1" "a_complete y"
  shows "a_complete (plug g1 y)"
  using assms by (cases g1) (auto simp: ops_below_def)

lemma place_binary:
  assumes "reach pre" "ops_below (level b) g1" "ops_from (level b) g2" "operand y"
  shows "a_helper dflt n (after (pre @ g1 @ g2) y) (Toper (bop_rtt b, bop_prio b, 1, 1)) E_operator =
    (True, await (pre @ g1 @ [Fop b (case g2 of
       Fop c xs # g \<Rightarrow> if c = b then xs @ [plug g y] else [plug g2 y] | _ \<Rightarrow> [y])]))"
proof -
  let ?fs = "pre @ g1 @ g2" let ?x = "plug ?fs y" let ?m = "length (pre @ g1)"
  let ?a = "(bop_rtt b, bop_prio b, 1::u32, 1::u8)"
  have high: "a_complete (a_at i ?x) \<and> (\<forall>r p ri pr xs. a_at i ?x = Node r p ri pr xs \<longrightarrow> \<not> p < bop_prio b)"
    if i: "?m \<le> i" "i < Suc (length ?fs)" for i
  proof -
    have at: "a_at i ?x = plug (drop (i - ?m) g2) y"
      using i by (simp add: drop_append)
    have o: "ops_from (level b) (drop (i - ?m) g2)" using assms(3) by (rule ops_from_drop)
    show ?thesis
    proof (cases "drop (i - ?m) g2")
      case Nil
      have "\<not> 5 < bop_prio b" by (metis bop_simps(6) order_less_asym)
      then show ?thesis using at Nil assms(4) by (cases y) auto
    next
      case (Cons f fs)
      then obtain c xs where "f = Fop c xs" "level b \<le> level c" using o by (auto simp: ops_from_def)
      then show ?thesis using at Cons plug_complete [OF o assms(4)] by auto
    qed
  qed
  have stop: "a_stop_scan ?x (Some ?a) (Suc (length ?fs)) = (if ?m = 0 then None else Some (?m - 1))"
  proof -
    have "a_stop_scan ?x (Some ?a) (Suc (length ?fs)) = a_stop_scan ?x (Some ?a) ?m"
      by (rule stop_scan_complete) (use high in \<open>auto simp del: a_at_plug\<close>)
    also have "\<dots> = (if ?m = 0 then None else Some (?m - 1))"
    proof (cases g1 rule: rev_cases)
      case (snoc g1' f)
      then obtain c xs where f: "f = Fop c xs" "level c < level b" using assms(2) by (auto simp: ops_below_def)
      have "a_at (length (pre @ g1')) ?x = plug (f # g2) y" using snoc by simp
      then show ?thesis using snoc f by (simp del: a_at_plug)
    next
      case Nil
      show ?thesis
      proof (cases pre rule: rev_cases)
        case (snoc pre' f)
        then have "f = Fopen" using assms(1) by (simp add: reach_def)
        moreover have "a_at (length pre') ?x = plug (f # g2) y" using snoc Nil by simp
        ultimately show ?thesis using snoc Nil by (simp del: a_at_plug)
      qed (use Nil in simp)
    qed
    finally show ?thesis .
  qed
  have same: "a_same_scan ?x (bop_rtt b) ?m (Suc ?m) = ?m"
  proof -
    have "a_same_scan ?x (bop_rtt b) ?m (Suc ?m) = a_same_scan ?x (bop_rtt b) ?m (length pre)"
    proof (rule same_scan_complete)
      fix i assume i: "length pre \<le> i" "i < Suc ?m"
      have "a_complete (plug g2 y)" using assms by (intro plug_complete)
      moreover have "ops_below (level b) (drop (i - length pre) g1)"
        using assms(2) by (auto simp: ops_below_def dest: in_set_dropD)
      ultimately have "a_complete (plug (drop (i - length pre) g1) (plug g2 y))" by (rule ops_below_complete [rotated])
      moreover have "a_at i ?x = plug (drop (i - length pre) g1 @ g2) y"
        using i by (simp add: drop_append)
      ultimately show "a_complete (a_at i ?x)" by (simp add: plug_append)
    qed simp
    also have "\<dots> = ?m"
    proof (cases pre rule: rev_cases)
      case (snoc pre' f)
      then have "f = Fopen" using assms(1) by (simp add: reach_def)
      moreover have "a_at (length pre') ?x = plug (f # g1 @ g2) y" using snoc by simp
      ultimately show ?thesis using snoc by (simp del: a_at_plug)
    qed simp
    finally show ?thesis .
  qed
  let ?z = "Fop b (case g2 of Fop c xs # g \<Rightarrow> if c = b then xs @ [plug g y] else [plug g2 y] | _ \<Rightarrow> [y])"
  have atm: "a_at ?m ?x = plug g2 y" and setm: "\<And>z. a_set ?m z ?x = plug (pre @ g1) z"
    by simp_all
  have place: "a_place ?a ?m ?x (Suc (length ?fs)) = (True, plug (pre @ g1) (open_node ?z), Suc ?m)"
  proof (cases g2)
    case Nil
    have "\<not> a_fixes ?a y" using assms(4) by (cases y) auto
    moreover have "a_complete y" using assms(4) by (cases y) auto
    ultimately show ?thesis using Nil by (simp add: a_place_def a_insert_def)
  next
    case (Cons f g)
    then obtain c xs where f: "f = Fop c xs" using assms(3) by (auto simp: ops_from_def)
    have "a_complete (plug g2 y)" using assms by (intro plug_complete)
    moreover have "a_fixes ?a (plug g2 y) \<longleftrightarrow> c = b" using Cons f by auto
    moreover have "c = b \<Longrightarrow> a_fix ?a (plug g2 y) = open_node ?z" using Cons f by simp
    moreover have "c \<noteq> b \<Longrightarrow> a_insert ?a (plug g2 y) = open_node ?z" using Cons f by (simp add: a_insert_def)
    ultimately show ?thesis
      unfolding a_place_def atm setm by auto
  qed
  have i: "(case (if ?m = 0 then None else Some (?m - 1)) of None \<Rightarrow> 0
      | Some i \<Rightarrow> if i \<noteq> Suc (length ?fs) - 1 then Suc i else i) = ?m"
  proof (cases ?m)
    case (Suc k)
    moreover have "length ?fs = ?m + length g2" by simp
    ultimately show ?thesis by simp
  qed simp
  have "a_helper dflt n (Some (?x, Suc (length ?fs))) (Toper ?a) E_operator =
      (True, Some (plug (pre @ g1) (open_node ?z), Suc ?m))"
    unfolding a_helper_def Let_def
    by (simp only: option.case prod.case token.case simp_thms if_False if_True place_as.simps stop i
        fst_conv Suc_eq_plus1 [symmetric] same place)
  then show ?thesis
    by (simp add: after_def await_def butlast_append)
qed

text \<open>A closing bracket finishes the innermost open one.\<close>

lemma place_close:
  assumes "ops_from 1 gs" "operand y"
  shows "a_helper dflt n (after (fs @ Fopen # gs) y) (Toper (7, 5, 0, 8)) E_operator =
    (True, after fs (Node 7 5 0 2 [plug gs y]))"
proof -
  let ?x = "plug (fs @ Fopen # gs) y" let ?m = "length fs" let ?d = "Suc (Suc (length fs + length gs))"
  have at: "a_at i ?x = plug (drop (i - Suc ?m) gs) y" if "Suc ?m \<le> i" "i < ?d" for i
    using that by (simp add: drop_Cons' drop_append)
  have comp: "a_complete (a_at i ?x)" if "Suc ?m \<le> i" "i < ?d" for i
    using at [OF that] plug_complete [OF ops_from_drop [OF assms(1)] assms(2)] by simp
  have atm: "a_at ?m ?x = Node 7 5 0 4 [plug gs y]" by simp
  have stop: "\<exists>i. a_stop_scan ?x (Some (7, 5, 0, 8)) ?d = Some i \<and> (if i \<noteq> ?d - 1 then Suc i else i) = Suc ?m + length gs"
  proof (cases gs rule: rev_cases)
    case Nil
    have "a_at (Suc ?m) ?x = y" using at [of "Suc ?m"] Nil by simp
    then have "a_stop_scan ?x (Some (7, 5, 0, 8)) ?d = a_stop_scan ?x (Some (7, 5, 0, 8)) (Suc ?m)"
      using assms(2) Nil by (cases y) auto
    then show ?thesis using atm Nil by simp
  next
    case (snoc g f)
    obtain c xs where f: "f = Fop c xs" using assms(1) snoc by (auto simp: ops_from_def)
    have "a_at (Suc ?m + length gs) ?x = y" using at [of "Suc ?m + length gs"] by simp
    then have "a_stop_scan ?x (Some (7, 5, 0, 8)) ?d = a_stop_scan ?x (Some (7, 5, 0, 8)) (Suc ?m + length gs)"
      using assms(2) by (cases y) auto
    moreover have "a_at (?m + length gs) ?x = plug [f] y"
      using at [of "?m + length gs"] snoc by simp
    moreover have "Suc ?m + length gs = Suc (?m + length gs)" by simp
    ultimately have "a_stop_scan ?x (Some (7, 5, 0, 8)) ?d = Some (?m + length gs)"
      using f comp [of "?m + length gs"] snoc by simp
    then show ?thesis by simp
  qed
  then obtain i where stop: "a_stop_scan ?x (Some (7, 5, 0, 8)) ?d = Some i"
      "(if i \<noteq> ?d - 1 then Suc i else i) = Suc ?m + length gs" by blast
  have same: "a_same_scan ?x 7 (Suc ?m + length gs) (Suc (Suc ?m + length gs)) = ?m"
  proof -
    have "a_same_scan ?x 7 (Suc ?m + length gs) (Suc (Suc ?m + length gs)) =
        a_same_scan ?x 7 (Suc ?m + length gs) (Suc ?m)"
      by (rule same_scan_complete) (use comp in auto)
    also have "\<dots> = ?m" using atm by simp
    finally show ?thesis .
  qed
  have place: "a_place (7, 5, 0, 8) ?m ?x ?d = (True, plug fs (Node 7 5 0 2 [plug gs y]), Suc ?m)"
    using atm by (simp add: a_place_def)
  have "a_helper dflt n (Some (?x, ?d)) (Toper (7, 5, 0, 8)) E_operator =
      (True, Some (plug fs (Node 7 5 0 2 [plug gs y]), Suc ?m))"
    unfolding a_helper_def Let_def
    by (simp only: option.case prod.case token.case simp_thms if_False if_True place_as.simps stop
        fst_conv Suc_eq_plus1 [symmetric] same place)
  then show ?thesis by (simp add: after_def)
qed

section \<open>Reading a token\<close>

lemma readers_skip:
  "(\<And>lx. lx \<in> set lxs \<Longrightarrow> lx s = Some Read_error) \<Longrightarrow>
    readers_parse lim dflt (lxs @ lys) t s code = readers_parse lim dflt lys t s code"
proof (induction lxs)
  case (Cons lx lxs)
  have "readers_parse lim dflt (lxs @ lys) t s code = readers_parse lim dflt lys t s code"
    by (rule Cons.IH) (use Cons.prems in auto)
  moreover have "lx s = Some Read_error" using Cons.prems by simp
  ultimately show ?case by simp
qed simp

lemma rep_depth: "rep t (Some (x, d)) \<Longrightarrow> length (node_address t) \<le> d"
proof -
  have "length (spine d g) \<le> d" for d g
    by (induction d g rule: spine.induct) auto
  then show "rep t (Some (x, d)) \<Longrightarrow> length (node_address t) \<le> d"
    by (auto simp: rep_def layout_def)
qed

text \<open>Enough room for a text of the given length.\<close>

definition limits_for :: "nat \<Rightarrow> limits \<Rightarrow> bool" where
  "limits_for n lim \<longleftrightarrow> n < depth_limit lim \<and> 2 * n \<le> expression_size_limit lim \<and> n \<le> buffer_size_limit lim"

text \<open>A state of the parser in the middle of a text.\<close>

definition parsed :: "string \<Rightarrow> (ast \<times> nat) option \<Rightarrow> expression_tree \<Rightarrow> bool" where
  "parsed seen st t \<longleftrightarrow> rep t st \<and> expression_string t = seen \<and> length (memory t) \<le> 2 * length seen"

definition math_loop ::
  "limits \<Rightarrow> (string \<Rightarrow> nat) \<Rightarrow> expression_tree \<Rightarrow> string \<Rightarrow> (bool \<times> expression_tree \<times> string) option" where
  "math_loop lim strtod = stream_loop lim (default_operator (Some math_default)) (math_lexers strtod)"

lemma math_step:
  assumes t: "parsed seen st t" and lim: "limits_for n lim" "length (seen @ s @ rest) \<le> n" "n < 2 ^ 27" "s \<noteq> []"
    and lx: "k < length lexers" "\<forall>l \<in> set (take k lexers). l (s @ rest) = Some Read_error"
      "(lexers ! k) (s @ rest) = Some (Read_success (length s) (data_of tok) place)"
    and place: "place = E_operator \<longrightarrow> (\<exists>a. tok = Toper a)"
      "a_helper (Some dflt) (length seen) st tok place = (True, Some (x, d))" "d \<le> Suc (length (seen @ s))"
  shows "\<exists>t'. stream_loop lim (default_operator (Some dflt)) lexers t (s @ rest) =
      stream_loop lim (default_operator (Some dflt)) lexers t' rest \<and> parsed (seen @ s) (Some (x, d)) t'"
proof -
  have room: "Suc (length (memory t)) < 2 ^ 32" using t lim by (simp add: parsed_def)
  obtain t1 where t1: "parse_helper (default_operator (Some dflt)) t (data_of tok) place = Some (True, t1)"
      "rep t1 (Some (x, d))" "length (memory t1) \<le> length (memory t) + 2" "expression_string t1 = expression_string t"
    using parse_helper_refines_aux [of t st place tok "Some dflt"] t room place
    by (auto simp: parsed_def default_operator_data dflt_data_def)
  let ?t = "t1\<lparr>expression_string := seen @ s\<rparr>"
  have depth: "length (node_address t1) \<le> depth_limit lim"
    using rep_depth [OF t1(2)] lim place(3) by (simp add: limits_for_def)
  have len: "1 \<le> length s" using lim(4) by (cases s) auto
  have mem: "length (memory t1) \<le> 2 * length (seen @ s)"
    using t t1(3) len by (simp add: parsed_def)
  have size: "length (memory t1) \<le> expression_size_limit lim" "length seen + length s \<le> buffer_size_limit lim"
    using mem lim by (auto simp: limits_for_def)
  have "readers_parse lim (default_operator (Some dflt)) lexers t (s @ rest) False = Some (True, ?t, length s)"
    using lx(2,3) t1 depth size lim(4) t
    by (subst id_take_nth_drop [OF lx(1)], subst readers_skip) (auto simp: parsed_def)
  then have "stream_loop lim (default_operator (Some dflt)) lexers t (s @ rest) =
      stream_loop lim (default_operator (Some dflt)) lexers ?t rest"
    using lim(4) by (subst stream_loop.simps) (simp add: parse_token_def)
  moreover have "parsed (seen @ s) (Some (x, d)) ?t"
    using t1(2) mem by (simp add: parsed_def)
  ultimately show ?thesis by blast
qed

text \<open>What is relied on of \<open>std::strtod\<close>: it takes decimal digits up to an operator or a bracket or the
  end of the text, and nothing where the text begins with one that is no sign.\<close>

definition follows :: "string \<Rightarrow> bool" where
  "follows rest \<longleftrightarrow> rest = [] \<or> hd rest \<in> set ''+-*/^()''"

definition strtod_ok :: "(string \<Rightarrow> nat) \<Rightarrow> bool" where
  "strtod_ok strtod \<longleftrightarrow>
     (\<forall>ds rest. digits ds \<longrightarrow> follows rest \<longrightarrow> strtod (ds @ rest) = length ds) \<and>
     (\<forall>c rest. c \<in> set ''*/^()'' \<longrightarrow> strtod (c # rest) = 0)"

lemmas math_parses = discard_lexer_base_def discard_parse_def standard_white_space_set_def
  operator_lexer_base_def value_lexer_base_def binary_operator_plus_parse_def binary_operator_minus_parse_def
  binary_operator_multiply_parse_def binary_operator_divide_parse_def binary_operator_power_parse_def
  bracket_parse_def unary_operator_plus_parse_def math_number_parse_def

lemma math_lexers_length [simp]: "length (math_lexers strtod) = 9"
  by (simp add: math_lexers_def)

lemma operator_chars: "bop_char b \<in> set ''+-*/^()''" "bop_char b \<noteq> CHR '' ''"
  by (cases b; simp)+

lemma step_number:
  assumes ok: "strtod_ok strtod" and ds: "digits ds" "follows rest"
    and lim: "limits_for n lim" "length (seen @ ds @ rest) \<le> n" "n < 2 ^ 27"
    and t: "parsed seen (await fs) t" "length fs \<le> length seen"
  shows "\<exists>t'. math_loop lim strtod t (ds @ rest) = math_loop lim strtod t' rest \<and>
    parsed (seen @ ds) (after fs (Leaf 3 (of_nat (length seen)) (of_nat (length ds)))) t'"
proof -
  obtain c cs where c: "ds = c # cs" "c \<in> set ''0123456789''" using ds(1) by (cases ds) (auto simp: digits_def)
  have n: "strtod (ds @ rest) = length ds" using ok ds by (simp add: strtod_ok_def)
  let ?tok = "Tvalue 3 (of_nat (length ds))"
  have "\<forall>l \<in> set (take 3 (math_lexers strtod)). l (ds @ rest) = Some Read_error"
    and "(math_lexers strtod ! 3) (ds @ rest) = Some (Read_success (length ds) (data_of ?tok) E_value)"
    using c n by (auto simp: math_lexers_def math_parses)
  from math_step [where s = "ds" and k = 3 and rest = rest and lexers = "math_lexers strtod",
      OF t(1) lim _ _ this _ place_value [unfolded after_def]] c t(2) show ?thesis
    by (simp add: after_def math_loop_def)
qed

lemma step_open:
  assumes ok: "strtod_ok strtod"
    and lim: "limits_for n lim" "length (seen @ ''('' @ rest) \<le> n" "n < 2 ^ 27"
    and t: "parsed seen (await fs) t" "length fs \<le> length seen"
  shows "\<exists>t'. math_loop lim strtod t (''('' @ rest) = math_loop lim strtod t' rest \<and>
    parsed (seen @ ''('') (await (fs @ [Fopen])) t'"
proof -
  have n: "strtod (CHR ''('' # rest) = 0" using ok by (simp add: strtod_ok_def)
  let ?tok = "Toper (7, 5, 1, 4)"
  have a: "await (fs @ [Fopen]) = Some (plug fs (Node 7 5 1 4 []), Suc (length fs))" by (simp add: await_def)
  have "\<forall>l \<in> set (take 7 (math_lexers strtod)). l (''('' @ rest) = Some Read_error"
    and "(math_lexers strtod ! 7) (''('' @ rest) = Some (Read_success (length ''('') (data_of ?tok) E_value)"
    using n by (auto simp: math_lexers_def math_parses data_of.simps)
  from math_step [where s = "''(''" and k = 7 and rest = rest and lexers = "math_lexers strtod",
      OF t(1) lim _ _ this _ place_open [of _ fs, unfolded a]] t(2) show ?thesis
    by (simp add: a math_loop_def)
qed

lemma step_close:
  assumes ok: "strtod_ok strtod" "ops_from 1 gs" "operand y"
    and lim: "limits_for n lim" "length (seen @ '')'' @ rest) \<le> n" "n < 2 ^ 27"
    and t: "parsed seen (after (fs @ Fopen # gs) y) t" "length fs \<le> length seen"
  shows "\<exists>t'. math_loop lim strtod t ('')'' @ rest) = math_loop lim strtod t' rest \<and>
    parsed (seen @ '')'') (after fs (Node 7 5 0 2 [plug gs y])) t'"
proof -
  have n: "strtod (CHR '')'' # rest) = 0" using ok by (simp add: strtod_ok_def)
  let ?tok = "Toper (7, 5, 0, 8)"
  have "\<forall>l \<in> set (take 7 (math_lexers strtod)). l ('')'' @ rest) = Some Read_error"
    and "(math_lexers strtod ! 7) ('')'' @ rest) = Some (Read_success (length '')'') (data_of ?tok) E_operator)"
    using n by (auto simp: math_lexers_def math_parses data_of.simps)
  from math_step [where s = "'')''" and k = 7 and rest = rest and lexers = "math_lexers strtod",
      OF t(1) lim _ _ this _ place_close [OF ok(2,3), where fs = fs, unfolded after_def [of fs]]] t(2) show ?thesis
    by (simp add: after_def math_loop_def)
qed

text \<open>The operands that a new operator takes over.\<close>

definition taken :: "bop \<Rightarrow> frame list \<Rightarrow> ast \<Rightarrow> ast list" where
  "taken b gs y =
     (case gs of Fop c xs # g \<Rightarrow> if c = b then xs @ [plug g y] else [plug gs y] | _ \<Rightarrow> [y])"

lemma read_binary:
  assumes "strtod_ok strtod"
  shows "\<exists>k. k < 9 \<and> (\<forall>l \<in> set (take k (math_lexers strtod)). l ([bop_char b] @ rest) = Some Read_error) \<and>
    (math_lexers strtod ! k) ([bop_char b] @ rest) =
      Some (Read_success (length [bop_char b]) (data_of (Toper (bop_rtt b, bop_prio b, 1, 1))) E_operator)"
proof -
  have n: "strtod (c # rest) = 0" if "c \<in> set ''*/^()''" for c using assms that unfolding strtod_ok_def by blast
  let ?k = "case b of Plus \<Rightarrow> 1 | Minus \<Rightarrow> 2 | Times \<Rightarrow> 4 | Divide \<Rightarrow> 5 | Power \<Rightarrow> (6::nat)"
  have "\<forall>l \<in> set (take ?k (math_lexers strtod)). l ([bop_char b] @ rest) = Some Read_error"
    using n by (cases b) (auto simp: math_lexers_def math_parses)
  moreover have "(math_lexers strtod ! ?k) ([bop_char b] @ rest) =
      Some (Read_success (length [bop_char b]) (data_of (Toper (bop_rtt b, bop_prio b, 1, 1))) E_operator)"
    by (cases b) (auto simp: math_lexers_def math_parses data_of.simps bop_rtt_def bop_prio_def)
  moreover have "?k < 9" by (cases b) auto
  ultimately show ?thesis by blast
qed

lemma step_binary:
  assumes ok: "strtod_ok strtod" "reach pre" "ops_below (level b) g1" "ops_from (level b) g2" "operand y"
    and lim: "limits_for n lim" "length (seen @ [bop_char b] @ rest) \<le> n" "n < 2 ^ 27"
    and t: "parsed seen (after (pre @ g1 @ g2) y) t" "length (pre @ g1) \<le> length seen"
  shows "\<exists>t'. math_loop lim strtod t ([bop_char b] @ rest) = math_loop lim strtod t' rest \<and>
    parsed (seen @ [bop_char b]) (await (pre @ g1 @ [Fop b (taken b g2 y)])) t'"
proof -
  let ?fs = "pre @ g1 @ [Fop b (taken b g2 y)]"
  have a: "await ?fs = Some (plug (butlast ?fs) (open_node (last ?fs)), length ?fs)" by (simp add: await_def)
  obtain k where k: "k < 9" "\<forall>l \<in> set (take k (math_lexers strtod)). l ([bop_char b] @ rest) = Some Read_error"
      "(math_lexers strtod ! k) ([bop_char b] @ rest) =
        Some (Read_success (length [bop_char b]) (data_of (Toper (bop_rtt b, bop_prio b, 1, 1))) E_operator)"
    using read_binary [OF ok(1)] by metis
  have "length ?fs \<le> Suc (length (seen @ [bop_char b]))" using t(2) by simp
  then show ?thesis
    using math_step [where s = "[bop_char b]" and k = k and rest = rest and lexers = "math_lexers strtod",
      OF t(1) lim _ _ k(2,3) _ place_binary [OF ok(2-5), folded taken_def, unfolded a]] k(1)
    by (simp add: a math_loop_def)
qed

section \<open>A whole expression\<close>

lemma follows_chain: "follows rest \<Longrightarrow> follows (render_chain r @ rest)"
  using operator_chars(1) by (cases r) (auto simp: follows_def)

lemma tree_value_op:
  "tree_value num ap text (Node (bop_rtt b) p ri pr xs) = folded (ap b) (map (tree_value num ap text) xs)"
  by simp

lemma folded_snoc: "xs \<noteq> [] \<Longrightarrow> folded f (xs @ [x]) = f (folded f xs) x"
  by (cases xs) auto

text \<open>The operands that are taken over have the value of what was read so far.\<close>

lemma taken_value:
  assumes "ops_from p gs"
  shows "taken b gs y \<noteq> []"
    "folded (ap b) (map (tree_value num ap text) (taken b gs y)) = tree_value num ap text (plug gs y)"
  using assms by (cases gs; auto simp: taken_def ops_from_def split: if_splits)+

lemma ops_from_mono: "ops_from q fs \<Longrightarrow> p \<le> q \<Longrightarrow> ops_from p fs"
  by (fastforce simp: ops_from_def)

lemma ops_below_mono: "ops_below p fs \<Longrightarrow> p \<le> q \<Longrightarrow> ops_below q fs"
  by (fastforce simp: ops_below_def)

text \<open>The state after an operand: the operators above it that came with it, and its value.\<close>

definition has_read ::
  "(string \<Rightarrow> 'a) \<Rightarrow> (bop \<Rightarrow> 'a \<Rightarrow> 'a \<Rightarrow> 'a) \<Rightarrow> nat \<Rightarrow> frame list \<Rightarrow> 'a \<Rightarrow> string \<Rightarrow> expression_tree \<Rightarrow> bool" where
  "has_read num ap p fs v seen t \<longleftrightarrow>
     (\<exists>gs y. parsed seen (after (fs @ gs) y) t \<and> ops_from p gs \<and> operand y \<and> length (fs @ gs) \<le> length seen \<and>
       (\<forall>more. tree_value num ap (seen @ more) (plug gs y) = v))"

lemma has_readI:
  "parsed seen (after (fs @ gs) y) t \<Longrightarrow> ops_from p gs \<Longrightarrow> operand y \<Longrightarrow> length (fs @ gs) \<le> length seen \<Longrightarrow>
    (\<And>more. tree_value num ap (seen @ more) (plug gs y) = v) \<Longrightarrow> has_read num ap p fs v seen t"
  unfolding has_read_def by blast

text \<open>An operator of the same level and what follows it.\<close>

lemma has_read_more:
  assumes ok: "strtod_ok strtod" "reach pre" "ops_below p g1" "level b = p"
    and lim: "limits_for n lim" "length (seen @ [bop_char b] @ rest) \<le> n" "n < 2 ^ 27"
    and t: "has_read num ap p (pre @ g1) v seen t"
  obtains t' xs where
    "math_loop lim strtod t ([bop_char b] @ rest) = math_loop lim strtod t' rest"
    "parsed (seen @ [bop_char b]) (await (pre @ g1 @ [Fop b xs])) t'" "xs \<noteq> []"
    "length (pre @ g1 @ [Fop b xs]) \<le> length (seen @ [bop_char b])"
    "\<And>more. folded (ap b) (map (tree_value num ap (seen @ more)) xs) = v"
proof -
  obtain gs y where gs: "parsed seen (after ((pre @ g1) @ gs) y) t" "ops_from p gs" "operand y"
      "length ((pre @ g1) @ gs) \<le> length seen" "\<And>more. tree_value num ap (seen @ more) (plug gs y) = v"
    using t unfolding has_read_def by blast
  have "ops_below (level b) g1" "ops_from (level b) gs" "parsed seen (after (pre @ g1 @ gs) y) t"
      "length (pre @ g1) \<le> length seen"
    using ok gs by simp_all
  from step_binary [OF ok(1,2) this(1,2) gs(3) lim this(3,4)] obtain t' where
      "math_loop lim strtod t ([bop_char b] @ rest) = math_loop lim strtod t' rest"
      "parsed (seen @ [bop_char b]) (await (pre @ g1 @ [Fop b (taken b gs y)])) t'"
    by blast
  then show ?thesis
    using gs(4,5) by (intro that) (auto simp: taken_value [OF gs(2)])
qed

text \<open>The operand that follows joins the operands of the operator.\<close>

lemma has_read_join:
  assumes t: "has_read num ap (Suc p) (fs @ [Fop b xs]) w (seen @ s) t" and xs: "xs \<noteq> []" "level b = p"
    and v: "\<And>more. folded (ap b) (map (tree_value num ap (seen @ more)) xs) = v"
  shows "has_read num ap p fs (ap b v w) (seen @ s) t"
proof -
  obtain gs y where gs: "parsed (seen @ s) (after ((fs @ [Fop b xs]) @ gs) y) t" "ops_from (Suc p) gs" "operand y"
      "length ((fs @ [Fop b xs]) @ gs) \<le> length (seen @ s)"
      "\<And>more. tree_value num ap ((seen @ s) @ more) (plug gs y) = w"
    using t unfolding has_read_def by blast
  have "ops_from p (Fop b xs # gs)"
    using ops_from_mono [OF gs(2), of p] xs by (auto simp: ops_from_def)
  moreover have "tree_value num ap ((seen @ s) @ more) (plug (Fop b xs # gs) y) = ap b v w" for more
    using v [of "s @ more"] gs(5) [of more] xs(1) by (simp add: folded_snoc)
  ultimately show ?thesis
    using gs by (intro has_readI [where gs = "Fop b xs # gs"]) auto
qed

lemma parse_operand:
  assumes ok: "strtod_ok strtod" and n: "limits_for n lim" "n < 2 ^ 27"
  shows "grammar e p \<Longrightarrow> reach pre \<Longrightarrow> ops_below p g1 \<Longrightarrow> parsed seen (await (pre @ g1)) t \<Longrightarrow>
      length (pre @ g1) \<le> length seen \<Longrightarrow> follows rest \<Longrightarrow> length (seen @ render e @ rest) \<le> n \<Longrightarrow>
      \<exists>t'. math_loop lim strtod t (render e @ rest) = math_loop lim strtod t' rest \<and>
        has_read num ap p (pre @ g1) (expr_value num ap e) (seen @ render e) t'"
    and "grammar_chain r p \<Longrightarrow> reach pre \<Longrightarrow> ops_below p g1 \<Longrightarrow> has_read num ap p (pre @ g1) v seen t \<Longrightarrow>
      follows rest \<Longrightarrow> length (seen @ render_chain r @ rest) \<le> n \<Longrightarrow>
      \<exists>t'. math_loop lim strtod t (render_chain r @ rest) = math_loop lim strtod t' rest \<and>
        has_read num ap p (pre @ g1) (chain_value num ap r v) (seen @ render_chain r) t'"
proof (induction e and r arbitrary: p pre g1 seen t rest and p pre g1 v seen t rest rule: expr.induct chain.induct)
  case (Num ds)
  let ?y = "Leaf 3 (of_nat (length seen)) (of_nat (length ds))"
  obtain t' where t': "math_loop lim strtod t (ds @ rest) = math_loop lim strtod t' rest"
      "parsed (seen @ ds) (after ((pre @ g1) @ []) ?y) t'"
    using step_number [OF ok _ Num.prems(6) n(1) _ n(2) Num.prems(4,5)] Num.prems(1,7) by auto
  have "length seen < 2 ^ 32" "length ds < 2 ^ 32" using Num.prems(7) n(2) by auto
  then have "unat (of_nat (length seen) :: u32) = length seen" "unat (of_nat (length ds) :: u32) = length ds"
    by (simp_all add: unat_of_nat take_bit_nat_eq_self)
  then have "has_read num ap p (pre @ g1) (num ds) (seen @ ds) t'"
    using Num.prems(5) by (intro has_readI [OF t'(2)]) (auto simp: ops_from_def)
  then show ?case using t'(1) by auto
next
  case (Paren e)
  have g: "p = 4" "grammar e 1" using Paren.prems(1) by simp_all
  obtain t1 where t1: "math_loop lim strtod t (''('' @ (render e @ '')'' @ rest)) = math_loop lim strtod t1 (render e @ '')'' @ rest)"
      "parsed (seen @ ''('') (await ((pre @ g1) @ [Fopen])) t1"
    using step_open [OF ok n(1) _ n(2) Paren.prems(4,5), of "render e @ '')'' @ rest"] Paren.prems(7) by auto
  have "\<exists>t'. math_loop lim strtod t1 (render e @ '')'' @ rest) = math_loop lim strtod t' ('')'' @ rest) \<and>
      has_read num ap 1 ((pre @ g1 @ [Fopen]) @ []) (expr_value num ap e) ((seen @ ''('') @ render e) t'"
    by (rule Paren.IH [OF g(2)])
       (use t1 Paren.prems(5,7) in \<open>auto simp: reach_def ops_below_def follows_def\<close>)
  then obtain t2 gs y where t2: "math_loop lim strtod t1 (render e @ '')'' @ rest) = math_loop lim strtod t2 ('')'' @ rest)"
      "parsed ((seen @ ''('') @ render e) (after (pre @ g1 @ Fopen # gs) y) t2" "ops_from 1 gs" "operand y"
      "\<And>more. tree_value num ap (((seen @ ''('') @ render e) @ more) (plug gs y) = expr_value num ap e"
    unfolding has_read_def by auto
  obtain t3 where t3: "math_loop lim strtod t2 ('')'' @ rest) = math_loop lim strtod t3 rest"
      "parsed (((seen @ ''('') @ render e) @ '')'') (after (pre @ g1) (Node 7 5 0 2 [plug gs y])) t3"
    using step_close [OF ok t2(3,4) n(1) _ n(2), of "(seen @ ''('') @ render e" rest "pre @ g1" t2] t2(2)
      Paren.prems(5,7) by auto
  have "has_read num ap p (pre @ g1) (expr_value num ap e) (((seen @ ''('') @ render e) @ '')'') t3"
  proof (rule has_readI [where gs = "[]"])
    show "parsed (((seen @ ''('') @ render e) @ '')'') (after ((pre @ g1) @ []) (Node 7 5 0 2 [plug gs y])) t3"
      using t3(2) by simp
    show "tree_value num ap ((((seen @ ''('') @ render e) @ '')'') @ more) (plug [] (Node 7 5 0 2 [plug gs y])) =
        expr_value num ap e" for more
      using t2(5) [of "'')'' @ more"] by simp
  qed (use Paren.prems(5) in \<open>auto simp: ops_from_def\<close>)
  then show ?case using t1(1) t2(1) t3(1) by auto
next
  case (Chain e r)
  have g: "grammar e (Suc p)" "grammar_chain r p" using Chain.prems(1) by simp_all
  have below: "ops_below (Suc p) g1" using Chain.prems(3) by (rule ops_below_mono) simp
  obtain t1 where t1: "math_loop lim strtod t (render e @ render_chain r @ rest) = math_loop lim strtod t1 (render_chain r @ rest)"
      "has_read num ap (Suc p) (pre @ g1) (expr_value num ap e) (seen @ render e) t1"
    using Chain.IH(1) [OF g(1) Chain.prems(2) below Chain.prems(4,5) follows_chain [OF Chain.prems(6)], of r]
      Chain.prems(7) by auto
  have "has_read num ap p (pre @ g1) (expr_value num ap e) (seen @ render e) t1"
    using t1(2) ops_from_mono [of "Suc p" _ p] unfolding has_read_def by fastforce
  from Chain.IH(2) [OF g(2) Chain.prems(2,3) this Chain.prems(6)] Chain.prems(7) t1(1)
  show ?case by auto
next
  case End
  then show ?case by auto
next
  case (More b e r)
  have g: "level b = p" "grammar e (Suc p)" "grammar_chain r p" using More.prems(1) by simp_all
  let ?rest = "render e @ render_chain r @ rest"
  obtain t1 xs where t1: "math_loop lim strtod t ([bop_char b] @ ?rest) = math_loop lim strtod t1 ?rest"
      "parsed (seen @ [bop_char b]) (await (pre @ g1 @ [Fop b xs])) t1" "xs \<noteq> []"
      "length (pre @ g1 @ [Fop b xs]) \<le> length (seen @ [bop_char b])"
      "\<And>more. folded (ap b) (map (tree_value num ap (seen @ more)) xs) = v"
    by (rule has_read_more [OF ok More.prems(2,3) g(1) n(1) _ n(2) More.prems(4), of ?rest])
       (use More.prems(6) in auto)
  have "ops_below (Suc p) (g1 @ [Fop b xs])"
    using More.prems(3) g(1) t1(3) by (fastforce simp: ops_below_def)
  from More.IH(1) [OF g(2) More.prems(2) this t1(2) _ follows_chain [OF More.prems(5)], of r] t1(4) More.prems(6)
  obtain t2 where t2: "math_loop lim strtod t1 ?rest = math_loop lim strtod t2 (render_chain r @ rest)"
      "has_read num ap (Suc p) (pre @ g1 @ [Fop b xs]) (expr_value num ap e) ((seen @ [bop_char b]) @ render e) t2"
    by auto
  have "has_read num ap p (pre @ g1) (ap b v (expr_value num ap e)) (seen @ ([bop_char b] @ render e)) t2"
    by (rule has_read_join [OF _ t1(3) g(1) t1(5)]) (use t2(2) in simp)
  from More.IH(2) [OF g(3) More.prems(2,3) this More.prems(5)] More.prems(6) t1(1) t2(1)
  show ?case by auto
qed

lemma all_complete_path:
  "layout t g d \<Longrightarrow> k \<le> d \<Longrightarrow> \<forall>i < k. a_complete (a_at i (ast_of (memory t) g)) \<Longrightarrow> all_complete t k = Some True"
proof (induction k)
  case (Suc k)
  then show ?case
    using layout_fetch [of t g d k] layout_in_memory [of t g d k] layout_complete [of t g d k]
    by (simp add: node_of_def) (simp add: fetch_def)
qed simp

lemma render_not_empty: "grammar e p \<Longrightarrow> render e \<noteq> []" and "grammar_chain r p \<Longrightarrow> True"
  by (induction e and r arbitrary: p and p rule: expr.induct chain.induct) (auto simp: digits_def)

lemma rep_root:
  assumes "rep t (Some (x, d))" "\<forall>i < d. a_complete (a_at i x)"
  shows "tree_complete t = Some True"
    "rep (if length (node_address t) > 1 then t\<lparr>node_address := take 1 (node_address t)\<rparr> else t) (Some (x, 1))"
proof -
  obtain g where g: "layout t g d" "x = ast_of (memory t) g" using assms(1) by (auto simp: rep_def)
  then have "0 < d" by (simp add: layout_def)
  show "tree_complete t = Some True"
    using all_complete_path [OF g(1)] assms(2) g by (simp add: tree_complete_def layout_not_empty)
  show "rep (if length (node_address t) > 1 then t\<lparr>node_address := take 1 (node_address t)\<rparr> else t) (Some (x, 1))"
  proof -
    obtain a cs e where "g = G a cs" "d = Suc e" using \<open>0 < d\<close> by (cases g; cases d) auto
    then show ?thesis using g by (auto simp: rep_def layout_def intro!: exI [of _ g])
  qed
qed

section \<open>Properties\<close>

text \<open>C6: an arithmetic expression is parsed as the grammar has it: for any expression of sums, products,
  powers, numbers and brackets, \<open>parse_full\<close> takes its whole text and leaves a complete tree that,
  worked out from the left at every node, has the value of the expression, whatever numbers and
  operations stand for.\<close>

theorem math_parse_value:
  assumes "strtod_ok strtod" "grammar e 1" "limits_for (length (render e)) lim" "length (render e) < 2 ^ 27"
  shows "\<exists>t x. parse_full lim (default_operator (Some math_default)) (math_lexers strtod) tree_new (render e) = Some (True, t) \<and>
    rep t (Some (x, 1)) \<and> expression_string t = render e \<and>
    tree_value num ap (expression_string t) x = expr_value num ap e"
proof -
  let ?lim = "lim\<lparr>not_yet_parsed_size_limit := 0\<rparr>"
  have lim: "limits_for (length (render e)) ?lim" using assms(3) by (simp add: limits_for_def)
  have "parsed [] (await ([] @ [])) tree_new" by (simp add: parsed_def await_def rep_def tree_new_def)
  from parse_operand(1) [OF assms(1) lim assms(4,2) _ _ this, of "[]" num ap]
  obtain t where t: "math_loop ?lim strtod tree_new (render e) = math_loop ?lim strtod t []"
      "has_read num ap 1 [] (expr_value num ap e) (render e) t"
    by (auto simp: reach_def ops_below_def follows_def)
  then obtain gs y where gs: "parsed (render e) (after gs y) t" "ops_from 1 gs" "operand y"
      "\<And>more. tree_value num ap (render e @ more) (plug gs y) = expr_value num ap e"
    unfolding has_read_def by auto
  have rep: "rep t (Some (plug gs y, Suc (length gs)))" and str: "expression_string t = render e"
    using gs(1) by (simp_all add: parsed_def after_def)
  have complete: "\<forall>i < Suc (length gs). a_complete (a_at i (plug gs y))"
    using plug_complete [OF ops_from_drop [OF gs(2)] gs(3)] by simp
  have "math_loop ?lim strtod t [] = Some (True, t, [])"
    unfolding math_loop_def by (subst stream_loop.simps) (simp add: parse_token_def)
  then have "parse_full lim (default_operator (Some math_default)) (math_lexers strtod) tree_new (render e) =
      Some (True, if length (node_address t) > 1 then t\<lparr>node_address := take 1 (node_address t)\<rparr> else t)"
    using rep_root(1) [OF rep complete] render_not_empty [OF assms(2)] t(1)
    by (simp add: parse_full_def parse_stream_def math_loop_def)
  then show ?thesis
    using rep_root(2) [OF rep complete] gs(4) [of "[]"] str by auto
qed

text \<open>An instance of \<open>strtod\<close> and of numbers for the witness.\<close>

definition leading_digits :: "string \<Rightarrow> nat" where
  "leading_digits s = length (takeWhile (\<lambda>c. c \<in> set ''0123456789'') s)"

lemma leading_digits_ok: "strtod_ok leading_digits"
proof -
  have "leading_digits (ds @ rest) = length ds" if "digits ds" "follows rest" for ds rest
  proof -
    have "takeWhile (\<lambda>c. c \<in> set ''0123456789'') rest = []"
      using that(2) by (cases rest) (auto simp: follows_def)
    then show ?thesis using that(1) unfolding leading_digits_def digits_def
      by (subst takeWhile_append2) auto
  qed
  then show ?thesis by (auto simp: strtod_ok_def leading_digits_def)
qed

definition decimal :: "string \<Rightarrow> int" where
  "decimal s = foldl (\<lambda>n c. 10 * n + (of_char c - 48)) 0 s"

definition calculate :: "bop \<Rightarrow> int \<Rightarrow> int \<Rightarrow> int" where
  "calculate b x y = (case b of Plus \<Rightarrow> x + y | Minus \<Rightarrow> x - y | Times \<Rightarrow> x * y | Divide \<Rightarrow> x div y | Power \<Rightarrow> x ^ nat y)"

text \<open>\<open>10-2-3*2^(1+1)\<close>, which is -4.\<close>

definition example_factor :: "string \<Rightarrow> expr" where
  "example_factor s = Chain (Num s) End"

definition example_sum :: expr where
  "example_sum = Chain (Chain (example_factor ''10'') End)
     (More Minus (Chain (example_factor ''2'') End)
     (More Minus (Chain (example_factor ''3'')
        (More Times (Chain (Num ''2'') (More Power (Paren (Chain (Chain (example_factor ''1'') End)
            (More Plus (Chain (example_factor ''1'') End) End))) End)) End)) End))"

theorem math_parse_value_witness:
  "render example_sum = ''10-2-3*2^(1+1)'' \<and> expr_value decimal calculate example_sum = - 4 \<and>
   (\<exists>t x. parse_full \<lparr>not_yet_parsed_size_limit = 8, depth_limit = 64, expression_size_limit = 64, buffer_size_limit = 64\<rparr>
      (default_operator (Some math_default)) (math_lexers leading_digits) tree_new (render example_sum) = Some (True, t) \<and>
    rep t (Some (x, 1)) \<and> tree_value decimal calculate (expression_string t) x = - 4)"
proof -
  have r: "render example_sum = ''10-2-3*2^(1+1)''" by (simp add: example_sum_def example_factor_def)
  have v: "expr_value decimal calculate example_sum = - 4"
    by (simp add: example_sum_def example_factor_def decimal_def calculate_def)
  have "grammar example_sum 1" by (simp add: example_sum_def example_factor_def digits_def)
  from math_parse_value [OF leading_digits_ok this, of
      "\<lparr>not_yet_parsed_size_limit = 8, depth_limit = 64, expression_size_limit = 64, buffer_size_limit = 64\<rparr>" decimal calculate]
  show ?thesis using r v by (auto simp: limits_for_def)
qed

end
