(* ===== verification/Idl_Text.thy ===== *)
theory Idl_Text
  imports Main
begin

text \<open>
  Pieces of text the generator of \<open>src/idl\<close> writes, and the nesting of the braces of a text: what
  generated code has to keep whatever it is made of.
\<close>

definition nl :: string where "nl = [CHR 0x0A]"
definition dq :: string where "dq = [CHR 0x22]"
definition bs :: string where "bs = [CHR 0x5C]"

text \<open>The number of braces that are open after a text; None when one is closed that is not open.\<close>

fun depth :: "nat \<Rightarrow> string \<Rightarrow> nat option" where
  "depth n [] = Some n"
| "depth n (c # s) =
     (if c = CHR ''{'' then depth (Suc n) s
      else if c = CHR ''}'' then (case n of 0 \<Rightarrow> None | Suc m \<Rightarrow> depth m s)
      else depth n s)"

definition balanced :: "string \<Rightarrow> bool" where
  "balanced s \<longleftrightarrow> (\<forall>n. depth n s = Some n)"

definition plain :: "string \<Rightarrow> bool" where
  "plain s \<longleftrightarrow> (\<forall>c \<in> set s. c \<noteq> CHR ''{'' \<and> c \<noteq> CHR ''}'')"

named_theorems depth_rules

lemma depth_append [depth_rules]: "depth n (a @ b) = Option.bind (depth n a) (\<lambda>n. depth n b)"
  by (induction n a rule: depth.induct) (auto split: nat.splits)

lemma depth_plain [depth_rules]: "plain s \<Longrightarrow> depth n s = Some n"
  by (induction s) (auto simp: plain_def)

lemma depth_balanced: "balanced s \<Longrightarrow> depth n s = Some n"
  by (simp add: balanced_def)

lemma balanced_plain: "plain s \<Longrightarrow> balanced s"
  by (simp add: balanced_def depth_plain)

lemma depth_map [depth_rules]:
  "(\<And>x. x \<in> set xs \<Longrightarrow> depth n (f x) = Some n) \<Longrightarrow> depth n (concat (map f xs)) = Some n"
  by (induction xs) (auto simp: depth_append)

lemma depth_marks [depth_rules]: "depth n nl = Some n" "depth n dq = Some n" "depth n bs = Some n"
  by (simp_all add: nl_def dq_def bs_def)

lemma balanced_append [intro]: "balanced a \<Longrightarrow> balanced b \<Longrightarrow> balanced (a @ b)"
  by (simp add: balanced_def depth_append)

lemma balanced_Nil [simp]: "balanced []"
  by (simp add: balanced_def)

lemma balanced_concat: "(\<And>x. x \<in> set xs \<Longrightarrow> balanced x) \<Longrightarrow> balanced (concat xs)"
  by (induction xs) auto

lemma plain_append [simp]: "plain (a @ b) \<longleftrightarrow> plain a \<and> plain b"
  by (auto simp: plain_def)

lemma plain_Cons [simp]: "plain (c # s) \<longleftrightarrow> c \<noteq> CHR ''{'' \<and> c \<noteq> CHR ''}'' \<and> plain s"
  by (auto simp: plain_def)

lemma plain_Nil [simp]: "plain []"
  by (simp add: plain_def)

end
