(* ===== verification/Idl_Types.thy ===== *)
theory Idl_Types
  imports Prelude Idl_Text
begin

unbundle bit_operations_syntax

text \<open>
  The types of message descriptions, \<open>src/idl/generator.cpp\<close>: what a member of a class is in C++, and
  which classes it mentions. The generator is given an expression tree; it looks at the tag, the text and
  the children of its nodes only, and that is what a tree is here. A hash set is a list
  without repetitions.
\<close>

section \<open>The tree\<close>

datatype idl_token =
    Keyword_module
  | Keyword_class
  | Keyword_enum
  | Keyword_array
  | Keyword_optional
  | Keyword_variant
  | Keyword_set
  | Keyword_hash
  | Idl_scope_brace
  | Identifier
  | Idl_discard
  | Idl_discard_comment

datatype idl_tree = Idl (rtt_of: idl_token) (value_of: string) (children_of: "idl_tree list")

section \<open>The state\<close>

record state_holder =
  optional_type :: string
  namespace_name :: string
  map_types :: "(string \<times> string) list"

definition state_holder_new :: state_holder where
  "state_holder_new = \<lparr>optional_type = [], namespace_name = [], map_types =
     [(''String'', ''std::string''),
      (''Bool'', ''bool''),
      (''Int8'', ''int8_t''),
      (''UInt8'', ''uint8_t''),
      (''Int16'', ''int16_t''),
      (''UInt16'', ''uint16_t''),
      (''Int'', ''uint32_t''),
      (''Int32'', ''int32_t''),
      (''UInt32'', ''uint32_t''),
      (''Int64'', ''int64_t''),
      (''UInt64'', ''uint64_t''),
      (''Float32'', ''float''),
      (''Float64'', ''double''),
      (''TimePoint'', ''ctime''),
      (''Object'', ''::beltpp::packet''),
      (''Extension'', ''::beltpp::packet''),
      (''Variant'', ''variant_type'')]\<rparr>"

type_synonym g_type_info = u8

definition type_simple :: g_type_info where "type_simple = 1"
definition type_object :: g_type_info where "type_object = 2"
definition type_extension :: g_type_info where "type_extension = 4"

section \<open>Types\<close>

definition convert_type :: "state_holder \<Rightarrow> string \<Rightarrow> string list \<Rightarrow> string \<times> g_type_info \<times> string list" where
  "convert_type state type_name type_names =
     (let type_detail = (if ''Object'' = type_name then type_object
                         else if ''Extension'' = type_name then type_extension
                         else type_simple)
      in case map_of (map_types state) type_name of
           Some t \<Rightarrow> (t, type_detail, type_names)
         | None \<Rightarrow>
             (type_name, type_detail,
              if type_detail = type_simple then List.insert type_name type_names else type_names))"

text \<open>The loop over the types of a variant: the text so far, the kind of the last one.\<close>

fun variant_loop ::
  "state_holder \<Rightarrow> string \<Rightarrow> idl_tree list \<Rightarrow> string \<Rightarrow> g_type_info \<Rightarrow> string list
     \<Rightarrow> (string \<times> g_type_info \<times> string list) result" where
  "variant_loop state ns [] variant_type_names type_detail type_names =
     Inr (variant_type_names, type_detail, type_names)"
| "variant_loop state ns (child_type # children) variant_type_names type_detail type_names =
     (if rtt_of child_type \<noteq> Identifier
      then Inl (Runtime_error ''can't get variant type definition, wtf!'')
      else let (variant_type_name, type_detail, type_names) = convert_type state (value_of child_type) type_names
           in variant_loop state ns children
                (variant_type_names @ (if variant_type_names \<noteq> [] then '', '' else []) @
                 ns @ variant_type_name @ ''::rtt'') type_detail type_names)"

lemma size_child [termination_simp]: "length cs = k \<Longrightarrow> 0 < k \<Longrightarrow> size (hd cs) < Suc (size_list size cs)"
  for cs :: "idl_tree list"
  by (cases cs) auto

lemma size_last_child [termination_simp]: "length cs = k \<Longrightarrow> 0 < k \<Longrightarrow> size (last cs) < Suc (size_list size cs)"
  for cs :: "idl_tree list"
  by (cases cs rule: rev_cases) auto

fun construct_type_name ::
  "state_holder \<Rightarrow> idl_tree \<Rightarrow> string list \<Rightarrow> (string \<times> g_type_info \<times> string list) result" where
  "construct_type_name state (Idl rtt v children) type_names =
     (if rtt = Identifier then Inr (convert_type state v type_names)
      else if rtt = Keyword_array \<and> length children = 1 then
        (case (if rtt_of (hd children) = Identifier then Inr (convert_type state (value_of (hd children)) type_names)
               else construct_type_name state (hd children) type_names) of
           Inl e \<Rightarrow> Inl e
         | Inr (type_name, d, ns) \<Rightarrow> Inr (''std::vector<'' @ type_name @ ''>'', d, ns))
      else if rtt = Keyword_optional \<and> length children = 1 then
        (case (if rtt_of (hd children) = Identifier then Inr (convert_type state (value_of (hd children)) type_names)
               else construct_type_name state (hd children) type_names) of
           Inl e \<Rightarrow> Inl e
         | Inr (type_name, d, ns) \<Rightarrow>
             Inr (if optional_type state = [] then ''optional<'' @ type_name @ ''>''
                  else optional_type state @ ''<'' @ type_name @ ''>'', d, ns))
      else if rtt = Keyword_variant \<and> length children = 2 \<and> rtt_of (hd children) = Identifier \<and>
          rtt_of (last children) = Idl_scope_brace then
        (let n = value_of (hd children);
             name = (if n \<noteq> namespace_name state then ''::'' @ n @ ''::'' else []);
             (type_name, type_detail, type_names) = convert_type state v type_names
         in case variant_loop state name (children_of (last children)) [] type_detail type_names of
              Inl e \<Rightarrow> Inl e
            | Inr (variant_type_names, d, ns) \<Rightarrow>
                Inr (name @ type_name @ ''<'' @ variant_type_names @ ''>'', d, ns))
      else if rtt = Keyword_set \<and> length children = 1 then
        (case (if rtt_of (hd children) = Identifier then Inr (convert_type state (value_of (hd children)) type_names)
               else construct_type_name state (hd children) type_names) of
           Inl e \<Rightarrow> Inl e
         | Inr (type_name, d, ns) \<Rightarrow> Inr (''std::unordered_set<'' @ type_name @ ''>'', d, ns))
      else if rtt = Keyword_hash \<and> length children = 2 \<and> rtt_of (hd children) = Identifier \<and>
          rtt_of (last children) = Identifier then
        (case construct_type_name state (hd children) type_names of
           Inl e \<Rightarrow> Inl e
         | Inr (key_type_name, type_detail_key, type_names) \<Rightarrow>
             (case construct_type_name state (last children) type_names of
                Inl e \<Rightarrow> Inl e
              | Inr (value_type_name, type_detail_value, type_names) \<Rightarrow>
                  let type_detail = type_detail_key OR type_detail_value
                  in if type_detail AND type_object \<noteq> 0 \<and> type_detail AND type_extension \<noteq> 0
                     then Inl (Runtime_error ''hash object extension mix'')
                     else Inr (''std::unordered_map<'' @ key_type_name @ '', '' @ value_type_name @ ''>'',
                               type_detail, type_names)))
      else Inl (Runtime_error ''can't get type definition, wtf!''))"

section \<open>The names a type mentions\<close>

text \<open>The first child of a variant is a namespace.\<close>

function mentioned :: "idl_tree \<Rightarrow> string set" where
  "mentioned (Idl rtt v children) =
     (if rtt = Identifier then {v}
      else if rtt = Keyword_variant then insert v (value_of ` set (children_of (last children)))
      else (\<Union>c \<in> set children. mentioned c))"
  by pat_completeness auto

termination by (relation "measure size") (auto simp: less_Suc_eq_le size_list_estimation')

declare mentioned.simps [simp del]

text \<open>A type that the program has to declare.\<close>

definition user_type :: "state_holder \<Rightarrow> string \<Rightarrow> bool" where
  "user_type state n \<longleftrightarrow> map_of (map_types state) n = None \<and> n \<noteq> ''Object'' \<and> n \<noteq> ''Extension''"

lemma convert_type_names:
  "convert_type state v ns = (t, d, ns') \<Longrightarrow> set ns' = set ns \<union> {n. n = v \<and> user_type state n}"
  by (auto simp: convert_type_def user_type_def type_simple_def type_object_def type_extension_def
      split: option.splits if_splits)

lemma variant_loop_names:
  "variant_loop state name cs s d ns = Inr (t, d', ns') \<Longrightarrow>
    set ns' = set ns \<union> {n. n \<in> value_of ` set cs \<and> user_type state n}"
proof (induction state name cs s d ns rule: variant_loop.induct)
  case (2 state name c cs s d ns)
  obtain u d1 ns1 where c: "convert_type state (value_of c) ns = (u, d1, ns1)" by (metis prod_cases3)
  then show ?case
    using 2 convert_type_names [OF c] by (auto split: if_splits)
qed simp

lemma one_child: "length children = 1 \<Longrightarrow> children = [hd children]"
  by (cases children) auto

lemma two_children: "length children = 2 \<Longrightarrow> children = [hd children, last children]"
  by (cases children; cases "tl children") auto

text \<open>The names that are collected are those the type mentions and the program declares.\<close>

lemma construct_type_name_names:
  "construct_type_name state t ns = Inr (s, d, ns') \<Longrightarrow>
    set ns' = set ns \<union> {n. n \<in> mentioned t \<and> user_type state n}"
proof (induction state t ns arbitrary: s d ns' rule: construct_type_name.induct)
  case (1 state rtt v children ns)
  have child: "set ns1 = set ns \<union> {n. n \<in> mentioned (hd children) \<and> user_type state n}"
    if "(if rtt_of (hd children) = Identifier then Inr (convert_type state (value_of (hd children)) ns)
         else construct_type_name state (hd children) ns) = Inr (u, d1, ns1)"
      and "\<And>u d1 ns1. rtt_of (hd children) \<noteq> Identifier \<Longrightarrow>
        construct_type_name state (hd children) ns = Inr (u, d1, ns1) \<Longrightarrow>
        set ns1 = set ns \<union> {n. n \<in> mentioned (hd children) \<and> user_type state n}" for u d1 ns1
    using that by (cases "hd children") (auto simp: mentioned.simps dest: convert_type_names split: if_splits)
  consider "rtt = Identifier" | "rtt = Keyword_variant" | "rtt = Keyword_hash"
    | "rtt \<in> {Keyword_array, Keyword_optional, Keyword_set}"
    | "rtt \<notin> {Identifier, Keyword_variant, Keyword_hash, Keyword_array, Keyword_optional, Keyword_set}"
    by auto
  then show ?case
  proof cases
    case 1
    then show ?thesis using "1.prems" by (auto simp: mentioned.simps dest: convert_type_names)
  next
    case 2
    then show ?thesis
      using "1.prems" by (auto simp: mentioned.simps Let_def dest!: convert_type_names variant_loop_names
          split: if_splits sum.splits prod.splits)
  next
    case 3
    then obtain k d1 ns1 w d2 where h: "length children = 2"
        "rtt_of (hd children) = Identifier" "rtt_of (last children) = Identifier"
        "construct_type_name state (hd children) ns = Inr (k, d1, ns1)"
        "construct_type_name state (last children) ns1 = Inr (w, d2, ns')"
      using "1.prems" by (auto simp: Let_def split: if_splits sum.splits)
    have "set ns1 = set ns \<union> {n. n \<in> mentioned (hd children) \<and> user_type state n}"
        "set ns' = set ns1 \<union> {n. n \<in> mentioned (last children) \<and> user_type state n}"
      using h by (cases "hd children"; cases "last children";
          auto simp: mentioned.simps dest!: convert_type_names)+
    moreover have "mentioned (Idl rtt v children) = mentioned (hd children) \<union> mentioned (last children)"
      by (subst two_children [OF h(1)]) (simp add: mentioned.simps 3)
    ultimately show ?thesis by auto
  next
    case 4
    then obtain u where u: "length children = 1"
        "(if rtt_of (hd children) = Identifier then Inr (convert_type state (value_of (hd children)) ns)
          else construct_type_name state (hd children) ns) = Inr (u, d, ns')"
      using "1.prems" by (auto split: if_splits sum.splits prod.splits)
    have "mentioned (Idl rtt v children) = mentioned (hd children)"
      by (subst one_child [OF u(1)]) (use 4 in \<open>auto simp: mentioned.simps\<close>)
    moreover have "set ns' = set ns \<union> {n. n \<in> mentioned (hd children) \<and> user_type state n}"
      by (rule child [OF u(2)]) (use "1.IH" 4 u(1) in auto)
    ultimately show ?thesis by simp
  next
    case 5
    then show ?thesis using "1.prems" by auto
  qed
qed

text \<open>A type whose names have no braces is written without braces.\<close>

definition plain_state :: "state_holder \<Rightarrow> bool" where
  "plain_state state \<longleftrightarrow> plain (optional_type state) \<and> plain (namespace_name state) \<and>
     (\<forall>t \<in> set (map_types state). plain (snd t))"

fun plain_tree :: "idl_tree \<Rightarrow> bool" where
  "plain_tree (Idl rtt v children) \<longleftrightarrow> (rtt \<noteq> Idl_scope_brace \<longrightarrow> plain v) \<and> (\<forall>c \<in> set children. plain_tree c)"

lemma convert_type_plain:
  "convert_type state v ns = (t, d, ns') \<Longrightarrow> plain_state state \<Longrightarrow> plain v \<Longrightarrow> plain t"
  using map_of_SomeD [of "map_types state" v] by (force simp: convert_type_def plain_state_def Let_def split: option.splits)

lemma variant_loop_plain:
  "variant_loop state name cs s d ns = Inr (t, d', ns') \<Longrightarrow> plain_state state \<Longrightarrow> plain name \<Longrightarrow> plain s \<Longrightarrow>
    \<forall>c \<in> set cs. plain_tree c \<Longrightarrow> plain t"
proof (induction state name cs s d ns rule: variant_loop.induct)
  case (2 state name c cs s d ns)
  obtain u d1 ns1 where u: "convert_type state (value_of c) ns = (u, d1, ns1)" by (metis prod_cases3)
  have "rtt_of c = Identifier" using 2(2) by (auto split: if_splits)
  then have "plain (value_of c)" using 2(6) by (cases c) auto
  then have "plain u" using convert_type_plain [OF u 2(3)] by simp
  then show ?case using 2 u by (auto split: if_splits)
qed simp

lemma construct_type_name_plain:
  "construct_type_name state t ns = Inr (s, d, ns') \<Longrightarrow> plain_state state \<Longrightarrow> plain_tree t \<Longrightarrow> plain s"
proof (induction state t ns arbitrary: s d ns' rule: construct_type_name.induct)
  case (1 state rtt v children ns)
  have child: "plain u"
    if "(if rtt_of (hd children) = Identifier then Inr (convert_type state (value_of (hd children)) ns)
         else construct_type_name state (hd children) ns) = Inr (u, d1, ns1)" "length children = 1"
      and "\<And>u d1 ns1. rtt_of (hd children) \<noteq> Identifier \<Longrightarrow>
        construct_type_name state (hd children) ns = Inr (u, d1, ns1) \<Longrightarrow> plain_tree (hd children) \<Longrightarrow> plain u" for u d1 ns1
  proof -
    have "plain_tree (hd children)" using "1.prems"(3) that(2) by (cases children) auto
    then show ?thesis
      using that "1.prems"(2) by (cases "hd children") (auto dest: convert_type_plain split: if_splits)
  qed
  consider "rtt = Identifier" | "rtt = Keyword_variant" | "rtt = Keyword_hash"
    | "rtt \<in> {Keyword_array, Keyword_optional, Keyword_set}"
    | "rtt \<notin> {Identifier, Keyword_variant, Keyword_hash, Keyword_array, Keyword_optional, Keyword_set}"
    by auto
  then show ?case
  proof cases
    case 1
    then show ?thesis using "1.prems" by (auto dest: convert_type_plain)
  next
    case 2
    then obtain u d1 ns1 w where v: "length children = 2" "rtt_of (hd children) = Identifier"
        "convert_type state v ns = (u, d1, ns1)"
        "variant_loop state (if value_of (hd children) \<noteq> namespace_name state
           then ''::'' @ value_of (hd children) @ ''::'' else []) (children_of (last children)) [] d1 ns1 = Inr (w, d, ns')"
        "s = (if value_of (hd children) \<noteq> namespace_name state then ''::'' @ value_of (hd children) @ ''::'' else []) @
          u @ ''<'' @ w @ ''>''"
      using "1.prems"(1) by (auto simp: Let_def split: if_splits sum.splits prod.splits)
    have "children \<noteq> []" using v(1) by auto
    then have t: "plain v" "plain_tree (hd children)" "plain_tree (last children)"
      using "1.prems"(3) 2 by auto
    have n: "plain (value_of (hd children))" using t(2) v(2) by (cases "hd children") auto
    have "plain w"
      by (rule variant_loop_plain [OF v(4) "1.prems"(2)]) (use t(3) n in \<open>cases "last children"; auto\<close>)+
    then show ?thesis using convert_type_plain [OF v(3) "1.prems"(2) t(1)] n v(5) by auto
  next
    case 3
    then obtain k d1 ns1 w d2 where h: "length children = 2"
        "rtt_of (hd children) = Identifier" "rtt_of (last children) = Identifier"
        "construct_type_name state (hd children) ns = Inr (k, d1, ns1)"
        "construct_type_name state (last children) ns1 = Inr (w, d2, ns')"
        "s = ''std::unordered_map<'' @ k @ '', '' @ w @ ''>''"
      using "1.prems" by (auto simp: Let_def split: if_splits sum.splits)
    have "children \<noteq> []" using h(1) by auto
    then have "plain_tree (hd children)" "plain_tree (last children)"
      using "1.prems"(3) 3 by auto
    then have "plain k" "plain w"
      using h(2-5) "1.prems"(2) by (cases "hd children"; cases "last children"; auto dest!: convert_type_plain)+
    then show ?thesis using h(6) by simp
  next
    case 4
    then obtain u where u: "length children = 1"
        "(if rtt_of (hd children) = Identifier then Inr (convert_type state (value_of (hd children)) ns)
          else construct_type_name state (hd children) ns) = Inr (u, d, ns')"
        "s \<in> {''std::vector<'' @ u @ ''>'', ''optional<'' @ u @ ''>'', optional_type state @ ''<'' @ u @ ''>'',
           ''std::unordered_set<'' @ u @ ''>''}"
      using "1.prems" by (auto split: if_splits sum.splits prod.splits)
    have "plain u" by (rule child [OF u(2,1)]) (use "1.IH" "1.prems"(2) 4 u(1) in auto)
    then show ?thesis using u(3) "1.prems"(2) by (auto simp: plain_state_def)
  next
    case 5
    then show ?thesis using "1.prems" by auto
  qed
qed

end
