(* ===== verification/Idl_Code.thy ===== *)
theory Idl_Code
  imports Idl_Types Numbers
begin

text \<open>
  The C++ text that the generator of \<open>src/idl/generator.cpp\<close> writes for a class, an enum and a module,
  section by section: each definition gives what the section appends to the three texts of
  \<open>generated_code\<close>. The order in which a hash set is gone through is a parameter.
\<close>

record generated_code =
  declarations :: string
  template_definitions :: string
  definitions :: string

definition code_new :: generated_code where
  "code_new = \<lparr>declarations = [], template_definitions = [], definitions = []\<rparr>"

definition code_append :: "generated_code \<Rightarrow> generated_code \<Rightarrow> generated_code" where
  "code_append a b =
     \<lparr>declarations = declarations a @ declarations b,
      template_definitions = template_definitions a @ template_definitions b,
      definitions = definitions a @ definitions b\<rparr>"

type_synonym hash_order = "string list \<Rightarrow> string list"

text \<open>A loop whose flag \<open>first\<close> tells the first element from the others.\<close>

fun emit_first :: "('a \<Rightarrow> string) \<Rightarrow> ('a \<Rightarrow> string) \<Rightarrow> 'a list \<Rightarrow> string" where
  "emit_first f g [] = []"
| "emit_first f g (x # xs) = f x @ concat (map g xs)"

section \<open>A class\<close>

definition struct_header :: "string \<Rightarrow> string \<Rightarrow> nat \<Rightarrow> generated_code" where
  "struct_header ns type_name rtt =
    \<lparr>declarations =
      ''namespace '' @ ns @ nl @
      ''{'' @ nl @
      ''class {export} '' @ type_name @ nl @
      ''{'' @ nl @
      ''public:'' @ nl @
      ''    enum {rtt = '' @ to_string rtt @ ''};'' @ nl,
    template_definitions =
      [],
    definitions =
      ''namespace '' @ ns @ nl @
      ''{'' @ nl\<rparr>"

definition schema_header :: "string \<Rightarrow> nat \<Rightarrow> string" where
  "schema_header type_name rtt =
      ''    '' @ dq @ type_name @ dq @ '': {'' @ nl @
      ''        '' @ dq @ ''type'' @ dq @ '': '' @ dq @ ''object'' @ dq @ '','' @ nl @
      ''        '' @ dq @ ''rtt'' @ dq @ '': '' @ to_string rtt @ '','' @ nl @
      ''        '' @ dq @ ''properties'' @ dq @ '': {''"

definition member_schema :: "(idl_tree \<times> idl_tree) list \<Rightarrow> nat \<Rightarrow> string \<Rightarrow> idl_tree \<Rightarrow> string" where
  "member_schema members index member_name member_type =
      (if rtt_of member_type \<in> {Keyword_array, Keyword_optional, Keyword_set} then
        nl @
        ''            '' @ dq @ member_name @ dq @ '': { '' @ dq @ ''type'' @ dq @ '': '' @ dq @ value_of member_type @ '' '' @ value_of (hd (children_of member_type)) @ dq @ ''}''
       else
        (if rtt_of member_type = Keyword_hash then
          nl @
          ''            '' @ dq @ member_name @ dq @ '': { '' @ dq @ ''type'' @ dq @ '': '' @ dq @ value_of member_type @ '' '' @ value_of (hd (children_of member_type)) @ '' '' @ value_of (last (children_of member_type)) @ dq @ ''}''
         else
          nl @
          ''            '' @ dq @ member_name @ dq @ '': { '' @ dq @ ''type'' @ dq @ '': '' @ dq @ value_of member_type @ dq @ ''}'')) @
      (if index = length members - 1 then
        nl @
        ''        ''
       else
        '','')"

definition schema_end :: string where
  "schema_end =
      ''}'' @ nl @
      ''    }''"

definition default_constructor :: "string \<Rightarrow> (idl_tree \<times> idl_tree) list \<Rightarrow> generated_code" where
  "default_constructor type_name members =
    \<lparr>declarations =
      (if members \<noteq> [] then
        ''    inline '' @ type_name @ ''();'' @ nl
       else []),
    template_definitions =
      [],
    definitions =
      emit_first
        (\<lambda>(n, t). type_name @ ''::'' @ type_name @ ''()'' @ nl @ ''  : '' @ value_of n @ ''()'' @ nl)
        (\<lambda>(n, t). ''  , '' @ value_of n @ ''()'' @ nl) members @
      (if members \<noteq> [] then
        ''{}'' @ nl
       else [])\<rparr>"

definition copy_expr :: "string list \<Rightarrow> string list \<Rightarrow> string \<Rightarrow> string" where
  "copy_expr objs exts member_name =
     (if member_name \<in> set objs \<or> member_name \<in> set exts then member_name @ ''()'' @ nl
      else member_name @ ''(other.'' @ member_name @ '')'' @ nl)"

definition move_expr :: "string list \<Rightarrow> string list \<Rightarrow> string \<Rightarrow> string" where
  "move_expr objs exts member_name =
     (if member_name \<in> set objs \<or> member_name \<in> set exts then member_name @ ''()'' @ nl
      else member_name @ ''(std::move(other.'' @ member_name @ ''))'' @ nl)"

definition copy_constructor :: "hash_order \<Rightarrow> string \<Rightarrow> (idl_tree \<times> idl_tree) list \<Rightarrow> string list \<Rightarrow> string list \<Rightarrow> string" where
  "copy_constructor order type_name members objs exts =
      emit_first
        (\<lambda>(n, t). type_name @ ''::'' @ type_name @ ''('' @ type_name @ '' const& other)'' @ nl @ ''  : '' @
           copy_expr objs exts (value_of n))
        (\<lambda>(n, t). ''  , '' @ copy_expr objs exts (value_of n)) members @
      (if members \<noteq> [] then
        (if objs = [] \<and> exts = [] then
          ''{}'' @ nl
         else
          ''{'' @ nl @
          concat (map (\<lambda>item.
            ''    detail::assign_packet('' @ item @ '', other.'' @ item @ '');'' @ nl) (order objs)) @
          concat (map (\<lambda>item.
            ''    detail::assign_extension('' @ item @ '', other.'' @ item @ '');'' @ nl) (order exts)) @
          ''}'' @ nl)
       else [])"

definition move_constructor :: "hash_order \<Rightarrow> string \<Rightarrow> (idl_tree \<times> idl_tree) list \<Rightarrow> string list \<Rightarrow> string list \<Rightarrow> string" where
  "move_constructor order type_name members objs exts =
      emit_first
        (\<lambda>(n, t). type_name @ ''::'' @ type_name @ ''('' @ type_name @ ''&& other) noexcept'' @ nl @ ''  : '' @
           move_expr objs exts (value_of n))
        (\<lambda>(n, t). ''  , '' @ move_expr objs exts (value_of n)) members @
      (if members \<noteq> [] then
        (if objs = [] \<and> exts = [] then
          ''{}'' @ nl
         else
          ''{'' @ nl @
          concat (map (\<lambda>item.
            ''    detail::assign_packet('' @ item @ '', std::move(other.'' @ item @ ''));'' @ nl) (order objs)) @
          concat (map (\<lambda>item.
            ''    detail::assign_extension('' @ item @ '', std::move(other.'' @ item @ ''));'' @ nl) (order exts)) @
          ''}'' @ nl)
       else [])"

definition copy_move_constructors ::
  "hash_order \<Rightarrow> string \<Rightarrow> (idl_tree \<times> idl_tree) list \<Rightarrow> string list \<Rightarrow> string list \<Rightarrow> generated_code" where
  "copy_move_constructors order type_name members objs exts =
    \<lparr>declarations =
      (if members \<noteq> [] then
        ''    inline '' @ type_name @ ''('' @ type_name @ '' const& other);'' @ nl @
        ''    inline '' @ type_name @ ''('' @ type_name @ ''&& other) noexcept;'' @ nl
       else []),
    template_definitions =
      [],
    definitions =
      copy_constructor order type_name members objs exts @ move_constructor order type_name members objs exts\<rparr>"

definition assignments :: "string \<Rightarrow> (idl_tree \<times> idl_tree) list \<Rightarrow> generated_code" where
  "assignments type_name members =
    \<lparr>declarations =
      (if members \<noteq> [] then
        ''    template <typename T>'' @ nl @
        ''    BELT_LOCAL explicit '' @ type_name @ ''(T&& other);'' @ nl @
        ''    inline '' @ type_name @ ''& operator = ('' @ type_name @ '' const& other);'' @ nl @
        ''    inline '' @ type_name @ ''& operator = ('' @ type_name @ ''&& other) noexcept;'' @ nl @
        ''    template <typename T>'' @ nl @
        ''    BELT_LOCAL '' @ type_name @ ''& operator = (T&& other);'' @ nl
       else []),
    template_definitions =
      [],
    definitions =
      (if members \<noteq> [] then
        type_name @ ''& '' @ type_name @ ''::operator = ('' @ type_name @ '' const& other)'' @ nl @
        ''{'' @ nl @
        ''    ::beltpp::assign('' @ ''*this, other);'' @ nl @
        ''    return *this;'' @ nl @
        ''}'' @ nl @
        type_name @ ''& '' @ type_name @ ''::operator = ('' @ type_name @ ''&& other) noexcept'' @ nl @
        ''{'' @ nl @
        ''    ::beltpp::assign('' @ ''*this, std::move(other));'' @ nl @
        ''    return *this;'' @ nl @
        ''}'' @ nl
       else [])\<rparr>"

definition comparisons :: "string \<Rightarrow> (idl_tree \<times> idl_tree) list \<Rightarrow> string list \<Rightarrow> string list \<Rightarrow> generated_code" where
  "comparisons type_name members objs exts =
    (let placeholder_other = (if members = [] then [] else '' other'') in
    \<lparr>declarations =
      ''    inline bool operator == ('' @ type_name @ '' const&'' @ placeholder_other @ '') const;'' @ nl @
      ''    inline bool operator != ('' @ type_name @ '' const& other) const;'' @ nl @
      ''    inline bool operator < ('' @ type_name @ '' const&'' @ placeholder_other @ '') const;'' @ nl @
      ''    inline bool operator > ('' @ type_name @ '' const& other) const;'' @ nl @
      ''    inline bool operator >= ('' @ type_name @ '' const& other) const;'' @ nl @
      ''    inline bool operator <= ('' @ type_name @ '' const& other) const;'' @ nl,
    template_definitions =
      [],
    definitions =
      ''bool '' @ type_name @ ''::operator == ('' @ type_name @ '' const&'' @ placeholder_other @ '') const'' @ nl @
      ''{'' @ nl @
      concat (map (\<lambda>(n, t). let member_name = value_of n in
        (if member_name \<in> set objs \<or> member_name \<in> set exts then
          ''    if (detail::saver('' @ member_name @ '') != detail::saver(other.'' @ member_name @ ''))'' @ nl
         else
          ''    if ('' @ member_name @ '' != other.'' @ member_name @ '')'' @ nl) @
        ''        return false;'' @ nl) members) @
      ''    return true;'' @ nl @
      ''}'' @ nl @
      ''bool '' @ type_name @ ''::operator != ('' @ type_name @ '' const& other) const'' @ nl @
      ''{'' @ nl @
      ''    return false == (operator == (other));'' @ nl @
      ''}'' @ nl @
      ''bool '' @ type_name @ ''::operator < ('' @ type_name @ '' const&'' @ placeholder_other @ '') const'' @ nl @
      ''{'' @ nl @
      concat (map (\<lambda>(n, t). let member_name = value_of n in
        ''    if (false == detail::less('' @ member_name @ '', other.'' @ member_name @ ''))'' @ nl @
        ''        return false;'' @ nl) members) @
      (if members \<noteq> [] then
        ''    return true;'' @ nl
       else
        ''    return false;'' @ nl) @
      ''}'' @ nl @
      ''bool '' @ type_name @ ''::operator > ('' @ type_name @ '' const& other) const'' @ nl @
      ''{'' @ nl @
      ''    return other < *this;'' @ nl @
      ''}'' @ nl @
      ''bool '' @ type_name @ ''::operator >= ('' @ type_name @ '' const& other) const'' @ nl @
      ''{'' @ nl @
      ''    return false == ('' @ ''*this < other);'' @ nl @
      ''}'' @ nl @
      ''bool '' @ type_name @ ''::operator <= ('' @ type_name @ '' const& other) const'' @ nl @
      ''{'' @ nl @
      ''    return false == ('' @ ''*this > other);'' @ nl @
      ''}'' @ nl\<rparr>)"

definition conversions :: "string \<Rightarrow> generated_code" where
  "conversions type_name =
    \<lparr>declarations =
      ''    inline static std::string pvoid_saver(void* p);'' @ nl @
      ''    inline std::string to_string() const;'' @ nl @
      ''    inline void from_string(std::string const& encoded, void* putl = nullptr);'' @ nl,
    template_definitions =
      [],
    definitions =
      ''std::string '' @ type_name @ ''::pvoid_saver(void* p)'' @ nl @
      ''{'' @ nl @
      ''    '' @ type_name @ ''* pmc = static_cast<'' @ type_name @ ''*>(p);'' @ nl @
      ''    return detail::saver('' @ ''*pmc);'' @ nl @
      ''}'' @ nl @
      ''std::string '' @ type_name @ ''::to_string() const'' @ nl @
      ''{'' @ nl @
      ''    return detail::saver('' @ ''*this);'' @ nl @
      ''}'' @ nl @
      ''void '' @ type_name @ ''::from_string(std::string const& encoded, void* putl/* = nullptr*/)'' @ nl @
      ''{'' @ nl @
      ''    if (false == detail::loader('' @ ''*this, encoded, putl))'' @ nl @
      ''        throw std::runtime_error('' @ dq @ ''cannot parse '' @ type_name @ '' data'' @ dq @ '');'' @ nl @
      ''}'' @ nl\<rparr>"

definition class_end :: "string \<Rightarrow> string \<Rightarrow> generated_code" where
  "class_end ns type_name =
    \<lparr>declarations =
      ''};'' @ nl @
      ''namespace detail'' @ nl @
      ''{'' @ nl @
      ''inline std::string saver('' @ type_name @ '' const& self);'' @ nl @
      ''}'' @ nl @
      ''} // end of namespace '' @ ns @ nl @ nl @
      ''namespace std'' @ nl @
      ''{'' @ nl @
      ''//  provide a simple hash, required by std::unordered_map'' @ nl @
      ''template <>'' @ nl @
      ''struct hash<'' @ ns @ ''::'' @ type_name @ ''>'' @ nl @
      ''{'' @ nl @
      ''    inline size_t operator()('' @ ns @ ''::'' @ type_name @ '' const& value) const noexcept;'' @ nl @
      ''};'' @ nl @
      ''}   //  end of namespace std'' @ nl @
      nl,
    template_definitions =
      [],
    definitions =
      []\<rparr>"

definition assign_templates :: "string \<Rightarrow> string \<Rightarrow> (idl_tree \<times> idl_tree) list \<Rightarrow> string list \<Rightarrow> string list \<Rightarrow> generated_code" where
  "assign_templates ns type_name members objs exts =
    \<lparr>declarations =
      [],
    template_definitions =
      (if members \<noteq> [] then
        ''namespace beltpp'' @ nl @
        ''{'' @ nl @
        ''template <typename T>'' @ nl @
        ''void assign('' @ ns @ ''::'' @ type_name @ ''& self, T const& other)'' @ nl @
        ''{'' @ nl @
        concat (map (\<lambda>(n, t). let member_name = value_of n in
          (if member_name \<in> set objs then
            ''    '' @ ns @ ''::detail::assign_packet(self.'' @ member_name @ '', other.'' @ member_name @ '');'' @ nl
           else
            (if member_name \<in> set exts then
              ''    '' @ ns @ ''::detail::assign_extension(self.'' @ member_name @ '', other.'' @ member_name @ '');'' @ nl
             else
              ''    ::beltpp::assign(self.'' @ member_name @ '', other.'' @ member_name @ '');'' @ nl))) members) @
        ''}'' @ nl @
        ''template <typename T,'' @ nl @
        ''          typename = typename std::enable_if<0 == '' @ ns @ ''::detail::has_integer_rtt<T>::value>::type>'' @ nl @
        ''void assign(T& self, '' @ ns @ ''::'' @ type_name @ '' const& other)'' @ nl @
        ''{'' @ nl @
        concat (map (\<lambda>(n, t). let member_name = value_of n in
          (if member_name \<in> set objs then
            ''    '' @ ns @ ''::detail::assign_packet(self.'' @ member_name @ '', other.'' @ member_name @ '');'' @ nl
           else
            (if member_name \<in> set exts then
              ''    '' @ ns @ ''::detail::assign_extension(self.'' @ member_name @ '', other.'' @ member_name @ '');'' @ nl
             else
              ''    ::beltpp::assign(self.'' @ member_name @ '', other.'' @ member_name @ '');'' @ nl))) members) @
        ''}'' @ nl @
        ''template <typename T,'' @ nl @
        ''          typename = typename std::enable_if<!std::is_reference<T>::value>::type>'' @ nl @
        ''void assign('' @ ns @ ''::'' @ type_name @ ''& self, T&& other)'' @ nl @
        ''{'' @ nl @
        concat (map (\<lambda>(n, t). let member_name = value_of n in
          (if member_name \<in> set objs then
            ''    '' @ ns @ ''::detail::assign_packet(self.'' @ member_name @ '', std::move(other.'' @ member_name @ ''));'' @ nl
           else
            (if member_name \<in> set exts then
              ''    '' @ ns @ ''::detail::assign_extension(self.'' @ member_name @ '', std::move(other.'' @ member_name @ ''));'' @ nl
             else
              ''    ::beltpp::assign(self.'' @ member_name @ '', std::move(other.'' @ member_name @ ''));'' @ nl))) members) @
        ''}'' @ nl @
        ''template <typename T,'' @ nl @
        ''          typename = typename std::enable_if<!std::is_reference<T>::value && 0 == '' @ ns @ ''::detail::has_integer_rtt<T>::value>::type>'' @ nl @
        ''void assign(T& self, '' @ ns @ ''::'' @ type_name @ ''&& other)'' @ nl @
        ''{'' @ nl @
        concat (map (\<lambda>(n, t). let member_name = value_of n in
          (if member_name \<in> set objs then
            ''    '' @ ns @ ''::detail::assign_packet(self.'' @ member_name @ '', std::move(other.'' @ member_name @ ''));'' @ nl
           else
            (if member_name \<in> set exts then
              ''    '' @ ns @ ''::detail::assign_extension(self.'' @ member_name @ '', std::move(other.'' @ member_name @ ''));'' @ nl
             else
              ''    ::beltpp::assign(self.'' @ member_name @ '', std::move(other.'' @ member_name @ ''));'' @ nl))) members) @
        ''}'' @ nl @
        ''}  //  end of namespace beltpp'' @ nl
       else []),
    definitions =
      []\<rparr>"

definition template_constructors :: "string \<Rightarrow> string \<Rightarrow> (idl_tree \<times> idl_tree) list \<Rightarrow> generated_code" where
  "template_constructors ns type_name members =
    \<lparr>declarations =
      [],
    template_definitions =
      ''namespace '' @ ns @ nl @
      ''{'' @ nl @
      (if members \<noteq> [] then
        ''template <typename T>'' @ nl @
        type_name @ ''::'' @ type_name @ ''(T&& other)'' @ nl @
        ''{'' @ nl @
        ''    ::beltpp::assign('' @ ''*this, std::forward<T>(other));'' @ nl @
        ''}'' @ nl @
        ''template <typename T>'' @ nl @
        type_name @ ''& '' @ type_name @ ''::operator = (T&& other)'' @ nl @
        ''{'' @ nl @
        ''    ::beltpp::assign('' @ ''*this, std::forward<T>(other));'' @ nl @
        ''    return *this;'' @ nl @
        ''}'' @ nl
       else []) @
      ''}   //  end of namespace '' @ ns @ nl,
    definitions =
      []\<rparr>"

definition analyze_json_member :: "string list \<Rightarrow> string \<Rightarrow> string \<Rightarrow> string" where
  "analyze_json_member exts member_name member_type =
     (let is_extension = member_name \<in> set exts; utl_var_name = (if is_extension then ''utl2'' else ''utl'') in
      ''    if (code)'' @ nl @
      ''    {'' @ nl @
      (if is_extension then
        ''        auto utl2 = utl;'' @ nl @
        ''        if (utl2.m_arr_fp_message_list_load_helper.empty() ||'' @ nl @
        ''            nullptr == utl2.m_arr_fp_message_list_load_helper.front())'' @ nl @
        ''            code = false;'' @ nl @
        ''        else'' @ nl @
        ''        {'' @ nl @
        ''        utl2.m_fp_message_list_load_helper = utl2.m_arr_fp_message_list_load_helper.front();'' @ nl @
        ''        utl2.m_arr_fp_message_list_load_helper.pop_front();'' @ nl
       else []) @
      (if member_type = ''Optional'' then
        ''        auto it_find = members.find('' @ dq @ bs @ dq @ member_name @ bs @ dq @ dq @ '');'' @ nl @
        ''        if (it_find != members.end())'' @ nl
       else
        ''        auto it_find = members.find('' @ dq @ bs @ dq @ member_name @ bs @ dq @ dq @ '');'' @ nl @
        ''        if (it_find == members.end())'' @ nl @
        ''            code = false;'' @ nl @
        ''        else'' @ nl) @
      ''        {'' @ nl @
      ''            beltpp::json::expression_tree* item = it_find->second;'' @ nl @
      ''            assert(item);'' @ nl @
      ''            code = analyze_json(message.'' @ member_name @ '', item, '' @ utl_var_name @ '');'' @ nl @
      ''        }'' @ nl @
      (if is_extension then
        ''        }'' @ nl
       else []) @
      ''    }'' @ nl)"

definition analyze_json_code :: "string \<Rightarrow> (idl_tree \<times> idl_tree) list \<Rightarrow> string list \<Rightarrow> generated_code" where
  "analyze_json_code type_name members exts =
    (let message_placeholder = (if members = [] then [] else '' message'');
      utl_placeholder = (if members = [] then [] else '' utl'') in
    \<lparr>declarations =
      [],
    template_definitions =
      [],
    definitions =
      ''namespace detail'' @ nl @
      ''{'' @ nl @
      ''inline'' @ nl @
      ''bool analyze_json('' @ type_name @ ''&'' @ message_placeholder @ '','' @ nl @
      ''                  beltpp::json::expression_tree* pexp,'' @ nl @
      ''                  ::beltpp::message_loader_utility const&'' @ utl_placeholder @ '')'' @ nl @
      ''{'' @ nl @
      ''    bool code = true;'' @ nl @
      ''    std::unordered_map<std::string, beltpp::json::expression_tree*> members;'' @ nl @
      ''    size_t rtt = size_t(-1);'' @ nl @
      ''    if (false == analyze_json_common(rtt, pexp, members) ||'' @ nl @
      ''        rtt != '' @ type_name @ ''::rtt)'' @ nl @
      ''        code = false;'' @ nl @
      ''    '' @ nl @
      concat (map (\<lambda>(n, t). analyze_json_member exts (value_of n) (value_of t)) members) @
      ''    return code;'' @ nl @
      ''}'' @ nl\<rparr>)"

definition saver_member :: "string \<Rightarrow> string \<Rightarrow> string" where
  "saver_member member_name member_type =
      ''    temp = saver(self.'' @ member_name @ '');'' @ nl @
      (if member_type = ''Optional'' then
        ''    if (false == temp.empty())'' @ nl @
        ''    {'' @ nl
       else []) @
      ''    result += '' @ dq @ '','' @ bs @ dq @ member_name @ bs @ dq @ '':'' @ dq @ '' + std::move(temp);'' @ nl @
      (if member_type = ''Optional'' then
        ''    }'' @ nl
       else [])"

definition saver_code :: "string \<Rightarrow> string \<Rightarrow> (idl_tree \<times> idl_tree) list \<Rightarrow> generated_code" where
  "saver_code ns type_name members =
    (let self_placeholder = (if members = [] then [] else '' self'') in
    \<lparr>declarations =
      [],
    template_definitions =
      [],
    definitions =
      ''std::string saver('' @ type_name @ '' const&'' @ self_placeholder @ '')'' @ nl @
      ''{'' @ nl @
      ''    std::string result;'' @ nl @
      ''    result += '' @ dq @ ''{'' @ bs @ dq @ ''rtt'' @ bs @ dq @ '':'' @ dq @ '' + saver('' @ type_name @ ''::rtt);'' @ nl @
      (if members \<noteq> [] then
        ''    std::string temp;'' @ nl
       else []) @
      concat (map (\<lambda>(n, t). saver_member (value_of n) (value_of t)) members) @
      ''    result += '' @ dq @ ''}'' @ dq @ '';'' @ nl @
      ''    return result;'' @ nl @
      ''}'' @ nl @
      ''}   //  end of namespace detail'' @ nl @
      nl @
      ''} // end of namespace '' @ ns @ nl @ nl @
      ''//  provide a simple hash, required by std::unordered_map'' @ nl @
      ''size_t std::hash<'' @ ns @ ''::'' @ type_name @ ''>::operator()('' @ ns @ ''::'' @ type_name @ '' const& value) const noexcept'' @ nl @
      ''{'' @ nl @
      ''    std::hash<string> hasher;'' @ nl @
      ''    return hasher('' @ ns @ ''::detail::saver(value));'' @ nl @
      ''}'' @ nl @
      nl\<rparr>)"

section \<open>An enum\<close>

definition enum_schema :: "string \<Rightarrow> idl_tree list \<Rightarrow> string" where
  "enum_schema enum_name children =
      ''    '' @ dq @ enum_name @ dq @ '': {'' @ nl @
      ''        '' @ dq @ ''type'' @ dq @ '': '' @ dq @ ''enum'' @ dq @ '','' @ nl @
      ''        '' @ dq @ ''values'' @ dq @ '': ['' @ nl @
      concat (map (\<lambda>i. let item = value_of (children ! i) in
        ''            '' @ dq @ item @ dq @
        (if i < length children - 1 then '','' @ nl else nl)) [0..<length children]) @
      ''        ]'' @ nl @
      ''    }''"

definition enum_head :: "string \<Rightarrow> string \<Rightarrow> idl_tree list \<Rightarrow> generated_code" where
  "enum_head ns enum_name children =
    \<lparr>declarations =
      ''namespace '' @ ns @ nl @
      ''{'' @ nl @
      ''enum class '' @ enum_name @ nl @
      concat (map (\<lambda>i. let item = value_of (children ! i) in
        (if i = 0 then ''{'' else '','') @
        nl @
        ''    '' @ item) [0..<length children]) @
      nl @
      ''};'' @ nl @
      ''inline {export} void from_string(std::string const& string_value, '' @ enum_name @ ''& value);'' @ nl,
    template_definitions =
      [],
    definitions =
      ''namespace '' @ ns @ nl @
      ''{'' @ nl @
      ''void from_string(std::string const& string_value,'' @ nl @
      ''                 '' @ enum_name @ ''& value)'' @ nl @
      ''{'' @ nl @
      concat (map (\<lambda>c. let item = value_of c in
        ''    if ('' @ dq @ item @ dq @ '' == string_value)'' @ nl @
        ''    {'' @ nl @
        ''        value = '' @ enum_name @ ''::'' @ item @ '';'' @ nl @
        ''        return;'' @ nl @
        ''    }'' @ nl) children) @
      ''    throw std::runtime_error(string_value + '' @ dq @ '': is not recognized by enum '' @ enum_name @ '' {'' @
      concat (map (\<lambda>i. let item = value_of (children ! i) in
        (if i \<noteq> 0 then '', '' else []) @ item) [0..<length children]) @
      ''}'' @ dq @ '');'' @ nl @
      ''}'' @ nl\<rparr>"

definition enum_detail :: "string \<Rightarrow> idl_tree list \<Rightarrow> generated_code" where
  "enum_detail enum_name children =
    \<lparr>declarations =
      [],
    template_definitions =
      [],
    definitions =
      ''namespace detail'' @ nl @
      ''{'' @ nl @
      ''inline'' @ nl @
      ''bool analyze_json('' @ enum_name @ ''& value,'' @ nl @
      ''                  beltpp::json::expression_tree* pexp,'' @ nl @
      ''                  ::beltpp::message_loader_utility const& utl)'' @ nl @
      ''{'' @ nl @
      ''    std::string string_value;'' @ nl @
      ''    if (false == analyze_json(string_value, pexp, utl))'' @ nl @
      ''        return false;'' @ nl @
      concat (map (\<lambda>c. let item = value_of c in
        ''    if ('' @ dq @ item @ dq @ '' == string_value)'' @ nl @
        ''    {'' @ nl @
        ''        value = '' @ enum_name @ ''::'' @ item @ '';'' @ nl @
        ''        return true;'' @ nl @
        ''    }'' @ nl) children) @
      ''    return false;'' @ nl @
      ''}'' @ nl @
      ''inline'' @ nl @
      ''std::string saver('' @ enum_name @ '' const& value)'' @ nl @
      ''{'' @ nl @
      ''    switch (value)'' @ nl @
      ''    {'' @ nl @
      concat (map (\<lambda>c. let item = value_of c in
        ''    case '' @ enum_name @ ''::'' @ item @ '':'' @ nl @
        ''        return saver(std::string('' @ dq @ item @ dq @ ''));'' @ nl) children) @
      ''    }'' @ nl @
      ''    //  msvc thinks this is an execution path that needs to be covered'' @ nl @
      ''    assert(false);'' @ nl @
      ''    throw std::runtime_error('' @ dq @ ''case that must never happen'' @ dq @ '');'' @ nl @
      ''}'' @ nl @
      ''}   //  end of namespace detail'' @ nl\<rparr>"

definition enum_end :: "string \<Rightarrow> string \<Rightarrow> generated_code" where
  "enum_end ns enum_name =
    \<lparr>declarations =
      ''inline {export} std::string to_string(const '' @ enum_name @ ''& value);'' @ nl @
      ''} // end of namespace '' @ ns @ nl @ nl,
    template_definitions =
      [],
    definitions =
      ''std::string to_string(const '' @ enum_name @ ''& value)'' @ nl @
      ''{'' @ nl @
      ''    return detail::saver(value);'' @ nl @
      ''}'' @ nl @
      ''} // end of namespace '' @ ns @ nl @ nl\<rparr>"

section \<open>A module\<close>

definition meta_serializers :: "string \<Rightarrow> nat \<Rightarrow> string list \<Rightarrow> string" where
  "meta_serializers ns rtt class_names =
      ''namespace '' @ ns @
      nl @
      ''{'' @ nl @
      ''namespace detail'' @ nl @
      ''{'' @ nl @
      ''template <typename T_message_type>'' @ nl @
      ''bool analyze_json_template(void* pvalue,'' @ nl @
      ''                           ::beltpp::json::expression_tree* pexp,'' @ nl @
      ''                           ::beltpp::message_loader_utility const& utl)'' @ nl @
      ''{'' @ nl @
      ''  T_message_type* pmsgcode ='' @ nl @
      ''          static_cast<T_message_type*>(pvalue);'' @ nl @
      ''  return analyze_json('' @ ''*pmsgcode, pexp, utl);'' @ nl @
      ''}'' @ nl @ nl @
      ''std::vector<serialization_item> meta_serializers()'' @ nl @
      ''{'' @ nl @
      ''    return'' @ nl @
      ''    {'' @ nl @
      concat (map (\<lambda>index. let class_name = class_names ! index in
        ''    {'' @ nl @
        ''        &'' @ class_name @ ''::pvoid_saver,'' @ nl @
        ''        &analyze_json_template<'' @ class_name @ ''>,'' @ nl @
        ''        serialization_item::fptr_new_void_unique_ptr(&::beltpp::new_void_unique_ptr<'' @ class_name @ ''>),'' @ nl @
        ''        serialization_item::fptr_new_void_unique_ptr_copy(&::beltpp::new_void_unique_ptr_copy<'' @ class_name @ ''>)'' @ nl @
        ''    }'' @
        (if index \<noteq> rtt - 1 then
          '','' @ nl
         else [])) [0..<rtt])"

definition meta_models :: "nat \<Rightarrow> string list \<Rightarrow> string" where
  "meta_models rtt class_names =
      nl @
      ''    };'' @ nl @
      ''}'' @ nl @ nl @
      ''std::vector<std::string> meta_models()'' @ nl @
      ''{'' @ nl @
      ''    return'' @ nl @
      ''    {'' @ nl @
      concat (map (\<lambda>index.
        ''        '' @ dq @ (class_names ! index) @ dq @
        (if index \<noteq> rtt - 1 then
          '','' @ nl
         else [])) [0..<rtt])"

definition meta_json_schema :: "string list \<Rightarrow> string" where
  "meta_json_schema json_schema =
      nl @
      ''    };'' @ nl @
      ''}'' @ nl @ nl @
      ''std::string meta_json_schema()'' @ nl @
      ''{'' @ nl @
      ''    return '' @
      ''R'' @ dq @ ''foo('' @ nl @
      ''{'' @ nl @ nl @
      concat (map (\<lambda>index.
        (if index \<noteq> length json_schema - 1 \<and> index mod 10 = 9 then
          '')foo'' @ dq @ '' R'' @ dq @ ''foo('' @ nl @ nl
         else []) @
        (json_schema ! index) @
        (if index \<noteq> length json_schema - 1 then
          '','' @ nl @ nl
         else
          nl)) [0..<length json_schema]) @
      nl @
      ''}'' @ nl @
      '')foo'' @ dq @ '';'' @ nl"

definition meta_end :: "string \<Rightarrow> string" where
  "meta_end ns =
      nl @
      ''}'' @ nl @
      ''bool analyze_json_object(beltpp::json::expression_tree* pexp,'' @ nl @
      ''                         beltpp::detail::pmsg_all& return_value,'' @ nl @
      ''                         ::beltpp::message_loader_utility const& utl)'' @ nl @
      ''{'' @ nl @
      ''    bool code = false;'' @ nl @ nl @
      ''    auto arr_fptr = meta_serializers();'' @ nl @
      ''    if (arr_fptr.size() > return_value.rtt)'' @ nl @
      ''    {'' @ nl @
      ''        auto const& item = arr_fptr[return_value.rtt];'' @ nl @ nl @
      ''        if (item.fp_analyze_json && item.fp_new_void_unique_ptr &&'' @ nl @
      ''            item.fp_new_void_unique_ptr_copy && item.fp_saver)'' @ nl @
      ''        {'' @ nl @
      ''            return_value ='' @ nl @
      ''                    beltpp::detail::pmsg_all(   return_value.rtt,'' @ nl @
      ''                                                item.fp_new_void_unique_ptr(),'' @ nl @
      ''                                                item.fp_saver);'' @ nl @ nl @
      ''            code = item.fp_analyze_json(return_value.pmsg.get(), pexp, utl);'' @ nl @
      ''        }'' @ nl @
      ''    }'' @ nl @ nl @
      ''    return code;'' @ nl @
      ''}'' @ nl @
      ''}  // end of namespace detail'' @ nl @
      ''}  // end of namespace '' @ ns @ nl @ nl"

end
