(* ===== verification/Idl_Generator.thy ===== *)
theory Idl_Generator
  imports Idl_Code
begin

text \<open>
  The generator of \<open>src/idl/generator.cpp\<close> as a whole: what it makes of a class, an enum and a module,
  and the order in which it writes the classes, each after those it mentions. The iteration order
  of the hash containers is a parameter; erasing an element leaves the order of the others as it is.
\<close>

section \<open>A class\<close>

fun pair_members :: "string \<Rightarrow> idl_tree list \<Rightarrow> (idl_tree \<times> idl_tree) list result" where
  "pair_members type_name [] = Inr []"
| "pair_members type_name [member_type] = Inl Undefined"
| "pair_members type_name (member_type # member_name # children) =
     (if rtt_of member_name \<noteq> Identifier
      then Inl (Runtime_error (''inside class syntax error, wtf, still '' @ type_name))
      else case pair_members type_name children of
             Inl e \<Rightarrow> Inl e
           | Inr members \<Rightarrow> Inr ((member_name, member_type) # members))"

record members_state =
  member_declarations :: string
  set_object_name :: "string list"
  set_extension_name :: "string list"
  member_type_names :: "string list"
  class_members :: string

fun member_loop ::
  "state_holder \<Rightarrow> (idl_tree \<times> idl_tree) list \<Rightarrow> nat \<Rightarrow> (idl_tree \<times> idl_tree) list \<Rightarrow> members_state
     \<Rightarrow> members_state result" where
  "member_loop state members index [] s = Inr s"
| "member_loop state members index ((member_name, member_type) # rest) s =
     (if rtt_of member_name \<noteq> Identifier
      then Inl (Runtime_error (''use '' @ dq @ ''variable type'' @ dq @ '' syntax please''))
      else case construct_type_name state member_type (member_type_names s) of
             Inl e \<Rightarrow> Inl e
           | Inr (member_type_name, type_detail, names) \<Rightarrow>
               let name = value_of member_name;
                   object = (type_detail AND type_object \<noteq> 0);
                   extension = (\<not> object \<and> type_detail AND type_extension \<noteq> 0)
               in member_loop state members (index + 1) rest
                    \<lparr>member_declarations = member_declarations s @
                       ''    '' @ member_type_name @ '' '' @ name @ '';'' @ nl,
                     set_object_name = (if object then List.insert name (set_object_name s) else set_object_name s),
                     set_extension_name =
                       (if extension then List.insert name (set_extension_name s) else set_extension_name s),
                     member_type_names = names,
                     class_members = class_members s @ member_schema members index name member_type\<rparr>)"

definition struct_code ::
  "hash_order \<Rightarrow> string \<Rightarrow> string \<Rightarrow> nat \<Rightarrow> (idl_tree \<times> idl_tree) list \<Rightarrow> members_state \<Rightarrow> generated_code" where
  "struct_code order ns type_name rtt members s =
     (let objs = set_object_name s; exts = set_extension_name s
      in foldl code_append code_new
        [struct_header ns type_name rtt,
         code_new\<lparr>declarations := member_declarations s\<rparr>,
         default_constructor type_name members,
         copy_move_constructors order type_name members objs exts,
         assignments type_name members,
         comparisons type_name members objs exts,
         conversions type_name,
         class_end ns type_name,
         assign_templates ns type_name members objs exts,
         template_constructors ns type_name members,
         analyze_json_code type_name members exts,
         saver_code ns type_name members])"

type_synonym dependencies = "(string \<times> string) list"

definition analyze_struct ::
  "hash_order \<Rightarrow> state_holder \<Rightarrow> idl_tree \<Rightarrow> nat \<Rightarrow> string \<Rightarrow> dependencies
     \<Rightarrow> (generated_code \<times> dependencies \<times> string) result" where
  "analyze_struct order state expression rtt type_name dependencies =
     (if namespace_name state = [] then Inl (Runtime_error ''please specify package name'')
      else if length (children_of expression) mod 2 \<noteq> 0
      then Inl (Runtime_error (''inside class syntax error, wtf - '' @ type_name))
      else case pair_members type_name (children_of expression) of
             Inl e \<Rightarrow> Inl e
           | Inr members \<Rightarrow>
               (case member_loop state members 0 members
                       \<lparr>member_declarations = [], set_object_name = [], set_extension_name = [],
                        member_type_names = [], class_members = schema_header type_name rtt\<rparr> of
                  Inl e \<Rightarrow> Inl e
                | Inr s \<Rightarrow>
                    Inr (struct_code order (namespace_name state) type_name rtt members s,
                         dependencies @ map (\<lambda>name. (type_name, name)) (order (member_type_names s)),
                         class_members s @ schema_end)))"

section \<open>An enum\<close>

definition analyze_enum :: "state_holder \<Rightarrow> idl_tree \<Rightarrow> string \<Rightarrow> (generated_code \<times> string) result" where
  "analyze_enum state expression enum_name =
     (if namespace_name state = [] then Inl (Runtime_error ''please specify package name'')
      else if children_of expression = []
      then Inl (Runtime_error (''inside enum syntax error, wtf - '' @ enum_name))
      else let children = children_of expression
           in Inr (foldl code_append code_new
                    [enum_head (namespace_name state) enum_name children, enum_detail enum_name children,
                     enum_end (namespace_name state) enum_name],
                   enum_schema enum_name children))"

section \<open>The items of a module\<close>

record module_state =
  ms_rtt :: nat
  class_names :: "string list"
  name_to_code :: "(string \<times> generated_code) list"
  ms_dependencies :: dependencies
  json_schema :: "string list"
  ms_result :: generated_code

definition module_new :: module_state where
  "module_new = \<lparr>ms_rtt = 0, class_names = [], name_to_code = [], ms_dependencies = [], json_schema = [],
     ms_result = code_new\<rparr>"

text \<open>\<open>insert\<close> leaves an entry that is there as it is.\<close>

definition insert_code :: "string \<Rightarrow> generated_code \<Rightarrow> (string \<times> generated_code) list \<Rightarrow> (string \<times> generated_code) list" where
  "insert_code name code codes = (if map_of codes name = None then codes @ [(name, code)] else codes)"

definition named_scope :: "idl_tree \<Rightarrow> bool" where
  "named_scope item \<longleftrightarrow> length (children_of item) = 2 \<and> rtt_of (hd (children_of item)) = Identifier \<and>
     rtt_of (last (children_of item)) = Idl_scope_brace"

definition analyze_item :: "hash_order \<Rightarrow> state_holder \<Rightarrow> idl_tree \<Rightarrow> module_state \<Rightarrow> module_state result" where
  "analyze_item order state item m =
     (if rtt_of item = Keyword_class then
        (if \<not> named_scope item then Inl (Runtime_error ''class syntax is wrong'')
         else let type_name = value_of (hd (children_of item))
              in case analyze_struct order state (last (children_of item)) (ms_rtt m) type_name (ms_dependencies m) of
                   Inl e \<Rightarrow> Inl e
                 | Inr (code, dependencies, members) \<Rightarrow>
                     Inr (m\<lparr>ms_dependencies := dependencies, json_schema := json_schema m @ [members],
                            class_names := class_names m @ [type_name],
                            name_to_code := insert_code type_name code (name_to_code m), ms_rtt := ms_rtt m + 1\<rparr>))
      else if rtt_of item = Keyword_enum then
        (if \<not> named_scope item then Inl (Runtime_error ''enum syntax is wrong'')
         else case analyze_enum state (last (children_of item)) (value_of (hd (children_of item))) of
                Inl e \<Rightarrow> Inl e
              | Inr (code, members) \<Rightarrow>
                  Inr (m\<lparr>json_schema := json_schema m @ [members], ms_result := code_append (ms_result m) code\<rparr>))
      else Inr m)"

fun analyze_items :: "hash_order \<Rightarrow> state_holder \<Rightarrow> idl_tree list \<Rightarrow> module_state \<Rightarrow> module_state result" where
  "analyze_items order state [] m = Inr m"
| "analyze_items order state (item # items) m =
     (case analyze_item order state item m of
        Inl e \<Rightarrow> Inl e
      | Inr m \<Rightarrow> analyze_items order state items m)"

section \<open>The order of the classes\<close>

definition clean_dependencies :: "string list \<Rightarrow> dependencies \<Rightarrow> dependencies" where
  "clean_dependencies names dependencies = filter (\<lambda>(_, name). name \<in> set names) dependencies"

text \<open>A round over the classes that are left: those without dependencies are written, and nothing
  depends on them any more.\<close>

fun order_pass ::
  "(string \<times> generated_code) list \<Rightarrow> dependencies \<Rightarrow> generated_code \<Rightarrow> bool
     \<Rightarrow> (string \<times> generated_code) list \<times> dependencies \<times> generated_code \<times> bool" where
  "order_pass [] dependencies result no_progress = ([], dependencies, result, no_progress)"
| "order_pass ((type_name, code) # codes) dependencies result no_progress =
     (if type_name \<notin> fst ` set dependencies
      then order_pass codes (filter (\<lambda>(_, name). name \<noteq> type_name) dependencies) (code_append result code) False
      else case order_pass codes dependencies result no_progress of
             (codes, r) \<Rightarrow> ((type_name, code) # codes, r))"

lemma order_pass_progress:
  "order_pass codes deps result np = (codes', deps', result', np') \<Longrightarrow>
    length codes' \<le> length codes \<and> (np' \<longrightarrow> np) \<and> (\<not> np' \<longrightarrow> np \<longrightarrow> length codes' < length codes)"
  by (induction codes deps result np arbitrary: codes' rule: order_pass.induct)
     (fastforce split: if_splits prod.splits)+

function order_loop ::
  "(string \<times> generated_code) list \<Rightarrow> dependencies \<Rightarrow> generated_code \<Rightarrow> generated_code result" where
  "order_loop codes dependencies result =
     (if codes = [] then Inr result
      else case order_pass codes dependencies result True of
             (codes, dependencies, result, no_progress) \<Rightarrow>
               if no_progress
               then Inl (Runtime_error ''most probably there is a cyclic dependency in the model definition'')
               else order_loop codes dependencies result)"
  by pat_completeness auto

termination
  by (relation "measure (\<lambda>(codes, _). length codes)") (auto dest: order_pass_progress [OF sym])

declare order_loop.simps [simp del]

definition analyze :: "hash_order \<Rightarrow> state_holder \<Rightarrow> idl_tree \<Rightarrow> (generated_code \<times> state_holder) result" where
  "analyze order state expression =
     (let children = children_of expression
      in if rtt_of expression \<noteq> Keyword_module \<or> length children \<noteq> 2 \<or> rtt_of (hd children) \<noteq> Identifier \<or>
            rtt_of (last children) \<noteq> Idl_scope_brace \<or> children_of (last children) = []
         then Inl (Runtime_error ''wtf'')
         else let state = state\<lparr>namespace_name := value_of (hd children)\<rparr>
              in case analyze_items order state (children_of (last children)) module_new of
                   Inl e \<Rightarrow> Inl e
                 | Inr m \<Rightarrow>
                     if class_names m = [] then Inl (Runtime_error ''wtf, nothing to do'')
                     else let names = order (map fst (name_to_code m))
                          in case order_loop (map (\<lambda>name. (name, the (map_of (name_to_code m) name))) names)
                                    (clean_dependencies (map fst (name_to_code m)) (ms_dependencies m)) (ms_result m) of
                               Inl e \<Rightarrow> Inl e
                             | Inr result \<Rightarrow>
                                 Inr (result\<lparr>definitions := definitions result @
                                        meta_serializers (namespace_name state) (ms_rtt m) (class_names m) @
                                        meta_models (ms_rtt m) (class_names m) @
                                        meta_json_schema (json_schema m) @
                                        meta_end (namespace_name state)\<rparr>, state))"

end
