(* ===== verification/Idl_Order.thy ===== *)

theory Idl_Order
  imports Idl_Generator "HOL-Library.Multiset"
begin

text \<open>
  The order in which the generator of \<open>src/idl/generator.cpp\<close> writes the classes: each after those it
  depends on, and it fails exactly when the dependencies have a cycle.
\<close>

section \<open>The order of the classes\<close>

text \<open>Names in an order in which each comes after what it depends on; \<open>S\<close> came before.\<close>

fun in_order :: "dependencies \<Rightarrow> string set \<Rightarrow> string list \<Rightarrow> bool" where
  "in_order D S [] = True"
| "in_order D S (n # ns) = ((\<forall>(a, b) \<in> set D. a = n \<longrightarrow> b \<in> S) \<and> in_order D (insert n S) ns)"

definition open_deps :: "dependencies \<Rightarrow> string set \<Rightarrow> dependencies" where
  "open_deps D S = filter (\<lambda>(_, name). name \<notin> S) D"

lemma open_deps_insert: "filter (\<lambda>(_, name). name \<noteq> n) (open_deps D S) = open_deps D (insert n S)"
  unfolding open_deps_def filter_filter by (rule filter_cong) auto

lemma in_open_deps: "n \<in> fst ` set (open_deps D S) \<longleftrightarrow> (\<exists>b. (n, b) \<in> set D \<and> b \<notin> S)"
  by (force simp: open_deps_def)

lemma in_order_append: "in_order D S (xs @ ys) \<longleftrightarrow> in_order D S xs \<and> in_order D (S \<union> set xs) ys"
  by (induction xs arbitrary: S) auto

lemma order_pass_spec:
  "order_pass codes (open_deps D S) result np = (codes', deps', result', np') \<Longrightarrow>
    \<exists>written. in_order D S (map fst written) \<and> deps' = open_deps D (S \<union> fst ` set written) \<and>
      result' = foldl code_append result (map snd written) \<and> mset codes = mset written + mset codes' \<and>
      (np' \<longleftrightarrow> np \<and> written = []) \<and> (written = [] \<longrightarrow> (\<forall>n \<in> fst ` set codes. \<exists>b. (n, b) \<in> set D \<and> b \<notin> S))"
proof (induction codes arbitrary: S result np codes')
  case Nil
  then show ?case by (intro exI [of _ "[]"]) auto
next
  case (Cons c codes)
  obtain n code where c: "c = (n, code)" by (cases c)
  show ?case
  proof (cases "n \<in> fst ` set (open_deps D S)")
    case False
    then have pass: "order_pass codes (open_deps D (insert n S)) (code_append result code) False = (codes', deps', result', np')"
      using Cons.prems c by (simp add: open_deps_insert)
    from Cons.IH [OF pass] obtain written where w: "in_order D (insert n S) (map fst written)"
        "deps' = open_deps D (insert n S \<union> fst ` set written)"
        "result' = foldl code_append (code_append result code) (map snd written)"
        "mset codes = mset written + mset codes'" "\<not> np'"
      by auto
    have "\<forall>b. (n, b) \<in> set D \<longrightarrow> b \<in> S" using False by (auto simp: in_open_deps)
    then have "in_order D S (map fst ((n, code) # written))" using w(1) by auto
    moreover have "deps' = open_deps D (S \<union> fst ` set ((n, code) # written))" using w(2) by simp
    ultimately show ?thesis
      using w(3-5) c by (intro exI [of _ "(n, code) # written"]) simp
  next
    case True
    then obtain codes'' where pass: "order_pass codes (open_deps D S) result np = (codes'', deps', result', np')"
        "codes' = (n, code) # codes''"
      using Cons.prems c by (auto split: prod.splits)
    from Cons.IH [OF pass(1)] obtain written where w: "in_order D S (map fst written)"
        "deps' = open_deps D (S \<union> fst ` set written)" "result' = foldl code_append result (map snd written)"
        "mset codes = mset written + mset codes''" "np' \<longleftrightarrow> np \<and> written = []"
        "written = [] \<longrightarrow> (\<forall>n \<in> fst ` set codes. \<exists>b. (n, b) \<in> set D \<and> b \<notin> S)"
      by blast
    have "\<exists>b. (n, b) \<in> set D \<and> b \<notin> S" using True by (simp add: in_open_deps)
    then have "written = [] \<longrightarrow> (\<forall>n \<in> fst ` set (c # codes). \<exists>b. (n, b) \<in> set D \<and> b \<notin> S)"
      using w(6) c by simp
    then show ?thesis
      using w(1-5) pass(2) c by (intro exI [of _ written]) simp
  qed
qed

lemma order_loop_spec:
  assumes "order_loop codes (open_deps D S) result = r"
  shows "(\<exists>written. r = Inr (foldl code_append result (map snd written)) \<and> mset written = mset codes \<and>
      in_order D S (map fst written)) \<or>
    (\<exists>e rest written. r = Inl e \<and> rest \<noteq> [] \<and> mset codes = mset written + mset rest \<and>
      (\<forall>n \<in> fst ` set rest. \<exists>b. (n, b) \<in> set D \<and> b \<notin> S \<union> fst ` set written))"
  using assms
proof (induction "length codes" arbitrary: codes S result rule: less_induct)
  case less
  show ?case
  proof (cases "codes = []")
    case True
    then show ?thesis using less.prems by (subst (asm) order_loop.simps) auto
  next
    case False
    obtain codes' deps' result' np where pass: "order_pass codes (open_deps D S) result True = (codes', deps', result', np)"
      by (metis prod_cases4)
    obtain written where w: "in_order D S (map fst written)" "deps' = open_deps D (S \<union> fst ` set written)"
        "result' = foldl code_append result (map snd written)" "mset codes = mset written + mset codes'"
        "np \<longleftrightarrow> written = []" "written = [] \<longrightarrow> (\<forall>n \<in> fst ` set codes. \<exists>b. (n, b) \<in> set D \<and> b \<notin> S)"
      using order_pass_spec [OF pass] by auto
    show ?thesis
    proof (cases np)
      case True
      have "r = Inl (Runtime_error ''most probably there is a cyclic dependency in the model definition'')"
        using less.prems pass True False by (subst (asm) order_loop.simps) auto
      then show ?thesis
        using w(5,6) True False
        by (intro disjI2 exI [of _ codes] exI [of _ "[]"]) auto
    next
      case False
      have loop: "order_loop codes' (open_deps D (S \<union> fst ` set written)) result' = r"
        using less.prems pass False \<open>codes \<noteq> []\<close> w(2) by (subst (asm) order_loop.simps) auto
      have "length codes' < length codes"
        using arg_cong [OF w(4), of size] w(5) False by (cases written) auto
      from less.hyps [OF this loop] show ?thesis
      proof (elim disjE exE conjE)
        fix more
        assume "r = Inr (foldl code_append result' (map snd more))" "mset more = mset codes'"
          "in_order D (S \<union> fst ` set written) (map fst more)"
        then show ?thesis
          using w by (intro disjI1 exI [of _ "written @ more"]) (auto simp: in_order_append)
      next
        fix e rest more
        assume "r = Inl e" "rest \<noteq> []" "mset codes' = mset more + mset rest"
          "\<forall>n \<in> fst ` set rest. \<exists>b. (n, b) \<in> set D \<and> b \<notin> S \<union> fst ` set written \<union> fst ` set more"
        then show ?thesis
          using w(4) by (intro disjI2, rule_tac x = e in exI, rule_tac x = rest in exI,
            rule_tac x = "written @ more" in exI) (simp add: Un_assoc image_Un)
      qed
    qed
  qed
qed

text \<open>Such an order is only possible without cycles, and a set in which everything depends on
  something has one.\<close>

lemma in_order_split:
  "in_order D S ns \<Longrightarrow> (a, b) \<in> set D \<Longrightarrow> a \<in> set ns \<Longrightarrow> b \<notin> S \<Longrightarrow>
    \<exists>xs ys zs. ns = xs @ b # ys @ a # zs"
proof (induction ns arbitrary: S)
  case (Cons n ns)
  show ?case
  proof (cases "a = n")
    case True
    then show ?thesis using Cons.prems by auto
  next
    case False
    then have a: "a \<in> set ns" using Cons.prems(3) by simp
    show ?thesis
    proof (cases "b = n")
      case True
      then show ?thesis using split_list [OF a] by (metis append_Cons append_Nil)
    next
      case b: False
      then have "\<exists>xs ys zs. ns = xs @ b # ys @ a # zs"
        using Cons.IH [of "insert n S"] Cons.prems a by auto
      then show ?thesis by (metis append_Cons)
    qed
  qed
qed simp

lemma in_order_acyclic:
  assumes "in_order D {} ns" "distinct ns" "fst ` set D \<subseteq> set ns"
  shows "acyclic (set D)"
proof (rule acyclicI_order)
  fix a b assume ab: "(a, b) \<in> set D"
  then have "a \<in> set ns" using assms(3) by force
  with in_order_split [OF assms(1) ab] obtain xs ys zs where ns: "ns = xs @ b # ys @ a # zs" by auto
  have "length (takeWhile (\<lambda>x. x \<noteq> b) ns) = length xs" "length (takeWhile (\<lambda>x. x \<noteq> a) ns) = length xs + Suc (length ys)"
    using assms(2) unfolding ns by (auto simp: takeWhile_append takeWhile_eq_all_conv)
  then show "length (takeWhile (\<lambda>x. x \<noteq> b) ns) < length (takeWhile (\<lambda>x. x \<noteq> a) ns)" by simp
qed

lemma all_depend_cyclic:
  assumes "N \<noteq> {}" "\<forall>n \<in> N. \<exists>b \<in> N. (n, b) \<in> set D"
  shows "\<not> acyclic (set D)"
proof
  assume "acyclic (set D)"
  then have "wf ((set D)\<inverse>)" by (intro finite_acyclic_wf_converse) auto
  then obtain z where "z \<in> N" "\<forall>y. (y, z) \<in> (set D)\<inverse> \<longrightarrow> y \<notin> N"
    using assms(1) by (auto simp: wf_eq_minimal)
  then show False using assms(2) by auto
qed


section \<open>What the classes use\<close>

text \<open>The members of a class are types and names in turn.\<close>

fun member_types :: "idl_tree list \<Rightarrow> idl_tree set" where
  "member_types [] = {}"
| "member_types [t] = {t}"
| "member_types (t # _ # cs) = insert t (member_types cs)"

definition class_name :: "idl_tree \<Rightarrow> string" where
  "class_name item = value_of (hd (children_of item))"

definition class_uses :: "state_holder \<Rightarrow> idl_tree \<Rightarrow> (string \<times> string) set" where
  "class_uses state item =
     (if rtt_of item = Keyword_class
      then {class_name item} \<times>
        {B. user_type state B \<and> (\<exists>t \<in> member_types (children_of (last (children_of item))). B \<in> mentioned t)}
      else {})"

definition class_set :: "idl_tree list \<Rightarrow> string set" where
  "class_set items = set (map class_name (filter (\<lambda>item. rtt_of item = Keyword_class) items))"

definition uses :: "state_holder \<Rightarrow> idl_tree list \<Rightarrow> (string \<times> string) set" where
  "uses state items = (\<Union>item \<in> set items. class_uses state item)"

text \<open>Going through a hash container in some order.\<close>

definition hash_order_ok :: "hash_order \<Rightarrow> bool" where
  "hash_order_ok order \<longleftrightarrow> (\<forall>xs. mset (order xs) = mset xs)"

lemma hash_order_set: "hash_order_ok order \<Longrightarrow> set (order xs) = set xs"
  unfolding hash_order_ok_def by (metis set_mset_mset)

lemma pair_members_types: "pair_members tn cs = Inr ms \<Longrightarrow> snd ` set ms = member_types cs"
proof (induction tn cs arbitrary: ms rule: pair_members.induct)
  case (3 tn t n cs)
  then obtain ms' where ms': "rtt_of n = Identifier" "pair_members tn cs = Inr ms'" "ms = (n, t) # ms'"
    by (auto split: if_splits sum.splits)
  then show ?case using "3.IH" by simp
qed auto

lemma member_loop_names:
  "member_loop state members i ms s = Inr s' \<Longrightarrow>
    set (member_type_names s') = set (member_type_names s) \<union> {B. user_type state B \<and> (\<exists>t \<in> snd ` set ms. B \<in> mentioned t)}"
proof (induction ms arbitrary: i s)
  case (Cons m ms)
  obtain name t where m: "m = (name, t)" by (cases m)
  obtain u d ns where c: "construct_type_name state t (member_type_names s) = Inr (u, d, ns)"
    using Cons.prems m by (auto split: if_splits sum.splits)
  obtain s1 where s1: "member_loop state members (i + 1) ms s1 = Inr s'" "member_type_names s1 = ns"
    using Cons.prems m c by (auto simp: Let_def split: if_splits)
  have "set (member_type_names s') = set ns \<union> {B. user_type state B \<and> (\<exists>t \<in> snd ` set ms. B \<in> mentioned t)}"
    using Cons.IH [OF s1(1)] s1(2) by simp
  then show ?case using construct_type_name_names [OF c] m by auto
qed simp

lemma analyze_item_class:
  assumes "analyze_item order state item m = Inr m'" "rtt_of item = Keyword_class" "hash_order_ok order"
  obtains code schema where
    "analyze_struct order state (last (children_of item)) (ms_rtt m) (class_name item) (ms_dependencies m) =
       Inr (code, ms_dependencies m', schema)"
    "set (ms_dependencies m') = set (ms_dependencies m) \<union> class_uses state item"
    "name_to_code m' = insert_code (class_name item) code (name_to_code m)"
    "class_names m' = class_names m @ [class_name item]" "json_schema m' = json_schema m @ [schema]"
    "ms_rtt m' = ms_rtt m + 1" "ms_result m' = ms_result m"
proof -
  let ?e = "last (children_of item)"
  obtain code deps schema where s: "analyze_struct order state ?e (ms_rtt m) (class_name item) (ms_dependencies m) =
      Inr (code, deps, schema)"
    and m': "m' = m\<lparr>ms_dependencies := deps, json_schema := json_schema m @ [schema],
        class_names := class_names m @ [class_name item],
        name_to_code := insert_code (class_name item) code (name_to_code m), ms_rtt := ms_rtt m + 1\<rparr>"
    using assms(1,2) by (auto simp: analyze_item_def class_name_def Let_def split: if_splits sum.splits)
  obtain ms s' s0 where p: "pair_members (class_name item) (children_of ?e) = Inr ms"
      "member_loop state ms 0 ms s0 = Inr s'" "member_type_names s0 = []"
      "deps = ms_dependencies m @ map (\<lambda>name. (class_name item, name)) (order (member_type_names s'))"
    using s by (auto simp: analyze_struct_def split: if_splits sum.splits)
  have "set (member_type_names s') = {B. user_type state B \<and> (\<exists>t \<in> member_types (children_of ?e). B \<in> mentioned t)}"
    using member_loop_names [OF p(2)] pair_members_types [OF p(1)] p(3) by simp
  then have "set deps = set (ms_dependencies m) \<union> class_uses state item"
    using p(4) hash_order_set [OF assms(3)] assms(2) by (auto simp: class_uses_def)
  with s m' show ?thesis by (intro that) auto
qed

lemma analyze_item_other:
  assumes "analyze_item order state item m = Inr m'" "rtt_of item \<noteq> Keyword_class"
  shows "ms_dependencies m' = ms_dependencies m" "name_to_code m' = name_to_code m" "class_names m' = class_names m"
    "ms_rtt m' = ms_rtt m" "class_uses state item = {}"
  using assms by (auto simp: analyze_item_def class_uses_def split: if_splits sum.splits)

lemma insert_code_names:
  "fst ` set (insert_code n c codes) = insert n (fst ` set codes)"
  "distinct (map fst codes) \<Longrightarrow> distinct (map fst (insert_code n c codes))"
  by (cases "n \<in> fst ` set codes"; auto simp: insert_code_def map_of_eq_None_iff)+

definition code_of_class :: "hash_order \<Rightarrow> state_holder \<Rightarrow> idl_tree list \<Rightarrow> string \<Rightarrow> generated_code \<Rightarrow> bool" where
  "code_of_class order state items name code \<longleftrightarrow>
     (\<exists>item \<in> set items. rtt_of item = Keyword_class \<and> class_name item = name \<and>
       (\<exists>rtt deps r. analyze_struct order state (last (children_of item)) rtt name deps = Inr (code, r)))"

lemma analyze_items_spec:
  assumes "hash_order_ok order"
  shows "analyze_items order state items m = Inr m' \<Longrightarrow>
    set (ms_dependencies m') = set (ms_dependencies m) \<union> uses state items \<and>
    fst ` set (name_to_code m') = fst ` set (name_to_code m) \<union> class_set items \<and>
    (distinct (map fst (name_to_code m)) \<longrightarrow> distinct (map fst (name_to_code m'))) \<and>
    (\<forall>(n, c) \<in> set (name_to_code m'). (n, c) \<in> set (name_to_code m) \<or> code_of_class order state items n c) \<and>
    set (class_names m') = set (class_names m) \<union> class_set items"
proof (induction items arbitrary: m)
  case Nil
  then show ?case by (auto simp: uses_def class_set_def)
next
  case (Cons item items)
  obtain m1 where m1: "analyze_item order state item m = Inr m1" "analyze_items order state items m1 = Inr m'"
    using Cons.prems by (auto split: sum.splits)
  note IH = Cons.IH [OF m1(2)]
  have more: "code_of_class order state items n c \<Longrightarrow> code_of_class order state (item # items) n c" for n c
    by (auto simp: code_of_class_def)
  show ?case
  proof (cases "rtt_of item = Keyword_class")
    case True
    from analyze_item_class [OF m1(1) True assms] obtain code schema where
      s: "analyze_struct order state (last (children_of item)) (ms_rtt m) (class_name item) (ms_dependencies m) =
           Inr (code, ms_dependencies m1, schema)"
      and d: "set (ms_dependencies m1) = set (ms_dependencies m) \<union> class_uses state item"
      and n: "name_to_code m1 = insert_code (class_name item) code (name_to_code m)"
      and names: "class_names m1 = class_names m @ [class_name item]"
      by metis
    have "code_of_class order state (item # items) (class_name item) code"
      using s True by (force simp: code_of_class_def)
    then have c: "\<forall>(a, c) \<in> set (name_to_code m1). (a, c) \<in> set (name_to_code m) \<or>
        code_of_class order state (item # items) a c"
      unfolding n insert_code_def by auto
    have set: "class_set (item # items) = insert (class_name item) (class_set items)"
        "uses state (item # items) = class_uses state item \<union> uses state items"
      using True by (auto simp: class_set_def uses_def)
    show ?thesis
    proof (intro conjI)
      show "\<forall>(a, c) \<in> set (name_to_code m'). (a, c) \<in> set (name_to_code m) \<or> code_of_class order state (item # items) a c"
        using IH c more by blast
    qed (use IH d n names insert_code_names set in auto)
  next
    case False
    note o = analyze_item_other [OF m1(1) False]
    have "class_set (item # items) = class_set items" using False by (auto simp: class_set_def)
    moreover have "uses state (item # items) = uses state items" using o(5) by (simp add: uses_def)
    ultimately have set: "class_set (item # items) = class_set items" "uses state (item # items) = uses state items"
      by blast+
    show ?thesis
    proof (intro conjI)
      show "\<forall>(a, c) \<in> set (name_to_code m'). (a, c) \<in> set (name_to_code m) \<or> code_of_class order state (item # items) a c"
        using IH more unfolding o by blast
    qed (use IH o set in auto)
  qed
qed

section \<open>Properties\<close>

definition module_items :: "idl_tree \<Rightarrow> idl_tree list" where
  "module_items expression = children_of (last (children_of expression))"

definition in_module :: "state_holder \<Rightarrow> idl_tree \<Rightarrow> state_holder" where
  "in_module state expression = state\<lparr>namespace_name := value_of (hd (children_of expression))\<rparr>"

lemma foldl_code_append:
  "declarations (foldl code_append c cs) = declarations c @ concat (map declarations cs)"
  "template_definitions (foldl code_append c cs) = template_definitions c @ concat (map template_definitions cs)"
  "definitions (foldl code_append c cs) = definitions c @ concat (map definitions cs)"
  by (induction cs arbitrary: c) (auto simp: code_append_def)

text \<open>The loop that orders the classes, as \<open>analyze\<close> runs it.\<close>

definition order_classes :: "hash_order \<Rightarrow> module_state \<Rightarrow> generated_code result" where
  "order_classes order m =
     order_loop (map (\<lambda>name. (name, the (map_of (name_to_code m) name))) (order (map fst (name_to_code m))))
       (clean_dependencies (map fst (name_to_code m)) (ms_dependencies m)) (ms_result m)"

lemma analyze_cases:
  assumes "analyze order state expression = r"
  obtains (fails) e where "r = Inl e" "\<And>m. analyze_items order (in_module state expression) (module_items expression) module_new = Inr m \<Longrightarrow>
      class_names m = [] \<or> rtt_of expression \<noteq> Keyword_module \<or> \<not> named_scope expression \<or> module_items expression = []"
  | (items) m where "analyze_items order (in_module state expression) (module_items expression) module_new = Inr m"
      "class_names m \<noteq> []" "rtt_of expression = Keyword_module" "named_scope expression" "module_items expression \<noteq> []"
      "r = (case order_classes order m of
              Inl e \<Rightarrow> Inl e
            | Inr result \<Rightarrow> Inr (result\<lparr>definitions := definitions result @
                 meta_serializers (namespace_name (in_module state expression)) (ms_rtt m) (class_names m) @
                 meta_models (ms_rtt m) (class_names m) @ meta_json_schema (json_schema m) @
                 meta_end (namespace_name (in_module state expression))\<rparr>, in_module state expression))"
  using assms
  by (auto simp: analyze_def Let_def named_scope_def module_items_def in_module_def [symmetric] order_classes_def
      split: if_splits sum.splits)

text \<open>What the loop over the items leaves, and the order it is written in.\<close>

lemma order_classes_spec:
  assumes "hash_order_ok order" "analyze_items order state items module_new = Inr m"
  shows "(\<exists>result names codes. order_classes order m = Inr result \<and> distinct names \<and> set names = class_set items \<and>
      (\<forall>name \<in> set names. code_of_class order state items name (codes name)) \<and>
      result = foldl code_append (ms_result m) (map codes names) \<and>
      in_order (clean_dependencies (map fst (name_to_code m)) (ms_dependencies m)) {} names) \<or>
    (\<exists>e N. order_classes order m = Inl e \<and> N \<noteq> {} \<and> N \<subseteq> class_set items \<and>
      (\<forall>n \<in> N. \<exists>b \<in> N. (n, b) \<in> uses state items))"
proof -
  let ?names = "order (map fst (name_to_code m))" let ?code = "\<lambda>name. the (map_of (name_to_code m) name)"
  let ?D = "clean_dependencies (map fst (name_to_code m)) (ms_dependencies m)"
  let ?codes = "map (\<lambda>name. (name, ?code name)) ?names"
  note spec = analyze_items_spec [OF assms, unfolded module_new_def, simplified]
  have dist: "distinct (map fst (name_to_code m))" using spec by simp
  have names: "mset ?names = mset (map fst (name_to_code m))" "set ?names = class_set items"
    using assms(1) hash_order_set [OF assms(1)] spec by (auto simp: hash_order_ok_def)
  have dn: "distinct ?names" using names(1) dist mset_eq_imp_distinct_iff by blast
  have code: "code_of_class order state items name (?code name)" if "name \<in> class_set items" for name
  proof -
    have "name \<in> fst ` set (name_to_code m)" using that spec by simp
    then obtain c where "map_of (name_to_code m) name = Some c" by (metis map_of_eq_None_iff option.exhaust)
    then show ?thesis using spec map_of_SomeD by fastforce
  qed
  have D: "set ?D = {(a, b). (a, b) \<in> uses state items \<and> b \<in> class_set items}"
    using spec by (auto simp: clean_dependencies_def)
  have empty: "open_deps ?D {} = ?D" by (simp add: open_deps_def)
  from order_loop_spec [of ?codes ?D "{}" "ms_result m", OF refl, unfolded empty, folded order_classes_def]
  show ?thesis
  proof (elim disjE exE conjE)
    fix written
    assume w: "order_classes order m = Inr (foldl code_append (ms_result m) (map snd written))"
      "mset written = mset ?codes" "in_order ?D {} (map fst written)"
    have "mset (map fst written) = mset ?names"
      unfolding mset_map w(2) by (simp add: image_mset.compositionality o_def)
    then have dw: "distinct (map fst written)" "set (map fst written) = class_set items"
      using dn names(2) mset_eq_imp_distinct_iff mset_eq_setD by blast+
    have mp: "map snd written = map ?code (map fst written)"
    proof -
      have "\<forall>x \<in> set written. snd x = ?code (fst x)"
        using mset_eq_setD [OF w(2)] by auto
      then show ?thesis by simp
    qed
    have codes: "\<forall>name \<in> set (map fst written). code_of_class order state items name (?code name)"
      using code dw(2) by blast
    show ?thesis
      by (rule disjI1, rule exI, rule exI [of _ "map fst written"], rule exI [of _ ?code])
         (intro conjI, rule w(1), rule dw(1), rule dw(2), rule codes, simp only: mp, rule w(3))
  next
    fix e rest written
    assume w: "order_classes order m = Inl e" "rest \<noteq> []" "mset ?codes = mset written + mset rest"
      "\<forall>n \<in> fst ` set rest. \<exists>b. (n, b) \<in> set ?D \<and> b \<notin> {} \<union> fst ` set written"
    have "class_set items = fst ` set ?codes" using names(2) by (simp add: image_image)
    also have "\<dots> = fst ` set written \<union> fst ` set rest"
    proof -
      have "set_mset (mset ?codes) = set_mset (mset written + mset rest)" using w(3) by (rule arg_cong)
      then have "set ?codes = set written \<union> set rest" by (simp only: set_mset_mset set_mset_union)
      then show ?thesis by (simp only: image_Un)
    qed
    finally have all: "class_set items = fst ` set written \<union> fst ` set rest" .
    have "\<forall>n \<in> fst ` set rest. \<exists>b \<in> fst ` set rest. (n, b) \<in> uses state items"
    proof
      fix n assume "n \<in> fst ` set rest"
      then obtain b where b: "(n, b) \<in> set ?D" "b \<notin> fst ` set written" using w(4) by blast
      have "(n, b) \<in> uses state items \<and> b \<in> class_set items" using b(1) unfolding D by simp
      then have "(n, b) \<in> uses state items" "b \<in> fst ` set rest" using all b(2) by simp_all
      then show "\<exists>b \<in> fst ` set rest. (n, b) \<in> uses state items" by (rule_tac x = b in bexI)
    qed
    moreover have "fst ` set rest \<noteq> {}" "fst ` set rest \<subseteq> class_set items" using w(2) all by auto
    ultimately show ?thesis
      by (intro disjI2 exI conjI) (rule w(1))
  qed
qed

lemma class_names_items:
  assumes "hash_order_ok order" "analyze_items order state items module_new = Inr m"
  shows "set (class_names m) = class_set items"
  using analyze_items_spec [OF assms] by (simp add: module_new_def)

lemma clean_uses:
  assumes "hash_order_ok order" "analyze_items order state items module_new = Inr m"
  shows "set (clean_dependencies (map fst (name_to_code m)) (ms_dependencies m)) =
    {(a, b). (a, b) \<in> uses state items \<and> b \<in> class_set items}"
  using analyze_items_spec [OF assms] by (auto simp: clean_dependencies_def module_new_def)

lemma uses_class: "(a, b) \<in> uses state items \<Longrightarrow> a \<in> class_set items"
  by (auto simp: uses_def class_uses_def class_set_def split: if_splits)

text \<open>C7: the classes are written in an order in which each comes after all the classes its members
  mention, whatever the order of the hash containers; every class of the description is written
  once, with the code that was made for a class of that name.\<close>

theorem idl_classes_in_order:
  assumes "hash_order_ok order" "analyze order state expression = Inr (result, state')"
  shows "\<exists>enums names codes. distinct names \<and> set names = class_set (module_items expression) \<and>
    declarations result = enums @ concat (map (\<lambda>name. declarations (codes name)) names) \<and>
    (\<forall>name \<in> set names. code_of_class order state' (module_items expression) name (codes name)) \<and>
    (\<forall>(a, b) \<in> uses state' (module_items expression). b \<in> set names \<longrightarrow>
      (\<exists>xs ys zs. names = xs @ b # ys @ a # zs))"
proof -
  from assms(2) obtain m r where m: "analyze_items order state' (module_items expression) module_new = Inr m"
      "order_classes order m = Inr r" "declarations result = declarations r"
    by (cases rule: analyze_cases) (auto split: sum.splits)
  obtain names codes where n: "distinct names" "set names = class_set (module_items expression)"
      "\<forall>name \<in> set names. code_of_class order state' (module_items expression) name (codes name)"
      "r = foldl code_append (ms_result m) (map codes names)"
      "in_order (clean_dependencies (map fst (name_to_code m)) (ms_dependencies m)) {} names"
    using order_classes_spec [OF assms(1) m(1)] m(2) by auto
  have "declarations result = declarations (ms_result m) @ concat (map (\<lambda>name. declarations (codes name)) names)"
    unfolding m(3) n(4) foldl_code_append by (simp add: o_def)
  moreover have "\<forall>(a, b) \<in> uses state' (module_items expression). b \<in> set names \<longrightarrow>
      (\<exists>xs ys zs. names = xs @ b # ys @ a # zs)"
    using in_order_split [OF n(5)] clean_uses [OF assms(1) m(1)] uses_class n(2) by fastforce
  ultimately show ?thesis using n(1-3) by blast
qed

text \<open>C17: generation fails only for a cyclic description: when every item of a module with a class is well
  formed, \<open>analyze\<close> gives code exactly if no class mentions itself through the members of other
  classes, and otherwise it ends with an error.\<close>

theorem idl_fails_on_cycles:
  assumes "hash_order_ok order" "rtt_of expression = Keyword_module" "named_scope expression"
    and "analyze_items order (in_module state expression) (module_items expression) module_new = Inr m"
    and "class_set (module_items expression) \<noteq> {}"
  shows "(\<exists>r. analyze order state expression = Inr r) \<longleftrightarrow>
    acyclic {(a, b). (a, b) \<in> uses (in_module state expression) (module_items expression) \<and>
      b \<in> class_set (module_items expression)}"
proof -
  let ?state = "in_module state expression" let ?items = "module_items expression"
  have ne: "class_names m \<noteq> []" "?items \<noteq> []"
    using class_names_items [OF assms(1,4)] assms(5) by (auto simp: class_set_def)
  have eq: "(\<exists>r. analyze order state expression = Inr r) \<longleftrightarrow> (\<exists>r. order_classes order m = Inr r)"
    by (cases rule: analyze_cases [of order state expression, OF refl])
       (use assms(2-4) ne in \<open>auto split: sum.splits\<close>)
  note D = clean_uses [OF assms(1,4)]
  from order_classes_spec [OF assms(1,4)] show ?thesis
  proof (elim disjE exE conjE)
    fix result names codes
    assume n: "order_classes order m = Inr result" "distinct names" "set names = class_set ?items"
      "in_order (clean_dependencies (map fst (name_to_code m)) (ms_dependencies m)) {} names"
    have "acyclic (set (clean_dependencies (map fst (name_to_code m)) (ms_dependencies m)))"
      by (rule in_order_acyclic [OF n(4,2)]) (use D uses_class n(3) in fastforce)
    then show ?thesis using eq n(1) unfolding D by blast
  next
    fix e N
    assume n: "order_classes order m = Inl e" "N \<noteq> {}" "N \<subseteq> class_set ?items" "\<forall>n \<in> N. \<exists>b \<in> N. (n, b) \<in> uses ?state ?items"
    have "\<not> acyclic (set (clean_dependencies (map fst (name_to_code m)) (ms_dependencies m)))"
      by (rule all_depend_cyclic [OF n(2)]) (use D n(3,4) in fastforce)
    then show ?thesis using eq n(1) unfolding D by auto
  qed
qed

text \<open>A description for the witnesses: \<open>module shop { class order { item first Int64 count } class item
  { String name Object extra } enum state { open closed } }\<close>.\<close>

definition leaf :: "string \<Rightarrow> idl_tree" where
  "leaf v = Idl Identifier v []"

definition example_class :: "string \<Rightarrow> idl_tree list \<Rightarrow> idl_tree" where
  "example_class n members = Idl Keyword_class ''class'' [leaf n, Idl Idl_scope_brace ''{'' members]"

definition example_module :: idl_tree where
  "example_module = Idl Keyword_module ''module'' [leaf ''shop'', Idl Idl_scope_brace ''{''
     [example_class ''order'' [Idl Keyword_array ''Array'' [leaf ''item''], leaf ''items'', leaf ''Int64'', leaf ''count''],
      example_class ''item'' [leaf ''String'', leaf ''name'', leaf ''Object'', leaf ''extra''],
      Idl Keyword_enum ''enum'' [leaf ''state'', Idl Idl_scope_brace ''{'' [leaf ''open'', leaf ''closed'']]]]"

lemmas example_defs = analyze_def analyze_item_def named_scope_def analyze_struct_def analyze_enum_def
  example_class_def leaf_def state_holder_new_def convert_type_def type_simple_def type_object_def type_extension_def
  Let_def module_new_def insert_code_def clean_dependencies_def order_loop.simps in_module_def module_items_def

lemma example_runs:
  "\<exists>result. analyze (\<lambda>xs. xs) state_holder_new example_module = Inr (result, in_module state_holder_new example_module)"
  by (simp add: example_module_def example_defs)

lemma same_order_ok: "hash_order_ok (\<lambda>xs. xs)"
  by (simp add: hash_order_ok_def)

theorem idl_classes_in_order_witness:
  "\<exists>result state' names. analyze (\<lambda>xs. xs) state_holder_new example_module = Inr (result, state') \<and>
    set names = {''order'', ''item''} \<and> (\<exists>xs ys zs. names = xs @ ''item'' # ys @ ''order'' # zs)"
proof -
  obtain result where run: "analyze (\<lambda>xs. xs) state_holder_new example_module = Inr (result, in_module state_holder_new example_module)"
    using example_runs by blast
  have uses: "(''order'', ''item'') \<in> uses (in_module state_holder_new example_module) (module_items example_module)"
    by (simp add: uses_def class_uses_def class_name_def example_module_def user_type_def mentioned.simps example_defs)
  have classes: "class_set (module_items example_module) = {''order'', ''item''}"
    by (simp add: class_set_def class_name_def example_module_def example_class_def leaf_def module_items_def)
  have "\<exists>names. set names = {''order'', ''item''} \<and>
      (\<forall>(a, b) \<in> uses (in_module state_holder_new example_module) (module_items example_module). b \<in> set names \<longrightarrow>
        (\<exists>xs ys zs. names = xs @ b # ys @ a # zs))"
    using idl_classes_in_order [OF same_order_ok run, unfolded classes]
    by (elim exE conjE) (rule exI, rule conjI, assumption, assumption)
  then obtain names where n: "set names = {''order'', ''item''}"
      "\<forall>(a, b) \<in> uses (in_module state_holder_new example_module) (module_items example_module). b \<in> set names \<longrightarrow>
        (\<exists>xs ys zs. names = xs @ b # ys @ a # zs)"
    by (elim exE conjE)
  have "\<exists>xs ys zs. names = xs @ ''item'' # ys @ ''order'' # zs"
    using bspec [OF n(2) uses] n(1) by simp
  then show ?thesis
    using run n(1) by - (rule exI, rule exI, rule exI [of _ names], rule conjI, assumption, rule conjI, assumption+)
qed

text \<open>\<open>module loop { class a { b x } class b { Set a y } }\<close>.\<close>

definition example_cycle :: idl_tree where
  "example_cycle = Idl Keyword_module ''module'' [leaf ''loop'', Idl Idl_scope_brace ''{''
     [example_class ''a'' [leaf ''b'', leaf ''x''],
      example_class ''b'' [Idl Keyword_set ''Set'' [leaf ''a''], leaf ''y'']]]"

theorem idl_fails_on_cycles_witness:
  "\<not> (\<exists>r. analyze (\<lambda>xs. xs) state_holder_new example_cycle = Inr r)"
proof -
  have shape: "rtt_of example_cycle = Keyword_module" "named_scope example_cycle"
    by (simp_all add: example_cycle_def named_scope_def leaf_def)
  obtain m where items: "analyze_items (\<lambda>xs. xs) (in_module state_holder_new example_cycle) (module_items example_cycle) module_new = Inr m"
    by (simp add: example_cycle_def example_defs)
  have classes: "class_set (module_items example_cycle) = {''a'', ''b''}"
    by (simp add: class_set_def class_name_def example_cycle_def example_class_def leaf_def module_items_def)
  let ?r = "{(x, y). (x, y) \<in> uses (in_module state_holder_new example_cycle) (module_items example_cycle) \<and> y \<in> {''a'', ''b''}}"
  have "(''a'', ''b'') \<in> ?r" "(''b'', ''a'') \<in> ?r"
    by (simp_all add: uses_def class_uses_def class_name_def example_cycle_def user_type_def mentioned.simps example_defs)
  then have "(''a'', ''a'') \<in> ?r\<^sup>+" by (meson trancl.r_into_trancl trancl.trancl_into_trancl)
  then have "\<not> acyclic ?r" by (auto simp: acyclic_def)
  then show ?thesis
    using idl_fails_on_cycles [OF same_order_ok shape items] unfolding classes by simp
qed

end
