(* ===== verification/Idl_Braces.thy ===== *)
theory Idl_Braces
  imports Idl_Code
begin

text \<open>
  Whatever the names are, as long as they have no braces, the texts the generator of \<open>src/idl\<close> writes
  keep their braces nested: every section opens and closes what the next one relies on.
\<close>

definition plain_members :: "(idl_tree \<times> idl_tree) list \<Rightarrow> bool" where
  "plain_members members \<longleftrightarrow> (\<forall>m \<in> set members. plain (value_of (fst m)))"

lemma plain_member [simp]: "plain_members members \<Longrightarrow> m \<in> set members \<Longrightarrow> plain (value_of (fst m))"
  by (simp add: plain_members_def)

lemma plain_to_string [simp]: "plain (to_string n)"
  unfolding plain_def
proof
  have all: "\<forall>d \<in> set [0..<10]. digit_char d \<noteq> CHR ''{'' \<and> digit_char d \<noteq> CHR ''}''" by code_simp
  fix c assume "c \<in> set (to_string n)"
  then obtain d where "d < 10" "c = digit_char d" using to_string_digits by blast
  then show "c \<noteq> CHR ''{'' \<and> c \<noteq> CHR ''}''" using all by simp
qed

lemma depth_if [depth_rules]:
  "depth n s = Some n \<Longrightarrow> depth n t = Some n \<Longrightarrow> depth n (if b then s else t) = Some n"
  by simp

text \<open>The rest of a text is looked at when the depth before it is known.\<close>

lemma depth_cong: "x = y \<Longrightarrow> Option.bind x f = Option.bind y f"
  by simp

lemma depth_emit_first [depth_rules]:
  "(\<And>x. x \<in> set xs \<Longrightarrow> depth n (f x) = Some n) \<Longrightarrow> (\<And>x. x \<in> set xs \<Longrightarrow> depth n (g x) = Some n) \<Longrightarrow>
    depth n (emit_first f g xs) = Some n"
  by (cases xs) (auto simp: depth_rules)

lemma struct_header_depth:
  assumes "plain ns" "plain type_name"
  shows "depth n (declarations (struct_header ns type_name rtt)) = Some (Suc (Suc n))"
    "depth n (definitions (struct_header ns type_name rtt)) = Some (Suc n)"
    "template_definitions (struct_header ns type_name rtt) = []"
  using assms by (simp_all add: struct_header_def depth_rules Let_def cong: depth_cong del: plain_Cons plain_append append.simps)

lemma default_constructor_depth:
  assumes "plain type_name" "plain_members members"
  shows "depth n (declarations (default_constructor type_name members)) = Some n"
    "depth n (definitions (default_constructor type_name members)) = Some n"
    "template_definitions (default_constructor type_name members) = []"
  using assms by (simp_all add: default_constructor_def depth_rules split_def Let_def cong: depth_cong del: plain_Cons plain_append append.simps)

lemma copy_move_constructors_depth:
  assumes "plain type_name" "plain_members members" "\<And>x. x \<in> set (order objs) \<Longrightarrow> plain x"
    "\<And>x. x \<in> set (order exts) \<Longrightarrow> plain x"
  shows "depth n (declarations (copy_move_constructors order type_name members objs exts)) = Some n"
    "depth n (definitions (copy_move_constructors order type_name members objs exts)) = Some n"
    "template_definitions (copy_move_constructors order type_name members objs exts) = []"
  using assms
  by (simp_all add: copy_move_constructors_def copy_constructor_def move_constructor_def copy_expr_def move_expr_def
      depth_rules split_def Let_def cong: depth_cong del: plain_Cons plain_append append.simps)

lemma assignments_depth:
  assumes "plain type_name"
  shows "depth n (declarations (assignments type_name members)) = Some n"
    "depth n (definitions (assignments type_name members)) = Some n"
    "depth n (template_definitions (assignments type_name members)) = Some n"
  using assms by (simp_all add: assignments_def depth_rules Let_def cong: depth_cong del: plain_Cons plain_append append.simps)

lemma comparisons_depth:
  assumes "plain type_name" "plain_members members"
  shows "depth n (declarations (comparisons type_name members objs exts)) = Some n"
    "depth n (definitions (comparisons type_name members objs exts)) = Some n"
    "template_definitions (comparisons type_name members objs exts) = []"
  using assms by (simp_all add: comparisons_def depth_rules split_def Let_def cong: depth_cong del: plain_Cons plain_append append.simps)

lemma conversions_depth:
  assumes "plain type_name"
  shows "depth n (declarations (conversions type_name)) = Some n"
    "depth n (definitions (conversions type_name)) = Some n"
    "template_definitions (conversions type_name) = []"
  using assms by (simp_all add: conversions_def depth_rules Let_def cong: depth_cong del: plain_Cons plain_append append.simps)

lemma class_end_depth:
  assumes "plain ns" "plain type_name"
  shows "depth (Suc (Suc n)) (declarations (class_end ns type_name)) = Some n"
    "definitions (class_end ns type_name) = []" "template_definitions (class_end ns type_name) = []"
  using assms by (simp_all add: class_end_def depth_rules Let_def cong: depth_cong del: plain_Cons plain_append append.simps)

lemma assign_templates_depth:
  assumes "plain ns" "plain type_name" "plain_members members"
  shows "declarations (assign_templates ns type_name members objs exts) = []"
    "definitions (assign_templates ns type_name members objs exts) = []"
    "depth n (template_definitions (assign_templates ns type_name members objs exts)) = Some n"
  using assms by (simp_all add: assign_templates_def depth_rules split_def Let_def cong: depth_cong del: plain_Cons plain_append append.simps)

lemma template_constructors_depth:
  assumes "plain ns" "plain type_name"
  shows "declarations (template_constructors ns type_name members) = []"
    "definitions (template_constructors ns type_name members) = []"
    "depth n (template_definitions (template_constructors ns type_name members)) = Some n"
  using assms by (simp_all add: template_constructors_def depth_rules Let_def cong: depth_cong del: plain_Cons plain_append append.simps)

lemma analyze_json_member_depth [depth_rules]:
  "plain member_name \<Longrightarrow> depth n (analyze_json_member exts member_name member_type) = Some n"
  by (cases "member_name \<in> set exts"; cases "member_type = ''Optional''")
     (simp_all add: analyze_json_member_def depth_rules Let_def cong: depth_cong del: plain_Cons plain_append append.simps)

lemma saver_member_depth [depth_rules]:
  "plain member_name \<Longrightarrow> depth n (saver_member member_name member_type) = Some n"
  by (cases "member_type = ''Optional''") (simp_all add: saver_member_def depth_rules Let_def cong: depth_cong del: plain_Cons plain_append append.simps)

lemma analyze_json_code_depth:
  assumes "plain type_name" "plain_members members"
  shows "declarations (analyze_json_code type_name members exts) = []"
    "depth n (definitions (analyze_json_code type_name members exts)) = Some (Suc n)"
    "template_definitions (analyze_json_code type_name members exts) = []"
  using assms by (simp_all add: analyze_json_code_def depth_rules split_def Let_def cong: depth_cong del: plain_Cons plain_append append.simps)

lemma saver_code_depth:
  assumes "plain ns" "plain type_name" "plain_members members"
  shows "declarations (saver_code ns type_name members) = []"
    "depth (Suc (Suc n)) (definitions (saver_code ns type_name members)) = Some n"
    "template_definitions (saver_code ns type_name members) = []"
  using assms by (simp_all add: saver_code_def depth_rules split_def Let_def cong: depth_cong del: plain_Cons plain_append append.simps)

section \<open>An enum\<close>

lemma depth_map_upt [depth_rules]:
  "(\<And>i. i < b \<Longrightarrow> depth n (f i) = Some n) \<Longrightarrow> depth n (concat (map f [0..<b])) = Some n"
  by (rule depth_map) simp

lemma depth_nth [depth_rules]:
  "\<forall>c \<in> set children. plain (value_of c) \<Longrightarrow> i < length children \<Longrightarrow> depth n (value_of (children ! i)) = Some n"
  by (simp add: depth_plain)

lemma enum_schema_balanced:
  assumes "plain enum_name" "\<forall>c \<in> set children. plain (value_of c)"
  shows "balanced (enum_schema enum_name children)"
  unfolding balanced_def using assms
  by (simp add: enum_schema_def depth_rules Let_def cong: depth_cong del: plain_Cons plain_append append.simps)

lemma enum_head_depth:
  assumes "plain ns" "plain enum_name" "\<forall>c \<in> set children. plain (value_of c)" "children \<noteq> []"
  shows "depth n (declarations (enum_head ns enum_name children)) = Some (Suc n)"
    "depth n (definitions (enum_head ns enum_name children)) = Some (Suc n)"
    "template_definitions (enum_head ns enum_name children) = []"
proof -
  obtain c cs where c: "children = c # cs" using assms(4) by (cases children) auto
  have range: "[0..<length children] = 0 # map Suc [0..<length cs]"
    using c by (simp add: upt_conv_Cons map_Suc_upt del: upt_Suc)
  have len: "length children = Suc (length cs)" using c by simp
  have first: "plain (value_of (children ! 0))" using assms(3) c by simp
  show "depth n (declarations (enum_head ns enum_name children)) = Some (Suc n)"
    using assms(1-3) first unfolding enum_head_def range list.map concat.simps map_map o_def
    by (simp add: len depth_rules Let_def cong: depth_cong del: plain_Cons plain_append append.simps)
  show "depth n (definitions (enum_head ns enum_name children)) = Some (Suc n)"
    "template_definitions (enum_head ns enum_name children) = []"
    using assms(1-3)
    by (simp_all add: enum_head_def depth_rules Let_def cong: depth_cong del: plain_Cons plain_append append.simps)
qed

lemma enum_detail_depth:
  assumes "plain enum_name" "\<forall>c \<in> set children. plain (value_of c)"
  shows "declarations (enum_detail enum_name children) = []"
    "depth n (definitions (enum_detail enum_name children)) = Some n"
    "template_definitions (enum_detail enum_name children) = []"
  using assms
  by (simp_all add: enum_detail_def depth_rules Let_def cong: depth_cong del: plain_Cons plain_append append.simps)

lemma enum_end_depth:
  assumes "plain ns" "plain enum_name"
  shows "depth (Suc n) (declarations (enum_end ns enum_name)) = Some n"
    "depth (Suc n) (definitions (enum_end ns enum_name)) = Some n"
    "template_definitions (enum_end ns enum_name) = []"
  using assms
  by (simp_all add: enum_end_def depth_rules Let_def cong: depth_cong del: plain_Cons plain_append append.simps)

section \<open>A module\<close>

lemma depth_nth_name [depth_rules]:
  "\<forall>name \<in> set names. plain name \<Longrightarrow> i < length names \<Longrightarrow> depth n (names ! i) = Some n"
  by (simp add: depth_plain)

lemma depth_nth_balanced [depth_rules]:
  "\<forall>s \<in> set texts. balanced s \<Longrightarrow> i < length texts \<Longrightarrow> depth n (texts ! i) = Some n"
  by (simp add: depth_balanced)

lemma meta_code_balanced:
  assumes "plain ns" "\<forall>name \<in> set names. plain name" "\<forall>s \<in> set texts. balanced s"
  shows "balanced (meta_serializers ns (length names) names @ meta_models (length names) names @
    meta_json_schema texts @ meta_end ns)"
proof -
  have 1: "depth n (meta_serializers ns (length names) names) = Some (Suc (Suc (Suc (Suc n))))" for n
    using assms(1,2)
    by (simp add: meta_serializers_def depth_rules Let_def cong: depth_cong del: plain_Cons plain_append append.simps)
  have 2: "depth (Suc (Suc (Suc (Suc n)))) (meta_models (length names) names) = Some (Suc (Suc (Suc (Suc n))))" for n
    using assms(2)
    by (simp add: meta_models_def depth_rules Let_def cong: depth_cong del: plain_Cons plain_append append.simps)
  have 3: "depth (Suc (Suc (Suc (Suc n)))) (meta_json_schema texts) = Some (Suc (Suc (Suc n)))" for n
    using assms(3)
    by (simp add: meta_json_schema_def depth_rules Let_def cong: depth_cong del: plain_Cons plain_append append.simps)
  have 4: "depth (Suc (Suc (Suc n))) (meta_end ns) = Some n" for n
    using assms(1)
    by (simp add: meta_end_def depth_rules Let_def cong: depth_cong del: plain_Cons plain_append append.simps)
  show ?thesis by (simp add: balanced_def depth_append 1 2 3 4)
qed

section \<open>The schema of a class\<close>

lemma schema_header_depth: "plain type_name \<Longrightarrow> depth n (schema_header type_name rtt) = Some (Suc (Suc n))"
  by (simp add: schema_header_def depth_rules cong: depth_cong del: plain_Cons plain_append append.simps)

lemma schema_end_depth: "depth (Suc (Suc n)) schema_end = Some n"
  by (simp add: schema_end_def depth_rules cong: depth_cong del: plain_Cons plain_append append.simps)

lemma member_schema_depth:
  assumes "plain member_name" "plain (value_of member_type)"
    and "rtt_of member_type \<in> {Keyword_array, Keyword_optional, Keyword_set, Keyword_hash} \<Longrightarrow>
      plain (value_of (hd (children_of member_type)))"
    and "rtt_of member_type = Keyword_hash \<Longrightarrow> plain (value_of (last (children_of member_type)))"
  shows "depth n (member_schema members index member_name member_type) = Some n"
  using assms
  by (cases "rtt_of member_type \<in> {Keyword_array, Keyword_optional, Keyword_set}"; cases "rtt_of member_type = Keyword_hash")
     (simp_all add: member_schema_def depth_rules cong: depth_cong del: plain_Cons plain_append append.simps)

end
