(* ===== verification/Idl_Properties.thy ===== *)
theory Idl_Properties
  imports Idl_Order Idl_Braces
begin

text \<open>
  What holds of the generator: the classes come after those they mention, it fails exactly for cyclic
  descriptions, and its output keeps the braces nested.
\<close>

section \<open>The braces of the output\<close>

definition code_balanced :: "generated_code \<Rightarrow> bool" where
  "code_balanced c \<longleftrightarrow> balanced (declarations c) \<and> balanced (template_definitions c) \<and> balanced (definitions c)"

lemma code_balanced_append: "code_balanced a \<Longrightarrow> code_balanced b \<Longrightarrow> code_balanced (code_append a b)"
  by (auto simp: code_balanced_def code_append_def)

lemma code_balanced_new: "code_balanced code_new"
  by (simp add: code_balanced_def code_new_def)

lemma struct_code_balanced:
  assumes "plain ns" "plain type_name" "plain_members members" "plain (member_declarations s)"
    and "\<And>x. x \<in> set (order (set_object_name s)) \<Longrightarrow> plain x"
    and "\<And>x. x \<in> set (order (set_extension_name s)) \<Longrightarrow> plain x"
  shows "code_balanced (struct_code order ns type_name rtt members s)"
  unfolding code_balanced_def balanced_def struct_code_def code_append_def code_new_def Let_def
  using assms
  by (simp add: depth_append depth_plain struct_header_depth default_constructor_depth copy_move_constructors_depth
      assignments_depth comparisons_depth conversions_depth class_end_depth assign_templates_depth
      template_constructors_depth analyze_json_code_depth saver_code_depth)

lemma enum_code_balanced:
  assumes "analyze_enum state expression enum_name = Inr (code, members)"
    and "plain (namespace_name state)" "plain enum_name" "\<forall>c \<in> set (children_of expression). plain (value_of c)"
  shows "code_balanced code \<and> balanced members"
proof -
  have "children_of expression \<noteq> []"
    and "code = foldl code_append code_new
          [enum_head (namespace_name state) enum_name (children_of expression),
           enum_detail enum_name (children_of expression), enum_end (namespace_name state) enum_name]"
    and "members = enum_schema enum_name (children_of expression)"
    using assms(1) by (auto simp: analyze_enum_def Let_def split: if_splits)
  then show ?thesis
    using assms(2-4) enum_schema_balanced [OF assms(3,4)]
    by (simp add: code_balanced_def balanced_def code_append_def code_new_def depth_append enum_head_depth
        enum_detail_depth enum_end_depth)
qed

text \<open>A member that has a type in C++ has one with children of the right kind.\<close>

lemma construct_type_name_shape:
  assumes "construct_type_name state t ns = Inr r"
  shows "rtt_of t \<noteq> Idl_scope_brace"
    "rtt_of t \<in> {Keyword_array, Keyword_optional, Keyword_set, Keyword_hash} \<Longrightarrow>
       rtt_of (hd (children_of t)) \<noteq> Idl_scope_brace \<and> children_of t \<noteq> []"
    "rtt_of t = Keyword_hash \<Longrightarrow> rtt_of (last (children_of t)) \<noteq> Idl_scope_brace"
proof -
  obtain rtt v children where t: "t = Idl rtt v children" by (cases t)
  have brace: "\<And>t' ns' r'. construct_type_name state t' ns' = Inr r' \<Longrightarrow> rtt_of t' \<noteq> Idl_scope_brace"
    by (case_tac t') (auto split: if_splits)
  show "rtt_of t \<noteq> Idl_scope_brace" using brace assms by blast
  show "rtt_of t = Keyword_hash \<Longrightarrow> rtt_of (last (children_of t)) \<noteq> Idl_scope_brace"
    using assms t by (auto split: if_splits)
  show "rtt_of (hd (children_of t)) \<noteq> Idl_scope_brace \<and> children_of t \<noteq> []"
    if k: "rtt_of t \<in> {Keyword_array, Keyword_optional, Keyword_set, Keyword_hash}"
  proof (cases "rtt_of t = Keyword_hash")
    case True
    then show ?thesis using assms t by (auto split: if_splits)
  next
    case False
    then have "length children = 1" "rtt_of (hd children) = Identifier \<or> (\<exists>r'. construct_type_name state (hd children) ns = Inr r')"
      using assms k t by (auto split: if_splits sum.splits)
    then show ?thesis using t brace by auto
  qed
qed

lemma plain_child: "plain_tree t \<Longrightarrow> c \<in> set (children_of t) \<Longrightarrow> plain_tree c"
  by (cases t) auto

lemma plain_value: "plain_tree t \<Longrightarrow> rtt_of t \<noteq> Idl_scope_brace \<Longrightarrow> plain (value_of t)"
  by (cases t) auto

definition plain_pairs :: "(idl_tree \<times> idl_tree) list \<Rightarrow> bool" where
  "plain_pairs ms \<longleftrightarrow> (\<forall>(n, t) \<in> set ms. plain (value_of n) \<and> plain_tree t)"

lemma pair_members_plain:
  "pair_members type_name cs = Inr ms \<Longrightarrow> \<forall>c \<in> set cs. plain_tree c \<Longrightarrow> plain_pairs ms"
  by (induction type_name cs arbitrary: ms rule: pair_members.induct)
     (auto simp: plain_pairs_def plain_value split: if_splits sum.splits)

lemma member_loop_plain:
  assumes "member_loop state members i ms s = Inr s'" "plain_state state" "plain_pairs ms"
    and "plain (member_declarations s)" "\<forall>x \<in> set (set_object_name s) \<union> set (set_extension_name s). plain x"
    and "\<And>n. depth n (class_members s) = Some (n + k)"
  shows "plain (member_declarations s') \<and> (\<forall>x \<in> set (set_object_name s') \<union> set (set_extension_name s'). plain x) \<and>
    (\<forall>n. depth n (class_members s') = Some (n + k))"
  using assms
proof (induction ms arbitrary: i s)
  case (Cons m rest)
  obtain name t where m: "m = (name, t)" by (cases m)
  obtain u d ns where c: "construct_type_name state t (member_type_names s) = Inr (u, d, ns)"
    using Cons.prems(1) m by (auto split: if_splits sum.splits)
  have n: "plain (value_of name)" and t: "plain_tree t" and rest: "plain_pairs rest"
    using Cons.prems(3) m by (auto simp: plain_pairs_def)
  have u: "plain u" by (rule construct_type_name_plain [OF c assms(2) t])
  note shape = construct_type_name_shape [OF c]
  have schema: "depth d (member_schema members i (value_of name) t) = Some d" for d
  proof (rule member_schema_depth [OF n])
    show "plain (value_of t)" using t shape(1) by (rule plain_value)
    show "plain (value_of (hd (children_of t)))"
      if "rtt_of t \<in> {Keyword_array, Keyword_optional, Keyword_set, Keyword_hash}"
      using shape(2) [OF that] t by (intro plain_value plain_child [OF t]) auto
    show "plain (value_of (last (children_of t)))" if "rtt_of t = Keyword_hash"
      using shape(2,3) that t by (intro plain_value plain_child [OF t]) auto
  qed
  let ?object = "d AND type_object \<noteq> 0"
  let ?extension = "\<not> ?object \<and> d AND type_extension \<noteq> 0"
  let ?s = "\<lparr>member_declarations = member_declarations s @ ''    '' @ u @ '' '' @ value_of name @ '';'' @ nl,
      set_object_name = (if ?object then List.insert (value_of name) (set_object_name s) else set_object_name s),
      set_extension_name =
        (if ?extension then List.insert (value_of name) (set_extension_name s) else set_extension_name s),
      member_type_names = ns, class_members = class_members s @ member_schema members i (value_of name) t\<rparr>"
  have loop: "member_loop state members (i + 1) rest ?s = Inr s'"
    using Cons.prems(1) m c by (simp add: Let_def split: if_splits)
  have "plain nl" by (simp add: nl_def)
  then show ?case
    using n u Cons.prems(4,5,6)
    by (intro Cons.IH [OF loop assms(2) rest]) (auto simp: depth_append schema)
qed simp

lemma analyze_struct_balanced:
  assumes "analyze_struct order state e rtt tn deps = Inr (code, deps', schema)"
    and "plain_state state" "plain tn" "\<forall>c \<in> set (children_of e). plain_tree c" "hash_order_ok order"
  shows "code_balanced code \<and> balanced schema"
proof -
  let ?s0 = "\<lparr>member_declarations = [], set_object_name = [], set_extension_name = [], member_type_names = [],
      class_members = schema_header tn rtt\<rparr>"
  obtain ms s where p: "pair_members tn (children_of e) = Inr ms" "member_loop state ms 0 ms ?s0 = Inr s"
      "code = struct_code order (namespace_name state) tn rtt ms s" "schema = class_members s @ schema_end"
    using assms(1) by (auto simp: analyze_struct_def split: if_splits sum.splits)
  have ms: "plain_pairs ms" by (rule pair_members_plain [OF p(1) assms(4)])
  have s: "plain (member_declarations s)" "\<forall>x \<in> set (set_object_name s) \<union> set (set_extension_name s). plain x"
      "\<And>n. depth n (class_members s) = Some (n + 2)"
    using member_loop_plain [OF p(2) assms(2) ms, of 2] assms(3) by (auto simp: schema_header_depth)
  have "code_balanced code"
    unfolding p(3) using ms s(1,2) assms(2,3) hash_order_set [OF assms(5)]
    by (intro struct_code_balanced) (auto simp: plain_state_def plain_members_def plain_pairs_def)
  moreover have "balanced schema"
    unfolding balanced_def p(4) by (simp add: depth_append s(3) schema_end_depth)
  ultimately show ?thesis by simp
qed

text \<open>The words of the enums; nothing looks at what kind of token they are.\<close>

definition enums_plain :: "idl_tree list \<Rightarrow> bool" where
  "enums_plain items \<longleftrightarrow> (\<forall>item \<in> set items. rtt_of item = Keyword_enum \<longrightarrow>
     (\<forall>c \<in> set (children_of (last (children_of item))). plain (value_of c)))"

definition module_balanced :: "module_state \<Rightarrow> bool" where
  "module_balanced m \<longleftrightarrow> code_balanced (ms_result m) \<and> (\<forall>c \<in> snd ` set (name_to_code m). code_balanced c) \<and>
     (\<forall>s \<in> set (json_schema m). balanced s) \<and> (\<forall>name \<in> set (class_names m). plain name) \<and>
     length (class_names m) = ms_rtt m"

lemma analyze_item_balanced:
  assumes "analyze_item order state item m = Inr m'" "module_balanced m" "plain_state state" "plain_tree item"
    and "hash_order_ok order" "enums_plain [item]"
  shows "module_balanced m'"
proof -
  have scope: "named_scope item \<Longrightarrow> plain (value_of (hd (children_of item))) \<and>
      (\<forall>c \<in> set (children_of (last (children_of item))). plain_tree c)"
  proof -
    assume n: "named_scope item"
    then have "children_of item \<noteq> []" by (auto simp: named_scope_def)
    then have "plain_tree (hd (children_of item))" "plain_tree (last (children_of item))"
      using plain_child [OF assms(4)] by auto
    then show ?thesis using n plain_value plain_child by (auto simp: named_scope_def)
  qed
  consider "rtt_of item = Keyword_class" | "rtt_of item = Keyword_enum" | "rtt_of item \<notin> {Keyword_class, Keyword_enum}"
    by auto
  then show ?thesis
  proof cases
    case 1
    have n: "named_scope item" using assms(1) 1 by (auto simp: analyze_item_def split: if_splits)
    from analyze_item_class [OF assms(1) 1 assms(5)] obtain code schema where
      s: "analyze_struct order state (last (children_of item)) (ms_rtt m) (class_name item) (ms_dependencies m) =
           Inr (code, ms_dependencies m', schema)"
      and e: "name_to_code m' = insert_code (class_name item) code (name_to_code m)"
        "class_names m' = class_names m @ [class_name item]" "json_schema m' = json_schema m @ [schema]"
        "ms_rtt m' = ms_rtt m + 1" "ms_result m' = ms_result m"
      by metis
    have "code_balanced code \<and> balanced schema"
      using analyze_struct_balanced [OF s assms(3)] scope [OF n] assms(5) by (simp add: class_name_def)
    then show ?thesis
      using assms(2) scope [OF n] e by (auto simp: module_balanced_def insert_code_def class_name_def)
  next
    case 2
    obtain code schema where s: "named_scope item"
        "analyze_enum state (last (children_of item)) (value_of (hd (children_of item))) = Inr (code, schema)"
        "m' = m\<lparr>json_schema := json_schema m @ [schema], ms_result := code_append (ms_result m) code\<rparr>"
      using assms(1) 2 by (auto simp: analyze_item_def split: if_splits sum.splits)
    have "code_balanced code \<and> balanced schema"
      using enum_code_balanced [OF s(2)] assms(3,6) scope [OF s(1)] 2 by (simp add: plain_state_def enums_plain_def)
    then show ?thesis
      using assms(2) s(3) code_balanced_append by (auto simp: module_balanced_def)
  next
    case 3
    then show ?thesis using assms(1,2) by (auto simp: analyze_item_def)
  qed
qed

lemma analyze_items_balanced:
  "analyze_items order state items m = Inr m' \<Longrightarrow> module_balanced m \<Longrightarrow> plain_state state \<Longrightarrow>
    \<forall>item \<in> set items. plain_tree item \<Longrightarrow> hash_order_ok order \<Longrightarrow> enums_plain items \<Longrightarrow> module_balanced m'"
proof (induction items arbitrary: m)
  case (Cons item items)
  obtain m1 where m1: "analyze_item order state item m = Inr m1" "analyze_items order state items m1 = Inr m'"
    using Cons.prems(1) by (auto split: sum.splits)
  have "module_balanced m1"
    by (rule analyze_item_balanced [OF m1(1)]) (use Cons.prems in \<open>auto simp: enums_plain_def\<close>)
  then show ?case
    using Cons.IH [OF m1(2)] Cons.prems by (simp add: enums_plain_def)
qed simp

lemma code_balanced_foldl:
  "code_balanced c \<Longrightarrow> \<forall>x \<in> set cs. code_balanced x \<Longrightarrow> code_balanced (foldl code_append c cs)"
  by (induction cs arbitrary: c) (auto simp: code_balanced_append)

lemma order_classes_balanced:
  assumes "hash_order_ok order" "module_balanced m" "order_classes order m = Inr r"
  shows "code_balanced r"
proof -
  let ?code = "\<lambda>name. the (map_of (name_to_code m) name)"
  let ?codes = "map (\<lambda>name. (name, ?code name)) (order (map fst (name_to_code m)))"
  let ?D = "clean_dependencies (map fst (name_to_code m)) (ms_dependencies m)"
  have empty: "open_deps ?D {} = ?D" by (simp add: open_deps_def)
  have "\<exists>written. r = foldl code_append (ms_result m) (map snd written) \<and> mset written = mset ?codes"
    using order_loop_spec [of ?codes ?D "{}" "ms_result m", OF refl, unfolded empty, folded order_classes_def]
    unfolding assms(3)
  proof (elim disjE exE conjE)
    fix written assume "Inr r = Inr (foldl code_append (ms_result m) (map snd written))" "mset written = mset ?codes"
    then show ?thesis by (intro exI [of _ written] conjI) (rule sum.inject(2) [THEN iffD1])
  next
    fix e assume "Inr r = Inl e"
    then show ?thesis by (rule notE [OF sum.distinct(2)])
  qed
  then obtain written where w: "r = foldl code_append (ms_result m) (map snd written)" "mset written = mset ?codes"
    by (elim exE conjE)
  have "code_balanced (?code name)" if n: "name \<in> fst ` set (name_to_code m)" for name
  proof -
    obtain c where c: "map_of (name_to_code m) name = Some c"
      using n by (cases "map_of (name_to_code m) name") (simp_all add: map_of_eq_None_iff)
    have "c \<in> snd ` set (name_to_code m)" using map_of_SomeD [OF c] by (rule image_eqI [rotated]) simp
    then show ?thesis using assms(2) c unfolding module_balanced_def by fastforce
  qed
  then have "\<forall>c \<in> snd ` set written. code_balanced c"
    unfolding mset_eq_setD [OF w(2)] by (simp add: hash_order_set [OF assms(1)])
  then show ?thesis
    using assms(2) unfolding w(1) module_balanced_def by (intro code_balanced_foldl) auto
qed

section \<open>Property\<close>

text \<open>C18: generated code keeps its braces nested: whatever a description declares, if its names have no
  braces, each of the three texts that \<open>analyze\<close> gives closes every brace it opens and none that is
  not open.\<close>

theorem idl_output_balanced:
  assumes "hash_order_ok order" "plain_state state" "plain_tree expression" "enums_plain (module_items expression)"
    and "analyze order state expression = Inr (result, state')"
  shows "code_balanced result"
proof -
  from assms(5) obtain m r where m: "analyze_items order state' (module_items expression) module_new = Inr m"
      "order_classes order m = Inr r" "state' = in_module state expression" "named_scope expression"
      "result = r\<lparr>definitions := definitions r @ meta_serializers (namespace_name state') (ms_rtt m) (class_names m) @
         meta_models (ms_rtt m) (class_names m) @ meta_json_schema (json_schema m) @ meta_end (namespace_name state')\<rparr>"
    by (cases rule: analyze_cases) (auto split: sum.splits)
  have "children_of expression \<noteq> []" using m(4) by (auto simp: named_scope_def)
  then have c: "plain_tree (hd (children_of expression))" "plain_tree (last (children_of expression))"
    using plain_child [OF assms(3)] by auto
  have ns: "plain (namespace_name state')"
    using plain_value [OF c(1)] m(3,4) by (simp add: in_module_def named_scope_def)
  then have st: "plain_state state'" using assms(2) m(3) by (simp add: plain_state_def in_module_def)
  have "module_balanced module_new" by (simp add: module_balanced_def module_new_def code_balanced_new)
  then have b: "module_balanced m"
    using analyze_items_balanced [OF m(1) _ st _ assms(1,4)] plain_child [OF c(2)] by (simp add: module_items_def)
  have r: "code_balanced r" by (rule order_classes_balanced [OF assms(1) b m(2)])
  have "balanced (meta_serializers (namespace_name state') (ms_rtt m) (class_names m) @
         meta_models (ms_rtt m) (class_names m) @ meta_json_schema (json_schema m) @ meta_end (namespace_name state'))"
  proof -
    have m': "\<forall>name \<in> set (class_names m). plain name" "\<forall>s \<in> set (json_schema m). balanced s"
        "length (class_names m) = ms_rtt m"
      using b by (simp_all add: module_balanced_def)
    show ?thesis using meta_code_balanced [OF ns m'(1,2)] unfolding m'(3) .
  qed
  with r have "balanced (definitions r @ meta_serializers (namespace_name state') (ms_rtt m) (class_names m) @
      meta_models (ms_rtt m) (class_names m) @ meta_json_schema (json_schema m) @ meta_end (namespace_name state'))"
    unfolding code_balanced_def by (elim conjE) (rule balanced_append)
  then show ?thesis
    using r unfolding m(5) code_balanced_def generated_code.simps by simp
qed

theorem idl_output_balanced_witness:
  "\<exists>result state'. analyze (\<lambda>xs. xs) state_holder_new example_module = Inr (result, state') \<and> code_balanced result"
proof -
  obtain result where run: "analyze (\<lambda>xs. xs) state_holder_new example_module = Inr (result, in_module state_holder_new example_module)"
    using example_runs by blast
  have state: "plain_state state_holder_new"
    by (simp add: plain_state_def state_holder_new_def plain_def)
  have tree: "plain_tree example_module"
    by (simp add: example_module_def example_class_def leaf_def plain_def)
  have enums: "enums_plain (module_items example_module)"
    by (simp add: enums_plain_def module_items_def example_module_def example_class_def leaf_def plain_def)
  show ?thesis
    by (rule exI, rule exI, rule conjI, rule run, rule idl_output_balanced [OF same_order_ok state tree enums run])
qed

end
