(* ===== verification/Idl_Main.thy ===== *)
theory Idl_Main
  imports Strings Idl_Order
begin

text \<open>
  The program of \<open>src/idl/main.cpp\<close>, once it has parsed its description: it runs the generator and puts the
  generated code into the texts of \<open>src/idl/resources.cpp\<close>, by replacing placeholders in them. The
  three big texts are parameters, the two for optional members are written out. A loop that never ends
  is None.
\<close>

section \<open>Replacing\<close>

definition replace_at :: "string \<Rightarrow> nat \<Rightarrow> nat \<Rightarrow> string \<Rightarrow> string" where
  "replace_at s pos n str = take pos s @ str @ drop (pos + n) s"

definition replace_first :: "string \<Rightarrow> string \<Rightarrow> string \<Rightarrow> string" where
  "replace_first source lookup str =
     (case string_find source lookup 0 of
        Some pos \<Rightarrow> replace_at source pos (length lookup) str
      | None \<Rightarrow> source)"

partial_function (option) replace_all :: "string \<Rightarrow> string \<Rightarrow> string \<Rightarrow> string option" where
  "replace_all result lookup str =
     (case string_find result lookup 0 of
        Some pos \<Rightarrow> replace_all (replace_at result pos (length lookup) str) lookup str
      | None \<Rightarrow> Some result)"

section \<open>The texts\<close>

record resource_texts =
  file_declarations :: string
  file_template_definitions :: string
  file_definitions :: string

definition optional_serializer_declarations :: string where
  "optional_serializer_declarations = nl @ nl @
     ''template <typename T>'' @ nl @
     ''inline'' @ nl @
     ''std::string saver({optional}<T> const& value);'' @ nl @
     ''template <typename T>'' @ nl @
     ''inline'' @ nl @
     ''bool analyze_json({optional}<T>& value,'' @ nl @
     ''                  ::beltpp::json::expression_tree* pexp,'' @ nl @
     ''                  ::beltpp::message_loader_utility const& utl);'' @ nl @
     ''template <typename T>'' @ nl @
     ''inline'' @ nl @
     ''bool less({optional}<T> const& first, {optional}<T> const& second)'' @ nl @
     ''{'' @ nl @
     ''    std::less<std::string> c;'' @ nl @
     ''    return c(saver(first), saver(second));'' @ nl @
     ''}'' @ nl @ nl"

definition optional_serializer_definitions :: string where
  "optional_serializer_definitions = nl @ nl @
     ''template <typename T>'' @ nl @
     ''inline'' @ nl @
     ''bool analyze_json({optional}<T>& value,'' @ nl @
     ''                  ::beltpp::json::expression_tree* pexp,'' @ nl @
     ''                  ::beltpp::message_loader_utility const& utl)'' @ nl @
     ''{'' @ nl @
     ''    value.reset();'' @ nl @
     ''    bool code = true;'' @ nl @
     ''    if (nullptr == pexp)'' @ nl @
     ''        code = false;'' @ nl @
     ''    else'' @ nl @
     ''    {'' @ nl @
     ''        T optional_value;'' @ nl @
     ''        if (analyze_json(optional_value, pexp, utl))'' @ nl @
     ''            value = std::move(optional_value);'' @ nl @
     ''        else'' @ nl @
     ''        {'' @ nl @
     ''            code = false;'' @ nl @
     ''        }'' @ nl @
     ''    }'' @ nl @
     nl @
     ''    return code;'' @ nl @
     ''}'' @ nl @
     ''template <typename T>'' @ nl @
     ''std::string saver({optional}<T> const& value)'' @ nl @
     ''{'' @ nl @
     ''    if (value)'' @ nl @
     ''        return saver('' @ ''*'' @ ''value);'' @ nl @
     ''    return std::string();'' @ nl @
     ''}'' @ nl @ nl"

section \<open>The program\<close>

text \<open>The arguments are those after the name of the program.\<close>

record written_files =
  written :: "(string \<times> string) list"
  printed :: string

definition optional_texts :: "string \<Rightarrow> (string \<times> string) option" where
  "optional_texts optional =
     (if optional \<noteq> []
      then do {
        declarations \<leftarrow> replace_all optional_serializer_declarations ''{optional}'' optional;
        definitions \<leftarrow> replace_all optional_serializer_definitions ''{optional}'' optional;
        Some (declarations, definitions)
      }
      else Some ([], []))"

definition expand_texts :: "resource_texts \<Rightarrow> state_holder \<Rightarrow> generated_code \<Rightarrow> resource_texts option" where
  "expand_texts resources state generated =
     do {
       decl \<leftarrow> replace_all (file_declarations resources) ''{namespace_name}'' (namespace_name state);
       tmpl \<leftarrow> replace_all (file_template_definitions resources) ''{namespace_name}'' (namespace_name state);
       defs \<leftarrow> replace_all (file_definitions resources) ''{namespace_name}'' (namespace_name state);
       optional \<leftarrow> optional_texts (optional_type state);
       defs \<leftarrow> replace_all defs ''{expand_optional_serializer_declarations}'' (fst optional);
       defs \<leftarrow> replace_all defs ''{expand_optional_serializer_definitions}'' (snd optional);
       Some \<lparr>file_declarations =
               replace_first decl ''{expand_message_classes_declarations}'' (declarations generated),
             file_template_definitions =
               replace_first tmpl ''{expand_message_classes_template_definitions}'' (template_definitions generated),
             file_definitions =
               replace_first defs ''{expand_message_classes_definitions}'' (definitions generated)\<rparr>
     }"

definition splitting :: "string list \<Rightarrow> bool" where
  "splitting args \<longleftrightarrow> 3 \<le> length args \<and> args ! 2 \<noteq> ''nosplitting''"

definition exporting :: "string list \<Rightarrow> bool" where
  "exporting args \<longleftrightarrow> splitting args \<and> 4 \<le> length args \<and> args ! 3 \<noteq> ''noexporting''"

definition remove_inline :: "string \<Rightarrow> string option" where
  "remove_inline text = do { text \<leftarrow> replace_all text ''inline '' []; replace_all text (''inline'' @ nl) [] }"

definition finish_texts :: "string list \<Rightarrow> resource_texts \<Rightarrow> resource_texts option" where
  "finish_texts args texts =
     do {
       let keyword = (if exporting args then args ! 3 @ '' '' else []);
       decl \<leftarrow> (if splitting args then remove_inline (file_declarations texts) else Some (file_declarations texts));
       tmpl \<leftarrow> (if splitting args then remove_inline (file_template_definitions texts)
               else Some (file_template_definitions texts));
       decl \<leftarrow> replace_all decl ''{export} '' keyword;
       tmpl \<leftarrow> replace_all tmpl ''{export} '' keyword;
       Some (texts\<lparr>file_declarations := decl, file_template_definitions := tmpl\<rparr>)
     }"

text \<open>A file that is opened is there, and empty, even when the other files cannot be opened.\<close>

definition write_texts :: "(string \<Rightarrow> bool) \<Rightarrow> string list \<Rightarrow> resource_texts \<Rightarrow> written_files" where
  "write_texts can_open args texts =
     (let decl = file_declarations texts; tmpl = file_template_definitions texts; defs = file_definitions texts;
          files = (if length args < 2 then []
                   else if \<not> splitting args then [(args ! 1 @ ''.hpp'', decl @ tmpl @ defs)]
                   else [(args ! 1 @ ''.hpp'', decl), (args ! 1 @ ''.tmpl.hpp'', tmpl), (args ! 1 @ ''.cpp.hpp'', defs)]);
          opened = filter (\<lambda>f. can_open (fst f)) files
      in if files \<noteq> [] \<and> opened = files
         then \<lparr>written = files, printed = []\<rparr>
         else \<lparr>written = map (\<lambda>f. (fst f, [])) opened, printed = decl @ defs\<rparr>)"

definition state_of_args :: "string list \<Rightarrow> state_holder" where
  "state_of_args args =
     (if 5 \<le> length args then state_holder_new\<lparr>optional_type := args ! 4\<rparr> else state_holder_new)"

definition idl_main ::
  "resource_texts \<Rightarrow> hash_order \<Rightarrow> (string \<Rightarrow> bool) \<Rightarrow> string list \<Rightarrow> idl_tree \<Rightarrow> written_files result option" where
  "idl_main resources order can_open args expression =
     (case analyze order (state_of_args args) expression of
        Inl e \<Rightarrow> Some (Inl e)
      | Inr (generated, state) \<Rightarrow>
          do {
            texts \<leftarrow> expand_texts resources state generated;
            texts \<leftarrow> finish_texts args texts;
            Some (Inr (write_texts can_open args texts))
          })"

section \<open>When replacing ends\<close>

lemma find_split:
  assumes "string_find s l 0 = Some n"
  shows "\<exists>a b. s = a @ l @ b \<and> length a = n \<and> (l \<noteq> [] \<longrightarrow> \<not> sublist l a) \<and> replace_at s n (length l) r = a @ r @ b"
proof -
  have n: "n \<le> length s" "prefix l (drop n s)" "\<And>j. j < n \<Longrightarrow> \<not> prefix l (drop j s)"
    using assms by (auto simp: string_find_Some)
  obtain b where b: "drop n s = l @ b" using n(2) by (auto simp: prefix_def)
  have s: "s = take n s @ l @ b" using b append_take_drop_id [of n s] by simp
  have "\<not> sublist l (take n s)" if l: "l \<noteq> []"
  proof
    assume "sublist l (take n s)"
    then obtain x y where xy: "take n s = x @ l @ y" by (auto simp: sublist_def)
    have "length (take n s) = length x + length l + length y" unfolding xy by simp
    then have "length x < n" using l n(1) by (cases l) simp_all
    moreover have "prefix l (drop (length x) s)" by (subst s, subst xy) (simp add: prefix_def)
    ultimately show False using n(3) by blast
  qed
  moreover have "replace_at s n (length l) r = take n s @ r @ b"
    using b n(1) unfolding replace_at_def by (metis append_eq_conv_conj drop_drop add.commute)
  ultimately show ?thesis
    using s n(1) by (intro exI [of _ "take n s"] exI [of _ b]) auto
qed

lemma find_no_sublist: "string_find s l 0 = None \<longleftrightarrow> \<not> sublist l s"
proof
  assume "string_find s l 0 = None"
  then have "\<And>j. j \<le> length s \<Longrightarrow> \<not> prefix l (drop j s)" by (simp add: string_find_None)
  then show "\<not> sublist l s"
    by (metis append_eq_conv_conj le_add1 length_append prefix_def sublist_def)
next
  assume "\<not> sublist l s"
  then show "string_find s l 0 = None"
    using find_split [of s l] by (cases "string_find s l 0") (auto simp: sublist_def)
qed

text \<open>Each round is one step of this relation; \<open>P\<close> is kept by all of them.\<close>

lemma replace_all_induct:
  assumes "replace_all s l r = Some res"
    and "P s" and "\<And>a b. P (a @ l @ b) \<Longrightarrow> l \<noteq> [] \<longrightarrow> \<not> sublist l a \<Longrightarrow> P (a @ r @ b)"
  shows "P res \<and> \<not> sublist l res"
proof -
  have "P s \<longrightarrow> (\<forall>a b. P (a @ l @ b) \<longrightarrow> (l \<noteq> [] \<longrightarrow> \<not> sublist l a) \<longrightarrow> P (a @ r @ b)) \<longrightarrow> P res \<and> \<not> sublist l res"
  proof (rule replace_all.raw_induct [OF _ assms(1)], intro impI)
    fix f s l r res
    assume IH: "\<And>s l r res. f s l r = Some res \<Longrightarrow> P s \<longrightarrow>
        (\<forall>a b. P (a @ l @ b) \<longrightarrow> (l \<noteq> [] \<longrightarrow> \<not> sublist l a) \<longrightarrow> P (a @ r @ b)) \<longrightarrow> P res \<and> \<not> sublist l res"
      and step: "(case string_find s l 0 of None \<Rightarrow> Some s | Some pos \<Rightarrow> f (replace_at s pos (length l) r) l r) = Some res"
      and P: "P s" "\<forall>a b. P (a @ l @ b) \<longrightarrow> (l \<noteq> [] \<longrightarrow> \<not> sublist l a) \<longrightarrow> P (a @ r @ b)"
    show "P res \<and> \<not> sublist l res"
    proof (cases "string_find s l 0")
      case None
      then have "\<not> sublist l s" by (rule find_no_sublist [THEN iffD1])
      moreover have "res = s" using step None by simp
      ultimately show ?thesis using P(1) by simp
    next
      case (Some pos)
      with find_split [OF Some, of r] obtain a b where ab: "s = a @ l @ b" "l \<noteq> [] \<longrightarrow> \<not> sublist l a"
          "replace_at s pos (length l) r = a @ r @ b"
        by blast
      then have "P (replace_at s pos (length l) r)" using P by simp
      then show ?thesis using IH [of "replace_at s pos (length l) r" l r res] step Some P(2) by simp
    qed
  qed
  then show ?thesis using assms(2,3) by blast
qed

lemma replace_all_step:
  assumes "sublist l s"
  obtains a b where "s = a @ l @ b" "l \<noteq> [] \<longrightarrow> \<not> sublist l a" "replace_all s l r = replace_all (a @ r @ b) l r"
proof -
  obtain n where n: "string_find s l 0 = Some n" using assms find_no_sublist [of s l] by (cases "string_find s l 0") auto
  from find_split [OF n, of r] obtain a b where "s = a @ l @ b" "l \<noteq> [] \<longrightarrow> \<not> sublist l a" "replace_at s n (length l) r = a @ r @ b"
    by blast
  moreover have "replace_all s l r = replace_all (replace_at s n (length l) r) l r"
    by (subst replace_all.simps) (simp add: n)
  ultimately show ?thesis by (intro that) auto
qed

lemma replace_all_none: "\<not> sublist l s \<Longrightarrow> replace_all s l r = Some s"
  by (subst replace_all.simps) (simp add: find_no_sublist [THEN iffD2])

lemma replace_all_hangs:
  assumes "sublist l r" "sublist l s"
  shows "replace_all s l r = None"
proof (rule ccontr)
  assume "replace_all s l r \<noteq> None"
  then obtain res where "replace_all s l r = Some res" by auto
  then have "sublist l res \<and> \<not> sublist l res"
    by (rule replace_all_induct [where P = "sublist l"])
       (use assms in \<open>auto simp: sublist_append\<close>)
  then show False by simp
qed

lemma replace_all_count:
  assumes "count_list r c < count_list l c"
  shows "\<exists>res. replace_all s l r = Some res"
proof (induction "count_list s c" arbitrary: s rule: less_induct)
  case less
  show ?case
  proof (cases "sublist l s")
    case True
    obtain a b where ab: "s = a @ l @ b" "replace_all s l r = replace_all (a @ r @ b) l r"
      using replace_all_step [OF True] by metis
    then show ?thesis using less [of "a @ r @ b"] assms by simp
  qed (auto simp: replace_all_none)
qed

text \<open>A replacement that contains the placeholder nowhere and has other characters at its ends.\<close>

definition sealed :: "string \<Rightarrow> string \<Rightarrow> bool" where
  "sealed l r \<longleftrightarrow> r \<noteq> [] \<and> hd r \<notin> set l \<and> last r \<notin> set l \<and> \<not> sublist l r"

lemma replace_all_sealed_from:
  assumes "sealed l r" "l \<noteq> []"
  shows "(done_part = [] \<or> last done_part \<notin> set l) \<Longrightarrow> \<not> sublist l done_part \<Longrightarrow>
    \<exists>res. replace_all (done_part @ rest) l r = Some res"
proof (induction "length rest" arbitrary: done_part rest rule: less_induct)
  case less
  let ?d = done_part
  show ?case
  proof (cases "sublist l (?d @ rest)")
    case True
    obtain a b where ab: "?d @ rest = a @ l @ b" "\<not> sublist l a" "replace_all (?d @ rest) l r = replace_all (a @ r @ b) l r"
      using replace_all_step [OF True] assms(2) by metis
    obtain a' where a': "a = ?d @ a'" "rest = a' @ l @ b"
    proof -
      from ab(1) obtain us where us: "a = ?d @ us \<and> rest = us @ l @ b \<or> ?d = a @ us \<and> us @ rest = l @ b"
        unfolding append_eq_append_conv2 by metis
      show ?thesis
      proof (cases "a = ?d @ us \<and> rest = us @ l @ b \<or> us = []")
        case True
        then show ?thesis using us that [of us] that [of "[]"] by auto
      next
        case False
        then have bad: "?d = a @ us" "us @ rest = l @ b" "us \<noteq> []" using us by auto
        then obtain vs where "us = l @ vs \<or> l = us @ vs" unfolding append_eq_append_conv2 by metis
        then show ?thesis
        proof
          assume "us = l @ vs"
          then show ?thesis using bad(1) less.prems(2) by (auto simp: sublist_def)
        next
          assume "l = us @ vs"
          then show ?thesis using bad less.prems(1) by auto
        qed
      qed
    qed
    have "\<not> sublist l (a @ r)"
    proof
      assume "sublist l (a @ r)"
      then show False
        using assms ab(2) by (cases r) (auto simp: sealed_def sublist_append prefix_Cons)
    qed
    moreover have "last (a @ r) \<notin> set l" using assms(1) by (simp add: sealed_def)
    moreover have "length b < length rest" using a'(2) assms(2) by (cases l) auto
    ultimately have "\<exists>res. replace_all ((a @ r) @ b) l r = Some res" by (intro less.hyps) simp_all
    then show ?thesis using ab(3) by simp
  qed (auto simp: replace_all_none)
qed

lemma replace_all_sealed: "sealed l r \<Longrightarrow> l \<noteq> [] \<Longrightarrow> \<exists>res. replace_all s l r = Some res"
  using replace_all_sealed_from [of l r "[]" s] by simp

section \<open>The texts for optional members\<close>

text \<open>No brace is followed by another or by the first letter of \<open>expand\<close>, and there are line breaks at both
  ends: that stays so when a name without braces takes the place of \<open>{optional}\<close>.\<close>

definition apart :: "char \<Rightarrow> char \<Rightarrow> bool" where
  "apart c d \<longleftrightarrow> (c = CHR ''{'' \<longrightarrow> d \<noteq> CHR ''{'' \<and> d \<noteq> CHR ''e'')"

definition in_lines :: "string \<Rightarrow> bool" where
  "in_lines s \<longleftrightarrow> s \<noteq> [] \<and> hd s = CHR 0x0A \<and> last s = CHR 0x0A \<and> successively apart s"

lemma no_brace_apart: "CHR ''{'' \<notin> set r \<Longrightarrow> successively apart r"
  by (induction r rule: induct_list012) (auto simp: apart_def)

lemma in_lines_replace:
  assumes "in_lines (a @ ''{optional}'' @ b)" "CHR ''{'' \<notin> set r"
  shows "in_lines (a @ r @ b)"
proof -
  have a: "a \<noteq> []" "last a \<noteq> CHR ''{''" and b: "b \<noteq> []"
    by (use assms(1) in \<open>cases a rule: rev_cases; simp add: in_lines_def successively_append_iff apart_def\<close>)
      (use assms(1) in \<open>cases a rule: rev_cases; simp add: in_lines_def successively_append_iff apart_def\<close>,
       use assms(1) in \<open>cases b; simp add: in_lines_def\<close>)
  have s: "successively apart a" "successively apart b" "hd a = CHR 0x0A" "last b = CHR 0x0A"
    using assms(1) a b by (auto simp: in_lines_def successively_append_iff successively_Cons)
  have "r \<noteq> [] \<Longrightarrow> last r \<noteq> CHR ''{''" using assms(2) by (metis last_in_set)
  then show ?thesis
    using a b s no_brace_apart [OF assms(2)] by (cases "r = []") (auto simp: in_lines_def successively_append_iff apart_def)
qed

lemma in_lines_sealed:
  assumes "in_lines s" "l = CHR ''{'' # CHR ''e'' # l'" "CHR 0x0A \<notin> set l"
  shows "sealed l s"
proof -
  have "\<not> sublist l s"
  proof
    assume "sublist l s"
    then obtain a b where "s = a @ l @ b" by (auto simp: sublist_def)
    then show False using assms(1,2) by (auto simp: in_lines_def successively_append_iff apart_def)
  qed
  then show ?thesis using assms(1,3) by (simp add: sealed_def in_lines_def)
qed

lemma optional_in_lines: "in_lines optional_serializer_declarations" "in_lines optional_serializer_definitions"
  by code_simp+

lemma optional_texts_sealed:
  assumes "CHR ''{'' \<notin> set optional"
  shows "\<exists>d e. optional_texts optional = Some (d, e) \<and> (optional = [] \<and> d = [] \<and> e = [] \<or> in_lines d \<and> in_lines e)"
proof (cases "optional = []")
  case False
  have "count_list optional CHR ''{'' < count_list ''{optional}'' CHR ''{''"
    using assms by (simp add: count_list_0_iff [THEN iffD2])
  then obtain d e where de: "replace_all optional_serializer_declarations ''{optional}'' optional = Some d"
      "replace_all optional_serializer_definitions ''{optional}'' optional = Some e"
    using replace_all_count by blast
  have "in_lines d" "in_lines e"
    using replace_all_induct [OF de(1), of in_lines] replace_all_induct [OF de(2), of in_lines]
      optional_in_lines in_lines_replace assms by blast+
  then show ?thesis using False de by (simp add: optional_texts_def)
qed (simp add: optional_texts_def)

lemma replace_all_optional_ends:
  assumes "r = [] \<or> in_lines r" "l = CHR ''{'' # CHR ''e'' # l'" "CHR 0x0A \<notin> set l"
  shows "\<exists>res. replace_all s l r = Some res"
proof (cases "r = []")
  case True
  then show ?thesis using replace_all_count [of r "CHR ''{''" l] assms(2) by simp
next
  case False
  then show ?thesis using replace_all_sealed [OF in_lines_sealed [OF _ assms(2,3)]] assms(1,2) by auto
qed

section \<open>Properties\<close>

lemma brace_ends: "CHR ''{'' \<notin> set r \<Longrightarrow> \<exists>res. replace_all s (CHR ''{'' # l) r = Some res"
  by (rule replace_all_count [where c = "CHR ''{''"]) (simp add: count_list_0_iff [THEN iffD2])

lemma expand_ends:
  assumes "CHR ''{'' \<notin> set (namespace_name state)" "CHR ''{'' \<notin> set (optional_type state)"
  shows "\<exists>texts. expand_texts resources state generated = Some texts"
proof -
  obtain decl tmpl defs where 1: "replace_all (file_declarations resources) ''{namespace_name}'' (namespace_name state) = Some decl"
      "replace_all (file_template_definitions resources) ''{namespace_name}'' (namespace_name state) = Some tmpl"
      "replace_all (file_definitions resources) ''{namespace_name}'' (namespace_name state) = Some defs"
    using brace_ends [OF assms(1)] by meson
  obtain d e where 2: "optional_texts (optional_type state) = Some (d, e)" "d = [] \<or> in_lines d" "e = [] \<or> in_lines e"
    using optional_texts_sealed [OF assms(2)] by auto
  obtain defs1 where 3: "replace_all defs ''{expand_optional_serializer_declarations}'' d = Some defs1"
    using replace_all_optional_ends [OF 2(2) refl] by force
  obtain defs2 where 4: "replace_all defs1 ''{expand_optional_serializer_definitions}'' e = Some defs2"
    using replace_all_optional_ends [OF 2(3) refl] by force
  show ?thesis unfolding expand_texts_def by (simp add: 1 2(1) 3 4)
qed

lemma remove_inline_ends: "\<exists>res. remove_inline s = Some res"
proof -
  have ends: "\<exists>res. replace_all s (CHR ''i'' # l) [] = Some res" for s l
    by (rule replace_all_count [where c = "CHR ''i''"]) simp
  obtain a where "replace_all s ''inline '' [] = Some a" using ends by blast
  moreover obtain b where "replace_all a (''inline'' @ nl) [] = Some b" using ends [of a] by force
  ultimately show ?thesis by (simp add: remove_inline_def)
qed

lemma finish_ends:
  assumes "\<forall>arg \<in> set args. CHR ''{'' \<notin> set arg"
  shows "\<exists>r. finish_texts args texts = Some r"
proof -
  let ?keyword = "if exporting args then args ! 3 @ '' '' else []"
  have "CHR ''{'' \<notin> set ?keyword" using assms by (auto simp: exporting_def)
  then have ends: "\<exists>res. replace_all s ''{export} '' ?keyword = Some res" for s by (rule brace_ends)
  obtain d where d: "(if splitting args then remove_inline (file_declarations texts) else Some (file_declarations texts)) = Some d"
    using remove_inline_ends by (cases "splitting args") auto
  obtain t where t: "(if splitting args then remove_inline (file_template_definitions texts)
      else Some (file_template_definitions texts)) = Some t"
    using remove_inline_ends by (cases "splitting args") auto
  obtain d' t' where "replace_all d ''{export} '' ?keyword = Some d'" "replace_all t ''{export} '' ?keyword = Some t'"
    using ends by blast
  then show ?thesis unfolding finish_texts_def Let_def by (simp only: d t Option.bind.simps) simp
qed

text \<open>C33: replacing every placeholder: if some character occurs more often in the placeholder than in
  what replaces it, or if the replacement is sealed against the placeholder, \<open>replace_all\<close> ends and leaves no
  placeholder; if the replacement contains the placeholder, it never ends on a text that has one.\<close>

theorem replace_all_outcome:
  "((\<exists>c. count_list str c < count_list lookup c) \<or> lookup \<noteq> [] \<and> sealed lookup str \<longrightarrow>
      (\<exists>result. replace_all source lookup str = Some result \<and> \<not> sublist lookup result)) \<and>
   (sublist lookup str \<and> sublist lookup source \<longrightarrow> replace_all source lookup str = None)"
proof (intro conjI impI)
  assume "(\<exists>c. count_list str c < count_list lookup c) \<or> lookup \<noteq> [] \<and> sealed lookup str"
  then obtain result where r: "replace_all source lookup str = Some result"
    using replace_all_count replace_all_sealed by blast
  moreover have "\<not> sublist lookup result" using replace_all_induct [OF r, of "\<lambda>_. True"] by simp
  ultimately show "\<exists>result. replace_all source lookup str = Some result \<and> \<not> sublist lookup result" by blast
qed (blast intro: replace_all_hangs)

theorem replace_all_outcome_witness:
  "(\<exists>result. replace_all ''inline inlinline e'' ''inline '' [] = Some result \<and> \<not> sublist ''inline '' result) \<and>
   replace_all ''{export} class'' ''{export} '' ''{export} '' = None"
  using replace_all_outcome [of "[]" "''inline ''" "''inline inlinline e''"]
    replace_all_outcome [of "''{export} ''" "''{export} ''" "''{export} class''"]
  by (simp add: exI [of _ "CHR ''i''"])

text \<open>C19: the generator program comes to an end: whatever the texts of the resources and the generated code,
  if neither the arguments nor the name of the module have an opening brace, all its replacements end; it fails
  exactly when \<open>analyze\<close> does, and otherwise, if all the files can be opened, it writes the one or three files
  of the mode it runs in, and prints nothing.\<close>

theorem idl_main_ends:
  assumes "\<forall>arg \<in> set args. CHR ''{'' \<notin> set arg" "CHR ''{'' \<notin> set (value_of (hd (children_of expression)))"
  shows "(\<exists>e. idl_main resources order can_open args expression = Some (Inl e) \<and>
        analyze order (state_of_args args) expression = Inl e) \<or>
    (\<exists>out. idl_main resources order can_open args expression = Some (Inr out) \<and>
      (2 \<le> length args \<and> (\<forall>f. can_open f) \<longrightarrow>
        printed out = [] \<and>
        map fst (written out) = map (\<lambda>suffix. args ! 1 @ suffix)
          (if splitting args then [''.hpp'', ''.tmpl.hpp'', ''.cpp.hpp''] else [''.hpp''])))"
proof -
  let ?state = "state_of_args args"
  show ?thesis
  proof (cases "analyze order ?state expression")
    case (Inl e)
    then show ?thesis unfolding idl_main_def by (intro disjI1 exI [of _ e] conjI) simp_all
  next
    case (Inr r)
    obtain generated state where r: "r = (generated, state)" by (cases r)
    have state: "state = in_module ?state expression"
      using Inr r by (cases rule: analyze_cases [of order ?state expression, OF refl]) (auto split: sum.splits)
    have "CHR ''{'' \<notin> set (optional_type ?state)" using assms(1) by (auto simp: state_of_args_def state_holder_new_def)
    then have "CHR ''{'' \<notin> set (namespace_name state)" "CHR ''{'' \<notin> set (optional_type state)"
      using assms(2) unfolding state in_module_def by simp_all
    then obtain texts where texts: "expand_texts resources state generated = Some texts" using expand_ends by blast
    obtain texts' where texts': "finish_texts args texts = Some texts'" using finish_ends [OF assms(1)] by blast
    have "idl_main resources order can_open args expression = Some (Inr (write_texts can_open args texts'))"
      unfolding idl_main_def using Inr r texts texts' by simp
    then show ?thesis
      by (intro disjI2 exI conjI) (assumption, auto simp: write_texts_def Let_def)
  qed
qed

text \<open>The example module, generated to \<open>shop.hpp\<close> with templates that have one placeholder each.\<close>

theorem idl_main_ends_witness:
  "\<exists>out. idl_main \<lparr>file_declarations = ''{expand_message_classes_declarations}'',
       file_template_definitions = ''{expand_message_classes_template_definitions}'',
       file_definitions = ''{expand_message_classes_definitions}''\<rparr>
     (\<lambda>xs. xs) (\<lambda>_. True) [''shop.idl'', ''shop''] example_module = Some (Inr out) \<and>
     map fst (written out) = [''shop.hpp'']"
proof -
  let ?resources = "\<lparr>file_declarations = ''{expand_message_classes_declarations}'',
       file_template_definitions = ''{expand_message_classes_template_definitions}'',
       file_definitions = ''{expand_message_classes_definitions}''\<rparr>"
  let ?main = "idl_main ?resources (\<lambda>xs. xs) (\<lambda>_. True) [''shop.idl'', ''shop''] example_module"
  obtain result state where "analyze (\<lambda>xs. xs) state_holder_new example_module = Inr (result, state)"
    using example_runs by blast
  then have no_error: "?main \<noteq> Some (Inl e)" for e
    by (simp add: idl_main_def state_of_args_def split: Option.bind_split)
  have "\<forall>arg \<in> set [''shop.idl'', ''shop'']. CHR ''{'' \<notin> set arg"
    "CHR ''{'' \<notin> set (value_of (hd (children_of example_module)))"
    by (simp_all add: example_module_def leaf_def)
  from idl_main_ends [OF this, of ?resources "\<lambda>xs. xs" "\<lambda>_. True"] show ?thesis
    using no_error by (auto simp: splitting_def)
qed

end
