(* ===== verification/Idl_Lexers.thy ===== *)
theory Idl_Lexers
  imports Idl_Types Json_String
begin

text \<open>
  The lexers of message descriptions, \<open>src/belt.pp/idl_parser.hpp\<close>. Each has a \<open>check\<close> that is asked for
  one character after another, with a state of its own, and a \<open>final_check\<close> of the whole text. What they
  accept is shown here; the loop that asked them is not part of the repository any more.
\<close>

section \<open>The numbers of an operator\<close>

record operator_numbers =
  op_right :: u8
  op_left_max :: u8
  op_left_min :: u8
  op_property :: u8

definition keyword_numbers :: "u8 \<Rightarrow> operator_numbers" where
  "keyword_numbers right = \<lparr>op_right = right, op_left_max = 0, op_left_min = 0, op_property = 1\<rparr>"

section \<open>Keywords\<close>

definition lower_check :: "char \<Rightarrow> three_state" where
  "lower_check ch = (if 97 \<le> char_code ch \<and> char_code ch \<le> 122 then Attempt else Error)"

definition letter_check :: "char \<Rightarrow> three_state" where
  "letter_check ch = (if 97 \<le> tolower ch \<and> tolower ch \<le> 122 then Attempt else Error)"

definition keyword_module_check :: "char \<Rightarrow> three_state" where "keyword_module_check = lower_check"
definition keyword_module_final :: "string \<Rightarrow> bool" where "keyword_module_final s \<longleftrightarrow> s = ''module''"

definition keyword_class_check :: "char \<Rightarrow> three_state" where "keyword_class_check = lower_check"
definition keyword_class_final :: "string \<Rightarrow> bool" where "keyword_class_final s \<longleftrightarrow> s = ''class''"

definition keyword_enum_check :: "char \<Rightarrow> three_state" where "keyword_enum_check = lower_check"
definition keyword_enum_final :: "string \<Rightarrow> bool" where "keyword_enum_final s \<longleftrightarrow> s = ''enum''"

definition keyword_array_check :: "char \<Rightarrow> three_state" where "keyword_array_check = letter_check"
definition keyword_array_final :: "string \<Rightarrow> bool" where "keyword_array_final s \<longleftrightarrow> s = ''Array''"

definition keyword_optional_check :: "char \<Rightarrow> three_state" where "keyword_optional_check = letter_check"
definition keyword_optional_final :: "string \<Rightarrow> bool" where "keyword_optional_final s \<longleftrightarrow> s = ''Optional''"

definition keyword_variant_check :: "char \<Rightarrow> three_state" where "keyword_variant_check = letter_check"
definition keyword_variant_final :: "string \<Rightarrow> bool" where "keyword_variant_final s \<longleftrightarrow> s = ''Variant''"

definition keyword_set_check :: "char \<Rightarrow> three_state" where "keyword_set_check = letter_check"
definition keyword_set_final :: "string \<Rightarrow> bool" where "keyword_set_final s \<longleftrightarrow> s = ''Set''"

definition keyword_hash_check :: "char \<Rightarrow> three_state" where "keyword_hash_check = letter_check"
definition keyword_hash_final :: "string \<Rightarrow> bool" where "keyword_hash_final s \<longleftrightarrow> s = ''Hash''"

section \<open>Braces, identifiers, comments\<close>

text \<open>The numbers are set by the brace that is read; before, they are those of an opening one.\<close>

definition scope_brace_new :: operator_numbers where
  "scope_brace_new = \<lparr>op_right = - 1, op_left_max = 0, op_left_min = 0, op_property = 8\<rparr>"

definition scope_brace_check :: "char \<Rightarrow> operator_numbers \<Rightarrow> three_state \<times> operator_numbers" where
  "scope_brace_check ch n =
     (if ch = CHR ''{'' then (Success, \<lparr>op_right = - 1, op_left_max = 0, op_left_min = 0, op_property = 8\<rparr>)
      else if ch = CHR ''}'' then (Success, \<lparr>op_right = 0, op_left_max = - 1, op_left_min = 0, op_property = 4\<rparr>)
      else (Error, n))"

definition scope_brace_final :: "string \<Rightarrow> bool" where
  "scope_brace_final s \<longleftrightarrow> s = ''{'' \<or> s = ''}''"

definition identifier_check :: "char \<Rightarrow> bool \<Rightarrow> three_state \<times> bool" where
  "identifier_check ch start =
     (if 97 \<le> tolower ch \<and> tolower ch \<le> 122 \<or> ch = CHR ''_'' \<or>
         48 \<le> char_code ch \<and> char_code ch \<le> 57 \<and> \<not> start
      then (Attempt, False) else (Error, False))"

definition identifier_final :: "string \<Rightarrow> bool" where
  "identifier_final s \<longleftrightarrow> s \<noteq> []"

definition discard_comment_new :: u8 where "discard_comment_new = - 1"

definition discard_comment_check :: "char \<Rightarrow> u8 \<Rightarrow> three_state \<times> u8" where
  "discard_comment_check ch index =
     (let index = (if index < 2 then index + 1 else index)
      in if (0 = index \<or> 1 = index) \<and> CHR ''/'' = ch then (Attempt, index)
         else if 1 < index \<and> CHR 0x0A = ch then (Success, index)
         else if 1 < index then (Attempt, index)
         else (Error, index))"

definition discard_comment_final :: "string \<Rightarrow> bool" where
  "discard_comment_final s \<longleftrightarrow>
     length s \<ge> 3 \<and> s ! 0 = CHR ''/'' \<and> s ! 1 = CHR ''/'' \<and> List.last s = CHR 0x0A"

section \<open>What they accept\<close>

text \<open>A lexer goes along with a text if it answers every character with an attempt.\<close>

fun attempts :: "(char \<Rightarrow> 's \<Rightarrow> three_state \<times> 's) \<Rightarrow> 's \<Rightarrow> string \<Rightarrow> bool" where
  "attempts ask s [] = True"
| "attempts ask s (c # cs) = (case ask c s of (Attempt, s) \<Rightarrow> attempts ask s cs | _ \<Rightarrow> False)"

abbreviation stateless :: "(char \<Rightarrow> three_state) \<Rightarrow> char \<Rightarrow> unit \<Rightarrow> three_state \<times> unit" where
  "stateless ask c s \<equiv> (ask c, s)"

definition is_letter :: "char \<Rightarrow> bool" where
  "is_letter c \<longleftrightarrow> 65 \<le> char_code c \<and> char_code c \<le> 90 \<or> 97 \<le> char_code c \<and> char_code c \<le> 122"

definition decimal :: "char \<Rightarrow> bool" where
  "decimal c \<longleftrightarrow> 48 \<le> char_code c \<and> char_code c \<le> 57"

definition word_char :: "char \<Rightarrow> bool" where
  "word_char c \<longleftrightarrow> is_letter c \<or> c = CHR ''_'' \<or> decimal c"

lemma tolower_letter: "97 \<le> tolower c \<and> tolower c \<le> 122 \<longleftrightarrow> is_letter c"
  by (auto simp: tolower_def is_letter_def)

lemma attempts_word: "attempts identifier_check False s \<longleftrightarrow> (\<forall>c \<in> set s. word_char c)"
  by (induction s) (auto simp: identifier_check_def tolower_letter word_char_def decimal_def)

lemma attempts_identifier:
  "attempts identifier_check True s \<longleftrightarrow> (\<forall>c \<in> set s. word_char c) \<and> (s \<noteq> [] \<longrightarrow> \<not> decimal (hd s))"
  by (cases s) (auto simp: identifier_check_def tolower_letter attempts_word word_char_def decimal_def is_letter_def)

lemma attempts_stateless: "attempts (stateless ask) s cs \<longleftrightarrow> (\<forall>c \<in> set cs. ask c = Attempt)"
  by (induction cs) (auto split: three_state.splits)

lemmas keyword_defs = keyword_module_check_def keyword_module_final_def keyword_class_check_def keyword_class_final_def
  keyword_enum_check_def keyword_enum_final_def keyword_array_check_def keyword_array_final_def
  keyword_optional_check_def keyword_optional_final_def keyword_variant_check_def keyword_variant_final_def
  keyword_set_check_def keyword_set_final_def keyword_hash_check_def keyword_hash_final_def

text \<open>The \<open>check\<close> of a keyword's lexer goes along with every text its \<open>final_check\<close> takes, and so does
  that of identifiers: only the order in which the lexers are asked makes a keyword of such a text.\<close>

lemma keyword_final_attempts:
  "keyword_module_final s \<Longrightarrow> attempts (stateless keyword_module_check) () s"
  "keyword_class_final s \<Longrightarrow> attempts (stateless keyword_class_check) () s"
  "keyword_enum_final s \<Longrightarrow> attempts (stateless keyword_enum_check) () s"
  "keyword_array_final s \<Longrightarrow> attempts (stateless keyword_array_check) () s"
  "keyword_optional_final s \<Longrightarrow> attempts (stateless keyword_optional_check) () s"
  "keyword_variant_final s \<Longrightarrow> attempts (stateless keyword_variant_check) () s"
  "keyword_set_final s \<Longrightarrow> attempts (stateless keyword_set_check) () s"
  "keyword_hash_final s \<Longrightarrow> attempts (stateless keyword_hash_check) () s"
  unfolding keyword_defs by (simp_all add: lower_check_def letter_check_def tolower_def)

lemma keyword_is_identifier:
  assumes "keyword_module_final s \<or> keyword_class_final s \<or> keyword_enum_final s \<or> keyword_array_final s \<or>
    keyword_optional_final s \<or> keyword_variant_final s \<or> keyword_set_final s \<or> keyword_hash_final s"
  shows "attempts identifier_check True s \<and> identifier_final s"
  using assms unfolding keyword_defs
  by (auto simp: attempts_identifier word_char_def is_letter_def decimal_def identifier_final_def)

text \<open>A brace is taken at once, and what \<open>check\<close> takes is what \<open>final_check\<close> takes.\<close>

lemma scope_brace_takes: "fst (scope_brace_check c n) = Success \<longleftrightarrow> scope_brace_final [c]"
  by (simp add: scope_brace_check_def scope_brace_final_def)

text \<open>Once past its first two characters the comment lexer takes everything to the end of the line; it starts
  out there.\<close>

lemma comment_takes: "discard_comment_check c discard_comment_new = (if c = CHR 0x0A then Success else Attempt, discard_comment_new)"
proof -
  have "(1 :: u8) < - 1" by code_simp
  then show ?thesis by (simp add: discard_comment_check_def discard_comment_new_def Let_def)
qed

lemma comment_line: "attempts discard_comment_check discard_comment_new s \<longleftrightarrow> CHR 0x0A \<notin> set s"
  by (induction s) (auto simp: comment_takes)

section \<open>Properties\<close>

text \<open>The comment lexer tells a comment from other text only at its end: its counter starts at 255, which is not
  less than 2, so \<open>check\<close> goes along with any characters to the first end of line, and \<open>final_check\<close> then
  takes the line exactly if it begins with two slashes.\<close>

theorem discard_comment_line:
  "(attempts discard_comment_check discard_comment_new s \<longleftrightarrow> CHR 0x0A \<notin> set s) \<and>
   discard_comment_check CHR 0x0A discard_comment_new = (Success, discard_comment_new) \<and>
   (discard_comment_final (s @ [CHR 0x0A]) \<longleftrightarrow> (\<exists>rest. s = ''//'' @ rest))"
proof -
  have "discard_comment_final (s @ [CHR 0x0A]) \<longleftrightarrow> (\<exists>rest. s = ''//'' @ rest)"
    by (cases s; cases "tl s") (auto simp: discard_comment_final_def)
  then show ?thesis by (simp add: comment_line comment_takes)
qed

end
