(* ===== verification/Processor_Old.thy ===== *)
theory Processor_Old
  imports Processor
begin

text \<open>
  The pool \<open>processor_old\<close> of \<open>src/libprocessor/processor.cpp\<close>, which runs tasks that have no results. It is shown
  to make the steps of \<open>processor_ex\<close> with a worker function that never answers, so what holds of that pool
  holds of this one.
\<close>

section \<open>The state\<close>

text \<open>What the pool does to the world are the calls of its tasks, \<open>o_calls\<close>.\<close>

datatype 't old_pc = Old_top | Old_sleeping | Old_woken | Old_working 't | Old_ran 't | Old_exited

record 't processor_old =
  o_policy :: pending_policy
  o_thread_count :: usize
  o_busy_count :: usize
  o_task_count :: usize
  o_threads :: "'t old_pc list"
  o_vec_queue :: "'t list"
  o_run_notices :: nat
  o_waiters :: "waiter list"
  o_core :: core
  o_calls :: "'t list"

section \<open>Changing the number of threads\<close>

definition old_core_set :: "usize \<Rightarrow> 't processor_old \<Rightarrow> 't processor_old" where
  "old_core_set n s = s\<lparr>o_thread_count := n, o_core := Core_read\<rparr>"

definition old_core_read :: "'t processor_old \<Rightarrow> 't processor_old" where
  "old_core_read s = s\<lparr>o_core := Core_grow (of_nat (length (o_threads s))) (o_thread_count s)\<rparr>"

definition old_wake_all :: "'t old_pc list \<Rightarrow> 't old_pc list" where
  "old_wake_all = map (\<lambda>t. if t = Old_sleeping then Old_woken else t)"

definition old_core_grow :: "usize \<Rightarrow> usize \<Rightarrow> 't processor_old \<Rightarrow> 't processor_old" where
  "old_core_grow current_thread_count desired_thread_count s =
     (if current_thread_count < desired_thread_count
      then s\<lparr>o_threads := o_threads s @ [Old_top],
             o_core := Core_grow (current_thread_count + 1) desired_thread_count\<rparr>
      else if current_thread_count > desired_thread_count
      then s\<lparr>o_threads := old_wake_all (o_threads s), o_core := Core_join current_thread_count desired_thread_count\<rparr>
      else s\<lparr>o_core := Core_idle\<rparr>)"

definition old_core_join :: "usize \<Rightarrow> usize \<Rightarrow> 't processor_old \<Rightarrow> 't processor_old" where
  "old_core_join current_thread_count desired_thread_count s =
     (if current_thread_count > desired_thread_count
      then s\<lparr>o_threads := butlast (o_threads s), o_core := Core_join (current_thread_count - 1) desired_thread_count\<rparr>
      else s\<lparr>o_core := Core_idle\<rparr>)"

definition old_core_count :: "'t processor_old \<Rightarrow> nat" where
  "old_core_count s = length (o_threads s)"

definition old_new :: "usize \<Rightarrow> 't processor_old" where
  "old_new n =
     old_core_set n \<lparr>o_policy = Allow_new, o_thread_count = n, o_busy_count = 0, o_task_count = 0,
       o_threads = [], o_vec_queue = [], o_run_notices = 0, o_waiters = [], o_core = Core_idle, o_calls = []\<rparr>"

definition old_destroy :: "'t processor_old \<Rightarrow> 't processor_old" where
  "old_destroy s = old_core_set 0 s"

section \<open>The loop of a thread\<close>

definition old_set_thread :: "nat \<Rightarrow> 't old_pc \<Rightarrow> 't processor_old \<Rightarrow> 't processor_old" where
  "old_set_thread i t s = s\<lparr>o_threads := (o_threads s)[i := t]\<rparr>"

definition old_wants_stop :: "nat \<Rightarrow> 't processor_old \<Rightarrow> bool" where
  "old_wants_stop i s = (o_thread_count s < of_nat i + 1)"

definition old_take_task :: "nat \<Rightarrow> 't processor_old \<Rightarrow> 't processor_old" where
  "old_take_task i s =
     (case o_vec_queue s of
        [] \<Rightarrow> s
      | obtask # rest \<Rightarrow>
          old_set_thread i (Old_working obtask) (s\<lparr>o_vec_queue := rest, o_busy_count := o_busy_count s + 1\<rparr>))"

definition old_loop_enter :: "nat \<Rightarrow> 't processor_old \<Rightarrow> 't processor_old" where
  "old_loop_enter i s =
     (if o_vec_queue s = []
      then if old_wants_stop i s then old_set_thread i Old_exited s else old_set_thread i Old_sleeping s
      else old_take_task i s)"

definition old_loop_wake :: "nat \<Rightarrow> 't processor_old \<Rightarrow> 't processor_old" where
  "old_loop_wake i s =
     (if o_vec_queue s \<noteq> [] \<or> old_wants_stop i s
      then if o_vec_queue s \<noteq> [] then old_take_task i s else old_set_thread i Old_top s
      else old_set_thread i Old_sleeping s)"

text \<open>The task runs outside the lock, unless the policy says to empty the queue, and what it throws is dropped.\<close>

definition old_run_task :: "nat \<Rightarrow> 't \<Rightarrow> 't processor_old \<Rightarrow> 't processor_old" where
  "old_run_task i obtask s =
     old_set_thread i (Old_ran obtask)
       (if Empty_queue \<noteq> o_policy s then s\<lparr>o_calls := o_calls s @ [obtask]\<rparr> else s)"

definition old_notify_waiter :: "nat \<Rightarrow> 't processor_old \<Rightarrow> 't processor_old" where
  "old_notify_waiter j s =
     (if j < length (o_waiters s)
      then case o_waiters s ! j of W_sleeping n \<Rightarrow> s\<lparr>o_waiters := (o_waiters s)[j := W_woken n]\<rparr> | _ \<Rightarrow> s
      else s)"

definition old_task_end :: "nat \<Rightarrow> nat \<Rightarrow> 't processor_old \<Rightarrow> 't processor_old" where
  "old_task_end i j s =
     (let s = old_set_thread i Old_top (s\<lparr>o_busy_count := o_busy_count s - 1\<rparr>)
      in if o_vec_queue s = [] \<and> o_busy_count s = 0 then old_notify_waiter j s else s)"

definition old_notify_run :: "nat \<Rightarrow> 't processor_old \<Rightarrow> 't processor_old" where
  "old_notify_run j s =
     (let s = s\<lparr>o_run_notices := o_run_notices s - 1\<rparr>
      in if j < length (o_threads s) \<and> o_threads s ! j = Old_sleeping then old_set_thread j Old_woken s else s)"

section \<open>The calls\<close>

definition old_run :: "'t \<Rightarrow> 't processor_old \<Rightarrow> 't processor_old" where
  "old_run obtask s =
     (if o_policy s = Allow_new
      then s\<lparr>o_vec_queue := o_vec_queue s @ [obtask], o_task_count := o_task_count s + 1,
             o_run_notices := o_run_notices s + 1\<rparr>
      else s)"

definition old_wait_ready :: "usize \<Rightarrow> 't processor_old \<Rightarrow> bool" where
  "old_wait_ready i_task_count s =
     (o_vec_queue s = [] \<and> 0 = o_busy_count s \<and> o_task_count s \<ge> i_task_count)"

definition old_wait_check :: "nat \<Rightarrow> usize \<Rightarrow> 't processor_old \<Rightarrow> 't processor_old" where
  "old_wait_check j i_task_count s =
     (if old_wait_ready i_task_count s
      then s\<lparr>o_task_count := 0, o_waiters := (o_waiters s)[j := W_done]\<rparr>
      else s\<lparr>o_waiters := (o_waiters s)[j := W_sleeping i_task_count]\<rparr>)"

definition old_wait :: "usize \<Rightarrow> 't processor_old \<Rightarrow> 't processor_old" where
  "old_wait i_task_count s =
     old_wait_check (length (o_waiters s)) i_task_count (s\<lparr>o_waiters := o_waiters s @ [W_sleeping i_task_count]\<rparr>)"

section \<open>Steps\<close>

definition old_thread_at :: "'t processor_old \<Rightarrow> nat \<Rightarrow> 't old_pc \<Rightarrow> bool" where
  "old_thread_at s i t \<longleftrightarrow> i < length (o_threads s) \<and> o_threads s ! i = t"

definition old_waiter_at :: "'t processor_old \<Rightarrow> nat \<Rightarrow> waiter \<Rightarrow> bool" where
  "old_waiter_at s j w \<longleftrightarrow> j < length (o_waiters s) \<and> o_waiters s ! j = w"

definition old_may_wake_waiter :: "nat \<Rightarrow> 't processor_old \<Rightarrow> bool" where
  "old_may_wake_waiter j s \<longleftrightarrow>
     (\<exists>n. old_waiter_at s j (W_sleeping n)) \<or> (\<forall>k n. \<not> old_waiter_at s k (W_sleeping n))"

definition old_may_wake_thread :: "nat \<Rightarrow> 't processor_old \<Rightarrow> bool" where
  "old_may_wake_thread j s \<longleftrightarrow> old_thread_at s j Old_sleeping \<or> (\<forall>k. \<not> old_thread_at s k Old_sleeping)"

definition old_take_label :: "'t processor_old \<Rightarrow> 't label" where
  "old_take_label s = (case o_vec_queue s of [] \<Rightarrow> L_none | obtask # _ \<Rightarrow> L_take obtask)"

inductive old_step :: "'t processor_old \<Rightarrow> 't label \<Rightarrow> 't processor_old \<Rightarrow> bool" where
  enter: "old_thread_at s i Old_top \<Longrightarrow> old_step s (old_take_label s) (old_loop_enter i s)"
| awake: "old_thread_at s i Old_woken \<Longrightarrow> old_step s (old_take_label s) (old_loop_wake i s)"
| work: "old_thread_at s i (Old_working obtask) \<Longrightarrow> old_step s L_none (old_run_task i obtask s)"
| finish: "old_thread_at s i (Old_ran obtask) \<Longrightarrow> old_may_wake_waiter j s \<Longrightarrow>
    old_step s (L_finish obtask) (old_task_end i j s)"
| notice: "o_run_notices s \<noteq> 0 \<Longrightarrow> old_may_wake_thread j s \<Longrightarrow> old_step s L_none (old_notify_run j s)"
| read: "o_core s = Core_read \<Longrightarrow> old_step s L_none (old_core_read s)"
| grow: "o_core s = Core_grow cur des \<Longrightarrow> old_step s L_none (old_core_grow cur des s)"
| join: "o_core s = Core_join cur des \<Longrightarrow> cur > des \<Longrightarrow> o_threads s \<noteq> [] \<Longrightarrow> List.last (o_threads s) = Old_exited \<Longrightarrow>
    old_step s L_none (old_core_join cur des s)"
| joined: "o_core s = Core_join cur des \<Longrightarrow> \<not> cur > des \<Longrightarrow> old_step s L_none (old_core_join cur des s)"
| wait_again: "old_waiter_at s j (W_woken n) \<Longrightarrow>
    old_step s (if old_wait_ready n s then L_wait_done else L_none) (old_wait_check j n s)"

inductive old_client :: "'t processor_old \<Rightarrow> 't label \<Rightarrow> 't processor_old \<Rightarrow> bool" where
  run: "old_client s (if o_policy s = Allow_new then L_send obtask else L_none) (old_run obtask s)"
| wait: "old_client s (if old_wait_ready n s then L_wait_done else L_none) (old_wait n s)"
| set_core: "o_core s = Core_idle \<Longrightarrow> old_client s L_none (old_core_set n s)"
| spurious: "old_thread_at s i Old_sleeping \<Longrightarrow> old_client s L_none (old_set_thread i Old_woken s)"
| spurious_wait: "old_waiter_at s j (W_sleeping n) \<Longrightarrow>
    old_client s L_none (s\<lparr>o_waiters := (o_waiters s)[j := W_woken n]\<rparr>)"

inductive old_reached :: "'t processor_old \<Rightarrow> 't history \<Rightarrow> bool" where
  start: "old_reached (old_new n) no_history"
| pool: "old_reached s h \<Longrightarrow> old_step s l s' \<Longrightarrow> old_reached s' (recorded l h)"
| client: "old_reached s h \<Longrightarrow> old_client s l s' \<Longrightarrow> old_reached s' (recorded l h)"

inductive old_pool_run :: "nat \<Rightarrow> 't processor_old \<Rightarrow> 't history \<Rightarrow> 't processor_old \<Rightarrow> 't history \<Rightarrow> bool" where
  none: "old_pool_run 0 s h s h"
| one_more: "old_pool_run n s h s1 h1 \<Longrightarrow> old_step s1 l s2 \<Longrightarrow> old_pool_run (Suc n) s h s2 (recorded l h1)"

definition old_at_rest :: "'t processor_old \<Rightarrow> bool" where
  "old_at_rest s \<longleftrightarrow> (\<forall>l s'. \<not> old_step s l s')"

section \<open>The pool with results, without results\<close>

fun as_pc :: "'t old_pc \<Rightarrow> 't pc" where
  "as_pc Old_top = Loop_top"
| "as_pc Old_sleeping = Sleeping"
| "as_pc Old_woken = Woken"
| "as_pc (Old_working t) = Working t"
| "as_pc (Old_ran t) = Sending t []"
| "as_pc Old_exited = Exited"

definition as_pool :: "'t processor_old \<Rightarrow> 't processor" where
  "as_pool s = \<lparr>on_demand_wakeup = 0, m_policy = o_policy s, m_thread_count = o_thread_count s,
     m_busy_count = o_busy_count s, m_i_task_count = o_task_count s, m_threads = map as_pc (o_threads s),
     m_input_queue = o_vec_queue s, m_output_queue = [], run_notices = o_run_notices s,
     waiters = o_waiters s, reader = R_idle, core = o_core s\<rparr>"

abbreviation silent :: "'t \<Rightarrow> 't list" where
  "silent \<equiv> \<lambda>_. []"

lemma as_pc_simps [simp]:
  "as_pc t = Loop_top \<longleftrightarrow> t = Old_top" "as_pc t = Sleeping \<longleftrightarrow> t = Old_sleeping" "as_pc t = Woken \<longleftrightarrow> t = Old_woken"
  "as_pc t = Working x \<longleftrightarrow> t = Old_working x" "as_pc t = Sending x rs \<longleftrightarrow> t = Old_ran x \<and> rs = []"
  "as_pc t = Exited \<longleftrightarrow> t = Old_exited"
  by (cases t; auto)+

lemma as_pool_fields [simp]:
  "m_policy (as_pool s) = o_policy s" "m_thread_count (as_pool s) = o_thread_count s"
  "m_busy_count (as_pool s) = o_busy_count s" "m_i_task_count (as_pool s) = o_task_count s"
  "m_threads (as_pool s) = map as_pc (o_threads s)" "m_input_queue (as_pool s) = o_vec_queue s"
  "m_output_queue (as_pool s) = []" "run_notices (as_pool s) = o_run_notices s" "waiters (as_pool s) = o_waiters s"
  "reader (as_pool s) = R_idle" "core (as_pool s) = o_core s" "on_demand_wakeup (as_pool s) = 0"
  by (simp_all add: as_pool_def)

lemma as_pool_upd:
  "as_pool (s\<lparr>o_busy_count := b\<rparr>) = as_pool s\<lparr>m_busy_count := b\<rparr>"
  "as_pool (s\<lparr>o_run_notices := k\<rparr>) = as_pool s\<lparr>run_notices := k\<rparr>"
  "as_pool (s\<lparr>o_waiters := ws\<rparr>) = as_pool s\<lparr>waiters := ws\<rparr>"
  "as_pool (s\<lparr>o_task_count := b\<rparr>) = as_pool s\<lparr>m_i_task_count := b\<rparr>"
  "as_pool (s\<lparr>o_core := c\<rparr>) = as_pool s\<lparr>core := c\<rparr>"
  "as_pool (s\<lparr>o_thread_count := b\<rparr>) = as_pool s\<lparr>m_thread_count := b\<rparr>"
  "as_pool (s\<lparr>o_threads := ts\<rparr>) = as_pool s\<lparr>m_threads := map as_pc ts\<rparr>"
  "as_pool (s\<lparr>o_vec_queue := q\<rparr>) = as_pool s\<lparr>m_input_queue := q\<rparr>"
  "as_pool (s\<lparr>o_calls := cs\<rparr>) = as_pool s"
  by (simp_all add: as_pool_def)

lemma as_pool_set_thread: "as_pool (old_set_thread i t s) = set_thread i (as_pc t) (as_pool s)"
  by (simp add: as_pool_def old_set_thread_def set_thread_def map_update)

lemma as_pool_take: "as_pool (old_take_task i s) = take_task i (as_pool s)"
  by (simp add: old_take_task_def take_task_def as_pool_set_thread as_pool_upd split: list.splits)

lemma as_pool_stop: "old_wants_stop i s = wants_stop i (as_pool s)"
  by (simp add: old_wants_stop_def wants_stop_def)

lemma as_pool_label: "old_take_label s = take_label (as_pool s)"
  by (simp add: old_take_label_def take_label_def)

lemma as_pool_wait_ready: "old_wait_ready n s = wait_ready n (as_pool s)"
  by (simp add: old_wait_ready_def wait_ready_def)

lemma as_pool_notify_waiter: "as_pool (old_notify_waiter j s) = notify_waiter j (as_pool s)"
  by (simp add: old_notify_waiter_def notify_waiter_def as_pool_upd split: waiter.splits)

lemma as_pool_at [simp]:
  "thread_at (as_pool s) i Loop_top = old_thread_at s i Old_top"
  "thread_at (as_pool s) i Sleeping = old_thread_at s i Old_sleeping"
  "thread_at (as_pool s) i Woken = old_thread_at s i Old_woken"
  "thread_at (as_pool s) i (Working x) = old_thread_at s i (Old_working x)"
  "thread_at (as_pool s) i (Sending x rs) = (old_thread_at s i (Old_ran x) \<and> rs = [])"
  "waiter_at (as_pool s) j w = old_waiter_at s j w"
  by (auto simp: thread_at_def old_thread_at_def waiter_at_def old_waiter_at_def)

lemma as_pool_may_wake [simp]:
  "may_wake_waiter j (as_pool s) = old_may_wake_waiter j s" "may_wake_thread j (as_pool s) = old_may_wake_thread j s"
  by (simp_all add: may_wake_waiter_def old_may_wake_waiter_def may_wake_thread_def old_may_wake_thread_def)

lemma as_pool_wake_all: "map as_pc (old_wake_all ts) = wake_all (map as_pc ts)"
  by (induction ts) (auto simp: old_wake_all_def wake_all_def)

text \<open>Every operation is that of the pool with results.\<close>

lemma as_pool_loop:
  "as_pool (old_loop_enter i s) = loop_enter i (as_pool s)"
  "as_pool (old_loop_wake i s) = loop_wake i (as_pool s)"
  "as_pool (old_run_task i t s) = work_begin silent i t (as_pool s)"
  by (simp_all add: old_loop_enter_def loop_enter_def old_loop_wake_def loop_wake_def old_run_task_def work_begin_def
      as_pool_set_thread as_pool_take as_pool_stop as_pool_upd)

lemma as_pool_task_end: "as_pool (old_task_end i j s) = work_end i j (as_pool s)"
  by (simp add: old_task_end_def work_end_def Let_def as_pool_notify_waiter as_pool_upd
      old_set_thread_def set_thread_def map_update)

lemma as_pool_notify_run: "as_pool (old_notify_run j s) = notify_run j (as_pool s)"
  by (auto simp: old_notify_run_def notify_run_def Let_def as_pool_set_thread as_pool_upd)

lemma as_pool_core:
  "as_pool (old_core_set n s) = core_set n (as_pool s)" "as_pool (old_core_read s) = core_read (as_pool s)"
  "as_pool (old_core_grow c d s) = core_grow c d (as_pool s)" "as_pool (old_core_join c d s) = core_join c d (as_pool s)"
  by (simp_all add: old_core_set_def core_set_def old_core_read_def core_read_def old_core_grow_def core_grow_def
      old_core_join_def core_join_def as_pool_upd as_pool_wake_all map_butlast)

lemma as_pool_wait_check: "as_pool (old_wait_check j n s) = wait_check j n (as_pool s)"
  by (simp add: old_wait_check_def wait_check_def as_pool_wait_ready as_pool_upd)

lemma as_pool_calls:
  "as_pool (old_wait n s) = processor_wait n (as_pool s)" "as_pool (old_run t s) = processor_send t (as_pool s)"
  by (simp_all add: old_wait_def processor_wait_def old_run_def processor_send_def as_pool_wait_check as_pool_upd)

lemma as_pool_new: "as_pool (old_new n) = processor_new n"
  by (simp add: old_new_def processor_new_def as_pool_core) (simp add: as_pool_def)

lemmas as_pool_simps = as_pool_loop as_pool_task_end as_pool_notify_run as_pool_core as_pool_wait_check as_pool_calls as_pool_new
  as_pool_label as_pool_wait_ready

lemma old_step_simulated: "old_step s l s' \<Longrightarrow> pool_step silent (as_pool s) l (as_pool s')"
proof (induction rule: old_step.induct)
  case (work s i obtask)
  then show ?case using pool_step.work [of "as_pool s" i obtask silent] by (simp add: as_pool_simps)
next
  case (finish s i obtask j)
  then show ?case using pool_step.finish [of "as_pool s" i obtask j silent] by (simp add: as_pool_simps)
next
  case (join s cur des)
  then show ?case using pool_step.join [of "as_pool s" cur des silent] by (simp add: as_pool_simps last_map)
next
  case (wait_again s j n)
  then show ?case using pool_step.wait_again [of "as_pool s" j n silent] by (simp add: as_pool_simps)
qed (auto simp: as_pool_simps intro: pool_step.intros)

lemma old_client_simulated: "old_client s l s' \<Longrightarrow> client_move (as_pool s) l (as_pool s')"
proof (induction rule: old_client.induct)
  case (run s obtask)
  show ?case using client_move.send [of "as_pool s" obtask] by (simp add: as_pool_simps)
next
  case (wait s n)
  show ?case using client_move.wait [of "as_pool s" n] by (simp add: as_pool_simps)
next
  case (set_core s n)
  then show ?case using client_move.set_core [of "as_pool s" n] by (simp add: as_pool_simps)
next
  case (spurious s i)
  then show ?case using client_move.spurious [of "as_pool s" i] by (simp add: as_pool_set_thread)
next
  case (spurious_wait s j n)
  then show ?case using client_move.spurious_wait [of "as_pool s" j n] by (simp add: as_pool_upd)
qed

lemma pool_step_old:
  assumes "pool_step silent (as_pool s) l t"
  shows "\<exists>s'. old_step s l s'"
  using assms
proof (cases rule: pool_step.cases)
  case (join cur des)
  then show ?thesis using old_step.join [of s cur des] by (auto simp: last_map)
next
  case (finish i package j)
  then show ?thesis using old_step.finish [of s i package j] by auto
next
  case (wait_again j n)
  then show ?thesis using old_step.wait_again [of s j n] by (auto simp: as_pool_wait_ready)
qed (auto simp flip: as_pool_label intro: old_step.intros)

lemma old_rest: "old_at_rest s \<Longrightarrow> at_rest silent (as_pool s)"
  unfolding old_at_rest_def at_rest_def using pool_step_old by blast

lemma old_reached_pool: "old_reached s h \<Longrightarrow> reached silent (as_pool s) h"
  by (induction rule: old_reached.induct)
     (auto simp: as_pool_new intro: reached.intros old_step_simulated old_client_simulated)

lemma old_run_pool: "old_pool_run n s h s' h' \<Longrightarrow> pool_run silent n (as_pool s) h (as_pool s') h'"
  by (induction rule: old_pool_run.induct) (auto intro: pool_run.intros old_step_simulated)

text \<open>What a thread has in hand.\<close>

fun old_in_hand :: "'t old_pc \<Rightarrow> 't list" where
  "old_in_hand (Old_working t) = [t]"
| "old_in_hand (Old_ran t) = [t]"
| "old_in_hand _ = []"

lemma as_pool_in_hand: "all_of in_hand (as_pool s) = concat (map old_in_hand (o_threads s))"
proof -
  have "in_hand (as_pc t) = old_in_hand t" for t :: "'a old_pc" by (cases t) auto
  then show ?thesis by (simp add: o_def)
qed

text \<open>A task that was taken is in the hands of a thread that has yet to call it, or it was called.\<close>

fun old_to_call :: "'t old_pc \<Rightarrow> 't list" where
  "old_to_call (Old_working t) = [t]"
| "old_to_call _ = []"

definition old_called :: "'t processor_old \<Rightarrow> 't history \<Rightarrow> bool" where
  "old_called s h \<longleftrightarrow> o_policy s = Allow_new \<and>
     mset (h_taken h) = mset (concat (map old_to_call (o_threads s))) + mset (o_calls s)"

lemma to_call_set_thread:
  assumes "old_thread_at s i t0"
  shows "mset (concat (map old_to_call (o_threads (old_set_thread i t s)))) + mset (old_to_call t0) =
    mset (concat (map old_to_call (o_threads s))) + mset (old_to_call t)"
  using assms mset_concat_update [of i "o_threads s" old_to_call t] by (simp add: old_thread_at_def old_set_thread_def)

lemma old_set_thread_fields [simp]:
  "o_calls (old_set_thread i t s) = o_calls s" "o_policy (old_set_thread i t s) = o_policy s"
  by (simp_all add: old_set_thread_def)

lemma old_called_set:
  assumes "old_called s h" "old_thread_at s i t0" "old_to_call t0 = []" "old_to_call t = []"
  shows "old_called (old_set_thread i t s) h"
  using assms to_call_set_thread [OF assms(2), of t] by (simp add: old_called_def)

lemma old_called_take:
  assumes "old_called s h" "old_thread_at s i t0" "old_to_call t0 = []" "o_vec_queue s = x # q"
  shows "old_called (old_take_task i s) (recorded (L_take x) h)"
proof -
  let ?s = "s\<lparr>o_vec_queue := q, o_busy_count := o_busy_count s + 1\<rparr>"
  have "old_thread_at ?s i t0" using assms(2) by (simp add: old_thread_at_def)
  from to_call_set_thread [OF this, of "Old_working x"] show ?thesis
    using assms by (simp add: old_called_def old_take_task_def)
qed

text \<open>The steps that leave the tasks where they are.\<close>

lemma old_called_keep:
  "old_called s h \<Longrightarrow> concat (map old_to_call (o_threads s')) = concat (map old_to_call (o_threads s)) \<Longrightarrow>
    o_calls s' = o_calls s \<Longrightarrow> o_policy s' = o_policy s \<Longrightarrow> h_taken h' = h_taken h \<Longrightarrow> old_called s' h'"
  by (simp add: old_called_def)

lemma to_call_simps [simp]:
  "concat (map old_to_call (old_wake_all ts)) = concat (map old_to_call ts)"
  "ts \<noteq> [] \<Longrightarrow> List.last ts = Old_exited \<Longrightarrow> concat (map old_to_call (butlast ts)) = concat (map old_to_call ts)"
  by (induction ts; auto simp: old_wake_all_def; fail) (cases ts rule: rev_cases; simp)

lemma old_step_called: "old_step s l s' \<Longrightarrow> old_called s h \<Longrightarrow> old_called s' (recorded l h)"
proof (induction rule: old_step.induct)
  case (enter s i)
  then show ?case
    by (cases "o_vec_queue s")
       (auto simp: old_loop_enter_def old_take_label_def simp del: recorded.simps(2) intro: old_called_set old_called_take)
next
  case (awake s i)
  then show ?case
    by (cases "o_vec_queue s")
       (auto simp: old_loop_wake_def old_take_label_def simp del: recorded.simps(2) intro: old_called_set old_called_take)
next
  case (work s i obtask)
  then show ?case
    using to_call_set_thread [OF work(1), of "Old_ran obtask"]
    by (simp add: old_run_task_def old_called_def) (simp add: old_set_thread_def)
next
  case (finish s i obtask j)
  have "old_called (old_set_thread i Old_top s) h" by (rule old_called_set [OF finish(3,1)]) simp_all
  then show ?case
    by (rule old_called_keep)
       (auto simp: old_task_end_def Let_def old_notify_waiter_def old_set_thread_def split: waiter.splits)
next
  case (notice s j)
  have "old_called (if old_thread_at s j Old_sleeping then old_set_thread j Old_woken s else s) h"
    using notice(3) old_called_set by fastforce
  then show ?case
    by (rule old_called_keep) (auto simp: old_notify_run_def Let_def old_set_thread_def old_thread_at_def)
next
  case (wait_again s j n)
  then show ?case by (elim old_called_keep) (simp_all add: old_wait_check_def)
next
  case (read s)
  then show ?case by (elim old_called_keep) (simp_all add: old_core_read_def)
next
  case (grow s cur des)
  then show ?case by (elim old_called_keep) (simp_all add: old_core_grow_def)
next
  case (join s cur des)
  then show ?case by (elim old_called_keep) (simp_all add: old_core_join_def)
next
  case (joined s cur des)
  then show ?case by (elim old_called_keep) (simp_all add: old_core_join_def)
qed

lemma old_client_called: "old_client s l s' \<Longrightarrow> old_called s h \<Longrightarrow> old_called s' (recorded l h)"
proof (induction rule: old_client.induct)
  case (spurious s i)
  then show ?case by (auto intro: old_called_set)
next
  case (run s obtask)
  then show ?case by (elim old_called_keep) (simp_all add: old_run_def)
next
  case (wait s n)
  then show ?case by (elim old_called_keep) (simp_all add: old_wait_def old_wait_check_def)
next
  case (set_core s n)
  then show ?case by (elim old_called_keep) (simp_all add: old_core_set_def)
next
  case (spurious_wait s j n)
  then show ?case by (elim old_called_keep) simp_all
qed

lemma old_reached_called: "old_reached s h \<Longrightarrow> old_called s h"
proof (induction rule: old_reached.induct)
  case (start n)
  show ?case by (simp add: old_called_def old_new_def old_core_set_def no_history_def)
qed (blast intro: old_step_called old_client_called)+

lemma old_pool_run_reached: "old_pool_run n s h s' h' \<Longrightarrow> old_reached s h \<Longrightarrow> old_reached s' h'"
  by (induction rule: old_pool_run.induct) (auto intro: old_reached.pool)

text \<open>At rest, with everything finished, every task has been called.\<close>

lemma old_all_called:
  assumes "old_reached s h" "old_at_rest s" "0 < o_thread_count s"
  shows "mset (o_calls s) = mset (h_sent h)"
proof -
  have reached: "reached silent (as_pool s) h" by (rule old_reached_pool [OF assms(1)])
  have ends: "o_vec_queue s = []" "mset (h_finished h) = mset (h_sent h)"
    using rest_done [OF reached old_rest [OF assms(2)]] assms(3) by simp_all
  have all: "h_sent h = h_taken h @ o_vec_queue s"
      "mset (h_taken h) = mset (concat (map old_in_hand (o_threads s))) + mset (h_finished h)"
    using reached_inv [OF reached] as_pool_in_hand [of s] by (simp_all add: recorded_ok_def)
  then have "concat (map old_in_hand (o_threads s)) = []" using ends by simp
  then have "old_to_call t = []" if "t \<in> set (o_threads s)" for t
    using that by (cases t) auto
  then have none: "concat (map old_to_call (o_threads s)) = []" by simp
  have "h_sent h = h_taken h" using all(1) ends(1) by simp
  moreover have "mset (h_taken h) = mset (o_calls s)"
    using old_reached_called [OF assms(1)] by (simp add: old_called_def none)
  ultimately show ?thesis by simp
qed

text \<open>The number of steps a state can still take on its own.\<close>

definition old_weight :: "'t processor_old \<Rightarrow> nat" where
  "old_weight s = weight silent (as_pool s)"

section \<open>Property\<close>

text \<open>C34: the pool of tasks refines the pool with results, with a worker that gives none, and so keeps its promises
  under every interleaving: the tasks are taken in the order they were accepted; a task that was taken is in the
  hands of a thread that has yet to call it, or it was called, once; and once the callers have stopped the pool
  comes to rest after a bounded number of steps, with every task it was given called if at least one thread
  is wanted.\<close>

theorem processor_old_runs_tasks:
  assumes "old_reached s h" "old_pool_run n s h s' h'"
  shows "pool_run silent n (as_pool s) h (as_pool s') h' \<and>
    h_sent h' = h_taken h' @ o_vec_queue s' \<and>
    mset (h_taken h') = mset (concat (map old_to_call (o_threads s'))) + mset (o_calls s') \<and>
    mset (h_taken h') = mset (concat (map old_in_hand (o_threads s'))) + mset (h_finished h') \<and>
    n \<le> old_weight s \<and>
    (old_at_rest s' \<and> 0 < o_thread_count s' \<longrightarrow> o_vec_queue s' = [] \<and> mset (o_calls s') = mset (h_sent h'))"
proof -
  have run: "pool_run silent n (as_pool s) h (as_pool s') h'" by (rule old_run_pool [OF assms(2)])
  have reached: "reached silent (as_pool s') h'"
    by (rule pool_run_reached [OF run old_reached_pool [OF assms(1)]])
  have reached_old: "old_reached s' h'" by (rule old_pool_run_reached [OF assms(2,1)])
  have "n \<le> old_weight s"
    using pool_run_weight [OF run old_reached_pool [OF assms(1)]] by (simp add: old_weight_def)
  moreover have "h_sent h' = h_taken h' @ o_vec_queue s'"
      "mset (h_taken h') = mset (concat (map old_in_hand (o_threads s'))) + mset (h_finished h')"
    using reached_inv [OF reached] as_pool_in_hand [of s'] by (simp_all add: recorded_ok_def)
  moreover have "mset (h_taken h') = mset (concat (map old_to_call (o_threads s'))) + mset (o_calls s')"
    using old_reached_called [OF reached_old] by (simp add: old_called_def)
  moreover have "old_at_rest s' \<Longrightarrow> 0 < o_thread_count s' \<Longrightarrow> o_vec_queue s' = [] \<and> mset (o_calls s') = mset (h_sent h')"
    using rest_done [OF reached old_rest] old_all_called [OF reached_old] by simp
  ultimately show ?thesis using run by blast
qed

text \<open>One thread, one task: it is taken and called.\<close>

theorem processor_old_runs_tasks_witness:
  "\<exists>s h s' h'. old_pool_run 2 s h s' h' \<and> h_sent h' = [''job''] \<and> mset (o_calls s') = {#''job''#} \<and> 2 \<le> old_weight s"
proof -
  define s1 :: "string processor_old" where "s1 = old_core_read (old_new 1)"
  define s2 where "s2 = old_core_grow 0 1 s1"
  define s3 where "s3 = old_core_grow 1 1 s2"
  define s4 where "s4 = old_run ''job'' s3"
  define s5 where "s5 = old_loop_enter 0 s4"
  define s6 where "s6 = old_run_task 0 ''job'' s5"
  note defs = s4_def s3_def s2_def s1_def old_new_def old_core_set_def old_core_read_def old_core_grow_def old_run_def
    old_thread_at_def old_take_label_def s5_def s6_def old_loop_enter_def old_take_task_def old_set_thread_def
  let ?h = "no_history\<lparr>h_sent := [''job'']\<rparr>"
  have r1: "old_reached s1 no_history"
    using old_reached.pool [OF old_reached.start old_step.read, of 1] by (simp add: s1_def old_new_def old_core_set_def)
  have r2: "old_reached s2 no_history"
    using old_reached.pool [OF r1 old_step.grow, of 0 1] by (simp add: defs)
  have r3: "old_reached s3 no_history"
    using old_reached.pool [OF r2 old_step.grow, of 1 1] by (simp add: defs)
  have r4: "old_reached s4 ?h"
    using old_reached.client [OF r3 old_client.run, of "''job''"] by (simp add: defs no_history_def)
  have "old_step s4 (L_take ''job'') s5" "old_step s5 L_none s6"
    using old_step.enter [of s4 0] old_step.work [of s5 0 "''job''"] unfolding s6_def by (simp_all add: defs)
  then have run: "old_pool_run 2 s4 ?h s6 (?h\<lparr>h_taken := [''job'']\<rparr>)"
    using old_pool_run.one_more [OF old_pool_run.one_more [OF old_pool_run.none], of s4 "L_take ''job''" s5 L_none s6 ?h]
    by (simp add: no_history_def numeral_2_eq_2)
  have "concat (map old_to_call (o_threads s6)) = []" by (simp add: defs old_run_task_def)
  then have "mset (o_calls s6) = {#''job''#}"
    using processor_old_runs_tasks [OF r4 run] by (simp add: no_history_def)
  moreover have "2 \<le> old_weight s4" using processor_old_runs_tasks [OF r4 run] by blast
  ultimately show ?thesis using run by (intro exI conjI) (assumption | simp add: no_history_def)+
qed

end
