(* ===== verification/Async_Processor.thy ===== *)
theory Async_Processor
  imports Processor_Old
begin

text \<open>
  The pool \<open>async::processor\<close> of \<open>src/belt.pp/async/processor.h\<close>, which runs the calls of \<open>thread_task\<close> for
  \<open>thread_pool\<close>. It counts no tasks, and its \<open>wait\<close> has no number to wait for; otherwise it is shown to be
  \<open>processor_old\<close>. The places of a thread in its loop are the same and are shared with it.
\<close>

section \<open>The state\<close>

datatype async_waiter = A_sleeping | A_woken | A_done

record 't async_processor =
  a_policy :: pending_policy
  a_thread_count :: usize
  a_busy_count :: usize
  a_threads :: "'t old_pc list"
  a_queue :: "'t list"
  a_run_notices :: nat
  a_waiters :: "async_waiter list"
  a_core :: core
  a_calls :: "'t list"

section \<open>Changing the number of threads\<close>

definition async_core_set :: "usize \<Rightarrow> 't async_processor \<Rightarrow> 't async_processor" where
  "async_core_set n s = s\<lparr>a_thread_count := n, a_core := Core_read\<rparr>"

definition async_core_read :: "'t async_processor \<Rightarrow> 't async_processor" where
  "async_core_read s = s\<lparr>a_core := Core_grow (of_nat (length (a_threads s))) (a_thread_count s)\<rparr>"

definition async_core_grow :: "usize \<Rightarrow> usize \<Rightarrow> 't async_processor \<Rightarrow> 't async_processor" where
  "async_core_grow current_thread_count desired_thread_count s =
     (if current_thread_count < desired_thread_count
      then s\<lparr>a_threads := a_threads s @ [Old_top],
             a_core := Core_grow (current_thread_count + 1) desired_thread_count\<rparr>
      else if current_thread_count > desired_thread_count
      then s\<lparr>a_threads := old_wake_all (a_threads s), a_core := Core_join current_thread_count desired_thread_count\<rparr>
      else s\<lparr>a_core := Core_idle\<rparr>)"

definition async_core_join :: "usize \<Rightarrow> usize \<Rightarrow> 't async_processor \<Rightarrow> 't async_processor" where
  "async_core_join current_thread_count desired_thread_count s =
     (if current_thread_count > desired_thread_count
      then s\<lparr>a_threads := butlast (a_threads s), a_core := Core_join (current_thread_count - 1) desired_thread_count\<rparr>
      else s\<lparr>a_core := Core_idle\<rparr>)"

definition async_core_count :: "'t async_processor \<Rightarrow> nat" where
  "async_core_count s = length (a_threads s)"

definition async_new :: "usize \<Rightarrow> 't async_processor" where
  "async_new n =
     async_core_set n \<lparr>a_policy = Allow_new, a_thread_count = n, a_busy_count = 0, a_threads = [], a_queue = [],
       a_run_notices = 0, a_waiters = [], a_core = Core_idle, a_calls = []\<rparr>"

definition async_destroy :: "'t async_processor \<Rightarrow> 't async_processor" where
  "async_destroy s = async_core_set 0 s"

section \<open>The loop of a thread\<close>

definition async_set_thread :: "nat \<Rightarrow> 't old_pc \<Rightarrow> 't async_processor \<Rightarrow> 't async_processor" where
  "async_set_thread i t s = s\<lparr>a_threads := (a_threads s)[i := t]\<rparr>"

definition async_wants_stop :: "nat \<Rightarrow> 't async_processor \<Rightarrow> bool" where
  "async_wants_stop i s = (a_thread_count s < of_nat i + 1)"

definition async_take_task :: "nat \<Rightarrow> 't async_processor \<Rightarrow> 't async_processor" where
  "async_take_task i s =
     (case a_queue s of
        [] \<Rightarrow> s
      | obtask # rest \<Rightarrow>
          async_set_thread i (Old_working obtask) (s\<lparr>a_queue := rest, a_busy_count := a_busy_count s + 1\<rparr>))"

definition thread_run_enter :: "nat \<Rightarrow> 't async_processor \<Rightarrow> 't async_processor" where
  "thread_run_enter i s =
     (if a_queue s = []
      then if async_wants_stop i s then async_set_thread i Old_exited s else async_set_thread i Old_sleeping s
      else async_take_task i s)"

definition thread_run_wake :: "nat \<Rightarrow> 't async_processor \<Rightarrow> 't async_processor" where
  "thread_run_wake i s =
     (if a_queue s \<noteq> [] \<or> async_wants_stop i s
      then if a_queue s \<noteq> [] then async_take_task i s else async_set_thread i Old_top s
      else async_set_thread i Old_sleeping s)"

definition thread_run_task :: "nat \<Rightarrow> 't \<Rightarrow> 't async_processor \<Rightarrow> 't async_processor" where
  "thread_run_task i obtask s =
     async_set_thread i (Old_ran obtask)
       (if Empty_queue \<noteq> a_policy s then s\<lparr>a_calls := a_calls s @ [obtask]\<rparr> else s)"

definition async_notify_waiter :: "nat \<Rightarrow> 't async_processor \<Rightarrow> 't async_processor" where
  "async_notify_waiter j s =
     (if j < length (a_waiters s)
      then case a_waiters s ! j of A_sleeping \<Rightarrow> s\<lparr>a_waiters := (a_waiters s)[j := A_woken]\<rparr> | _ \<Rightarrow> s
      else s)"

definition thread_run_end :: "nat \<Rightarrow> nat \<Rightarrow> 't async_processor \<Rightarrow> 't async_processor" where
  "thread_run_end i j s =
     (let s = async_set_thread i Old_top (s\<lparr>a_busy_count := a_busy_count s - 1\<rparr>)
      in if a_queue s = [] \<and> a_busy_count s = 0 then async_notify_waiter j s else s)"

definition async_notify_run :: "nat \<Rightarrow> 't async_processor \<Rightarrow> 't async_processor" where
  "async_notify_run j s =
     (let s = s\<lparr>a_run_notices := a_run_notices s - 1\<rparr>
      in if j < length (a_threads s) \<and> a_threads s ! j = Old_sleeping then async_set_thread j Old_woken s else s)"

section \<open>The calls\<close>

definition async_run :: "'t \<Rightarrow> 't async_processor \<Rightarrow> 't async_processor" where
  "async_run obtask s =
     (if a_policy s = Allow_new
      then s\<lparr>a_queue := a_queue s @ [obtask], a_run_notices := a_run_notices s + 1\<rparr>
      else s)"

definition async_wait_ready :: "'t async_processor \<Rightarrow> bool" where
  "async_wait_ready s = (a_queue s = [] \<and> 0 = a_busy_count s)"

definition async_wait_check :: "nat \<Rightarrow> 't async_processor \<Rightarrow> 't async_processor" where
  "async_wait_check j s = s\<lparr>a_waiters := (a_waiters s)[j := if async_wait_ready s then A_done else A_sleeping]\<rparr>"

definition async_wait :: "'t async_processor \<Rightarrow> 't async_processor" where
  "async_wait s = async_wait_check (length (a_waiters s)) (s\<lparr>a_waiters := a_waiters s @ [A_sleeping]\<rparr>)"

section \<open>Steps\<close>

definition async_thread_at :: "'t async_processor \<Rightarrow> nat \<Rightarrow> 't old_pc \<Rightarrow> bool" where
  "async_thread_at s i t \<longleftrightarrow> i < length (a_threads s) \<and> a_threads s ! i = t"

definition async_waiter_at :: "'t async_processor \<Rightarrow> nat \<Rightarrow> async_waiter \<Rightarrow> bool" where
  "async_waiter_at s j w \<longleftrightarrow> j < length (a_waiters s) \<and> a_waiters s ! j = w"

definition async_may_wake_waiter :: "nat \<Rightarrow> 't async_processor \<Rightarrow> bool" where
  "async_may_wake_waiter j s \<longleftrightarrow> async_waiter_at s j A_sleeping \<or> (\<forall>k. \<not> async_waiter_at s k A_sleeping)"

definition async_may_wake_thread :: "nat \<Rightarrow> 't async_processor \<Rightarrow> bool" where
  "async_may_wake_thread j s \<longleftrightarrow> async_thread_at s j Old_sleeping \<or> (\<forall>k. \<not> async_thread_at s k Old_sleeping)"

definition async_take_label :: "'t async_processor \<Rightarrow> 't label" where
  "async_take_label s = (case a_queue s of [] \<Rightarrow> L_none | obtask # _ \<Rightarrow> L_take obtask)"

inductive async_step :: "'t async_processor \<Rightarrow> 't label \<Rightarrow> 't async_processor \<Rightarrow> bool" where
  enter: "async_thread_at s i Old_top \<Longrightarrow> async_step s (async_take_label s) (thread_run_enter i s)"
| awake: "async_thread_at s i Old_woken \<Longrightarrow> async_step s (async_take_label s) (thread_run_wake i s)"
| work: "async_thread_at s i (Old_working obtask) \<Longrightarrow> async_step s L_none (thread_run_task i obtask s)"
| finish: "async_thread_at s i (Old_ran obtask) \<Longrightarrow> async_may_wake_waiter j s \<Longrightarrow>
    async_step s (L_finish obtask) (thread_run_end i j s)"
| notice: "a_run_notices s \<noteq> 0 \<Longrightarrow> async_may_wake_thread j s \<Longrightarrow> async_step s L_none (async_notify_run j s)"
| read: "a_core s = Core_read \<Longrightarrow> async_step s L_none (async_core_read s)"
| grow: "a_core s = Core_grow cur des \<Longrightarrow> async_step s L_none (async_core_grow cur des s)"
| join: "a_core s = Core_join cur des \<Longrightarrow> cur > des \<Longrightarrow> a_threads s \<noteq> [] \<Longrightarrow> List.last (a_threads s) = Old_exited \<Longrightarrow>
    async_step s L_none (async_core_join cur des s)"
| joined: "a_core s = Core_join cur des \<Longrightarrow> \<not> cur > des \<Longrightarrow> async_step s L_none (async_core_join cur des s)"
| wait_again: "async_waiter_at s j A_woken \<Longrightarrow>
    async_step s (if async_wait_ready s then L_wait_done else L_none) (async_wait_check j s)"

inductive async_client :: "'t async_processor \<Rightarrow> 't label \<Rightarrow> 't async_processor \<Rightarrow> bool" where
  run: "async_client s (if a_policy s = Allow_new then L_send obtask else L_none) (async_run obtask s)"
| wait: "async_client s (if async_wait_ready s then L_wait_done else L_none) (async_wait s)"
| set_core: "a_core s = Core_idle \<Longrightarrow> async_client s L_none (async_core_set n s)"
| spurious: "async_thread_at s i Old_sleeping \<Longrightarrow> async_client s L_none (async_set_thread i Old_woken s)"
| spurious_wait: "async_waiter_at s j A_sleeping \<Longrightarrow>
    async_client s L_none (s\<lparr>a_waiters := (a_waiters s)[j := A_woken]\<rparr>)"

inductive async_reached :: "'t async_processor \<Rightarrow> 't history \<Rightarrow> bool" where
  start: "async_reached (async_new n) no_history"
| pool: "async_reached s h \<Longrightarrow> async_step s l s' \<Longrightarrow> async_reached s' (recorded l h)"
| client: "async_reached s h \<Longrightarrow> async_client s l s' \<Longrightarrow> async_reached s' (recorded l h)"

inductive async_pool_run :: "nat \<Rightarrow> 't async_processor \<Rightarrow> 't history \<Rightarrow> 't async_processor \<Rightarrow> 't history \<Rightarrow> bool" where
  none: "async_pool_run 0 s h s h"
| one_more: "async_pool_run n s h s1 h1 \<Longrightarrow> async_step s1 l s2 \<Longrightarrow> async_pool_run (Suc n) s h s2 (recorded l h1)"

definition async_at_rest :: "'t async_processor \<Rightarrow> bool" where
  "async_at_rest s \<longleftrightarrow> (\<forall>l s'. \<not> async_step s l s')"

section \<open>The same as the pool that counts\<close>

fun as_waiter :: "async_waiter \<Rightarrow> waiter" where
  "as_waiter A_sleeping = W_sleeping 0"
| "as_waiter A_woken = W_woken 0"
| "as_waiter A_done = W_done"

definition as_old :: "usize \<Rightarrow> 't async_processor \<Rightarrow> 't processor_old" where
  "as_old k s = \<lparr>o_policy = a_policy s, o_thread_count = a_thread_count s, o_busy_count = a_busy_count s, o_task_count = k,
     o_threads = a_threads s, o_vec_queue = a_queue s, o_run_notices = a_run_notices s,
     o_waiters = map as_waiter (a_waiters s), o_core = a_core s, o_calls = a_calls s\<rparr>"

lemma as_waiter_simps [simp]:
  "as_waiter w = W_sleeping n \<longleftrightarrow> w = A_sleeping \<and> n = 0" "as_waiter w = W_woken n \<longleftrightarrow> w = A_woken \<and> n = 0"
  by (cases w; auto)+

lemma as_old_fields [simp]:
  "o_core (as_old k s) = a_core s" "o_threads (as_old k s) = a_threads s" "o_run_notices (as_old k s) = a_run_notices s"
  "o_calls (as_old k s) = a_calls s" "o_policy (as_old k s) = a_policy s" "o_vec_queue (as_old k s) = a_queue s" "o_busy_count (as_old k s) = a_busy_count s" "o_thread_count (as_old k s) = a_thread_count s"
  by (simp_all add: as_old_def)

lemma as_old_at [simp]:
  "old_thread_at (as_old k s) i t = async_thread_at s i t"
  "old_waiter_at (as_old k s) j (W_sleeping n) \<longleftrightarrow> async_waiter_at s j A_sleeping \<and> n = 0"
  "old_waiter_at (as_old k s) j (W_woken n) \<longleftrightarrow> async_waiter_at s j A_woken \<and> n = 0"
  by (auto simp: as_old_def old_thread_at_def async_thread_at_def old_waiter_at_def async_waiter_at_def)

lemma as_old_may_wake [simp]:
  "old_may_wake_waiter j (as_old k s) = async_may_wake_waiter j s"
  "old_may_wake_thread j (as_old k s) = async_may_wake_thread j s"
  by (auto simp: old_may_wake_waiter_def async_may_wake_waiter_def old_may_wake_thread_def async_may_wake_thread_def)

lemma as_old_set_thread: "as_old k (async_set_thread i t s) = old_set_thread i t (as_old k s)"
  by (simp add: as_old_def async_set_thread_def old_set_thread_def)

lemma as_old_take: "as_old k (async_take_task i s) = old_take_task i (as_old k s)"
  by (simp add: async_take_task_def old_take_task_def as_old_def async_set_thread_def old_set_thread_def split: list.splits)

lemma as_old_loop:
  "as_old k (thread_run_enter i s) = old_loop_enter i (as_old k s)"
  "as_old k (thread_run_wake i s) = old_loop_wake i (as_old k s)"
  "as_old k (thread_run_task i t s) = old_run_task i t (as_old k s)"
  by (simp_all add: thread_run_enter_def old_loop_enter_def thread_run_wake_def old_loop_wake_def thread_run_task_def
      old_run_task_def as_old_set_thread as_old_take async_wants_stop_def old_wants_stop_def)
    (simp add: as_old_def)

lemma as_old_notify_waiter: "as_old k (async_notify_waiter j s) = old_notify_waiter j (as_old k s)"
  by (cases "j < length (a_waiters s)"; cases "a_waiters s ! j")
     (simp_all add: async_notify_waiter_def old_notify_waiter_def as_old_def map_update)

lemma taken_fields [simp]:
  "o_vec_queue (old_set_thread i t s) = o_vec_queue s" "o_busy_count (old_set_thread i t s) = o_busy_count s"
  "a_queue (async_set_thread i t p) = a_queue p" "a_busy_count (async_set_thread i t p) = a_busy_count p"
  by (simp_all add: old_set_thread_def async_set_thread_def)

lemma as_old_end: "as_old k (thread_run_end i j s) = old_task_end i j (as_old k s)"
proof -
  have "as_old k (async_set_thread i Old_top (s\<lparr>a_busy_count := b\<rparr>)) = old_set_thread i Old_top (as_old k s\<lparr>o_busy_count := b\<rparr>)" for b
    by (simp add: as_old_def async_set_thread_def old_set_thread_def)
  then show ?thesis
    by (simp add: thread_run_end_def old_task_end_def Let_def as_old_notify_waiter flip: as_old_set_thread)
qed

lemma as_old_notify_run: "as_old k (async_notify_run j s) = old_notify_run j (as_old k s)"
  by (simp add: async_notify_run_def old_notify_run_def Let_def as_old_def async_set_thread_def old_set_thread_def)

lemma as_old_core:
  "as_old k (async_core_set n s) = old_core_set n (as_old k s)" "as_old k (async_core_read s) = old_core_read (as_old k s)"
  "as_old k (async_core_grow c d s) = old_core_grow c d (as_old k s)"
  "as_old k (async_core_join c d s) = old_core_join c d (as_old k s)"
  by (simp_all add: as_old_def async_core_set_def old_core_set_def async_core_read_def old_core_read_def
      async_core_grow_def old_core_grow_def async_core_join_def old_core_join_def)

lemma as_old_wait_ready: "old_wait_ready 0 (as_old k s) = async_wait_ready s"
  by (simp add: as_old_def old_wait_ready_def async_wait_ready_def)

lemma as_old_wait_check:
  "as_old (if async_wait_ready s then 0 else k) (async_wait_check j s) = old_wait_check j 0 (as_old k s)"
  by (simp add: old_wait_check_def as_old_wait_ready) (simp add: as_old_def async_wait_check_def map_update)

lemma as_old_wait: "as_old (if async_wait_ready s then 0 else k) (async_wait s) = old_wait 0 (as_old k s)"
  using as_old_wait_check [of "s\<lparr>a_waiters := a_waiters s @ [A_sleeping]\<rparr>" k "length (a_waiters s)"]
  by (simp add: async_wait_def old_wait_def async_wait_ready_def) (simp add: as_old_def)

lemma as_old_run: "as_old (if a_policy s = Allow_new then k + 1 else k) (async_run t s) = old_run t (as_old k s)"
  by (simp add: as_old_def async_run_def old_run_def)

lemma as_old_new: "as_old 0 (async_new n) = old_new n"
  by (simp add: async_new_def old_new_def as_old_core) (simp add: as_old_def)

lemma as_old_label: "old_take_label (as_old k s) = async_take_label s"
  by (simp add: as_old_def old_take_label_def async_take_label_def)

lemmas as_old_simps = as_old_loop as_old_end as_old_notify_run as_old_core as_old_label

lemma async_step_old: "async_step s l s' \<Longrightarrow> \<exists>k'. old_step (as_old k s) l (as_old k' s')"
proof (induction rule: async_step.induct)
  case (wait_again s j)
  then show ?case using old_step.wait_again [of "as_old k s" j 0] by (auto simp: as_old_wait_ready simp flip: as_old_wait_check)
next
  case (join s cur des)
  then show ?case using old_step.join [of "as_old k s" cur des] by (auto simp flip: as_old_simps)
next
  case (joined s cur des)
  then show ?case using old_step.joined [of "as_old k s" cur des] by (auto simp flip: as_old_simps)
next
  case (enter s i)
  then show ?case using old_step.enter [of "as_old k s" i] by (auto simp flip: as_old_loop simp: as_old_label)
next
  case (awake s i)
  then show ?case using old_step.awake [of "as_old k s" i] by (auto simp flip: as_old_loop simp: as_old_label)
next
  case (work s i obtask)
  then show ?case using old_step.work [of "as_old k s" i obtask] by (auto simp flip: as_old_simps)
next
  case (finish s i obtask j)
  then show ?case using old_step.finish [of "as_old k s" i obtask j] by (auto simp flip: as_old_simps)
next
  case (notice s j)
  then show ?case using old_step.notice [of "as_old k s" j] by (auto simp flip: as_old_simps)
next
  case (read s)
  then show ?case using old_step.read [of "as_old k s"] by (auto simp flip: as_old_simps)
next
  case (grow s cur des)
  then show ?case using old_step.grow [of "as_old k s" cur des] by (auto simp flip: as_old_simps)
qed

lemma async_client_old: "async_client s l s' \<Longrightarrow> \<exists>k'. old_client (as_old k s) l (as_old k' s')"
proof (induction rule: async_client.induct)
  case (run s obtask)
  show ?case using old_client.run [of "as_old k s" obtask] by (auto simp flip: as_old_run)
next
  case (wait s)
  show ?case using old_client.wait [of "as_old k s" 0] by (auto simp: as_old_wait_ready simp flip: as_old_wait)
next
  case (set_core s n)
  then show ?case using old_client.set_core [of "as_old k s" n] by (auto simp flip: as_old_core)
next
  case (spurious s i)
  then show ?case using old_client.spurious [of "as_old k s" i] by (auto simp flip: as_old_set_thread)
next
  case (spurious_wait s j)
  have "as_old k (s\<lparr>a_waiters := (a_waiters s)[j := A_woken]\<rparr>) =
      as_old k s\<lparr>o_waiters := (o_waiters (as_old k s))[j := W_woken 0]\<rparr>"
    by (simp add: as_old_def map_update)
  then have "old_client (as_old k s) L_none (as_old k (s\<lparr>a_waiters := (a_waiters s)[j := A_woken]\<rparr>))"
    using old_client.spurious_wait [of "as_old k s" j 0] spurious_wait by simp
  then show ?case by blast
qed

lemma old_step_async: "old_step (as_old k s) l t \<Longrightarrow> \<exists>l s'. async_step s l s'"
proof (induction "as_old k s" l t rule: old_step.induct)
  case (join cur des)
  then show ?case using async_step.join [of s cur des] by auto
next
  case (finish i obtask j)
  then show ?case using async_step.finish [of s i obtask j] by auto
next
  case (wait_again j n)
  then show ?case using async_step.wait_again [of s j] by auto
qed (auto intro: async_step.intros)

lemma async_reached_old: "async_reached s h \<Longrightarrow> \<exists>k. old_reached (as_old k s) h"
proof (induction rule: async_reached.induct)
  case (start n)
  show ?case using old_reached.start [of n] by (auto simp flip: as_old_new)
next
  case (pool s h l s')
  then show ?case using async_step_old old_reached.pool by blast
next
  case (client s h l s')
  then show ?case using async_client_old old_reached.client by blast
qed

lemma async_run_old: "async_pool_run n s h s' h' \<Longrightarrow> \<exists>k'. old_pool_run n (as_old k s) h (as_old k' s') h'"
proof (induction rule: async_pool_run.induct)
  case (none s h)
  show ?case using old_pool_run.none by blast
next
  case (one_more n s h s1 h1 l s2)
  then show ?case using async_step_old old_pool_run.one_more by blast
qed

lemma async_rest: "async_at_rest s \<Longrightarrow> old_at_rest (as_old k s)"
  unfolding async_at_rest_def old_at_rest_def using old_step_async by blast

text \<open>So this pool keeps the promises of the other ones.\<close>

lemma async_runs_tasks:
  assumes "async_reached s h" "async_pool_run n s h s' h'"
  shows "h_sent h' = h_taken h' @ a_queue s' \<and>
    mset (h_taken h') = mset (concat (map old_to_call (a_threads s'))) + mset (a_calls s') \<and>
    (async_at_rest s' \<and> 0 < a_thread_count s' \<longrightarrow> a_queue s' = [] \<and> mset (a_calls s') = mset (h_sent h'))"
proof -
  obtain k where k: "old_reached (as_old k s) h" using async_reached_old [OF assms(1)] by blast
  obtain k' where run: "old_pool_run n (as_old k s) h (as_old k' s') h'" using async_run_old [OF assms(2)] by blast
  have reached: "old_reached (as_old k' s') h'" by (rule old_pool_run_reached [OF run k])
  have "h_sent h' = h_taken h' @ a_queue s'"
    using reached_inv [OF old_reached_pool [OF reached]] by (simp add: recorded_ok_def)
  moreover have "mset (h_taken h') = mset (concat (map old_to_call (a_threads s'))) + mset (a_calls s')"
    using old_reached_called [OF reached] by (simp add: old_called_def)
  moreover have "async_at_rest s' \<Longrightarrow> 0 < a_thread_count s' \<Longrightarrow> a_queue s' = [] \<and> mset (a_calls s') = mset (h_sent h')"
    using rest_done [OF old_reached_pool [OF reached] old_rest [OF async_rest]] old_all_called [OF reached async_rest] by simp
  ultimately show ?thesis by blast
qed

end
