(* ===== verification/Strand.thy ===== *)
theory Strand
  imports Main "HOL-Library.Sublist"
begin

text \<open>
  The \<open>thread\<close> and \<open>thread_pool\<close> of \<open>src/belt.pp/async/multithreading.h\<close>: a \<open>thread\<close> is a list of tasks that a
  pool works off one after another, by a function \<open>thread_task\<close> that is put into the queue of a processor
  while there are tasks. Any number of workers take from that queue; a step is a critical section or a
  task. The state of the objects \<open>'i\<close> of the class is a function of them.
\<close>

section \<open>The state\<close>

text \<open>Where a call of \<open>thread_task\<close> stands: before \<open>get\<close>; before it looks for an exception; before the task \<open>j\<close> of
  the \<open>n\<close> it was given; before \<open>++it_last\<close>; before the tasks are erased up to \<open>it_last\<close>, which is the task with
  a number or the end of the list; before \<open>notify\<close>.\<close>

datatype runner = At_get | At_check nat | At_exec nat nat | At_next nat | At_erase "nat option" | At_notify

record 't strand =
  m_tasks :: "'t list"
  m_ptr_exception :: bool
  queued :: nat
  runners :: "runner list"

record ('i, 't) thread_pool =
  strands :: "'i \<Rightarrow> 't strand"
  m_pending_threads :: "'i set"
  m_done_threads :: "'i set"

definition strand_new :: "'t strand" where
  "strand_new = \<lparr>m_tasks = [], m_ptr_exception = False, queued = 0, runners = []\<rparr>"

definition thread_pool_new :: "('i, 't) thread_pool" where
  "thread_pool_new = \<lparr>strands = \<lambda>_. strand_new, m_pending_threads = {}, m_done_threads = {}\<rparr>"

definition put_strand :: "'i \<Rightarrow> 't strand \<Rightarrow> ('i, 't) thread_pool \<Rightarrow> ('i, 't) thread_pool" where
  "put_strand i s p = p\<lparr>strands := (strands p)(i := s)\<rparr>"

section \<open>The calls\<close>

definition strand_run :: "'i \<Rightarrow> 't \<Rightarrow> ('i, 't) thread_pool \<Rightarrow> ('i, 't) thread_pool" where
  "strand_run i obtask p =
     (let s = strands p i; add_to_host = (m_tasks s = []); s = s\<lparr>m_tasks := m_tasks s @ [obtask]\<rparr>
      in if add_to_host
         then (put_strand i (s\<lparr>queued := queued s + 1\<rparr>) p)
                \<lparr>m_pending_threads := insert i (m_pending_threads p), m_done_threads := m_done_threads p - {i}\<rparr>
         else put_strand i s p)"

text \<open>A worker takes the call out of the queue.\<close>

definition strand_take :: "'t strand \<Rightarrow> 't strand" where
  "strand_take s = s\<lparr>queued := queued s - 1, runners := runners s @ [At_get]\<rparr>"

definition set_runner :: "nat \<Rightarrow> runner \<Rightarrow> 't strand \<Rightarrow> 't strand" where
  "set_runner k r s = s\<lparr>runners := (runners s)[k := r]\<rparr>"

definition strand_get :: "nat \<Rightarrow> 't strand \<Rightarrow> 't strand" where
  "strand_get k s = set_runner k (At_check (length (m_tasks s))) s"

definition strand_check :: "nat \<Rightarrow> nat \<Rightarrow> 't strand \<Rightarrow> 't strand" where
  "strand_check k n s = set_runner k (if m_ptr_exception s then At_next n else At_exec 0 n) s"

text \<open>A task that throws ends the loop.\<close>

definition strand_exec :: "('t \<Rightarrow> bool) \<Rightarrow> nat \<Rightarrow> nat \<Rightarrow> nat \<Rightarrow> 't strand \<Rightarrow> 't strand" where
  "strand_exec throws k j n s =
     (if throws (m_tasks s ! j) then set_runner k (At_next n) (s\<lparr>m_ptr_exception := True\<rparr>)
      else if Suc j = n then set_runner k (At_next n) s
      else set_runner k (At_exec (Suc j) n) s)"

text \<open>The iterator is moved on without the lock: behind the last task it becomes the end of the list, and stays it
  when tasks are added.\<close>

definition strand_next :: "nat \<Rightarrow> nat \<Rightarrow> 't strand \<Rightarrow> 't strand" where
  "strand_next k n s = set_runner k (At_erase (if n < length (m_tasks s) then Some n else None)) s"

definition strand_erase :: "'i \<Rightarrow> nat \<Rightarrow> nat option \<Rightarrow> ('i, 't) thread_pool \<Rightarrow> ('i, 't) thread_pool" where
  "strand_erase i k it_last p =
     (let s = strands p i;
          left = (case it_last of Some n \<Rightarrow> drop n (m_tasks s) | None \<Rightarrow> []);
          s = set_runner k At_notify (s\<lparr>m_tasks := (if m_ptr_exception s then [] else left)\<rparr>)
      in if m_tasks s \<noteq> [] then put_strand i (s\<lparr>queued := queued s + 1\<rparr>) p
         else (put_strand i s p)\<lparr>m_done_threads := insert i (m_done_threads p)\<rparr>)"

definition strand_notify :: "nat \<Rightarrow> 't strand \<Rightarrow> 't strand" where
  "strand_notify k s = s\<lparr>runners := take k (runners s) @ drop (Suc k) (runners s)\<rparr>"

text \<open>\<open>thread::wait\<close> may go on once there are no tasks; the answer is whether it rethrows.\<close>

definition strand_wait :: "bool \<Rightarrow> 't strand \<Rightarrow> bool \<times> 't strand" where
  "strand_wait bthrow s =
     (if bthrow then (m_ptr_exception s, s\<lparr>m_ptr_exception := False\<rparr>) else (False, s))"

datatype efor = For_all | For_any

definition pool_ready :: "efor \<Rightarrow> ('i, 't) thread_pool \<Rightarrow> bool" where
  "pool_ready option p =
     (if option = For_all then card (m_pending_threads p) = card (m_done_threads p)
      else m_pending_threads p = {} \<or> m_done_threads p \<noteq> {})"

definition pool_take_done :: "('i, 't) thread_pool \<Rightarrow> 'i set \<times> ('i, 't) thread_pool" where
  "pool_take_done p =
     (m_done_threads p, p\<lparr>m_pending_threads := m_pending_threads p - m_done_threads p, m_done_threads := {}\<rparr>)"

section \<open>Steps\<close>

datatype ('i, 't) strand_label = S_none | S_run 'i 't | S_exec 'i 't

definition runner_at :: "('i, 't) thread_pool \<Rightarrow> 'i \<Rightarrow> nat \<Rightarrow> runner \<Rightarrow> bool" where
  "runner_at p i k r \<longleftrightarrow> k < length (runners (strands p i)) \<and> runners (strands p i) ! k = r"

text \<open>With \<open>calm\<close> no task is given to a thread whose list is about to be erased to its end.\<close>

inductive strand_step ::
  "bool \<Rightarrow> ('t \<Rightarrow> bool) \<Rightarrow> ('i, 't) thread_pool \<Rightarrow> ('i, 't) strand_label \<Rightarrow> ('i, 't) thread_pool \<Rightarrow> bool"
  for calm throws where
  run: "(calm \<longrightarrow> At_erase None \<notin> set (runners (strands p i))) \<Longrightarrow>
    strand_step calm throws p (S_run i t) (strand_run i t p)"
| take: "queued (strands p i) \<noteq> 0 \<Longrightarrow> strand_step calm throws p S_none (put_strand i (strand_take (strands p i)) p)"
| get: "runner_at p i k At_get \<Longrightarrow> strand_step calm throws p S_none (put_strand i (strand_get k (strands p i)) p)"
| look: "runner_at p i k (At_check n) \<Longrightarrow>
    strand_step calm throws p S_none (put_strand i (strand_check k n (strands p i)) p)"
| exec: "runner_at p i k (At_exec j n) \<Longrightarrow>
    strand_step calm throws p (S_exec i (m_tasks (strands p i) ! j)) (put_strand i (strand_exec throws k j n (strands p i)) p)"
| move_on: "runner_at p i k (At_next n) \<Longrightarrow>
    strand_step calm throws p S_none (put_strand i (strand_next k n (strands p i)) p)"
| erase: "runner_at p i k (At_erase it_last) \<Longrightarrow> strand_step calm throws p S_none (strand_erase i k it_last p)"
| notify: "runner_at p i k At_notify \<Longrightarrow> strand_step calm throws p S_none (put_strand i (strand_notify k (strands p i)) p)"
| wait: "m_tasks (strands p i) = [] \<Longrightarrow>
    strand_step calm throws p S_none (put_strand i (snd (strand_wait bthrow (strands p i))) p)"
| pool_wait: "pool_ready option p \<Longrightarrow> strand_step calm throws p S_none (snd (pool_take_done p))"

text \<open>What was given to each thread and what was run of it, in order.\<close>

record ('i, 't) strand_history =
  given :: "'i \<Rightarrow> 't list"
  ran :: "'i \<Rightarrow> 't list"

definition nothing_given :: "('i, 't) strand_history" where
  "nothing_given = \<lparr>given = \<lambda>_. [], ran = \<lambda>_. []\<rparr>"

fun strand_recorded :: "('i, 't) strand_label \<Rightarrow> ('i, 't) strand_history \<Rightarrow> ('i, 't) strand_history" where
  "strand_recorded S_none h = h"
| "strand_recorded (S_run i t) h = h\<lparr>given := (given h)(i := given h i @ [t])\<rparr>"
| "strand_recorded (S_exec i t) h = h\<lparr>ran := (ran h)(i := ran h i @ [t])\<rparr>"

inductive strand_reached :: "bool \<Rightarrow> ('t \<Rightarrow> bool) \<Rightarrow> ('i, 't) thread_pool \<Rightarrow> ('i, 't) strand_history \<Rightarrow> bool"
  for calm throws where
  start: "strand_reached calm throws thread_pool_new nothing_given"
| step: "strand_reached calm throws p h \<Longrightarrow> strand_step calm throws p l p' \<Longrightarrow>
    strand_reached calm throws p' (strand_recorded l h)"

section \<open>The invariant of a thread\<close>

text \<open>The calls of \<open>thread_task\<close> that have not yet erased their tasks.\<close>

definition working :: "'t strand \<Rightarrow> runner list" where
  "working s = filter (\<lambda>r. r \<noteq> At_notify) (runners s)"

text \<open>The tasks of the list that are still to be run when a call of \<open>thread_task\<close> is there.\<close>

fun to_run :: "runner \<Rightarrow> 't list \<Rightarrow> 't list" where
  "to_run (At_exec j n) ts = drop j ts"
| "to_run (At_next n) ts = drop n ts"
| "to_run (At_erase (Some n)) ts = drop n ts"
| "to_run (At_erase None) ts = []"
| "to_run _ ts = ts"

fun runner_ok :: "runner \<Rightarrow> 't list \<Rightarrow> bool" where
  "runner_ok (At_check n) ts = (0 < n \<and> n \<le> length ts)"
| "runner_ok (At_exec j n) ts = (j < n \<and> n \<le> length ts)"
| "runner_ok (At_next n) ts = (0 < n \<and> n \<le> length ts)"
| "runner_ok (At_erase (Some n)) ts = (0 < n \<and> n < length ts)"
| "runner_ok _ ts = True"

text \<open>What was run, then what is to be run, is part of what was given, in its order; all of it if \<open>exact\<close>.\<close>

definition part_of :: "bool \<Rightarrow> 't list \<Rightarrow> 't list \<Rightarrow> bool" where
  "part_of exact r g \<longleftrightarrow> (if exact then g = r else subseq r g)"

definition strand_ok :: "bool \<Rightarrow> 't strand \<Rightarrow> 't list \<Rightarrow> 't list \<Rightarrow> bool" where
  "strand_ok exact s g r \<longleftrightarrow>
     (exact \<longrightarrow> \<not> m_ptr_exception s) \<and>
     (if m_tasks s = [] then queued s = 0 \<and> working s = [] \<and> part_of exact r g
      else if working s = [] then queued s = 1 \<and> part_of exact (r @ m_tasks s) g
      else queued s = 0 \<and> (\<exists>w. working s = [w] \<and> runner_ok w (m_tasks s) \<and> part_of exact (r @ to_run w (m_tasks s)) g))"

lemma part_of_snoc: "part_of exact r g \<Longrightarrow> part_of exact (r @ [t]) (g @ [t])"
  by (simp add: part_of_def)

lemma part_of_given: "part_of False r g \<Longrightarrow> part_of False r (g @ [t])"
  by (simp add: part_of_def list_emb_prefix)

lemma part_of_drop:
  assumes "part_of False (r @ ts) g"
  shows "part_of False (r @ drop n ts) g"
proof -
  have "subseq (r @ drop n ts) (r @ ts)"
    by (rule list_emb_append_mono [OF subseq_order.refl suffix_imp_subseq [OF suffix_drop]])
  then show ?thesis using assms subseq_order.trans unfolding part_of_def by fastforce
qed

lemma filter_upd:
  assumes "filter P xs = [w]" "k < length xs" "P (xs ! k)"
  shows "w = xs ! k" "filter P (xs[k := y]) = (if P y then [y] else [])"
proof -
  have parts: "filter P (take k xs) @ xs ! k # filter P (drop (Suc k) xs) = [w]"
    using assms id_take_nth_drop [of k xs] filter_append [of P "take k xs" "xs ! k # drop (Suc k) xs"] by simp
  then have none: "filter P (take k xs) = []" "filter P (drop (Suc k) xs) = []" "w = xs ! k"
    by (cases "filter P (take k xs)"; simp)+
  then show "w = xs ! k" by simp
  show "filter P (xs[k := y]) = (if P y then [y] else [])"
    using none by (simp add: upd_conv_take_nth_drop [OF assms(2)])
qed

lemma strand_okD:
  assumes "strand_ok exact s g r" "k < length (runners s)" "runners s ! k = w" "w \<noteq> At_notify"
  shows "working s = [w]" "m_tasks s \<noteq> []" "queued s = 0" "runner_ok w (m_tasks s)"
    "part_of exact (r @ to_run w (m_tasks s)) g" "exact \<longrightarrow> \<not> m_ptr_exception s"
proof -
  have "w \<in> set (working s)" using assms(2-4) nth_mem [of k "runners s"] by (auto simp: working_def)
  then have busy: "working s \<noteq> []" by auto
  then show t: "m_tasks s \<noteq> []" using assms(1) by (auto simp: strand_ok_def)
  obtain v where v: "working s = [v]" "runner_ok v (m_tasks s)" "part_of exact (r @ to_run v (m_tasks s)) g"
    using assms(1) busy t unfolding strand_ok_def by auto
  have "v = w" using filter_upd(1) [OF v(1) [unfolded working_def] assms(2)] assms(3,4) by simp
  with v show "working s = [w]" "runner_ok w (m_tasks s)" "part_of exact (r @ to_run w (m_tasks s)) g" by simp_all
  show "queued s = 0" "exact \<longrightarrow> \<not> m_ptr_exception s" using assms(1) busy t unfolding strand_ok_def by auto
qed

lemma set_runner_simps [simp]:
  "m_tasks (set_runner k w s) = m_tasks s" "queued (set_runner k w s) = queued s"
  "m_ptr_exception (set_runner k w s) = m_ptr_exception s" "runners (set_runner k w s) = (runners s)[k := w]"
  by (simp_all add: set_runner_def)

lemma strand_moves:
  assumes ok: "strand_ok exact s g r" "k < length (runners s)" "runners s ! k = w" "w \<noteq> At_notify"
    and new: "w' \<noteq> At_notify" "runner_ok w' (m_tasks s)" "part_of exact (r' @ to_run w' (m_tasks s)) g" "exact \<longrightarrow> \<not> x"
  shows "strand_ok exact (set_runner k w' (s\<lparr>m_ptr_exception := x\<rparr>)) g r'"
proof -
  have "working (set_runner k w' (s\<lparr>m_ptr_exception := x\<rparr>)) = [w']"
    using filter_upd(2) [of _ "runners s" w k w'] strand_okD(1) [OF ok] ok(2-4) new(1) by (simp add: working_def)
  then show ?thesis using strand_okD(2,3) [OF ok] new by (simp add: strand_ok_def)
qed

lemmas strand_stays = strand_moves [where x = "m_ptr_exception s" and s = s for s, simplified]

section \<open>What a step does to a thread\<close>

lemma ok_get:
  assumes "strand_ok exact s g r" "k < length (runners s)" "runners s ! k = At_get"
  shows "strand_ok exact (strand_get k s) g r"
  unfolding strand_get_def using strand_okD [OF assms] by (intro strand_stays [OF assms]) simp_all

lemma ok_check:
  assumes "strand_ok exact s g r" "k < length (runners s)" "runners s ! k = At_check n"
  shows "strand_ok exact (strand_check k n s) g r"
  unfolding strand_check_def using strand_okD [OF assms] part_of_drop [of r "m_tasks s" g n]
  by (intro strand_stays [OF assms]) (auto simp: le_imp_less_Suc)

lemma exec_part:
  assumes "part_of exact (r @ drop j ts) g" "j < n" "n \<le> length ts"
  shows "part_of exact ((r @ [ts ! j]) @ drop (Suc j) ts) g"
    "\<not> exact \<Longrightarrow> part_of exact ((r @ [ts ! j]) @ drop n ts) g"
proof -
  show first: "part_of exact ((r @ [ts ! j]) @ drop (Suc j) ts) g"
    using assms by (simp add: Cons_nth_drop_Suc)
  assume "\<not> exact"
  then show "part_of exact ((r @ [ts ! j]) @ drop n ts) g"
    using first part_of_drop [of "r @ [ts ! j]" "drop (Suc j) ts" g "n - Suc j"] assms(2) by simp
qed

lemma ok_exec:
  assumes "strand_ok exact s g r" "k < length (runners s)" "runners s ! k = At_exec j n"
    and "exact \<longrightarrow> \<not> throws (m_tasks s ! j)"
  shows "strand_ok exact (strand_exec throws k j n s) g (r @ [m_tasks s ! j])"
proof -
  note facts = strand_okD [OF assms(1-3)]
  have n: "j < n" "n \<le> length (m_tasks s)" and part: "part_of exact (r @ drop j (m_tasks s)) g"
    using facts(4,5) by simp_all
  note parts = exec_part [OF part n]
  consider "throws (m_tasks s ! j)" | "\<not> throws (m_tasks s ! j)" "Suc j = n" | "\<not> throws (m_tasks s ! j)" "Suc j < n"
    using n(1) by linarith
  then show ?thesis
  proof cases
    case 1
    then have call: "strand_exec throws k j n s = set_runner k (At_next n) (s\<lparr>m_ptr_exception := True\<rparr>)"
      by (simp add: strand_exec_def)
    show ?thesis unfolding call using parts(2) n assms(4) 1 by (intro strand_moves [OF assms(1-3)]) auto
  next
    case 2
    then have call: "strand_exec throws k j n s = set_runner k (At_next n) s"
      by (simp add: strand_exec_def)
    show ?thesis unfolding call using parts(1) n facts(6) 2 by (intro strand_stays [OF assms(1-3)]) auto
  next
    case 3
    then have call: "strand_exec throws k j n s = set_runner k (At_exec (Suc j) n) s"
      by (simp add: strand_exec_def)
    show ?thesis unfolding call using parts(1) n facts(6) 3 by (intro strand_stays [OF assms(1-3)]) auto
  qed
qed

lemma ok_next:
  assumes "strand_ok exact s g r" "k < length (runners s)" "runners s ! k = At_next n"
  shows "strand_ok exact (strand_next k n s) g r"
  unfolding strand_next_def using strand_okD [OF assms] by (intro strand_stays [OF assms]) auto

lemma put_strand_simps [simp]:
  "strands (put_strand i s p) = (strands p)(i := s)"
  "m_pending_threads (put_strand i s p) = m_pending_threads p"
  "m_done_threads (put_strand i s p) = m_done_threads p"
  by (simp_all add: put_strand_def)

lemma working_upd [simp]:
  "working (s\<lparr>m_tasks := ts\<rparr>) = working s" "working (s\<lparr>m_tasks := ts, queued := q\<rparr>) = working s"
  "working (s\<lparr>queued := q\<rparr>) = working s" "working (s\<lparr>m_ptr_exception := x\<rparr>) = working s"
  by (simp_all add: working_def)

lemma runner_ok_more: "runner_ok w ts \<Longrightarrow> runner_ok w (ts @ [t])"
  by (cases w) (auto split: option.splits elim: runner_ok.elims)

lemma to_run_more: "runner_ok w ts \<Longrightarrow> w \<noteq> At_erase None \<Longrightarrow> to_run w (ts @ [t]) = to_run w ts @ [t]"
  by (induction w ts rule: to_run.induct) simp_all

lemma ok_run:
  assumes "strand_ok exact (strands p i) g r" "exact \<longrightarrow> At_erase None \<notin> set (runners (strands p i))"
  shows "strand_ok exact (strands (strand_run i t p) i) (g @ [t]) r"
proof (cases "m_tasks (strands p i) = []")
  case True
  then show ?thesis using assms(1) part_of_snoc [of exact r g t] by (simp add: strand_ok_def strand_run_def Let_def)
next
  case False
  show ?thesis
  proof (cases "working (strands p i) = []")
    case True
    then show ?thesis using assms(1) False part_of_snoc [of exact "r @ m_tasks (strands p i)" g t]
      by (simp add: strand_ok_def strand_run_def Let_def)
  next
    case busy: False
    obtain w where w: "working (strands p i) = [w]" "runner_ok w (m_tasks (strands p i))"
        "part_of exact (r @ to_run w (m_tasks (strands p i))) g"
      using assms(1) False busy unfolding strand_ok_def by auto
    have "w \<in> set (runners (strands p i))" using arg_cong [OF w(1), of set] by (auto simp: working_def)
    then have "exact \<Longrightarrow> w \<noteq> At_erase None" using assms(2) by blast
    then have "part_of exact (r @ to_run w (m_tasks (strands p i) @ [t])) (g @ [t])"
      using part_of_snoc [OF w(3), of t] to_run_more [OF w(2)] part_of_given [of r g t] w(3)
      by (cases "w = At_erase None"; cases exact) auto
    then show ?thesis using assms(1) False busy w(1) runner_ok_more [OF w(2)]
      by (simp add: strand_ok_def strand_run_def Let_def)
  qed
qed

lemma ok_take:
  assumes "strand_ok exact s g r" "queued s \<noteq> 0"
  shows "strand_ok exact (strand_take s) g r"
  using assms by (auto simp: strand_ok_def strand_take_def working_def split: if_splits)

lemma ok_erase:
  assumes "strand_ok exact (strands p i) g r" "k < length (runners (strands p i))" "runners (strands p i) ! k = At_erase it_last"
  shows "strand_ok exact (strands (strand_erase i k it_last p) i) g r"
proof -
  note facts = strand_okD [OF assms]
  have "working (set_runner k At_notify (strands p i)) = []"
    using filter_upd(2) [of _ "runners (strands p i)" "At_erase it_last" k At_notify] facts(1) assms(2,3)
    by (simp add: working_def)
  moreover define left where "left = (if m_ptr_exception (strands p i) then []
      else case it_last of Some n \<Rightarrow> drop n (m_tasks (strands p i)) | None \<Rightarrow> [])"
  moreover have "part_of exact (r @ left) g"
  proof (cases "m_ptr_exception (strands p i)")
    case True
    then show ?thesis
      using facts(5,6) part_of_drop [of r "to_run (At_erase it_last) (m_tasks (strands p i))" g
        "length (to_run (At_erase it_last) (m_tasks (strands p i)))"] by (cases exact) (auto simp: left_def)
  next
    case False
    then show ?thesis using facts(5) by (cases it_last) (auto simp: left_def)
  qed
  ultimately show ?thesis using facts(3,6)
    by (auto simp: strand_erase_def strand_ok_def Let_def working_def)
qed

lemma ok_notify:
  assumes "strand_ok exact s g r" "k < length (runners s)" "runners s ! k = At_notify"
  shows "strand_ok exact (strand_notify k s) g r"
proof -
  have "working (strand_notify k s) = working s"
    using assms(2,3) arg_cong [OF id_take_nth_drop [of k "runners s"], of "filter (\<lambda>w. w \<noteq> At_notify)"]
    by (simp add: working_def strand_notify_def)
  moreover have "m_tasks (strand_notify k s) = m_tasks s" "queued (strand_notify k s) = queued s"
    "m_ptr_exception (strand_notify k s) = m_ptr_exception s" by (simp_all add: strand_notify_def)
  ultimately show ?thesis using assms(1) unfolding strand_ok_def by metis
qed

lemma ok_wait: "strand_ok exact s g r \<Longrightarrow> strand_ok exact (snd (strand_wait bthrow s)) g r"
  by (cases bthrow) (auto simp: strand_ok_def strand_wait_def split: if_splits)

section \<open>The invariant of the pool\<close>

definition strands_ok :: "bool \<Rightarrow> ('i, 't) thread_pool \<Rightarrow> ('i, 't) strand_history \<Rightarrow> bool" where
  "strands_ok exact p h \<longleftrightarrow>
     (\<forall>i. strand_ok exact (strands p i) (given h i) (ran h i)) \<and>
     finite (m_pending_threads p) \<and> m_done_threads p \<subseteq> m_pending_threads p \<and>
     (\<forall>i. m_tasks (strands p i) \<noteq> [] \<longleftrightarrow> i \<in> m_pending_threads p - m_done_threads p)"

lemma strands_put:
  assumes "strands_ok exact p h" "strand_ok exact s (given h' i) (ran h' i)" "m_tasks s = m_tasks (strands p i)"
    and "\<And>j. j \<noteq> i \<Longrightarrow> given h' j = given h j \<and> ran h' j = ran h j"
  shows "strands_ok exact (put_strand i s p) h'"
  using assms by (auto simp: strands_ok_def)

lemma strands_call:
  assumes "strands_ok exact p h" "strand_ok exact s (given h i) (ran h i)" "m_tasks s = m_tasks (strands p i)"
  shows "strands_ok exact (put_strand i s p) (strand_recorded S_none h)"
  using strands_put [OF assms(1), of s h i] assms(2,3) by simp

lemma strand_calls_tasks:
  "m_tasks (strand_take s) = m_tasks s" "m_tasks (strand_get k s) = m_tasks s" "m_tasks (strand_check k n s) = m_tasks s"
  "m_tasks (strand_exec throws k j n s) = m_tasks s" "m_tasks (strand_next k n s) = m_tasks s"
  "m_tasks (strand_notify k s) = m_tasks s" "m_tasks (snd (strand_wait bthrow s)) = m_tasks s"
  by (simp_all add: strand_take_def strand_get_def strand_check_def strand_exec_def strand_next_def strand_notify_def strand_wait_def)

lemma run_pool:
  assumes "strands_ok exact p h" "strand_ok exact (strands (strand_run i t p) i) (given h i @ [t]) (ran h i)"
  shows "strands_ok exact (strand_run i t p) (strand_recorded (S_run i t) h)"
proof (cases "m_tasks (strands p i) = []")
  case True
  then show ?thesis using assms by (simp add: strands_ok_def strand_run_def Let_def) auto
next
  case False
  then have "strand_run i t p = put_strand i (strands p i\<lparr>m_tasks := m_tasks (strands p i) @ [t]\<rparr>) p"
    by (simp add: strand_run_def Let_def)
  then show ?thesis using assms False by (simp add: strands_ok_def)
qed

lemma erase_pool:
  assumes "strands_ok exact p h" "strand_ok exact (strands (strand_erase i k it_last p) i) (given h i) (ran h i)"
    and "m_tasks (strands p i) \<noteq> []"
  shows "strands_ok exact (strand_erase i k it_last p) h"
  using assms by (auto simp: strands_ok_def strand_erase_def Let_def)

lemma take_done_pool: "strands_ok exact p h \<Longrightarrow> strands_ok exact (snd (pool_take_done p)) h"
  by (auto simp: strands_ok_def pool_take_done_def)

lemma strand_step_ok:
  assumes "strand_step calm throws p l p'" "strands_ok (calm \<and> (\<forall>t. \<not> throws t)) p h"
  shows "strands_ok (calm \<and> (\<forall>t. \<not> throws t)) p' (strand_recorded l h)"
proof -
  let ?e = "calm \<and> (\<forall>t. \<not> throws t)"
  have ok: "strand_ok ?e (strands p i) (given h i) (ran h i)" for i using assms(2) by (simp add: strands_ok_def)
  from assms(1) show ?thesis
  proof (cases rule: strand_step.cases)
    case (run i t)
    then show ?thesis using run_pool [OF assms(2)] ok_run [OF ok] by blast
  next
    case (take i)
    show ?thesis unfolding take(1,2) using take(3-)
      by (intro strands_call [OF assms(2)] ok_take [OF ok]) (simp_all add: strand_calls_tasks runner_at_def)
  next
    case (get i k)
    show ?thesis unfolding get(1,2) using get(3-)
      by (intro strands_call [OF assms(2)] ok_get [OF ok]) (simp_all add: strand_calls_tasks runner_at_def)
  next
    case (look i k n)
    show ?thesis unfolding look(1,2) using look(3-)
      by (intro strands_call [OF assms(2)] ok_check [OF ok]) (simp_all add: strand_calls_tasks runner_at_def)
  next
    case (exec i k j n)
    then have "strand_ok ?e (strand_exec throws k j n (strands p i)) (given h i) (ran h i @ [m_tasks (strands p i) ! j])"
      using ok_exec [OF ok] by (simp add: runner_at_def)
    then show ?thesis unfolding exec(1,2) by (intro strands_put [OF assms(2)]) (simp_all add: strand_calls_tasks)
  next
    case (move_on i k n)
    show ?thesis unfolding move_on(1,2) using move_on(3-)
      by (intro strands_call [OF assms(2)] ok_next [OF ok]) (simp_all add: strand_calls_tasks runner_at_def)
  next
    case (erase i k it_last)
    then have at: "k < length (runners (strands p i))" "runners (strands p i) ! k = At_erase it_last"
      by (simp_all add: runner_at_def)
    show ?thesis unfolding erase(1,2) using erase_pool [OF assms(2) ok_erase [OF ok at] strand_okD(2) [OF ok at]] by simp
  next
    case (notify i k)
    show ?thesis unfolding notify(1,2) using notify(3-)
      by (intro strands_call [OF assms(2)] ok_notify [OF ok]) (simp_all add: strand_calls_tasks runner_at_def)
  next
    case (wait i bthrow)
    show ?thesis unfolding wait(1,2) using wait(3-)
      by (intro strands_call [OF assms(2)] ok_wait [OF ok]) (simp_all add: strand_calls_tasks runner_at_def)
  next
    case (pool_wait option)
    then show ?thesis using take_done_pool [OF assms(2)] by simp
  qed
qed

lemma strand_reached_ok: "strand_reached calm throws p h \<Longrightarrow> strands_ok (calm \<and> (\<forall>t. \<not> throws t)) p h"
proof (induction rule: strand_reached.induct)
  case start
  show ?case
    by (auto simp: strands_ok_def thread_pool_new_def nothing_given_def strand_ok_def strand_new_def working_def part_of_def)
next
  case (step p h l p')
  then show ?case using strand_step_ok by blast
qed

lemma ready_all:
  assumes "strands_ok exact p h"
  shows "pool_ready For_all p \<longleftrightarrow> (\<forall>j. m_tasks (strands p j) = [])"
proof -
  have "pool_ready For_all p \<longleftrightarrow> m_pending_threads p = m_done_threads p"
    using assms card_subset_eq [of "m_pending_threads p" "m_done_threads p"]
    by (auto simp: strands_ok_def pool_ready_def)
  also have "\<dots> \<longleftrightarrow> (\<forall>j. m_tasks (strands p j) = [])"
    using assms unfolding strands_ok_def by blast
  finally show ?thesis .
qed

lemma strand_ok_part:
  assumes "strand_ok exact s g r"
  shows "subseq r g"
proof -
  have more: "part_of exact (r @ ts) g \<Longrightarrow> subseq r g" for ts
    using subseq_order.trans [of r "r @ ts" g] by (auto simp: part_of_def list_emb_prefix split: if_splits)
  then show ?thesis using assms more [of "[]"] by (auto simp: strand_ok_def split: if_splits)
qed

section \<open>Properties\<close>

text \<open>C37: whatever the workers and the clients do, of each thread at most one call of \<open>thread_task\<close> is queued or
  at work, and one is as long as the thread has tasks; its tasks are run one after another in the order they were
  given, none twice; \<open>wait(all)\<close> of the pool returns exactly when no thread has tasks. If no task throws and none
  is given in the moment between \<open>++it_last\<close> and the erasing, a thread without tasks has run all it was given.\<close>

theorem strand_in_order:
  assumes "strand_reached calm throws p h"
  shows "queued (strands p i) + length (working (strands p i)) = (if m_tasks (strands p i) = [] then 0 else 1) \<and>
    subseq (ran h i) (given h i) \<and>
    (pool_ready For_all p \<longleftrightarrow> (\<forall>j. m_tasks (strands p j) = [])) \<and>
    (calm \<and> (\<forall>t. \<not> throws t) \<and> m_tasks (strands p i) = [] \<longrightarrow> ran h i = given h i)"
proof -
  note inv = strand_reached_ok [OF assms]
  have ok: "strand_ok (calm \<and> (\<forall>t. \<not> throws t)) (strands p i) (given h i) (ran h i)"
    using inv by (simp add: strands_ok_def)
  have "queued (strands p i) + length (working (strands p i)) = (if m_tasks (strands p i) = [] then 0 else 1)"
    using ok by (auto simp: strand_ok_def split: if_splits)
  moreover have "subseq (ran h i) (given h i)" using strand_ok_part [OF ok] .
  moreover have "calm \<and> (\<forall>t. \<not> throws t) \<and> m_tasks (strands p i) = [] \<longrightarrow> ran h i = given h i"
    using ok by (auto simp: strand_ok_def part_of_def)
  ultimately show ?thesis using ready_all [OF inv] by blast
qed

section \<open>One thread at work\<close>

text \<open>Runs of the single thread 0 of a pool.\<close>

definition one_strand :: "'t strand \<Rightarrow> nat set \<Rightarrow> nat set \<Rightarrow> (nat, 't) thread_pool" where
  "one_strand s A B = \<lparr>strands = (\<lambda>_. strand_new)(0 := s), m_pending_threads = A, m_done_threads = B\<rparr>"

definition strand_with :: "'t list \<Rightarrow> nat \<Rightarrow> runner list \<Rightarrow> 't strand" where
  "strand_with ts q ws = \<lparr>m_tasks = ts, m_ptr_exception = False, queued = q, runners = ws\<rparr>"

definition only_given :: "'t list \<Rightarrow> 't list \<Rightarrow> (nat, 't) strand_history" where
  "only_given g r = \<lparr>given = (\<lambda>_. [])(0 := g), ran = (\<lambda>_. [])(0 := r)\<rparr>"

lemma upd_same: "(\<lambda>_. x)(i := x) = (\<lambda>_. x)"
  by auto

lemmas one_strand_simps = upd_same one_strand_def strand_with_def only_given_def thread_pool_new_def nothing_given_def strand_new_def
  put_strand_def strand_run_def strand_take_def strand_get_def strand_check_def strand_exec_def strand_next_def
  strand_erase_def strand_notify_def set_runner_def runner_at_def Let_def

abbreviation reached_one :: "bool \<Rightarrow> 't strand \<Rightarrow> nat set \<Rightarrow> nat set \<Rightarrow> 't list \<Rightarrow> 't list \<Rightarrow> bool" where
  "reached_one calm s A B g r \<equiv> strand_reached calm (\<lambda>_. False) (one_strand s A B) (only_given g r)"

lemma one_task_reaches_end: "reached_one calm (strand_with [a] 0 [At_erase None]) {0} {} [a] [a]"
proof -
  have "reached_one calm (strand_with [a] 1 []) {0} {} [a] []"
    using strand_reached.step [OF strand_reached.start strand_step.run [of calm thread_pool_new 0 "\<lambda>_. False" a]]
    by (simp add: one_strand_simps)
  then have "reached_one calm (strand_with [a] 0 [At_get]) {0} {} [a] []"
    using strand_reached.step [OF _ strand_step.take, of calm "\<lambda>_. False" _ _ 0] by (fastforce simp: one_strand_simps)
  then have "reached_one calm (strand_with [a] 0 [At_check 1]) {0} {} [a] []"
    using strand_reached.step [OF _ strand_step.get, of calm "\<lambda>_. False" _ _ 0 0] by (fastforce simp: one_strand_simps)
  then have "reached_one calm (strand_with [a] 0 [At_exec 0 1]) {0} {} [a] []"
    using strand_reached.step [OF _ strand_step.look, of calm "\<lambda>_. False" _ _ 0 0 1] by (fastforce simp: one_strand_simps)
  then have "reached_one calm (strand_with [a] 0 [At_next 1]) {0} {} [a] [a]"
    using strand_reached.step [OF _ strand_step.exec, of calm "\<lambda>_. False" _ _ 0 0 0 1] by (fastforce simp: one_strand_simps)
  then show ?thesis
    using strand_reached.step [OF _ strand_step.move_on, of calm "\<lambda>_. False" _ _ 0 0 1] by (fastforce simp: one_strand_simps)
qed

text \<open>A client in \<open>wait\<close>, as the destructor is, can go on now and the thread can be destroyed, while the worker has
  yet to call \<open>notify\<close> on it.\<close>

lemma thread_gone_before_notify: "reached_one calm (strand_with [] 0 [At_notify]) {0} {0} [a] [a]"
  using one_task_reaches_end [of calm a]
    strand_reached.step [OF _ strand_step.erase, of calm "\<lambda>_. False" _ _ 0 0 None]
  by (fastforce simp: one_strand_simps)

theorem strand_in_order_witness:
  "let p = one_strand (strand_with [] 0 [At_notify]) {0} {0}; h = only_given [7 :: nat] [7]
   in strand_reached True (\<lambda>_. False) p h \<and> queued (strands p 0) + length (working (strands p 0)) = 0 \<and>
      pool_ready For_all p \<and> ran h 0 = given h 0"
  using strand_in_order [OF thread_gone_before_notify [of True "7 :: nat"], of 0] thread_gone_before_notify [of True "7 :: nat"]
  by (auto simp: Let_def one_strand_def strand_with_def strand_new_def)

text \<open>C38: the iterator behind the last task is fetched without the lock, before the list is erased up to it. A task
  that is given in between is erased without having been run: nothing is left to do for the thread, and the pool
  reports it as done.\<close>

theorem strand_task_lost:
  "\<exists>p h. strand_reached False (\<lambda>_. False) p h \<and> given h 0 = [a, b] \<and> ran h 0 = [a] \<and>
     m_tasks (strands p 0) = [] \<and> queued (strands p 0) = 0 \<and> runners (strands p 0) = [] \<and>
     pool_ready For_all p \<and> fst (pool_take_done p) = {0 :: nat}"
proof -
  have "reached_one False (strand_with [a, b] 0 [At_erase None]) {0} {} [a, b] [a]"
    using one_task_reaches_end [of False a]
      strand_reached.step [OF _ strand_step.run, of False "\<lambda>_. False" _ _ 0 b] by (fastforce simp: one_strand_simps)
  then have "reached_one False (strand_with [] 0 [At_notify]) {0} {0} [a, b] [a]"
    using strand_reached.step [OF _ strand_step.erase, of False "\<lambda>_. False" _ _ 0 0 None] by (fastforce simp: one_strand_simps)
  then have "reached_one False (strand_with [] 0 []) {0} {0} [a, b] [a]"
    using strand_reached.step [OF _ strand_step.notify, of False "\<lambda>_. False" _ _ 0 0] by (fastforce simp: one_strand_simps)
  then show ?thesis
    by (intro exI [of _ "one_strand (strand_with [] 0 []) {0} {0}"] exI [of _ "only_given [a, b] [a]"])
      (simp add: one_strand_def strand_with_def only_given_def pool_ready_def pool_take_done_def)
qed

end
