(* ===== verification/Calendar.thy ===== *)
theory Calendar
  imports Numbers
begin

text \<open>
  The part of the C library that \<open>src/libutility/utility.cpp\<close> uses for dates: \<open>gmtime_r\<close> and \<open>timegm\<close>
  on the Gregorian calendar, \<open>strftime\<close> with the format \<open>%Y-%m-%d %H:%M:%S\<close> and \<open>sscanf\<close> with
  \<open>%d-%d-%d %d:%d:%d\<close>. A \<open>time_t\<close> is an integer, the seconds since 1970.
\<close>

record tm =
  tm_sec :: int
  tm_min :: int
  tm_hour :: int
  tm_mday :: int
  tm_mon :: int
  tm_year :: int

section \<open>Years and months\<close>

definition leap_year :: "int \<Rightarrow> bool" where
  "leap_year y \<longleftrightarrow> y mod 4 = 0 \<and> (y mod 100 \<noteq> 0 \<or> y mod 400 = 0)"

definition year_days :: "int \<Rightarrow> int" where
  "year_days y = (if leap_year y then 366 else 365)"

definition month_lengths :: "int \<Rightarrow> int list" where
  "month_lengths y = [31, if leap_year y then 29 else 28, 31, 30, 31, 30, 31, 31, 30, 31, 30, 31]"

text \<open>The days from the first of January 1970 to that of another year.\<close>

definition days_before_year :: "int \<Rightarrow> int" where
  "days_before_year y = 365 * (y - 1970) + (y - 1) div 4 - (y - 1) div 100 + (y - 1) div 400 - 477"

definition days_before_month :: "int \<Rightarrow> nat \<Rightarrow> int" where
  "days_before_month y m = sum_list (take m (month_lengths y))"

lemma year_days_pos: "365 \<le> year_days y" "year_days y \<le> 366"
  by (simp_all add: year_days_def)

text \<open>The year of a day, counted from the first of January of some year.\<close>

function year_of_day :: "int \<Rightarrow> int \<Rightarrow> int \<times> int" where
  "year_of_day y d =
     (if d < 0 then year_of_day (y - 1) (d + year_days (y - 1))
      else if year_days y \<le> d then year_of_day (y + 1) (d - year_days y)
      else (y, d))"
  by pat_completeness auto
termination
proof (relation "measure (\<lambda>(y, d). if d < 0 then nat (- d) + 400 else nat d)", goal_cases)
  case (2 y d)
  then show ?case using year_days_pos [of "y - 1"] by auto
next
  case (3 y d)
  then show ?case using year_days_pos [of y] by auto
qed simp

declare year_of_day.simps [simp del]

fun month_of_day :: "int list \<Rightarrow> nat \<Rightarrow> int \<Rightarrow> nat \<times> int" where
  "month_of_day [] m d = (m, d)"
| "month_of_day (l # ls) m d = (if d < l then (m, d) else month_of_day ls (Suc m) (d - l))"

lemma div_next:
  assumes "0 < (n :: int)"
  shows "y div n = (y - 1) div n + (if y mod n = 0 then 1 else 0)"
proof -
  define q r where "q = y div n" and "r = y mod n"
  have y: "y = n * q + r" and r: "0 \<le> r" "r < n" using assms by (simp_all add: q_def r_def)
  show ?thesis
  proof (cases "r = 0")
    case True
    then have "(y - 1) div n = q - 1" using y r assms by (intro int_div_pos_eq [of _ _ _ "n - 1"]) (auto simp: algebra_simps)
    then show ?thesis using True by (simp add: q_def r_def)
  next
    case False
    then have "(y - 1) div n = q" using y r by (intro int_div_pos_eq [of _ _ _ "r - 1"]) auto
    then show ?thesis using False by (simp add: q_def r_def)
  qed
qed

lemma year_sum:
  "365 * (y + 1 - 1970) + (a + p) - (b + q) + (c + r) - 477 =
    365 * (y - 1970) + a - b + c - 477 + (365 + p - q + r :: int)"
  by simp

lemma days_before_next_year: "days_before_year (y + 1) = days_before_year y + year_days y"
proof -
  have "(100 :: int) dvd 400" "(4 :: int) dvd 100" by simp_all
  then have "y mod 400 = 0 \<Longrightarrow> y mod 100 = 0" "y mod 100 = 0 \<Longrightarrow> y mod 4 = 0"
    unfolding mod_eq_0_iff_dvd using dvd_trans by blast+
  then have "year_days y = 365 + (if y mod 4 = 0 then 1 else 0) - (if y mod 100 = 0 then 1 else 0) +
      (if y mod 400 = 0 then 1 else 0)"
    unfolding year_days_def leap_year_def by presburger
  moreover have "y div 4 = (y - 1) div 4 + (if y mod 4 = 0 then 1 else 0)"
    "y div 100 = (y - 1) div 100 + (if y mod 100 = 0 then 1 else 0)"
    "y div 400 = (y - 1) div 400 + (if y mod 400 = 0 then 1 else 0)"
    by (rule div_next, simp)+
  moreover have "y + 1 - 1 = y" by simp
  ultimately show ?thesis unfolding days_before_year_def by (simp only:) (rule year_sum)
qed

lemma year_of_day_spec:
  "year_of_day y d = (y', d') \<Longrightarrow>
    days_before_year y' + d' = days_before_year y + d \<and> 0 \<le> d' \<and> d' < year_days y'"
proof (induction y d arbitrary: y' d' rule: year_of_day.induct)
  case (1 y d)
  show ?case
  proof (cases "d < 0 \<or> year_days y \<le> d")
    case True
    then show ?thesis
      using 1 days_before_next_year [of y] days_before_next_year [of "y - 1"]
      by (auto simp: year_of_day.simps [of y d] split: if_splits)
  next
    case False
    then show ?thesis using 1(3) by (auto simp: year_of_day.simps [of y d])
  qed
qed

lemma month_of_day_spec:
  "month_of_day ls m d = (m', d') \<Longrightarrow> 0 \<le> d \<Longrightarrow> d < sum_list ls \<Longrightarrow> \<forall>l \<in> set ls. 0 < l \<Longrightarrow>
    m \<le> m' \<and> m' < m + length ls \<and> sum_list (take (m' - m) ls) + d' = d \<and> 0 \<le> d' \<and> d' < ls ! (m' - m)"
proof (induction ls arbitrary: m d)
  case (Cons l ls)
  show ?case
  proof (cases "d < l")
    case True
    then show ?thesis using Cons.prems by auto
  next
    case False
    then have "month_of_day ls (Suc m) (d - l) = (m', d')" "0 \<le> d - l" "d - l < sum_list ls" "\<forall>l \<in> set ls. 0 < l"
      using Cons.prems by auto
    from Cons.IH [OF this] have "Suc m \<le> m' \<and> m' < Suc m + length ls \<and> sum_list (take (m' - Suc m) ls) + d' = d - l \<and>
        0 \<le> d' \<and> d' < ls ! (m' - Suc m)" .
    moreover from this have "Suc m \<le> m'" by blast
    then have "m' - m = Suc (m' - Suc m)" by simp
    ultimately show ?thesis by simp
  qed
qed simp

lemma month_lengths_facts:
  "length (month_lengths y) = 12" "sum_list (month_lengths y) = year_days y" "\<forall>l \<in> set (month_lengths y). 0 < l \<and> l \<le> 31"
  by (simp_all add: month_lengths_def year_days_def)

section \<open>gmtime_r and timegm\<close>

definition gmtime :: "int \<Rightarrow> tm" where
  "gmtime t =
     (let rem = t mod 86400; (y, yday) = year_of_day 1970 (t div 86400);
          (mon, mday) = month_of_day (month_lengths y) 0 yday
      in \<lparr>tm_sec = rem mod 60, tm_min = rem div 60 mod 60, tm_hour = rem div 3600,
          tm_mday = mday + 1, tm_mon = int mon, tm_year = y - 1900\<rparr>)"

text \<open>\<open>timegm\<close> takes months and days outside their range, too.\<close>

definition timegm :: "tm \<Rightarrow> int" where
  "timegm st =
     (let y = tm_year st + 1900 + tm_mon st div 12; mon = nat (tm_mon st mod 12)
      in (days_before_year y + days_before_month y mon + tm_mday st - 1) * 86400 +
         tm_hour st * 3600 + tm_min st * 60 + tm_sec st)"

definition real_date :: "tm \<Rightarrow> bool" where
  "real_date st \<longleftrightarrow> 0 \<le> tm_sec st \<and> tm_sec st < 60 \<and> 0 \<le> tm_min st \<and> tm_min st < 60 \<and> 0 \<le> tm_hour st \<and>
     tm_hour st < 24 \<and> 0 \<le> tm_mon st \<and> tm_mon st < 12 \<and> 1 \<le> tm_mday st \<and>
     tm_mday st \<le> month_lengths (tm_year st + 1900) ! nat (tm_mon st)"

text \<open>The hours, minutes and seconds of a second of the day.\<close>

lemma clock:
  assumes "0 \<le> x" "x < (86400 :: int)"
  shows "0 \<le> x div 3600" "x div 3600 < 24" "x div 3600 * 3600 + x div 60 mod 60 * 60 + x mod 60 = x"
proof -
  have h: "x div 3600 = x div 60 div 60" using zdiv_zmult2_eq [of 60 x 60] by simp
  have x: "x = 60 * (x div 60) + x mod 60" "x div 60 = 60 * (x div 60 div 60) + x div 60 mod 60"
    "0 \<le> x mod 60" "0 \<le> x div 60 mod 60" by simp_all
  show "x div 3600 * 3600 + x div 60 mod 60 * 60 + x mod 60 = x" unfolding h using x(1,2) by linarith
  show "0 \<le> x div 3600" using assms(1) by (simp add: pos_imp_zdiv_nonneg_iff)
  show "x div 3600 < 24" unfolding h using x assms(2) by linarith
qed

lemma timegm_fields:
  "mon < 12 \<Longrightarrow> timegm \<lparr>tm_sec = s, tm_min = m, tm_hour = h, tm_mday = d + 1, tm_mon = int mon, tm_year = y - 1900\<rparr> =
    (days_before_year y + days_before_month y mon + d) * 86400 + (h * 3600 + m * 60 + s)"
  by (simp add: timegm_def Let_def)

lemma gmtime_real: "real_date (gmtime t) \<and> timegm (gmtime t) = t"
proof -
  obtain y yday where y: "year_of_day 1970 (t div 86400) = (y, yday)" by (metis surj_pair)
  obtain mon mday where m: "month_of_day (month_lengths y) 0 yday = (mon, mday)" by (metis surj_pair)
  have yd: "days_before_year y + yday = days_before_year 1970 + t div 86400" "0 \<le> yday" "yday < year_days y"
    using year_of_day_spec [OF y] by simp_all
  have md: "mon < 12" "sum_list (take mon (month_lengths y)) + mday = yday" "0 \<le> mday" "mday < month_lengths y ! mon"
    using month_of_day_spec [OF m yd(2)] yd(3) month_lengths_facts [of y] by simp_all
  have rem: "0 \<le> t mod 86400" "t mod 86400 < 86400" by simp_all
  have g: "gmtime t = \<lparr>tm_sec = t mod 86400 mod 60, tm_min = t mod 86400 div 60 mod 60, tm_hour = t mod 86400 div 3600,
      tm_mday = mday + 1, tm_mon = int mon, tm_year = y - 1900\<rparr>"
    by (simp add: gmtime_def Let_def y m)
  note time = clock [OF rem]
  then have "real_date (gmtime t)" using md by (simp add: real_date_def g)
  moreover have "timegm (gmtime t) = t"
  proof -
    have "days_before_year 1970 = 0" by (simp add: days_before_year_def)
    then have "days_before_year y + days_before_month y mon + mday = t div 86400"
      using yd(1) md(2) by (simp add: days_before_month_def)
    then have "timegm (gmtime t) = t div 86400 * 86400 + (t mod 86400 div 3600 * 3600 + t mod 86400 div 60 mod 60 * 60 +
        t mod 86400 mod 60)"
      unfolding g using timegm_fields [OF md(1)] by simp
    then show ?thesis unfolding time(3) by simp
  qed
  ultimately show ?thesis by blast
qed

text \<open>No other date is at the same time.\<close>

lemma days_before_year_mono: "y < y' \<Longrightarrow> days_before_year y + year_days y \<le> days_before_year y'"
proof (induction "nat (y' - y)" arbitrary: y' rule: less_induct)
  case less
  show ?case
  proof (cases "y' = y + 1")
    case True
    then show ?thesis by (simp add: days_before_next_year)
  next
    case False
    then have "days_before_year y + year_days y \<le> days_before_year (y' - 1)"
      using less.prems by (intro less.hyps) auto
    then show ?thesis using days_before_next_year [of "y' - 1"] year_days_pos(1) [of "y' - 1"] by simp
  qed
qed

lemma days_before_month_step:
  "m < 12 \<Longrightarrow> days_before_month y (Suc m) = days_before_month y m + month_lengths y ! m"
  by (simp add: days_before_month_def take_Suc_conv_app_nth month_lengths_facts)

lemma month_length_pos: "m < 12 \<Longrightarrow> 0 < month_lengths y ! m \<and> month_lengths y ! m \<le> 31"
  using month_lengths_facts [of y] by (metis nth_mem)

lemma days_before_month_mono:
  "m < m' \<Longrightarrow> m' \<le> 12 \<Longrightarrow> days_before_month y m + month_lengths y ! m \<le> days_before_month y m'"
proof (induction m')
  case (Suc k)
  show ?case
  proof (cases "m = k")
    case True
    then show ?thesis using Suc.prems by (simp add: days_before_month_step)
  next
    case False
    then have "days_before_month y m + month_lengths y ! m \<le> days_before_month y k" using Suc by simp
    then show ?thesis using Suc.prems month_length_pos [of k y] by (simp add: days_before_month_step)
  qed
qed simp

lemma day_in_year:
  assumes "m < 12" "0 \<le> d" "d < month_lengths y ! m"
  shows "0 \<le> days_before_month y m + d" "days_before_month y m + d < year_days y"
proof -
  have "days_before_month y 0 \<le> days_before_month y m"
    using days_before_month_mono [of 0 m y] month_length_pos [of 0 y] assms(1) by (cases "m = 0") auto
  then show "0 \<le> days_before_month y m + d" using assms(2) by (simp add: days_before_month_def)
  have "days_before_month y (Suc m) \<le> days_before_month y 12"
    using days_before_month_mono [of "Suc m" 12 y] month_length_pos [of "Suc m" y] assms(1) by (cases "m = 11") auto
  then show "days_before_month y m + d < year_days y"
    using assms days_before_month_step [of m y] month_lengths_facts [of y] by (simp add: days_before_month_def)
qed

lemma date_unique:
  assumes "m < 12" "0 \<le> d" "d < month_lengths y ! m" "m' < 12" "0 \<le> d'" "d' < month_lengths y' ! m'"
    and "days_before_year y + days_before_month y m + d = days_before_year y' + days_before_month y' m' + d'"
  shows "y = y' \<and> m = m' \<and> d = d'"
proof -
  note in_year = day_in_year [OF assms(1-3)] day_in_year [OF assms(4-6)]
  have y: "y = y'"
    using days_before_year_mono [of y y'] days_before_year_mono [of y' y] in_year assms(7) by linarith
  have "m = m'"
    using days_before_month_mono [of m m' y] days_before_month_mono [of m' m y] assms unfolding y
    by (cases m m' rule: linorder_cases) auto
  then show ?thesis using y assms(7) by simp
qed

lemma clock_unique:
  assumes "0 \<le> h" "0 \<le> m" "m < 60" "0 \<le> s" "s < (60 :: int)" "x = h * 3600 + m * 60 + s"
  shows "h = x div 3600" "m = x div 60 mod 60" "s = x mod 60"
proof -
  have "x = 60 * (h * 60 + m) + s" "h * 60 + m = 60 * h + m" using assms(6) by simp_all
  then have x: "x div 60 = h * 60 + m" "x mod 60 = s" "(h * 60 + m) div 60 = h" "(h * 60 + m) mod 60 = m"
    using assms(2-5) int_div_pos_eq int_mod_pos_eq by blast+
  then show "h = x div 3600" "m = x div 60 mod 60" "s = x mod 60"
    using x zdiv_zmult2_eq [of 60 x 60] by simp_all
qed

lemma gmtime_timegm:
  assumes "real_date st"
  shows "gmtime (timegm st) = st"
proof -
  have eq: "a = b" if "real_date a" "real_date b" "timegm a = timegm b" for a b
  proof -
    define D where "D st = days_before_year (tm_year st + 1900) + days_before_month (tm_year st + 1900) (nat (tm_mon st)) +
      (tm_mday st - 1)" for st :: tm
    define S where "S st = tm_hour st * 3600 + tm_min st * 60 + tm_sec st" for st :: tm
    have t: "timegm st = D st * 86400 + S st" "0 \<le> S st" "S st < 86400" if "real_date st" for st
    proof -
      have "tm_mon st div 12 = 0" "tm_mon st mod 12 = tm_mon st" using that by (simp_all add: real_date_def)
      then show "timegm st = D st * 86400 + S st" by (simp add: timegm_def Let_def D_def S_def)
      show "0 \<le> S st" "S st < 86400" using that by (simp_all add: real_date_def S_def)
    qed
    have parts: "D st = timegm st div 86400 \<and> S st = timegm st mod 86400" if "real_date st" for st
      using t [OF that] int_div_pos_eq [of "timegm st" 86400 "D st" "S st"] int_mod_pos_eq [of "timegm st" 86400 "D st" "S st"]
      by (simp only: mult.commute [of 86400] simp_thms)
    have "D a = D b" "S a = S b" using parts that by simp_all
    from date_unique [OF _ _ _ _ _ _ this(1) [unfolded D_def]]
    have "tm_year a = tm_year b \<and> nat (tm_mon a) = nat (tm_mon b) \<and> tm_mday a = tm_mday b"
      using that(1,2) by (simp add: real_date_def nat_less_iff)
    moreover have "tm_hour st = S st div 3600 \<and> tm_min st = S st div 60 mod 60 \<and> tm_sec st = S st mod 60"
      if "real_date st" for st
      using that clock_unique [of "tm_hour st" "tm_min st" "tm_sec st" "S st"] unfolding real_date_def S_def by blast
    then have "tm_hour a = tm_hour b" "tm_min a = tm_min b" "tm_sec a = tm_sec b"
      using that(1,2) \<open>S a = S b\<close> by simp_all
    ultimately show "a = b" using that(1,2) by (intro tm.equality) (auto simp: real_date_def)
  qed
  show ?thesis using eq [OF _ assms] gmtime_real [of "timegm st"] by blast
qed

end
