(* ===== verification/Utility.thy ===== *)
theory Utility
  imports Calendar
begin

text \<open>
  \<open>src/libutility/utility.cpp\<close>: times as text and back. What \<open>strftime\<close> stores for fields outside their
  normal ranges is not specified and is the parameter \<open>other\<close>; the time zone is in the parameters
  \<open>localtime\<close> and \<open>mktime\<close>, where the latter is given the field \<open>tm_isdst\<close> it reads.
\<close>

section \<open>The text of a date\<close>

definition two_digits :: "int \<Rightarrow> string" where
  "two_digits n = [digit_char (nat n div 10), digit_char (nat n mod 10)]"

definition decimal_text :: "int \<Rightarrow> string" where
  "decimal_text n = (if n < 0 then ''-'' @ to_string (nat (- n)) else to_string (nat n))"

definition normal_fields :: "tm \<Rightarrow> bool" where
  "normal_fields st \<longleftrightarrow> 0 \<le> tm_sec st \<and> tm_sec st \<le> 60 \<and> 0 \<le> tm_min st \<and> tm_min st \<le> 59 \<and> 0 \<le> tm_hour st \<and>
     tm_hour st \<le> 23 \<and> 1 \<le> tm_mday st \<and> tm_mday st \<le> 31 \<and> 0 \<le> tm_mon st \<and> tm_mon st \<le> 11"

definition strftime :: "(tm \<Rightarrow> string) \<Rightarrow> tm \<Rightarrow> string" where
  "strftime other st =
     (if normal_fields st
      then decimal_text (tm_year st + 1900) @ ''-'' @ two_digits (tm_mon st + 1) @ ''-'' @ two_digits (tm_mday st) @ '' '' @
           two_digits (tm_hour st) @ '':'' @ two_digits (tm_min st) @ '':'' @ two_digits (tm_sec st)
      else other st)"

text \<open>\<open>strftime\<close> gives 0 when the text and its end do not fit into the buffer.\<close>

definition format_tm :: "(tm \<Rightarrow> string) \<Rightarrow> tm \<Rightarrow> string result" where
  "format_tm other t =
     (let buffer = strftime other t
      in if 80 \<le> length buffer then Inl (Logic_error ''format_tm'') else Inr buffer)"

section \<open>Reading it\<close>

definition scan_int :: "string \<Rightarrow> (int \<times> string) option" where
  "scan_int s =
     (let s = dropWhile is_space s;
          neg = (s \<noteq> [] \<and> hd s = CHR ''-'');
          s = (if neg \<or> s \<noteq> [] \<and> hd s = CHR ''+'' then tl s else s);
          ds = takeWhile (\<lambda>c. digit_val c < 10) s
      in if ds = [] then None
         else Some (if neg then - int (digits_value 10 ds) else int (digits_value 10 ds), dropWhile (\<lambda>c. digit_val c < 10) s))"

datatype directive = Number | Literal char | White_space

definition date_format :: "directive list" where
  "date_format = [Number, Literal CHR ''-'', Number, Literal CHR ''-'', Number, White_space,
     Number, Literal CHR '':'', Number, Literal CHR '':'', Number]"

text \<open>The numbers that were converted.\<close>

fun sscanf :: "directive list \<Rightarrow> string \<Rightarrow> int list" where
  "sscanf [] s = []"
| "sscanf (Number # ds) s = (case scan_int s of None \<Rightarrow> [] | Some (n, rest) \<Rightarrow> n # sscanf ds rest)"
| "sscanf (Literal c # ds) s = (if s \<noteq> [] \<and> hd s = c then sscanf ds (tl s) else [])"
| "sscanf (White_space # ds) s = sscanf ds (dropWhile is_space s)"

definition fits_int :: "int \<Rightarrow> bool" where
  "fits_int n \<longleftrightarrow> - (2 ^ 31) \<le> n \<and> n < 2 ^ 31"

text \<open>A number that does not fit an \<open>int\<close> is undefined behaviour, in the conversion and in the subtractions.\<close>

definition scan_tm :: "(tm \<Rightarrow> string) \<Rightarrow> string \<Rightarrow> tm option result" where
  "scan_tm other strt =
     (case sscanf date_format (takeWhile (\<lambda>c. c \<noteq> CHR 0x00) strt) of
        [year, mon, mday, hour, minute, sec] \<Rightarrow>
          if \<not> list_all fits_int [year, mon, mday, hour, minute, sec, year - 1900, mon - 1] then Inl Undefined
          else let st = \<lparr>tm_sec = sec, tm_min = minute, tm_hour = hour, tm_mday = mday, tm_mon = mon - 1, tm_year = year - 1900\<rparr>
               in (case format_tm other st of
                     Inl e \<Rightarrow> Inl e
                   | Inr s \<Rightarrow> Inr (if s \<noteq> strt then None else Some st))
      | _ \<Rightarrow> Inr None)"

section \<open>The functions of the library\<close>

definition gm_time_t_to_gm_tm :: "int \<Rightarrow> tm" where "gm_time_t_to_gm_tm t = gmtime t"
definition gm_time_t_to_lc_tm :: "(int \<Rightarrow> tm) \<Rightarrow> int \<Rightarrow> tm" where "gm_time_t_to_lc_tm localtime t = localtime t"
definition gm_tm_to_gm_time_t :: "tm \<Rightarrow> int" where "gm_tm_to_gm_time_t t = timegm t"
definition lc_tm_to_gm_time_t :: "(tm \<Rightarrow> int \<Rightarrow> int) \<Rightarrow> tm \<Rightarrow> int \<Rightarrow> int" where
  "lc_tm_to_gm_time_t mktime t isdst = mktime t isdst"

definition gm_time_t_to_gm_string :: "(tm \<Rightarrow> string) \<Rightarrow> int \<Rightarrow> string result" where
  "gm_time_t_to_gm_string other t = format_tm other (gm_time_t_to_gm_tm t)"

definition gm_time_t_to_lc_string :: "(tm \<Rightarrow> string) \<Rightarrow> (int \<Rightarrow> tm) \<Rightarrow> int \<Rightarrow> string result" where
  "gm_time_t_to_lc_string other localtime t = format_tm other (gm_time_t_to_lc_tm localtime t)"

definition gm_string_to_gm_time_t :: "(tm \<Rightarrow> string) \<Rightarrow> string \<Rightarrow> int option result" where
  "gm_string_to_gm_time_t other strt =
     (case scan_tm other strt of
        Inl e \<Rightarrow> Inl e
      | Inr None \<Rightarrow> Inr None
      | Inr (Some st) \<Rightarrow> Inr (Some (gm_tm_to_gm_time_t st)))"

text \<open>The field \<open>tm_isdst\<close> of the date is never set: it is what was in the memory.\<close>

definition lc_string_to_gm_time_t :: "(tm \<Rightarrow> string) \<Rightarrow> (tm \<Rightarrow> int \<Rightarrow> int) \<Rightarrow> int \<Rightarrow> string \<Rightarrow> int option result" where
  "lc_string_to_gm_time_t other mktime memory strt =
     (case scan_tm other strt of
        Inl e \<Rightarrow> Inl e
      | Inr None \<Rightarrow> Inr None
      | Inr (Some st) \<Rightarrow> Inr (Some (lc_tm_to_gm_time_t mktime st memory)))"

text \<open>A number below \<open>count\<close> that is drawn decides.\<close>

definition chance_one_of :: "(nat \<Rightarrow> nat) \<Rightarrow> u32 \<Rightarrow> bool" where
  "chance_one_of dist count =
     (if 0 = count then False else if 1 = count then True else dist (unat (count - 1)) = 0)"

section \<open>A date is read back\<close>

definition ends_number :: "string \<Rightarrow> bool" where
  "ends_number rest \<longleftrightarrow> (case rest of [] \<Rightarrow> True | c # _ \<Rightarrow> 10 \<le> digit_val c)"

lemma scan_digits:
  assumes "ds \<noteq> []" "\<forall>c \<in> set ds. \<exists>d<10. c = digit_char d" "ends_number rest"
  shows "scan_int (ds @ rest) = Some (int (digits_value 10 ds), rest)"
    "scan_int (CHR ''-'' # ds @ rest) = Some (- int (digits_value 10 ds), rest)"
proof -
  have dig: "\<forall>c \<in> set ds. digit_val c < 10" using assms(2) by auto
  obtain d ds' where d: "ds = digit_char d # ds'" "d < 10" using assms(1,2) by (cases ds) auto
  have sign: "digit_char d \<noteq> CHR ''-''" "digit_char d \<noteq> CHR ''+''" using d(2) by (simp_all add: digit_char_less)
  have run: "takeWhile (\<lambda>c. digit_val c < 10) (ds @ rest) = ds" "dropWhile (\<lambda>c. digit_val c < 10) (ds @ rest) = rest"
    using dig assms(3) by (cases rest; simp add: ends_number_def)+
  have space: "dropWhile is_space (ds @ rest) = ds @ rest" using d by simp
  show "scan_int (ds @ rest) = Some (int (digits_value 10 ds), rest)"
    unfolding scan_int_def space Let_def using run sign d by simp
  have "\<not> is_space CHR ''-''" by (simp add: is_space_def)
  then show "scan_int (CHR ''-'' # ds @ rest) = Some (- int (digits_value 10 ds), rest)"
    using run assms(1) by (simp add: scan_int_def Let_def)
qed

lemma scan_decimal: "ends_number rest \<Longrightarrow> scan_int (decimal_text n @ rest) = Some (n, rest)"
  using scan_digits [of "to_string (nat n)" rest] scan_digits [of "to_string (nat (- n))" rest] to_string_digits
  by (auto simp: decimal_text_def digits_value_to_string)

lemma two_digits_chars: "0 \<le> n \<Longrightarrow> n < 100 \<Longrightarrow> c \<in> set (two_digits n) \<Longrightarrow> \<exists>d<10. c = digit_char d"
proof -
  assume "0 \<le> n" "n < 100" "c \<in> set (two_digits n)"
  then have "nat n div 10 < 10" "nat n mod 10 < 10" "c = digit_char (nat n div 10) \<or> c = digit_char (nat n mod 10)"
    by (auto simp: two_digits_def)
  then show ?thesis by metis
qed

lemma digit_not_nul: "d < 10 \<Longrightarrow> digit_char d \<noteq> CHR 0x00"
  by (simp add: digit_char_less)

lemma no_nul:
  "CHR 0x00 \<notin> set (decimal_text n)"
  "0 \<le> m \<Longrightarrow> m < 100 \<Longrightarrow> CHR 0x00 \<notin> set (two_digits m)"
proof -
  have k: "CHR 0x00 \<notin> set (to_string k)" for k
    using to_string_digits [of "CHR 0x00" k] digit_not_nul by metis
  show "CHR 0x00 \<notin> set (decimal_text n)" using k by (simp add: decimal_text_def)
  show "CHR 0x00 \<notin> set (two_digits m)" if "0 \<le> m" "m < 100"
    using two_digits_chars [OF that, of "CHR 0x00"] digit_not_nul by metis
qed

lemma scan_two:
  assumes "0 \<le> n" "n < 100" "ends_number rest"
  shows "scan_int (two_digits n @ rest) = Some (n, rest)"
proof -
  have n: "nat n div 10 < 10" using assms(2) by auto
  then have "digits_value 10 (two_digits n) = nat n" by (simp add: two_digits_def digits_value_def)
  moreover have "\<forall>c \<in> set (two_digits n). \<exists>d<10. c = digit_char d"
    using two_digits_chars assms(1,2) by blast
  moreover have "two_digits n \<noteq> []" by (simp add: two_digits_def)
  ultimately show ?thesis using scan_digits(1) [of "two_digits n" rest] assms by simp
qed

lemma ends_number_simps [simp]: "ends_number []" "ends_number (CHR ''-'' # s)" "ends_number (CHR '' '' # s)" "ends_number (CHR '':'' # s)"
  by (simp_all add: ends_number_def digit_val_def)

lemma two_digits_no_space: "0 \<le> n \<Longrightarrow> n < 100 \<Longrightarrow> dropWhile is_space (two_digits n @ s) = two_digits n @ s"
  by (simp add: two_digits_def is_space_def)

lemma sscanf_strftime:
  assumes "normal_fields st"
  shows "sscanf date_format (strftime other st) =
    [tm_year st + 1900, tm_mon st + 1, tm_mday st, tm_hour st, tm_min st, tm_sec st]"
  using assms unfolding strftime_def date_format_def normal_fields_def
  using scan_two [of "tm_sec st" "[]"]
  by (simp add: scan_decimal scan_two two_digits_no_space is_space_def)

lemma strftime_no_nul:
  assumes "normal_fields st"
  shows "CHR 0x00 \<notin> set (strftime other st)"
  using assms by (simp add: strftime_def normal_fields_def no_nul)

lemma length_to_string: "n < 10 ^ Suc k \<Longrightarrow> length (to_string n) \<le> Suc k"
proof (induction k arbitrary: n)
  case 0
  then show ?case by (subst to_string.simps) simp
next
  case (Suc k)
  then have "n div 10 < 10 ^ Suc k" by auto
  then show ?case using Suc.IH [of "n div 10"] by (subst to_string.simps) simp
qed

lemma strftime_fits:
  assumes "normal_fields st" "fits_int (tm_year st + 1900)"
  shows "format_tm other st = Inr (strftime other st)"
proof -
  have "nat (tm_year st + 1900) < 10 ^ Suc 9" "nat (- (tm_year st + 1900)) < 10 ^ Suc 9"
    using assms(2) by (auto simp: fits_int_def)
  from this [THEN length_to_string] have "length (decimal_text (tm_year st + 1900)) \<le> 11"
    by (simp add: decimal_text_def)
  then have "length (strftime other st) \<le> 26" using assms(1) by (simp add: strftime_def two_digits_def)
  then show ?thesis by (simp add: format_tm_def Let_def)
qed

lemma scan_tm_strftime:
  assumes "normal_fields st" "fits_int (tm_year st)" "fits_int (tm_year st + 1900)"
  shows "scan_tm other (strftime other st) = Inr (Some st)"
proof -
  have tw: "takeWhile (\<lambda>c. c \<noteq> CHR 0x00) (strftime other st) = strftime other st"
    using strftime_no_nul [OF assms(1), of other] by (simp add: takeWhile_eq_all_conv) metis
  have "list_all fits_int [tm_mon st + 1, tm_mday st, tm_hour st, tm_min st, tm_sec st, tm_mon st]"
    using assms(1) by (simp add: normal_fields_def fits_int_def)
  then show ?thesis
    unfolding scan_tm_def tw sscanf_strftime [OF assms(1)]
    using strftime_fits [OF assms(1,3), of other] assms(2,3) by (cases st) (simp add: Let_def)
qed

lemma real_date_normal: "real_date st \<Longrightarrow> normal_fields st"
  using month_length_pos [of "nat (tm_mon st)" "tm_year st + 1900"] by (simp add: real_date_def normal_fields_def nat_less_iff)

lemma scan_tm_text:
  assumes "scan_tm other s = Inr (Some st)" "normal_fields st"
  shows "s = strftime other st \<and> fits_int (tm_year st) \<and> fits_int (tm_year st + 1900)"
proof -
  obtain y m d h mi sec where v: "sscanf date_format (takeWhile (\<lambda>c. c \<noteq> CHR 0x00) s) = [y, m, d, h, mi, sec]"
    using assms(1) by (auto simp: scan_tm_def split: list.splits)
  then have st: "st = \<lparr>tm_sec = sec, tm_min = mi, tm_hour = h, tm_mday = d, tm_mon = m - 1, tm_year = y - 1900\<rparr>"
      "fits_int y" "fits_int (y - 1900)" "format_tm other st = Inr s"
    using assms(1) by (auto simp: scan_tm_def Let_def split: if_splits sum.splits)
  then show ?thesis by (auto simp: format_tm_def Let_def split: if_splits)
qed

section \<open>Properties\<close>

text \<open>C35: times and their texts are the same: the text of a time is read back as that time, as long as the year
  is an \<open>int\<close>; and a text that is read as a real date is the text of the time it is read as. What is shown of
  the calendar is all of it: leap years, months, times before 1970.\<close>

theorem gm_string_roundtrip:
  "(fits_int (tm_year (gmtime t)) \<and> fits_int (tm_year (gmtime t) + 1900) \<longrightarrow>
     (\<exists>s. gm_time_t_to_gm_string other t = Inr s \<and> gm_string_to_gm_time_t other s = Inr (Some t))) \<and>
   (scan_tm other s = Inr (Some st) \<and> real_date st \<longrightarrow>
     gm_string_to_gm_time_t other s = Inr (Some (timegm st)) \<and>
     gm_time_t_to_gm_string other (timegm st) = Inr s)"
proof (intro conjI impI)
  assume years: "fits_int (tm_year (gmtime t)) \<and> fits_int (tm_year (gmtime t) + 1900)"
  have n: "normal_fields (gmtime t)" using gmtime_real real_date_normal by blast
  have "gm_time_t_to_gm_string other t = Inr (strftime other (gmtime t))"
    using strftime_fits [OF n] years by (simp add: gm_time_t_to_gm_string_def gm_time_t_to_gm_tm_def)
  moreover have "gm_string_to_gm_time_t other (strftime other (gmtime t)) = Inr (Some t)"
    using scan_tm_strftime [OF n] years gmtime_real by (simp add: gm_string_to_gm_time_t_def gm_tm_to_gm_time_t_def)
  ultimately show "\<exists>s. gm_time_t_to_gm_string other t = Inr s \<and> gm_string_to_gm_time_t other s = Inr (Some t)" by blast
next
  assume s: "scan_tm other s = Inr (Some st) \<and> real_date st"
  then show "gm_string_to_gm_time_t other s = Inr (Some (timegm st))"
    by (simp add: gm_string_to_gm_time_t_def gm_tm_to_gm_time_t_def)
  have "s = strftime other st" "fits_int (tm_year st + 1900)" using scan_tm_text s real_date_normal by blast+
  then show "gm_time_t_to_gm_string other (timegm st) = Inr s"
    using strftime_fits [OF real_date_normal] s
    by (simp add: gm_time_t_to_gm_string_def gm_time_t_to_gm_tm_def gmtime_timegm)
qed

theorem gm_string_roundtrip_witness:
  "\<exists>s. gm_time_t_to_gm_string (\<lambda>_. []) (- 1) = Inr s \<and> gm_string_to_gm_time_t (\<lambda>_. []) s = Inr (Some (- 1))"
proof -
  have "tm_year (gmtime (- 1)) = 69" by code_simp
  then show ?thesis using gm_string_roundtrip [of "- 1" "\<lambda>_. []"] by (simp add: fits_int_def)
qed

text \<open>A day that the month does not have is taken, as the day that many days after the month began.\<close>

lemma gm_string_overlong_month:
  "gm_string_to_gm_time_t other ''2023-02-30 00:00:00'' = gm_string_to_gm_time_t other ''2023-03-02 00:00:00''"
  by code_simp

end
