(* ===== verification/Log.thy ===== *)
theory Log
  imports Utility
begin

text \<open>
  The two logs, \<open>src/liblog/log_file.cpp\<close> and \<open>src/liblog/log_console.cpp\<close>. The files are a map from names to
  contents, the console the two streams. The text of the local time of a message is a parameter: what
  \<open>gm_time_t_to_lc_string\<close> gives.
\<close>

section \<open>To a file\<close>

record log_file =
  l_enabled :: bool
  str_name :: string
  file_name :: string

type_synonym files = "string \<rightharpoonup> string"

text \<open>Opening a file to append makes it if it is not there.\<close>

definition open_append :: "(string \<Rightarrow> bool) \<Rightarrow> string \<Rightarrow> files \<Rightarrow> files option" where
  "open_append can_open f fs =
     (if can_open f then Some (case fs f of None \<Rightarrow> fs(f \<mapsto> []) | Some _ \<Rightarrow> fs) else None)"

definition append_text :: "string \<Rightarrow> string \<Rightarrow> files \<Rightarrow> files" where
  "append_text f s fs = fs(f \<mapsto> (case fs f of None \<Rightarrow> [] | Some old \<Rightarrow> old) @ s)"

definition log_file_new :: "(string \<Rightarrow> bool) \<Rightarrow> string \<Rightarrow> string \<Rightarrow> (files, log_file) call" where
  "log_file_new can_open log_name f fs =
     (case open_append can_open f fs of
        None \<Rightarrow> (Inl (Runtime_error (''cannot open file: '' @ f)), fs)
      | Some fs \<Rightarrow> (Inr \<lparr>l_enabled = True, str_name = log_name, file_name = f\<rparr>, fs))"

definition log_name :: "log_file \<Rightarrow> string" where "log_name l = str_name l"
definition log_enabled :: "log_file \<Rightarrow> bool" where "log_enabled l = l_enabled l"
definition log_enable :: "log_file \<Rightarrow> log_file" where "log_enable l = l\<lparr>l_enabled := True\<rparr>"
definition log_disable :: "log_file \<Rightarrow> log_file" where "log_disable l = l\<lparr>l_enabled := False\<rparr>"

text \<open>The time is asked for once the file is open; a failure there leaves the file as it was opened.\<close>

definition log_line :: "(string \<Rightarrow> bool) \<Rightarrow> string result \<Rightarrow> string \<Rightarrow> string \<Rightarrow> log_file \<Rightarrow> (files, unit) call" where
  "log_line can_open now kind text_value l fs =
     (if \<not> l_enabled l then (Inr (), fs)
      else case open_append can_open (file_name l) fs of
             None \<Rightarrow> (Inr (), fs)
           | Some fs \<Rightarrow>
               (case now of
                  Inl e \<Rightarrow> (Inl e, fs)
                | Inr s \<Rightarrow> (Inr (), append_text (file_name l) (s @ '' - '' @ kind @ text_value @ [CHR 0x0A]) fs)))"

definition log_message :: "(string \<Rightarrow> bool) \<Rightarrow> string result \<Rightarrow> string \<Rightarrow> log_file \<Rightarrow> (files, unit) call" where
  "log_message can_open now = log_line can_open now []"

definition log_warning :: "(string \<Rightarrow> bool) \<Rightarrow> string result \<Rightarrow> string \<Rightarrow> log_file \<Rightarrow> (files, unit) call" where
  "log_warning can_open now = log_line can_open now ''Warning: ''"

definition log_error :: "(string \<Rightarrow> bool) \<Rightarrow> string result \<Rightarrow> string \<Rightarrow> log_file \<Rightarrow> (files, unit) call" where
  "log_error can_open now = log_line can_open now ''Error:   ''"

section \<open>To the console\<close>

record log_console =
  c_enabled :: bool
  print_time :: bool
  c_name :: string

record console =
  cout :: string
  cerr :: string

definition log_console_new :: "string \<Rightarrow> bool \<Rightarrow> log_console" where
  "log_console_new name_value print = \<lparr>c_enabled = True, print_time = print, c_name = name_value\<rparr>"

definition console_enable :: "log_console \<Rightarrow> log_console" where "console_enable l = l\<lparr>c_enabled := True\<rparr>"
definition console_disable :: "log_console \<Rightarrow> log_console" where "console_disable l = l\<lparr>c_enabled := False\<rparr>"

text \<open>The part of a text behind the date; \<open>substr\<close> throws when the text is shorter.\<close>

definition time_now :: "string result \<Rightarrow> string result" where
  "time_now now =
     (case now of
        Inl e \<Rightarrow> Inl e
      | Inr s \<Rightarrow> if length s < 11 then Inl (Logic_error ''basic_string::substr'') else Inr (drop 11 s))"

definition print_stamp :: "string result \<Rightarrow> log_console \<Rightarrow> (console, unit) call" where
  "print_stamp now l c =
     (if print_time l
      then case time_now now of Inl e \<Rightarrow> (Inl e, c) | Inr s \<Rightarrow> (Inr (), c\<lparr>cout := cout c @ s @ '' - ''\<rparr>)
      else (Inr (), c))"

definition console_message :: "string result \<Rightarrow> string \<Rightarrow> log_console \<Rightarrow> (console, unit) call" where
  "console_message now text_value l c =
     (if \<not> c_enabled l then (Inr (), c)
      else then_do (print_stamp now l) (\<lambda>_ c. (Inr (), c\<lparr>cout := cout c @ text_value @ [CHR 0x0A]\<rparr>)) c)"

definition console_warning :: "string result \<Rightarrow> string \<Rightarrow> log_console \<Rightarrow> (console, unit) call" where
  "console_warning now text_value l c =
     (if \<not> c_enabled l then (Inr (), c)
      else then_do (print_stamp now l) (\<lambda>_ c. (Inr (), c\<lparr>cout := cout c @ ''Warning: '' @ text_value @ [CHR 0x0A]\<rparr>)) c)"

definition console_error :: "string result \<Rightarrow> string \<Rightarrow> log_console \<Rightarrow> (console, unit) call" where
  "console_error now text_value l c =
     (if \<not> c_enabled l then (Inr (), c)
      else then_do (print_stamp now l) (\<lambda>_ c. (Inr (), c\<lparr>cerr := cerr c @ ''Error:   '' @ text_value @ [CHR 0x0A]\<rparr>)) c)"

section \<open>Facts\<close>

text \<open>A log only ever adds to its file, and leaves the others alone.\<close>

lemma log_line_appends:
  assumes "log_line can_open now kind s l fs = (r, fs')"
  shows "(\<forall>f. f \<noteq> file_name l \<longrightarrow> fs' f = fs f) \<and>
    (\<forall>old. fs (file_name l) = Some old \<longrightarrow> (\<exists>more. fs' (file_name l) = Some (old @ more)))"
  using assms by (auto simp: log_line_def open_append_def append_text_def split: if_splits sum.splits option.splits)

text \<open>The time of an error goes to one stream and its text to the other.\<close>

lemma console_error_splits:
  "console_error (Inr ''2024-02-29 10:00:00'') ''full'' (log_console_new ''a'' True) \<lparr>cout = [], cerr = []\<rparr> =
    (Inr (), \<lparr>cout = ''10:00:00 - '', cerr = ''Error:   full'' @ [CHR 0x0A]\<rparr>)"
  by (simp add: console_error_def log_console_new_def print_stamp_def time_now_def)

end
