(* ===== verification/Poll_Kqueue.thy ===== *)
theory Poll_Kqueue
  imports Poll_Master
begin

text \<open>
  \<open>poll_master\<close> of \<open>src/libsocket/poll_master.hpp\<close> for macOS: a kqueue descriptor in place of epoll, with
  one registration for each filter of a descriptor, and a vector with one element for each of them.
\<close>

datatype kfilter = Evfilt_read | Evfilt_write

record ('k, 'x) kqueue_os = "('k, 'x) os" +
  sys_kqueue :: "'k \<Rightarrow> int \<times> 'k"
  sys_kevent_add :: "int \<Rightarrow> int \<Rightarrow> kfilter \<Rightarrow> u64 \<Rightarrow> 'k \<Rightarrow> int \<times> 'k"
  sys_kevent_delete :: "int \<Rightarrow> int \<Rightarrow> kfilter \<Rightarrow> u64 \<Rightarrow> 'k \<Rightarrow> int \<times> 'k"
  sys_kevent_wait :: "int \<Rightarrow> nat \<Rightarrow> (int \<times> int) option \<Rightarrow> 'k \<Rightarrow> (int \<times> u64 list) \<times> 'k"

definition throw_kevent :: "('k, 'x, 'm) os_scheme \<Rightarrow> string \<Rightarrow> 'k \<Rightarrow> failure" where
  "throw_kevent os what k = Runtime_error (''kevent()'' @ what @ '': '' @ last_error os k)"

definition kqueue_new :: "('k, 'x, 'm) kqueue_os_scheme \<Rightarrow> ('k, poll_master) call" where
  "kqueue_new os k =
     (let (fd, k) = sys_kqueue os k
      in if fd = - 1 then (Inl (throw_errno os ''kqueue'' k), k)
         else guarded_scope (close_fd os fd) (\<lambda>k.
           let ((res, rd, wr), k) = sys_pipe os k
           in if res = - 1 then (Inl (throw_errno os ''pipe'' k), k)
              else guarded_scope (then_do (close_fd os rd) (\<lambda>_. close_fd os wr)) (\<lambda>k.
                let (flags, k) = sys_fcntl_getfl os rd k;
                    flags = with_nonblock flags;
                    (res, k) = sys_fcntl_setfl os wr (with_nonblock flags) k
                in if res = - 1 then (Inl (throw_errno os ''fcntl'' k), k)
                   else let (res, k) = sys_kevent_add os fd rd Evfilt_read (- 1) k
                        in if res = - 1 then (Inl (throw_kevent os '' add'' k), k)
                           else (Inr \<lparr>m_fd = fd, m_fd_pipe_read = rd, m_fd_pipe_write = wr,
                                   m_arr_event = 1\<rparr>, k)) k) k)"

definition kqueue_destroy :: "('k, 'x, 'm) kqueue_os_scheme \<Rightarrow> poll_master \<Rightarrow> 'k \<Rightarrow> 'k" where
  "kqueue_destroy os p k =
     snd (sys_close os (m_fd_pipe_write p)
       (snd (sys_close os (m_fd_pipe_read p) (snd (sys_close os (m_fd p) k)))))"

definition kfilters :: "task \<Rightarrow> kfilter list" where
  "kfilters action =
     (if action = Task_connect then [Evfilt_write]
      else if action = Task_send then [Evfilt_write, Evfilt_read]
      else [Evfilt_read])"

text \<open>The loops over the filters stop at the first that fails.\<close>

fun kevent_adds ::
  "('k, 'x, 'm) kqueue_os_scheme \<Rightarrow> int \<Rightarrow> int \<Rightarrow> u64 \<Rightarrow> kfilter list \<Rightarrow> 'k \<Rightarrow> bool \<times> 'k" where
  "kevent_adds os fd d pid [] k = (True, k)"
| "kevent_adds os fd d pid (f # fs) k =
     (let (res, k) = sys_kevent_add os fd d f pid k
      in if res = - 1 then (False, k) else kevent_adds os fd d pid fs k)"

fun kevent_deletes ::
  "('k, 'x, 'm) kqueue_os_scheme \<Rightarrow> int \<Rightarrow> int \<Rightarrow> u64 \<Rightarrow> kfilter list \<Rightarrow> 'k \<Rightarrow> bool \<times> 'k" where
  "kevent_deletes os fd d pid [] k = (True, k)"
| "kevent_deletes os fd d pid (f # fs) k =
     (let (res, k) = sys_kevent_delete os fd d f pid k
      in if res = - 1 then (False, k) else kevent_deletes os fd d pid fs k)"

definition kqueue_add ::
  "('k, 'x, 'm) kqueue_os_scheme \<Rightarrow> int \<Rightarrow> u64 \<Rightarrow> task \<Rightarrow> ('k poll_state, unit) call" where
  "kqueue_add os socket_descriptor pid action s =
     (let (p, k) = s; flags = kfilters action;
          (ok, k) = kevent_adds os (m_fd p) socket_descriptor pid flags k
      in if \<not> ok then (Inl (throw_kevent os '' add'' k), (p, k))
         else (Inr (), (p\<lparr>m_arr_event := m_arr_event p + length flags\<rparr>, k)))"

text \<open>\<open>resize\<close> to a size below zero asks for an immense vector and throws.\<close>

definition kqueue_shrink :: "nat \<Rightarrow> ('k poll_state, unit) call" where
  "kqueue_shrink n s =
     (let (p, k) = s
      in if m_arr_event p < n then (Inl (Logic_error ''vector::resize''), s)
         else (Inr (), (p\<lparr>m_arr_event := m_arr_event p - n\<rparr>, k)))"

definition kqueue_remove ::
  "('k, 'x, 'm) kqueue_os_scheme \<Rightarrow> int \<Rightarrow> u64 \<Rightarrow> bool \<Rightarrow> task \<Rightarrow> ('k poll_state, unit) call" where
  "kqueue_remove os socket_descriptor pid already_closed action s =
     (let (p, k) = s; flags = kfilters action
      in if \<not> already_closed
         then let (ok, k) = kevent_deletes os (m_fd p) socket_descriptor pid flags k
              in if \<not> ok then (Inl (throw_kevent os '' delete'' k), (p, k))
                 else kqueue_shrink (length flags) (p, k)
         else kqueue_shrink (length flags) s)"

text \<open>The time to wait: none for no limit, seconds and nanoseconds otherwise.\<close>

definition kevent_timeout :: "('k, 'x, 'm) kqueue_os_scheme \<Rightarrow> timer \<Rightarrow> 'k \<Rightarrow> (int \<times> int) option \<times> 'k" where
  "kevent_timeout os tm k =
     (let (milliseconds, k) =
            (if is_set tm
             then let (now, k) = sys_now os k;
                      timeout = (last_point_expired tm + timer_period tm) - now;
                      milliseconds = to_milliseconds timeout
                  in (if milliseconds < 0 then 0 else milliseconds, k)
             else (- 1, k))
      in (if milliseconds > 0 then Some (milliseconds div 1000, milliseconds mod 1000 * 1000000) else None, k))"

definition kqueue_wait ::
  "('k, 'x, 'm) kqueue_os_scheme \<Rightarrow> timer \<Rightarrow> ('k poll_state, u64 list \<times> bool) call" where
  "kqueue_wait os tm s =
     (let (p, k) = s;
          (timeout, k) = kevent_timeout os tm k
      in if m_arr_event p = 0 then (Inl Undefined, (p, k))
         else let ((count, events), k) = sys_kevent_wait os (m_fd p) (m_arr_event p) timeout k
              in if count = - 1 \<and> sys_errno os k \<noteq> eintr
                 then (Inl (throw_kevent os [] k), (p, k))
                 else let count = (if count = - 1 then 0 else nat count)
                      in if count > m_arr_event p \<or> count > length events then (Inl Undefined, (p, k))
                         else let (r, k) = read_events os (m_fd_pipe_read p) (take count events) ([], False) k
                              in (r, (p, k)))"

definition kqueue_wake :: "('k, 'x, 'm) kqueue_os_scheme \<Rightarrow> ('k poll_state, unit) call" where
  "kqueue_wake os s =
     (let (p, k) = s; (res, k) = sys_write_byte os (m_fd_pipe_write p) k
      in if res = - 1 then (Inl (throw_errno os ''write'' k), (p, k)) else (Inr (), (p, k)))"

definition kqueue_reset :: "u64 \<Rightarrow> ('k poll_state, unit) call" where
  "kqueue_reset reset_id s = (Inr (), s)"

section \<open>Facts\<close>

lemma kevent_timeout_value:
  assumes "is_set tm" "sys_now os k = (now, k')" "last_point_expired tm + timer_period tm - now = left"
  shows "kevent_timeout os tm k =
    (if 1000000 \<le> left then Some (left div 1000000 div 1000, left div 1000000 mod 1000 * 1000000) else None, k')"
  using assms by (auto simp: kevent_timeout_def to_milliseconds_def Let_def div_neg_pos_less0 split: if_splits)

section \<open>Property\<close>

text \<open>C36: how long a wait may last on macOS: with a timer that has a millisecond or more to go it is given the time
  that is left, to the millisecond; but in the last millisecond it is given no limit at all, as without a
  timer. (An expired timer is looked for before the wait, in \<open>event.cpp\<close>.)\<close>

theorem kqueue_wait_limit:
  assumes "sys_now os k = (now, k')" "is_set tm"
  defines "left \<equiv> last_point_expired tm + timer_period tm - now"
  shows "case fst (kevent_timeout os tm k) of
      Some (sec, nsec) \<Rightarrow> 1000000 \<le> left \<and> 0 \<le> nsec \<and> nsec < 1000000000 \<and>
        sec * 1000000000 + nsec \<le> left \<and> left < sec * 1000000000 + nsec + 1000000
    | None \<Rightarrow> left < 1000000 \<and>
        (\<forall>s. kqueue_wait os tm (s, k) = kqueue_wait os (tm\<lparr>is_set := False\<rparr>) (s, k'))"
proof (cases "1000000 \<le> left")
  case True
  have l: "last_point_expired tm + timer_period tm - now = left" by (simp add: left_def)
  define m where "m = left div 1000000"
  have m: "left = 1000000 * m + left mod 1000000" "0 \<le> left mod 1000000" "left mod 1000000 < 1000000" by (simp_all add: m_def)
  have n: "m = 1000 * (m div 1000) + m mod 1000" "0 \<le> m mod 1000" "m mod 1000 < 1000" by simp_all
  have "fst (kevent_timeout os tm k) = Some (m div 1000, m mod 1000 * 1000000)"
    using kevent_timeout_value [OF assms(2,1) l] True by (simp add: m_def)
  moreover have "m div 1000 * 1000000000 + m mod 1000 * 1000000 = 1000000 * m" using n(1) by linarith
  ultimately show ?thesis using True m n(2,3) by (simp only: option.case prod.case fst_conv simp_thms) (intro conjI, linarith+)
next
  case False
  have l: "last_point_expired tm + timer_period tm - now = left" by (simp add: left_def)
  have "kevent_timeout os tm k = (None, k')" using kevent_timeout_value [OF assms(2,1) l] False by simp
  moreover have "kevent_timeout os (tm\<lparr>is_set := False\<rparr>) k' = (None, k')" by (simp add: kevent_timeout_def)
  ultimately show ?thesis using False by (simp add: kqueue_wait_def)
qed

definition quiet_kqueue :: "(nat, string) kqueue_os" where
  "quiet_kqueue = os.extend quiet_os
     (kqueue_os.fields (\<lambda>k. (3, k)) (\<lambda>_ _ _ _ k. (0, k)) (\<lambda>_ _ _ _ k. (0, k)) (\<lambda>_ _ _ k. ((0, []), k)))"

text \<open>A timer that expired at 7, at the time 9: the wait has no limit.\<close>

theorem kqueue_wait_limit_witness:
  "fst (kevent_timeout quiet_kqueue \<lparr>is_set = True, last_point_expired = 2, timer_period = 5\<rparr> 9) = None \<and>
   (\<forall>s. kqueue_wait quiet_kqueue \<lparr>is_set = True, last_point_expired = 2, timer_period = 5\<rparr> (s, 9) =
        kqueue_wait quiet_kqueue \<lparr>is_set = False, last_point_expired = 2, timer_period = 5\<rparr> (s, 9))"
proof -
  let ?tm = "\<lparr>is_set = True, last_point_expired = 2, timer_period = 5\<rparr>"
  have now: "sys_now quiet_kqueue 9 = (9, 9)" by (simp add: quiet_kqueue_def os.defs quiet_os_def)
  have "fst (kevent_timeout quiet_kqueue ?tm 9) = None"
    by (simp add: kevent_timeout_def now to_milliseconds_def)
  then show ?thesis using kqueue_wait_limit [OF now, of ?tm] by simp
qed

end
