(* ===== verification/Poll_Windows.thy ===== *)
theory Poll_Windows
  imports Native_Socket Numbers
begin

text \<open>
  \<open>poll_master\<close> of \<open>src/libsocket/poll_master.hpp\<close> for Windows: a completion port, and for each descriptor an
  object \<open>details\<close> with the buffers that the system works on while a call is under way. An \<open>OVERLAPPED\<close> is
  named by the address of its object and which of the two it is. The calls of the system are a record again.
  Shown: until \<open>AcceptEx\<close> or \<open>ConnectEx\<close> first succeeds at once the buffers lent to the system stay where they
  are; and a run in which they do not after that.
\<close>

section \<open>The system\<close>

datatype io_op = Op_receive | Op_send

type_synonym overlapped = "nat \<times> io_op"

text \<open>What \<open>GetQueuedCompletionStatus\<close> stores, and what the system has put into the receive buffer.\<close>

record completion =
  c_code :: bool
  c_bytes :: u32
  c_key :: u64
  c_overlapped :: "overlapped option"
  c_data :: string

record ('k, 'x) win_os = "('k, 'x) os" +
  w_port :: "'k \<Rightarrow> int \<times> 'k"
  w_bind_port :: "int \<Rightarrow> int \<Rightarrow> u64 \<Rightarrow> 'k \<Rightarrow> bool \<times> 'k"
  w_close_handle :: "int \<Rightarrow> 'k \<Rightarrow> 'k"
  w_socket :: "'k \<Rightarrow> int \<times> 'k"
  w_closesocket :: "int \<Rightarrow> 'k \<Rightarrow> 'k"
  w_accept_ex :: "int \<Rightarrow> int \<Rightarrow> overlapped \<Rightarrow> 'k \<Rightarrow> bool \<times> 'k"
  w_load_connect_ex :: "int \<Rightarrow> 'k \<Rightarrow> int \<times> 'k"
  w_connect_ex :: "int \<Rightarrow> 'x \<Rightarrow> overlapped \<Rightarrow> 'k \<Rightarrow> bool \<times> 'k"
  w_wsa_send :: "int \<Rightarrow> string \<Rightarrow> overlapped \<Rightarrow> 'k \<Rightarrow> int \<times> 'k"
  w_wsa_recv :: "int \<Rightarrow> overlapped \<Rightarrow> 'k \<Rightarrow> int \<times> 'k"
  w_get_status :: "int \<Rightarrow> u32 \<Rightarrow> 'k \<Rightarrow> completion \<times> 'k"
  w_post_status :: "int \<Rightarrow> u32 \<Rightarrow> u64 \<Rightarrow> 'k \<Rightarrow> 'k"
  w_update_context :: "int \<Rightarrow> 'k \<Rightarrow> int \<times> 'k"
  w_startup :: "'k \<Rightarrow> int \<times> 'k"
  w_cleanup :: "'k \<Rightarrow> int \<times> 'k"

abbreviation wsa_io_pending :: int where "wsa_io_pending \<equiv> 997"
abbreviation wsaeconnreset :: int where "wsaeconnreset \<equiv> 10054"
abbreviation wsaewouldblock :: int where "wsaewouldblock \<equiv> 10035"
abbreviation socket_error :: int where "socket_error \<equiv> - 1"
abbreviation buffer_size :: u32 where "buffer_size \<equiv> 1048576"

section \<open>The object of a descriptor\<close>

record details =
  d_address :: nat
  d_action :: task
  d_socket :: socket_handle
  async_task_running :: u32
  accept_socket :: socket_handle
  receive_buffer :: string
  send_buffer :: string
  send_len :: u32
  d_last_error :: int
  bytes_copied_recv :: u32
  bytes_copied_send :: u32
  result_receive_send :: bool
  bytes_offset :: u32

definition details_reset :: "details \<Rightarrow> details" where
  "details_reset d =
     d\<lparr>d_last_error := 0, bytes_copied_recv := 0, bytes_copied_send := 0, bytes_offset := 0, result_receive_send := True\<rparr>"

definition details_init :: "('k, 'x, 'm) win_os_scheme \<Rightarrow> (details \<times> 'k, unit) call" where
  "details_init os s =
     (let (d, k) = s
      in if d_action d = Task_remove
         then (Inl (Runtime_error ''poll master details: event_handler_ex:::remove == action''), s)
         else if d_action d = Task_accept
         then let k = (if async_task_running d \<noteq> 0 then w_closesocket os (accept_socket d) k else k);
                  (fd, k) = w_socket os k;
                  d = d\<lparr>accept_socket := fd\<rparr>
              in if fd = invalid_value then (Inl (Runtime_error (''wsasocket(): '' @ last_error os k)), (d, k))
                 else (Inr (), (details_reset d, k))
         else if d_action d = Task_connect then (Inr (), (details_reset d, k))
         else (Inr (), (details_reset (d\<lparr>send_len := buffer_size\<rparr>), k)))"

definition details_new :: "('k, 'x, 'm) win_os_scheme \<Rightarrow> nat \<Rightarrow> task \<Rightarrow> socket_handle \<Rightarrow> 'k \<Rightarrow> details result \<times> 'k" where
  "details_new os address action sd k =
     (case details_init os
        (\<lparr>d_address = address, d_action = action, d_socket = sd, async_task_running = 0, accept_socket = 0,
          receive_buffer = [], send_buffer = [], send_len = 0, d_last_error = 0, bytes_copied_recv = 0,
          bytes_copied_send = 0, result_receive_send = True, bytes_offset = 0\<rparr>, k) of
        (Inl e, (_, k)) \<Rightarrow> (Inl e, k)
      | (Inr _, (d, k)) \<Rightarrow> (Inr d, k))"

definition init_recv :: "details \<Rightarrow> unit result \<times> details" where
  "init_recv d =
     (if d_action d \<noteq> Task_receive \<and> d_action d \<noteq> Task_send
      then (Inl (Runtime_error ''poll master details: event_handler_ex_task::receive != action''), d)
      else (Inr (), d\<lparr>d_last_error := 0, bytes_copied_recv := 0, bytes_offset := 0, result_receive_send := True\<rparr>))"

definition init_send :: "usize \<Rightarrow> details \<Rightarrow> unit result \<times> details" where
  "init_send len d =
     (if d_action d \<noteq> Task_send
      then (Inl (Runtime_error ''poll master details: event_handler_ex_task::send != action''), d)
      else (Inr (), d\<lparr>send_len := ucast len, d_last_error := 0, bytes_copied_send := 0, result_receive_send := True\<rparr>))"

definition details_connect ::
  "('k, 'x, 'm) win_os_scheme \<Rightarrow> 'x \<Rightarrow> string \<Rightarrow> (details \<times> 'k, unit) call" where
  "details_connect os addr address_text s =
     (let (d, k) = s; (res, k) = w_load_connect_ex os (d_socket d) k
      in if res \<noteq> 0 then (Inl (Runtime_error ''connectex related''), (d, k))
         else let (code, k) = w_connect_ex os (d_socket d) addr (d_address d, Op_receive) k
              in if code then (Inl (Runtime_error ''connectex(): sync completion instead of async''), (d, k))
                 else if sys_errno os k \<noteq> wsa_io_pending
                 then (Inl (Runtime_error (''connectex('' @ address_text @ ''): '' @ last_error os k)), (d, k))
                 else (Inr (), (d\<lparr>async_task_running := 1\<rparr>, k)))"

section \<open>The poll object\<close>

record win_poll =
  m_completion_port :: int
  m_events :: "u64 \<rightharpoonup> details"
  next_details :: nat

type_synonym 'k win_state = "win_poll \<times> 'k"

definition set_details :: "u64 \<Rightarrow> details \<Rightarrow> win_poll \<Rightarrow> win_poll" where
  "set_details i d p = p\<lparr>m_events := (m_events p)(i \<mapsto> d)\<rparr>"

definition win_new :: "('k, 'x, 'm) win_os_scheme \<Rightarrow> ('k, win_poll) call" where
  "win_new os k =
     (let (port, k) = w_port os k
      in if port = 0 then (Inl (Runtime_error (''create io completion port: '' @ last_error os k)), k)
         else (Inr \<lparr>m_completion_port = port, m_events = Map.empty, next_details = 0\<rparr>, k))"

definition win_destroy :: "('k, 'x, 'm) win_os_scheme \<Rightarrow> win_poll \<Rightarrow> 'k \<Rightarrow> 'k" where
  "win_destroy os p k = w_close_handle os (m_completion_port p) k"

text \<open>An object is made for the insertion and, when the id is found, dropped; another one is made to replace the
  old.\<close>

definition win_add :: "('k, 'x, 'm) win_os_scheme \<Rightarrow> socket_handle \<Rightarrow> u64 \<Rightarrow> task \<Rightarrow> ('k win_state, unit) call" where
  "win_add os sd pid action s =
     (let (p, k) = s; (r, k) = details_new os (next_details p) action sd k;
          p = p\<lparr>next_details := Suc (next_details p)\<rparr>
      in case r of
           Inl e \<Rightarrow> (Inl e, (p, k))
         | Inr d \<Rightarrow>
             (case m_events p pid of
                Some old \<Rightarrow>
                  if d_action old \<noteq> Task_remove \<or> async_task_running old \<noteq> 0
                  then (Inl (Runtime_error (''poll master add duplicate id: '' @ to_string (unat pid))), (p, k))
                  else let (r, k) = details_new os (next_details p) action sd k;
                           p = p\<lparr>next_details := Suc (next_details p)\<rparr>
                       in (case r of Inl e \<Rightarrow> (Inl e, (p, k)) | Inr d \<Rightarrow> (Inr (), (set_details pid d p, k)))
              | None \<Rightarrow>
                  let p = set_details pid d p; (bound, k) = w_bind_port os sd (m_completion_port p) pid k
                  in if \<not> bound then (Inl (Runtime_error (''bind io completion port to socket: '' @ last_error os k)), (p, k))
                     else (Inr (), (p, k))))"

definition win_remove :: "u64 \<Rightarrow> ('k win_state, unit) call" where
  "win_remove pid s =
     (let (p, k) = s
      in case m_events p pid of
           None \<Rightarrow> (Inl (Runtime_error (''poll master remove non existing id: '' @ to_string (unat pid))), s)
         | Some d \<Rightarrow> (Inr (), (set_details pid (d\<lparr>d_action := Task_remove\<rparr>) p, k)))"

section \<open>Waiting\<close>

definition erase_idle :: "win_poll \<Rightarrow> win_poll" where
  "erase_idle p =
     p\<lparr>m_events := \<lambda>i. case m_events p i of
        Some d \<Rightarrow> if async_task_running d = 0 \<and> d_action d = Task_remove then None else Some d
      | None \<Rightarrow> None\<rparr>"

text \<open>A call that could not be started: its id, its code, and whether it is the one that receives.\<close>

type_synonym sync = "(u64 \<times> bool \<times> bool) option"

text \<open>\<open>AcceptEx\<close> is repeated for as long as connections are reset.\<close>

partial_function (option) accept_ex_loop ::
  "('k, 'x, 'm) win_os_scheme \<Rightarrow> socket_handle \<Rightarrow> socket_handle \<Rightarrow> overlapped \<Rightarrow> 'k \<Rightarrow> (bool \<times> 'k) option" where
  "accept_ex_loop os fd joined ov k =
     (let (code, k) = w_accept_ex os fd joined ov k
      in if code = False \<and> sys_errno os k = wsaeconnreset then accept_ex_loop os fd joined ov k else Some (code, k))"

definition start_accept ::
  "('k, 'x, 'm) win_os_scheme \<Rightarrow> u64 \<Rightarrow> details \<Rightarrow> ('k win_state, sync) call" where
  "start_accept os i d s =
     (let (p, k) = s
      in case accept_ex_loop os (d_socket d) (accept_socket d) (d_address d, Op_receive) k of
           None \<Rightarrow> (Inl Diverges, s)
         | Some (code, k) \<Rightarrow>
             if code \<or> sys_errno os k \<noteq> wsa_io_pending then (Inr (Some (i, code, True)), (p, k))
             else (Inr None, (set_details i (d\<lparr>async_task_running := 1\<rparr>) p, k)))"

definition start_send ::
  "('k, 'x, 'm) win_os_scheme \<Rightarrow> u64 \<Rightarrow> details \<Rightarrow> ('k win_state, sync) call" where
  "start_send os i d s =
     (let (p, k) = s
      in if d_action d = Task_send \<and> 0 = and 2 (async_task_running d)
         then let (code, k) = w_wsa_send os (d_socket d) (take (unat (send_len d)) (send_buffer d)) (d_address d, Op_send) k
              in if socket_error = code \<and> sys_errno os k \<noteq> wsa_io_pending then (Inr (Some (i, False, False)), (p, k))
                 else (Inr None, (set_details i (d\<lparr>async_task_running := or (async_task_running d) 2\<rparr>) p, k))
         else (Inr None, s))"

definition start_recv ::
  "('k, 'x, 'm) win_os_scheme \<Rightarrow> u64 \<Rightarrow> details \<Rightarrow> ('k win_state, sync) call" where
  "start_recv os i d s =
     (let (p, k) = s
      in if 0 = and 1 (async_task_running d)
         then let (code, k) = w_wsa_recv os (d_socket d) (d_address d, Op_receive) k
              in if socket_error = code \<and> sys_errno os k \<noteq> wsa_io_pending then (Inr (Some (i, False, True)), (p, k))
                 else (Inr None, (set_details i (d\<lparr>async_task_running := or (async_task_running d) 1\<rparr>) p, k))
         else if bytes_offset d > 0 then (Inr (Some (i, True, True)), s)
         else (Inr None, s))"

definition start_one :: "('k, 'x, 'm) win_os_scheme \<Rightarrow> u64 \<Rightarrow> ('k win_state, sync) call" where
  "start_one os i s =
     (case m_events (fst s) i of
        None \<Rightarrow> (Inr None, s)
      | Some d \<Rightarrow>
          if d_action d = Task_accept \<and> async_task_running d = 0 then start_accept os i d s
          else if d_action d = Task_connect
          then (Inr None, (set_details i (d\<lparr>async_task_running := 1\<rparr>) (fst s), snd s))
          else if d_action d = Task_receive \<or> d_action d = Task_send
          then (case start_send os i d s of
                  (Inr None, s) \<Rightarrow>
                    (case m_events (fst s) i of None \<Rightarrow> (Inr None, s) | Some d \<Rightarrow> start_recv os i d s)
                | r \<Rightarrow> r)
          else (Inr None, s))"

text \<open>The loop over the objects, in the order the hash map has them, to the first that does not start.\<close>

fun start_ops :: "('k, 'x, 'm) win_os_scheme \<Rightarrow> u64 list \<Rightarrow> ('k win_state, sync) call" where
  "start_ops os [] s = (Inr None, s)"
| "start_ops os (i # is) s =
     (case start_one os i s of (Inr None, s) \<Rightarrow> start_ops os is s | r \<Rightarrow> r)"

text \<open>The time is an unsigned \<open>DWORD\<close>, so it is never below 0; its largest value means no limit.\<close>

definition win_milliseconds :: "('k, 'x, 'm) win_os_scheme \<Rightarrow> timer \<Rightarrow> 'k \<Rightarrow> u32 \<times> 'k" where
  "win_milliseconds os tm k =
     (if is_set tm
      then let (now, k) = sys_now os k;
               timeout = (last_point_expired tm + timer_period tm) - now;
               milliseconds = (word_of_int (to_milliseconds timeout) :: u32)
           in (if milliseconds < 0 then 0 else milliseconds, k)
      else (- 1, k))"

text \<open>What the port reports: the id and kind of a call that ended, if it is one of an object that is there, and
  whether \<open>wake\<close> was called.\<close>

definition take_completion ::
  "('k, 'x, 'm) win_os_scheme \<Rightarrow> completion \<Rightarrow> ('k win_state, (u64 \<times> bool) option \<times> bool) call" where
  "take_completion os c s =
     (let (p, k) = s
      in case c_overlapped c of
           None \<Rightarrow> (Inr (None, c_bytes c = - 1 \<and> c_key c = 4294967295), s)
         | Some ov \<Rightarrow>
             (case m_events p (c_key c) of
                None \<Rightarrow> (Inr (None, False), s)
              | Some d \<Rightarrow>
                  if ov \<noteq> (d_address d, Op_receive) \<and> ov \<noteq> (d_address d, Op_send) then (Inl Terminates, s)
                  else let recv = (ov = (d_address d, Op_receive));
                           d = (if recv then d\<lparr>bytes_copied_recv := c_bytes c, receive_buffer := c_data c, result_receive_send := True\<rparr>
                                else d\<lparr>bytes_copied_send := c_bytes c, result_receive_send := False\<rparr>);
                           d = (if \<not> c_code c then d\<lparr>d_last_error := sys_errno os k\<rparr> else d)
                       in (Inr (Some (c_key c, recv), False), (set_details (c_key c) d p, k))))"

definition op_bit :: "bool \<Rightarrow> u32" where
  "op_bit recv = (if recv then 1 else 2)"

definition clear_running :: "bool \<Rightarrow> details \<Rightarrow> details" where
  "clear_running recv d = d\<lparr>async_task_running := and (async_task_running d) (not (op_bit recv))\<rparr>"

definition set_running :: "bool \<Rightarrow> details \<Rightarrow> details" where
  "set_running recv d = d\<lparr>async_task_running := or (async_task_running d) (op_bit recv)\<rparr>"

definition end_op :: "u64 \<Rightarrow> bool \<Rightarrow> bool \<Rightarrow> ('k win_state, u64 list \<times> bool) call" where
  "end_op i recv on_demand s =
     (let (p, k) = s
      in case m_events p i of
           None \<Rightarrow> (Inl (Runtime_error ''GetQueuedCompletionStatus(): got non existing id''), s)
         | Some d \<Rightarrow> (Inr ([i], on_demand), (set_details i (clear_running recv d) p, k)))"

definition win_wait ::
  "('k, 'x, 'm) win_os_scheme \<Rightarrow> u64 list \<Rightarrow> timer \<Rightarrow> ('k win_state, u64 list \<times> bool) call" where
  "win_wait os order tm s =
     then_do (start_ops os order)
       (\<lambda>sync (p, k).
          let (milliseconds, k) = win_milliseconds os tm k
          in case sync of
               None \<Rightarrow>
                 let (c, k) = w_get_status os (m_completion_port p) milliseconds k
                 in then_do (take_completion os c)
                      (\<lambda>(ended, on_demand) s.
                         case ended of None \<Rightarrow> (Inr ([], on_demand), s) | Some (i, recv) \<Rightarrow> end_op i recv on_demand s)
                      (p, k)
             | Some (i, code, recv) \<Rightarrow>
                 let p = (case m_events p i of
                            Some d \<Rightarrow> if \<not> code then set_details i (d\<lparr>d_last_error := sys_errno os k\<rparr>) p else p
                          | None \<Rightarrow> p)
                 in end_op i recv False (p, k))
       (erase_idle (fst s), snd s)"

definition win_wake :: "('k, 'x, 'm) win_os_scheme \<Rightarrow> ('k win_state, unit) call" where
  "win_wake os s = (let (p, k) = s in (Inr (), (p, w_post_status os (m_completion_port p) (- 1) 4294967295 k)))"

definition win_reset :: "u64 \<Rightarrow> ('k win_state, unit) call" where
  "win_reset reset_id s = (Inr (), s)"

section \<open>The functions of \<open>native.cpp\<close>\<close>

text \<open>\<open>m_events.at(id)\<close>, and a call on the object it gives.\<close>

definition on_details :: "u64 \<Rightarrow> (details \<times> 'k, 'a) call \<Rightarrow> ('k win_state, 'a) call" where
  "on_details i m s =
     (case m_events (fst s) i of
        None \<Rightarrow> (Inl (Logic_error ''unordered_map::at''), s)
      | Some d \<Rightarrow> (case m (d, snd s) of (r, (d, k)) \<Rightarrow> (r, (set_details i d (fst s), k))))"

text \<open>Whether a connection was made, and the error.\<close>

definition details_status :: "('k, 'x, 'm) win_os_scheme \<Rightarrow> socket_handle \<Rightarrow> (details \<times> 'k, bool \<times> int) call" where
  "details_status os fd s =
     (let (d, k) = s; error_code = d_last_error d; res = (if 0 = error_code then 0 else - 1 :: int)
      in if 0 = res
         then let (res2, k) = w_update_context os fd k
              in if res2 \<noteq> 0 then (Inl (Runtime_error (''setsockopt(): '' @ last_error os k)), (d, k))
                 else (Inr (True, error_code), (d, k))
         else (Inr (False, error_code), (d, k)))"

definition win_connected_status :: "('k, 'x, 'm) win_os_scheme \<Rightarrow> u64 \<Rightarrow> socket_handle \<Rightarrow> ('k win_state, bool \<times> int) call" where
  "win_connected_status os i fd = on_details i (details_status os fd)"

definition details_accept :: "('k, 'x, 'm) win_os_scheme \<Rightarrow> (details \<times> 'k, socket_handle \<times> bool \<times> int) call" where
  "details_accept os s =
     (let (d, k) = s; error_code = d_last_error d; res = (0 = error_code);
          joined = (if res then accept_socket d else invalid_value);
          (res2, k) = (if res then w_update_context os joined k else (0, k))
      in if res2 \<noteq> 0 then (Inl (Runtime_error (''setsockopt(): '' @ last_error os k)), (d, k))
         else then_do (details_init os) (\<lambda>_. give (joined, res, error_code)) (d\<lparr>accept_socket := invalid_value\<rparr>, k))"

definition win_accept :: "('k, 'x, 'm) win_os_scheme \<Rightarrow> u64 \<Rightarrow> ('k win_state, socket_handle \<times> bool \<times> int) call" where
  "win_accept os i = on_details i (details_accept os)"

text \<open>What \<open>recv\<close> answers, the bytes it stores, and the error code, which is an argument that may be left as it is.\<close>

definition copy_out :: "usize \<Rightarrow> details \<Rightarrow> usize \<times> string \<times> details" where
  "copy_out len d =
     (let rest = ucast (bytes_copied_recv d - bytes_offset d);
          len = (if len > rest then rest else len)
      in (len, take (unat len) (drop (unat (bytes_offset d)) (receive_buffer d)),
          d\<lparr>bytes_offset := bytes_offset d + ucast len\<rparr>))"

definition details_recv ::
  "('k, 'x, 'm) win_os_scheme \<Rightarrow> usize \<Rightarrow> int \<Rightarrow> (details \<times> 'k, usize \<times> string \<times> int) call" where
  "details_recv os len error_code s =
     (let (d, k) = s
      in if \<not> result_receive_send d then (Inr (size_max, [], wsaewouldblock), (d, k))
         else if 0 \<noteq> d_last_error d
         then then_do (details_init os) (\<lambda>_. give (size_max, [], d_last_error d)) (clear_running True d, k)
         else let (len, bytes, d) = copy_out len d
              in if bytes_copied_recv d = bytes_offset d
                 then (case init_recv (clear_running True d) of
                         (Inl e, d) \<Rightarrow> (Inl e, (d, k))
                       | (Inr _, d) \<Rightarrow> (Inr (len, bytes, error_code), (d, k)))
                 else (Inr (len, bytes, error_code), (set_running True d, k)))"

definition win_recv ::
  "('k, 'x, 'm) win_os_scheme \<Rightarrow> u64 \<Rightarrow> usize \<Rightarrow> int \<Rightarrow> ('k win_state, usize \<times> string \<times> int) call" where
  "win_recv os i len error_code = on_details i (details_recv os len error_code)"

text \<open>At most a buffer is sent at a time; what is behind the bytes that are copied stays.\<close>

definition cut_message :: "string \<Rightarrow> string" where
  "cut_message message = (if length message > 1048576 then take 1048575 message else message)"

definition fill_send_buffer :: "string \<Rightarrow> details \<Rightarrow> details" where
  "fill_send_buffer bytes d = d\<lparr>send_buffer := bytes @ drop (length bytes) (send_buffer d), d_action := Task_send\<rparr>"

definition details_async_send :: "string \<Rightarrow> byte_queue \<Rightarrow> (details \<times> 'k, byte_queue) call" where
  "details_async_send message q s =
     (let (d, k) = s
      in case push_bytes message q of
           Inl e \<Rightarrow> (Inl e, (d, k))
         | Inr q' \<Rightarrow>
             if queue_empty q
             then let bytes = cut_message message
                  in (case init_send (of_nat (length bytes)) (clear_running False (fill_send_buffer bytes d)) of
                        (Inl e, d) \<Rightarrow> (Inl e, (d, k))
                      | (Inr _, d) \<Rightarrow> (Inr q', (d, k)))
             else (Inr q', (d, k)))"

definition win_async_send :: "u64 \<Rightarrow> string \<Rightarrow> byte_queue \<Rightarrow> ('k win_state, byte_queue) call" where
  "win_async_send i message q = on_details i (details_async_send message q)"

text \<open>What was sent leaves the queue, all of it after an error; \<open>bytes_copied_send\<close> has 32 bits, so it never is
  \<open>size_t(SOCKET_ERROR)\<close>.\<close>

definition sent_bytes :: "details \<Rightarrow> int \<Rightarrow> byte_queue \<Rightarrow> (usize \<times> int \<times> byte_queue) result" where
  "sent_bytes d error_code q =
     (if 0 \<noteq> d_last_error d then map_sum id (\<lambda>q. (size_max, d_last_error d, q)) (pop_all q)
      else if (ucast (bytes_copied_send d) :: usize) = size_max then map_sum id (\<lambda>q. (0, 0, q)) (pop_all q)
      else map_sum id (\<lambda>q. (ucast (bytes_copied_send d), error_code, q)) (pop_bytes (unat (bytes_copied_send d)) q))"

definition details_send :: "int \<Rightarrow> byte_queue \<Rightarrow> (details \<times> 'k, (usize \<times> int) \<times> byte_queue) call" where
  "details_send error_code q s =
     (let (d, k) = s
      in if result_receive_send d then (Inr ((size_max, wsaewouldblock), q), (d, k))
         else case sent_bytes d error_code q of
                Inl e \<Rightarrow> (Inl e, (d, k))
              | Inr (sent, error_code, q) \<Rightarrow>
                  if sent \<noteq> 0 \<and> sent \<noteq> size_max \<and> \<not> queue_empty q
                  then (case queue_copy_out q (begin_index q) of
                          Inl e \<Rightarrow> (Inl e, (d, k))
                        | Inr message \<Rightarrow>
                            let bytes = cut_message message
                            in (case init_send (of_nat (length bytes)) (fill_send_buffer bytes d) of
                                  (Inl e, d) \<Rightarrow> (Inl e, (d, k))
                                | (Inr _, d) \<Rightarrow> (Inr ((sent, error_code), q), (clear_running False d, k))))
                  else (Inr ((sent, error_code), q), (clear_running False (d\<lparr>d_action := Task_receive\<rparr>), k)))"

definition win_send :: "u64 \<Rightarrow> int \<Rightarrow> byte_queue \<Rightarrow> ('k win_state, (usize \<times> int) \<times> byte_queue) call" where
  "win_send i error_code q = on_details i (details_send error_code q)"

definition win_connect :: "('k, 'x, 'm) win_os_scheme \<Rightarrow> u64 \<Rightarrow> 'x \<Rightarrow> string \<Rightarrow> ('k win_state, unit) call" where
  "win_connect os i addr address_text = on_details i (details_connect os addr address_text)"

text \<open>The literal plus a number is a pointer into it or behind it.\<close>

definition win_startup :: "('k, 'x, 'm) win_os_scheme \<Rightarrow> ('k, unit) call" where
  "win_startup os k =
     (let (err, k) = w_startup os k; message = ''WSAStartup failed with error: ''
      in if err \<noteq> 0
         then if 0 \<le> err \<and> err \<le> int (length message) then (Inl (Runtime_error (drop (nat err) message)), k)
              else (Inl Undefined, k)
         else (Inr (), k))"

definition win_shutdown :: "('k, 'x, 'm) win_os_scheme \<Rightarrow> ('k, unit) call" where
  "win_shutdown os k =
     (let (res, k) = w_cleanup os k
      in if res \<noteq> 0 then (Inl (Runtime_error (''wsacleanup(): '' @ last_error os k)), k) else (Inr (), k))"

section \<open>Calls under way\<close>

fun op_running :: "io_op \<Rightarrow> details \<Rightarrow> bool" where
  "op_running Op_receive d = bit (async_task_running d) 0"
| "op_running Op_send d = bit (async_task_running d) 1"

lemma running_bits:
  fixes w :: u32
  shows "0 = and 1 w \<longleftrightarrow> \<not> bit w 0" "0 = and 2 w \<longleftrightarrow> \<not> bit w 1"
proof -
  show "0 = and 1 w \<longleftrightarrow> \<not> bit w 0"
    using even_iff_mod_2_eq_zero [of w] by (auto simp: one_and_eq bit_0)
  show "0 = and 2 w \<longleftrightarrow> \<not> bit w 1"
  proof
    assume "0 = and 2 w"
    then have "\<not> bit (and 2 w) 1" by (metis bit_0_eq bot_apply bot_bool_def)
    then show "\<not> bit w 1" by (simp add: bit_and_iff)
  next
    assume "\<not> bit w 1"
    then have "\<not> bit (and 2 w) n" for n
      by (cases "n = 1") (auto simp: bit_and_iff bit_2_iff)
    then show "0 = and 2 w" by (intro bit_eqI) simp
  qed
qed

lemma op_running_simps [simp]:
  "op_running op (d\<lparr>async_task_running := 1\<rparr>) \<longleftrightarrow> op = Op_receive"
  "op_running op (d\<lparr>async_task_running := or (async_task_running d) 1\<rparr>) \<longleftrightarrow> op = Op_receive \<or> op_running op d"
  "op_running op (d\<lparr>async_task_running := or (async_task_running d) 2\<rparr>) \<longleftrightarrow> op = Op_send \<or> op_running op d"
  "op_running op (clear_running recv d) \<longleftrightarrow> op_running op d \<and> op \<noteq> (if recv then Op_receive else Op_send)"
  "op_running op (set_running recv d) \<longleftrightarrow> op_running op d \<or> op = (if recv then Op_receive else Op_send)"
  "async_task_running d = 0 \<Longrightarrow> \<not> op_running op d"
  by (cases op; auto simp: clear_running_def set_running_def op_bit_def bit_or_iff bit_and_iff bit_not_iff bit_1_iff bit_2_iff; fail)+

text \<open>
  What the manuals say of the calls under way, \<open>out\<close>: one more after a call that answers that it is pending, or, of
  \<open>WSASend\<close> and \<open>WSARecv\<close>, that it succeeded, for its end is reported all the same; one less when the port reports it;
  the other calls leave them alone. Of a call for an \<open>OVERLAPPED\<close> that is in use nothing is said. \<open>early\<close> says
  that some \<open>AcceptEx\<close> or \<open>ConnectEx\<close> has succeeded at once by now. They may, at any time; of the calls under way from
  then on nothing is said, for a report may be that of a call that ended long ago.
\<close>

definition call_begins ::
  "('k \<Rightarrow> int) \<Rightarrow> ('k \<Rightarrow> overlapped set) \<Rightarrow> ('k \<Rightarrow> bool) \<Rightarrow> overlapped \<Rightarrow> 'k \<Rightarrow> bool \<Rightarrow> 'k \<Rightarrow> bool" where
  "call_begins err out early ov k success k' \<longleftrightarrow>
     (\<not> early k' \<longrightarrow> ov \<notin> out k \<longrightarrow> out k' = (if success \<or> err k' = wsa_io_pending then insert ov (out k) else out k))"

definition unchanged :: "('k \<Rightarrow> overlapped set) \<Rightarrow> ('k \<Rightarrow> bool) \<Rightarrow> 'k \<Rightarrow> 'k \<Rightarrow> bool" where
  "unchanged out early k k' \<longleftrightarrow> out k' = out k \<and> early k' = early k"

definition port_contract :: "('k, 'x, 'm) win_os_scheme \<Rightarrow> ('k \<Rightarrow> overlapped set) \<Rightarrow> ('k \<Rightarrow> bool) \<Rightarrow> bool" where
  "port_contract os out early \<longleftrightarrow>
     (\<forall>k. unchanged out early k (snd (sys_now os k))) \<and>
     (\<forall>fd port i k. unchanged out early k (snd (w_bind_port os fd port i k))) \<and>
     (\<forall>k. unchanged out early k (snd (w_socket os k))) \<and> (\<forall>fd k. unchanged out early k (w_closesocket os fd k)) \<and>
     (\<forall>fd k. unchanged out early k (snd (w_update_context os fd k))) \<and>
     (\<forall>fd k. unchanged out early k (snd (w_load_connect_ex os fd k))) \<and>
     (\<forall>port n key k. unchanged out early k (w_post_status os port n key k)) \<and>
     (\<forall>fd joined ov k. case w_accept_ex os fd joined ov k of (c, k') \<Rightarrow>
        call_begins (sys_errno os) out early ov k c k' \<and> early k' = (early k \<or> c)) \<and>
     (\<forall>fd addr ov k. case w_connect_ex os fd addr ov k of (c, k') \<Rightarrow>
        call_begins (sys_errno os) out early ov k c k' \<and> early k' = (early k \<or> c)) \<and>
     (\<forall>fd bytes ov k. case w_wsa_send os fd bytes ov k of
        (c, k') \<Rightarrow> call_begins (sys_errno os) out early ov k (socket_error \<noteq> c) k' \<and> early k' = early k) \<and>
     (\<forall>fd ov k. case w_wsa_recv os fd ov k of
        (c, k') \<Rightarrow> call_begins (sys_errno os) out early ov k (socket_error \<noteq> c) k' \<and> early k' = early k) \<and>
     (\<forall>port ms k. case w_get_status os port ms k of
        (c, k') \<Rightarrow> early k' = early k \<and>
          (\<not> early k \<longrightarrow> out k' = (case c_overlapped c of None \<Rightarrow> out k | Some ov \<Rightarrow> out k - {ov})))"

text \<open>The calls under way as long as none succeeded early, and none after that: what is proved of them is proved up to
  the first early success.\<close>

definition counted :: "('k \<Rightarrow> overlapped set) \<Rightarrow> ('k \<Rightarrow> bool) \<Rightarrow> 'k \<Rightarrow> overlapped set" where
  "counted out early k = (if early k then {} else out k)"

lemma counted_begins:
  assumes "call_begins err out early ov k success k'" "early k \<Longrightarrow> early k'" "ov \<notin> counted out early k"
  shows "counted out early k' \<subseteq> (if success \<or> err k' = wsa_io_pending then insert ov (counted out early k) else counted out early k)"
  using assms by (auto simp: call_begins_def counted_def split: if_splits)

text \<open>What the proofs use of the contract, for \<open>B\<close> the calls that count.\<close>

definition at_most :: "('k \<Rightarrow> int) \<Rightarrow> ('k \<Rightarrow> overlapped set) \<Rightarrow> overlapped \<Rightarrow> 'k \<Rightarrow> bool \<Rightarrow> 'k \<Rightarrow> bool" where
  "at_most err B ov k success k' \<longleftrightarrow>
     (ov \<notin> B k \<longrightarrow> B k' \<subseteq> (if success \<or> err k' = wsa_io_pending then insert ov (B k) else B k))"

definition port_safe :: "('k, 'x, 'm) win_os_scheme \<Rightarrow> ('k \<Rightarrow> overlapped set) \<Rightarrow> bool" where
  "port_safe os B \<longleftrightarrow>
     (\<forall>k. B (snd (sys_now os k)) = B k) \<and> (\<forall>fd port i k. B (snd (w_bind_port os fd port i k)) = B k) \<and>
     (\<forall>k. B (snd (w_socket os k)) = B k) \<and> (\<forall>fd k. B (w_closesocket os fd k) = B k) \<and>
     (\<forall>fd k. B (snd (w_update_context os fd k)) = B k) \<and> (\<forall>fd k. B (snd (w_load_connect_ex os fd k)) = B k) \<and>
     (\<forall>port n key k. B (w_post_status os port n key k) = B k) \<and>
     (\<forall>fd joined ov k c k'. w_accept_ex os fd joined ov k = (c, k') \<longrightarrow>
        at_most (sys_errno os) B ov k c k' \<and> (c \<longrightarrow> B k' = {})) \<and>
     (\<forall>fd addr ov k c k'. w_connect_ex os fd addr ov k = (c, k') \<longrightarrow>
        at_most (sys_errno os) B ov k c k' \<and> (c \<longrightarrow> B k' = {})) \<and>
     (\<forall>fd bytes ov k c k'. w_wsa_send os fd bytes ov k = (c, k') \<longrightarrow> at_most (sys_errno os) B ov k (socket_error \<noteq> c) k') \<and>
     (\<forall>fd ov k c k'. w_wsa_recv os fd ov k = (c, k') \<longrightarrow> at_most (sys_errno os) B ov k (socket_error \<noteq> c) k') \<and>
     (\<forall>port ms k c k'. w_get_status os port ms k = (c, k') \<longrightarrow>
        B k' \<subseteq> (case c_overlapped c of None \<Rightarrow> B k | Some ov \<Rightarrow> B k - {ov}))"

lemma counted_at_most:
  "call_begins err out early ov k success k' \<Longrightarrow> (early k \<Longrightarrow> early k') \<Longrightarrow> at_most err (counted out early) ov k success k'"
  unfolding at_most_def by (intro impI counted_begins)

lemma port_contract_unchanged:
  assumes "port_contract os out early"
  shows "unchanged out early k (snd (sys_now os k))" "unchanged out early k (snd (w_bind_port os fd port i k))"
    "unchanged out early k (snd (w_socket os k))" "unchanged out early k (w_closesocket os fd k)"
    "unchanged out early k (snd (w_update_context os fd k))" "unchanged out early k (snd (w_load_connect_ex os fd k))"
    "unchanged out early k (w_post_status os port n key k)"
  using assms [unfolded port_contract_def] by (elim conjE, erule allE, assumption | elim conjE, simp)+

lemma port_contract_safe:
  assumes "port_contract os out early"
  shows "port_safe os (counted out early)"
proof -
  note c = assms [unfolded port_contract_def]
  have same: "unchanged out early k k' \<Longrightarrow> counted out early k' = counted out early k" for k k'
    by (simp add: unchanged_def counted_def)
  show ?thesis
    unfolding port_safe_def
  proof (intro conjI allI impI)
    fix fd joined ov k r k' assume "w_accept_ex os fd joined ov k = (r, k')"
    moreover have "\<forall>fd joined ov k. case w_accept_ex os fd joined ov k of (c, k') \<Rightarrow>
        call_begins (sys_errno os) out early ov k c k' \<and> early k' = (early k \<or> c)"
      using c by (elim conjE) assumption
    ultimately have "call_begins (sys_errno os) out early ov k r k' \<and> early k' = (early k \<or> r)"
      by (elim allE [of _ fd] allE [of _ joined] allE [of _ ov] allE [of _ k]) simp
    then show "at_most (sys_errno os) (counted out early) ov k r k'" "r \<Longrightarrow> counted out early k' = {}"
      by (simp_all add: counted_at_most) (simp add: counted_def)
  next
    fix fd addr ov k r k' assume "w_connect_ex os fd addr ov k = (r, k')"
    moreover have "\<forall>fd addr ov k. case w_connect_ex os fd addr ov k of (c, k') \<Rightarrow>
        call_begins (sys_errno os) out early ov k c k' \<and> early k' = (early k \<or> c)"
      using c by (elim conjE) assumption
    ultimately have "call_begins (sys_errno os) out early ov k r k' \<and> early k' = (early k \<or> r)"
      by (elim allE [of _ fd] allE [of _ addr] allE [of _ ov] allE [of _ k]) simp
    then show "at_most (sys_errno os) (counted out early) ov k r k'" "r \<Longrightarrow> counted out early k' = {}"
      by (simp_all add: counted_at_most) (simp add: counted_def)
  next
    fix fd bytes ov k r k' assume "w_wsa_send os fd bytes ov k = (r, k')"
    moreover have "\<forall>fd bytes ov k. case w_wsa_send os fd bytes ov k of
        (c, k') \<Rightarrow> call_begins (sys_errno os) out early ov k (socket_error \<noteq> c) k' \<and> early k' = early k"
      using c by (elim conjE) assumption
    ultimately have "call_begins (sys_errno os) out early ov k (socket_error \<noteq> r) k' \<and> early k' = early k"
      by (elim allE [of _ fd] allE [of _ bytes] allE [of _ ov] allE [of _ k]) simp
    then show "at_most (sys_errno os) (counted out early) ov k (socket_error \<noteq> r) k'" by (simp add: counted_at_most)
  next
    fix fd ov k r k' assume "w_wsa_recv os fd ov k = (r, k')"
    moreover have "\<forall>fd ov k. case w_wsa_recv os fd ov k of
        (c, k') \<Rightarrow> call_begins (sys_errno os) out early ov k (socket_error \<noteq> c) k' \<and> early k' = early k"
      using c by (elim conjE) assumption
    ultimately have "call_begins (sys_errno os) out early ov k (socket_error \<noteq> r) k' \<and> early k' = early k"
      by (elim allE [of _ fd] allE [of _ ov] allE [of _ k]) simp
    then show "at_most (sys_errno os) (counted out early) ov k (socket_error \<noteq> r) k'" by (simp add: counted_at_most)
  next
    fix port ms k r k' assume "w_get_status os port ms k = (r, k')"
    moreover have "\<forall>port ms k. case w_get_status os port ms k of (c, k') \<Rightarrow> early k' = early k \<and>
        (\<not> early k \<longrightarrow> out k' = (case c_overlapped c of None \<Rightarrow> out k | Some ov \<Rightarrow> out k - {ov}))"
      using c by (elim conjE) assumption
    ultimately have "early k' = early k \<and>
        (\<not> early k \<longrightarrow> out k' = (case c_overlapped r of None \<Rightarrow> out k | Some ov \<Rightarrow> out k - {ov}))"
      by (elim allE [of _ port] allE [of _ ms] allE [of _ k]) simp
    then show "counted out early k' \<subseteq> (case c_overlapped r of None \<Rightarrow> counted out early k | Some ov \<Rightarrow> counted out early k - {ov})"
      by (auto simp: counted_def split: option.splits)
  qed (rule same, rule port_contract_unchanged [OF assms])+
qed

lemma port_safeD:
  assumes "port_safe os B"
  shows "w_accept_ex os fd joined ov k = (c, k') \<Longrightarrow> at_most (sys_errno os) B ov k c k'"
    "w_accept_ex os fd joined ov k = (True, k') \<Longrightarrow> B k' = {}"
    "w_connect_ex os fd addr ov k = (c, k') \<Longrightarrow> at_most (sys_errno os) B ov k c k'"
    "w_connect_ex os fd addr ov k = (True, k') \<Longrightarrow> B k' = {}"
    "w_wsa_send os fd bytes ov k = (r, k') \<Longrightarrow> at_most (sys_errno os) B ov k (socket_error \<noteq> r) k'"
    "w_wsa_recv os fd ov k = (r, k') \<Longrightarrow> at_most (sys_errno os) B ov k (socket_error \<noteq> r) k'"
    "w_get_status os port ms k = (ended, k') \<Longrightarrow>
      B k' \<subseteq> (case c_overlapped ended of None \<Rightarrow> B k | Some ov \<Rightarrow> B k - {ov})"
  using assms unfolding port_safe_def by (elim conjE, metis)+

lemma port_safe_quiet:
  assumes "port_safe os B"
  shows "B (snd (sys_now os k)) = B k" "B (snd (w_bind_port os fd port i k)) = B k" "B (snd (w_socket os k)) = B k"
    "B (w_closesocket os fd k) = B k" "B (snd (w_update_context os fd k)) = B k"
    "B (snd (w_load_connect_ex os fd k)) = B k" "B (w_post_status os port n key k) = B k"
  using assms [unfolded port_safe_def] by (elim conjE, simp)+

text \<open>Every call under way has its object, which knows of it.\<close>

definition win_ok :: "overlapped set \<Rightarrow> win_poll \<Rightarrow> bool" where
  "win_ok B p \<longleftrightarrow>
     (\<forall>a op. (a, op) \<in> B \<longrightarrow> (\<exists>i d. m_events p i = Some d \<and> d_address d = a \<and> op_running op d)) \<and>
     (\<forall>i d. m_events p i = Some d \<longrightarrow> d_address d < next_details p) \<and>
     (\<forall>i j d e. m_events p i = Some d \<longrightarrow> m_events p j = Some e \<longrightarrow> d_address d = d_address e \<longrightarrow> i = j) \<and>
     (\<forall>i d. m_events p i = Some d \<longrightarrow> d_action d = Task_connect \<longrightarrow> (d_address d, Op_send) \<notin> B) \<and>
     (\<forall>i d. m_events p i = Some d \<longrightarrow> bytes_offset d > 0 \<longrightarrow> (d_address d, Op_receive) \<notin> B)"

text \<open>What a part was read of was read on since it was last reported: no object stands with bytes that were reported
  and not asked for.\<close>

definition all_read :: "win_poll \<Rightarrow> bool" where
  "all_read p \<longleftrightarrow> (\<forall>i d. m_events p i = Some d \<longrightarrow> bytes_offset d > 0 \<longrightarrow> op_running Op_receive d)"

lemma win_ok_at:
  assumes "win_ok B p" "m_events p i = Some d" "(d_address d, op) \<in> B"
  shows "op_running op d"
proof -
  obtain j e where "m_events p j = Some e" "d_address e = d_address d" "op_running op e"
    using assms(1,3) unfolding win_ok_def by blast
  moreover from this have "j = i" using assms(1,2) unfolding win_ok_def by blast
  ultimately show ?thesis using assms(2) by simp
qed

lemma win_ok_put:
  assumes ok: "win_ok B p" and at: "m_events p i = Some d" and same: "d_address d' = d_address d"
    and running: "\<And>op. (d_address d, op) \<in> B' \<Longrightarrow> op_running op d'"
    and connect: "d_action d' = Task_connect \<Longrightarrow> (d_address d, Op_send) \<notin> B'"
    and rest: "bytes_offset d' > 0 \<Longrightarrow> (d_address d, Op_receive) \<notin> B'"
    and others: "\<And>a op. a \<noteq> d_address d \<Longrightarrow> (a, op) \<in> B' \<Longrightarrow> (a, op) \<in> B"
  shows "win_ok B' (set_details i d' p)"
  unfolding win_ok_def
proof (intro conjI allI impI)
  fix a op assume in_O: "(a, op) \<in> B'"
  show "\<exists>j e. m_events (set_details i d' p) j = Some e \<and> d_address e = a \<and> op_running op e"
  proof (cases "a = d_address d")
    case True
    then show ?thesis using running in_O same by (intro exI [of _ i] exI [of _ d']) (simp add: set_details_def)
  next
    case False
    then obtain j e where e: "m_events p j = Some e" "d_address e = a" "op_running op e"
      using others [OF False in_O] ok unfolding win_ok_def by blast
    then have "j \<noteq> i" using at False by auto
    then show ?thesis using e by (intro exI [of _ j] exI [of _ e]) (simp add: set_details_def)
  qed
next
  fix j e assume "m_events (set_details i d' p) j = Some e"
  then show "d_address e < next_details (set_details i d' p)"
    using ok at same unfolding win_ok_def by (auto simp: set_details_def split: if_splits)
next
  fix j l e f
  assume "m_events (set_details i d' p) j = Some e" "m_events (set_details i d' p) l = Some f" "d_address e = d_address f"
  then show "j = l"
    using ok at same unfolding win_ok_def by (auto simp: set_details_def split: if_splits)
next
  fix j e assume e: "m_events (set_details i d' p) j = Some e" "d_action e = Task_connect"
  show "(d_address e, Op_send) \<notin> B'"
  proof (cases "j = i")
    case True
    then show ?thesis using e connect same by (simp add: set_details_def)
  next
    case False
    then have "m_events p j = Some e" using e(1) by (simp add: set_details_def)
    moreover from this have "d_address e \<noteq> d_address d" using False ok at unfolding win_ok_def by metis
    ultimately show ?thesis using e(2) ok others unfolding win_ok_def by blast
  qed
next
  fix j e assume e: "m_events (set_details i d' p) j = Some e" "bytes_offset e > 0"
  show "(d_address e, Op_receive) \<notin> B'"
  proof (cases "j = i")
    case True
    then show ?thesis using e rest same by (simp add: set_details_def)
  next
    case False
    then have at_j: "m_events p j = Some e" using e(1) by (simp add: set_details_def)
    moreover from this have "d_address e \<noteq> d_address d" using False ok at unfolding win_ok_def by metis
    moreover have "(d_address e, Op_receive) \<notin> B" using at_j e(2) ok unfolding win_ok_def by blast
    ultimately show ?thesis using others by blast
  qed
qed

lemma op_running_same: "async_task_running d' = async_task_running d \<Longrightarrow> op_running op d' = op_running op d"
  by (cases op) auto

lemma win_ok_same:
  assumes ok: "win_ok B p" and at: "m_events p i = Some d"
    and same: "d_address d' = d_address d" "async_task_running d' = async_task_running d" "d_action d' = d_action d"
      "bytes_offset d' = bytes_offset d"
  shows "win_ok B (set_details i d' p)"
proof (rule win_ok_put [OF ok at same(1)])
  show "op_running op d'" if "(d_address d, op) \<in> B" for op
    using win_ok_at [OF ok at that] op_running_same [OF same(2)] by simp
  show "(d_address d, Op_send) \<notin> B" if "d_action d' = Task_connect"
    using ok at that same(3) unfolding win_ok_def by simp
  show "(d_address d, Op_receive) \<notin> B" if "bytes_offset d' > 0"
    using ok at that same(4) unfolding win_ok_def by simp
qed

lemma win_ok_less: "win_ok B p \<Longrightarrow> B' \<subseteq> B \<Longrightarrow> win_ok B' p"
  unfolding win_ok_def by blast

lemma win_ok_erase:
  assumes "win_ok B p"
  shows "win_ok B (erase_idle p)"
  unfolding win_ok_def
proof (intro conjI allI impI)
  fix a op assume "(a, op) \<in> B"
  then obtain i d where d: "m_events p i = Some d" "d_address d = a" "op_running op d"
    using assms unfolding win_ok_def by blast
  then have "async_task_running d \<noteq> 0" by auto
  then show "\<exists>i d. m_events (erase_idle p) i = Some d \<and> d_address d = a \<and> op_running op d"
    using d by (intro exI [of _ i] exI [of _ d]) (simp add: erase_idle_def)
qed (use assms in \<open>auto simp: win_ok_def erase_idle_def split: option.splits if_splits\<close>)

text \<open>A state as a pair of its object and what is under way; one in which to wait.\<close>

definition state_ok :: "('k \<Rightarrow> overlapped set) \<Rightarrow> 'k win_state \<Rightarrow> bool" where
  "state_ok out s \<longleftrightarrow> win_ok (out (snd s)) (fst s)"

definition wait_ok :: "('k \<Rightarrow> overlapped set) \<Rightarrow> 'k win_state \<Rightarrow> bool" where
  "wait_ok out s \<longleftrightarrow> state_ok out s \<and> all_read (fst s)"

lemma start_put:
  assumes ok: "win_ok (out k) p" "all_read p" and at: "m_events p i = Some d" and idle: "\<not> op_running op d"
    and begun: "out k' \<subseteq> insert (d_address d, op) (out k)"
    and new: "d_address d' = d_address d" "d_action d' = d_action d" "bytes_offset d' = bytes_offset d" "op_running op d'"
      "\<And>op. op_running op d \<Longrightarrow> op_running op d'"
    and no_connect: "op = Op_send \<Longrightarrow> d_action d \<noteq> Task_connect"
  shows "wait_ok out (set_details i d' p, k')"
proof -
  have "win_ok (out k') (set_details i d' p)"
  proof (rule win_ok_put [OF ok(1) at new(1)])
    show "op_running op' d'" if "(d_address d, op') \<in> out k'" for op'
      using that begun new(4,5) win_ok_at [OF ok(1) at, of op'] by auto
    show "(d_address d, Op_send) \<notin> out k'" if "d_action d' = Task_connect"
    proof -
      have c: "d_action d = Task_connect" using that new(2) by simp
      then have "(d_address d, Op_send) \<notin> out k" using ok(1) at unfolding win_ok_def by blast
      then show ?thesis using begun no_connect c by auto
    qed
    show "(d_address d, Op_receive) \<notin> out k'" if "bytes_offset d' > 0"
    proof -
      have o: "bytes_offset d > 0" using that new(3) by simp
      then have "op_running Op_receive d" using ok(2) at unfolding all_read_def by blast
      then have "op \<noteq> Op_receive" using idle by auto
      moreover have "(d_address d, Op_receive) \<notin> out k" using ok(1) at o unfolding win_ok_def by blast
      ultimately show ?thesis using begun by auto
    qed
  qed (use begun in auto)
  moreover have "all_read (set_details i d' p)"
    using ok(2) at new(3,5) unfolding all_read_def by (auto simp: set_details_def simp del: op_running.simps)
  ultimately show ?thesis by (simp add: wait_ok_def state_ok_def)
qed

lemma accept_ex_out:
  assumes "port_safe os out" "w_accept_ex os fd joined ov k = (c, k')" "ov \<notin> out k"
  shows "out k' \<subseteq> (if c \<or> sys_errno os k' = wsa_io_pending then insert ov (out k) else out k)"
  using port_safeD(1) [OF assms(1,2)] assms(3) by (simp add: at_most_def)

lemma accept_ex_loop_out:
  "accept_ex_loop os fd joined ov k = Some r \<Longrightarrow> port_safe os out \<Longrightarrow> ov \<notin> out k \<Longrightarrow>
    out (snd r) \<subseteq> (if fst r \<or> sys_errno os (snd r) = wsa_io_pending then insert ov (out k) else out k) \<and>
    (fst r \<longrightarrow> out (snd r) = {})"
proof (induction os fd joined ov k r rule: accept_ex_loop.raw_induct [rotated, consumes 1, case_names step])
  case (step f os fd joined ov k r)
  obtain c k' where call: "w_accept_ex os fd joined ov k = (c, k')" by (cases "w_accept_ex os fd joined ov k")
  note one = accept_ex_out [OF step(3) call step(4)]
  show ?case
  proof (cases "c = False \<and> sys_errno os k' = wsaeconnreset")
    case True
    then have less: "out k' \<subseteq> out k" using one by simp
    then have "ov \<notin> out k'" using step(4) by blast
    moreover have "f os fd joined ov k' = Some r" using step(2) call True by simp
    ultimately have "out (snd r) \<subseteq> (if fst r \<or> sys_errno os (snd r) = wsa_io_pending then insert ov (out k') else out k') \<and>
        (fst r \<longrightarrow> out (snd r) = {})"
      using step(1) step(3) by blast
    then show ?thesis using less by (auto split: if_splits)
  next
    case False
    then have "r = (c, k')" using step(2) call by (auto split: if_splits)
    then show ?thesis using one call port_safeD(2) [OF step(3), of fd joined ov k k'] by (cases c) simp_all
  qed
qed

lemma start_accept_ok:
  assumes contract: "port_safe os out" and ok: "wait_ok out s"
    and at: "m_events (fst s) i = Some d" and idle: "async_task_running d = 0"
  shows "wait_ok out (snd (start_accept os i d s))"
proof -
  obtain p k where s: "s = (p, k)" by (cases s)
  have okp: "win_ok (out k) p" "all_read p" and atp: "m_events p i = Some d"
    using ok at by (simp_all add: s wait_ok_def state_ok_def wait_ok_def)
  have free: "(d_address d, Op_receive) \<notin> out k" using win_ok_at [OF okp(1) atp, of Op_receive] idle by auto
  show ?thesis
  proof (cases "accept_ex_loop os (d_socket d) (accept_socket d) (d_address d, Op_receive) k")
    case None
    then show ?thesis using ok by (simp add: start_accept_def s)
  next
    case (Some r)
    obtain c k' where r: "r = (c, k')" by (cases r)
    note out = accept_ex_loop_out [OF Some contract free, unfolded r fst_conv snd_conv]
    show ?thesis
    proof (cases "\<not> c \<and> sys_errno os k' = wsa_io_pending")
      case True
      have "wait_ok out (set_details i (d\<lparr>async_task_running := 1\<rparr>) p, k')"
        by (rule start_put [where out = out, OF okp atp, of Op_receive]) (use True out idle in auto)
      then show ?thesis using Some True by (simp add: start_accept_def s r wait_ok_def state_ok_def)
    next
      case False
      then have "out k' \<subseteq> out k" using out by auto
      then have "win_ok (out k') p" by (rule win_ok_less [OF okp(1)])
      then show ?thesis using Some False okp(2) by (auto simp: start_accept_def s r wait_ok_def state_ok_def)
    qed
  qed
qed

lemma start_send_ok:
  assumes contract: "port_safe os out" and ok: "wait_ok out s" and at: "m_events (fst s) i = Some d"
  shows "wait_ok out (snd (start_send os i d s))"
proof -
  obtain p k where s: "s = (p, k)" by (cases s)
  have okp: "win_ok (out k) p" "all_read p" and atp: "m_events p i = Some d"
    using ok at by (simp_all add: s wait_ok_def state_ok_def wait_ok_def)
  show ?thesis
  proof (cases "d_action d = Task_send \<and> \<not> bit (async_task_running d) 1")
    case True
    define bytes where "bytes = take (unat (send_len d)) (send_buffer d)"
    obtain c k' where call: "w_wsa_send os (d_socket d) bytes (d_address d, Op_send) k = (c, k')"
      by (cases "w_wsa_send os (d_socket d) bytes (d_address d, Op_send) k")
    have free: "(d_address d, Op_send) \<notin> out k" using win_ok_at [OF okp(1) atp, of Op_send] True by auto
    have out: "out k' \<subseteq> (if socket_error \<noteq> c \<or> sys_errno os k' = wsa_io_pending then insert (d_address d, Op_send) (out k) else out k)"
      using port_safeD(5) [OF contract call] free by (simp add: at_most_def)
    show ?thesis
    proof (cases "socket_error = c \<and> sys_errno os k' \<noteq> wsa_io_pending")
      case failed: True
      then have "win_ok (out k') p" using out by (intro win_ok_less [OF okp(1)]) simp
      then show ?thesis using call okp(2) True failed
        by (simp add: start_send_def s bytes_def wait_ok_def state_ok_def running_bits)
    next
      case started: False
      have "wait_ok out (set_details i (d\<lparr>async_task_running := or (async_task_running d) 2\<rparr>) p, k')"
        by (rule start_put [where out = out, OF okp atp, of Op_send]) (use True out started in auto)
      then show ?thesis using call started True
        by (auto simp: start_send_def s bytes_def wait_ok_def state_ok_def running_bits)
    qed
  next
    case False
    then show ?thesis using ok by (auto simp: start_send_def s running_bits)
  qed
qed

lemma start_recv_ok:
  assumes contract: "port_safe os out" and ok: "wait_ok out s" and at: "m_events (fst s) i = Some d"
  shows "wait_ok out (snd (start_recv os i d s))"
proof -
  obtain p k where s: "s = (p, k)" by (cases s)
  have okp: "win_ok (out k) p" "all_read p" and atp: "m_events p i = Some d"
    using ok at by (simp_all add: s wait_ok_def state_ok_def wait_ok_def)
  show ?thesis
  proof (cases "bit (async_task_running d) 0")
    case False
    obtain c k' where call: "w_wsa_recv os (d_socket d) (d_address d, Op_receive) k = (c, k')"
      by (cases "w_wsa_recv os (d_socket d) (d_address d, Op_receive) k")
    have free: "(d_address d, Op_receive) \<notin> out k" using win_ok_at [OF okp(1) atp, of Op_receive] False by auto
    have out: "out k' \<subseteq> (if socket_error \<noteq> c \<or> sys_errno os k' = wsa_io_pending then insert (d_address d, Op_receive) (out k) else out k)"
      using port_safeD(6) [OF contract call] free by (simp add: at_most_def)
    show ?thesis
    proof (cases "socket_error = c \<and> sys_errno os k' \<noteq> wsa_io_pending")
      case failed: True
      then have "win_ok (out k') p" using out by (intro win_ok_less [OF okp(1)]) simp
      then show ?thesis using call okp(2) False failed by (simp add: start_recv_def s wait_ok_def state_ok_def running_bits)
    next
      case started: False
      have "wait_ok out (set_details i (d\<lparr>async_task_running := or (async_task_running d) 1\<rparr>) p, k')"
        by (rule start_put [where out = out, OF okp atp, of Op_receive]) (use False out started in auto)
      then show ?thesis using call started False by (auto simp: start_recv_def s wait_ok_def state_ok_def running_bits)
    qed
  next
    case True
    then show ?thesis using ok by (simp add: start_recv_def s running_bits)
  qed
qed

lemma start_one_ok:
  assumes contract: "port_safe os out" and ok: "wait_ok out s"
  shows "wait_ok out (snd (start_one os i s))"
proof (cases "m_events (fst s) i")
  case None
  then show ?thesis using ok by (simp add: start_one_def)
next
  case (Some d)
  consider (accept) "d_action d = Task_accept" "async_task_running d = 0"
    | (connect) "d_action d = Task_connect"
    | (data) "d_action d = Task_receive \<or> d_action d = Task_send"
    | (none) "\<not> (d_action d = Task_accept \<and> async_task_running d = 0)" "d_action d \<noteq> Task_connect"
        "d_action d \<noteq> Task_receive" "d_action d \<noteq> Task_send"
    by blast
  then show ?thesis
  proof cases
    case accept
    then show ?thesis using start_accept_ok [OF contract ok Some] Some by (simp add: start_one_def)
  next
    case connect
    have okw: "win_ok (out (snd s)) (fst s)" "all_read (fst s)" using ok by (simp_all add: wait_ok_def state_ok_def)
    have "win_ok (out (snd s)) (set_details i (d\<lparr>async_task_running := 1\<rparr>) (fst s))"
    proof (rule win_ok_put [OF okw(1) Some])
      have no_send: "(d_address d, Op_send) \<notin> out (snd s)"
        using ok Some connect unfolding wait_ok_def state_ok_def win_ok_def by blast
      then show "op_running op (d\<lparr>async_task_running := 1\<rparr>)" if "(d_address d, op) \<in> out (snd s)" for op
        using that by (cases op) auto
      show "(d_address d, Op_send) \<notin> out (snd s)" by (rule no_send)
      show "(d_address d, Op_receive) \<notin> out (snd s)" if "bytes_offset (d\<lparr>async_task_running := 1\<rparr>) > 0"
        using okw(1) Some that unfolding win_ok_def by simp
    qed auto
    moreover have "all_read (set_details i (d\<lparr>async_task_running := 1\<rparr>) (fst s))"
      using okw(2) by (auto simp: all_read_def set_details_def)
    ultimately show ?thesis using connect Some by (simp add: start_one_def wait_ok_def state_ok_def)
  next
    case data
    obtain r s' where r: "start_send os i d s = (r, s')" by (cases "start_send os i d s")
    have ok': "wait_ok out s'" using start_send_ok [OF contract ok Some] r by simp
    show ?thesis
    proof (cases "r = Inr None")
      case True
      have step: "start_one os i s = (case m_events (fst s') i of None \<Rightarrow> (Inr None, s') | Some d \<Rightarrow> start_recv os i d s')"
        using data Some r True by (auto simp: start_one_def)
      show ?thesis
        using start_recv_ok [OF contract ok'] ok' unfolding step by (cases "m_events (fst s') i") auto
    next
      case False
      then have "start_one os i s = (r, s')"
        using data Some r by (auto simp: start_one_def split: sum.splits option.splits)
      then show ?thesis using ok' by simp
    qed
  next
    case none
    then show ?thesis using Some ok by (auto simp: start_one_def)
  qed
qed

lemma start_ops_ok:
  assumes "port_safe os out"
  shows "wait_ok out s \<Longrightarrow> wait_ok out (snd (start_ops os order s))"
proof (induction order arbitrary: s)
  case (Cons i order)
  obtain r s' where r: "start_one os i s = (r, s')" by (cases "start_one os i s")
  then have "wait_ok out s'" using start_one_ok [OF assms Cons.prems, of i] by simp
  then show ?case using Cons.IH r by (auto split: sum.splits option.splits)
qed simp

lemma take_completion_ok:
  assumes ok: "win_ok B p" and ended: "out k \<subseteq> (case c_overlapped c of None \<Rightarrow> B | Some ov \<Rightarrow> B - {ov})"
    and call: "take_completion os c (p, k) = (r, s')"
  shows "snd s' = k \<and> win_ok (out k) (fst s') \<and>
    (\<forall>i recv on_demand. r = Inr (Some (i, recv), on_demand) \<longrightarrow>
       (\<exists>d. m_events (fst s') i = Some d \<and> (d_address d, if recv then Op_receive else Op_send) \<notin> out k))"
proof -
  have "out k \<subseteq> B" using ended by (auto split: option.splits)
  then have less: "win_ok (out k) p" by (rule win_ok_less [OF ok])
  show ?thesis
  proof (cases "c_overlapped c")
    case None
    then show ?thesis using call less by (auto simp: take_completion_def)
  next
    case (Some ov)
    show ?thesis
    proof (cases "m_events p (c_key c)")
      case None
      then show ?thesis using call less Some by (auto simp: take_completion_def)
    next
      case at: (Some d)
      show ?thesis
      proof (cases "ov \<noteq> (d_address d, Op_receive) \<and> ov \<noteq> (d_address d, Op_send)")
        case True
        then show ?thesis using call less Some at by (auto simp: take_completion_def)
      next
        case False
        define recv where "recv \<longleftrightarrow> ov = (d_address d, Op_receive)"
        define d1 where "d1 = (if recv then d\<lparr>bytes_copied_recv := c_bytes c, receive_buffer := c_data c, result_receive_send := True\<rparr>
            else d\<lparr>bytes_copied_send := c_bytes c, result_receive_send := False\<rparr>)"
        define d2 where "d2 = (if \<not> c_code c then d1\<lparr>d_last_error := sys_errno os k\<rparr> else d1)"
        have same: "d_address d2 = d_address d" "async_task_running d2 = async_task_running d" "d_action d2 = d_action d"
          "bytes_offset d2 = bytes_offset d"
          by (auto simp: d2_def d1_def)
        have running: "op_running op d2 = op_running op d" for op using same(2) by (cases op) auto
        have "win_ok (out k) (set_details (c_key c) d2 p)"
        proof (rule win_ok_put [OF less at same(1)])
          show "op_running op d2" if "(d_address d, op) \<in> out k" for op
            using running win_ok_at [OF less at that] by simp
          show "(d_address d, Op_send) \<notin> out k" if "d_action d2 = Task_connect"
            using less at that same(3) unfolding win_ok_def by simp
          show "(d_address d, Op_receive) \<notin> out k" if "bytes_offset d2 > 0"
            using less at that same(4) unfolding win_ok_def by simp
        qed auto
        moreover have "r = Inr (Some (c_key c, recv), False) \<and> s' = (set_details (c_key c) d2 p, k)"
          using call Some at False by (auto simp: take_completion_def d2_def d1_def recv_def Let_def)
        moreover have "(d_address d2, if recv then Op_receive else Op_send) \<notin> out k"
          using same(1) ended Some False by (auto simp: recv_def)
        ultimately show ?thesis by (auto simp: set_details_def)
      qed
    qed
  qed
qed

lemma end_op_ok:
  assumes ok: "win_ok (out k) p"
    and free: "\<And>d. m_events p i = Some d \<Longrightarrow> (d_address d, if recv then Op_receive else Op_send) \<notin> out k"
  shows "state_ok out (snd (end_op i recv on_demand (p, k)))"
proof (cases "m_events p i")
  case None
  then show ?thesis using ok by (simp add: end_op_def state_ok_def)
next
  case (Some d)
  have same: "d_address (clear_running recv d) = d_address d" "d_action (clear_running recv d) = d_action d"
    by (simp_all add: clear_running_def)
  have "win_ok (out k) (set_details i (clear_running recv d) p)"
  proof (rule win_ok_put [OF ok Some same(1)])
    show "op_running op (clear_running recv d)" if "(d_address d, op) \<in> out k" for op
      using that win_ok_at [OF ok Some that] free [OF Some] by auto
    show "(d_address d, Op_send) \<notin> out k" if "d_action (clear_running recv d) = Task_connect"
      using ok Some that same(2) unfolding win_ok_def by simp
    show "(d_address d, Op_receive) \<notin> out k" if "bytes_offset (clear_running recv d) > 0"
      using ok Some that unfolding win_ok_def by (simp add: clear_running_def)
  qed auto
  then show ?thesis using Some by (simp add: end_op_def state_ok_def)
qed

text \<open>What could not be started, or has bytes left, is not under way.\<close>

definition sync_free :: "('k \<Rightarrow> overlapped set) \<Rightarrow> sync \<Rightarrow> 'k win_state \<Rightarrow> bool" where
  "sync_free out sync s \<longleftrightarrow>
     (\<forall>i code recv d. sync = Some (i, code, recv) \<longrightarrow> m_events (fst s) i = Some d \<longrightarrow>
        (d_address d, if recv then Op_receive else Op_send) \<notin> out (snd s))"

lemma start_accept_sync:
  assumes contract: "port_safe os out" and ok: "wait_ok out s"
    and at: "m_events (fst s) i = Some d" and idle: "async_task_running d = 0"
    and call: "start_accept os i d s = (Inr sync, s')"
  shows "sync_free out sync s'"
proof -
  obtain p k where s: "s = (p, k)" by (cases s)
  have okp: "win_ok (out k) p" and atp: "m_events p i = Some d" using ok at by (simp_all add: s wait_ok_def state_ok_def)
  have free: "(d_address d, Op_receive) \<notin> out k" using win_ok_at [OF okp atp, of Op_receive] idle by auto
  obtain r where r: "accept_ex_loop os (d_socket d) (accept_socket d) (d_address d, Op_receive) k = Some r"
    using call by (cases "accept_ex_loop os (d_socket d) (accept_socket d) (d_address d, Op_receive) k") (auto simp: start_accept_def s)
  show ?thesis
    using accept_ex_loop_out [OF r contract free] call r free atp
    by (cases r) (auto simp: start_accept_def s sync_free_def split: if_splits)
qed

lemma start_send_sync:
  assumes contract: "port_safe os out" and ok: "wait_ok out s"
    and at: "m_events (fst s) i = Some d" and call: "start_send os i d s = (Inr sync, s')"
  shows "sync_free out sync s'"
proof -
  obtain p k where s: "s = (p, k)" by (cases s)
  have okp: "win_ok (out k) p" and atp: "m_events p i = Some d" using ok at by (simp_all add: s wait_ok_def state_ok_def)
  define bytes where "bytes = take (unat (send_len d)) (send_buffer d)"
  obtain c k' where send: "w_wsa_send os (d_socket d) bytes (d_address d, Op_send) k = (c, k')"
    by (cases "w_wsa_send os (d_socket d) bytes (d_address d, Op_send) k")
  show ?thesis
  proof (cases "d_action d = Task_send \<and> \<not> bit (async_task_running d) 1")
    case True
    then have "(d_address d, Op_send) \<notin> out k" using win_ok_at [OF okp atp, of Op_send] by auto
    then show ?thesis using call True send port_safeD(5) [OF contract send] atp
      by (auto simp: start_send_def s running_bits bytes_def [symmetric] sync_free_def at_most_def split: if_splits)
  next
    case False
    then show ?thesis using call by (auto simp: start_send_def s running_bits sync_free_def)
  qed
qed

lemma start_recv_sync:
  assumes contract: "port_safe os out" and ok: "wait_ok out s"
    and at: "m_events (fst s) i = Some d" and call: "start_recv os i d s = (Inr sync, s')"
  shows "sync_free out sync s'"
proof -
  obtain p k where s: "s = (p, k)" by (cases s)
  have okp: "win_ok (out k) p" and atp: "m_events p i = Some d" using ok at by (simp_all add: s wait_ok_def state_ok_def)
  obtain c k' where receive: "w_wsa_recv os (d_socket d) (d_address d, Op_receive) k = (c, k')"
    by (cases "w_wsa_recv os (d_socket d) (d_address d, Op_receive) k")
  show ?thesis
  proof (cases "bit (async_task_running d) 0")
    case False
    then have "(d_address d, Op_receive) \<notin> out k" using win_ok_at [OF okp atp, of Op_receive] by auto
    then show ?thesis using call False receive port_safeD(6) [OF contract receive] atp
      by (auto simp: start_recv_def s running_bits sync_free_def at_most_def split: if_splits)
  next
    case True
    have "bytes_offset d > 0 \<Longrightarrow> (d_address d, Op_receive) \<notin> out k" using okp atp unfolding win_ok_def by blast
    then show ?thesis using call True atp by (auto simp: start_recv_def s running_bits sync_free_def split: if_splits)
  qed
qed

lemma start_one_sync:
  assumes contract: "port_safe os out" and ok: "wait_ok out s"
    and call: "start_one os i s = (Inr sync, s')"
  shows "sync_free out sync s'"
proof -
  have none: "sync_free out None t" for t :: "'a win_state" by (simp add: sync_free_def)
  show ?thesis
  proof (cases "m_events (fst s) i")
    case None
    then show ?thesis using call by (simp add: start_one_def sync_free_def)
  next
    case (Some d)
    consider (accept) "d_action d = Task_accept" "async_task_running d = 0"
      | (data) "d_action d = Task_receive \<or> d_action d = Task_send"
      | (other) "sync = None"
      using call Some by (auto simp: start_one_def split: if_splits)
    then show ?thesis
    proof cases
      case accept
      then have "start_accept os i d s = (Inr sync, s')" using call Some by (simp add: start_one_def)
      then show ?thesis by (rule start_accept_sync [OF contract ok Some accept(2)])
    next
      case other
      then show ?thesis by (simp add: sync_free_def)
    next
      case data
      obtain r t where send: "start_send os i d s = (r, t)" by (cases "start_send os i d s")
      have okt: "wait_ok out t" using start_send_ok [OF contract ok Some] send by simp
      show ?thesis
      proof (cases "r = Inr None")
        case True
        have step: "start_one os i s = (case m_events (fst t) i of None \<Rightarrow> (Inr None, t) | Some d \<Rightarrow> start_recv os i d t)"
          using data Some send True by (auto simp: start_one_def)
        show ?thesis
          using call start_recv_sync [OF contract okt] unfolding step
          by (cases "m_events (fst t) i") (auto simp: sync_free_def)
      next
        case False
        then have "start_one os i s = (r, t)"
          using data Some send by (auto simp: start_one_def split: sum.splits option.splits)
        then show ?thesis using call start_send_sync [OF contract ok Some] send by simp
      qed
    qed
  qed
qed

lemma start_ops_sync:
  assumes "port_safe os out"
  shows "wait_ok out s \<Longrightarrow> start_ops os order s = (Inr sync, s') \<Longrightarrow> sync_free out sync s'"
proof (induction order arbitrary: s)
  case Nil
  then show ?case by (simp add: sync_free_def)
next
  case (Cons i order)
  obtain r t where r: "start_one os i s = (r, t)" by (cases "start_one os i s")
  have "wait_ok out t" using start_one_ok [OF assms Cons.prems(1), of i] r by simp
  then show ?case using Cons.IH [of t] Cons.prems(2) start_one_sync [OF assms Cons.prems(1)] r
    by (auto split: sum.splits option.splits)
qed

lemma win_milliseconds_out:
  assumes "port_safe os out"
  shows "out (snd (win_milliseconds os tm k)) = out k"
proof -
  obtain now k' where now: "sys_now os k = (now, k')" by (cases "sys_now os k")
  then have "out k' = out k" using port_safe_quiet(1) [OF assms, of k] by (simp only: snd_conv)
  then show ?thesis using now by (simp add: win_milliseconds_def)
qed

lemma win_wait_ok:
  assumes contract: "port_safe os out" and ok: "state_ok out s" "all_read (fst s)"
  shows "state_ok out (snd (win_wait os order tm s))"
proof -
  let ?s0 = "(erase_idle (fst s), snd s)"
  have "all_read (erase_idle (fst s))"
    using ok(2) by (auto simp: all_read_def erase_idle_def split: option.splits if_splits)
  then have ok0: "wait_ok out ?s0" using win_ok_erase ok(1) by (simp add: wait_ok_def state_ok_def)
  obtain r p k where r: "start_ops os order ?s0 = (r, (p, k))" by (metis prod.exhaust)
  have okp: "win_ok (out k) p" using start_ops_ok [OF contract ok0, of order] r by (simp add: wait_ok_def state_ok_def)
  obtain ms k1 where ms: "win_milliseconds os tm k = (ms, k1)" by (cases "win_milliseconds os tm k")
  have out1: "out k1 = out k" using win_milliseconds_out [OF contract, of tm k] ms by simp
  show ?thesis
  proof (cases r)
    case (Inl e)
    then show ?thesis using r okp by (simp add: win_wait_def then_do_def state_ok_def)
  next
    case (Inr sync)
    show ?thesis
    proof (cases sync)
      case None
      obtain c k2 where c: "w_get_status os (m_completion_port p) ms k1 = (c, k2)"
        by (cases "w_get_status os (m_completion_port p) ms k1")
      obtain t s2 where t: "take_completion os c (p, k2) = (t, s2)" by (cases "take_completion os c (p, k2)")
      have out2: "out k2 \<subseteq> (case c_overlapped c of None \<Rightarrow> out k | Some ov \<Rightarrow> out k - {ov})"
        unfolding out1 [symmetric] by (rule port_safeD(7) [OF contract c])
      note taken = take_completion_ok [where out = out, OF okp out2 t]
      have wait: "win_wait os order tm s = (case t of Inl e \<Rightarrow> (Inl e, s2)
          | Inr (None, on_demand) \<Rightarrow> (Inr ([], on_demand), s2)
          | Inr (Some (i, recv), on_demand) \<Rightarrow> end_op i recv on_demand s2)"
        using r Inr None ms c t by (auto simp: win_wait_def then_do_def split: sum.splits option.splits prod.splits)
      show ?thesis
      proof (cases "\<exists>i recv on_demand. t = Inr (Some (i, recv), on_demand)")
        case True
        then obtain i recv on_demand where ended: "t = Inr (Some (i, recv), on_demand)" by blast
        have s2: "s2 = (fst s2, k2)" using taken by (metis prod.collapse)
        have "state_ok out (snd (end_op i recv on_demand (fst s2, k2)))"
          by (rule end_op_ok [where out = out]) (use taken ended in auto)
        then show ?thesis using wait ended s2 by simp
      next
        case False
        then have "snd (win_wait os order tm s) = s2"
          unfolding wait by (auto split: sum.splits option.splits)
        then show ?thesis using taken by (simp add: state_ok_def)
      qed
    next
      case (Some x)
      obtain i code recv where x: "x = (i, code, recv)" by (cases x)
      define p1 where "p1 = (case m_events p i of
          Some d \<Rightarrow> if \<not> code then set_details i (d\<lparr>d_last_error := sys_errno os k1\<rparr>) p else p | None \<Rightarrow> p)"
      have free: "(d_address d, if recv then Op_receive else Op_send) \<notin> out k" if "m_events p i = Some d" for d
        using start_ops_sync [OF contract ok0, of order] r Inr Some x that by (auto simp: sync_free_def)
      have "win_ok (out k1) p1"
      proof (cases "m_events p i")
        case None
        then show ?thesis using okp out1 by (simp add: p1_def)
      next
        case (Some d)
        have "win_ok (out k) (set_details i (d\<lparr>d_last_error := sys_errno os k1\<rparr>) p)"
          by (rule win_ok_same [OF okp Some]) simp_all
        then show ?thesis using Some okp out1 by (simp add: p1_def)
      qed
      then have "state_ok out (snd (end_op i recv False (p1, k1)))"
        by (rule end_op_ok [where out = out]) (use free out1 in \<open>auto simp: p1_def set_details_def split: option.splits if_splits\<close>)
      then show ?thesis using r Inr Some x ms by (simp add: win_wait_def then_do_def p1_def)
    qed
  qed
qed

section \<open>The other calls\<close>

lemma details_init_keeps:
  assumes "port_safe os out" "details_init os (d, k) = (r, (d', k'))"
  shows "d_address d' = d_address d" "async_task_running d' = async_task_running d" "d_action d' = d_action d"
    "bytes_offset d' = bytes_offset d \<or> bytes_offset d' = 0" "out k' = out k"
proof -
  obtain fd k2 where fd: "w_socket os (if async_task_running d \<noteq> 0 then w_closesocket os (accept_socket d) k else k) = (fd, k2)"
    by (cases "w_socket os (if async_task_running d \<noteq> 0 then w_closesocket os (accept_socket d) k else k)")
  have out: "out k2 = out k"
    using port_safe_quiet(3) [OF assms(1), of "if async_task_running d \<noteq> 0 then w_closesocket os (accept_socket d) k else k"]
      port_safe_quiet(4) [OF assms(1), of "accept_socket d" k] fd by (simp split: if_splits)
  note facts = assms(2) fd
  show "d_address d' = d_address d" "async_task_running d' = async_task_running d" "d_action d' = d_action d"
    "bytes_offset d' = bytes_offset d \<or> bytes_offset d' = 0" "out k' = out k"
    using facts out by (auto simp: details_init_def details_reset_def Let_def split: if_splits)
qed

lemma details_new_facts:
  assumes "port_safe os out" "details_new os a action fd k = (r, k')"
  shows "out k' = out k"
    "r = Inr d \<Longrightarrow> d_address d = a \<and> async_task_running d = 0 \<and> bytes_offset d = 0"
proof -
  define d0 where "d0 = \<lparr>d_address = a, d_action = action, d_socket = fd, async_task_running = 0, accept_socket = 0,
          receive_buffer = [], send_buffer = [], send_len = 0, d_last_error = 0, bytes_copied_recv = 0,
          bytes_copied_send = 0, result_receive_send = True, bytes_offset = 0\<rparr>"
  obtain r1 d1 k1 where i: "details_init os (d0, k) = (r1, (d1, k1))" by (metis prod.exhaust)
  note keeps = details_init_keeps [OF assms(1) i]
  have new: "details_new os a action fd k = (case r1 of Inl e \<Rightarrow> (Inl e, k1) | Inr _ \<Rightarrow> (Inr d1, k1))"
    using i by (simp add: details_new_def d0_def split: sum.splits)
  then show "out k' = out k" using keeps(5) assms(2) by (auto split: sum.splits)
  show "d_address d = a \<and> async_task_running d = 0 \<and> bytes_offset d = 0" if "r = Inr d"
    using new that keeps(1,2,4) assms(2) by (auto simp: d0_def split: sum.splits)
qed

lemma win_ok_next: "win_ok B p \<Longrightarrow> win_ok B (p\<lparr>next_details := Suc (next_details p)\<rparr>)"
  by (auto simp: win_ok_def less_Suc_eq)

lemma win_ok_new:
  assumes ok: "win_ok B p" and new: "d_address d = next_details p" "async_task_running d = 0" "bytes_offset d = 0"
    and old: "\<And>e. m_events p i = Some e \<Longrightarrow> async_task_running e = 0"
  shows "win_ok B (set_details i d (p\<lparr>next_details := Suc (next_details p)\<rparr>))"
proof -
  have known: "\<exists>j e. j \<noteq> i \<and> m_events p j = Some e \<and> d_address e = a \<and> op_running op e" if "(a, op) \<in> B" for a op
  proof -
    obtain j e where e: "m_events p j = Some e" "d_address e = a" "op_running op e"
      using ok \<open>(a, op) \<in> B\<close> unfolding win_ok_def by blast
    then have "j \<noteq> i" using old [of e] by auto
    then show ?thesis using e by blast
  qed
  have less: "d_address e < next_details p" if "m_events p j = Some e" for j e
    using ok that unfolding win_ok_def by blast
  have fresh: "(next_details p, op) \<notin> B" for op
  proof
    assume "(next_details p, op) \<in> B"
    then obtain j e where "m_events p j = Some e" "d_address e = next_details p" using known by blast
    then show False using less [of j e] by simp
  qed
  show ?thesis
    unfolding win_ok_def
  proof (intro conjI allI impI)
    show "\<exists>j e. m_events (set_details i d (p\<lparr>next_details := Suc (next_details p)\<rparr>)) j = Some e \<and> d_address e = a \<and> op_running op e"
      if "(a, op) \<in> B" for a op
      using known [OF that] by (auto simp: set_details_def)
  next
    fix j e assume "m_events (set_details i d (p\<lparr>next_details := Suc (next_details p)\<rparr>)) j = Some e"
    then show "d_address e < next_details (set_details i d (p\<lparr>next_details := Suc (next_details p)\<rparr>))"
      using less new(1) by (auto simp: set_details_def less_Suc_eq split: if_splits)
  next
    fix j l e f
    assume "m_events (set_details i d (p\<lparr>next_details := Suc (next_details p)\<rparr>)) j = Some e"
      "m_events (set_details i d (p\<lparr>next_details := Suc (next_details p)\<rparr>)) l = Some f" "d_address e = d_address f"
    then have parts: "j \<noteq> i \<Longrightarrow> m_events p j = Some e" "l \<noteq> i \<Longrightarrow> m_events p l = Some f" "j = i \<Longrightarrow> e = d" "l = i \<Longrightarrow> f = d"
        "d_address e = d_address f"
      by (auto simp: set_details_def split: if_splits)
    have "j = i \<longleftrightarrow> d_address e = next_details p" using parts(1,3) less [of j e] new(1) by (cases "j = i") auto
    moreover have "l = i \<longleftrightarrow> d_address f = next_details p" using parts(2,4) less [of l f] new(1) by (cases "l = i") auto
    ultimately show "j = l"
      using parts(1,2,5) ok unfolding win_ok_def by metis
  next
    fix j e assume "m_events (set_details i d (p\<lparr>next_details := Suc (next_details p)\<rparr>)) j = Some e" "d_action e = Task_connect"
    then show "(d_address e, Op_send) \<notin> B"
      using fresh new(1) ok unfolding win_ok_def by (auto simp: set_details_def split: if_splits)
  next
    fix j e assume "m_events (set_details i d (p\<lparr>next_details := Suc (next_details p)\<rparr>)) j = Some e" "bytes_offset e > 0"
    then show "(d_address e, Op_receive) \<notin> B"
      using fresh new(1) ok unfolding win_ok_def by (auto simp: set_details_def split: if_splits)
  qed
qed

lemma win_add_ok:
  assumes contract: "port_safe os out" and ok: "state_ok out s"
  shows "state_ok out (snd (win_add os fd pid action s))"
proof -
  obtain p k where s: "s = (p, k)" by (cases s)
  have okp: "win_ok (out k) p" using ok by (simp add: s state_ok_def)
  obtain r k1 where r: "details_new os (next_details p) action fd k = (r, k1)" by (cases "details_new os (next_details p) action fd k")
  have out: "out k1 = out k" by (rule details_new_facts(1) [OF contract r])
  have one_more: "win_ok (out k1) (p\<lparr>next_details := Suc (next_details p)\<rparr>)" using win_ok_next [OF okp] out by simp
  show ?thesis
  proof (cases r)
    case (Inl e)
    then show ?thesis using r one_more by (simp add: win_add_def s state_ok_def)
  next
    case (Inr d)
    note new = details_new_facts(2) [OF contract r Inr]
    show ?thesis
    proof (cases "m_events p pid")
      case None
      obtain b k2 where b: "w_bind_port os fd (m_completion_port p) pid k1 = (b, k2)"
        by (cases "w_bind_port os fd (m_completion_port p) pid k1")
      have "out k2 = out k" using port_safe_quiet(2) [OF contract, of fd "m_completion_port p" pid k1] b out by simp
      moreover have "win_ok (out k) (set_details pid d (p\<lparr>next_details := Suc (next_details p)\<rparr>))"
        by (rule win_ok_new [OF okp]) (use new None in auto)
      ultimately show ?thesis using r Inr None b by (simp add: win_add_def s state_ok_def set_details_def Let_def)
    next
      case (Some old)
      show ?thesis
      proof (cases "d_action old \<noteq> Task_remove \<or> async_task_running old \<noteq> 0")
        case True
        then show ?thesis using r Inr Some one_more by (simp add: win_add_def s state_ok_def)
      next
        case False
        define p1 where "p1 = p\<lparr>next_details := Suc (next_details p)\<rparr>"
        have ok1: "win_ok (out k1) p1" using one_more by (simp add: p1_def)
        obtain r2 k2 where r2: "details_new os (next_details p1) action fd k1 = (r2, k2)"
          by (cases "details_new os (next_details p1) action fd k1")
        have out2: "out k2 = out k1" by (rule details_new_facts(1) [OF contract r2])
        have dropped: "win_ok (out k2) (p1\<lparr>next_details := Suc (next_details p1)\<rparr>)" using win_ok_next [OF ok1] out2 by simp
        have replaced: "win_ok (out k2) (set_details pid d2 (p1\<lparr>next_details := Suc (next_details p1)\<rparr>))" if "r2 = Inr d2" for d2
          unfolding out2 by (rule win_ok_new [OF ok1]) (use details_new_facts(2) [OF contract r2 that] Some False in \<open>auto simp: p1_def\<close>)
        have add: "snd (win_add os fd pid action s) = (case r2 of
            Inl e \<Rightarrow> (p1\<lparr>next_details := Suc (next_details p1)\<rparr>, k2)
          | Inr d2 \<Rightarrow> (set_details pid d2 (p1\<lparr>next_details := Suc (next_details p1)\<rparr>), k2))"
          using r r2 Inr Some False by (simp add: win_add_def s p1_def split: sum.splits)
        show ?thesis using dropped replaced unfolding add by (cases r2) (simp_all add: state_ok_def)
      qed
    qed
  qed
qed

lemma win_remove_ok:
  assumes "state_ok out s"
  shows "state_ok out (snd (win_remove pid s))"
proof -
  obtain p k where s: "s = (p, k)" by (cases s)
  have okp: "win_ok (out k) p" using assms by (simp add: s state_ok_def)
  show ?thesis
  proof (cases "m_events p pid")
    case None
    then show ?thesis using okp by (simp add: win_remove_def s state_ok_def)
  next
    case (Some d)
    have "win_ok (out k) (set_details pid (d\<lparr>d_action := Task_remove\<rparr>) p)"
    proof (rule win_ok_put [OF okp Some])
      show "op_running op (d\<lparr>d_action := Task_remove\<rparr>)" if "(d_address d, op) \<in> out k" for op
        using win_ok_at [OF okp Some that] op_running_same [of "d\<lparr>d_action := Task_remove\<rparr>" d op] by simp
      show "(d_address d, Op_receive) \<notin> out k" if "bytes_offset (d\<lparr>d_action := Task_remove\<rparr>) > 0"
        using okp Some that unfolding win_ok_def by simp
    qed auto
    then show ?thesis using Some by (simp add: win_remove_def s state_ok_def)
  qed
qed

text \<open>A call on an object that forgets no call under way.\<close>

definition keeps_ops :: "('k \<Rightarrow> overlapped set) \<Rightarrow> details \<times> 'k \<Rightarrow> details \<times> 'k \<Rightarrow> bool" where
  "keeps_ops out s s' \<longleftrightarrow>
     d_address (fst s') = d_address (fst s) \<and> out (snd s') = out (snd s) \<and>
     (\<forall>op. (d_address (fst s), op) \<in> out (snd s) \<longrightarrow> op_running op (fst s) \<longrightarrow> op_running op (fst s')) \<and>
     (d_action (fst s') = Task_connect \<longrightarrow> d_action (fst s) = Task_connect) \<and>
     (bytes_offset (fst s') > 0 \<longrightarrow> bytes_offset (fst s) > 0 \<or> (d_address (fst s), Op_receive) \<notin> out (snd s))"

lemma on_details_ok:
  assumes ok: "state_ok out s"
    and keeps: "\<And>d. m_events (fst s) i = Some d \<Longrightarrow> keeps_ops out (d, snd s) (snd (m (d, snd s)))"
  shows "state_ok out (snd (on_details i m s))"
proof (cases "m_events (fst s) i")
  case None
  then show ?thesis using ok by (simp add: on_details_def)
next
  case (Some d)
  have okp: "win_ok (out (snd s)) (fst s)" using ok by (simp add: state_ok_def)
  obtain r d' k' where m: "m (d, snd s) = (r, (d', k'))" by (metis prod.exhaust)
  have k: "keeps_ops out (d, snd s) (d', k')" using keeps [OF Some] m by simp
  have same: "d_address d' = d_address d" and out: "out k' = out (snd s)" using k by (simp_all add: keeps_ops_def)
  have "win_ok (out (snd s)) (set_details i d' (fst s))"
  proof (rule win_ok_put [OF okp Some same])
    show "op_running op d'" if "(d_address d, op) \<in> out (snd s)" for op
      using k that win_ok_at [OF okp Some that] by (simp add: keeps_ops_def)
    show "(d_address d, Op_send) \<notin> out (snd s)" if "d_action d' = Task_connect"
      using k that okp Some unfolding win_ok_def by (simp add: keeps_ops_def)
    show "(d_address d, Op_receive) \<notin> out (snd s)" if "bytes_offset d' > 0"
      using k that okp Some unfolding win_ok_def keeps_ops_def by auto
  qed auto
  then show ?thesis using Some m out by (simp add: on_details_def state_ok_def)
qed

lemma keeps_init:
  assumes "port_safe os out" "details_init os (d, k) = (r, s')"
  shows "keeps_ops out (d, k) s'"
proof -
  obtain d' k' where s': "s' = (d', k')" by (cases s')
  note keeps = details_init_keeps [OF assms(1) assms(2) [unfolded s']]
  then show ?thesis using op_running_same [OF keeps(2)] by (auto simp: keeps_ops_def s')
qed

lemma keeps_status:
  assumes "port_safe os out"
  shows "keeps_ops out s (snd (details_status os fd s))"
proof -
  obtain d k where s: "s = (d, k)" by (cases s)
  obtain r k' where r: "w_update_context os fd k = (r, k')" by (cases "w_update_context os fd k")
  then have "out k' = out k" using port_safe_quiet(5) [OF assms, of fd k] by simp
  then show ?thesis by (auto simp: s r keeps_ops_def details_status_def Let_def)
qed

lemma then_give_state: "snd (then_do m (\<lambda>x. give (f x)) s) = snd (m s)"
  by (auto simp: then_do_def give_def split: prod.splits sum.splits)

lemma keeps_accept:
  assumes "port_safe os out"
  shows "keeps_ops out s (snd (details_accept os s))"
proof -
  obtain d k where s: "s = (d, k)" by (cases s)
  define joined where "joined = (if 0 = d_last_error d then accept_socket d else invalid_value)"
  obtain r k' where r: "(if 0 = d_last_error d then w_update_context os joined k else (0, k)) = (r, k')"
    by (cases "if 0 = d_last_error d then w_update_context os joined k else (0, k)")
  have out: "out k' = out k" using port_safe_quiet(5) [OF assms, of joined k] r by (auto split: if_splits)
  obtain q s' where i: "details_init os (d\<lparr>accept_socket := invalid_value\<rparr>, k') = (q, s')"
    by (cases "details_init os (d\<lparr>accept_socket := invalid_value\<rparr>, k')")
  have "keeps_ops out (d\<lparr>accept_socket := invalid_value\<rparr>, k') s'" by (rule keeps_init [OF assms i])
  then have "keeps_ops out (d, k) s'"
    using out op_running_same [of "d\<lparr>accept_socket := invalid_value\<rparr>" d] by (auto simp: keeps_ops_def)
  moreover have "snd (details_accept os s) = (if r \<noteq> 0 then (d, k') else s')"
    using r i by (cases "d_last_error d = 0") (simp_all add: s details_accept_def joined_def Let_def then_give_state)
  ultimately show ?thesis using out by (auto simp: s keeps_ops_def)
qed

text \<open>Reading, when no receive is under way; sending, when no send is.\<close>

lemma keepsI:
  assumes "d_address d2 = d_address d" "d_action d2 = d_action d \<or> d_action d2 \<noteq> Task_connect"
    and running: "async_task_running d2 = async_task_running (clear_running recv d) \<or>
      async_task_running d2 = async_task_running (set_running recv d) \<or> async_task_running d2 = async_task_running d"
    and free: "(d_address d, if recv then Op_receive else Op_send) \<notin> out k"
    and rest: "bytes_offset d2 = bytes_offset d \<or> recv"
  shows "keeps_ops out (d, k) (d2, k)"
proof -
  have "op_running op d2" if "(d_address d, op) \<in> out k" "op_running op d" for op
    using running
  proof (elim disjE)
    assume "async_task_running d2 = async_task_running (clear_running recv d)"
    then have "op_running op d2 = op_running op (clear_running recv d)" by (rule op_running_same)
    then show ?thesis using that free by auto
  next
    assume "async_task_running d2 = async_task_running (set_running recv d)"
    then have "op_running op d2 = op_running op (set_running recv d)" by (rule op_running_same)
    then show ?thesis using that by simp
  next
    assume "async_task_running d2 = async_task_running d"
    then have "op_running op d2 = op_running op d" by (rule op_running_same)
    then show ?thesis using that by simp
  qed
  then show ?thesis using assms(1,2) free rest by (auto simp: keeps_ops_def)
qed

lemma keeps_recv:
  assumes "port_safe os out" and free: "(d_address d, Op_receive) \<notin> out k"
  shows "keeps_ops out (d, k) (snd (details_recv os len error_code (d, k)))"
proof -
  have cleared: "keeps_ops out (d, k) (clear_running True d, k)"
    by (rule keepsI [where recv = True]) (use free in \<open>simp_all add: clear_running_def\<close>)
  obtain r s' where i: "details_init os (clear_running True d, k) = (r, s')" by (cases "details_init os (clear_running True d, k)")
  have init: "keeps_ops out (d, k) s'"
    using keeps_init [OF assms(1) i] cleared by (auto simp: keeps_ops_def clear_running_def)
  consider (other) "\<not> result_receive_send d" | (failed) "result_receive_send d" "0 \<noteq> d_last_error d"
    | (bytes) "result_receive_send d" "0 = d_last_error d" by blast
  then show ?thesis
  proof cases
    case other
    then show ?thesis by (simp add: details_recv_def keeps_ops_def)
  next
    case failed
    then have "snd (details_recv os len error_code (d, k)) = s'"
      using i by (simp add: details_recv_def then_give_state)
    then show ?thesis using init by simp
  next
    case bytes
    obtain l b d1 where c: "copy_out len d = (l, b, d1)" by (metis prod.exhaust)
    then obtain n where d1: "d1 = d\<lparr>bytes_offset := n\<rparr>" by (auto simp: copy_out_def Let_def)
    have "snd (details_recv os len error_code (d, k)) =
        (if bytes_copied_recv d1 = bytes_offset d1 then (snd (init_recv (clear_running True d1)), k) else (set_running True d1, k))"
      using bytes c by (auto simp: details_recv_def split: prod.splits sum.splits)
    moreover have "keeps_ops out (d, k) (snd (init_recv (clear_running True d1)), k)"
      by (rule keepsI [where recv = True]) (use free in \<open>auto simp: d1 init_recv_def clear_running_def\<close>)
    moreover have "keeps_ops out (d, k) (set_running True d1, k)"
      by (rule keepsI [where recv = True]) (use free in \<open>auto simp: d1 set_running_def\<close>)
    ultimately show ?thesis by simp
  qed
qed

lemma init_send_keeps:
  "d_address (snd (init_send n d)) = d_address d" "d_action (snd (init_send n d)) = d_action d"
  "async_task_running (snd (init_send n d)) = async_task_running d" "bytes_offset (snd (init_send n d)) = bytes_offset d"
  by (simp_all add: init_send_def)

lemma keeps_async_send:
  assumes "(d_address d, Op_send) \<notin> out k"
  shows "keeps_ops out (d, k) (snd (details_async_send message q (d, k)))"
proof -
  have state: "snd (details_async_send message q (d, k)) =
      (case push_bytes message q of Inl _ \<Rightarrow> d | Inr _ \<Rightarrow>
         if queue_empty q then snd (init_send (of_nat (length (cut_message message)))
           (clear_running False (fill_send_buffer (cut_message message) d))) else d, k)"
    by (simp add: details_async_send_def Let_def split: sum.splits prod.splits)
  show ?thesis unfolding state
    by (rule keepsI [where recv = False])
      (use assms in \<open>auto simp: init_send_keeps clear_running_def fill_send_buffer_def split: sum.splits\<close>)
qed

lemma keeps_send:
  assumes "(d_address d, Op_send) \<notin> out k"
  shows "keeps_ops out (d, k) (snd (details_send error_code q (d, k)))"
proof -
  have keep: "keeps_ops out (d, k) (d, k)" by (simp add: keeps_ops_def)
  have first: "keeps_ops out (d, k) (clear_running False (d\<lparr>d_action := Task_receive\<rparr>), k)"
    by (rule keepsI [where recv = False]) (use assms in \<open>auto simp: clear_running_def\<close>)
  have filled: "keeps_ops out (d, k) (snd (init_send n (fill_send_buffer bytes d)), k)"
      "keeps_ops out (d, k) (clear_running False (snd (init_send n (fill_send_buffer bytes d))), k)" for n bytes
    by (rule keepsI [where recv = False]; use assms in \<open>simp add: init_send_keeps clear_running_def fill_send_buffer_def\<close>)+
  have "snd (details_send error_code q (d, k)) \<in>
      {(d, k), (clear_running False (d\<lparr>d_action := Task_receive\<rparr>), k)} \<union>
      {(snd (init_send n (fill_send_buffer bytes d)), k) | n bytes. True} \<union>
      {(clear_running False (snd (init_send n (fill_send_buffer bytes d))), k) | n bytes. True}"
    by (auto simp: details_send_def Let_def split: sum.splits prod.splits if_splits) (metis snd_conv)+
  then show ?thesis using keep first filled by auto
qed

lemma win_connect_ok:
  assumes contract: "port_safe os out" and ok: "state_ok out s" "all_read (fst s)"
    and idle: "\<And>d. m_events (fst s) i = Some d \<Longrightarrow> async_task_running d = 0"
  shows "state_ok out (snd (win_connect os i addr text_value s))"
proof (cases "m_events (fst s) i")
  case None
  then show ?thesis using ok by (simp add: win_connect_def on_details_def)
next
  case (Some d)
  obtain p k where s: "s = (p, k)" by (cases s)
  have okp: "win_ok (out k) p" "all_read p" and at: "m_events p i = Some d" using ok Some by (simp_all add: s state_ok_def)
  obtain res k1 where res: "w_load_connect_ex os (d_socket d) k = (res, k1)" by (cases "w_load_connect_ex os (d_socket d) k")
  have out1: "out k1 = out k" using port_safe_quiet(6) [OF contract, of "d_socket d" k] res by simp
  have same: "win_ok (out k) (set_details i d p)" by (rule win_ok_same [OF okp(1) at]) simp_all
  obtain c k2 where c: "w_connect_ex os (d_socket d) addr (d_address d, Op_receive) k1 = (c, k2)"
    by (cases "w_connect_ex os (d_socket d) addr (d_address d, Op_receive) k1")
  have free: "(d_address d, Op_receive) \<notin> out k" using win_ok_at [OF okp(1) at, of Op_receive] idle [OF Some] by auto
  have out2: "out k2 \<subseteq> (if c \<or> sys_errno os k2 = wsa_io_pending then insert (d_address d, Op_receive) (out k) else out k)"
    using port_safeD(3) [OF contract c] free out1 by (auto simp: at_most_def)
  have early: "c \<Longrightarrow> out k2 = {}" using port_safeD(4) [OF contract, of "d_socket d" addr "(d_address d, Op_receive)" k1 k2] c by (cases c) simp_all
  show ?thesis
  proof (cases "res \<noteq> 0")
    case True
    then show ?thesis using same out1 at res by (simp add: win_connect_def on_details_def details_connect_def s state_ok_def)
  next
    case loaded: False
    show ?thesis
    proof (cases "\<not> c \<and> sys_errno os k2 = wsa_io_pending")
      case True
      have "wait_ok out (set_details i (d\<lparr>async_task_running := 1\<rparr>) p, k2)"
        by (rule start_put [where out = out, OF okp at, of Op_receive])
          (use True out2 idle [OF Some] in auto)
      then show ?thesis using True loaded c at res
        by (simp add: win_connect_def on_details_def details_connect_def s wait_ok_def)
    next
      case False
      then have "out k2 \<subseteq> out k" using out2 early False by (cases "c = True") auto
      then have "win_ok (out k2) (set_details i d p)" by (rule win_ok_less [OF same])
      then show ?thesis using False loaded c at res
        by (auto simp: win_connect_def on_details_def details_connect_def s state_ok_def)
    qed
  qed
qed

section \<open>Runs\<close>

text \<open>
  Any run of the calls, whether they return or throw. A client reads what a wait reports before it waits again
  (\<open>all_read\<close>), reads and sends when the wait reported the call to be over, and connects on an object that is
  idle. The hash map is gone through in any order.
\<close>

definition not_under_way :: "('k \<Rightarrow> overlapped set) \<Rightarrow> io_op \<Rightarrow> u64 \<Rightarrow> 'k win_state \<Rightarrow> bool" where
  "not_under_way out op i s \<longleftrightarrow> (\<forall>d. m_events (fst s) i = Some d \<longrightarrow> (d_address d, op) \<notin> out (snd s))"

inductive win_reached :: "('k, 'x, 'm) win_os_scheme \<Rightarrow> ('k \<Rightarrow> overlapped set) \<Rightarrow> 'k win_state \<Rightarrow> bool" for os out where
  start: "win_new os k0 = (Inr p, k) \<Longrightarrow> out k = {} \<Longrightarrow> win_reached os out (p, k)"
| add: "win_reached os out s \<Longrightarrow> win_reached os out (snd (win_add os fd pid action s))"
| remove: "win_reached os out s \<Longrightarrow> win_reached os out (snd (win_remove pid s))"
| wait: "win_reached os out s \<Longrightarrow> all_read (fst s) \<Longrightarrow> win_reached os out (snd (win_wait os order tm s))"
| wake: "win_reached os out s \<Longrightarrow> win_reached os out (snd (win_wake os s))"
| connect: "win_reached os out s \<Longrightarrow> all_read (fst s) \<Longrightarrow>
    (\<forall>d. m_events (fst s) i = Some d \<longrightarrow> async_task_running d = 0) \<Longrightarrow>
    win_reached os out (snd (win_connect os i addr text_value s))"
| connected: "win_reached os out s \<Longrightarrow> win_reached os out (snd (win_connected_status os i fd s))"
| accepted: "win_reached os out s \<Longrightarrow> win_reached os out (snd (win_accept os i s))"
| recv: "win_reached os out s \<Longrightarrow> not_under_way out Op_receive i s \<Longrightarrow>
    win_reached os out (snd (win_recv os i len error_code s))"
| async_send: "win_reached os out s \<Longrightarrow> not_under_way out Op_send i s \<Longrightarrow>
    win_reached os out (snd (win_async_send i message q s))"
| send: "win_reached os out s \<Longrightarrow> not_under_way out Op_send i s \<Longrightarrow>
    win_reached os out (snd (win_send i error_code q s))"

lemma win_reached_ok:
  assumes contract: "port_safe os B" and less: "\<And>k. B k \<subseteq> out k"
  shows "win_reached os out s \<Longrightarrow> state_ok B s"
proof (induction rule: win_reached.induct)
  case (start k0 p k)
  then have "B k = {}" using less by blast
  then show ?case
    using start by (auto simp: win_new_def state_ok_def win_ok_def split: prod.splits if_splits)
next
  case (add s fd pid action)
  then show ?case by (intro win_add_ok [OF contract])
next
  case (remove s pid)
  then show ?case by (intro win_remove_ok)
next
  case (wait s order tm)
  then show ?case by (intro win_wait_ok [OF contract])
next
  case (wake s)
  then show ?case
    using port_safe_quiet(7) [OF contract] by (cases s) (simp add: win_wake_def state_ok_def)
next
  case (connect s i addr text_value)
  then show ?case by (intro win_connect_ok [OF contract]) auto
next
  case (connected s i fd)
  then show ?case unfolding win_connected_status_def by (intro on_details_ok keeps_status [OF contract])
next
  case (accepted s i)
  then show ?case unfolding win_accept_def by (intro on_details_ok keeps_accept [OF contract])
next
  case (recv s i len error_code)
  then show ?case unfolding win_recv_def
    by (intro on_details_ok keeps_recv [OF contract]) (use less in \<open>auto simp: not_under_way_def\<close>)
next
  case (async_send s i message q)
  then show ?case unfolding win_async_send_def
    by (intro on_details_ok keeps_async_send) (use less in \<open>auto simp: not_under_way_def\<close>)
next
  case (send s i error_code q)
  then show ?case unfolding win_send_def
    by (intro on_details_ok keeps_send) (use less in \<open>auto simp: not_under_way_def\<close>)
qed

section \<open>Examples\<close>

text \<open>A system that takes every call and reports the texts it is given, each as received for the object 0 of the id 1;
  its state is \<open>errno\<close>, the calls under way and the texts.\<close>

type_synonym example = "int \<times> overlapped set \<times> string list"

definition begin_example :: "overlapped \<Rightarrow> example \<Rightarrow> example" where
  "begin_example ov k = (wsa_io_pending, insert ov (fst (snd k)), snd (snd k))"

definition report_example :: "example \<Rightarrow> completion \<times> example" where
  "report_example k =
     (case k of
        (e, B, []) \<Rightarrow> (\<lparr>c_code = False, c_bytes = 0, c_key = 0, c_overlapped = None, c_data = []\<rparr>, k)
      | (e, B, text_value # rest) \<Rightarrow>
          (\<lparr>c_code = True, c_bytes = of_nat (length text_value), c_key = 1, c_overlapped = Some (0, Op_receive), c_data = text_value\<rparr>,
           (0, B - {(0, Op_receive)}, rest)))"

definition base_example :: "('k \<Rightarrow> int) \<Rightarrow> ('k, string) os" where
  "base_example err =
     \<lparr>sys_errno = err, sys_strerror = (\<lambda>_. []), sys_now = (\<lambda>k. (0, k)),
      sys_epoll_create = (\<lambda>k. (3, k)), sys_pipe = (\<lambda>k. ((0, 4, 5), k)),
      sys_fcntl_getfl = (\<lambda>_ k. (0, k)), sys_fcntl_setfl = (\<lambda>_ _ k. (0, k)),
      sys_epoll_add = (\<lambda>_ _ _ _ k. (0, k)), sys_epoll_del = (\<lambda>_ _ _ k. (0, k)),
      sys_epoll_wait = (\<lambda>_ _ _ k. ((0, []), k)), sys_read_byte = (\<lambda>_ k. (1, k)),
      sys_write_byte = (\<lambda>_ k. (1, k)), sys_close = (\<lambda>_ k. (0, k)),
      sys_recv = (\<lambda>_ _ k. ((0, []), k)), sys_send = (\<lambda>_ s k. (int (length s), k)),
      sys_accept = (\<lambda>_ k. (6, k)), sys_connect = (\<lambda>_ _ k. (0, k)), sys_so_error = (\<lambda>_ k. ((0, 0), k)),
      sys_getsockname = (\<lambda>_ k. ((0, []), k)), sys_getpeername = (\<lambda>_ k. ((0, []), k)),
      sys_socket = (\<lambda>_ _ _ k. (7, k)), sys_setsockopt = (\<lambda>_ _ k. (0, k)), sys_bind = (\<lambda>_ _ k. (0, k)),
      sys_listen = (\<lambda>_ _ k. (0, k)), sys_getaddrinfo = (\<lambda>_ _ _ _ k. ((0, []), k)),
      gai_strerror = (\<lambda>_. []), sa_family = (\<lambda>_. 2), inet_ntop = (\<lambda>a. a), sin_port = (\<lambda>_. 80)\<rparr>"

definition example_os :: "(example, string) win_os" where
  "example_os = os.extend (base_example fst)
     (win_os.fields (\<lambda>k. (1, k)) (\<lambda>_ _ _ k. (True, k)) (\<lambda>_ k. k) (\<lambda>k. (8, k)) (\<lambda>_ k. k)
        (\<lambda>_ _ ov k. (False, begin_example ov k)) (\<lambda>_ k. (0, k)) (\<lambda>_ _ ov k. (False, begin_example ov k))
        (\<lambda>_ _ ov k. (socket_error, begin_example ov k)) (\<lambda>_ ov k. (socket_error, begin_example ov k))
        (\<lambda>_ _ k. report_example k) (\<lambda>_ _ _ k. k) (\<lambda>_ k. (0, k)) (\<lambda>k. (0, k)) (\<lambda>k. (0, k)))"

lemma example_os_simps [simp]:
  "sys_errno example_os k = fst k" "sys_now example_os k = (0, k)" "w_port example_os k = (1, k)"
  "w_bind_port example_os fd port i k = (True, k)" "w_socket example_os k = (8, k)" "w_closesocket example_os fd k = k"
  "w_accept_ex example_os fd joined ov k = (False, begin_example ov k)" "w_load_connect_ex example_os fd k = (0, k)"
  "w_connect_ex example_os fd addr ov k = (False, begin_example ov k)"
  "w_wsa_send example_os fd bytes ov k = (socket_error, begin_example ov k)"
  "w_wsa_recv example_os fd ov k = (socket_error, begin_example ov k)"
  "w_get_status example_os port ms k = report_example k" "w_post_status example_os port n key k = k"
  "w_update_context example_os fd k = (0, k)"
  by (simp_all add: example_os_def base_example_def os.defs win_os.defs)

lemma example_os_ok: "port_contract example_os (fst \<circ> snd) (\<lambda>_. False)"
  by (auto simp: port_contract_def unchanged_def call_begins_def begin_example_def report_example_def split: prod.splits list.splits)

definition no_timer :: timer where
  "no_timer = \<lparr>is_set = False, last_point_expired = 0, timer_period = 0\<rparr>"

definition example_state :: "string list \<Rightarrow> example win_state" where
  "example_state texts =
     snd (win_add example_os 5 1 Task_receive (\<lparr>m_completion_port = 1, m_events = Map.empty, next_details = 0\<rparr>, (0, {}, texts)))"

lemma example_state_eq:
  "example_state texts = (\<lparr>m_completion_port = 1, m_events = [1 \<mapsto> details_reset
      \<lparr>d_address = 0, d_action = Task_receive, d_socket = 5, async_task_running = 0, accept_socket = 0,
       receive_buffer = [], send_buffer = [], send_len = buffer_size, d_last_error = 0, bytes_copied_recv = 0,
       bytes_copied_send = 0, result_receive_send = True, bytes_offset = 0\<rparr>], next_details = 1\<rparr>, (0, {}, texts))"
  by (simp add: example_state_def win_add_def details_new_def details_init_def set_details_def Let_def details_reset_def)

lemma example_reached: "win_reached example_os (fst \<circ> snd) (example_state texts)"
  unfolding example_state_def
  by (intro win_reached.add win_reached.start [of _ "(0, {}, texts)"]) (simp_all add: win_new_def)

text \<open>
  A system whose first \<open>AcceptEx\<close> succeeds at once; later ones are pending. The end of a call is reported by
  the port all the same. The state: the error, the calls under way, whether it happened, and the ends not yet reported.
\<close>

type_synonym early_state = "int \<times> overlapped set \<times> bool \<times> overlapped list"

definition begin_early :: "overlapped \<Rightarrow> early_state \<Rightarrow> early_state" where
  "begin_early ov k = (wsa_io_pending, insert ov (fst (snd k)), snd (snd k))"

definition accept_early :: "overlapped \<Rightarrow> early_state \<Rightarrow> bool \<times> early_state" where
  "accept_early ov k =
     (case k of (e, calls, happened, ends) \<Rightarrow>
        if happened then (False, begin_early ov k) else (True, (0, calls, True, ends @ [ov])))"

definition report_early :: "early_state \<Rightarrow> completion \<times> early_state" where
  "report_early k =
     (case k of
        (e, calls, happened, []) \<Rightarrow> (\<lparr>c_code = False, c_bytes = 0, c_key = 0, c_overlapped = None, c_data = []\<rparr>, k)
      | (e, calls, happened, ov # ends) \<Rightarrow>
          (\<lparr>c_code = True, c_bytes = 0, c_key = 1, c_overlapped = Some ov, c_data = []\<rparr>,
           (0, if happened then calls else calls - {ov}, happened, ends)))"

definition early_os :: "(early_state, string) win_os" where
  "early_os = os.extend (base_example fst)
     (win_os.fields (\<lambda>k. (1, k)) (\<lambda>_ _ _ k. (True, k)) (\<lambda>_ k. k) (\<lambda>k. (8, k)) (\<lambda>_ k. k)
        (\<lambda>_ _ ov k. accept_early ov k) (\<lambda>_ k. (0, k)) (\<lambda>_ _ ov k. (False, begin_early ov k))
        (\<lambda>_ _ ov k. (socket_error, begin_early ov k)) (\<lambda>_ ov k. (socket_error, begin_early ov k))
        (\<lambda>_ _ k. report_early k) (\<lambda>_ _ _ k. k) (\<lambda>_ k. (0, k)) (\<lambda>k. (0, k)) (\<lambda>k. (0, k)))"

lemma early_os_simps [simp]:
  "sys_errno early_os k = fst k" "sys_now early_os k = (0, k)" "w_port early_os k = (1, k)"
  "w_bind_port early_os fd port i k = (True, k)" "w_socket early_os k = (8, k)" "w_closesocket early_os fd k = k"
  "w_accept_ex early_os fd joined ov k = accept_early ov k" "w_load_connect_ex early_os fd k = (0, k)"
  "w_connect_ex early_os fd addr ov k = (False, begin_early ov k)"
  "w_wsa_send early_os fd bytes ov k = (socket_error, begin_early ov k)"
  "w_wsa_recv early_os fd ov k = (socket_error, begin_early ov k)"
  "w_get_status early_os port ms k = report_early k" "w_post_status early_os port n key k = k"
  "w_update_context early_os fd k = (0, k)"
  by (simp_all add: early_os_def base_example_def os.defs win_os.defs)

lemma early_os_ok: "port_contract early_os (fst \<circ> snd) (fst \<circ> snd \<circ> snd)"
  by (auto simp: port_contract_def unchanged_def call_begins_def begin_early_def accept_early_def report_early_def
      split: prod.splits list.splits)

text \<open>A listening socket is added, a wait reports the connection that came at once, the client takes it; the next wait
  begins another \<open>AcceptEx\<close> and gets the report of the first; the client closes the socket and waits.\<close>

definition early_run :: "nat \<Rightarrow> early_state win_state" where
  "early_run n =
     (let s = (\<lparr>m_completion_port = 1, m_events = Map.empty, next_details = 0\<rparr>, (0, {}, False, []));
          add = \<lambda>s. snd (win_add early_os 5 1 Task_accept s);
          wait = \<lambda>s. snd (win_wait early_os [1] no_timer s);
          take = \<lambda>s. snd (win_accept early_os 1 s);
          remove = \<lambda>s. snd (win_remove 1 s)
      in fold (\<lambda>step s. step s) (List.take n [add, wait, take, wait, remove, wait]) s)"

lemmas early_run_unfold = early_run_def win_add_def details_new_def details_init_def set_details_def Let_def details_reset_def
  win_wait_def erase_idle_def then_do_def start_one_def start_accept_def begin_early_def accept_early_def report_early_def
  take_completion_def win_milliseconds_def no_timer_def end_op_def clear_running_def op_bit_def win_accept_def on_details_def
  details_accept_def win_remove_def give_def

lemma accept_loop_early: "accept_ex_loop early_os fd joined ov (e, calls, happened, ends) =
    Some (accept_early ov (e, calls, happened, ends))"
  by (subst accept_ex_loop.simps) (simp add: accept_early_def begin_early_def)

lemma early_run_steps:
  "early_run 2 = snd (win_wait early_os [1] no_timer (early_run 1))"
  "early_run 3 = snd (win_accept early_os 1 (early_run 2))"
  "early_run 4 = snd (win_wait early_os [1] no_timer (early_run 3))"
  "early_run 5 = snd (win_remove 1 (early_run 4))"
  "early_run 6 = snd (win_wait early_os [1] no_timer (early_run 5))"
  by (simp_all add: early_run_def eval_nat_numeral Let_def)

lemma early_run_read: "all_read (fst (early_run 1))" "all_read (fst (early_run 3))" "all_read (fst (early_run 5))"
  by (auto simp: early_run_unfold accept_loop_early all_read_def split: option.splits if_splits)

lemma early_run_reached: "win_reached early_os (fst \<circ> snd) (early_run 6)"
proof -
  have "win_reached early_os (fst \<circ> snd) (\<lparr>m_completion_port = 1, m_events = Map.empty, next_details = 0\<rparr>, (0, {}, False, []))"
    by (rule win_reached.start [of _ "(0, {}, False, [])"]) (simp_all add: win_new_def)
  then have "win_reached early_os (fst \<circ> snd) (early_run 1)"
    using win_reached.add by (fastforce simp: early_run_def Let_def)
  then show ?thesis
    by (simp only: early_run_steps(5,4,3,2,1) win_reached.wait win_reached.accepted win_reached.remove
        early_run_read [unfolded early_run_steps(5,4,3,2,1)] early_run_read)
qed

lemma early_run_forgets:
  "(0, Op_receive) \<in> fst (snd (snd (early_run 4)))"
  "\<exists>d. m_events (fst (early_run 4)) 1 = Some d \<and> d_address d = 0 \<and> \<not> op_running Op_receive d"
  by (simp_all add: early_run_unfold accept_loop_early)

lemma early_run_dropped:
  "(0, Op_receive) \<in> fst (snd (snd (early_run 6)))" "m_events (fst (early_run 6)) = Map.empty"
  by (auto simp: early_run_unfold accept_loop_early split: option.splits if_splits)

section \<open>Properties\<close>




text \<open>Bytes that were reported and not read are lost by another wait.\<close>

lemma unread_bytes_lost:
  "let s1 = win_wait example_os [1] no_timer (example_state [''ab'', ''cd'']);
       s2 = win_wait example_os [1] no_timer (snd s1)
   in fst s1 = Inr ([1], False) \<and> fst s2 = Inr ([1], False) \<and>
      fst (win_recv example_os 1 100 0 (snd s2)) = Inr (2, ''cd'', 0)"
  by (simp add: example_state_eq win_wait_def erase_idle_def then_do_def start_one_def start_send_def start_recv_def set_details_def
      details_reset_def begin_example_def report_example_def take_completion_def win_milliseconds_def no_timer_def end_op_def
      clear_running_def op_bit_def win_recv_def on_details_def details_recv_def copy_out_def init_recv_def Let_def)

text \<open>The number of an error of \<open>WSAStartup\<close> is added to the pointer to a text of 30 characters.\<close>

lemma win_startup_undefined: "w_startup os k = (err, k') \<Longrightarrow> 30 < err \<Longrightarrow> win_startup os k = (Inl Undefined, k')"
  by (simp add: win_startup_def)

text \<open>A timer that expired a millisecond ago is a wait without limit.\<close>

lemma win_expired_timer:
  assumes "is_set tm" "sys_now os k = (now, k')" "last_point_expired tm + timer_period tm - now = - 1000000"
  shows "fst (win_milliseconds os tm k) = - 1"
  using assms by (simp add: win_milliseconds_def to_milliseconds_def)

end
