(* ===== verification/Delegate.thy ===== *)
theory Delegate
  imports Prelude
begin

text \<open>
  \<open>delegate\<close> of \<open>src/belt.pp/delegate.hpp\<close>: a function, a member function of an object, a constant one, or a data
  member of an object, called through one operator. A function takes its arguments and the state it
  works on; objects are named by \<open>'o\<close>. The members are not set before the first \<open>bind\<close> or \<open>init\<close>.
\<close>

record ('o, 'a, 's, 'r) delegate =
  m_pob :: "'o option"
  m_fptr :: "('a \<Rightarrow> ('s, 'r) call) option"
  m_mfptr :: "('o \<Rightarrow> 'a \<Rightarrow> ('s, 'r) call) option"
  m_cmfptr :: "('o \<Rightarrow> 'a \<Rightarrow> ('s, 'r) call) option"

definition delegate_init :: "('o, 'a, 's, 'r) delegate" where
  "delegate_init = \<lparr>m_pob = None, m_fptr = None, m_mfptr = None, m_cmfptr = None\<rparr>"

definition fptr_wrapper :: "('a \<Rightarrow> ('s, 'r) call) \<Rightarrow> 'a \<Rightarrow> ('s, 'r) call" where
  "fptr_wrapper fptr args = fptr args"

definition bind_fptr :: "('a \<Rightarrow> ('s, 'r) call) \<Rightarrow> ('o, 'a, 's, 'r) delegate \<Rightarrow> ('o, 'a, 's, 'r) delegate" where
  "bind_fptr fptr d = delegate_init\<lparr>m_fptr := Some (fptr_wrapper fptr)\<rparr>"

definition mfptr_wrapper :: "('o \<Rightarrow> 'a \<Rightarrow> ('s, 'r) call) \<Rightarrow> 'o \<Rightarrow> 'a \<Rightarrow> ('s, 'r) call" where
  "mfptr_wrapper mfptr pob args = mfptr pob args"

definition bind_mfptr ::
  "('o \<Rightarrow> 'a \<Rightarrow> ('s, 'r) call) \<Rightarrow> 'o \<Rightarrow> ('o, 'a, 's, 'r) delegate \<Rightarrow> ('o, 'a, 's, 'r) delegate" where
  "bind_mfptr mfptr ob d = delegate_init\<lparr>m_mfptr := Some (mfptr_wrapper mfptr), m_pob := Some ob\<rparr>"

text \<open>A data member is read from the object; the arguments are not used.\<close>

definition mptr_wrapper :: "('o \<Rightarrow> 's \<Rightarrow> 'r) \<Rightarrow> 'o \<Rightarrow> 'a \<Rightarrow> ('s, 'r) call" where
  "mptr_wrapper mptr pob args s = (Inr (mptr pob s), s)"

definition bind_mptr :: "('o \<Rightarrow> 's \<Rightarrow> 'r) \<Rightarrow> 'o \<Rightarrow> ('o, 'a, 's, 'r) delegate \<Rightarrow> ('o, 'a, 's, 'r) delegate" where
  "bind_mptr mptr ob d = delegate_init\<lparr>m_mfptr := Some (mptr_wrapper mptr), m_pob := Some ob\<rparr>"

definition cmfptr_wrapper :: "('o \<Rightarrow> 'a \<Rightarrow> ('s, 'r) call) \<Rightarrow> 'o \<Rightarrow> 'a \<Rightarrow> ('s, 'r) call" where
  "cmfptr_wrapper cmfptr pob args = cmfptr pob args"

definition bind_cmfptr ::
  "('o \<Rightarrow> 'a \<Rightarrow> ('s, 'r) call) \<Rightarrow> 'o \<Rightarrow> ('o, 'a, 's, 'r) delegate \<Rightarrow> ('o, 'a, 's, 'r) delegate" where
  "bind_cmfptr cmfptr ob d = delegate_init\<lparr>m_cmfptr := Some (cmfptr_wrapper cmfptr), m_pob := Some ob\<rparr>"

text \<open>A member function without its object would be undefined; the binds set both.\<close>

definition delegate_call :: "('o, 'a, 's, 'r) delegate \<Rightarrow> 'a \<Rightarrow> ('s, 'r) call" where
  "delegate_call d args s =
     (case m_fptr d of
        Some f \<Rightarrow> f args s
      | None \<Rightarrow>
          (case m_mfptr d of
             Some f \<Rightarrow> (case m_pob d of Some ob \<Rightarrow> f ob args s | None \<Rightarrow> (Inl Undefined, s))
           | None \<Rightarrow>
               (case m_cmfptr d of
                  Some f \<Rightarrow> (case m_pob d of Some ob \<Rightarrow> f ob args s | None \<Rightarrow> (Inl Undefined, s))
                | None \<Rightarrow> (Inl (Logic_error ''uninitialized delegate''), s))))"

text \<open>A call goes to what was bound last, whatever was bound before.\<close>

lemma delegate_calls_last:
  "delegate_call (bind_fptr f d) args s = f args s"
  "delegate_call (bind_mfptr g ob d) args s = g ob args s"
  "delegate_call (bind_cmfptr g ob d) args s = g ob args s"
  "delegate_call (bind_mptr member ob d) args s = (Inr (member ob s), s)"
  "delegate_call delegate_init args s = (Inl (Logic_error ''uninitialized delegate''), s)"
  by (simp_all add: delegate_call_def bind_fptr_def bind_mfptr_def bind_cmfptr_def bind_mptr_def delegate_init_def
      fptr_wrapper_def mfptr_wrapper_def cmfptr_wrapper_def mptr_wrapper_def)

end
