(* ===== verification/Owned_Pointer.thy ===== *)
theory Owned_Pointer
  imports Prelude
begin

text \<open>
  The owning pointers of \<open>src/belt.pp/global.hpp\<close>: \<open>t_unique_ptr\<close>, a pointer with the function that deletes
  what it points to, and the functions that make one. Objects live in a store of addresses; \<open>is_a c v\<close> says
  that the object \<open>v\<close> is of the class \<open>c\<close> or of one derived from it, and \<open>copy_as c v\<close> is the object that the copy
  constructor of \<open>c\<close> makes of it. Both are parameters, for the classes are those of the callers.
\<close>

section \<open>Objects\<close>

record 'v heap =
  objects :: "nat \<rightharpoonup> 'v"
  next_address :: nat

definition allocate :: "'v \<Rightarrow> 'v heap \<Rightarrow> nat \<times> 'v heap" where
  "allocate v h =
     (next_address h, h\<lparr>objects := (objects h)(next_address h \<mapsto> v), next_address := Suc (next_address h)\<rparr>)"

text \<open>Deleting what is not there, or no longer, is undefined.\<close>

definition free_object :: "nat \<Rightarrow> ('v heap, unit) call" where
  "free_object a h =
     (case objects h a of None \<Rightarrow> (Inl Undefined, h) | Some _ \<Rightarrow> (Inr (), h\<lparr>objects := (objects h)(a := None)\<rparr>))"

section \<open>Pointers\<close>

datatype ('c, 'v) deleter =
    Delete_nothing
  | Delete_dynamic 'c
  | Delete_static 'c
  | Delete_plain
  | Delete_custom "nat \<Rightarrow> ('v heap, unit) call"

record ('c, 'v) owned =
  pointee :: "nat option"
  deleter_of :: "('c, 'v) deleter"

fun run_deleter :: "('c \<Rightarrow> 'v \<Rightarrow> bool) \<Rightarrow> ('c, 'v) deleter \<Rightarrow> nat \<Rightarrow> ('v heap, unit) call" where
  "run_deleter is_a Delete_nothing a h = (Inr (), h)"
| "run_deleter is_a (Delete_dynamic c) a h =
     (case objects h a of
        None \<Rightarrow> (Inl Undefined, h)
      | Some v \<Rightarrow> if is_a c v then free_object a h else (Inr (), h))"
| "run_deleter is_a (Delete_static c) a h =
     (case objects h a of
        None \<Rightarrow> (Inl Undefined, h)
      | Some v \<Rightarrow> if is_a c v then free_object a h else (Inl Undefined, h))"
| "run_deleter is_a Delete_plain a h = free_object a h"
| "run_deleter is_a (Delete_custom f) a h = f a h"

definition owned_destroy :: "('c \<Rightarrow> 'v \<Rightarrow> bool) \<Rightarrow> ('c, 'v) owned \<Rightarrow> ('v heap, unit) call" where
  "owned_destroy is_a u h = (case pointee u of None \<Rightarrow> (Inr (), h) | Some a \<Rightarrow> run_deleter is_a (deleter_of u) a h)"

text \<open>\<open>reset\<close> of a pointer that holds nothing yet.\<close>

definition owned_take :: "nat option \<Rightarrow> ('c, 'v) owned \<Rightarrow> ('c, 'v) owned" where
  "owned_take p u = u\<lparr>pointee := p\<rparr>"

definition t_unique_nullptr :: "('c, 'v) owned" where
  "t_unique_nullptr = \<lparr>pointee = None, deleter_of = Delete_nothing\<rparr>"

definition void_unique_nullptr :: "('c, 'v) owned" where
  "void_unique_nullptr = t_unique_nullptr"

definition nullptr_dc_unique_ptr :: "'c \<Rightarrow> ('c, 'v) owned" where
  "nullptr_dc_unique_ptr c = \<lparr>pointee = None, deleter_of = Delete_dynamic c\<rparr>"

definition new_dc_unique_ptr :: "'c \<Rightarrow> 'v \<Rightarrow> 'v heap \<Rightarrow> ('c, 'v) owned \<times> 'v heap" where
  "new_dc_unique_ptr c v h =
     (let u = nullptr_dc_unique_ptr c; (a, h) = allocate v h in (owned_take (Some a) u, h))"

text \<open>The reference to what a failed \<open>dynamic_cast\<close> gives, a null pointer, is undefined.\<close>

definition new_dc_unique_ptr_copy ::
  "('c \<Rightarrow> 'v \<Rightarrow> bool) \<Rightarrow> ('c \<Rightarrow> 'v \<Rightarrow> 'v) \<Rightarrow> 'c \<Rightarrow> nat option \<Rightarrow> ('v heap, ('c, 'v) owned) call" where
  "new_dc_unique_ptr_copy is_a copy_as c pother h =
     (case Option.bind pother (objects h) of
        None \<Rightarrow> (Inl Undefined, h)
      | Some v \<Rightarrow>
          if is_a c v
          then let u = nullptr_dc_unique_ptr c; (a, h) = allocate (copy_as c v) h in (Inr (owned_take (Some a) u), h)
          else (Inl Undefined, h))"

definition nullptr_sc_unique_ptr :: "'c \<Rightarrow> ('c, 'v) owned" where
  "nullptr_sc_unique_ptr c = \<lparr>pointee = None, deleter_of = Delete_static c\<rparr>"

definition new_sc_unique_ptr :: "'c \<Rightarrow> 'v \<Rightarrow> 'v heap \<Rightarrow> ('c, 'v) owned \<times> 'v heap" where
  "new_sc_unique_ptr c v h =
     (let u = nullptr_sc_unique_ptr c; (a, h) = allocate v h in (owned_take (Some a) u, h))"

definition new_sc_unique_ptr_copy ::
  "('c \<Rightarrow> 'v \<Rightarrow> bool) \<Rightarrow> ('c \<Rightarrow> 'v \<Rightarrow> 'v) \<Rightarrow> 'c \<Rightarrow> nat option \<Rightarrow> ('v heap, ('c, 'v) owned) call" where
  "new_sc_unique_ptr_copy is_a copy_as c pother h =
     (case Option.bind pother (objects h) of
        None \<Rightarrow> (Inl Undefined, h)
      | Some v \<Rightarrow>
          if is_a c v
          then let u = nullptr_sc_unique_ptr c; (a, h) = allocate (copy_as c v) h in (Inr (owned_take (Some a) u), h)
          else (Inl Undefined, h))"

definition new_void_unique_ptr :: "'c \<Rightarrow> 'v \<Rightarrow> 'v heap \<Rightarrow> ('c, 'v) owned \<times> 'v heap" where
  "new_void_unique_ptr = new_sc_unique_ptr"

definition new_void_unique_ptr_copy ::
  "('c \<Rightarrow> 'v \<Rightarrow> bool) \<Rightarrow> ('c \<Rightarrow> 'v \<Rightarrow> 'v) \<Rightarrow> 'c \<Rightarrow> nat option \<Rightarrow> ('v heap, ('c, 'v) owned) call" where
  "new_void_unique_ptr_copy = new_sc_unique_ptr_copy"

definition nullptr_unique_ptr :: "('c, 'v) owned" where
  "nullptr_unique_ptr = \<lparr>pointee = None, deleter_of = Delete_plain\<rparr>"

text \<open>The new pointer, and what is left of the other one.\<close>

definition take_unique_ptr :: "nat option \<Rightarrow> ('c, 'v) owned \<times> nat option" where
  "take_unique_ptr pother = (owned_take pother nullptr_unique_ptr, None)"

definition custom_ptr :: "nat option \<Rightarrow> ('c, 'v) deleter \<Rightarrow> ('c, 'v) owned" where
  "custom_ptr pother deleter = \<lparr>pointee = pother, deleter_of = deleter\<rparr>"

definition raw_ptr :: "nat option \<Rightarrow> ('c, 'v) owned" where
  "raw_ptr pother = owned_take pother t_unique_nullptr"

section \<open>Ownership\<close>

definition heap_ok :: "'v heap \<Rightarrow> bool" where
  "heap_ok h \<longleftrightarrow> (\<forall>a \<ge> next_address h. objects h a = None)"

lemmas owned_defs = new_dc_unique_ptr_def new_sc_unique_ptr_def new_void_unique_ptr_def new_dc_unique_ptr_copy_def
  new_sc_unique_ptr_copy_def new_void_unique_ptr_copy_def nullptr_dc_unique_ptr_def nullptr_sc_unique_ptr_def
  owned_take_def allocate_def Let_def

text \<open>An object is there while its pointer is, and gone after it; the others stay.\<close>

definition owns :: "('c \<Rightarrow> 'v \<Rightarrow> bool) \<Rightarrow> ('c, 'v) owned \<Rightarrow> 'v \<Rightarrow> 'v heap \<Rightarrow> 'v heap \<Rightarrow> bool" where
  "owns is_a u v before h \<longleftrightarrow>
     heap_ok h \<and> (\<exists>a. pointee u = Some a \<and> objects before a = None \<and> objects h = (objects before)(a \<mapsto> v)) \<and>
     (\<exists>h'. owned_destroy is_a u h = (Inr (), h') \<and> objects h' = objects before)"

lemma fresh_owned:
  assumes "heap_ok h" "is_a c v" "d = Delete_dynamic c \<or> d = Delete_static c"
  shows "owns is_a \<lparr>pointee = Some (next_address h), deleter_of = d\<rparr> v h
    (h\<lparr>objects := (objects h)(next_address h \<mapsto> v), next_address := Suc (next_address h)\<rparr>)"
proof -
  have "objects h (next_address h) = None" using assms(1) by (simp add: heap_ok_def)
  then have "(objects h)(next_address h := None) = objects h" by auto
  then show ?thesis
    using assms \<open>objects h (next_address h) = None\<close>
    by (auto simp: owns_def heap_ok_def owned_destroy_def free_object_def)
qed

lemma new_owns:
  assumes "heap_ok h" "is_a c v"
  shows "new_dc_unique_ptr c v h = (u, h') \<Longrightarrow> owns is_a u v h h'"
    "new_sc_unique_ptr c v h = (u, h') \<Longrightarrow> owns is_a u v h h'"
  using fresh_owned [of h is_a c v] assms by (auto simp: owned_defs)

lemma copy_owns:
  assumes "heap_ok h" "objects h a = Some v" "is_a c v" "is_a c (copy_as c v)"
  shows "\<exists>u h'. new_dc_unique_ptr_copy is_a copy_as c (Some a) h = (Inr u, h') \<and> owns is_a u (copy_as c v) h h'"
    "\<exists>u h'. new_sc_unique_ptr_copy is_a copy_as c (Some a) h = (Inr u, h') \<and> owns is_a u (copy_as c v) h h'"
  using fresh_owned [of h is_a c "copy_as c v"] assms by (auto simp: owned_defs)

text \<open>A taken pointer is the only one that deletes, a raw one never does, and a pointer that was made for another
  class by \<open>custom_ptr\<close> with a dynamic deleter leaves its object behind.\<close>

lemma take_and_raw:
  "snd (take_unique_ptr p) = None" "pointee (fst (take_unique_ptr p)) = p"
  "objects h a = Some v \<Longrightarrow> \<exists>h'. owned_destroy is_a (fst (take_unique_ptr (Some a))) h = (Inr (), h') \<and> objects h' a = None"
  "owned_destroy is_a (raw_ptr p) h = (Inr (), h)"
  "objects h a = Some v \<Longrightarrow> \<not> is_a c v \<Longrightarrow> owned_destroy is_a (custom_ptr (Some a) (Delete_dynamic c)) h = (Inr (), h)"
  by (auto simp: take_unique_ptr_def raw_ptr_def custom_ptr_def t_unique_nullptr_def nullptr_unique_ptr_def owned_take_def
      owned_destroy_def free_object_def split: option.splits)

end
