(* ===== verification/Spec2Isabelle.thy ===== *)
theory Spec2Isabelle
  imports Ring_Queue Numbers Meta Packet Scan Json_Lexers Http_Protocol Socket_Stream Socket_Invariant Direct_Stream Processor Math_Expression Idl_Properties Idl_Main Idl_Lexers Async_Processor Strand Log Poll_Kqueue Poll_Windows Delegate Owned_Pointer
begin

text \<open>
  A model of belt.pp, a C++ library for event driven programs that exchange messages: a parser
  with pluggable lexers, the JSON, HTTP and arithmetic readers built on it, typed packets, sockets
  around an event handler, streams between the parts of one process, pools of worker threads, logs,
  and the program that generates message classes from a description. The paths below are relative to
  \<open>src/src\<close>.

  \<^bold>\<open>The parts and how they interact.\<close> A program owns an event handler (\<open>libsocket/event.cpp\<close>) and
  sockets (\<open>libsocket/socket.cpp\<close>). The handler keeps a table of slots (\<open>event_impl.hpp\<close>), one for
  each registered descriptor, and a poll object around epoll, kqueue or a completion port
  (\<open>poll_master.hpp\<close>). A socket keeps a table of channels; both tables are lists of ring buffers
  (\<open>belt.pp/queue.hpp\<close>) whose absolute indices serve as ids. The handler's \<open>wait\<close> collects the ids of
  slots that are ready, the socket's \<open>receive\<close> goes through them: it completes connections, accepts new
  ones, reads bytes into the receive queue of a channel and hands them to a message loader, which is a
  scanner for HTTP (\<open>belt.pp/http.hpp\<close>) or a parser for JSON (\<open>belt.pp/parser.hpp\<close>, \<open>belt.pp/json.hpp\<close>),
  and gives packets (\<open>libpacket\<close>) back. The same packets go through the streams of
  \<open>libdirect_stream\<close> within a process, and to the worker threads of \<open>libprocessor\<close>, which answer with
  packets. \<open>belt.pp/async\<close> builds threads of its own on such a pool. The program \<open>idl\<close> parses a
  description of messages and writes the classes that turn packets into JSON and back.

  \<^bold>\<open>Theories: basics.\<close>
  \<^item> \<open>Prelude\<close>: failures as values, calls that pass a state, facts on words and lists.
  \<^item> \<open>Ring_Queue\<close>: \<open>belt.pp/queue.hpp\<close>; the record \<open>queue\<close> has the fields of the class, every method
    is a function of that record. Shown: it refines a FIFO list, absolute indices survive growth,
    the one state in which growing fails, termination of the power-of-two loops.
  \<^item> \<open>Numbers\<close>, \<open>Owned_Pointer\<close>: the conversions and the owning pointers of \<open>global.hpp\<close>; \<open>Meta\<close>,
    \<open>Packet\<close>, \<open>Scope_Helper\<close>, \<open>Timer\<close>, \<open>Delegate\<close>: \<open>meta.hpp\<close>, \<open>libpacket\<close>, \<open>scope_helper.hpp\<close>,
    \<open>timer.hpp\<close>, \<open>delegate.hpp\<close>. Shown: a packet is never read as another type, a timer catches up,
    an object is deleted once and by its own deleter.
  \<^item> \<open>Calendar\<close>, \<open>Utility\<close>, \<open>Log\<close>: \<open>libutility\<close> with the dates of the C library it uses, and \<open>liblog\<close>.
    Shown: a time written as text is read back.

  \<^bold>\<open>Theories: readers.\<close>
  \<^item> \<open>Expression_Tree\<close>, \<open>Parser_Core\<close>, \<open>Tree_Refinement\<close>, \<open>Parser_Driver\<close>, \<open>Scan\<close>: \<open>parser.hpp\<close>. The
    nodes live in a memory of records linked by indices, as in the code; \<open>Tree_Refinement\<close> shows
    that placing a token there is placing it in a syntax tree. \<open>Scan\<close> states the grammar of numbers by itself and
    shows that \<open>check_number\<close> takes the longest prefix in it.
  \<^item> \<open>Json_String\<close>, \<open>Json_Lexers\<close>: \<open>json.hpp\<close>; coding of strings and totality of the parser.
  \<^item> \<open>Math_Expression\<close>: \<open>math_expression.hpp\<close>; an expression of the usual grammar is parsed to a tree
    with the value the grammar gives it.
  \<^item> \<open>Strings\<close>, \<open>Http\<close>, \<open>Http_Request\<close>, \<open>Http_Protocol\<close>: \<open>http.hpp\<close> and \<open>message_global.hpp\<close>; the
    scanner gives the same answer however a request arrives in pieces, while it is within the limit on its
    length; beyond it the answers can differ, which is shown too.

  \<^bold>\<open>Theories: sockets and streams.\<close>
  \<^item> \<open>Ip_Address\<close>: the addresses of \<open>isocket.hpp\<close> and their text.
  \<^item> \<open>Os_Interface\<close>, \<open>Poll_Master\<close>, \<open>Slot_Table\<close>, \<open>Event_Handler\<close>: the poll object for Linux and the event
    handler over a record of system calls. The table of slots is an instance of the locale
    \<open>handle_table\<close>, that of the channels another.
  \<^item> \<open>Poll_Kqueue\<close>, \<open>Poll_Windows\<close>: the poll objects for macOS and Windows, the latter with the functions
    of \<open>libsocket/native.cpp\<close> that differ there. Shown: how long the first may wait; that the buffers
    the second has lent to the system stay where they are until \<open>AcceptEx\<close> or \<open>ConnectEx\<close> first succeeds at
    once; and a run in which they do not after that.
  \<^item> \<open>Native_Socket\<close>, \<open>Socket_Address\<close>, \<open>Channels\<close>, \<open>Socket\<close>: the socket on Linux. \<open>Socket_Stream\<close>
    shows that a stream refines one that keeps a plain text in place of the ring buffer, for any loader, and
    \<open>Socket_Invariant\<close> that every slot leads to an open channel that leads back, over any run of calls.
  \<^item> \<open>Stream_Messages\<close>, \<open>Direct_Stream\<close>: \<open>libdirect_stream\<close>; the streams of a channel are mailboxes with a
    list of packets for each pair of streams.

  \<^bold>\<open>Theories: threads.\<close>
  \<^item> \<open>Processor\<close>: \<open>processor_ex\<close> of \<open>libprocessor\<close>; each package is taken once, finished once and its results
    are received once, and the pool comes to rest, whatever the interleaving; also how one of two
    callers of \<open>wait\<close> can be left asleep.
  \<^item> \<open>Processor_Old\<close>, \<open>Async_Processor\<close>: the pools without results, each simulated by the one before, with
    the calls of the tasks recorded: each task is called once.
  \<^item> \<open>Strand\<close>: \<open>async/multithreading.h\<close>; the tasks of a thread run in order and none twice, and the one way
    in which a task is lost.

  \<^bold>\<open>Theories: the generator.\<close>
  \<^item> \<open>Idl_Text\<close>, \<open>Idl_Types\<close>, \<open>Idl_Code\<close>, \<open>Idl_Generator\<close>: \<open>idl/generator.cpp\<close>, over a tree of tags, texts
    and children; the section of the output each function appends is a definition.
  \<^item> \<open>Idl_Braces\<close>, \<open>Idl_Order\<close>, \<open>Idl_Properties\<close>: the braces of the output are balanced, the classes come
    after those they mention, and the generator fails exactly when these form a cycle.
  \<^item> \<open>Idl_Main\<close>: \<open>idl/main.cpp\<close> from the parsed tree to the files, with the replacing of placeholders and
    when it ends. \<open>Idl_Lexers\<close>: the lexers of \<open>idl_parser.hpp\<close>; a keyword is an identifier too, and
    how the lexer of comments tells them from other text.

  \<^bold>\<open>Conventions.\<close> A method that changes an object is a function from the old record to a result and
  the new record; \<open>failure\<close> has a constructor for each kind of exception, one for the end of the
  program (\<open>Terminates\<close>: a throw in a \<open>noexcept\<close> function or a destructor), one for undefined
  behaviour and one for a loop that does not end (\<open>Diverges\<close>). Unsigned integers are words of
  their width. Loops that may not end are \<open>partial_function (option)\<close>, and that they end is a theorem
  where they do. Classes that several threads use are step relations in which a critical section, a
  notification or a step outside the lock is one step. Asserts are compiled out, as in a release build.

  \<^bold>\<open>Bounds.\<close> The facts on tables hold while fewer than \<open>2 ^ 62\<close> ids have been given out, those on
  byte queues while fewer than \<open>2 ^ 63\<close> bytes have passed, since the absolute indices are 64-bit
  words; those on texts assume that a text and its tree fit into the limits the parser is given.

  \<^bold>\<open>Parameters.\<close> The system calls (records of functions over a state of the system, with
  contracts from their manuals where a property needs one), the message loader and the handler of
  a session, the order in which a hash container is gone through, \<open>prepare_wait\<close> of event items, the \<open>wake\<close>
  of the event handlers of direct streams, the worker function of a pool, \<open>strtod\<close>, the time zone and what
  \<open>strftime\<close> stores for fields outside their ranges, the three big texts of \<open>idl/resources.cpp\<close>.

  \<^bold>\<open>Not modelled.\<close>
  \<^item> The branch \<open>PARSE_OLD\<close> of \<open>parser.hpp\<close> is compiled out. The loop that asked the lexers of
    \<open>idl_parser.hpp\<close> is in it, so reading and parsing the description in \<open>idl/main.cpp\<close> is left out too.
  \<^item> \<open>json::parse_stream\<close> calls an overload of \<open>parse\<close> that no longer exists.
  \<^item> Floating point: \<open>stof\<close>, \<open>stod\<close>, \<open>random_in_range\<close>.
  \<^item> \<open>tls.hpp\<close> tries out a Boost.Asio stream over OpenSSL, and the rest of it is compiled out; what it does is
    what those libraries do.
  \<^item> The error texts and tests of error numbers for Windows in \<open>native.hpp\<close>; the socket on macOS and Windows. The
    mutexes of socket and event handler: each is run by one thread.
  \<^item> Interface classes and templates that only look at types have no behaviour; the test programs use the
    libraries and add nothing to them.
\<close>

end
